(* ===== verification/PriotBase.thy ===== *)
theory PriotBase
  imports Main "HOL-Library.Word"
begin

text \<open>
  The prelude of the development: the machine types of the C code, the outcome of a C function
  that may return NULL or touch memory outside its object, and the generic facts about words,
  bits and lists that the component theories share.

  The C types are kept at their width (LP64, the platform the sources are built for):
  \<^item> \<open>u_char\<close>, \<open>uint8_t\<close> are \<open>u8\<close>; \<open>uint16_t\<close> is \<open>u16\<close>; \<open>uint32_t\<close>,
    \<open>u_int\<close>, \<open>int\<close> and \<open>oid\<close> (src/Firmware/Core/Generals.h) are \<open>u32\<close>;
  \<^item> \<open>long\<close>, \<open>u_long\<close> and \<open>size_t\<close> are \<open>u64\<close>. Signedness is a matter of how a
    word is read (\<open>sint\<close> or \<open>unat\<close>, arithmetic or logical shift).
\<close>

type_synonym u8 = "8 word"
type_synonym u16 = "16 word"
type_synonym u32 = "32 word"
type_synonym u64 = "64 word"
type_synonym oid = "32 word"
type_synonym size_t = "64 word"

unbundle bit_operations_syntax

section \<open>Outcomes of C functions\<close>

text \<open>
  \<open>Crash\<close>: the function read or wrote outside the object its pointer points into.
  \<open>Null\<close>: it reported an error (returned NULL, or 0 in the functions that return a flag).
  \<open>Ret x\<close>: it returned, with result and output parameters \<open>x\<close>.
\<close>

datatype 'a outcome = Crash | Null | Ret 'a

fun obind :: "'a outcome \<Rightarrow> ('a \<Rightarrow> 'b outcome) \<Rightarrow> 'b outcome" where
  "obind Crash f = Crash"
| "obind Null f = Null"
| "obind (Ret x) f = f x"

lemma obind_Ret_iff: "obind m f = Ret y \<longleftrightarrow> (\<exists>x. m = Ret x \<and> f x = Ret y)"
  by (cases m) auto

lemma obind_Crash_iff: "obind m f = Crash \<longleftrightarrow> m = Crash \<or> (\<exists>x. m = Ret x \<and> f x = Crash)"
  by (cases m) auto

lemma obind_assoc [simp]: "obind (obind m f) g = obind m (\<lambda>x. obind (f x) g)"
  by (cases m) auto

lemma obind_RetE:
  assumes "obind m f = Ret y"
  obtains x where "m = Ret x" and "f x = Ret y"
  using assms by (auto simp: obind_Ret_iff)

lemma obind_cong [fundef_cong]:
  "m = m' \<Longrightarrow> (\<And>x. m' = Ret x \<Longrightarrow> f x = f' x) \<Longrightarrow> obind m f = obind m' f'"
  by (cases m') auto

text \<open>\<open>safe m\<close>: \<open>m\<close> stays inside its objects. The rules follow the structure of a function.\<close>

named_theorems safe_intros "introduction rules for the absence of accesses outside an object"

definition safe :: "'a outcome \<Rightarrow> bool" where
  "safe m \<longleftrightarrow> m \<noteq> Crash"

lemma safe_Ret [safe_intros]: "safe (Ret x)" and safe_Null [safe_intros]: "safe Null"
  by (simp_all add: safe_def)

lemma safe_obind [safe_intros]: "safe m \<Longrightarrow> (\<And>x. m = Ret x \<Longrightarrow> safe (f x)) \<Longrightarrow> safe (obind m f)"
  by (cases m) (auto simp: safe_def)

lemma safe_if [safe_intros]: "(c \<Longrightarrow> safe m) \<Longrightarrow> (\<not> c \<Longrightarrow> safe m') \<Longrightarrow> safe (if c then m else m')"
  by simp

lemma safe_prod [safe_intros]: "(\<And>x y. p = (x, y) \<Longrightarrow> safe (f x y)) \<Longrightarrow> safe (case p of (x, y) \<Rightarrow> f x y)"
  by (cases p) simp

lemma safe_option [safe_intros]:
  "(z = None \<Longrightarrow> safe m) \<Longrightarrow> (\<And>x. z = Some x \<Longrightarrow> safe (f x)) \<Longrightarrow> safe (case z of None \<Rightarrow> m | Some x \<Rightarrow> f x)"
  by (cases z) simp_all

text \<open>
  Reading the byte at offset \<open>i\<close> of the object a pointer points into. The object is the list
  of its bytes; a read past its end is outside the object.
\<close>

definition rd :: "'a list \<Rightarrow> nat \<Rightarrow> 'a outcome" where
  "rd mem i = (if i < length mem then Ret (mem ! i) else Crash)"

lemma rd_Ret [simp]: "i < length mem \<Longrightarrow> rd mem i = Ret (mem ! i)"
  by (simp add: rd_def)

lemma rd_Crash [simp]: "length mem \<le> i \<Longrightarrow> rd mem i = Crash"
  by (simp add: rd_def)

lemma rd_Crash_iff: "rd mem i = Crash \<longleftrightarrow> length mem \<le> i"
  by (simp add: rd_def)

lemma rd_not_Null [simp]: "rd mem i \<noteq> Null"
  by (simp add: rd_def)

lemma rd_append: "rd mem i = Ret b \<Longrightarrow> rd (mem @ rest) i = Ret b"
  by (auto simp: rd_def nth_append split: if_splits)

lemma rd_shift: "rd (pre @ mem) (length pre + i) = rd mem i"
  by (simp add: rd_def)

lemma rd_Ret_iff: "rd mem i = Ret b \<longleftrightarrow> i < length mem \<and> b = mem ! i"
  by (auto simp: rd_def)

section \<open>Words and bits\<close>

lemma unat_lt2p: "unat (x :: 'a::len word) < 2 ^ LENGTH('a)"
  by (rule unsigned_less)

lemma mod_add_if:
  fixes a b m :: nat
  assumes "a < m" and "b < m"
  shows "(a + b) mod m = (if a + b < m then a + b else a + b - m)"
proof (cases "a + b < m")
  case False
  then have "(a + b) mod m = (a + b - m) mod m"
    by (simp add: le_mod_geq)
  then show ?thesis
    using assms False by simp
qed simp

lemma unat_add_if:
  "unat ((x :: 'a::len word) + y) =
     (if unat x + unat y < 2 ^ LENGTH('a) then unat x + unat y
      else unat x + unat y - 2 ^ LENGTH('a))"
  using unat_lt2p [of x] unat_lt2p [of y] by (simp add: unat_word_ariths mod_add_if)

lemma nat_wrap_diff:
  fixes d x y m :: nat
  assumes "d < m" and "y < m" and "x = (if d + y < m then d + y else d + y - m)"
  shows "d = (if y \<le> x then x - y else m + x - y)"
  using assms by (auto split: if_splits)

lemma unat_sub_if:
  "unat ((x :: 'a::len word) - y) =
     (if unat y \<le> unat x then unat x - unat y else 2 ^ LENGTH('a) + unat x - unat y)"
  by (rule nat_wrap_diff [OF unat_lt2p unat_lt2p]) (use unat_add_if [of "x - y" y] in simp)

lemma unat_ucast_up:
  assumes "LENGTH('a::len) \<le> LENGTH('b::len)"
  shows "unat (ucast (x :: 'a word) :: 'b word) = unat x"
proof -
  have "unat x < 2 ^ LENGTH('b)"
    using unat_lt2p [of x] power_increasing [OF assms, of "2 :: nat"] by linarith
  then show ?thesis
    by (simp add: unsigned_ucast_eq take_bit_nat_eq_self)
qed

lemma unat_ucast_down:
  "unat (ucast (x :: 'a::len word) :: 'b::len word) = unat x mod 2 ^ LENGTH('b)"
  by (simp add: unsigned_ucast_eq take_bit_eq_mod)

lemma sint_nonneg:
  assumes "unat (x :: 'a::len word) < 2 ^ (LENGTH('a) - 1)"
  shows "sint x = int (unat x)"
proof -
  have "uint x < 2 ^ (LENGTH('a) - 1)"
    using assms by (metis of_nat_less_iff of_nat_numeral of_nat_power uint_nat)
  then have "signed_take_bit (LENGTH('a) - 1) (uint x) = uint x"
    by (intro signed_take_bit_int_eq_self) (simp_all add: order_trans [OF _ uint_ge_0])
  then show ?thesis
    by (simp add: sint_uint)
qed

lemma sint_neg:
  assumes "2 ^ (LENGTH('a) - 1) \<le> unat (x :: 'a::len word)"
  shows "sint x = int (unat x) - 2 ^ LENGTH('a)"
proof -
  obtain n where n: "LENGTH('a) = Suc n"
    using len_gt_0 gr0_implies_Suc by metis
  define k where "k = uint x"
  have lo: "2 ^ n \<le> k"
  proof -
    have "2 ^ n \<le> unat x"
      using assms n by simp
    then have "int (2 ^ n) \<le> int (unat x)"
      by (simp only: of_nat_le_iff)
    then show ?thesis
      by (simp add: k_def)
  qed
  have hi: "k < 2 ^ Suc n"
    using uint_lt2p [of x] n by (simp add: k_def)
  have "take_bit (Suc n) (k + 2 ^ n) = (k - 2 ^ n + 2 ^ Suc n) mod 2 ^ Suc n"
    by (simp add: take_bit_eq_mod add.commute)
  also have "\<dots> = k - 2 ^ n"
    using lo hi by (simp only: mod_add_self2) simp
  finally have "signed_take_bit n k = k - 2 ^ Suc n"
    by (simp add: signed_take_bit_eq_take_bit_shift)
  then show ?thesis
    by (simp add: sint_uint n k_def)
qed

lemma obind_Null_iff: "obind m f = Null \<longleftrightarrow> m = Null \<or> (\<exists>x. m = Ret x \<and> f x = Null)"
  by (cases m) auto

lemma bit_less_exp:
  assumes "bit (x :: 'a::len word) m" and "unat x < 2 ^ n"
  shows "m < n"
proof (rule ccontr)
  assume "\<not> m < n"
  then have "unat x < 2 ^ m"
    using assms(2) power_increasing [of n m "2 :: nat"] by linarith
  then have "\<not> bit (unat x) m"
    by (simp add: bit_iff_odd)
  moreover have "m < LENGTH('a)"
    using assms(1) by (rule bit_imp_le_length)
  ultimately show False
    using assms(1) by (simp add: bit_unsigned_iff)
qed

lemma and_80_iff: "(b :: u8) AND 0x80 = 0 \<longleftrightarrow> \<not> bit b 7"
  using and_exp_eq_0_iff_not_bit [of b 7] by simp

lemma or_eq_plus_u32:
  fixes x y :: u32
  assumes "\<And>n. bit x n \<Longrightarrow> \<not> bit y n"
  shows "x OR y = x + y"
  by (rule disjunctive_add [symmetric]) (use assms in blast)

lemma unat_push16_or:
  fixes q r :: u32
  assumes "unat q < 65536" and "unat r < 65536"
  shows "unat (push_bit 16 q OR r) = unat q * 65536 + unat r"
proof -
  have r: "r = take_bit 16 r"
    using assms(2) by (simp add: take_bit_eq_mod word_arith_nat_mod unat_of_nat word_unat_eq_iff
        unat_mod_distrib)
  have "push_bit 16 q OR r = push_bit 16 q + r"
    by (rule or_eq_plus_u32) (metis bit_push_bit_iff bit_take_bit_iff not_less r)
  moreover have "unat (push_bit 16 q) = unat q * 65536"
    using assms(1) by (simp add: push_bit_eq_mult unat_word_ariths)
  ultimately show ?thesis
    using assms by (simp add: unat_word_ariths)
qed

lemma and_ffff: "(x :: 'a::len word) AND 0xffff = take_bit 16 x"
  by (simp add: take_bit_eq_mask mask_eq_exp_minus_1)

lemma unat_and_ffff: "unat ((x :: 'a::len word) AND 0xffff) = unat x mod 65536"
  by (simp only: and_ffff unsigned_take_bit_eq) (simp add: take_bit_eq_mod)

lemma unat_drop_bit16: "unat (drop_bit 16 (x :: u32)) = unat x div 65536"
  using unat_lt2p [of x]
  by (simp only: unsigned_drop_bit_eq) (simp add: drop_bit_eq_div take_bit_nat_def)

end
