(* ===== verification/AsnBase.thy ===== *)
theory AsnBase
  imports PriotBase
begin

text \<open>
  The BER tags, lengths and headers of src/Firmware/Core/Asn01.c and Asn01.h.

  Parsing: \<open>mem\<close> is the object \<open>data\<close> points to, from \<open>data\<close> to the end of the object, and a
  pointer into it is an offset. \<open>*datalength\<close>, what the caller says is left of the message, is a
  separate number. Every read goes through \<open>rd\<close>, so a read past the object is \<open>Crash\<close>. A parser
  returns the offset after what it consumed and its output parameters. Building: a builder writes
  forward from \<open>data\<close>, so it returns the list of the bytes it wrote and the new \<open>*datalength\<close>.
  The contents of the output parameters after an error return, the error texts
  (\<open>IMPL_ERROR_MSG\<close>) and the debug dumps are not modelled; pointers are not NULL.
\<close>

section \<open>Tags and C conversions\<close>

definition asnINTEGER :: u8 where "asnINTEGER = 0x02"
definition asnBIT_STR :: u8 where "asnBIT_STR = 0x03"
definition asnOCTET_STR :: u8 where "asnOCTET_STR = 0x04"
definition asnNULL :: u8 where "asnNULL = 0x05"
definition asnOBJECT_ID :: u8 where "asnOBJECT_ID = 0x06"
definition asnSEQUENCE :: u8 where "asnSEQUENCE = 0x10"
definition asnCONSTRUCTOR :: u8 where "asnCONSTRUCTOR = 0x20"
definition asnAPPLICATION :: u8 where "asnAPPLICATION = 0x40"
definition asnCONTEXT :: u8 where "asnCONTEXT = 0x80"
definition asnLONG_LEN :: u8 where "asnLONG_LEN = 0x80"
definition asnEXTENSION_ID :: u8 where "asnEXTENSION_ID = 0x1F"
definition asnBIT8 :: u8 where "asnBIT8 = 0x80"
definition asnIPADDRESS :: u8 where "asnIPADDRESS = asnAPPLICATION OR 0"
definition asnCOUNTER :: u8 where "asnCOUNTER = asnAPPLICATION OR 1"
definition asnGAUGE :: u8 where "asnGAUGE = asnAPPLICATION OR 2"
definition asnTIMETICKS :: u8 where "asnTIMETICKS = asnAPPLICATION OR 3"
definition asnOPAQUE :: u8 where "asnOPAQUE = asnAPPLICATION OR 4"
definition asnNSAP :: u8 where "asnNSAP = asnAPPLICATION OR 5"
definition asnCOUNTER64 :: u8 where "asnCOUNTER64 = asnAPPLICATION OR 6"
definition asnUINTEGER :: u8 where "asnUINTEGER = asnAPPLICATION OR 7"
definition asnOPAQUE_TAG1 :: u8 where "asnOPAQUE_TAG1 = asnCONTEXT OR asnEXTENSION_ID"
definition asnOPAQUE_TAG2 :: u8 where "asnOPAQUE_TAG2 = 0x30"
definition asnOPAQUE_COUNTER64 :: u8 where "asnOPAQUE_COUNTER64 = asnOPAQUE_TAG2 + (asnAPPLICATION OR 6)"
definition asnOPAQUE_FLOAT :: u8 where "asnOPAQUE_FLOAT = asnOPAQUE_TAG2 + (asnAPPLICATION OR 8)"
definition asnOPAQUE_DOUBLE :: u8 where "asnOPAQUE_DOUBLE = asnOPAQUE_TAG2 + (asnAPPLICATION OR 9)"
definition asnOPAQUE_I64 :: u8 where "asnOPAQUE_I64 = asnOPAQUE_TAG2 + (asnAPPLICATION OR 10)"
definition asnOPAQUE_U64 :: u8 where "asnOPAQUE_U64 = asnOPAQUE_TAG2 + (asnAPPLICATION OR 11)"
definition asnOPAQUE_COUNTER64_MX_BER_LEN :: u64 where "asnOPAQUE_COUNTER64_MX_BER_LEN = 12"

lemmas asn_tags = asnINTEGER_def asnBIT_STR_def asnOCTET_STR_def asnNULL_def asnOBJECT_ID_def
  asnSEQUENCE_def asnCONSTRUCTOR_def asnAPPLICATION_def asnCONTEXT_def asnLONG_LEN_def
  asnEXTENSION_ID_def asnBIT8_def asnIPADDRESS_def asnCOUNTER_def asnGAUGE_def asnTIMETICKS_def
  asnOPAQUE_def asnNSAP_def asnCOUNTER64_def asnUINTEGER_def asnOPAQUE_TAG1_def
  asnOPAQUE_TAG2_def asnOPAQUE_COUNTER64_def asnOPAQUE_FLOAT_def asnOPAQUE_DOUBLE_def
  asnOPAQUE_I64_def asnOPAQUE_U64_def asnOPAQUE_COUNTER64_MX_BER_LEN_def

definition PRIOT_NOSUCHOBJECT :: u8 where "PRIOT_NOSUCHOBJECT = asnCONTEXT OR 0"
definition PRIOT_NOSUCHINSTANCE :: u8 where "PRIOT_NOSUCHINSTANCE = asnCONTEXT OR 1"
definition PRIOT_ENDOFMIBVIEW :: u8 where "PRIOT_ENDOFMIBVIEW = asnCONTEXT OR 2"

definition asnIS_EXTENSION_ID :: "u8 \<Rightarrow> bool" where
  "asnIS_EXTENSION_ID b \<longleftrightarrow> b AND asnEXTENSION_ID = asnEXTENSION_ID"

text \<open>The C cast \<open>( int )x\<close> of an \<open>unsigned long\<close>, promoted back to 64 bits.\<close>

definition c_int :: "u64 \<Rightarrow> u64" where
  "c_int x = scast (ucast x :: u32)"

text \<open>The overflow macros at the head of the file; the word is read as \<open>long\<close> in the first.\<close>

definition asnCHECK_OVERFLOW_SIGNED :: "u64 \<Rightarrow> u64" where
  "asnCHECK_OVERFLOW_SIGNED x =
     (if sint x > 0x7fffffff then x AND 0xffffffff
      else if sint x < - 0x80000000 then 0 - (x AND 0xffffffff) else x)"

definition asnCHECK_OVERFLOW_UNSIGNED :: "u64 \<Rightarrow> u64" where
  "asnCHECK_OVERFLOW_UNSIGNED x = (if x > 0xffffffff then x AND 0xffffffff else x)"

section \<open>Lengths and headers\<close>

text \<open>
  The loop \<open>while ( n-- ) value = ( value << 8 ) | *bufp++\<close> of the length and integer parsers.
\<close>

fun shift_in :: "nat \<Rightarrow> u8 list \<Rightarrow> nat \<Rightarrow> u64 \<Rightarrow> (nat \<times> u64) outcome" where
  "shift_in 0 mem bufp value = Ret (bufp, value)"
| "shift_in (Suc n) mem bufp value =
     obind (rd mem bufp) (\<lambda>b. shift_in n mem (bufp + 1) (push_bit 8 value OR ucast b))"

definition Asn01_parseLength :: "u8 list \<Rightarrow> nat \<Rightarrow> (nat \<times> u64) outcome" where
  "Asn01_parseLength mem data =
     obind (rd mem data) (\<lambda>lengthbyte.
       if lengthbyte AND asnLONG_LEN \<noteq> 0 then
         (let lengthbyte1 = lengthbyte AND NOT asnLONG_LEN
          in if lengthbyte1 = 0 then Null
             else if lengthbyte1 > 8 then Null
             else obind (shift_in (unat lengthbyte1) mem (data + 1) 0) (\<lambda>(data1, len).
               if sint len < 0 then Null else Ret (data1, len)))
       else Ret (data + 1, ucast lengthbyte))"

text \<open>\<open>True\<close> is the error return 1. \<open>dataField\<close> and \<open>data\<close> are offsets.\<close>

definition Asn01_parseLengthCheck :: "nat \<Rightarrow> nat \<Rightarrow> u64 \<Rightarrow> size_t \<Rightarrow> bool" where
  "Asn01_parseLengthCheck dataField data len rightLength =
     (let header_len = of_nat dataField - of_nat data :: size_t
      in len > 0x7fffffff \<or> header_len > 0x7fffffff \<or> len + header_len > rightLength)"

text \<open>The parsers all call the length parser and the check in sequence.\<close>

definition parse_len :: "u8 list \<Rightarrow> nat \<Rightarrow> size_t \<Rightarrow> (nat \<times> u64) outcome" where
  "parse_len mem bufp datalength =
     obind (Asn01_parseLength mem bufp) (\<lambda>(bufp1, asn_length).
       if Asn01_parseLengthCheck bufp1 0 asn_length datalength then Null
       else Ret (bufp1, asn_length))"

definition Asn01_parseHeader :: "u8 list \<Rightarrow> size_t \<Rightarrow> (nat \<times> size_t \<times> u8) outcome" where
  "Asn01_parseHeader mem datalength =
     obind (rd mem 0) (\<lambda>b0.
     if asnIS_EXTENSION_ID b0 then Null
     else obind (parse_len mem 1 datalength) (\<lambda>(bufp, asn_length).
       if b0 = asnOPAQUE then
         obind (rd mem bufp) (\<lambda>t1.
         if t1 = asnOPAQUE_TAG1 then
           obind (rd mem (bufp + 1)) (\<lambda>t2.
           if t2 \<in> {asnOPAQUE_COUNTER64, asnOPAQUE_U64, asnOPAQUE_FLOAT, asnOPAQUE_DOUBLE,
                asnOPAQUE_I64}
           then obind (parse_len mem (bufp + 2) datalength) (\<lambda>(bufp2, asn_length2).
                  Ret (bufp2, c_int asn_length2, t2))
           else Ret (bufp, c_int asn_length, b0))
         else Ret (bufp, c_int asn_length, b0))
       else Ret (bufp, c_int asn_length, b0)))"

definition Asn01_parseSequence ::
    "u8 list \<Rightarrow> size_t \<Rightarrow> u8 \<Rightarrow> (nat \<times> size_t \<times> u8) outcome" where
  "Asn01_parseSequence mem datalength expected_type =
     obind (Asn01_parseHeader mem datalength) (\<lambda>(bufp, len, type).
       if type \<noteq> expected_type then Null else Ret (bufp, len, type))"

text \<open>
  The size of the packet in the buffer, as the stream transports ask for it: 0 (not enough yet),
  -1 (not a packet) or its length. The \<open>int\<close> result is the 32-bit truncation of the sum. When the
  length does not parse, \<open>asn_length\<close> is not assigned: \<open>uninit\<close> is the value it then has.
\<close>

definition Asn_checkPacket :: "u64 \<Rightarrow> u8 list \<Rightarrow> size_t \<Rightarrow> u32 outcome" where
  "Asn_checkPacket uninit mem len =
     (if len < 2 then Ret 0
      else obind (rd mem 0) (\<lambda>b0.
        if b0 \<noteq> asnSEQUENCE OR asnCONSTRUCTOR then Ret (-1)
        else obind (rd mem 1) (\<lambda>b1.
          if b1 AND 0x80 \<noteq> 0 then
            (let llen = ucast (b1 AND NOT 0x80) :: u64
             in if sint (ucast len :: u32) < sint (ucast llen + 2 :: u32) then Ret 0
                else case Asn01_parseLength mem 1 of
                  Crash \<Rightarrow> Crash
                | Null \<Rightarrow> Ret (ucast (uninit + 2 + llen))
                | Ret (_, asn_length) \<Rightarrow> Ret (ucast (asn_length + 2 + llen)))
          else Ret (ucast b1 + 2))))"

definition Asn01_buildLength :: "size_t \<Rightarrow> size_t \<Rightarrow> (u8 list \<times> size_t) outcome" where
  "Asn01_buildLength datalength len =
     (if len < 0x80 then
        (if datalength < 1 then Null else Ret ([ucast len], datalength - 1))
      else if len \<le> 0xFF then
        (if datalength < 2 then Null else Ret ([0x01 OR asnLONG_LEN, ucast len], datalength - 2))
      else
        (if datalength < 3 then Null
         else Ret ([0x02 OR asnLONG_LEN, ucast (drop_bit 8 len AND 0xFF), ucast (len AND 0xFF)],
                datalength - 3)))"

definition Asn01_buildHeader :: "size_t \<Rightarrow> u8 \<Rightarrow> size_t \<Rightarrow> (u8 list \<times> size_t) outcome" where
  "Asn01_buildHeader dataLength type len =
     (if dataLength < 1 then Null
      else obind (Asn01_buildLength (dataLength - 1) len) (\<lambda>(bs, dl). Ret (type # bs, dl)))"

definition Asn01_buildHeaderCheck :: "size_t \<Rightarrow> size_t \<Rightarrow> bool" where
  "Asn01_buildHeaderCheck dataLength typedLength \<longleftrightarrow> dataLength < typedLength"

text \<open>The builders all call the header builder and the check in sequence.\<close>

definition build_hdr :: "size_t \<Rightarrow> u8 \<Rightarrow> size_t \<Rightarrow> (u8 list \<times> size_t) outcome" where
  "build_hdr dataLength type len =
     obind (Asn01_buildHeader dataLength type len) (\<lambda>(bs, dl).
       if Asn01_buildHeaderCheck dl len then Null else Ret (bs, dl))"

definition Asn01_buildSequence :: "size_t \<Rightarrow> u8 \<Rightarrow> size_t \<Rightarrow> (u8 list \<times> size_t) outcome" where
  "Asn01_buildSequence datalength type len =
     (if datalength < 4 then Null
      else Ret ([type, 0x02 OR asnLONG_LEN, ucast (drop_bit 8 len AND 0xFF), ucast (len AND 0xFF)],
             datalength - 4))"

section \<open>Facts about lengths and headers\<close>

lemma shift_in_Ret:
  "bufp + n \<le> length mem \<Longrightarrow>
    shift_in n mem bufp v
      = Ret (bufp + n, foldl (\<lambda>v b. push_bit 8 v OR ucast b) v (take n (drop bufp mem)))"
proof (induction n arbitrary: bufp v)
  case (Suc n)
  then have "drop bufp mem = mem ! bufp # drop (bufp + 1) mem"
    by (simp add: Cons_nth_drop_Suc)
  with Suc show ?case
    by simp
qed simp

lemma shift_in_Crash_iff: "shift_in n mem bufp v = Crash \<longleftrightarrow> 0 < n \<and> length mem < bufp + n"
  by (induction n arbitrary: bufp v) (auto simp: obind_Crash_iff rd_Crash_iff rd_Ret_iff not_less)

lemma shift_in_not_Null: "shift_in n mem bufp v \<noteq> Null"
  by (induction n arbitrary: bufp v) (simp_all add: obind_Null_iff)

lemma shift_in_RetD: "shift_in n mem bufp v = Ret (p, w) \<Longrightarrow> p = bufp + n \<and> (0 < n \<longrightarrow> p \<le> length mem)"
proof -
  assume r: "shift_in n mem bufp v = Ret (p, w)"
  then have "shift_in n mem bufp v \<noteq> Crash" by simp
  then have "n = 0 \<or> bufp + n \<le> length mem"
    by (auto simp: shift_in_Crash_iff)
  with r show ?thesis
    using shift_in_Ret [of bufp n mem v] by auto
qed

lemma parseLength_RetD:
  assumes "Asn01_parseLength mem data = Ret (p, len)"
  shows "data < p" and "p \<le> data + 9" and "p \<le> length mem" and "0 \<le> sint len"
proof -
  from assms have len: "data < length mem"
    by (auto simp: Asn01_parseLength_def obind_Ret_iff rd_Ret_iff)
  have "data < p \<and> p \<le> data + 9 \<and> p \<le> length mem \<and> 0 \<le> sint len"
  proof (cases "mem ! data AND asnLONG_LEN = 0")
    case True
    have "0 \<le> sint (ucast b :: u64)" for b :: u8
      using unat_lt2p [of b] by (simp add: sint_nonneg unat_ucast_up)
    with True len assms show ?thesis
      by (auto simp: Asn01_parseLength_def)
  next
    case False
    let ?n = "mem ! data AND NOT asnLONG_LEN"
    from False len assms have n: "?n \<noteq> 0" "?n \<le> 8"
      and s: "shift_in (unat ?n) mem (data + 1) 0 = Ret (p, len)" and "0 \<le> sint len"
      by (auto simp: Asn01_parseLength_def Let_def obind_Ret_iff split: if_splits)
    have "unat ?n \<le> 8" and "0 < unat ?n"
      using n by (simp_all add: word_le_nat_alt unat_gt_0)
    with shift_in_RetD [OF s] \<open>0 \<le> sint len\<close> show ?thesis by simp
  qed
  then show "data < p" and "p \<le> data + 9" and "p \<le> length mem" and "0 \<le> sint len"
    by auto
qed

text \<open>The length parser reads at most nine bytes, whatever the message says is left.\<close>

lemma parseLength_no_Crash:
  assumes "data + 9 \<le> length mem"
  shows "Asn01_parseLength mem data \<noteq> Crash"
proof
  assume "Asn01_parseLength mem data = Crash"
  then obtain b where "b = mem ! data AND NOT asnLONG_LEN" and "\<not> 8 < b"
    and "shift_in (unat b) mem (data + 1) 0 = Crash"
    using assms by (auto simp: Asn01_parseLength_def Let_def obind_Crash_iff split: if_splits)
  then show False
    using assms by (auto simp: shift_in_Crash_iff word_le_nat_alt word_less_nat_alt)
qed

lemma c_int_small:
  assumes "x \<le> 0x7fffffff"
  shows "c_int x = x"
proof -
  have x: "unat x \<le> 0x7fffffff"
    using assms by (simp add: word_le_nat_alt)
  then have "sint (ucast x :: u32) = int (unat x)"
    by (simp add: sint_nonneg unat_ucast_down)
  then show ?thesis
    by (simp add: c_int_def scast_eq)
qed

lemma parseLengthCheck_False:
  assumes "\<not> Asn01_parseLengthCheck p 0 len dl" and "p < 2 ^ 32"
  shows "len \<le> 0x7fffffff" and "unat len + p \<le> unat dl" and "c_int len = len"
proof -
  have p: "unat (of_nat p :: u64) = p"
    using assms(2) by (simp add: unat_of_nat)
  show len: "len \<le> 0x7fffffff"
    using assms(1) by (auto simp: Asn01_parseLengthCheck_def Let_def not_less)
  then have "unat len \<le> 0x7fffffff"
    by (simp add: word_le_nat_alt)
  then have "unat (len + of_nat p) = unat len + p"
    using p assms(2) by (simp add: unat_add_if)
  then show "unat len + p \<le> unat dl"
    using assms(1) by (auto simp: Asn01_parseLengthCheck_def Let_def not_less word_le_nat_alt)
  show "c_int len = len"
    using len by (rule c_int_small)
qed

lemma parse_len_RetD:
  assumes "parse_len mem i dl = Ret (p, len)" and "i < 2 ^ 31"
  shows "i < p" and "p \<le> i + 9" and "p \<le> length mem" and "unat len + p \<le> unat dl"
    and "c_int len = len" and "len \<le> 0x7fffffff"
proof -
  from assms(1) have l: "Asn01_parseLength mem i = Ret (p, len)"
    and c: "\<not> Asn01_parseLengthCheck p 0 len dl"
    by (auto simp: parse_len_def obind_Ret_iff split: if_splits)
  from parseLength_RetD [OF l] show p: "i < p" "p \<le> i + 9" "p \<le> length mem" by auto
  then have "p < 2 ^ 32" using assms(2) by simp
  from parseLengthCheck_False [OF c this]
  show "unat len + p \<le> unat dl" and "c_int len = len" and "len \<le> 0x7fffffff" by auto
qed

lemma parse_len_no_Crash: "i + 9 \<le> length mem \<Longrightarrow> parse_len mem i dl \<noteq> Crash"
  using parseLength_no_Crash [of i mem]
  by (auto simp: parse_len_def obind_Crash_iff split: if_splits)

text \<open>Writing a length and reading it back, for the lengths the builder supports.\<close>

lemma buildLength_RetD:
  assumes "Asn01_buildLength dl len = Ret (bs, dl')"
  shows "length bs + unat dl' = unat dl" and "1 \<le> length bs" and "length bs \<le> 3"
  using assms
  by (auto simp: Asn01_buildLength_def unat_sub_if word_less_nat_alt split: if_splits)

lemma buildHeader_RetD:
  assumes "Asn01_buildHeader dl ty len = Ret (bs, dl')"
  shows "length bs + unat dl' = unat dl" and "2 \<le> length bs" and "length bs \<le> 4"
  using assms buildLength_RetD [of "dl - 1" len]
  by (auto simp: Asn01_buildHeader_def obind_Ret_iff unat_sub_if word_less_nat_alt
      split: if_splits)

lemma build_hdr_RetD:
  assumes "build_hdr dl ty len = Ret (bs, dl')"
  shows "length bs + unat dl' = unat dl" and "2 \<le> length bs" and "length bs \<le> 4"
    and "unat len \<le> unat dl'"
  using assms buildHeader_RetD [of dl ty len]
  by (auto simp: build_hdr_def obind_Ret_iff Asn01_buildHeaderCheck_def word_less_nat_alt
      not_less split: if_splits)

lemma hi_lo_bytes:
  fixes len :: u64
  assumes "unat len \<le> 0xFFFF"
  shows "push_bit 8 (ucast (ucast (drop_bit 8 len AND 0xFF) :: u8)) OR
     ucast (ucast (len AND 0xFF) :: u8) = len"
proof -
  have b: "m < 16" if "bit len m" for m
    using bit_less_exp [OF that, of 16] assms by simp
  have "len AND 0xFF = take_bit 8 len" "drop_bit 8 len AND 0xFF = take_bit 8 (drop_bit 8 len)"
    by (simp_all add: take_bit_eq_mask mask_eq_exp_minus_1)
  moreover have "push_bit 8 (ucast (ucast (take_bit 8 (drop_bit 8 len)) :: u8)) OR
     ucast (ucast (take_bit 8 len) :: u8) = len"
    by (rule bit_word_eqI) (auto simp: bit_simps dest: b)
  ultimately show ?thesis by simp
qed

lemma shift_in_append:
  "shift_in n mem i v = Ret r \<Longrightarrow> shift_in n (mem @ rest) i v = Ret r"
  by (induction n arbitrary: i v) (auto simp: obind_Ret_iff dest: rd_append)

lemma shift_in_shift:
  "shift_in n (pre @ mem) (length pre + i) v =
     obind (shift_in n mem i v) (\<lambda>(p, w). Ret (length pre + p, w))"
proof (induction n arbitrary: i v)
  case (Suc n)
  then show ?case
    using Suc.IH [of "i + 1"] by (simp add: rd_shift)
qed simp

lemma parseLength_append:
  "Asn01_parseLength mem i = Ret r \<Longrightarrow> Asn01_parseLength (mem @ rest) i = Ret r"
  by (auto simp: Asn01_parseLength_def obind_Ret_iff Let_def
      dest: rd_append shift_in_append split: if_splits)

lemma parseLength_shift:
  "Asn01_parseLength (pre @ mem) (length pre + i) =
     obind (Asn01_parseLength mem i) (\<lambda>(p, len). Ret (length pre + p, len))"
proof (cases "rd mem i")
  case (Ret b)
  have 1: "shift_in n (pre @ mem) (Suc (length pre + i)) v =
      obind (shift_in n mem (Suc i) v) (\<lambda>(p, w). Ret (length pre + p, w))" for n v
    using shift_in_shift [of n pre mem "Suc i"] by simp
  have 2: "obind m (\<lambda>x. obind ((case x of (p, w) \<Rightarrow> Ret (length pre + p, w)) :: (nat \<times> u64) outcome)
        (\<lambda>(p, len). if sint len < 0 then Null else Ret (p, len)))
      = obind m (\<lambda>x. obind (case x of (p, len) \<Rightarrow> if sint len < 0 then Null else Ret (p, len))
        (\<lambda>(p, len). Ret (length pre + p, len)))" for m
    by (cases m) (auto split: prod.split)
  show ?thesis
    using Ret by (simp add: Asn01_parseLength_def rd_shift Let_def 1 2)
qed (simp_all add: Asn01_parseLength_def rd_shift)

lemma parseLength_buildLength:
  assumes "Asn01_buildLength dl len = Ret (bs, dl')" and "len \<le> 0xFFFF"
  shows "Asn01_parseLength (bs @ rest) 0 = Ret (length bs, len)"
proof -
  have len: "unat len \<le> 0xFFFF"
    using assms(2) by (simp add: word_le_nat_alt)
  have sint: "\<not> sint len < 0"
    using len by (simp add: sint_nonneg)
  consider "len < 0x80" "bs = [ucast len]"
    | "\<not> len < 0x80" "len \<le> 0xFF" "bs = [0x81, ucast len]"
    | "bs = [0x82, ucast (drop_bit 8 len AND 0xFF), ucast (len AND 0xFF)]"
    using assms(1) by (auto simp: Asn01_buildLength_def asn_tags split: if_splits)
  then show ?thesis
  proof cases
    case 1
    have b: "m < 7" if "bit len m" for m
      using bit_less_exp [OF that, of 7] 1 by (simp add: word_less_nat_alt)
    have "(ucast len :: u8) AND 0x80 = 0"
      using b [of 7] by (auto simp: and_80_iff bit_simps)
    moreover have "ucast (ucast len :: u8) = len"
      by (rule bit_word_eqI) (auto simp: bit_simps dest: b)
    ultimately show ?thesis
      using 1 by (simp add: Asn01_parseLength_def asn_tags)
  next
    case 2
    have b: "m < 8" if "bit len m" for m
      using bit_less_exp [OF that, of 8] 2 by (simp add: word_le_nat_alt)
    have "ucast (ucast len :: u8) = len"
      by (rule bit_word_eqI) (auto simp: bit_simps dest: b)
    with 2 sint show ?thesis
      by (simp add: Asn01_parseLength_def asn_tags)
  next
    case 3
    have s2: "shift_in 2 mem i 0 = obind (rd mem i) (\<lambda>b. obind (rd mem (Suc i)) (\<lambda>c.
        Ret (Suc (Suc i), push_bit 8 (ucast b) OR ucast c)))" for mem i
      by (simp add: numeral_2_eq_2)
    from 3 sint show ?thesis
      by (simp add: Asn01_parseLength_def asn_tags s2 hi_lo_bytes [OF len])
  qed
qed

lemma parse_len_shift:
  assumes "parse_len mem i dl = Ret (p, len)"
  shows "Asn01_parseLength mem i = Ret (p, len)"
  using assms by (auto simp: parse_len_def obind_Ret_iff split: if_splits)

text \<open>
  The header a builder writes in front of \<open>len\<close> bytes is read back by the code every parser
  starts with: the type byte, the length parser and the length check.
\<close>

lemma parse_len_build_hdr:
  assumes "build_hdr dl ty len = Ret (bs, dl')" and "len \<le> 0xFFFF"
    and "length bs + unat len \<le> unat dl2"
  shows "parse_len (bs @ rest) 1 dl2 = Ret (length bs, len)" and "hd bs = ty"
    and "c_int len = len"
proof -
  obtain cs where bs: "bs = ty # cs" and cs: "Asn01_buildLength (dl - 1) len = Ret (cs, dl')"
    using assms(1)
    by (auto simp: build_hdr_def Asn01_buildHeader_def obind_Ret_iff split: if_splits)
  have "Asn01_parseLength ([ty] @ cs @ rest) (length [ty] + 0) = Ret (length bs, len)"
    by (simp only: parseLength_shift parseLength_buildLength [OF cs assms(2)]) (simp add: bs)
  moreover have "\<not> Asn01_parseLengthCheck (length bs) 0 len dl2"
  proof -
    have "length bs \<le> 4" and len: "unat len \<le> 0xFFFF"
      using build_hdr_RetD [OF assms(1)] assms(2) by (simp_all add: word_le_nat_alt)
    then have "unat (of_nat (length bs) :: u64) = length bs"
      by (simp add: unat_of_nat)
    then show ?thesis
      using assms(3) len \<open>length bs \<le> 4\<close>
      by (auto simp: Asn01_parseLengthCheck_def Let_def word_less_nat_alt unat_add_if)
  qed
  ultimately show "parse_len (bs @ rest) 1 dl2 = Ret (length bs, len)"
    by (simp add: parse_len_def bs)
  show "hd bs = ty"
    by (simp add: bs)
  show "c_int len = len"
    using assms(2) by (intro c_int_small) (simp add: word_le_nat_alt)
qed

section \<open>The interface of the typed parsers and builders\<close>

text \<open>
  A parser of one type-length-value item: what it consumed and what it leaves add up to what the
  caller said was there, and it stays inside the object when the object extends eleven bytes past
  the end the caller claims. (The slack is needed: see \<open>parseInt_overread\<close> in AsnInt.)
\<close>

locale ber_parser =
  fixes parse :: "u8 list \<Rightarrow> size_t \<Rightarrow> (nat \<times> size_t \<times> 'b) outcome"
  assumes consumes: "parse mem dl = Ret (p, dl', v) \<Longrightarrow> p + unat dl' = unat dl"
    and in_bounds: "unat dl + 11 \<le> length mem \<Longrightarrow> parse mem dl \<noteq> Crash"
begin

lemma consumes_le: "parse mem dl = Ret (p, dl', v) \<Longrightarrow> p \<le> unat dl \<and> dl' \<le> dl"
  using consumes by (force simp: word_le_nat_alt)

end

text \<open>
  A builder for a parser: it writes no more than its capacity, and for the values it supports
  (\<open>valid\<close>) the parser, given at least the bytes written, reads back \<open>norm x\<close> and stops after them. The client lemmas: a value written
  after another one is read after it, and the encoding determines the value.
\<close>

locale ber_codec = ber_parser parse
  for parse :: "u8 list \<Rightarrow> size_t \<Rightarrow> (nat \<times> size_t \<times> 'b) outcome" +
  fixes build :: "size_t \<Rightarrow> 'a \<Rightarrow> (u8 list \<times> size_t) outcome"
    and valid :: "'a \<Rightarrow> bool"
    and norm :: "'a \<Rightarrow> 'b"
  assumes capacity: "build dl x = Ret (bs, dl') \<Longrightarrow> length bs + unat dl' = unat dl"
    and roundtrip: "valid x \<Longrightarrow> build dl x = Ret (bs, dl') \<Longrightarrow> length bs \<le> unat dl2 \<Longrightarrow>
      parse (bs @ rest) dl2 = Ret (length bs, dl2 - of_nat (length bs), norm x)"
begin

lemma capacity_word: "build dl x = Ret (bs, dl') \<Longrightarrow> dl - of_nat (length bs) = dl'"
  using capacity [of dl x bs dl'] unat_lt2p [of dl]
  by (simp add: word_unat_eq_iff unat_sub_if unat_of_nat)

lemma roundtrip_exact:
  "valid x \<Longrightarrow> build dl x = Ret (bs, dl') \<Longrightarrow> parse (bs @ rest) dl = Ret (length bs, dl', norm x)"
  using roundtrip [of x dl bs dl' dl rest] capacity [of dl x bs dl'] capacity_word [of dl x bs dl']
  by simp

lemma consecutive:
  assumes x: "build dl x = Ret (bs, dl1)" "valid x" and y: "build dl1 y = Ret (cs, dl2)" "valid y"
  shows "parse (bs @ cs @ rest) dl = Ret (length bs, dl1, norm x) \<and>
    parse (cs @ rest) dl1 = Ret (length cs, dl2, norm y)"
  using roundtrip_exact [OF x(2,1)] roundtrip_exact [OF y(2,1)] by simp

lemma encoding_inject:
  assumes "build dl x = Ret (bs, dl1)" and "build dl' y = Ret (bs, dl2)" and "valid x" and "valid y"
  shows "norm x = norm y"
  using roundtrip [OF assms(3,1), of dl "[]"] roundtrip [OF assms(4,2), of dl "[]"]
    capacity [OF assms(1)] by simp

end

lemma parse_len_slack: "unat dl + 11 \<le> length mem \<Longrightarrow> parse_len mem 1 dl \<noteq> Crash"
  by (rule parse_len_no_Crash) simp

lemma consumed_word:
  "unat len + p \<le> unat dl \<Longrightarrow> p + unat len + unat (dl - (len + of_nat p)) = unat (dl :: u64)"
  using unat_lt2p [of dl] by (simp add: unat_sub_if unat_add_if unat_of_nat)

end
