(* ===== verification/AsnInt.thy ===== *)
theory AsnInt
  imports AsnBase
begin

text \<open>
  The BER integers of src/Firmware/Core/Asn01.c: \<open>Asn_parseInt\<close>, \<open>Asn01_parseUnsignedInt\<close>,
  \<open>Asn_buildInt\<close> and \<open>Asn01_buildUnsignedInt\<close>, with the loops over the 64-bit \<open>long\<close> kept as
  they are written. The lemmas show that the builders write the shortest two's complement form,
  never more than the capacity they are given, and that the parsers read it back.
\<close>

section \<open>The parsers and builders\<close>

definition Asn_parseInt ::
    "u8 list \<Rightarrow> size_t \<Rightarrow> size_t \<Rightarrow> (nat \<times> size_t \<times> u8 \<times> u64) outcome" where
  "Asn_parseInt mem dataLength outputBufferSize =
     (if outputBufferSize \<noteq> 8 then Null
      else obind (rd mem 0) (\<lambda>type.
        if type \<noteq> asnINTEGER then Null
        else obind (parse_len mem 1 dataLength) (\<lambda>(bufp, asn_length).
          if asn_length > outputBufferSize \<or> c_int asn_length = 0 then Null
          else
            (let dataLength1 = dataLength - (c_int asn_length + of_nat bufp)
             in obind (rd mem bufp) (\<lambda>b.
                obind (shift_in (unat asn_length) mem bufp (if b AND 0x80 \<noteq> 0 then -1 else 0))
                  (\<lambda>(bufp1, v).
                     Ret (bufp1, dataLength1, type, asnCHECK_OVERFLOW_SIGNED v)))))))"

definition Asn01_parseUnsignedInt ::
    "u8 list \<Rightarrow> size_t \<Rightarrow> size_t \<Rightarrow> (nat \<times> size_t \<times> u8 \<times> u64) outcome" where
  "Asn01_parseUnsignedInt mem datalength intsize =
     (if intsize \<noteq> 8 then Null
      else obind (rd mem 0) (\<lambda>type.
        if type \<noteq> asnCOUNTER \<and> type \<noteq> asnGAUGE \<and> type \<noteq> asnTIMETICKS \<and> type \<noteq> asnUINTEGER
        then Null
        else obind (parse_len mem 1 datalength) (\<lambda>(bufp, asn_length).
          if asn_length > intsize + 1 \<or> c_int asn_length = 0 then Null
          else obind (rd mem bufp) (\<lambda>b.
            if asn_length = intsize + 1 \<and> b \<noteq> 0 then Null
            else
              (let datalength1 = datalength - (c_int asn_length + of_nat bufp)
               in obind (shift_in (unat asn_length) mem bufp (if b AND 0x80 \<noteq> 0 then -1 else 0))
                    (\<lambda>(bufp1, v).
                       Ret (bufp1, datalength1, type, asnCHECK_OVERFLOW_UNSIGNED v)))))))"

text \<open>The loop that drops redundant leading bytes; the mask is the top nine bits.\<close>

function trim_int :: "nat \<Rightarrow> u64 \<Rightarrow> nat \<times> u64" where
  "trim_int intSize integer =
     (let mask = push_bit (8 * (8 - 1) - 1) 0x1FF
      in if (integer AND mask = 0 \<or> integer AND mask = mask) \<and> intSize > 1
         then trim_int (intSize - 1) (push_bit 8 integer)
         else (intSize, integer))"
  by pat_completeness auto
termination
  by (relation "measure fst") auto

text \<open>The loop that writes the top byte and shifts.\<close>

fun emit_top :: "nat \<Rightarrow> u64 \<Rightarrow> u8 list" where
  "emit_top 0 integer = []"
| "emit_top (Suc n) integer =
     ucast (drop_bit 56 (integer AND push_bit 56 0xFF)) # emit_top n (push_bit 8 integer)"

definition Asn_buildInt ::
    "size_t \<Rightarrow> u8 \<Rightarrow> u64 \<Rightarrow> size_t \<Rightarrow> (u8 list \<times> size_t) outcome" where
  "Asn_buildInt dataLength type intPointer intSize =
     (if intSize \<noteq> 8 then Null
      else
        (let (n, integer) = trim_int (unat intSize) (asnCHECK_OVERFLOW_SIGNED intPointer)
         in obind (build_hdr dataLength type (of_nat n)) (\<lambda>(bs, dl).
              Ret (bs @ emit_top n integer, dl - of_nat n))))"

definition Asn01_buildUnsignedInt ::
    "size_t \<Rightarrow> u8 \<Rightarrow> u64 \<Rightarrow> size_t \<Rightarrow> (u8 list \<times> size_t) outcome" where
  "Asn01_buildUnsignedInt datalength type intp intsize =
     (if intsize \<noteq> 8 then Null
      else
        (let integer = asnCHECK_OVERFLOW_UNSIGNED intp;
             add_null_byte =
               ((ucast (drop_bit 56 (integer AND push_bit 56 0xFF)) :: u8) AND 0x80 \<noteq> 0);
             (n, integer1) =
               (if add_null_byte then (unat intsize + 1, integer)
                else trim_int (unat intsize) integer)
         in obind (build_hdr datalength type (of_nat n)) (\<lambda>(bs, dl).
              Ret (if add_null_byte then bs @ 0 # emit_top (n - 1) integer1
                   else bs @ emit_top n integer1, dl - of_nat n))))"

declare trim_int.simps [simp del]

section \<open>Two's complement, most significant byte first\<close>

fun be_bytes :: "nat \<Rightarrow> u64 \<Rightarrow> u8 list" where
  "be_bytes 0 x = []"
| "be_bytes (Suc n) x = ucast (drop_bit (8 * n) x) # be_bytes n x"

lemma length_be_bytes [simp]: "length (be_bytes n x) = n"
  by (induction n) auto

lemma length_emit_top [simp]: "length (emit_top n x) = n"
  by (induction n arbitrary: x) auto

text \<open>\<open>n\<close> bytes hold \<open>x\<close>: the bits from the top bit of the first byte on are the sign.\<close>

definition fits :: "nat \<Rightarrow> u64 \<Rightarrow> bool" where
  "fits n x \<longleftrightarrow> (\<forall>j < 64. 8 * n - 1 \<le> j \<longrightarrow> bit x j = bit x 63)"

definition shortest :: "nat \<Rightarrow> u64 \<Rightarrow> bool" where
  "shortest n x \<longleftrightarrow> 1 \<le> n \<and> n \<le> 8 \<and> fits n x \<and> (n = 1 \<or> \<not> fits (n - 1) x)"

lemma fitsD: "fits n x \<Longrightarrow> j < 64 \<Longrightarrow> 8 * n - 1 \<le> j \<Longrightarrow> bit x j = bit x 63"
  unfolding fits_def by blast

lemma fits_mono:
  assumes "fits n x" and "n \<le> m"
  shows "fits m x"
  unfolding fits_def
proof (intro allI impI)
  fix j :: nat
  assume "j < 64" and "8 * m - 1 \<le> j"
  then show "bit x j = bit x 63"
    using assms by (intro fitsD [OF assms(1)]) linarith+
qed

lemma fits_8: "fits 8 x"
  unfolding fits_def
proof (intro allI impI)
  fix j :: nat
  assume "j < 64" and "8 * 8 - 1 \<le> j"
  then have "j = 63" by linarith
  then show "bit x j = bit x 63" by simp
qed

lemma shortest_unique:
  assumes "shortest n x" and "shortest m x"
  shows "n = m"
proof -
  have "\<not> a < b" if a: "shortest a x" and b: "shortest b x" for a b
  proof
    assume "a < b"
    then have "fits (b - 1) x" and "b \<noteq> 1"
      using a fits_mono [of a x "b - 1"] by (simp_all add: shortest_def)
    with b show False
      by (simp add: shortest_def)
  qed
  then show ?thesis
    using assms by (meson linorder_neqE_nat)
qed

lemma top9_mask: "(push_bit 55 0x1FF :: u64) = push_bit 55 (mask 9)"
  by (simp add: mask_eq_exp_minus_1)

lemma top9_iff:
  fixes w :: u64
  defines "m \<equiv> push_bit 55 0x1FF"
  shows "w AND m = 0 \<or> w AND m = m \<longleftrightarrow> (\<forall>j < 64. 55 \<le> j \<longrightarrow> bit w j = bit w 63)"
proof -
  have m: "bit m j \<longleftrightarrow> 55 \<le> j \<and> j < 64" for j
    unfolding m_def top9_mask by (auto simp: bit_simps)
  show ?thesis
  proof
    assume *: "w AND m = 0 \<or> w AND m = m"
    show "\<forall>j < 64. 55 \<le> j \<longrightarrow> bit w j = bit w 63"
    proof (intro allI impI)
      fix j :: nat
      assume "j < 64" and "55 \<le> j"
      then have "bit m j" and "bit m 63"
        using m by simp_all
      then have "bit (w AND m) j = bit w j" and "bit (w AND m) 63 = bit w 63"
        by (simp_all add: bit_and_iff)
      with * \<open>bit m j\<close> \<open>bit m 63\<close> show "bit w j = bit w 63"
        by auto
    qed
  next
    assume *: "\<forall>j < 64. 55 \<le> j \<longrightarrow> bit w j = bit w 63"
    show "w AND m = 0 \<or> w AND m = m"
    proof (cases "bit w 63")
      case True
      then have "bit w j" if "bit m j" for j
        using that * m by blast
      then have "w AND m = m"
        by (intro bit_word_eqI) (auto simp: bit_and_iff)
      then show ?thesis ..
    next
      case False
      then have "\<not> bit w j" if "bit m j" for j
        using that * m by blast
      then have "w AND m = 0"
        by (intro bit_word_eqI) (auto simp: bit_and_iff)
      then show ?thesis ..
    qed
  qed
qed

lemma fits_pred_iff:
  assumes "fits n x" and "2 \<le> n" and "n \<le> 8"
  defines "w \<equiv> push_bit (8 * (8 - n)) x"
  shows "(\<forall>j < 64. 55 \<le> j \<longrightarrow> bit w j = bit w 63) \<longleftrightarrow> fits (n - 1) x"
proof -
  define s where "s = 8 * (8 - n)"
  have s: "s \<le> 48" "8 * n = 64 - s"
    using assms(2,3) by (simp_all add: s_def)
  have w: "bit w j = bit x (j - s)" if "j < 64" "55 \<le> j" for j
    using that s by (auto simp: w_def s_def bit_push_bit_iff)
  have top: "bit x (63 - s) = bit x 63"
    using assms(1) s by (intro fitsD) auto
  show ?thesis
  proof
    assume *: "\<forall>j < 64. 55 \<le> j \<longrightarrow> bit w j = bit w 63"
    show "fits (n - 1) x"
      unfolding fits_def
    proof (intro allI impI)
      fix k :: nat
      assume k: "k < 64" "8 * (n - 1) - 1 \<le> k"
      show "bit x k = bit x 63"
      proof (cases "k + s < 64")
        case True
        moreover have "55 \<le> k + s"
          using k s by linarith
        ultimately show ?thesis
          using * w [of "k + s"] w [of 63] top by simp
      next
        case False
        then show ?thesis
          using k s by (intro fitsD [OF assms(1)]) linarith+
      qed
    qed
  next
    assume f: "fits (n - 1) x"
    show "\<forall>j < 64. 55 \<le> j \<longrightarrow> bit w j = bit w 63"
    proof (intro allI impI)
      fix j :: nat
      assume j: "j < 64" "55 \<le> j"
      then have "bit x (j - s) = bit x 63"
        using s by (intro fitsD [OF f]) linarith+
      then show "bit w j = bit w 63"
        using w j top by simp
    qed
  qed
qed

lemma push_bit_8_step:
  assumes "Suc n \<le> 8"
  shows "push_bit 8 (push_bit (8 * (8 - Suc n)) (x :: u64)) = push_bit (8 * (8 - n)) x"
proof -
  have "8 + 8 * (8 - Suc n) = 8 * (8 - n)"
    using assms by simp
  then show ?thesis
    by (simp only: push_bit_push_bit)
qed

text \<open>The trimming loop stops at the shortest size, with the value in the top bytes.\<close>

lemma trim_int_shortest:
  assumes "fits n x" and "1 \<le> n" and "n \<le> 8"
  shows "\<exists>m. shortest m x \<and> m \<le> n \<and>
    trim_int n (push_bit (8 * (8 - n)) x) = (m, push_bit (8 * (8 - m)) x)"
  using assms
proof (induction n)
  case (Suc n)
  let ?w = "push_bit (8 * (8 - Suc n)) x"
  show ?case
  proof (cases "1 \<le> n \<and> fits n x")
    case True
    then have "?w AND push_bit 55 0x1FF = 0 \<or> ?w AND push_bit 55 0x1FF = push_bit 55 0x1FF"
      unfolding top9_iff by (intro fits_pred_iff [THEN iffD2]) (use Suc.prems in auto)
    moreover have "push_bit 8 ?w = push_bit (8 * (8 - n)) x"
      using Suc.prems(3) by (rule push_bit_8_step)
    ultimately have "trim_int (Suc n) ?w = trim_int n (push_bit (8 * (8 - n)) x)"
      using True by (subst trim_int.simps) simp
    moreover obtain m where "shortest m x" "m \<le> n"
        "trim_int n (push_bit (8 * (8 - n)) x) = (m, push_bit (8 * (8 - m)) x)"
      using Suc.IH True Suc.prems(3) by auto
    ultimately show ?thesis
      by (metis le_Suc_eq)
  next
    case False
    have "trim_int (Suc n) ?w = (Suc n, ?w)"
    proof (cases "n = 0")
      case False
      then have "\<not> fits n x"
        using \<open>\<not> (1 \<le> n \<and> fits n x)\<close> by simp
      then have "\<not> (?w AND push_bit 55 0x1FF = 0 \<or> ?w AND push_bit 55 0x1FF = push_bit 55 0x1FF)"
        unfolding top9_iff using fits_pred_iff [of "Suc n" x] Suc.prems False by auto
      then show ?thesis
        by (subst trim_int.simps) simp
    qed (subst trim_int.simps, simp)
    moreover have "shortest (Suc n) x"
      using Suc.prems False by (auto simp: shortest_def)
    ultimately show ?thesis by blast
  qed
qed simp

lemma trim_int_8:
  obtains m where "shortest m x" and "trim_int 8 x = (m, push_bit (8 * (8 - m)) x)"
  using trim_int_shortest [of 8 x] fits_8 by auto

lemma top_byte_mask: "(push_bit 56 0xFF :: u64) = push_bit 56 (mask 8)"
  by (simp add: mask_eq_exp_minus_1)

lemma emit_top_be_bytes: "m \<le> 8 \<Longrightarrow> emit_top m (push_bit (8 * (8 - m)) x) = be_bytes m x"
proof (induction m)
  case (Suc m)
  let ?w = "push_bit (8 * (8 - Suc m)) x"
  have "8 * (8 - Suc m) = 56 - 8 * m" and "8 * m \<le> 56"
    using Suc.prems by simp_all
  then have "(ucast (drop_bit 56 (?w AND push_bit 56 (mask 8))) :: u8) = ucast (drop_bit (8 * m) x)"
    by (intro bit_word_eqI) (auto simp: bit_simps add.commute)
  then have "(ucast (drop_bit 56 (?w AND push_bit 56 0xFF)) :: u8) = ucast (drop_bit (8 * m) x)"
    by (simp only: top_byte_mask)
  moreover have "push_bit 8 ?w = push_bit (8 * (8 - m)) x"
    using Suc.prems by (rule push_bit_8_step)
  ultimately show ?case
    using Suc by simp
qed simp

text \<open>Shifting the bytes back in rebuilds the value below the first byte's sign.\<close>

lemma foldl_be_bytes:
  "foldl (\<lambda>v b. push_bit 8 v OR ucast b) v (be_bytes n x) = push_bit (8 * n) v OR take_bit (8 * n) x"
proof (induction n arbitrary: v)
  case (Suc n)
  have "push_bit (8 * n) (push_bit 8 v OR ucast (ucast (drop_bit (8 * n) x) :: u8)) OR
      take_bit (8 * n) x = push_bit (8 * Suc n) v OR take_bit (8 * Suc n) x"
    by (rule bit_word_eqI) (auto simp: bit_simps add.commute not_less)
  then show ?case
    using Suc by simp
qed simp

lemma fits_sign_extend:
  assumes "fits n x" and "1 \<le> n" and "n \<le> 8"
  shows "push_bit (8 * n) (if bit x (8 * n - 1) then -1 else 0) OR take_bit (8 * n) x = x"
proof (rule bit_word_eqI)
  fix j
  assume "j < LENGTH(64)"
  then have j: "j < 64" by simp
  show "bit (push_bit (8 * n) (if bit x (8 * n - 1) then -1 else 0) OR take_bit (8 * n) x) j = bit x j"
  proof (cases "j < 8 * n")
    case True
    then show ?thesis
      by (auto simp: bit_simps)
  next
    case False
    have "bit x j = bit x 63" and "bit x (8 * n - 1) = bit x 63"
      using False j assms by (auto intro!: fitsD [OF assms(1)])
    with False j show ?thesis
      by (auto simp: bit_simps)
  qed
qed

lemma be_bytes_hd:
  assumes "1 \<le> n" and "n \<le> 8"
  shows "be_bytes n x ! 0 AND 0x80 \<noteq> 0 \<longleftrightarrow> bit x (8 * n - 1)"
proof -
  obtain m where n: "n = Suc m"
    using assms(1) by (cases n) auto
  then have "8 * n - 1 = 8 * m + 7" by simp
  with n assms show ?thesis
    by (simp add: and_80_iff bit_simps add.commute)
qed

lemma shift_in_be_bytes:
  assumes "shortest n x"
  shows "shift_in n (pre @ be_bytes n x @ rest) (length pre)
      (if (be_bytes n x) ! 0 AND 0x80 \<noteq> 0 then -1 else 0) = Ret (length pre + n, x)"
  using assms fits_sign_extend [of n x]
  by (simp add: shift_in_Ret foldl_be_bytes be_bytes_hd shortest_def del: be_bytes.simps)

section \<open>Round trips and bounds\<close>

text \<open>The value a builder encodes, as header and shortest two's complement bytes.\<close>

lemma buildInt_RetD:
  assumes "Asn_buildInt dl ty x isz = Ret (bs, dl')"
  obtains n h dlh where "isz = 8" and "shortest n (asnCHECK_OVERFLOW_SIGNED x)"
    and "build_hdr dl ty (of_nat n) = Ret (h, dlh)"
    and "bs = h @ be_bytes n (asnCHECK_OVERFLOW_SIGNED x)" and "dl' = dlh - of_nat n"
proof -
  let ?x = "asnCHECK_OVERFLOW_SIGNED x"
  obtain n where n: "shortest n ?x" "trim_int 8 ?x = (n, push_bit (8 * (8 - n)) ?x)"
    by (rule trim_int_8)
  then have "n \<le> 8"
    by (simp add: shortest_def)
  with n assms that show ?thesis
    by (auto simp: Asn_buildInt_def obind_Ret_iff emit_top_be_bytes split: if_splits)
qed

lemma buildInt_capacity:
  assumes "Asn_buildInt dl ty x isz = Ret (bs, dl')"
  shows "length bs + unat dl' = unat dl"
  using assms
proof (rule buildInt_RetD)
  fix n h dlh
  let ?x = "asnCHECK_OVERFLOW_SIGNED x"
  assume n: "shortest n ?x" and h: "build_hdr dl ty (of_nat n) = Ret (h, dlh)"
    and bs: "bs = h @ be_bytes n ?x" and dl': "dl' = dlh - of_nat n"
  have "unat (of_nat n :: u64) = n"
    using n by (simp add: shortest_def unat_of_nat)
  then show ?thesis
    using build_hdr_RetD [OF h] by (simp add: bs dl' unat_sub_if)
qed

lemma int_roundtrip:
  assumes "Asn_buildInt dl asnINTEGER x 8 = Ret (bs, dl')" and "length bs \<le> unat dl2"
  shows "Asn_parseInt (bs @ rest) dl2 8 =
    Ret (length bs, dl2 - of_nat (length bs), asnINTEGER,
      asnCHECK_OVERFLOW_SIGNED (asnCHECK_OVERFLOW_SIGNED x))"
  using assms(1)
proof (rule buildInt_RetD)
  fix n h dlh
  let ?x = "asnCHECK_OVERFLOW_SIGNED x"
  assume n: "shortest n ?x" and h: "build_hdr dl asnINTEGER (of_nat n) = Ret (h, dlh)"
    and bs: "bs = h @ be_bytes n ?x"
  have n8: "1 \<le> n" "n \<le> 8" and un: "unat (of_nat n :: u64) = n"
    using n by (simp_all add: shortest_def unat_of_nat)
  note H = build_hdr_RetD [OF h]
  have small: "(of_nat n :: u64) \<le> 0xFFFF"
    using un n8 by (simp add: word_le_nat_alt)
  have fit: "length h + unat (of_nat n :: u64) \<le> unat dl2"
    using assms(2) by (simp add: bs un)
  note P1 = parse_len_build_hdr(1) [OF h small fit, of "be_bytes n ?x @ rest"]
    and P2 = parse_len_build_hdr(2,3) [OF h small fit]
  have nth: "(h @ be_bytes n ?x @ rest) ! length h = be_bytes n ?x ! 0"
    using n8 by (simp add: nth_append)
  have h0: "(h @ be_bytes n ?x @ rest) ! 0 = asnINTEGER"
    using P2(1) H by (cases h) auto
  have nz: "(of_nat n :: u64) \<noteq> 0" "\<not> 8 < (of_nat n :: u64)"
    using un n8 by (auto simp: word_less_nat_alt)
  have "h \<noteq> []" using H by (cases h) simp_all
  then show ?thesis
    using n8 P1 P2(2) h0 nth un nz shift_in_be_bytes [OF n, of h rest]
    by (simp add: Asn_parseInt_def bs Let_def del: be_bytes.simps)
qed

lemma and_ffffffff: "(x :: u64) AND 0xffffffff = take_bit 32 x"
  by (simp add: take_bit_eq_mask mask_eq_exp_minus_1)

lemma check_signed_in_range:
  "- (2 ^ 31) \<le> sint x \<Longrightarrow> sint x < 2 ^ 31 \<Longrightarrow> asnCHECK_OVERFLOW_SIGNED x = x"
  by (simp add: asnCHECK_OVERFLOW_SIGNED_def)

lemma check_unsigned_less: "unat (asnCHECK_OVERFLOW_UNSIGNED x) < 2 ^ 32"
proof (cases "x > 0xffffffff")
  case True
  then show ?thesis
    by (simp only: asnCHECK_OVERFLOW_UNSIGNED_def and_ffffffff if_True unsigned_take_bit_eq)
      (rule take_bit_nat_less_exp)
qed (simp add: asnCHECK_OVERFLOW_UNSIGNED_def word_less_nat_alt)

lemma check_unsigned_id: "unat x < 2 ^ 32 \<Longrightarrow> asnCHECK_OVERFLOW_UNSIGNED x = x"
  by (simp add: asnCHECK_OVERFLOW_UNSIGNED_def word_less_nat_alt)

lemma check_unsigned_mod: "unat (asnCHECK_OVERFLOW_UNSIGNED x) = unat x mod 2 ^ 32"
proof (cases "x > 0xffffffff")
  case True
  then show ?thesis
    by (simp only: asnCHECK_OVERFLOW_UNSIGNED_def and_ffffffff if_True unsigned_take_bit_eq)
      (simp add: take_bit_eq_mod)
next
  case False
  then show ?thesis
    by (simp add: asnCHECK_OVERFLOW_UNSIGNED_def word_less_nat_alt)
qed

lemma top_byte_zero:
  assumes "unat x < 2 ^ 32"
  shows "drop_bit 56 ((x :: u64) AND push_bit 56 0xFF) = 0"
proof (rule bit_word_eqI)
  fix j
  show "bit (drop_bit 56 (x AND push_bit 56 0xFF)) j = bit (0 :: u64) j"
    using bit_less_exp [OF _ assms, of "56 + j"] by (auto simp: bit_drop_bit_eq bit_and_iff)
qed

lemma buildUnsignedInt_RetD:
  assumes "Asn01_buildUnsignedInt dl ty x isz = Ret (bs, dl')"
  obtains n h dlh where "isz = 8" and "shortest n (asnCHECK_OVERFLOW_UNSIGNED x)"
    and "build_hdr dl ty (of_nat n) = Ret (h, dlh)"
    and "bs = h @ be_bytes n (asnCHECK_OVERFLOW_UNSIGNED x)" and "dl' = dlh - of_nat n"
proof -
  let ?x = "asnCHECK_OVERFLOW_UNSIGNED x"
  obtain n where n: "shortest n ?x" "trim_int 8 ?x = (n, push_bit (8 * (8 - n)) ?x)"
    by (rule trim_int_8)
  then have "n \<le> 8"
    by (simp add: shortest_def)
  with n assms that top_byte_zero [OF check_unsigned_less [of x]] show ?thesis
    by (auto simp: Asn01_buildUnsignedInt_def obind_Ret_iff emit_top_be_bytes split: if_splits)
qed

lemma buildUnsignedInt_capacity:
  assumes "Asn01_buildUnsignedInt dl ty x isz = Ret (bs, dl')"
  shows "length bs + unat dl' = unat dl"
  using assms
proof (rule buildUnsignedInt_RetD)
  fix n h dlh
  let ?x = "asnCHECK_OVERFLOW_UNSIGNED x"
  assume n: "shortest n ?x" and h: "build_hdr dl ty (of_nat n) = Ret (h, dlh)"
    and bs: "bs = h @ be_bytes n ?x" and dl': "dl' = dlh - of_nat n"
  have "unat (of_nat n :: u64) = n"
    using n by (simp add: shortest_def unat_of_nat)
  then show ?thesis
    using build_hdr_RetD [OF h] by (simp add: bs dl' unat_sub_if)
qed

definition unsigned_type :: "u8 \<Rightarrow> bool" where
  "unsigned_type ty \<longleftrightarrow> ty \<in> {asnCOUNTER, asnGAUGE, asnTIMETICKS, asnUINTEGER}"

lemma unsigned_int_roundtrip:
  assumes "Asn01_buildUnsignedInt dl ty x 8 = Ret (bs, dl')" and "unsigned_type ty"
    and "length bs \<le> unat dl2"
  shows "Asn01_parseUnsignedInt (bs @ rest) dl2 8 =
    Ret (length bs, dl2 - of_nat (length bs), ty, asnCHECK_OVERFLOW_UNSIGNED x)"
  using assms(1)
proof (rule buildUnsignedInt_RetD)
  fix n h dlh
  let ?x = "asnCHECK_OVERFLOW_UNSIGNED x"
  assume n: "shortest n ?x" and h: "build_hdr dl ty (of_nat n) = Ret (h, dlh)"
    and bs: "bs = h @ be_bytes n ?x"
  have n8: "1 \<le> n" "n \<le> 8" and un: "unat (of_nat n :: u64) = n"
    using n by (simp_all add: shortest_def unat_of_nat)
  note H = build_hdr_RetD [OF h]
  have small: "(of_nat n :: u64) \<le> 0xFFFF"
    using un n8 by (simp add: word_le_nat_alt)
  have fit: "length h + unat (of_nat n :: u64) \<le> unat dl2"
    using assms(3) by (simp add: bs un)
  note P1 = parse_len_build_hdr(1) [OF h small fit, of "be_bytes n ?x @ rest"]
    and P2 = parse_len_build_hdr(2,3) [OF h small fit]
  have nth: "(h @ be_bytes n ?x @ rest) ! length h = be_bytes n ?x ! 0"
    using n8 by (simp add: nth_append)
  have h0: "(h @ be_bytes n ?x @ rest) ! 0 = ty"
    using P2(1) H by (cases h) auto
  have nz: "(of_nat n :: u64) \<noteq> 0" "\<not> 9 < (of_nat n :: u64)" "(of_nat n :: u64) \<noteq> 9"
    using un n8 by (auto simp: word_less_nat_alt)
  have "h \<noteq> []" using H by (cases h) simp_all
  then show ?thesis
    using n8 P1 P2(2) h0 nth un nz shift_in_be_bytes [OF n, of h rest] assms(2)
      check_unsigned_id [OF check_unsigned_less [of x]]
    by (auto simp: Asn01_parseUnsignedInt_def unsigned_type_def bs Let_def simp del: be_bytes.simps)
qed

section \<open>The integers as codecs\<close>

lemma parseInt_consumes:
  assumes "Asn_parseInt mem dl isz = Ret (p, dl', v)"
  shows "p + unat dl' = unat dl"
proof -
  from assms obtain b l w r where l: "parse_len mem 1 dl = Ret (b, l)"
    and s: "shift_in (unat l) mem b w = Ret (p, r)" and dl': "dl' = dl - (c_int l + of_nat b)"
    by (auto simp: Asn_parseInt_def obind_Ret_iff Let_def split: if_splits)
  note L = parse_len_RetD [OF l, simplified]
  show ?thesis
    using shift_in_RetD [OF s] consumed_word [OF L(4)] by (simp add: dl' L(5))
qed

lemma parseInt_in_bounds:
  assumes "unat dl + 11 \<le> length mem"
  shows "Asn_parseInt mem dl isz \<noteq> Crash"
proof
  assume "Asn_parseInt mem dl isz = Crash"
  then obtain b l w where l: "parse_len mem 1 dl = Ret (b, l)" and "c_int l \<noteq> 0"
    and "rd mem b = Crash \<or> shift_in (unat l) mem b w = Crash"
    using assms parse_len_slack [OF assms]
    by (auto simp: Asn_parseInt_def obind_Crash_iff Let_def rd_Crash_iff split: if_splits)
  then show False
    using parse_len_RetD [OF l] assms by (auto simp: shift_in_Crash_iff rd_Crash_iff)
qed

lemma parseUnsignedInt_consumes:
  assumes "Asn01_parseUnsignedInt mem dl isz = Ret (p, dl', v)"
  shows "p + unat dl' = unat dl"
proof -
  from assms obtain b l w r where l: "parse_len mem 1 dl = Ret (b, l)"
    and s: "shift_in (unat l) mem b w = Ret (p, r)" and dl': "dl' = dl - (c_int l + of_nat b)"
    by (auto simp: Asn01_parseUnsignedInt_def obind_Ret_iff Let_def split: if_splits)
  note L = parse_len_RetD [OF l, simplified]
  show ?thesis
    using shift_in_RetD [OF s] consumed_word [OF L(4)] by (simp add: dl' L(5))
qed

lemma parseUnsignedInt_in_bounds:
  assumes "unat dl + 11 \<le> length mem"
  shows "Asn01_parseUnsignedInt mem dl isz \<noteq> Crash"
proof
  assume "Asn01_parseUnsignedInt mem dl isz = Crash"
  then obtain b l w where l: "parse_len mem 1 dl = Ret (b, l)"
    and "rd mem b = Crash \<or> shift_in (unat l) mem b w = Crash"
    using assms parse_len_slack [OF assms]
    by (auto simp: Asn01_parseUnsignedInt_def obind_Crash_iff Let_def rd_Crash_iff split: if_splits)
  then show False
    using parse_len_RetD [OF l] assms by (auto simp: shift_in_Crash_iff rd_Crash_iff)
qed

interpretation int_codec: ber_codec "\<lambda>mem dl. Asn_parseInt mem dl 8"
  "\<lambda>dl x. Asn_buildInt dl asnINTEGER x 8" "\<lambda>_. True"
  "\<lambda>x. (asnINTEGER, asnCHECK_OVERFLOW_SIGNED (asnCHECK_OVERFLOW_SIGNED x))"
  by unfold_locales
    (simp_all add: parseInt_consumes parseInt_in_bounds buildInt_capacity int_roundtrip)

interpretation gauge_codec: ber_codec "\<lambda>mem dl. Asn01_parseUnsignedInt mem dl 8"
  "\<lambda>dl x. Asn01_buildUnsignedInt dl asnGAUGE x 8" "\<lambda>_. True"
  "\<lambda>x. (asnGAUGE, asnCHECK_OVERFLOW_UNSIGNED x)"
  by unfold_locales
    (simp_all add: parseUnsignedInt_consumes parseUnsignedInt_in_bounds
      buildUnsignedInt_capacity unsigned_int_roundtrip unsigned_type_def)

text \<open>
  A message whose length byte announces more length bytes than the buffer holds: the parser reads
  past the end of the buffer before it compares anything with \<open>*dataLength\<close>, whatever that is.
\<close>

lemma parse_len_overread:
  assumes "length xs < 8"
  shows "parse_len (ty # 0x88 # xs) 1 dl = Crash"
proof -
  have "shift_in 8 (ty # 0x88 # xs) (Suc (Suc 0)) 0 = Crash"
    using assms by (simp only: shift_in_Crash_iff) simp
  then show ?thesis
    by (simp add: parse_len_def Asn01_parseLength_def asnLONG_LEN_def)
qed

lemma parseInt_overread:
  "length xs < 8 \<Longrightarrow> Asn_parseInt (asnINTEGER # 0x88 # xs) dl 8 = Crash"
  using parse_len_overread [of xs asnINTEGER dl] by (simp add: Asn_parseInt_def)

lemma int_roundtrip_32:
  assumes "- (2 ^ 31) \<le> sint x" and "sint x < 2 ^ 31"
    and "Asn_buildInt dl asnINTEGER x 8 = Ret (bs, dl')"
  shows "Asn_parseInt (bs @ rest) dl 8 = Ret (length bs, dl', asnINTEGER, x)"
  using int_codec.roundtrip_exact [OF TrueI assms(3), of rest]
    check_signed_in_range [OF assms(1,2)] by simp

text \<open>
  Outside that range the "truncation" to 32 bits does not give the value modulo \<open>2 ^ 32\<close> as a
  signed number: \<open>2 ^ 32 - 1\<close> stays as it is and \<open>- 2 ^ 31 - 1\<close> becomes \<open>- 2 ^ 31 + 1\<close>.
\<close>

lemma check_signed_not_truncation:
  "asnCHECK_OVERFLOW_SIGNED 0xFFFFFFFF = 0xFFFFFFFF \<and>
   asnCHECK_OVERFLOW_SIGNED (- 0x80000001) = - 0x7FFFFFFF"
  by (simp add: asnCHECK_OVERFLOW_SIGNED_def)

end
