(* ===== verification/AsnString.thy ===== *)
theory AsnString
  imports AsnBase
begin

text \<open>
  The BER strings, bit strings and NULL of src/Firmware/Core/Asn01.c. A string argument is
  \<open>None\<close> for a NULL pointer or the bytes of the object it points to; the parsers return the bytes
  written to the output buffer (with the terminator \<open>Asn01_parseString\<close> adds when there is room).
\<close>

definition rd_block :: "u8 list \<Rightarrow> nat \<Rightarrow> nat \<Rightarrow> u8 list outcome" where
  "rd_block mem i n = (if n = 0 \<or> i + n \<le> length mem then Ret (take n (drop i mem)) else Crash)"

definition Asn01_parseString ::
    "u8 list \<Rightarrow> size_t \<Rightarrow> size_t \<Rightarrow> (nat \<times> size_t \<times> u8 \<times> u8 list \<times> size_t) outcome" where
  "Asn01_parseString mem datalength strlength =
     obind (rd mem 0) (\<lambda>type.
     if type \<noteq> asnOCTET_STR \<and> type \<noteq> asnIPADDRESS \<and> type \<noteq> asnOPAQUE \<and> type \<noteq> asnNSAP then Null
     else obind (parse_len mem 1 datalength) (\<lambda>(bufp, asn_length).
       if asn_length > strlength then Null
       else obind (rd_block mem bufp (unat asn_length)) (\<lambda>str.
         Ret (bufp + unat asn_length, datalength - (asn_length + of_nat bufp), type,
           str @ (if strlength > asn_length then [0] else []), asn_length))))"

definition Asn01_buildString ::
    "size_t \<Rightarrow> u8 \<Rightarrow> u8 list option \<Rightarrow> size_t \<Rightarrow> (u8 list \<times> size_t) outcome" where
  "Asn01_buildString datalength type str strlength =
     obind (build_hdr datalength type strlength) (\<lambda>(bs, dl).
     obind (if strlength \<noteq> 0 then
              (case str of None \<Rightarrow> Ret (replicate (unat strlength) 0)
               | Some s \<Rightarrow> rd_block s 0 (unat strlength))
            else Ret []) (\<lambda>content. Ret (bs @ content, dl - strlength)))"

definition Asn01_bitStringCheck :: "size_t \<Rightarrow> bool" where
  "Asn01_bitStringCheck asnLength \<longleftrightarrow> asnLength < 1"

definition Asn01_parseBitstring ::
    "u8 list \<Rightarrow> size_t \<Rightarrow> size_t \<Rightarrow> (nat \<times> size_t \<times> u8 \<times> u8 list \<times> size_t) outcome" where
  "Asn01_parseBitstring mem datalength strlength =
     obind (rd mem 0) (\<lambda>type.
     if type \<noteq> asnBIT_STR then Null
     else obind (parse_len mem 1 datalength) (\<lambda>(bufp, asn_length).
       if asn_length > strlength then Null
       else obind (rd mem bufp) (\<lambda>_.
         if Asn01_bitStringCheck asn_length then Null
         else obind (rd_block mem bufp (unat asn_length)) (\<lambda>str.
           Ret (bufp + unat asn_length, datalength - (c_int asn_length + of_nat bufp), type,
             str, c_int asn_length)))))"

definition Asn01_buildBitstring ::
    "size_t \<Rightarrow> u8 \<Rightarrow> u8 list option \<Rightarrow> size_t \<Rightarrow> (u8 list \<times> size_t) outcome" where
  "Asn01_buildBitstring datalength type str strlength =
     obind (case str of None \<Rightarrow> Ret 0 | Some s \<Rightarrow> rd s 0) (\<lambda>_.
     if Asn01_bitStringCheck strlength then Null
     else obind (build_hdr datalength type strlength) (\<lambda>(bs, dl).
       obind (if strlength > 0 then
                (case str of None \<Rightarrow> Null | Some s \<Rightarrow> rd_block s 0 (unat strlength))
              else Ret []) (\<lambda>content. Ret (bs @ content, dl - strlength))))"

definition Asn01_parseNull :: "u8 list \<Rightarrow> size_t \<Rightarrow> (nat \<times> size_t \<times> u8) outcome" where
  "Asn01_parseNull mem datalength =
     obind (rd mem 0) (\<lambda>type.
     obind (Asn01_parseLength mem 1) (\<lambda>(bufp, asn_length).
       if asn_length \<noteq> 0 then Null
       else Ret (bufp + unat asn_length, datalength - of_nat bufp, type)))"

definition Asn01_buildNull :: "size_t \<Rightarrow> u8 \<Rightarrow> (u8 list \<times> size_t) outcome" where
  "Asn01_buildNull datalength type = Asn01_buildHeader datalength type 0"

section \<open>Strings\<close>

lemma rd_block_append [simp]: "n \<le> length xs \<Longrightarrow> rd_block (pre @ xs @ rest) (length pre) n = Ret (take n xs)"
  by (simp add: rd_block_def)

lemma rd_block_Ret_iff:
  "rd_block mem i n = Ret bs \<longleftrightarrow> (n = 0 \<or> i + n \<le> length mem) \<and> bs = take n (drop i mem)"
  by (auto simp: rd_block_def)

lemma rd_block_Crash_iff: "rd_block mem i n = Crash \<longleftrightarrow> 0 < n \<and> length mem < i + n"
  by (auto simp: rd_block_def)

lemma rd_block_not_Null [simp]: "rd_block mem i n \<noteq> Null"
  by (simp add: rd_block_def)

lemma parseString_consumes:
  assumes "Asn01_parseString mem dl cap = Ret (p, dl', v)"
  shows "p + unat dl' = unat dl"
proof -
  from assms obtain b l where l: "parse_len mem 1 dl = Ret (b, l)"
    and "p = b + unat l" and "dl' = dl - (l + of_nat b)"
    by (auto simp: Asn01_parseString_def obind_Ret_iff split: if_splits)
  then show ?thesis
    using parse_len_RetD [OF l] consumed_word [of l b dl] by simp
qed

lemma parseString_in_bounds:
  assumes "unat dl + 11 \<le> length mem"
  shows "Asn01_parseString mem dl cap \<noteq> Crash"
proof
  assume "Asn01_parseString mem dl cap = Crash"
  then obtain b l where l: "parse_len mem 1 dl = Ret (b, l)" and "rd_block mem b (unat l) = Crash"
    using assms parse_len_slack [OF assms]
    by (auto simp: Asn01_parseString_def obind_Crash_iff rd_Crash_iff split: if_splits)
  then show False
    using parse_len_RetD [OF l] assms by (auto simp: rd_block_Crash_iff)
qed

lemma buildString_RetD:
  assumes "Asn01_buildString dl ty (Some s) n = Ret (bs, dl')"
  obtains h dlh where "build_hdr dl ty n = Ret (h, dlh)" and "bs = h @ take (unat n) s"
    and "unat n \<le> length s" and "dl' = dlh - n"
  using assms that
  by (auto simp: Asn01_buildString_def obind_Ret_iff rd_block_Ret_iff split: if_splits)

lemma buildString_capacity:
  assumes "Asn01_buildString dl ty (Some s) n = Ret (bs, dl')"
  shows "length bs + unat dl' = unat dl"
  using assms
proof (rule buildString_RetD)
  fix h dlh
  assume "build_hdr dl ty n = Ret (h, dlh)" and "bs = h @ take (unat n) s" and "unat n \<le> length s"
    and "dl' = dlh - n"
  then show ?thesis
    using build_hdr_RetD [of dl ty n h dlh] by (simp add: unat_sub_if)
qed

definition string_type :: "u8 \<Rightarrow> bool" where
  "string_type ty \<longleftrightarrow> ty \<in> {asnOCTET_STR, asnIPADDRESS, asnOPAQUE, asnNSAP}"

lemma string_roundtrip:
  assumes "Asn01_buildString dl ty (Some s) (of_nat (length s)) = Ret (bs, dl')"
    and "string_type ty" and "length s \<le> 0xFFFF" and "length s \<le> unat cap"
    and "length bs \<le> unat dl2"
  shows "Asn01_parseString (bs @ rest) dl2 cap =
    Ret (length bs, dl2 - of_nat (length bs), ty,
      s @ (if length s < unat cap then [0] else []), of_nat (length s))"
  using assms(1)
proof (rule buildString_RetD)
  fix h dlh
  let ?n = "of_nat (length s) :: u64"
  assume h: "build_hdr dl ty ?n = Ret (h, dlh)" and bs: "bs = h @ take (unat ?n) s"
  have n: "unat ?n = length s"
    using assms(3) by (simp add: unat_of_nat)
  have small: "?n \<le> 0xFFFF" and fit: "length h + unat ?n \<le> unat dl2"
    using assms(3,5) n by (simp_all add: word_le_nat_alt bs)
  note P1 = parse_len_build_hdr(1) [OF h small fit, of "s @ rest"]
    and P2 = parse_len_build_hdr(2,3) [OF h small fit]
  have "h \<noteq> []" and "(h @ s @ rest) ! 0 = ty"
    using build_hdr_RetD [OF h] P2(1) by (cases h; simp)+
  then show ?thesis
    using P1 assms(2,4) n
    by (auto simp: Asn01_parseString_def bs string_type_def word_less_nat_alt)
qed

interpretation string_codec: ber_codec "\<lambda>mem dl. Asn01_parseString mem dl cap"
  "\<lambda>dl s. Asn01_buildString dl asnOCTET_STR (Some s) (of_nat (length s))"
  "\<lambda>s. length s \<le> 0xFFFF \<and> length s \<le> unat cap"
  "\<lambda>s. (asnOCTET_STR, s @ (if length s < unat cap then [0] else []), of_nat (length s))"
  for cap :: size_t
  by unfold_locales
    (simp_all add: parseString_consumes parseString_in_bounds buildString_capacity
      string_roundtrip string_type_def)

section \<open>Bit strings\<close>

lemma parseBitstring_consumes:
  assumes "Asn01_parseBitstring mem dl cap = Ret (p, dl', v)"
  shows "p + unat dl' = unat dl"
proof -
  from assms obtain b l where l: "parse_len mem 1 dl = Ret (b, l)"
    and "p = b + unat l" and "dl' = dl - (c_int l + of_nat b)"
    by (auto simp: Asn01_parseBitstring_def obind_Ret_iff split: if_splits)
  then show ?thesis
    using parse_len_RetD [OF l] consumed_word [of l b dl] by simp
qed

lemma parseBitstring_in_bounds:
  assumes "unat dl + 11 \<le> length mem"
  shows "Asn01_parseBitstring mem dl cap \<noteq> Crash"
proof
  assume "Asn01_parseBitstring mem dl cap = Crash"
  then obtain b l where l: "parse_len mem 1 dl = Ret (b, l)"
    and "rd mem b = Crash \<or> rd_block mem b (unat l) = Crash"
    using assms parse_len_slack [OF assms]
    by (auto simp: Asn01_parseBitstring_def obind_Crash_iff rd_Crash_iff split: if_splits)
  then show False
    using parse_len_RetD [OF l] assms by (auto simp: rd_block_Crash_iff rd_Crash_iff)
qed

lemma buildBitstring_RetD:
  assumes "Asn01_buildBitstring dl ty (Some s) n = Ret (bs, dl')"
  obtains h dlh where "build_hdr dl ty n = Ret (h, dlh)" and "bs = h @ take (unat n) s"
    and "unat n \<le> length s" and "dl' = dlh - n" and "1 \<le> unat n"
  using assms that
  by (auto simp: Asn01_buildBitstring_def Asn01_bitStringCheck_def obind_Ret_iff rd_block_Ret_iff
      rd_Ret_iff word_less_nat_alt split: if_splits)

lemma buildBitstring_capacity:
  assumes "Asn01_buildBitstring dl ty (Some s) n = Ret (bs, dl')"
  shows "length bs + unat dl' = unat dl"
  using assms
proof (rule buildBitstring_RetD)
  fix h dlh
  assume "build_hdr dl ty n = Ret (h, dlh)" and "bs = h @ take (unat n) s" and "unat n \<le> length s"
    and "dl' = dlh - n"
  then show ?thesis
    using build_hdr_RetD [of dl ty n h dlh] by (simp add: unat_sub_if)
qed

lemma bitstring_roundtrip:
  assumes "Asn01_buildBitstring dl asnBIT_STR (Some s) (of_nat (length s)) = Ret (bs, dl')"
    and "length s \<le> 0xFFFF" and "length s \<le> unat cap" and "length bs \<le> unat dl2"
  shows "Asn01_parseBitstring (bs @ rest) dl2 cap =
    Ret (length bs, dl2 - of_nat (length bs), asnBIT_STR, s, of_nat (length s))"
  using assms(1)
proof (rule buildBitstring_RetD)
  fix h dlh
  let ?n = "of_nat (length s) :: u64"
  assume h: "build_hdr dl asnBIT_STR ?n = Ret (h, dlh)" and bs: "bs = h @ take (unat ?n) s"
    and ge1: "1 \<le> unat ?n"
  have n: "unat ?n = length s"
    using assms(2) by (simp add: unat_of_nat)
  have small: "?n \<le> 0xFFFF" and fit: "length h + unat ?n \<le> unat dl2"
    using assms(2,4) n by (simp_all add: word_le_nat_alt bs)
  note P1 = parse_len_build_hdr(1) [OF h small fit, of "s @ rest"]
    and P2 = parse_len_build_hdr(2,3) [OF h small fit]
  have "h \<noteq> []" and "(h @ s @ rest) ! 0 = asnBIT_STR"
    using build_hdr_RetD [OF h] P2(1) by (cases h; simp)+
  moreover have "\<not> Asn01_bitStringCheck ?n" and "\<not> ?n > cap" and "s \<noteq> []"
    using ge1 n assms(3) by (auto simp: Asn01_bitStringCheck_def word_less_nat_alt)
  ultimately show ?thesis
    using P1 P2(2) n by (simp add: Asn01_parseBitstring_def bs)
qed

interpretation bitstring_codec: ber_codec "\<lambda>mem dl. Asn01_parseBitstring mem dl cap"
  "\<lambda>dl s. Asn01_buildBitstring dl asnBIT_STR (Some s) (of_nat (length s))"
  "\<lambda>s. length s \<le> 0xFFFF \<and> length s \<le> unat cap"
  "\<lambda>s. (asnBIT_STR, s, of_nat (length s))"
  for cap :: size_t
  by unfold_locales
    (simp_all add: parseBitstring_consumes parseBitstring_in_bounds buildBitstring_capacity
      bitstring_roundtrip)

section \<open>NULL\<close>

lemma null_roundtrip:
  assumes "Asn01_buildNull dl asnNULL = Ret (bs, dl')"
  shows "bs = [asnNULL, 0]" and "Asn01_parseNull (bs @ rest) dl = Ret (2, dl', asnNULL)"
  using assms
  by (auto simp: Asn01_buildNull_def Asn01_buildHeader_def Asn01_buildLength_def
      Asn01_parseNull_def Asn01_parseLength_def asn_tags split: if_splits)

text \<open>
  \<open>Asn01_parseNull\<close> compares neither the type nor what is left of the message: one byte before
  the end, it leaves \<open>2 ^ 64 - 1\<close> bytes.
\<close>

lemma parseNull_underflow: "Asn01_parseNull (ty # 0 # rest) 1 = Ret (2, - 1, ty)"
  by (simp add: Asn01_parseNull_def Asn01_parseLength_def asn_tags)

section \<open>Lengths above 16 bits\<close>

text \<open>The length builder keeps the low 16 bits of a longer length, and reports no error.\<close>

lemma buildLength_truncates:
  assumes "0xFFFF < len" and "3 \<le> dl"
  shows "\<exists>bs. Asn01_buildLength dl len = Ret (bs, dl - 3) \<and>
    Asn01_parseLength bs 0 = Ret (3, take_bit 16 len)"
proof -
  let ?l = "take_bit 16 len"
  let ?bs = "[0x82, ucast (drop_bit 8 len AND 0xFF), ucast (len AND 0xFF)] :: u8 list"
  have "unat ?l < 2 ^ 16"
    by (simp only: unsigned_take_bit_eq) (rule take_bit_nat_less_exp)
  then have l: "unat ?l \<le> 0xFFFF" by simp
  have m: "(x AND 0xFF) = take_bit 8 x" for x :: u64
    by (simp add: take_bit_eq_mask mask_eq_exp_minus_1)
  have "drop_bit 8 len AND 0xFF = drop_bit 8 ?l AND 0xFF" and "len AND 0xFF = ?l AND 0xFF"
    unfolding m by (auto intro!: bit_word_eqI simp: bit_simps)
  then have hl: "push_bit 8 (ucast (ucast (drop_bit 8 len AND 0xFF) :: u8)) OR
      ucast (ucast (len AND 0xFF) :: u8) = ?l"
    using hi_lo_bytes [OF l] by (simp only:)
  have s2: "shift_in 2 mem i 0 = obind (rd mem i) (\<lambda>b. obind (rd mem (Suc i)) (\<lambda>c.
      Ret (Suc (Suc i), push_bit 8 (ucast b) OR ucast c)))" for mem i
    by (simp add: numeral_2_eq_2)
  have "\<not> sint ?l < 0"
    using l by (simp add: sint_nonneg)
  then have "Asn01_parseLength ?bs 0 = Ret (3, ?l)"
    by (simp add: Asn01_parseLength_def asn_tags s2 hl)
  moreover have "Asn01_buildLength dl len = Ret (?bs, dl - 3)"
    using assms by (auto simp: Asn01_buildLength_def asn_tags word_less_nat_alt word_le_nat_alt)
  ultimately show ?thesis by blast
qed

end
