(* ===== verification/AsnOid.thy ===== *)
theory AsnOid
  imports AsnBase
begin

text \<open>
  The BER object identifiers of src/Firmware/Core/Asn01.c: \<open>Asn01_parseObjid\<close> and
  \<open>Asn01_buildObjid\<close>. The array of sub-identifiers is the list of the elements of its object, and
  an access outside it is \<open>Crash\<close>; \<open>*objidlength\<close> is what the caller says its size is.
\<close>

definition TYPES_MAX_OID_LEN :: nat where
  "TYPES_MAX_OID_LEN = 128"

definition TYPES_OID_MAX_SUBID :: u64 where
  "TYPES_OID_MAX_SUBID = 0xFFFFFFFF"

definition rd_oid :: "oid list \<Rightarrow> nat \<Rightarrow> oid outcome" where
  "rd_oid objid i = (if i < length objid then Ret (objid ! i) else Crash)"

definition wr_oid :: "oid list \<Rightarrow> nat \<Rightarrow> oid \<Rightarrow> oid list outcome" where
  "wr_oid objid i v = (if i < length objid then Ret (objid[i := v]) else Crash)"

section \<open>The parser\<close>

text \<open>
  The inner loop shifts in seven bits per byte until a byte without the high bit or the end of the
  value; the results are the pointer, the bytes left and the sub-identifier.
\<close>

fun subid_loop :: "u8 list \<Rightarrow> nat \<Rightarrow> nat \<Rightarrow> u64 \<Rightarrow> (nat \<times> nat \<times> u64) outcome" where
  "subid_loop mem bufp 0 subidentifier = Ret (bufp, 0, subidentifier)"
| "subid_loop mem bufp (Suc len) subidentifier =
     obind (rd mem bufp) (\<lambda>b.
       let subidentifier1 = push_bit 7 subidentifier + ucast (b AND NOT asnBIT8)
       in if b AND asnBIT8 \<noteq> 0 \<and> len > 0 then subid_loop mem (bufp + 1) len subidentifier1
          else Ret (bufp + 1, len, subidentifier1))"

lemma subid_loop_shorter:
  "subid_loop mem bufp len s = Ret (p, len', s') \<Longrightarrow> 0 < len \<Longrightarrow> len' < len"
proof (induction mem bufp len s rule: subid_loop.induct)
  case (2 mem bufp len s)
  then obtain b where "rd mem bufp = Ret b"
    and "subid_loop mem (bufp + 1) len (push_bit 7 s + ucast (b AND NOT asnBIT8))
      = Ret (p, len', s') \<and> 0 < len \<and> b AND asnBIT8 \<noteq> 0 \<or> len' = len"
    by (auto simp: obind_Ret_iff Let_def split: if_splits)
  then show ?case
    using "2.IH" [of b] by (auto simp: less_Suc_eq)
qed simp

function objid_loop ::
    "u8 list \<Rightarrow> nat \<Rightarrow> nat \<Rightarrow> size_t \<Rightarrow> nat \<Rightarrow> oid list \<Rightarrow> (nat \<times> nat \<times> nat \<times> oid list) outcome" where
  "objid_loop mem bufp len objidlength oidp objid =
     (if len > 0 \<and> objidlength > 0 then
        obind (subid_loop mem bufp len 0) (\<lambda>(bufp1, len1, subidentifier).
          obind (if len1 = 0 then rd mem (bufp1 - 1) else Ret 0) (\<lambda>last_byte.
            if last_byte AND asnBIT8 \<noteq> 0 then Null
            else if subidentifier > TYPES_OID_MAX_SUBID then Null
            else obind (wr_oid objid oidp (ucast subidentifier)) (\<lambda>objid1.
              objid_loop mem bufp1 len1 (objidlength - 1) (oidp + 1) objid1)))
      else Ret (bufp, len, oidp, objid))"
  by pat_completeness auto
termination
  by (relation "measure (\<lambda>(mem, bufp, len, objidlength, oidp, objid). len)")
    (auto dest: subid_loop_shorter)

declare objid_loop.simps [simp del]

text \<open>The first two sub-identifiers out of their combined value.\<close>

definition split_first :: "u64 \<Rightarrow> oid \<times> u64" where
  "split_first subidentifier =
     (if subidentifier = 0x2B then (1, 3)
      else if subidentifier < 40 then (0, subidentifier)
      else if subidentifier < 80 then (1, subidentifier - 40)
      else (2, subidentifier - 80))"

definition Asn01_parseObjid ::
    "u8 list \<Rightarrow> size_t \<Rightarrow> oid list \<Rightarrow> size_t
     \<Rightarrow> (nat \<times> size_t \<times> u8 \<times> oid list \<times> size_t) outcome" where
  "Asn01_parseObjid mem datalength objid objidlength =
     obind (rd mem 0) (\<lambda>type.
     if type \<noteq> asnOBJECT_ID then Null
     else obind (parse_len mem 1 datalength) (\<lambda>(bufp, asn_length).
       let datalength1 = datalength - (c_int asn_length + of_nat bufp)
       in obind (if asn_length = 0
                 then obind (wr_oid objid 1 0) (\<lambda>o1. wr_oid o1 0 0) else Ret objid) (\<lambda>objid1.
          obind (objid_loop mem bufp (unat asn_length) (objidlength - 1) 1 objid1)
            (\<lambda>(bufp1, len, oidp, objid2).
            if len \<noteq> 0 then Null
            else obind (rd_oid objid2 1) (\<lambda>s1.
              let (x, y) = split_first (ucast s1)
              in obind (wr_oid objid2 0 x) (\<lambda>o1.
                 obind (wr_oid o1 1 (ucast y)) (\<lambda>o2.
                   Ret (bufp1, datalength1, type, o2, of_nat oidp))))))))"

section \<open>The builder\<close>

text \<open>The number of bytes a sub-identifier takes, and the \<open>switch\<close> that writes them.\<close>

definition objid_size :: "u64 \<Rightarrow> nat" where
  "objid_size objid_val0 =
     (let objid_val = (if objid_val0 > 0xffffffff then objid_val0 AND 0xffffffff else objid_val0)
      in if objid_val < 0x80 then 1
         else if objid_val < 0x4000 then 2
         else if objid_val < 0x200000 then 3
         else if objid_val < 0x10000000 then 4
         else 5)"

definition emit_subid :: "nat \<Rightarrow> u64 \<Rightarrow> u8 list" where
  "emit_subid sz objid_val =
     (if sz = 1 then [ucast objid_val]
      else if sz = 2 then
        [ucast (drop_bit 7 objid_val OR 0x80), ucast (objid_val AND 0x07f)]
      else if sz = 3 then
        [ucast (drop_bit 14 objid_val OR 0x80), ucast ((drop_bit 7 objid_val AND 0x7f) OR 0x80),
         ucast (objid_val AND 0x07f)]
      else if sz = 4 then
        [ucast (drop_bit 21 objid_val OR 0x80), ucast ((drop_bit 14 objid_val AND 0x7f) OR 0x80),
         ucast ((drop_bit 7 objid_val AND 0x7f) OR 0x80), ucast (objid_val AND 0x07f)]
      else if sz = 5 then
        [ucast (drop_bit 28 objid_val OR 0x80), ucast ((drop_bit 21 objid_val AND 0x7f) OR 0x80),
         ucast ((drop_bit 14 objid_val AND 0x7f) OR 0x80),
         ucast ((drop_bit 7 objid_val AND 0x7f) OR 0x80), ucast (objid_val AND 0x07f)]
      else [])"

text \<open>
  The combined first value and the number of sub-identifiers the loops run over. The products and
  sums are \<open>uint32_t\<close> arithmetic, widened afterwards.
\<close>

definition first_objid_val :: "oid list \<Rightarrow> nat \<Rightarrow> (u64 \<times> nat) outcome" where
  "first_objid_val objid objidlength =
     (if objidlength = 0 then Ret (0, 2)
      else obind (rd_oid objid 0) (\<lambda>o0.
        if o0 > 2 then Null
        else if objidlength = 1 then Ret (ucast (o0 * 40), 2)
        else obind (rd_oid objid 1) (\<lambda>o1.
          if o1 > 40 \<and> o0 < 2 then Null
          else Ret (ucast (o0 * 40 + o1), objidlength))))"

definition Asn01_buildObjid ::
    "size_t \<Rightarrow> u8 \<Rightarrow> oid list \<Rightarrow> nat \<Rightarrow> (u8 list \<times> size_t) outcome" where
  "Asn01_buildObjid datalength type objid objidlength =
     obind (first_objid_val objid objidlength) (\<lambda>(first, objidlength1).
     if objidlength1 > TYPES_MAX_OID_LEN then Null
     else if objidlength1 > 2 \<and> length objid < objidlength1 then Crash
     else
       (let vals = first # map ucast (take (objidlength1 - 2) (drop 2 objid));
            sizes = map objid_size vals;
            asnlength = of_nat (sum_list sizes)
        in obind (build_hdr datalength type asnlength) (\<lambda>(bs, dl).
             Ret (bs @ concat (map2 emit_subid sizes vals), dl - asnlength))))"

section \<open>Sub-identifiers\<close>

text \<open>\<open>n\<close> groups of seven bits, most significant first, all but the last marked.\<close>

fun sub_bytes :: "nat \<Rightarrow> u64 \<Rightarrow> u8 list" where
  "sub_bytes 0 v = []"
| "sub_bytes (Suc n) v =
     (if n = 0 then ucast (take_bit 7 v) else ucast (take_bit 7 (drop_bit (7 * n) v)) OR 0x80)
       # sub_bytes n v"

lemma length_sub_bytes [simp]: "length (sub_bytes n v) = n"
  by (induction n) auto

lemma bit_80_u8: "bit (0x80 :: u8) i \<longleftrightarrow> i = 7"
proof -
  have "(0x80 :: u8) = 2 ^ 7" by simp
  then show ?thesis
    by (simp only: bit_exp_iff) auto
qed

lemma bit_80_u64: "bit (0x80 :: u64) i \<longleftrightarrow> i = 7"
proof -
  have "(0x80 :: u64) = 2 ^ 7" by simp
  then show ?thesis
    by (simp only: bit_exp_iff) auto
qed

lemma and_not_80: "(b :: u8) AND NOT asnBIT8 = take_bit 7 b"
proof -
  have "NOT asnBIT8 = mask 7"
    by (simp add: asnBIT8_def mask_eq_exp_minus_1)
  then show ?thesis
    by (simp only: take_bit_eq_mask)
qed

lemma sub_byte_decode:
  fixes v :: u64
  shows "ucast ((ucast (take_bit 7 v) OR 0x80 :: u8) AND NOT asnBIT8) = take_bit 7 v"
    and "(ucast (take_bit 7 v) OR 0x80 :: u8) AND asnBIT8 \<noteq> 0"
    and "ucast ((ucast (take_bit 7 v) :: u8) AND NOT asnBIT8) = take_bit 7 v"
    and "(ucast (take_bit 7 v) :: u8) AND asnBIT8 = 0"
proof -
  show "ucast ((ucast (take_bit 7 v) OR 0x80 :: u8) AND NOT asnBIT8) = take_bit 7 v"
    unfolding and_not_80 by (rule bit_word_eqI) (auto simp: bit_simps bit_80_u8)
  show "ucast ((ucast (take_bit 7 v) :: u8) AND NOT asnBIT8) = take_bit 7 v"
    unfolding and_not_80 by (rule bit_word_eqI) (auto simp: bit_simps)
qed (simp_all add: asnBIT8_def and_80_iff bit_simps bit_80_u8)

lemma glue_groups:
  "push_bit (7 * n) (take_bit 7 (drop_bit (7 * n) v)) + take_bit (7 * n) v
     = take_bit (7 * Suc n) (v :: u64)"
proof -
  have "push_bit (7 * n) (take_bit 7 (drop_bit (7 * n) v)) + take_bit (7 * n) v
      = push_bit (7 * n) (take_bit 7 (drop_bit (7 * n) v)) OR take_bit (7 * n) v"
    by (rule disjunctive_add) (auto simp: bit_simps)
  also have "\<dots> = take_bit (7 * Suc n) v"
    by (rule bit_word_eqI) (auto simp: bit_simps add.commute)
  finally show ?thesis .
qed

text \<open>The inner loop reads back what \<open>sub_bytes\<close> wrote, and stops after it.\<close>

lemma subid_loop_sub_bytes:
  "subid_loop (pre @ sub_bytes (Suc n) v @ rest) (length pre) (Suc n + l) s
     = Ret (length pre + Suc n, l, push_bit (7 * Suc n) s + take_bit (7 * Suc n) v)"
proof (induction n arbitrary: pre s)
  case 0
  show ?case
    using sub_byte_decode(3,4) [of v] by simp
next
  case (Suc n)
  let ?b = "ucast (take_bit 7 (drop_bit (7 * Suc n) v)) OR 0x80 :: u8"
  let ?s = "push_bit 7 s + take_bit 7 (drop_bit (7 * Suc n) v)"
  have b: "sub_bytes (Suc (Suc n)) v = ?b # sub_bytes (Suc n) v"
    by simp
  have "subid_loop (pre @ sub_bytes (Suc (Suc n)) v @ rest) (length pre) (Suc (Suc n) + l) s
      = subid_loop ((pre @ [?b]) @ sub_bytes (Suc n) v @ rest) (length (pre @ [?b])) (Suc n + l) ?s"
    using sub_byte_decode(1,2) [of "drop_bit (7 * Suc n) v"]
    by (simp add: b del: sub_bytes.simps(2))
  also have "\<dots> = Ret (length (pre @ [?b]) + Suc n, l,
      push_bit (7 * Suc n) ?s + take_bit (7 * Suc n) v)"
    by (rule Suc.IH)
  also have "push_bit (7 * Suc n) ?s + take_bit (7 * Suc n) v
      = push_bit (7 * Suc (Suc n)) s + take_bit (7 * Suc (Suc n)) v"
    using glue_groups [of "Suc n" v]
    by (simp add: push_bit_add push_bit_push_bit add.assoc add.commute del: push_bit_Suc)
  finally show ?case by simp
qed

lemma objid_size_bounds:
  assumes "unat v < 2 ^ 32"
  shows "1 \<le> objid_size v" and "objid_size v \<le> 5" and "unat v < 2 ^ (7 * objid_size v)"
  using assms by (auto simp: objid_size_def Let_def word_less_nat_alt)

lemma and_7f: "(x :: u64) AND 0x7f = take_bit 7 x"
  by (simp add: take_bit_eq_mask mask_eq_exp_minus_1)

lemma emit_group:
  assumes "unat v < 2 ^ (n + 7)"
  shows "ucast (drop_bit n v OR 0x80 :: u64) = (ucast (take_bit 7 (drop_bit n v)) OR 0x80 :: u8)"
proof (rule bit_word_eqI)
  fix i
  have "n + i < n + 7" if "bit v (n + i)"
    using bit_less_exp [OF that assms] .
  then show "bit (ucast (drop_bit n v OR 0x80 :: u64) :: u8) i
      = bit (ucast (take_bit 7 (drop_bit n v)) OR 0x80 :: u8) i" if "i < LENGTH(8)"
    using that by (auto simp: bit_simps bit_80_u8 bit_80_u64)
qed

lemma emit_mid:
  "ucast (take_bit 7 (drop_bit n v) OR 0x80 :: u64) = (ucast (take_bit 7 (drop_bit n v)) OR 0x80 :: u8)"
  by (rule bit_word_eqI) (auto simp: bit_simps bit_80_u8 bit_80_u64)

lemma emit_last:
  assumes "unat v < 2 ^ 7"
  shows "ucast v = (ucast (take_bit 7 v) :: u8)"
  by (rule bit_word_eqI) (auto simp: bit_simps dest: bit_less_exp [OF _ assms])

lemma sub_bytes_upto:
  "sub_bytes (Suc 0) v = [ucast (take_bit 7 v)]"
  "sub_bytes 2 v = [ucast (take_bit 7 (drop_bit 7 v)) OR 0x80, ucast (take_bit 7 v)]"
  "sub_bytes 3 v = (ucast (take_bit 7 (drop_bit 14 v)) OR 0x80) # sub_bytes 2 v"
  "sub_bytes 4 v = (ucast (take_bit 7 (drop_bit 21 v)) OR 0x80) # sub_bytes 3 v"
  "sub_bytes 5 v = (ucast (take_bit 7 (drop_bit 28 v)) OR 0x80) # sub_bytes 4 v"
proof -
  show "sub_bytes (Suc 0) v = [ucast (take_bit 7 v)]"
    by simp
  show "sub_bytes 2 v = [ucast (take_bit 7 (drop_bit 7 v)) OR 0x80, ucast (take_bit 7 v)]"
    by (simp add: numeral_2_eq_2)
qed (use sub_bytes.simps(2) [of 2 v] sub_bytes.simps(2) [of 3 v] sub_bytes.simps(2) [of 4 v]
    in simp_all)

lemma emit_subid_sub_bytes:
  assumes "unat v < 2 ^ 32"
  shows "emit_subid (objid_size v) v = sub_bytes (objid_size v) v"
proof -
  note b = objid_size_bounds [OF assms]
  consider "objid_size v = 1" | "objid_size v = 2" | "objid_size v = 3" | "objid_size v = 4"
    | "objid_size v = 5"
    using b by linarith
  then show ?thesis
    using b(3)
    by cases (simp_all add: emit_subid_def and_7f emit_mid emit_group emit_last sub_bytes_upto)
qed

lemma sub_bytes_last:
  assumes "1 \<le> n"
  shows "sub_bytes n v ! (n - 1) AND asnBIT8 = 0"
  using assms
proof (induction n)
  case (Suc n)
  then show ?case
    using sub_byte_decode(4) [of v] by (cases n) simp_all
qed simp

text \<open>One value in front of the rest: the step of the outer loop.\<close>

lemma objid_loop_step:
  assumes "1 \<le> n" and "unat v < 2 ^ 32" and "unat v < 2 ^ (7 * n)"
    and "0 < unat ol" and "oidp < length arr"
  shows "objid_loop (pre @ sub_bytes n v @ rest) (length pre) (n + l) ol oidp arr
    = objid_loop ((pre @ sub_bytes n v) @ rest) (length (pre @ sub_bytes n v)) l (ol - 1)
        (oidp + 1) (arr[oidp := ucast v])"
proof -
  obtain k where k: "n = Suc k"
    using assms(1) by (cases n) auto
  have v: "take_bit (7 * Suc k) v = v"
    by (rule bit_word_eqI)
      (use assms(3) k in \<open>auto simp: bit_simps dest: bit_less_exp\<close>)
  have nth: "(pre @ sub_bytes n v @ rest) ! (length pre + n - 1) AND asnBIT8 = 0"
  proof -
    have "length pre + n - 1 = length pre + (n - 1)"
      using assms(1) by simp
    then show ?thesis
      using sub_bytes_last [OF assms(1), of v] assms(1) by (simp only: nth_append_length_plus)
        (simp add: nth_append)
  qed
  have "\<not> v > TYPES_OID_MAX_SUBID"
    using assms(2) by (simp add: TYPES_OID_MAX_SUBID_def word_less_nat_alt)
  moreover have "subid_loop (pre @ sub_bytes n v @ rest) (length pre) (n + l) 0
      = Ret (length pre + n, l, v)"
    using subid_loop_sub_bytes [of pre k v rest l 0] v by (simp only: k push_bit_of_0 add_0)
  moreover have "ol > 0"
    using assms(4) by (simp add: word_gt_0 unat_gt_0)
  ultimately show ?thesis
    using assms(1,5) nth
    by (subst objid_loop.simps) (simp add: wr_oid_def asnBIT8_def)
qed

lemma objid_loop_values:
  assumes "\<forall>v \<in> set vals. unat v < 2 ^ 32"
    and "length vals \<le> unat ol" and "oidp + length vals \<le> length arr"
  shows "objid_loop (pre @ concat (map (\<lambda>v. sub_bytes (objid_size v) v) vals) @ rest) (length pre)
      (sum_list (map objid_size vals)) ol oidp arr
    = Ret (length pre + sum_list (map objid_size vals), 0, oidp + length vals,
        take oidp arr @ map ucast vals @ drop (oidp + length vals) arr)"
  using assms
proof (induction vals arbitrary: pre ol oidp arr)
  case Nil
  then show ?case
    by (subst objid_loop.simps) simp
next
  case (Cons v vals)
  let ?n = "objid_size v"
  note b = objid_size_bounds [of v]
  have "objid_loop (pre @ sub_bytes ?n v @ concat (map (\<lambda>v. sub_bytes (objid_size v) v) vals) @ rest)
        (length pre) (?n + sum_list (map objid_size vals)) ol oidp arr
      = objid_loop ((pre @ sub_bytes ?n v) @ concat (map (\<lambda>v. sub_bytes (objid_size v) v) vals) @ rest)
        (length (pre @ sub_bytes ?n v)) (sum_list (map objid_size vals)) (ol - 1) (oidp + 1)
        (arr[oidp := ucast v])"
    using b Cons.prems by (intro objid_loop_step) auto
  also have "\<dots> = Ret (length (pre @ sub_bytes ?n v) + sum_list (map objid_size vals), 0,
      (oidp + 1) + length vals, take (oidp + 1) (arr[oidp := ucast v]) @ map ucast vals
        @ drop (oidp + 1 + length vals) (arr[oidp := ucast v]))"
    using Cons.prems by (intro Cons.IH) (auto simp: unat_sub_if)
  also have "take (oidp + 1) (arr[oidp := ucast v]) = take oidp arr @ [ucast v]"
    using Cons.prems by (simp add: take_Suc_conv_app_nth)
  finally show ?case by simp
qed

section \<open>Round trip\<close>

text \<open>The object identifiers the encoding can represent.\<close>

definition valid_oid :: "oid list \<Rightarrow> bool" where
  "valid_oid xs \<longleftrightarrow> 2 \<le> length xs \<and> length xs \<le> TYPES_MAX_OID_LEN \<and> xs ! 0 \<le> 2 \<and>
     (if xs ! 0 < 2 then xs ! 1 < 40 else unat (xs ! 1) < 2 ^ 32 - 80)"

lemma u32_le_2_cases: "(x :: u32) \<le> 2 \<Longrightarrow> x = 0 \<or> x = 1 \<or> x = 2"
proof -
  assume "x \<le> 2"
  then have "unat x \<le> 2"
    by (simp add: word_le_nat_alt)
  then have "unat x = 0 \<or> unat x = 1 \<or> unat x = 2"
    by linarith
  then show ?thesis
    by (auto simp: word_unat_eq_iff)
qed

text \<open>Splitting the combined first value gives back the two sub-identifiers.\<close>

lemma first_value_split:
  assumes "valid_oid xs"
  defines "s \<equiv> ucast (xs ! 0 * 40 + xs ! 1) :: u64"
  shows "split_first s = (xs ! 0, ucast (xs ! 1))"
proof -
  have us: "unat s = unat (xs ! 0 * 40 + xs ! 1)"
    by (simp add: s_def unat_ucast_up)
  consider (0) "xs ! 0 = 0" "unat (xs ! 1) < 40" | (1) "xs ! 0 = 1" "unat (xs ! 1) < 40"
    | (2) "xs ! 0 = 2" "unat (xs ! 1) < 2 ^ 32 - 80"
    using assms(1) u32_le_2_cases [of "xs ! 0"]
    by (auto simp: valid_oid_def word_less_nat_alt split: if_splits)
  then show ?thesis
  proof cases
    case 0
    then have "unat s = unat (xs ! 1)"
      using us by simp
    then show ?thesis
      using 0 by (auto simp: split_first_def word_less_nat_alt word_unat_eq_iff unat_ucast_up)
  next
    case 1
    then have s: "unat s = 40 + unat (xs ! 1)"
      using us by (simp add: unat_add_if)
    then have "unat (s - 40) = unat (xs ! 1)"
      by (simp add: unat_sub_if)
    then show ?thesis
      using 1 s by (auto simp: split_first_def word_less_nat_alt word_unat_eq_iff unat_ucast_up)
  next
    case 2
    then have s: "unat s = 80 + unat (xs ! 1)"
      using us by (simp add: unat_add_if)
    then have "unat (s - 80) = unat (xs ! 1)"
      by (simp add: unat_sub_if)
    then show ?thesis
      using 2 s by (auto simp: split_first_def word_less_nat_alt word_unat_eq_iff unat_ucast_up)
  qed
qed

lemma buildObjid_RetD:
  assumes "Asn01_buildObjid dl ty xs (length xs) = Ret (bs, dl')" and "valid_oid xs"
  obtains h dlh vals where "vals = ucast (xs ! 0 * 40 + xs ! 1) # map ucast (drop 2 xs)"
    and "build_hdr dl ty (of_nat (sum_list (map objid_size vals))) = Ret (h, dlh)"
    and "bs = h @ concat (map (\<lambda>v. sub_bytes (objid_size v) v) vals)"
    and "dl' = dlh - of_nat (sum_list (map objid_size vals))"
    and "\<forall>v \<in> set vals. unat v < 2 ^ 32"
proof -
  let ?vals = "ucast (xs ! 0 * 40 + xs ! 1) # map ucast (drop 2 xs) :: u64 list"
  have len: "2 \<le> length xs" "length xs \<le> 128"
    using assms(2) by (simp_all add: valid_oid_def TYPES_MAX_OID_LEN_def)
  have small: "\<forall>v \<in> set ?vals. unat v < 2 ^ 32"
    using unat_lt2p [where 'a = 32] by (auto simp: unat_ucast_up)
  then have emit: "map2 emit_subid (map objid_size ?vals) ?vals
      = map (\<lambda>v. sub_bytes (objid_size v) v) ?vals"
    by (simp only: map2_map_map [where f = objid_size and g = id, simplified list.map_id, simplified])
      (simp add: emit_subid_sub_bytes)
  have first: "first_objid_val xs (length xs) = Ret (ucast (xs ! 0 * 40 + xs ! 1), length xs)"
    using assms(1) len
    by (auto simp: Asn01_buildObjid_def first_objid_val_def rd_oid_def split: if_splits)
  have "take (length xs - 2) (drop 2 xs) = drop 2 xs"
    by simp
  with assms(1) len first emit that [OF refl _ _ _ small] show ?thesis
    by (auto simp: Asn01_buildObjid_def Let_def obind_Ret_iff TYPES_MAX_OID_LEN_def
        simp del: list.map split: if_splits)
qed

lemma ucast_u32_u64_u32: "ucast (ucast (x :: u32) :: u64) = x"
  by (rule bit_word_eqI) (auto simp: bit_simps)

lemma objid_size_pos: "1 \<le> objid_size v" and objid_size_le: "objid_size v \<le> 5"
  by (simp_all add: objid_size_def Let_def)

lemma emitted_length:
  shows "length (concat (map (\<lambda>v. sub_bytes (objid_size v) v) vals)) = sum_list (map objid_size vals)"
    and "sum_list (map objid_size vals) \<le> 5 * length vals"
  by (induction vals) (auto intro: add_mono objid_size_le)

lemma parseObjid_RetI:
  assumes "rd mem 0 = Ret asnOBJECT_ID" and "parse_len mem 1 dl = Ret (b, l)" and "l \<noteq> 0"
    and "objid_loop mem b (unat l) (ol - 1) 1 arr = Ret (p, 0, k, a # s # objs)"
    and "split_first (ucast s) = (x, y)"
  shows "Asn01_parseObjid mem dl arr ol =
    Ret (p, dl - (c_int l + of_nat b), asnOBJECT_ID, x # ucast y # objs, of_nat k)"
  using assms by (simp add: Asn01_parseObjid_def rd_oid_def wr_oid_def)

lemma objid_roundtrip_all:
  assumes "Asn01_buildObjid dl asnOBJECT_ID xs (length xs) = Ret (bs, dl')" and "valid_oid xs"
    and "length bs \<le> unat dl2" and "length xs \<le> length arr" and "length xs \<le> unat ol"
  shows "Asn01_parseObjid (bs @ rest) dl2 arr ol =
      Ret (length bs, dl2 - of_nat (length bs), asnOBJECT_ID, xs @ drop (length xs) arr,
        of_nat (length xs))"
    and "length bs + unat dl' = unat dl"
proof -
  have len: "2 \<le> length xs" "length xs \<le> 128"
    using assms(2) by (simp_all add: valid_oid_def TYPES_MAX_OID_LEN_def)
  obtain h dlh vals where vals: "vals = ucast (xs ! 0 * 40 + xs ! 1) # map ucast (drop 2 xs)"
    and h: "build_hdr dl asnOBJECT_ID (of_nat (sum_list (map objid_size vals))) = Ret (h, dlh)"
    and bs: "bs = h @ concat (map (\<lambda>v. sub_bytes (objid_size v) v) vals)"
    and dl': "dl' = dlh - of_nat (sum_list (map objid_size vals))"
    and small: "\<forall>v \<in> set vals. unat v < 2 ^ 32"
    by (rule buildObjid_RetD [OF assms(1,2)])
  let ?n = "sum_list (map objid_size vals)"
  have lv: "length vals = length xs - 1" "Suc (length xs - Suc 0) = length xs"
    using len by (simp_all add: vals)
  have n: "?n \<le> 635" "1 \<le> ?n"
    using emitted_length(2) [of vals] lv len objid_size_pos [of "hd vals"] by (simp_all add: vals)
  then have un: "unat (of_nat ?n :: u64) = ?n"
    by (simp add: unat_of_nat)
  show "length bs + unat dl' = unat dl"
    using build_hdr_RetD [OF h] un emitted_length(1) [of vals] by (simp add: bs dl' unat_sub_if)
  have small16: "(of_nat ?n :: u64) \<le> 0xFFFF" and fit: "length h + unat (of_nat ?n :: u64) \<le> unat dl2"
    using n un assms(3) emitted_length(1) [of vals] by (simp_all add: word_le_nat_alt bs)
  note P = parse_len_build_hdr [OF h small16 fit]
  have h0: "h \<noteq> []" "(h @ r) ! 0 = asnOBJECT_ID" for r
    using build_hdr_RetD [OF h] P(2) by (cases h; simp)+
  have ol: "length vals \<le> unat (ol - 1)"
    using assms(5) len lv by (simp add: unat_sub_if)
  have loop: "objid_loop (bs @ rest) (length h) ?n (ol - 1) 1 arr
      = Ret (length h + ?n, 0, length xs, take 1 arr @ map ucast vals @ drop (length xs) arr)"
    using objid_loop_values [OF small ol, of 1 arr h rest] assms(4) len
    by (simp add: bs lv)
  have mid: "map ucast vals = (xs ! 0 * 40 + xs ! 1) # drop 2 xs"
    by (simp add: vals o_def ucast_u32_u64_u32)
  have arr: "take 1 arr = [arr ! 0]"
    using assms(4) len by (cases arr) auto
  have xs: "xs = xs ! 0 # xs ! 1 # drop 2 xs"
    using len by (metis Cons_nth_drop_Suc One_nat_def Suc_1 Suc_le_lessD drop0 lessI less_le_trans zero_less_Suc)
  have nz: "(of_nat ?n :: u64) \<noteq> 0"
    using un n(2) by (metis not_one_le_zero unsigned_0)
  have loop': "objid_loop (bs @ rest) (length h) ?n (ol - 1) 1 arr
      = Ret (length h + ?n, 0, length xs, arr ! 0 # (xs ! 0 * 40 + xs ! 1) # drop 2 xs @ drop (length xs) arr)"
    using loop by (simp only: arr mid) simp
  have "Asn01_parseObjid (bs @ rest) dl2 arr ol =
      Ret (length h + ?n, dl2 - of_nat (length bs), asnOBJECT_ID, xs ! 0 # xs ! 1 # drop 2 xs @ drop (length xs) arr,
        of_nat (length xs))"
  proof -
    have "rd (bs @ rest) 0 = Ret asnOBJECT_ID"
      using h0 by (simp add: bs rd_Ret_iff)
    moreover have "parse_len (bs @ rest) 1 dl2 = Ret (length h, of_nat ?n)"
      using P(1) by (simp add: bs)
    moreover have "objid_loop (bs @ rest) (length h) (unat (of_nat ?n :: u64)) (ol - 1) 1 arr
        = Ret (length h + ?n, 0, length xs, arr ! 0 # (xs ! 0 * 40 + xs ! 1) # drop 2 xs @ drop (length xs) arr)"
      using loop' un by simp
    ultimately have "Asn01_parseObjid (bs @ rest) dl2 arr ol = Ret (length h + ?n,
        dl2 - (c_int (of_nat ?n) + of_nat (length h)), asnOBJECT_ID,
        xs ! 0 # ucast (ucast (xs ! 1) :: u64) # drop 2 xs @ drop (length xs) arr, of_nat (length xs))"
      using nz first_value_split [OF assms(2)] by (intro parseObjid_RetI)
    moreover have "of_nat (length bs) = of_nat ?n + (of_nat (length h) :: u64)"
      by (simp only: bs length_append emitted_length(1) of_nat_add add.commute)
    ultimately show ?thesis
      by (simp only: P(3) ucast_u32_u64_u32)
  qed
  then show "Asn01_parseObjid (bs @ rest) dl2 arr ol =
      Ret (length bs, dl2 - of_nat (length bs), asnOBJECT_ID, xs @ drop (length xs) arr,
        of_nat (length xs))"
    using xs emitted_length(1) [of vals] by (simp add: bs)
qed

section \<open>Bounds and the codec interface\<close>

lemma subid_loop_bounds:
  assumes "subid_loop mem bufp len s = Ret (p, len', s')"
  shows "p + len' = bufp + len"
  using assms
proof (induction mem bufp len s rule: subid_loop.induct)
  case (2 mem bufp len s)
  then show ?case
    by (auto simp: obind_Ret_iff Let_def split: if_splits)
qed simp

lemma subid_loop_no_Crash: "bufp + len \<le> length mem \<Longrightarrow> subid_loop mem bufp len s \<noteq> Crash"
  by (induction mem bufp len s rule: subid_loop.induct)
    (auto simp: obind_Crash_iff Let_def)

lemma objid_loop_RetE:
  assumes "objid_loop mem bufp len ol oidp arr = Ret r"
  obtains "\<not> (0 < len \<and> 0 < ol)" and "r = (bufp, len, oidp, arr)"
  | p l s arr1 where "subid_loop mem bufp len 0 = Ret (p, l, s)" and "l < len"
    and "wr_oid arr oidp (ucast s) = Ret arr1"
    and "objid_loop mem p l (ol - 1) (oidp + 1) arr1 = Ret r"
proof (cases "0 < len \<and> 0 < ol")
  case True
  then obtain p l s arr1 where s: "subid_loop mem bufp len 0 = Ret (p, l, s)"
    and "wr_oid arr oidp (ucast s) = Ret arr1"
    and "objid_loop mem p l (ol - 1) (oidp + 1) arr1 = Ret r"
    using assms unfolding objid_loop.simps [of mem bufp len ol oidp arr]
    by (auto simp: obind_Ret_iff split: if_splits)
  with True show ?thesis
    using subid_loop_shorter [OF s] by (intro that(2)) auto
next
  case False
  then show ?thesis
    using assms unfolding objid_loop.simps [of mem bufp len ol oidp arr] by (auto intro: that(1))
qed

lemma objid_loop_bounds:
  "objid_loop mem bufp len ol oidp arr = Ret (p, len', oidp', arr') \<Longrightarrow> p + len' = bufp + len"
proof (induction len arbitrary: bufp ol oidp arr rule: less_induct)
  case (less len)
  from less.prems show ?case
  proof (cases rule: objid_loop_RetE)
    case (2 q l s arr1)
    then show ?thesis
      using less.IH [OF 2(2,4)] subid_loop_bounds [OF 2(1)] by simp
  qed simp
qed

lemma length_wr_oid: "wr_oid arr i v = Ret arr' \<Longrightarrow> length arr' = length arr"
  by (auto simp: wr_oid_def split: if_splits)

text \<open>
  The parser stays inside both objects: the message, when it extends eleven bytes past its claimed
  end, and the array, when \<open>*objidlength\<close> is its size and at least 2.
\<close>

lemma objid_loop_no_Crash:
  "bufp + len \<le> length mem \<Longrightarrow> oidp + unat ol \<le> length arr \<Longrightarrow>
     objid_loop mem bufp len ol oidp arr \<noteq> Crash"
proof (induction mem bufp len ol oidp arr rule: objid_loop.induct)
  case (1 mem bufp len ol oidp arr)
  show ?case
  proof (cases "0 < len \<and> 0 < ol")
    case True
    then have ol: "0 < unat ol" "unat (ol - 1) = unat ol - 1"
      by (auto simp: unat_gt_0 unat_sub_if Suc_le_eq)
    have "\<not> objid_loop mem bufp len ol oidp arr = Crash"
    proof
      assume c: "objid_loop mem bufp len ol oidp arr = Crash"
      have "subid_loop mem bufp len 0 \<noteq> Crash"
        using 1(2) by (rule subid_loop_no_Crash)
      with c True obtain p l s where s: "subid_loop mem bufp len 0 = Ret (p, l, s)"
        and c': "obind (if l = 0 then rd mem (p - 1) else Ret 0) (\<lambda>last_byte.
            if last_byte AND asnBIT8 \<noteq> 0 then Null
            else if s > TYPES_OID_MAX_SUBID then Null
            else obind (wr_oid arr oidp (ucast s)) (\<lambda>objid1.
              objid_loop mem p l (ol - 1) (oidp + 1) objid1)) = Crash"
        by (subst (asm) objid_loop.simps) (auto simp: obind_Crash_iff)
      have p: "p + l = bufp + len" "l < len"
        using subid_loop_bounds [OF s] subid_loop_shorter [OF s] True by auto
      then have "rd mem (p - 1) \<noteq> Crash"
        using 1(2) True by (simp add: rd_Crash_iff)
      moreover have "wr_oid arr oidp (ucast s) = Ret (arr[oidp := ucast s])"
        using 1(3) ol by (simp add: wr_oid_def)
      ultimately show False
        using c' 1(1) [OF True s refl refl] p 1(2,3) ol
        by (auto simp: obind_Crash_iff split: if_splits)
    qed
    then show ?thesis .
  qed (subst objid_loop.simps, auto)
qed

lemma objid_loop_array:
  assumes "objid_loop mem bufp len ol oidp arr = Ret (p, len', oidp', arr')"
  shows "length arr' = length arr"
  using assms
proof (induction len arbitrary: bufp ol oidp arr rule: less_induct)
  case (less len)
  from less.prems show ?case
  proof (cases rule: objid_loop_RetE)
    case (2 q l s arr1)
    then show ?thesis
      using less.IH [OF 2(2,4)] length_wr_oid [OF 2(3)] by simp
  qed simp
qed

lemma parseObjid_consumes:
  assumes "Asn01_parseObjid mem dl arr ol = Ret (p, dl', v)"
  shows "p + unat dl' = unat dl"
proof -
  from assms obtain b l arr1 k arr2 where l: "parse_len mem 1 dl = Ret (b, l)"
    and loop: "objid_loop mem b (unat l) (ol - 1) 1 arr1 = Ret (p, 0, k, arr2)"
    and dl': "dl' = dl - (c_int l + of_nat b)"
    unfolding Asn01_parseObjid_def
    by (auto simp: Let_def elim!: obind_RetE split: if_splits prod.splits)
  then show ?thesis
    using parse_len_RetD [OF l] consumed_word [of l b dl] objid_loop_bounds [OF loop] by simp
qed

lemma parseObjid_in_bounds:
  assumes "unat dl + 11 \<le> length mem" and "2 \<le> unat ol" and "unat ol \<le> length arr"
  shows "Asn01_parseObjid mem dl arr ol \<noteq> Crash"
proof
  assume c: "Asn01_parseObjid mem dl arr ol = Crash"
  let ?arr = "\<lambda>l. if l = 0 then arr[1 := 0, 0 := 0] else arr"
  have arr: "(if l = 0 then obind (wr_oid arr 1 0) (\<lambda>o1. wr_oid o1 0 0) else Ret arr) = Ret (?arr l)"
    for l :: u64
    using assms(2,3) by (auto simp: wr_oid_def)
  have "rd mem 0 \<noteq> Crash"
    using assms(1) by (cases mem) (simp_all add: rd_def)
  with c obtain b l where l: "parse_len mem 1 dl = Ret (b, l)"
    using parse_len_slack [OF assms(1)]
    by (auto simp: Asn01_parseObjid_def obind_Crash_iff split: if_splits)
  have "objid_loop mem b (unat l) (ol - 1) 1 (?arr l) \<noteq> Crash"
    using parse_len_RetD [OF l] assms by (intro objid_loop_no_Crash) (simp_all add: unat_sub_if)
  moreover have "2 \<le> length o2" if "objid_loop mem b (unat l) (ol - 1) 1 (?arr l) = Ret (p, l', k, o2)"
    for p l' k o2
    using objid_loop_array [OF that] assms(2,3) by simp
  ultimately show False
    using c l \<open>rd mem 0 \<noteq> Crash\<close>
    by (auto simp: Asn01_parseObjid_def obind_Crash_iff arr rd_oid_def wr_oid_def Let_def
        rd_Crash_iff split: if_splits prod.splits)
qed

text \<open>
  The callers pass an array of \<open>TYPES_MAX_OID_LEN\<close> elements, whatever its contents; \<open>oid_buf\<close> is
  any such array.
\<close>

definition oid_buf :: "oid list \<Rightarrow> oid list" where
  "oid_buf arr = take TYPES_MAX_OID_LEN (arr @ replicate TYPES_MAX_OID_LEN 0)"

lemma length_oid_buf [simp]: "length (oid_buf arr) = TYPES_MAX_OID_LEN"
  by (simp add: oid_buf_def)

lemma oid_buf_id: "length arr = TYPES_MAX_OID_LEN \<Longrightarrow> oid_buf arr = arr"
  by (simp add: oid_buf_def)

lemma length_emit_subid: "length (emit_subid (objid_size v) v) = objid_size v"
  by (simp add: emit_subid_def objid_size_def Let_def)

lemma length_emitted:
  "length (concat (map2 emit_subid (map objid_size vals) vals)) = sum_list (map objid_size vals)"
  by (induction vals) (simp_all add: length_emit_subid)

lemma buildObjid_capacity:
  assumes "Asn01_buildObjid dl ty xs n = Ret (bs, dl')"
  shows "length bs + unat dl' = unat dl"
proof -
  from assms obtain first n1 vals h dlh
    where n1: "\<not> n1 > TYPES_MAX_OID_LEN" and vals: "vals = first # map ucast (take (n1 - 2) (drop 2 xs))"
      and h: "build_hdr dl ty (of_nat (sum_list (map objid_size vals))) = Ret (h, dlh)"
      and bs: "bs = h @ concat (map2 emit_subid (map objid_size vals) vals)"
      and dl': "dl' = dlh - of_nat (sum_list (map objid_size vals))"
    unfolding Asn01_buildObjid_def
    by (auto simp: Let_def elim!: obind_RetE split: if_splits prod.splits simp del: list.map)
  have "sum_list (map objid_size vals) \<le> 5 * length vals"
    by (rule emitted_length)
  also have "length vals \<le> 128"
    using n1 by (simp add: vals TYPES_MAX_OID_LEN_def)
  finally have "unat (of_nat (sum_list (map objid_size vals)) :: u64) = sum_list (map objid_size vals)"
    by (simp add: unat_of_nat)
  then show ?thesis
    using build_hdr_RetD [OF h] by (simp only: bs length_append length_emitted dl' unat_sub_if) simp
qed

interpretation oid_codec: ber_codec
  "\<lambda>mem dl. Asn01_parseObjid mem dl (oid_buf arr) (of_nat TYPES_MAX_OID_LEN)"
  "\<lambda>dl xs. Asn01_buildObjid dl asnOBJECT_ID xs (length xs)" valid_oid
  "\<lambda>xs. (asnOBJECT_ID, xs @ drop (length xs) (oid_buf arr), of_nat (length xs))"
  for arr
proof unfold_locales
  fix x bs dl dl' dl2 rest
  assume v: "valid_oid x" and b: "Asn01_buildObjid dl asnOBJECT_ID x (length x) = Ret (bs, dl')"
    and l: "length bs \<le> unat (dl2 :: u64)"
  from v show "Asn01_parseObjid (bs @ rest) dl2 (oid_buf arr) (of_nat TYPES_MAX_OID_LEN) =
      Ret (length bs, dl2 - of_nat (length bs), asnOBJECT_ID, x @ drop (length x) (oid_buf arr),
        of_nat (length x))"
    by (intro objid_roundtrip_all(1) [OF b v l])
      (simp_all add: valid_oid_def TYPES_MAX_OID_LEN_def)
next
qed (simp_all add: parseObjid_consumes parseObjid_in_bounds buildObjid_capacity TYPES_MAX_OID_LEN_def)

section \<open>Edges of the encoding\<close>

text \<open>
  The builder tests \<open>op[ 1 ] > 40\<close>: it takes \<open>0.40\<close> and writes the encoding of \<open>1.0\<close>. The
  product and sum of the first two sub-identifiers wrap at 32 bits: \<open>2.4294967216\<close> is written as
  \<open>0.0\<close>.
\<close>

lemma buildObjid_collisions:
  "Asn01_buildObjid dl ty [0, 40] 2 = Asn01_buildObjid dl ty [1, 0] 2"
  "Asn01_buildObjid dl ty [2, 4294967216] 2 = Asn01_buildObjid dl ty [0, 0] 2"
  by (simp_all add: Asn01_buildObjid_def first_objid_val_def rd_oid_def)

text \<open>
  An object identifier with no contents octets is accepted as one sub-identifier with value 0,
  the length set to 1.
\<close>

lemma parseObjid_empty:
  "Asn01_parseObjid [0x06, 0] 2 [a, b, c] 3 = Ret (2, 0, asnOBJECT_ID, [0, 0, c], 1)"
  by (simp add: Asn01_parseObjid_def parse_len_def Asn01_parseLength_def asn_tags objid_loop.simps
      Asn01_parseLengthCheck_def rd_oid_def wr_oid_def split_first_def c_int_def)

end
