(* ===== verification/Integer64.thy ===== *)
theory Integer64
  imports PriotBase
begin

text \<open>
  The 64-bit counters of src/Firmware/Core/System/Numerics/Integer64.c: a pair of 32-bit halves
  with hand-written carry, division and multiplication by ten in 16-bit digits, decimal printing
  and parsing, and the detection of wrapped 32-bit counters. \<open>i64_val\<close> reads a pair as a
  number below \<open>2 ^ 64\<close>; the lemmas show that every operation is the arithmetic it stands for.
  Output parameters are results; a C string is the list of its characters before the NUL.
\<close>

record Integer64 =
  high :: u32
  low :: u32

definition i64_val :: "Integer64 \<Rightarrow> nat" where
  "i64_val n = unat (high n) * 2 ^ 32 + unat (low n)"

definition Integer64_addUInt32 :: "Integer64 \<Rightarrow> u32 \<Rightarrow> Integer64" where
  "Integer64_addUInt32 number amount =
     (let tmp = low number;
          number1 = number\<lparr>low := tmp + amount\<rparr>
      in if low number1 < tmp then number1\<lparr>high := high number1 + 1\<rparr> else number1)"

definition Integer64_addUInt16 :: "Integer64 \<Rightarrow> u16 \<Rightarrow> Integer64" where
  "Integer64_addUInt16 number amount = Integer64_addUInt32 number (ucast amount)"

definition Integer64_zero :: "Integer64 \<Rightarrow> Integer64" where
  "Integer64_zero number = number\<lparr>low := 0, high := 0\<rparr>"

definition Integer64_isZero :: "Integer64 \<Rightarrow> bool" where
  "Integer64_isZero number \<longleftrightarrow> low number = 0 \<and> high number = 0"

definition Integer64_subtract :: "Integer64 \<Rightarrow> Integer64 \<Rightarrow> Integer64" where
  "Integer64_subtract number1 number2 =
     (let carry = (if low number1 < low number2 then 1 else 0)
      in \<lparr>high = high number1 - high number2 - carry, low = low number1 - low number2\<rparr>)"

definition Integer64_addInt64 :: "Integer64 \<Rightarrow> Integer64 \<Rightarrow> Integer64" where
  "Integer64_addInt64 number amount =
     Integer64_addUInt32 (number\<lparr>high := high number + high amount\<rparr>) (low amount)"

definition Integer64_diffAddInt64 :: "Integer64 \<Rightarrow> Integer64 \<Rightarrow> Integer64 \<Rightarrow> Integer64" where
  "Integer64_diffAddInt64 result number1 number2 =
     Integer64_addInt64 result (Integer64_subtract number1 number2)"

definition Integer64_copy :: "Integer64 \<Rightarrow> Integer64" where
  "Integer64_copy source = source"

text \<open>
  \<open>checkFor32bitWrap\<close>: the return code and the new value (adjusted in place); a NULL
  pointer is \<open>None\<close>.
\<close>

definition Integer64_checkFor32bitWrap ::
    "Integer64 option \<Rightarrow> Integer64 option \<Rightarrow> bool \<Rightarrow> int \<times> Integer64 option" where
  "Integer64_checkFor32bitWrap oldValue newValue adjust =
     (case (oldValue, newValue) of
        (Some ov, Some nv) \<Rightarrow>
          (if low ov \<le> low nv \<and> high nv = high ov then (0, newValue)
           else if high nv = high ov then
             (32, Some (if adjust then nv\<lparr>high := high nv + 1\<rparr> else nv))
           else if high nv = high ov + 1 then (64, newValue)
           else (-2, newValue))
      | _ \<Rightarrow> (-1, newValue))"

text \<open>
  \<open>Integer64_check32AndUpdate\<close>: the return code and the updated \<open>prevVal\<close>,
  \<open>newVal\<close> and \<open>*needWrapCheck\<close>. The \<open>Assert_assert\<close> of the code only logs.
\<close>

definition Integer64_check32AndUpdate ::
    "Integer64 \<Rightarrow> Integer64 \<Rightarrow> Integer64 option \<Rightarrow> int option
     \<Rightarrow> int \<times> Integer64 \<times> Integer64 \<times> int option" where
  "Integer64_check32AndUpdate prevVal newVal oldPrevVal needWrapCheck =
     (let (rc, newVal1) =
            (if needWrapCheck = None \<or> needWrapCheck \<noteq> Some 0
             then (case Integer64_checkFor32bitWrap oldPrevVal (Some newVal) True of
                     (rc, Some nv) \<Rightarrow> (rc, nv) | (rc, None) \<Rightarrow> (rc, newVal))
             else (0, newVal))
      in if rc < 0 then (-1, prevVal, newVal1, needWrapCheck)
         else case oldPrevVal of
           None \<Rightarrow> (-1, prevVal, newVal1, needWrapCheck)
         | Some opv \<Rightarrow>
             (let prevVal1 = Integer64_diffAddInt64 prevVal newVal1 opv
              in if rc = 32 then (0, prevVal1, newVal1\<lparr>high := 0\<rparr>, needWrapCheck)
                 else if rc = 64 then
                   (if low prevVal1 \<noteq> low newVal1 \<or> high prevVal1 \<noteq> high newVal1
                    then (-2, prevVal1, newVal1, needWrapCheck)
                    else (0, prevVal1, newVal1, map_option (\<lambda>_. 0) needWrapCheck))
                 else (0, prevVal1, newVal1, needWrapCheck)))"

text \<open>
  Division and multiplication by ten, digit by digit in base \<open>2 ^ 16\<close>; the intermediate
  values are \<open>unsigned long\<close>, the stores truncate to 32 bits.
\<close>

definition Integer64_divBy10 :: "Integer64 \<Rightarrow> Integer64 \<times> u32" where
  "Integer64_divBy10 number =
     (let ulT1 = ucast (drop_bit 16 (high number) AND 0xffff) :: u64;
          ulQ1 = ulT1 div 10; ulR1 = ulT1 mod 10;
          qhigh1 = ucast (push_bit 16 ulQ1) :: u32;
          ulT2 = (ucast (high number AND 0xffff) :: u64) + push_bit 16 ulR1;
          ulQ2 = ulT2 div 10; ulR2 = ulT2 mod 10;
          qhigh2 = ucast ((ucast qhigh1 :: u64) OR ulQ2) :: u32;
          ulT3 = (ucast (drop_bit 16 (low number) AND 0xffff) :: u64) + push_bit 16 ulR2;
          ulQ3 = ulT3 div 10; ulR3 = ulT3 mod 10;
          qlow3 = ucast (push_bit 16 ulQ3) :: u32;
          ulT4 = (ucast (low number AND 0xffff) :: u64) + push_bit 16 ulR3;
          ulQ4 = ulT4 div 10; ulR4 = ulT4 mod 10;
          qlow4 = ucast ((ucast qlow3 :: u64) OR ulQ4) :: u32
      in (\<lparr>high = qhigh2, low = qlow4\<rparr>, ucast ulR4))"

definition Integer64_multBy10 :: "Integer64 \<Rightarrow> Integer64" where
  "Integer64_multBy10 number =
     (let ulT1 = ucast (low number AND 0xffff) :: u64;
          ulP1 = ulT1 * 10; ulK1 = drop_bit 16 ulP1;
          rlow1 = ucast (ulP1 AND 0xffff) :: u32;
          ulT2 = ucast (drop_bit 16 (low number) AND 0xffff) :: u64;
          ulP2 = ulT2 * 10 + ulK1; ulK2 = drop_bit 16 ulP2;
          rlow2 = ucast (push_bit 16 (ulP2 AND 0xffff) OR ucast rlow1) :: u32;
          ulT3 = ucast (high number AND 0xffff) :: u64;
          ulP3 = ulT3 * 10 + ulK2; ulK3 = drop_bit 16 ulP3;
          rhigh3 = ucast (ulP3 AND 0xffff) :: u32;
          ulT4 = ucast (drop_bit 16 (high number) AND 0xffff) :: u64;
          ulP4 = ulT4 * 10 + ulK3;
          rhigh4 = ucast (push_bit 16 (ulP4 AND 0xffff) OR ucast rhigh3) :: u32
      in \<lparr>high = rhigh4, low = rlow2\<rparr>)"

text \<open>
  The printing loop runs at most \<open>INTEGER64_STRING_SIZE\<close> times, filling the buffer from its
  end. Leaving it without the \<open>break\<close> would copy from one byte before the buffer: \<open>Crash\<close>.
\<close>

definition INTEGER64_STRING_SIZE :: nat where
  "INTEGER64_STRING_SIZE = 21"

fun uint64ToString_loop :: "nat \<Rightarrow> Integer64 \<Rightarrow> string \<Rightarrow> string outcome" where
  "uint64ToString_loop 0 u64a aRes = Crash"
| "uint64ToString_loop (Suc n) u64a aRes =
     (let (u64b, u) = Integer64_divBy10 u64a;
          aRes1 = char_of (48 + unat u :: nat) # aRes
      in if Integer64_isZero u64b then Ret aRes1 else uint64ToString_loop n u64b aRes1)"

definition Integer64_uint64ToString :: "Integer64 \<Rightarrow> string outcome" where
  "Integer64_uint64ToString number = uint64ToString_loop INTEGER64_STRING_SIZE number []"

definition Integer64_int64ToString :: "Integer64 \<Rightarrow> string outcome" where
  "Integer64_int64ToString number =
     (if high number AND 0x80000000 \<noteq> 0
      then obind (Integer64_uint64ToString
                    (Integer64_addUInt32 \<lparr>high = NOT (high number), low = NOT (low number)\<rparr> 1))
             (\<lambda>s. Ret (CHR ''-'' # s))
      else Integer64_uint64ToString number)"

definition isdigit_c :: "char \<Rightarrow> bool" where
  "isdigit_c c \<longleftrightarrow> 48 \<le> (of_char c :: nat) \<and> (of_char c :: nat) \<le> 57"

fun stringToInt64_loop :: "string \<Rightarrow> Integer64 \<Rightarrow> int \<Rightarrow> Integer64 \<times> int" where
  "stringToInt64_loop [] number ok = (number, ok)"
| "stringToInt64_loop (c # s) number ok =
     (if isdigit_c c
      then stringToInt64_loop s
             (Integer64_addUInt16 (Integer64_multBy10 number) (of_nat (of_char c - 48))) 1
      else (number, ok))"

definition Integer64_stringToInt64 :: "string \<Rightarrow> Integer64 \<times> int" where
  "Integer64_stringToInt64 s =
     (let sign = (case s of [] \<Rightarrow> False | c # _ \<Rightarrow> c = CHR ''-'');
          (number, ok) = stringToInt64_loop (if sign then tl s else s) \<lparr>high = 0, low = 0\<rparr> 0
      in if sign
         then (Integer64_addUInt16 \<lparr>high = NOT (high number), low = NOT (low number)\<rparr> 1, ok)
         else (number, ok))"

section \<open>Arithmetic\<close>

lemma i64_val_less: "i64_val n < 2 ^ 64"
  using unat_lt2p [of "high n"] unat_lt2p [of "low n"] by (simp add: i64_val_def)

lemma i64_val_inject: "i64_val a = i64_val b \<longleftrightarrow> high a = high b \<and> low a = low b"
proof -
  have "i64_val x div 2 ^ 32 = unat (high x)" and "i64_val x mod 2 ^ 32 = unat (low x)" for x
    using unat_lt2p [of "low x"] by (simp_all add: i64_val_def)
  then show ?thesis
    by (metis i64_val_def word_unat_eq_iff)
qed

lemma i64_val_eqD: "i64_val a = i64_val b \<Longrightarrow> a = b"
  by (simp add: i64_val_inject)

lemma i64_val_make [simp]: "i64_val \<lparr>high = h, low = l\<rparr> = unat h * 2 ^ 32 + unat l"
  by (simp add: i64_val_def)

text \<open>A wrapped upper half is the value modulo \<open>2 ^ 64\<close>.\<close>

lemma pair_mod:
  assumes "l < 2 ^ 32"
  shows "(h mod 2 ^ 32) * 2 ^ 32 + l = (h * 2 ^ 32 + l) mod (2 ^ 64 :: nat)"
proof -
  have "(h * 2 ^ 32 + l) mod (2 ^ 32 * 2 ^ 32) =
      2 ^ 32 * ((h * 2 ^ 32 + l) div 2 ^ 32 mod 2 ^ 32) + (h * 2 ^ 32 + l) mod 2 ^ 32"
    by (rule mod_mult2_eq)
  then show ?thesis
    using assms by simp
qed

lemma carry_iff: "(x :: u32) + y < x \<longleftrightarrow> 2 ^ 32 \<le> unat x + unat y"
  using unat_lt2p [of x] unat_lt2p [of y] by (auto simp: word_less_nat_alt unat_add_if)

lemma addUInt32_val:
  "i64_val (Integer64_addUInt32 n a) = (i64_val n + unat a) mod 2 ^ 64"
proof -
  let ?c = "if 2 ^ 32 \<le> unat (low n) + unat a then 1 else 0 :: nat"
  have low: "unat (low n + a) + ?c * 2 ^ 32 = unat (low n) + unat a"
    by (simp add: unat_add_if)
  have high: "unat (high n + of_nat ?c) = (unat (high n) + ?c) mod 2 ^ 32"
    by (simp add: unat_word_ariths)
  have "i64_val (Integer64_addUInt32 n a) = unat (high n + of_nat ?c) * 2 ^ 32 + unat (low n + a)"
    by (simp add: Integer64_addUInt32_def Let_def carry_iff i64_val_def)
  also have "\<dots> = ((unat (high n) + ?c) * 2 ^ 32 + unat (low n + a)) mod 2 ^ 64"
    unfolding high using unat_lt2p [of "low n + a"] by (intro pair_mod) simp
  also have "(unat (high n) + ?c) * 2 ^ 32 + unat (low n + a) = i64_val n + unat a"
    using low by (simp only: i64_val_def add_mult_distrib)
  finally show ?thesis .
qed

lemma addUInt16_val:
  "i64_val (Integer64_addUInt16 n a) = (i64_val n + unat a) mod 2 ^ 64"
  by (simp add: Integer64_addUInt16_def addUInt32_val unat_ucast_up)

lemma addInt64_val:
  "i64_val (Integer64_addInt64 n a) = (i64_val n + i64_val a) mod 2 ^ 64"
proof -
  have "i64_val (n\<lparr>high := high n + high a\<rparr>) = (unat (high n) + unat (high a)) mod 2 ^ 32 * 2 ^ 32 + unat (low n)"
    by (simp add: i64_val_def unat_word_ariths)
  also have "\<dots> = ((unat (high n) + unat (high a)) * 2 ^ 32 + unat (low n)) mod 2 ^ 64"
    using unat_lt2p [of "low n"] by (intro pair_mod) simp
  finally have "i64_val (Integer64_addInt64 n a) =
      (((unat (high n) + unat (high a)) * 2 ^ 32 + unat (low n)) mod 2 ^ 64 + unat (low a)) mod 2 ^ 64"
    by (simp only: Integer64_addInt64_def addUInt32_val)
  also have "\<dots> = ((unat (high n) + unat (high a)) * 2 ^ 32 + unat (low n) + unat (low a)) mod 2 ^ 64"
    by (rule mod_add_left_eq)
  also have "(unat (high n) + unat (high a)) * 2 ^ 32 + unat (low n) + unat (low a) =
      i64_val n + i64_val a"
    by (simp add: i64_val_def add_mult_distrib)
  finally show ?thesis .
qed

text \<open>Subtraction is the number that added to the subtrahend gives the minuend.\<close>

lemma borrow_iff: "(x :: u32) < x - y \<longleftrightarrow> x < y"
  using unat_lt2p [of x] unat_lt2p [of y] by (auto simp: word_less_nat_alt unat_sub_if)

lemma subtract_add: "Integer64_addInt64 (Integer64_subtract a b) b = a"
  by (cases a; cases b)
    (simp add: Integer64_addInt64_def Integer64_subtract_def Integer64_addUInt32_def Let_def
      borrow_iff)

lemma subtract_val:
  "i64_val (Integer64_subtract a b) = (i64_val a + 2 ^ 64 - i64_val b) mod 2 ^ 64"
proof -
  have "(i64_val (Integer64_subtract a b) + i64_val b) mod 2 ^ 64 = i64_val a"
    using addInt64_val [of "Integer64_subtract a b" b] by (simp only: subtract_add)
  then have d: "i64_val (Integer64_subtract a b) =
      (if i64_val b \<le> i64_val a then i64_val a - i64_val b else 2 ^ 64 + i64_val a - i64_val b)"
    by (intro nat_wrap_diff [OF i64_val_less i64_val_less]) (simp only: mod_add_if [OF i64_val_less i64_val_less, of "Integer64_subtract a b" b])
  show ?thesis
  proof (cases "i64_val b \<le> i64_val a")
    case True
    then have "i64_val a + 2 ^ 64 - i64_val b = (i64_val a - i64_val b) + 2 ^ 64"
      by simp
    then show ?thesis
      using True d i64_val_less [of a] by (simp only: mod_add_self2) simp
  next
    case False
    then show ?thesis
      using d i64_val_less [of b] by (simp add: add.commute)
  qed
qed

lemma diffAddInt64_val:
  "i64_val (Integer64_diffAddInt64 r a b) = (i64_val r + i64_val a + 2 ^ 64 - i64_val b) mod 2 ^ 64"
proof -
  have "i64_val (Integer64_diffAddInt64 r a b)
      = (i64_val r + (i64_val a + 2 ^ 64 - i64_val b)) mod 2 ^ 64"
    by (simp only: Integer64_diffAddInt64_def addInt64_val subtract_val mod_add_right_eq)
  then show ?thesis
    using i64_val_less [of b] by (simp add: add.assoc)
qed

section \<open>Division and multiplication by ten\<close>

lemma ucast_and_ffff: "unat (ucast ((x :: u32) AND 0xffff) :: u64) = unat x mod 65536"
  by (simp add: unat_ucast_up unat_and_ffff)

lemma ucast_upper_half: "unat (ucast (drop_bit 16 (x :: u32) AND 0xffff) :: u64) = unat x div 65536"
  using unat_lt2p [of x] by (simp add: unat_ucast_up unat_and_ffff unat_drop_bit16)

text \<open>One step of the long division: the digit and the remainder in front of it.\<close>

lemma divide_digit:
  fixes d r :: u64
  assumes "unat d < 65536" and "unat r < 10"
  shows "unat (d + push_bit 16 r) = unat r * 65536 + unat d"
    and "unat ((d + push_bit 16 r) div 10) = (unat r * 65536 + unat d) div 10"
    and "unat ((d + push_bit 16 r) mod 10) = (unat r * 65536 + unat d) mod 10"
    and "(unat r * 65536 + unat d) div 10 < 65536"
proof -
  have "unat (push_bit 16 r) = unat r * 65536"
    using assms(2) by (simp add: push_bit_eq_mult unat_word_ariths)
  then show u: "unat (d + push_bit 16 r) = unat r * 65536 + unat d"
    using assms by (simp add: unat_add_if)
  show "unat ((d + push_bit 16 r) div 10) = (unat r * 65536 + unat d) div 10"
    and "unat ((d + push_bit 16 r) mod 10) = (unat r * 65536 + unat d) mod 10"
    by (simp_all add: unat_div unat_mod u)
qed (use assms in linarith)

lemma pack_digits:
  fixes q r :: u64
  assumes "unat q < 65536" and "unat r < 65536"
  shows "unat (ucast ((ucast (ucast (push_bit 16 q) :: u32) :: u64) OR r) :: u32)
    = unat q * 65536 + unat r"
proof -
  have "unat (push_bit 16 (ucast q) OR (ucast r) :: u32) = unat (ucast q :: u32) * 65536 + unat (ucast r :: u32)"
    using assms by (intro unat_push16_or) (simp_all add: unat_ucast_down)
  moreover have "ucast ((ucast (ucast (push_bit 16 q) :: u32) :: u64) OR r) = (push_bit 16 (ucast q) OR (ucast r) :: u32)"
    by (rule bit_word_eqI) (auto simp: bit_simps)
  ultimately show ?thesis
    using assms by (simp add: unat_ucast_down)
qed

lemma divBy10_val:
  assumes "Integer64_divBy10 n = (q, r)"
  shows "i64_val q = i64_val n div 10" and "unat r = i64_val n mod 10"
proof -
  let ?d1 = "ucast (drop_bit 16 (high n) AND 0xffff) :: u64"
  let ?d2 = "ucast (high n AND 0xffff) :: u64"
  let ?d3 = "ucast (drop_bit 16 (low n) AND 0xffff) :: u64"
  let ?d4 = "ucast (low n AND 0xffff) :: u64"
  define r1 where "r1 = ?d1 mod 10"
  define r2 where "r2 = (?d2 + push_bit 16 r1) mod 10"
  define r3 where "r3 = (?d3 + push_bit 16 r2) mod 10"
  define r4 where "r4 = (?d4 + push_bit 16 r3) mod 10"
  define q1 where "q1 = ?d1 div 10"
  define q2 where "q2 = (?d2 + push_bit 16 r1) div 10"
  define q3 where "q3 = (?d3 + push_bit 16 r2) div 10"
  define q4 where "q4 = (?d4 + push_bit 16 r3) div 10"
  have d: "unat ?d1 < 65536" "unat ?d2 < 65536" "unat ?d3 < 65536" "unat ?d4 < 65536"
    using unat_lt2p [of "high n"] unat_lt2p [of "low n"]
    by (simp_all add: ucast_and_ffff ucast_upper_half)
  have r: "unat r1 < 10" "unat r2 < 10" "unat r3 < 10" "unat r4 < 10"
    by (simp_all add: r1_def r2_def r3_def r4_def unat_mod)
  have e1: "unat ?d1 = 10 * unat q1 + unat r1"
    by (simp add: q1_def r1_def unat_div unat_mod)
  have e2: "unat r1 * 65536 + unat ?d2 = 10 * unat q2 + unat r2"
    using divide_digit(2,3) [OF d(2) r(1)] by (simp add: q2_def r2_def)
  have e3: "unat r2 * 65536 + unat ?d3 = 10 * unat q3 + unat r3"
    using divide_digit(2,3) [OF d(3) r(2)] by (simp add: q3_def r3_def)
  have e4: "unat r3 * 65536 + unat ?d4 = 10 * unat q4 + unat r4"
    using divide_digit(2,3) [OF d(4) r(3)] by (simp add: q4_def r4_def)
  have qs: "unat q1 < 65536" "unat q2 < 65536" "unat q3 < 65536" "unat q4 < 65536"
    using d r e1 e2 e3 e4 by linarith+
  have n: "i64_val n = ((unat ?d1 * 65536 + unat ?d2) * 65536 + unat ?d3) * 65536 + unat ?d4"
    by (simp only: i64_val_def ucast_upper_half, simp only: ucast_and_ffff) simp
  have res: "q = \<lparr>high = ucast ((ucast (ucast (push_bit 16 q1) :: u32) :: u64) OR q2),
      low = ucast ((ucast (ucast (push_bit 16 q3) :: u32) :: u64) OR q4)\<rparr>" "r = ucast r4"
    using assms by (simp_all add: Integer64_divBy10_def Let_def q1_def q2_def q3_def q4_def
        r1_def r2_def r3_def r4_def)
  have "i64_val q = (unat q1 * 65536 + unat q2) * 2 ^ 32 + (unat q3 * 65536 + unat q4)"
    by (simp add: res pack_digits qs del: of_nat_numeral)
  then have "i64_val n = 10 * i64_val q + unat r4"
    using n e1 e2 e3 e4 by simp
  moreover have "unat r = unat r4"
    using r by (simp add: res unat_ucast_down)
  ultimately show "i64_val q = i64_val n div 10" and "unat r = i64_val n mod 10"
    using r by simp_all
qed

text \<open>One step of the long multiplication: the digit and the carry.\<close>

lemma multiply_digit:
  fixes d k :: u64
  assumes "unat d < 65536" and "unat k < 10"
  shows "unat (d * 10 + k) = unat d * 10 + unat k"
    and "unat (drop_bit 16 (d * 10 + k)) = (unat d * 10 + unat k) div 65536"
    and "unat ((d * 10 + k) AND 0xffff) = (unat d * 10 + unat k) mod 65536"
    and "(unat d * 10 + unat k) div 65536 < 10"
proof -
  show u: "unat (d * 10 + k) = unat d * 10 + unat k"
    using assms by (simp add: unat_word_ariths)
  show "unat (drop_bit 16 (d * 10 + k)) = (unat d * 10 + unat k) div 65536"
    using assms u by (simp only: unsigned_drop_bit_eq) (simp add: drop_bit_eq_div take_bit_nat_def)
  show "unat ((d * 10 + k) AND 0xffff) = (unat d * 10 + unat k) mod 65536"
    by (simp only: unat_and_ffff u)
qed (use assms in linarith)

lemma split_digit: "k = x div 65536 \<Longrightarrow> p = x mod 65536 \<Longrightarrow> x = 65536 * k + (p :: nat)"
  by simp

lemma long_multiplication:
  fixes d1 :: nat
  assumes "d1 * 10 = 65536 * k1 + p1" and "d2 * 10 + k1 = 65536 * k2 + p2"
    and "d3 * 10 + k2 = 65536 * k3 + p3" and "d4 * 10 + k3 = 65536 * k4 + p4"
  shows "(((d4 * 65536 + d3) * 65536 + d2) * 65536 + d1) * 10
    = ((p4 * 65536 + p3) * 65536 + p2) * 65536 + p1 + 2 ^ 64 * k4"
  using assms by simp

lemma multBy10_val: "i64_val (Integer64_multBy10 n) = i64_val n * 10 mod 2 ^ 64"
proof -
  let ?d1 = "ucast (low n AND 0xffff) :: u64"
  let ?d2 = "ucast (drop_bit 16 (low n) AND 0xffff) :: u64"
  let ?d3 = "ucast (high n AND 0xffff) :: u64"
  let ?d4 = "ucast (drop_bit 16 (high n) AND 0xffff) :: u64"
  define k1 where "k1 = drop_bit 16 (?d1 * 10 + 0)"
  define k2 where "k2 = drop_bit 16 (?d2 * 10 + k1)"
  define k3 where "k3 = drop_bit 16 (?d3 * 10 + k2)"
  define p1 where "p1 = (?d1 * 10 + 0) AND 0xffff"
  define p2 where "p2 = (?d2 * 10 + k1) AND 0xffff"
  define p3 where "p3 = (?d3 * 10 + k2) AND 0xffff"
  define p4 where "p4 = (?d4 * 10 + k3) AND 0xffff"
  have d: "unat ?d1 < 65536" "unat ?d2 < 65536" "unat ?d3 < 65536" "unat ?d4 < 65536"
    using unat_lt2p [of "high n"] unat_lt2p [of "low n"]
    by (simp_all add: ucast_and_ffff ucast_upper_half)
  have z: "unat (0 :: u64) < 10" by simp
  have k1: "unat k1 = (unat ?d1 * 10 + unat (0 :: u64)) div 65536" "unat k1 < 10"
    using multiply_digit(2,4) [OF d(1) z] by (simp_all only: k1_def)
  have k2: "unat k2 = (unat ?d2 * 10 + unat k1) div 65536" "unat k2 < 10"
    using multiply_digit(2,4) [OF d(2) k1(2)] by (simp_all only: k2_def)
  have k3: "unat k3 = (unat ?d3 * 10 + unat k2) div 65536" "unat k3 < 10"
    using multiply_digit(2,4) [OF d(3) k2(2)] by (simp_all only: k3_def)
  have p: "unat p1 = (unat ?d1 * 10 + unat (0 :: u64)) mod 65536" "unat p2 = (unat ?d2 * 10 + unat k1) mod 65536"
    "unat p3 = (unat ?d3 * 10 + unat k2) mod 65536" "unat p4 = (unat ?d4 * 10 + unat k3) mod 65536"
    using multiply_digit(3) [OF d(1) z] multiply_digit(3) [OF d(2) k1(2)]
      multiply_digit(3) [OF d(3) k2(2)] multiply_digit(3) [OF d(4) k3(2)]
    by (simp_all only: p1_def p2_def p3_def p4_def)
  have small: "unat p1 < 65536" "unat p2 < 65536" "unat p3 < 65536" "unat p4 < 65536"
    unfolding p by simp_all
  have res: "Integer64_multBy10 n =
      \<lparr>high = ucast (push_bit 16 p4 OR ucast (ucast p3 :: u32)),
       low = ucast (push_bit 16 p2 OR ucast (ucast p1 :: u32))\<rparr>"
    by (simp add: Integer64_multBy10_def Let_def p1_def p2_def p3_def p4_def k1_def k2_def k3_def)
  have pack: "unat (ucast (push_bit 16 x OR ucast (ucast y :: u32)) :: u32) = unat x * 65536 + unat y"
    if "unat x < 65536" "unat y < 65536" for x y :: u64
  proof -
    have "ucast (push_bit 16 x OR ucast (ucast y :: u32)) = (push_bit 16 (ucast x) OR ucast y :: u32)"
      by (rule bit_word_eqI) (auto simp: bit_simps)
    then show ?thesis
      using that unat_push16_or [of "ucast x" "ucast y"] by (simp add: unat_ucast_down)
  qed
  have v: "i64_val (Integer64_multBy10 n)
      = ((unat p4 * 65536 + unat p3) * 65536 + unat p2) * 65536 + unat p1"
    by (simp add: res pack small)
  have n: "i64_val n = ((unat ?d4 * 65536 + unat ?d3) * 65536 + unat ?d2) * 65536 + unat ?d1"
    by (simp only: i64_val_def ucast_upper_half, simp only: ucast_and_ffff) simp
  have "i64_val n * 10 = i64_val (Integer64_multBy10 n) + 2 ^ 64 * ((unat ?d4 * 10 + unat k3) div 65536)"
  proof -
    have "unat ?d1 * 10 = 65536 * unat k1 + unat p1"
      and "unat ?d2 * 10 + unat k1 = 65536 * unat k2 + unat p2"
      and "unat ?d3 * 10 + unat k2 = 65536 * unat k3 + unat p3"
      and "unat ?d4 * 10 + unat k3 = 65536 * ((unat ?d4 * 10 + unat k3) div 65536) + unat p4"
      using split_digit [OF k1(1) p(1)] split_digit [OF k2(1) p(2)] split_digit [OF k3(1) p(3)]
        split_digit [OF refl p(4)] by (simp_all only: unsigned_0 add_0_right)
    then show ?thesis
      unfolding n v by (rule long_multiplication)
  qed
  then show ?thesis
    using i64_val_less [of "Integer64_multBy10 n"] by simp
qed

section \<open>Decimal strings\<close>

definition digit :: "nat \<Rightarrow> char" where
  "digit d = char_of (48 + d)"

fun dec :: "nat \<Rightarrow> string" where
  "dec n = (if n < 10 then [digit n] else dec (n div 10) @ [digit (n mod 10)])"

declare dec.simps [simp del]

definition dec_val :: "string \<Rightarrow> nat" where
  "dec_val s = foldl (\<lambda>v c. v * 10 + (of_char c - 48)) 0 s"

lemma of_char_digit [simp]: "d < 10 \<Longrightarrow> (of_char (digit d) :: nat) = 48 + d"
  by (simp add: digit_def)

lemma isdigit_digit [simp]: "d < 10 \<Longrightarrow> isdigit_c (digit d)"
  by (simp add: isdigit_c_def)

lemma dec_val_dec: "dec_val (dec n) = n"
proof (induction n rule: dec.induct)
  case (1 n)
  then show ?case
    by (subst dec.simps) (simp add: dec_val_def)
qed

lemma dec_digits: "\<forall>c \<in> set (dec n). isdigit_c c"
proof (induction n rule: dec.induct)
  case (1 n)
  then show ?case
    by (subst dec.simps) auto
qed

lemma dec_not_Nil [simp]: "dec n \<noteq> []"
  by (subst dec.simps) simp

lemma isZero_iff: "Integer64_isZero n \<longleftrightarrow> i64_val n = 0"
  by (simp add: Integer64_isZero_def i64_val_def unat_eq_0 conj_commute)

text \<open>The buffer has room for the decimal digits, so the loop leaves by its \<open>break\<close>.\<close>

lemma uint64ToString_loop_dec:
  "i64_val n < 10 ^ k \<Longrightarrow> 0 < k \<Longrightarrow> uint64ToString_loop k n acc = Ret (dec (i64_val n) @ acc)"
proof (induction k arbitrary: n acc)
  case (Suc k)
  obtain q r where d: "Integer64_divBy10 n = (q, r)"
    by fastforce
  note v = divBy10_val [OF d]
  show ?case
  proof (cases "i64_val n < 10")
    case True
    then have "Integer64_isZero q" and "unat r = i64_val n"
      using v by (simp_all add: isZero_iff)
    then show ?thesis
      using d True by (subst dec.simps) (simp add: digit_def)
  next
    case False
    then have "\<not> Integer64_isZero q" and "0 < k"
      using v Suc.prems by (auto simp: isZero_iff intro: Nat.gr0I)
    moreover have "i64_val q < 10 ^ k"
      using v Suc.prems by (simp add: less_mult_imp_div_less)
    ultimately have "uint64ToString_loop (Suc k) n acc
        = Ret (dec (i64_val q) @ char_of (48 + unat r) # acc)"
      using d Suc.IH by simp
    moreover have "dec (i64_val n) = dec (i64_val q) @ [digit (unat r)]"
      using False v by (subst dec.simps) simp
    ultimately show ?thesis
      by (simp add: digit_def)
  qed
qed simp

lemma uint64ToString_dec: "Integer64_uint64ToString n = Ret (dec (i64_val n))"
proof -
  have "i64_val n < 10 ^ INTEGER64_STRING_SIZE"
    using i64_val_less [of n] by (simp add: INTEGER64_STRING_SIZE_def)
  then show ?thesis
    by (simp add: Integer64_uint64ToString_def uint64ToString_loop_dec INTEGER64_STRING_SIZE_def)
qed

text \<open>Two's complement: the sign, and the magnitude of a negative number.\<close>

definition i64_sval :: "Integer64 \<Rightarrow> int" where
  "i64_sval n = (if i64_val n < 2 ^ 63 then int (i64_val n) else int (i64_val n) - 2 ^ 64)"

lemma unat_not_u32: "unat (NOT (x :: u32)) = 2 ^ 32 - 1 - unat x"
proof -
  have "NOT x + x = - 1"
    by (simp add: not_eq_complement)
  then have "NOT x = - 1 - x"
    by (metis add_diff_cancel_right')
  moreover have "unat (- 1 :: u32) = 2 ^ 32 - 1"
    by (simp add: unsigned_minus_1_eq_mask mask_eq_exp_minus_1)
  ultimately show ?thesis
    using unat_lt2p [of x] by (simp add: unat_sub_if)
qed

lemma negate_val:
  "i64_val (Integer64_addUInt32 \<lparr>high = NOT (high n), low = NOT (low n)\<rparr> 1)
    = (2 ^ 64 - i64_val n) mod 2 ^ 64"
proof -
  have "i64_val \<lparr>high = NOT (high n), low = NOT (low n)\<rparr> + 1 = 2 ^ 64 - i64_val n"
    using unat_lt2p [of "high n"] unat_lt2p [of "low n"]
    by (simp add: unat_not_u32 i64_val_def)
  then show ?thesis
    by (simp only: addUInt32_val) simp
qed

lemma sign_bit: "high n AND 0x80000000 \<noteq> 0 \<longleftrightarrow> 2 ^ 63 \<le> i64_val n"
proof -
  have "high n AND 0x80000000 \<noteq> 0 \<longleftrightarrow> bit (high n) 31"
    using and_exp_eq_0_iff_not_bit [of "high n" 31] by simp
  also have "\<dots> \<longleftrightarrow> 2 ^ 31 \<le> unat (high n)"
  proof
    assume "bit (high n) 31"
    then show "2 ^ 31 \<le> unat (high n)"
      using bit_less_exp [of "high n" 31 31] by (meson less_irrefl not_le)
  next
    assume "2 ^ 31 \<le> unat (high n)"
    then have "unat (high n) div 2 ^ 31 = 1"
      using unat_lt2p [of "high n"] by simp
    then show "bit (high n) 31"
      using bit_iff_odd [of "unat (high n)" 31] by (simp add: bit_unsigned_iff)
  qed
  also have "\<dots> \<longleftrightarrow> 2 ^ 63 \<le> i64_val n"
    using unat_lt2p [of "low n"] by (auto simp: i64_val_def)
  finally show ?thesis .
qed

lemma int64ToString_dec:
  "Integer64_int64ToString n =
     Ret (if i64_sval n < 0 then CHR ''-'' # dec (nat (- i64_sval n)) else dec (nat (i64_sval n)))"
proof (cases "2 ^ 63 \<le> i64_val n")
  case True
  then have "nat (- i64_sval n) = 2 ^ 64 - i64_val n" "i64_sval n < 0"
    using i64_val_less [of n] by (simp_all add: i64_sval_def nat_diff_distrib)
  moreover have "(2 ^ 64 - i64_val n) mod 2 ^ 64 = 2 ^ 64 - i64_val n"
    using True by simp
  ultimately show ?thesis
    using True by (simp add: Integer64_int64ToString_def sign_bit uint64ToString_dec negate_val)
next
  case False
  then show ?thesis
    by (simp add: Integer64_int64ToString_def sign_bit uint64ToString_dec i64_sval_def)
qed

text \<open>Reading decimal digits: the value modulo \<open>2 ^ 64\<close>.\<close>

lemma read_digit_val:
  assumes "isdigit_c c"
  shows "i64_val (Integer64_addUInt16 (Integer64_multBy10 n) (of_nat (of_char c - 48)))
    = (i64_val n * 10 + (of_char c - 48)) mod 2 ^ 64"
proof -
  have "(of_char c :: nat) - 48 < 2 ^ 16"
    using conjunct2 [OF assms [unfolded isdigit_c_def]] by simp
  then have "unat (of_nat (of_char c - 48) :: u16) = of_char c - 48"
    by (simp only: unat_of_nat) simp
  then show ?thesis
    by (simp only: addUInt16_val multBy10_val mod_add_left_eq)
qed

lemma scale_mod: "(v mod m * 10 + d) mod m = (v * 10 + d) mod (m :: nat)"
  by (metis mod_add_left_eq mod_mult_left_eq)

lemma stringToInt64_loop_digits:
  assumes "\<forall>c \<in> set s. isdigit_c c" and "i64_val n = v mod 2 ^ 64"
  shows "\<exists>m. stringToInt64_loop s n ok = (m, if s = [] then ok else 1) \<and>
    i64_val m = foldl (\<lambda>v c. v * 10 + (of_char c - 48)) v s mod 2 ^ 64"
  using assms
proof (induction s arbitrary: n v ok)
  case (Cons c s)
  let ?n = "Integer64_addUInt16 (Integer64_multBy10 n) (of_nat (of_char c - 48))"
  have "i64_val ?n = (v * 10 + (of_char c - 48)) mod 2 ^ 64"
    using Cons.prems read_digit_val [of c n] by (simp only: scale_mod) simp
  then show ?case
    using Cons.IH [of ?n "v * 10 + (of_char c - 48)" 1] Cons.prems(1) by simp
qed simp

lemma stringToInt64_dec:
  assumes "i64_val m = v mod 2 ^ 64"
  shows "Integer64_stringToInt64 (dec v) = (m, 1)"
    and "Integer64_stringToInt64 (CHR ''-'' # dec v) =
      (Integer64_addUInt32 \<lparr>high = NOT (high m), low = NOT (low m)\<rparr> 1, 1)"
proof -
  have zero: "i64_val \<lparr>high = 0, low = 0\<rparr> = 0 mod 2 ^ 64"
    by simp
  obtain k where k: "stringToInt64_loop (dec v) \<lparr>high = 0, low = 0\<rparr> 0 = (k, 1)"
    and "i64_val k = dec_val (dec v) mod 2 ^ 64"
    using stringToInt64_loop_digits [OF dec_digits zero, of v 0] by (auto simp: dec_val_def)
  then have km: "k = m"
    using assms by (intro i64_val_eqD) (simp add: dec_val_dec)
  have "isdigit_c (hd (dec v))"
    using dec_digits [of v] by simp
  then have "hd (dec v) \<noteq> CHR ''-''"
    by (auto simp: isdigit_c_def)
  then obtain c s where "dec v = c # s" "c \<noteq> CHR ''-''"
    by (cases "dec v") auto
  then show "Integer64_stringToInt64 (dec v) = (m, 1)"
    and "Integer64_stringToInt64 (CHR ''-'' # dec v) =
      (Integer64_addUInt32 \<lparr>high = NOT (high m), low = NOT (low m)\<rparr> 1, 1)"
    using k km by (simp_all add: Integer64_stringToInt64_def Integer64_addUInt16_def)
qed

lemma int64_string_inverse:
  assumes "Integer64_int64ToString n = Ret s"
  shows "Integer64_stringToInt64 s = (n, 1)"
proof (cases "i64_sval n < 0")
  case False
  then have "s = dec (i64_val n)"
    using assms i64_val_less [of n] by (auto simp: int64ToString_dec i64_sval_def split: if_splits)
  then show ?thesis
    using i64_val_less [of n] by (simp add: stringToInt64_dec(1))
next
  case True
  let ?m = "Integer64_addUInt32 \<lparr>high = NOT (high n), low = NOT (low n)\<rparr> 1"
  have n: "2 ^ 63 \<le> i64_val n" "nat (- i64_sval n) = 2 ^ 64 - i64_val n"
    using True i64_val_less [of n] by (auto simp: i64_sval_def nat_diff_distrib split: if_splits)
  have m: "i64_val ?m = (2 ^ 64 - i64_val n) mod 2 ^ 64"
    by (rule negate_val)
  have "i64_val (Integer64_addUInt32 \<lparr>high = NOT (high ?m), low = NOT (low ?m)\<rparr> 1) = i64_val n"
    using n(1) i64_val_less [of n] by (simp only: negate_val m) simp
  then have "Integer64_addUInt32 \<lparr>high = NOT (high ?m), low = NOT (low ?m)\<rparr> 1 = n"
    by (rule i64_val_eqD)
  moreover have "s = CHR ''-'' # dec (2 ^ 64 - i64_val n)"
    using assms True n(2) by (simp add: int64ToString_dec)
  ultimately show ?thesis
    using stringToInt64_dec(2) [OF m] by simp
qed

section \<open>Wrapped 32-bit counters\<close>

lemma checkFor32bitWrap_32:
  assumes "high ov = 0" and "high nv = 0"
  shows "Integer64_checkFor32bitWrap (Some ov) (Some nv) True =
    (if low ov \<le> low nv then (0, Some nv) else (32, Some (nv\<lparr>high := 1\<rparr>)))"
  using assms by (simp add: Integer64_checkFor32bitWrap_def)

lemma check32AndUpdate_wrapped:
  assumes "high newVal = 0" and "high ov = 0" and "wc \<noteq> Some 0"
  defines "d \<equiv> (unat (low newVal) + 2 ^ 32 - unat (low ov)) mod 2 ^ 32"
  shows "\<exists>prevVal'. Integer64_check32AndUpdate prevVal newVal (Some ov) wc = (0, prevVal', newVal, wc) \<and>
    i64_val prevVal' = (i64_val prevVal + d) mod 2 ^ 64"
proof (cases "low ov \<le> low newVal")
  case True
  then have u: "unat (low ov) \<le> unat (low newVal)"
    by (simp add: word_le_nat_alt)
  then have "unat (low newVal) + 2 ^ 32 - unat (low ov) = (unat (low newVal) - unat (low ov)) + 2 ^ 32"
    by simp
  then have d: "d = unat (low newVal) - unat (low ov)"
    using unat_lt2p [of "low newVal"] by (simp only: d_def mod_add_self2) simp
  have "i64_val prevVal + i64_val newVal + 2 ^ 64 - i64_val ov = (i64_val prevVal + d) + 2 ^ 64"
    using assms(1,2) u d by (simp add: i64_val_def)
  then show ?thesis
    using assms(1-3) True
    by (simp add: Integer64_check32AndUpdate_def checkFor32bitWrap_32 diffAddInt64_val del: i64_val_make)
next
  case False
  then have u: "unat (low newVal) < unat (low ov)"
    by (simp add: word_le_nat_alt)
  then have d: "d = unat (low newVal) + 2 ^ 32 - unat (low ov)"
    unfolding d_def using unat_lt2p [of "low ov"] by simp
  have "i64_val prevVal + i64_val (newVal\<lparr>high := 1\<rparr>) + 2 ^ 64 - i64_val ov
      = (i64_val prevVal + d) + 2 ^ 64"
    using assms(1,2) u d unat_lt2p [of "low ov"] by (simp add: i64_val_def)
  then show ?thesis
    using assms(1-3) False
    by (simp add: Integer64_check32AndUpdate_def checkFor32bitWrap_32 diffAddInt64_val)
qed

end
