(* ===== verification/AsnInt64.thy ===== *)
theory AsnInt64
  imports AsnInt Integer64
begin

text \<open>
  The 64-bit counters and integers of src/Firmware/Core/Asn01.c: \<open>Asn01_parseUnsignedInt64\<close>,
  \<open>Asn01_buildUnsignedInt64\<close>, \<open>Asn01_parseSignedInt64\<close> and \<open>Asn01_buildSignedInt64\<close>, which keep
  the value in two halves and wrap it in a tagged Opaque. The lemmas show that the loops on the
  halves are the loops of AsnInt on the joined word, and from that the round trips.
\<close>

section \<open>Parsers and builders\<close>

text \<open>
  The loop that shifts a byte into the pair. The unsigned parser runs it on \<open>u_long\<close> halves, the
  signed one on \<open>u_int\<close> halves.
\<close>

fun shift_in_pair ::
    "nat \<Rightarrow> u8 list \<Rightarrow> nat \<Rightarrow> 'a::len word \<Rightarrow> 'a word \<Rightarrow> (nat \<times> 'a word \<times> 'a word) outcome" where
  "shift_in_pair 0 mem bufp hi lo = Ret (bufp, hi, lo)"
| "shift_in_pair (Suc n) mem bufp hi lo =
     obind (rd mem bufp) (\<lambda>b.
       shift_in_pair n mem (bufp + 1)
         (push_bit 8 (0x00FFFFFF AND hi) OR drop_bit 24 (lo AND 0xFF000000))
         (push_bit 8 (lo AND 0x00FFFFFF) OR ucast b))"

text \<open>
  The Opaque wrapper: type, length and special tag, with the length check against the capacity the
  caller gave. \<open>tags\<close> are the special tags the parser takes; \<open>None\<close> means it is not one of them.
\<close>

definition parse_opaque ::
    "u8 list \<Rightarrow> size_t \<Rightarrow> u8 \<Rightarrow> nat \<Rightarrow> u64 \<Rightarrow> u8 set \<Rightarrow> (u8 \<times> nat \<times> u64) option outcome" where
  "parse_opaque mem datalength type bufp asn_length tags =
     (if type = asnOPAQUE \<and> asn_length \<le> asnOPAQUE_COUNTER64_MX_BER_LEN then
        obind (rd mem bufp) (\<lambda>t1.
        if t1 \<noteq> asnOPAQUE_TAG1 then Ret None
        else obind (rd mem (bufp + 1)) (\<lambda>t2.
          if t2 \<notin> tags then Ret None
          else obind (parse_len mem (bufp + 2) datalength) (\<lambda>(bufp1, asn_length1).
            Ret (Some (t2, bufp1, asn_length1)))))
      else Ret None)"

text \<open>The size limit: nine bytes, and then the first must be zero.\<close>

definition size_limit :: "u8 list \<Rightarrow> nat \<Rightarrow> u64 \<Rightarrow> unit outcome" where
  "size_limit mem bufp asn_length =
     (if sint (c_int asn_length) > 9 then Null
      else if c_int asn_length = 9 then
        obind (rd mem bufp) (\<lambda>b. if b \<noteq> 0 then Null else Ret ())
      else Ret ())"

definition Asn01_parseUnsignedInt64 ::
    "u8 list \<Rightarrow> size_t \<Rightarrow> size_t \<Rightarrow> (nat \<times> size_t \<times> u8 \<times> Integer64) outcome" where
  "Asn01_parseUnsignedInt64 mem datalength countersize =
     (if countersize \<noteq> 8 then Null
      else obind (rd mem 0) (\<lambda>type.
        if type \<noteq> asnCOUNTER64 \<and> type \<noteq> asnOPAQUE then Null
        else obind (parse_len mem 1 datalength) (\<lambda>(bufp, asn_length).
          obind (parse_opaque mem datalength type bufp asn_length
            {asnOPAQUE_COUNTER64, asnOPAQUE_U64}) (\<lambda>special.
          let (type1, bufp1, asn_length1) =
            (case special of None \<Rightarrow> (type, bufp, asn_length) | Some r \<Rightarrow> r)
          in obind (size_limit mem bufp1 asn_length1) (\<lambda>_.
            let datalength1 = datalength - (c_int asn_length1 + of_nat bufp1)
            in obind (shift_in_pair (unat asn_length1) mem bufp1 (0 :: u64) 0) (\<lambda>(bufp2, hi, lo).
              Ret (bufp2, datalength1, type1,
                \<lparr>high = ucast (asnCHECK_OVERFLOW_UNSIGNED hi),
                 low = ucast (asnCHECK_OVERFLOW_UNSIGNED lo)\<rparr>)))))))"

definition Asn01_parseSignedInt64 ::
    "u8 list \<Rightarrow> size_t \<Rightarrow> size_t \<Rightarrow> (nat \<times> size_t \<times> u8 \<times> Integer64) outcome" where
  "Asn01_parseSignedInt64 mem datalength countersize =
     (if countersize \<noteq> 8 then Null
      else obind (rd mem 0) (\<lambda>type.
        obind (parse_len mem 1 datalength) (\<lambda>(bufp, asn_length).
          obind (parse_opaque mem datalength type bufp asn_length {asnOPAQUE_I64}) (\<lambda>special.
          (case special of
            None \<Rightarrow> obind (rd mem bufp) (\<lambda>_. obind (rd mem (bufp + 1)) (\<lambda>_. Null))
          | Some (type1, bufp1, asn_length1) \<Rightarrow>
              obind (size_limit mem bufp1 asn_length1) (\<lambda>_.
              let datalength1 = datalength - (c_int asn_length1 + of_nat bufp1)
              in obind (rd mem bufp1) (\<lambda>b.
                let (hi, lo) = (if b AND 0x80 \<noteq> 0 then (0xFFFFFF, 0xFFFFFFFF) else (0, 0))
                in obind (shift_in_pair (unat asn_length1) mem bufp1 (hi :: u32) lo)
                  (\<lambda>(bufp2, hi1, lo1).
                    Ret (bufp2, datalength1, type1, \<lparr>high = hi1, low = lo1\<rparr>)))))))))"

text \<open>The builder's loops on \<open>u_long\<close> halves. The signed one shifts a \<open>long\<close>; the byte is the same.\<close>

fun trim_pair :: "nat \<Rightarrow> u64 \<Rightarrow> u64 \<Rightarrow> nat \<times> u64 \<times> u64" where
  "trim_pair (Suc (Suc n)) hi lo =
     (let mask2 = 0xff800000
      in if hi AND mask2 = 0 \<or> hi AND mask2 = mask2
         then trim_pair (Suc n)
           (push_bit 8 (hi AND 0x00ffffff) OR drop_bit 24 (lo AND 0xff000000))
           (push_bit 8 (lo AND 0x00ffffff))
         else (Suc (Suc n), hi, lo))"
| "trim_pair intsize hi lo = (intsize, hi, lo)"

fun emit_pair :: "nat \<Rightarrow> u64 \<Rightarrow> u64 \<Rightarrow> u8 list" where
  "emit_pair 0 hi lo = []"
| "emit_pair (Suc n) hi lo =
     ucast (drop_bit 24 hi) #
       emit_pair n (push_bit 8 (hi AND 0x00ffffff) OR drop_bit 24 (lo AND 0xff000000))
         (push_bit 8 (lo AND 0x00ffffff))"

definition build_opaque :: "size_t \<Rightarrow> u8 \<Rightarrow> nat \<Rightarrow> (u8 list \<times> size_t) outcome" where
  "build_opaque datalength tag intsize =
     obind (build_hdr datalength asnOPAQUE (of_nat intsize + 3)) (\<lambda>(bs, dl).
       Ret (bs @ [asnOPAQUE_TAG1, tag, of_nat intsize], dl - 3))"

definition Asn01_buildUnsignedInt64 ::
    "size_t \<Rightarrow> u8 \<Rightarrow> Integer64 \<Rightarrow> size_t \<Rightarrow> (u8 list \<times> size_t) outcome" where
  "Asn01_buildUnsignedInt64 datalength type cp countersize =
     (if countersize \<noteq> 8 then Null
      else
        (let lo = asnCHECK_OVERFLOW_UNSIGNED (ucast (low cp));
             hi = asnCHECK_OVERFLOW_UNSIGNED (ucast (high cp));
             add_null_byte = (hi AND 0x80000000 \<noteq> 0);
             (intsize, hi1, lo1) = (if add_null_byte then (9, hi, lo) else trim_pair 8 hi lo)
         in obind (if type = asnOPAQUE_COUNTER64 then build_opaque datalength asnOPAQUE_COUNTER64 intsize
                   else if type = asnOPAQUE_U64 then build_opaque datalength asnOPAQUE_U64 intsize
                   else build_hdr datalength type (of_nat intsize)) (\<lambda>(bs, dl).
              Ret (bs @ (if add_null_byte then 0 # emit_pair (intsize - 1) hi1 lo1
                         else emit_pair intsize hi1 lo1), dl - of_nat intsize))))"

definition Asn01_buildSignedInt64 ::
    "size_t \<Rightarrow> u8 \<Rightarrow> Integer64 \<Rightarrow> size_t \<Rightarrow> (u8 list \<times> size_t) outcome" where
  "Asn01_buildSignedInt64 datalength type cp countersize =
     (if countersize \<noteq> 8 then Null
      else
        (let lo = asnCHECK_OVERFLOW_UNSIGNED (ucast (low cp));
             hi = asnCHECK_OVERFLOW_SIGNED (ucast (high cp));
             (intsize, hi1, lo1) = trim_pair 8 hi lo
         in obind (build_hdr datalength asnOPAQUE (of_nat intsize + 3)) (\<lambda>(bs, dl).
              Ret (bs @ [asnOPAQUE_TAG1, asnOPAQUE_I64, of_nat intsize]
                      @ emit_pair intsize hi1 lo1, dl - (3 + of_nat intsize)))))"

section \<open>The halves as one word\<close>

text \<open>The loops on the halves of \<open>v\<close> do what the loops of AsnInt do on \<open>v\<close>.\<close>

definition hi_of :: "u64 \<Rightarrow> u64" where
  "hi_of v = drop_bit 32 v"

definition lo_of :: "u64 \<Rightarrow> u64" where
  "lo_of v = take_bit 32 v"

lemma mask_24: "(x :: 'a::len word) AND 0x00ffffff = take_bit 24 x"
  by (simp add: take_bit_eq_mask mask_eq_exp_minus_1)

lemma mask_24': "0x00ffffff AND (x :: 'a::len word) = take_bit 24 x"
  by (simp only: and.commute mask_24)

lemma top_masks:
  "(0xff000000 :: u64) = push_bit 24 (mask 8)" "(0xff000000 :: u32) = push_bit 24 (mask 8)"
  "(0xff800000 :: u64) = push_bit 23 (mask 9)"
  by (simp_all add: mask_eq_exp_minus_1)

lemma add_32_diff_8: "\<not> n < 8 \<Longrightarrow> 32 + (n - 8) = 24 + (n :: nat)"
  by simp

lemma no_bit_u8: "8 \<le> n \<Longrightarrow> \<not> bit (b :: u8) n"
  using bit_imp_le_length [of b n] by auto

lemma no_bit_u32: "32 \<le> n \<Longrightarrow> \<not> bit (w :: u32) n"
  using bit_imp_le_length [of w n] by auto

lemmas half_simps = bit_simps add_32_diff_8 no_bit_u8 no_bit_u32

lemma halves_shift:
  "push_bit 8 (take_bit 24 (hi_of v)) OR drop_bit 24 (lo_of v AND 0xff000000) = hi_of (push_bit 8 v)"
  "push_bit 8 (take_bit 24 (lo_of v)) = lo_of (push_bit 8 v)"
proof -
  show "push_bit 8 (take_bit 24 (hi_of v)) OR drop_bit 24 (lo_of v AND 0xff000000) = hi_of (push_bit 8 v)"
    unfolding hi_of_def lo_of_def top_masks
  proof (rule bit_word_eqI)
    fix n
    show "bit (push_bit 8 (take_bit 24 (drop_bit 32 v)) OR
        drop_bit 24 (take_bit 32 v AND push_bit 24 (mask 8))) n = bit (drop_bit 32 (push_bit 8 v)) n"
      by (cases "n < 8") (auto simp: half_simps)
  qed
  show "push_bit 8 (take_bit 24 (lo_of v)) = lo_of (push_bit 8 v)"
    unfolding lo_of_def by (rule bit_word_eqI) (auto simp: bit_simps)
qed

lemma halves_or_byte:
  "hi_of (v OR ucast (b :: u8)) = hi_of v"
  "lo_of v OR ucast (b :: u8) = lo_of (v OR ucast b)"
proof -
  show "hi_of (v OR ucast (b :: u8)) = hi_of v"
    unfolding hi_of_def by (rule bit_word_eqI) (auto simp: half_simps)
  show "lo_of v OR ucast (b :: u8) = lo_of (v OR ucast b)"
    unfolding lo_of_def by (rule bit_word_eqI) (auto simp: half_simps)
qed

lemma shift_in_pair_u64:
  "shift_in_pair n mem i (hi_of v) (lo_of v) =
     obind (shift_in n mem i v) (\<lambda>(p, w). Ret (p, hi_of w, lo_of w))"
proof (induction n arbitrary: i v)
  case (Suc n)
  have "push_bit 8 (take_bit 24 (hi_of v)) OR drop_bit 24 (lo_of v AND 0xff000000)
      = hi_of (push_bit 8 v OR ucast b)" for b :: u8
    by (simp only: halves_shift halves_or_byte)
  note h = this
  show ?case
  proof (cases "rd mem i")
    case (Ret b)
    then show ?thesis
      using Suc.IH [of "i + 1" "push_bit 8 v OR ucast b"]
      by (simp add: mask_24 mask_24' h [of b] halves_shift(2) halves_or_byte(2) del: drop_bit_and)
  qed simp_all
qed simp

lemma shift_in_pair_u32:
  "shift_in_pair n mem i (ucast (hi_of v) :: u32) (ucast (lo_of v)) =
     obind (shift_in n mem i v) (\<lambda>(p, w). Ret (p, ucast (hi_of w), ucast (lo_of w)))"
proof (induction n arbitrary: i v)
  case (Suc n)
  have h: "push_bit 8 (take_bit 24 (ucast (hi_of v))) OR drop_bit 24 (ucast (lo_of v) AND 0xff000000)
      = (ucast (hi_of (push_bit 8 v OR ucast b)) :: u32)" for b :: u8
  proof (rule bit_word_eqI)
    fix n
    assume "n < LENGTH(32)"
    then show "bit (push_bit 8 (take_bit 24 (ucast (hi_of v))) OR
        drop_bit 24 (ucast (lo_of v) AND 0xff000000) :: u32) n
      = bit (ucast (hi_of (push_bit 8 v OR ucast b)) :: u32) n"
      unfolding hi_of_def lo_of_def top_masks by (cases "n < 8") (auto simp: half_simps)
  qed
  have l: "push_bit 8 (take_bit 24 (ucast (lo_of v))) OR ucast b
      = (ucast (lo_of (push_bit 8 v OR ucast b)) :: u32)" for b :: u8
    unfolding lo_of_def by (rule bit_word_eqI) (auto simp: half_simps)
  show ?case
  proof (cases "rd mem i")
    case (Ret b)
    then show ?thesis
      using Suc.IH [of "i + 1" "push_bit 8 v OR ucast b"]
      by (simp add: mask_24 mask_24' h [of b] l del: drop_bit_and)
  qed simp_all
qed simp

lemma top_nine:
  "hi_of v AND 0xff800000 = 0 \<longleftrightarrow> v AND push_bit 55 0x1FF = 0"
  "hi_of v AND 0xff800000 = 0xff800000 \<longleftrightarrow> v AND push_bit 55 0x1FF = push_bit 55 0x1FF"
proof -
  have shift: "hi_of v AND 0xff800000 = drop_bit 32 (v AND push_bit 55 0x1FF)"
    unfolding hi_of_def top_masks top9_mask by (rule bit_word_eqI) (auto simp: bit_simps)
  have unshift: "v AND push_bit 55 0x1FF = push_bit 32 (hi_of v AND 0xff800000)"
    unfolding hi_of_def top_masks top9_mask by (rule bit_word_eqI) (auto simp: bit_simps)
  have m: "push_bit 32 (0xff800000 :: u64) = push_bit 55 0x1FF" "drop_bit 32 (push_bit 55 0x1FF :: u64) = 0xff800000"
    unfolding top_masks top9_mask by (rule bit_word_eqI; auto simp: bit_simps)+
  show "hi_of v AND 0xff800000 = 0 \<longleftrightarrow> v AND push_bit 55 0x1FF = 0"
    by (metis shift unshift drop_bit_of_0 push_bit_of_0)
  show "hi_of v AND 0xff800000 = 0xff800000 \<longleftrightarrow> v AND push_bit 55 0x1FF = push_bit 55 0x1FF"
    by (metis shift unshift m)
qed

lemma trim_pair_trim_int:
  "trim_pair n (hi_of v) (lo_of v) = (case trim_int n v of (m, w) \<Rightarrow> (m, hi_of w, lo_of w))"
proof (induction n arbitrary: v rule: less_induct)
  case (less n)
  show ?case
  proof (cases "\<exists>k. n = Suc (Suc k)")
    case True
    then obtain k where n: "n = Suc (Suc k)" by blast
    show ?thesis
      using less.IH [of "Suc k" "push_bit 8 v"]
      by (subst trim_int.simps) (simp add: n top_nine Let_def mask_24 halves_shift del: drop_bit_and)
  next
    case False
    then have "n = 0 \<or> n = Suc 0"
      by (metis nat.exhaust)
    then show ?thesis
      by (elim disjE; subst trim_int.simps) simp_all
  qed
qed

lemma emit_pair_emit_top: "emit_pair n (hi_of v) (lo_of v) = emit_top n v"
proof (induction n arbitrary: v)
  case (Suc n)
  have "(ucast (drop_bit 24 (hi_of v)) :: u8) = ucast (drop_bit 56 (v AND push_bit 56 0xFF))"
    unfolding top_byte_mask hi_of_def by (rule bit_word_eqI) (auto simp: bit_simps)
  then show ?case
    by (simp add: mask_24 halves_shift Suc.IH del: drop_bit_and)
qed simp

section \<open>The value of a pair\<close>

definition i64_word :: "Integer64 \<Rightarrow> u64" where
  "i64_word n = push_bit 32 (ucast (high n)) OR ucast (low n)"

lemma hi_lo_word: "hi_of (i64_word n) = ucast (high n)" "lo_of (i64_word n) = ucast (low n)"
proof -
  show "hi_of (i64_word n) = ucast (high n)"
    unfolding hi_of_def i64_word_def by (rule bit_word_eqI) (auto simp: half_simps dest: bit_imp_le_length)
  show "lo_of (i64_word n) = ucast (low n)"
    unfolding lo_of_def i64_word_def by (rule bit_word_eqI) (auto simp: half_simps dest: bit_imp_le_length)
qed

lemma hi_lo_back:
  "\<lparr>high = ucast (hi_of (i64_word n)), low = ucast (lo_of (i64_word n))\<rparr> = n"
proof -
  have "ucast (ucast (x :: u32) :: u64) = x" for x
    by (rule bit_word_eqI) (auto simp: bit_simps)
  then show ?thesis
    by (simp add: hi_lo_word)
qed

lemma check_unsigned_half: "asnCHECK_OVERFLOW_UNSIGNED (ucast (x :: u32)) = ucast x"
  using unat_lt2p [of x] by (intro check_unsigned_id) (simp add: unat_ucast_up)

lemma check_signed_half: "asnCHECK_OVERFLOW_SIGNED (ucast (x :: u32)) = ucast x"
proof -
  have "unat (ucast x :: u64) < 2 ^ 32"
    using unat_lt2p [of x] by (simp add: unat_ucast_up)
  then have "sint (ucast x :: u64) = int (unat (ucast x :: u64))"
    by (intro sint_nonneg) simp
  then have "\<not> sint (ucast x :: u64) < - 0x80000000"
    by linarith
  moreover have "(ucast x :: u64) AND 0xffffffff = ucast x"
    unfolding and_ffffffff by (rule bit_word_eqI) (auto simp: bit_simps dest: bit_imp_le_length)
  ultimately show ?thesis
    by (simp only: asnCHECK_OVERFLOW_SIGNED_def) simp
qed

lemma bit_64_sign: "(ucast (h :: u32) :: u64) AND 0x80000000 \<noteq> 0 \<longleftrightarrow> bit h 31"
proof -
  have "(ucast h :: u64) AND 2 ^ 31 \<noteq> 0 \<longleftrightarrow> bit (ucast h :: u64) 31"
    by (simp only: and_exp_eq_0_iff_not_bit) simp
  then show ?thesis
    by (simp add: bit_simps)
qed

lemma bit_word_63: "bit (i64_word n) 63 \<longleftrightarrow> bit (high n) 31"
  by (auto simp: i64_word_def bit_simps dest: bit_imp_le_length)

section \<open>What the builders write\<close>

text \<open>The contents octets of an unsigned counter: shortest form, with a zero byte in front when the sign bit is set.\<close>

definition counter_bytes :: "u64 \<Rightarrow> u8 list \<Rightarrow> bool" where
  "counter_bytes v pl \<longleftrightarrow>
     (if bit v 63 then pl = 0 # be_bytes 8 v else \<exists>n. shortest n v \<and> pl = be_bytes n v)"

lemma counter_bytes_length: "counter_bytes v pl \<Longrightarrow> 1 \<le> length pl \<and> length pl \<le> 9"
  by (auto simp: counter_bytes_def shortest_def simp del: be_bytes.simps split: if_splits)

lemma shift_in_counter_bytes:
  assumes "counter_bytes v pl"
  shows "shift_in (length pl) (pre @ pl @ rest) (length pre) 0 = Ret (length pre + length pl, v)"
    and "length pl = 9 \<Longrightarrow> pl ! 0 = 0"
proof -
  show "shift_in (length pl) (pre @ pl @ rest) (length pre) 0 = Ret (length pre + length pl, v)"
  proof (cases "bit v 63")
    case True
    have "take_bit 64 v = v"
      by (rule bit_word_eqI) (simp add: bit_simps)
    then have "foldl (\<lambda>v b. push_bit 8 v OR ucast b) 0 (be_bytes 8 v) = v"
      using foldl_be_bytes [of 0 8 v] by simp
    moreover have "pl = 0 # be_bytes 8 v"
      using assms True by (simp add: counter_bytes_def)
    ultimately show ?thesis
      by (simp add: shift_in_Ret del: be_bytes.simps)
  next
    case False
    then obtain n where n: "shortest n v" "pl = be_bytes n v"
      using assms by (auto simp: counter_bytes_def)
    then have "8 * n - 1 < 64" and "fits n v"
      by (auto simp: shortest_def)
    then have "\<not> bit v (8 * n - 1)"
      using False fitsD [of n v "8 * n - 1"] by simp
    then have "\<not> be_bytes n v ! 0 AND 0x80 \<noteq> 0"
      using be_bytes_hd [of n v] n by (simp add: shortest_def)
    then show ?thesis
      using shift_in_be_bytes [OF n(1), of pre rest] n(2) by simp
  qed
  show "pl ! 0 = 0" if "length pl = 9"
    using assms that by (auto simp: counter_bytes_def shortest_def simp del: be_bytes.simps split: if_splits)
qed

lemma shortest_ex: "\<exists>n. shortest n v"
  by (meson trim_int_8)

lemma trimmed_bytes:
  obtains n where "shortest n v" and "trim_pair 8 (hi_of v) (lo_of v) = (n, hi_of (push_bit (8 * (8 - n)) v), lo_of (push_bit (8 * (8 - n)) v))"
    and "emit_pair n (hi_of (push_bit (8 * (8 - n)) v)) (lo_of (push_bit (8 * (8 - n)) v)) = be_bytes n v"
proof -
  obtain n where n: "shortest n v" "trim_int 8 v = (n, push_bit (8 * (8 - n)) v)"
    by (rule trim_int_8)
  then have "n \<le> 8"
    by (simp add: shortest_def)
  with n that show ?thesis
    by (simp add: trim_pair_trim_int emit_pair_emit_top emit_top_be_bytes del: trim_pair.simps)
qed

definition uint64_hdr :: "size_t \<Rightarrow> u8 \<Rightarrow> nat \<Rightarrow> (u8 list \<times> size_t) outcome" where
  "uint64_hdr dl ty n =
     (if ty = asnOPAQUE_COUNTER64 then build_opaque dl asnOPAQUE_COUNTER64 n
      else if ty = asnOPAQUE_U64 then build_opaque dl asnOPAQUE_U64 n
      else build_hdr dl ty (of_nat n))"

lemma counter_halves:
  "asnCHECK_OVERFLOW_UNSIGNED (ucast (high x)) = hi_of (i64_word x)"
  "asnCHECK_OVERFLOW_UNSIGNED (ucast (low x)) = lo_of (i64_word x)"
  "asnCHECK_OVERFLOW_SIGNED (ucast (high x)) = hi_of (i64_word x)"
  "hi_of (i64_word x) AND 0x80000000 \<noteq> 0 \<longleftrightarrow> bit (i64_word x) 63"
  by (simp_all only: check_unsigned_half check_signed_half hi_lo_word bit_64_sign bit_word_63)

lemma buildUnsignedInt64_eq:
  obtains pl where "counter_bytes (i64_word x) pl"
    and "Asn01_buildUnsignedInt64 dl ty x 8 =
      obind (uint64_hdr dl ty (length pl)) (\<lambda>(h, d). Ret (h @ pl, d - of_nat (length pl)))"
proof (cases "bit (i64_word x) 63")
  case True
  have e8: "emit_pair (9 - 1) (hi_of (i64_word x)) (lo_of (i64_word x)) = be_bytes 8 (i64_word x)"
    using emit_top_be_bytes [of 8 "i64_word x"] by (simp add: emit_pair_emit_top del: be_bytes.simps)
  show ?thesis
    using True e8 that [of "0 # be_bytes 8 (i64_word x)"]
    by (simp add: Asn01_buildUnsignedInt64_def counter_halves counter_bytes_def uint64_hdr_def
        del: be_bytes.simps trim_pair.simps emit_pair.simps)
next
  case False
  let ?v = "i64_word x"
  obtain n where "shortest n ?v"
    and "trim_pair 8 (hi_of ?v) (lo_of ?v) = (n, hi_of (push_bit (8 * (8 - n)) ?v), lo_of (push_bit (8 * (8 - n)) ?v))"
    and "emit_pair n (hi_of (push_bit (8 * (8 - n)) ?v)) (lo_of (push_bit (8 * (8 - n)) ?v)) = be_bytes n ?v"
    by (rule trimmed_bytes)
  with False that [of "be_bytes n ?v"] show ?thesis
    by (auto simp: Asn01_buildUnsignedInt64_def counter_halves counter_bytes_def uint64_hdr_def
        simp del: be_bytes.simps trim_pair.simps emit_pair.simps)
qed

lemma buildUnsignedInt64_RetD:
  assumes "Asn01_buildUnsignedInt64 dl ty x cs = Ret (bs, dl')"
  obtains pl h dlh where "cs = 8" and "counter_bytes (i64_word x) pl"
    and "uint64_hdr dl ty (length pl) = Ret (h, dlh)" and "bs = h @ pl"
    and "dl' = dlh - of_nat (length pl)"
proof -
  have "cs = 8"
    using assms by (simp add: Asn01_buildUnsignedInt64_def split: if_splits)
  moreover obtain pl where "counter_bytes (i64_word x) pl"
    and "Asn01_buildUnsignedInt64 dl ty x 8 =
      obind (uint64_hdr dl ty (length pl)) (\<lambda>(h, d). Ret (h @ pl, d - of_nat (length pl)))"
    by (rule buildUnsignedInt64_eq)
  ultimately show ?thesis
    using assms by (auto intro: that elim!: obind_RetE split: prod.splits)
qed

lemma buildSignedInt64_RetD:
  assumes "Asn01_buildSignedInt64 dl ty x cs = Ret (bs, dl')"
  obtains n h dlh where "cs = 8" and "shortest n (i64_word x)"
    and "build_opaque dl asnOPAQUE_I64 n = Ret (h, dlh)" and "bs = h @ be_bytes n (i64_word x)"
    and "dl' = dlh - of_nat n"
proof -
  let ?v = "i64_word x"
  have "cs = 8"
    using assms by (simp add: Asn01_buildSignedInt64_def split: if_splits)
  moreover obtain n where "shortest n ?v"
    and "trim_pair 8 (hi_of ?v) (lo_of ?v) = (n, hi_of (push_bit (8 * (8 - n)) ?v), lo_of (push_bit (8 * (8 - n)) ?v))"
    and "emit_pair n (hi_of (push_bit (8 * (8 - n)) ?v)) (lo_of (push_bit (8 * (8 - n)) ?v)) = be_bytes n ?v"
    by (rule trimmed_bytes)
  ultimately show ?thesis
    using assms that [of n]
    by (auto simp: Asn01_buildSignedInt64_def counter_halves build_opaque_def diff_diff_eq2
        diff_diff_add simp del: be_bytes.simps trim_pair.simps emit_pair.simps elim!: obind_RetE)
qed

lemma build_opaque_RetD:
  assumes "build_opaque dl tag n = Ret (h, d)" and "n \<le> 9"
  shows "length h + unat d = unat dl" and "n \<le> unat d"
proof -
  have n: "unat (of_nat n + 3 :: u64) = n + 3"
    using assms(2) by (simp add: unat_add_if unat_of_nat)
  from assms(1) obtain b d1 where b: "build_hdr dl asnOPAQUE (of_nat n + 3) = Ret (b, d1)"
    and "h = b @ [asnOPAQUE_TAG1, tag, of_nat n]" "d = d1 - 3"
    by (auto simp: build_opaque_def elim!: obind_RetE)
  then show "length h + unat d = unat dl" and "n \<le> unat d"
    using build_hdr_RetD [OF b] n by (auto simp: unat_sub_if)
qed

lemma parse_len_short:
  assumes "i < length mem" and "mem ! i = of_nat n" and "n < 128" and "i < 100"
    and "i + 1 + n \<le> unat dl"
  shows "parse_len mem i dl = Ret (i + 1, of_nat n)"
proof -
  have "(of_nat n :: u8) AND 0x80 = 0"
    using assms(3) bit_less_exp [of "of_nat n :: u8" 7 7]
    by (auto simp: and_80_iff unat_of_nat)
  moreover have "ucast (of_nat n :: u8) = (of_nat n :: u64)"
    using assms(3) by (simp add: word_unat_eq_iff unat_ucast_up unat_of_nat)
  ultimately have l: "Asn01_parseLength mem i = Ret (i + 1, of_nat n)"
    using assms(1,2) by (simp add: Asn01_parseLength_def asnLONG_LEN_def)
  have "unat (of_nat n :: u64) = n" "unat (of_nat (i + 1) :: u64) = i + 1"
    using assms(3,4) by (simp_all only: unat_of_nat) simp_all
  then have "\<not> Asn01_parseLengthCheck (i + 1) 0 (of_nat n) dl"
    using assms(3-5) by (simp add: Asn01_parseLengthCheck_def Let_def word_less_nat_alt unat_add_if
        del: of_nat_add of_nat_Suc)
  with l show ?thesis
    by (simp add: parse_len_def)
qed

lemma parse_opaque_build:
  assumes "build_opaque dl tag n = Ret (h, d)" and "1 \<le> n" and "n \<le> 9" and "tag \<in> tags"
    and "length h + n \<le> unat dl2"
  obtains b l where "parse_len (h @ mem) 1 dl2 = Ret (b, l)" and "(h @ mem) ! 0 = asnOPAQUE"
    and "h \<noteq> []" and "parse_opaque (h @ mem) dl2 asnOPAQUE b l tags = Ret (Some (tag, length h, of_nat n))"
proof -
  let ?l = "of_nat n + 3 :: u64"
  have un: "unat ?l = n + 3"
    using assms(3) by (simp add: unat_add_if unat_of_nat)
  from assms(1) obtain b d1 where b: "build_hdr dl asnOPAQUE ?l = Ret (b, d1)"
    and h: "h = b @ [asnOPAQUE_TAG1, tag, of_nat n]"
    by (auto simp: build_opaque_def elim!: obind_RetE)
  have small: "?l \<le> 0xFFFF" and fit: "length b + unat ?l \<le> unat dl2"
    using un assms(3,5) by (simp_all add: word_le_nat_alt h)
  note B = build_hdr_RetD [OF b] and P = parse_len_build_hdr [OF b small fit]
  have p: "parse_len (h @ mem) 1 dl2 = Ret (length b, ?l)"
    using P(1) by (simp add: h)
  have "b \<noteq> []" using B(2) by auto
  then have "h \<noteq> []" and h0: "(h @ mem) ! 0 = asnOPAQUE"
    using P(2) by (simp_all add: h nth_append hd_conv_nth)
  have b2: "parse_len (h @ mem) (length b + 2) dl2 = Ret (length h, of_nat n)"
    using parse_len_short [of "length b + 2" "h @ mem" n dl2] B(3) assms(3,5)
    by (simp add: h nth_append)
  have "?l \<le> asnOPAQUE_COUNTER64_MX_BER_LEN"
    using un assms(3) by (simp add: asnOPAQUE_COUNTER64_MX_BER_LEN_def word_le_nat_alt)
  moreover have "(h @ mem) ! length b = asnOPAQUE_TAG1" "(h @ mem) ! (length b + 1) = tag"
    by (simp_all add: h nth_append)
  ultimately have "parse_opaque (h @ mem) dl2 asnOPAQUE (length b) ?l tags
      = Ret (Some (tag, length h, of_nat n))"
    using b2 assms(4) by (simp add: parse_opaque_def h)
  with p h0 \<open>h \<noteq> []\<close> that show ?thesis by blast
qed

section \<open>Round trips, capacity and bounds\<close>

definition uint64_type :: "u8 \<Rightarrow> bool" where
  "uint64_type ty \<longleftrightarrow> ty \<in> {asnCOUNTER64, asnOPAQUE_COUNTER64, asnOPAQUE_U64}"

lemma size_limit_ok:
  assumes "n \<le> 9" and "n = 9 \<longrightarrow> i < length mem \<and> mem ! i = 0"
  shows "size_limit mem i (of_nat n) = Ret ()" and "c_int (of_nat n) = of_nat n"
    and "unat (of_nat n :: u64) = n"
proof -
  show u: "unat (of_nat n :: u64) = n"
    using assms(1) by (simp add: unat_of_nat)
  then show c: "c_int (of_nat n) = of_nat n"
    using assms(1) by (intro c_int_small) (simp add: word_le_nat_alt)
  have "sint (of_nat n :: u64) = int n"
    using u assms(1) by (simp add: sint_nonneg)
  moreover have "(of_nat n :: u64) = 9 \<longleftrightarrow> n = 9"
    using u by auto
  ultimately show "size_limit mem i (of_nat n) = Ret ()"
    using assms by (simp add: size_limit_def c)
qed

lemma uint64_hdr_RetD:
  assumes "uint64_hdr dl ty n = Ret (h, d)" and "n \<le> 9"
  shows "length h + unat d = unat dl" and "n \<le> unat d"
proof -
  have "unat (of_nat n :: u64) = n"
    using assms(2) by (simp add: unat_of_nat)
  then show "length h + unat d = unat dl" and "n \<le> unat d"
    using assms build_opaque_RetD [of dl _ n h d] build_hdr_RetD [of dl ty "of_nat n" h d]
    by (auto simp: uint64_hdr_def split: if_splits)
qed

lemma buildUnsignedInt64_capacity:
  assumes "Asn01_buildUnsignedInt64 dl ty x cs = Ret (bs, dl')"
  shows "length bs + unat dl' = unat dl"
  using assms
proof (rule buildUnsignedInt64_RetD)
  fix pl h dlh
  assume c: "counter_bytes (i64_word x) pl" and h: "uint64_hdr dl ty (length pl) = Ret (h, dlh)"
    and bs: "bs = h @ pl" and dl': "dl' = dlh - of_nat (length pl)"
  have "length pl \<le> 9"
    using counter_bytes_length [OF c] by simp
  then show ?thesis
    using uint64_hdr_RetD [OF h] by (simp add: bs dl' unat_sub_if unat_of_nat)
qed

lemma buildSignedInt64_capacity:
  assumes "Asn01_buildSignedInt64 dl ty x cs = Ret (bs, dl')"
  shows "length bs + unat dl' = unat dl"
  using assms
proof (rule buildSignedInt64_RetD)
  fix n h dlh
  assume n: "shortest n (i64_word x)" and h: "build_opaque dl asnOPAQUE_I64 n = Ret (h, dlh)"
    and bs: "bs = h @ be_bytes n (i64_word x)" and dl': "dl' = dlh - of_nat n"
  have "n \<le> 9"
    using n by (simp add: shortest_def)
  then show ?thesis
    using build_opaque_RetD [OF h] by (simp add: bs dl' unat_sub_if unat_of_nat)
qed

text \<open>The tail of both parsers: the contents octets behind the header.\<close>

lemma consumed_sub: "dl - (of_nat n + of_nat (length h)) = dl - of_nat (length (h @ pl))"
  if "length pl = n" for dl :: u64
  using that by (simp add: add.commute)

lemma unsigned64_roundtrip:
  assumes "Asn01_buildUnsignedInt64 dl ty x 8 = Ret (bs, dl')" and "uint64_type ty"
    and "length bs \<le> unat dl2"
  shows "Asn01_parseUnsignedInt64 (bs @ rest) dl2 8 =
    Ret (length bs, dl2 - of_nat (length bs), ty, x)"
  using assms(1)
proof (rule buildUnsignedInt64_RetD)
  fix pl :: "u8 list" and h dlh
  let ?v = "i64_word x" and ?n = "length pl"
  assume c: "counter_bytes ?v pl" and hdr: "uint64_hdr dl ty ?n = Ret (h, dlh)" and bs: "bs = h @ pl"
  note n = counter_bytes_length [OF c]
  note shift = shift_in_counter_bytes(1) [OF c, of h rest]
  have nine: "?n = 9 \<longrightarrow> length h < length (bs @ rest) \<and> (bs @ rest) ! length h = 0"
    using shift_in_counter_bytes(2) [OF c] by (auto simp: bs nth_append)
  have n9: "?n \<le> 9"
    using n by simp
  note lim = size_limit_ok [OF n9 nine]
  have pair: "shift_in_pair ?n (bs @ rest) (length h) (0 :: u64) 0
      = Ret (length bs, hi_of ?v, lo_of ?v)"
    using shift_in_pair_u64 [of ?n "bs @ rest" "length h" 0] shift
    by (simp add: bs hi_of_def lo_of_def)
  have val: "\<lparr>high = ucast (asnCHECK_OVERFLOW_UNSIGNED (hi_of ?v)),
      low = ucast (asnCHECK_OVERFLOW_UNSIGNED (lo_of ?v))\<rparr> = x"
    by (simp only: hi_lo_word check_unsigned_half) (simp only: hi_lo_back flip: hi_lo_word)
  have len: "dl2 - (of_nat ?n + of_nat (length h)) = dl2 - of_nat (length bs)"
    unfolding bs by (rule consumed_sub) simp
  show ?thesis
  proof (cases "ty = asnCOUNTER64")
    case True
    then have h: "build_hdr dl ty (of_nat ?n) = Ret (h, dlh)"
      using hdr by (simp add: uint64_hdr_def asn_tags)
    have small: "(of_nat ?n :: u64) \<le> 0xFFFF" and fit: "length h + unat (of_nat ?n :: u64) \<le> unat dl2"
      using lim(3) n9 assms(3) by (simp_all add: word_le_nat_alt bs)
    have "h \<noteq> []"
      using build_hdr_RetD(2) [OF h] by auto
    then have "(bs @ rest) ! 0 = ty"
      using parse_len_build_hdr(2) [OF h small fit] by (simp add: bs nth_append hd_conv_nth)
    then show ?thesis
      using parse_len_build_hdr(1) [OF h small fit, of "pl @ rest"] \<open>h \<noteq> []\<close> True lim pair val len
      by (simp add: Asn01_parseUnsignedInt64_def parse_opaque_def bs asn_tags del: of_nat_add)
  next
    case False
    then have bo: "build_opaque dl ty ?n = Ret (h, dlh)" and ty: "ty \<in> {asnOPAQUE_COUNTER64, asnOPAQUE_U64}"
      using hdr assms(2) by (auto simp: uint64_hdr_def uint64_type_def split: if_splits)
    have fit: "length h + ?n \<le> unat dl2"
      using assms(3) by (simp add: bs)
    obtain b l where "parse_len (h @ pl @ rest) 1 dl2 = Ret (b, l)"
      and "(h @ pl @ rest) ! 0 = asnOPAQUE" and "h \<noteq> []"
      and "parse_opaque (h @ pl @ rest) dl2 asnOPAQUE b l {asnOPAQUE_COUNTER64, asnOPAQUE_U64}
        = Ret (Some (ty, length h, of_nat ?n))"
      by (rule parse_opaque_build [OF bo conjunct1 [OF n] n9 ty fit, of "pl @ rest"])
    then show ?thesis
      using lim pair val len
      by (simp add: Asn01_parseUnsignedInt64_def bs del: of_nat_add)
  qed
qed

lemma shift_in_pair_sign:
  assumes "1 \<le> n"
  shows "shift_in_pair n mem i (0xFFFFFF :: u32) 0xFFFFFFFF
    = shift_in_pair n mem i (ucast (hi_of (- 1))) (ucast (lo_of (- 1)))"
proof -
  obtain m where n: "n = Suc m"
    using assms by (cases n) auto
  have "(ucast (hi_of (- 1)) :: u32) = 0xFFFFFFFF" "(ucast (lo_of (- 1)) :: u32) = 0xFFFFFFFF"
    by (simp_all add: hi_of_def lo_of_def mask_eq_exp_minus_1)
  then show ?thesis
    by (simp add: n)
qed

lemma signed64_roundtrip:
  assumes "Asn01_buildSignedInt64 dl ty x 8 = Ret (bs, dl')" and "length bs \<le> unat dl2"
  shows "Asn01_parseSignedInt64 (bs @ rest) dl2 8 =
    Ret (length bs, dl2 - of_nat (length bs), asnOPAQUE_I64, x)"
  using assms(1)
proof (rule buildSignedInt64_RetD)
  fix n h dlh
  let ?v = "i64_word x" and ?pl = "be_bytes n (i64_word x)"
  assume n: "shortest n ?v" and hdr: "build_opaque dl asnOPAQUE_I64 n = Ret (h, dlh)" and bs: "bs = h @ ?pl"
  have n8: "1 \<le> n" "n \<le> 9" "n \<noteq> 9"
    using n by (simp_all add: shortest_def)
  then have nine: "n = 9 \<longrightarrow> length h < length (bs @ rest) \<and> (bs @ rest) ! length h = 0"
    by simp
  note lim = size_limit_ok [OF n8(2) nine]
  have b0: "rd (bs @ rest) (length h) = Ret (?pl ! 0)"
    using n8 by (simp add: bs rd_Ret_iff nth_append)
  have neg: "?pl ! 0 AND 0x80 \<noteq> 0 \<Longrightarrow> shift_in_pair n (h @ ?pl @ rest) (length h)
      (0xFFFFFF :: u32) 0xFFFFFFFF = Ret (length bs, ucast (hi_of ?v), ucast (lo_of ?v))"
    using shift_in_be_bytes [OF n, of h rest] shift_in_pair_u32 [of n "bs @ rest" "length h" "- 1"]
    by (simp add: shift_in_pair_sign [OF n8(1)] bs)
  have pos: "?pl ! 0 AND 0x80 = 0 \<Longrightarrow> shift_in_pair n (h @ ?pl @ rest) (length h)
      (0 :: u32) 0 = Ret (length bs, ucast (hi_of ?v), ucast (lo_of ?v))"
    using shift_in_be_bytes [OF n, of h rest] shift_in_pair_u32 [of n "bs @ rest" "length h" 0]
    by (simp add: bs hi_of_def lo_of_def)
  have len: "dl2 - (of_nat n + of_nat (length h)) = dl2 - of_nat (length bs)"
    unfolding bs by (rule consumed_sub) simp
  have fit: "length h + n \<le> unat dl2"
    using assms(2) by (simp add: bs)
  obtain b l where "parse_len (h @ ?pl @ rest) 1 dl2 = Ret (b, l)"
    and "(h @ ?pl @ rest) ! 0 = asnOPAQUE" and "h \<noteq> []"
    and "parse_opaque (h @ ?pl @ rest) dl2 asnOPAQUE b l {asnOPAQUE_I64}
      = Ret (Some (asnOPAQUE_I64, length h, of_nat n))"
    by (rule parse_opaque_build [OF hdr n8(1,2) singletonI fit, of "?pl @ rest"])
  then show ?thesis
    using lim b0 len
    by (simp add: Asn01_parseSignedInt64_def neg pos hi_lo_back bs del: of_nat_add)
qed

lemma shift_in_pair_RetD: "shift_in_pair n mem i hi lo = Ret (p, hi', lo') \<Longrightarrow> p = i + n"
  by (induction n mem i hi lo rule: shift_in_pair.induct) (auto simp: obind_Ret_iff)

lemma shift_in_pair_no_Crash: "i + n \<le> length mem \<Longrightarrow> shift_in_pair n mem i hi lo \<noteq> Crash"
  by (induction n mem i hi lo rule: shift_in_pair.induct) (auto simp: obind_Crash_iff)

text \<open>The contents octets lie inside the message, wrapped or not.\<close>

lemma parse_opaque_inside:
  assumes "parse_len mem 1 dl = Ret (b, l)" and "parse_opaque mem dl ty b l tags = Ret sp"
    and "(case sp of None \<Rightarrow> (ty, b, l) | Some r \<Rightarrow> r) = (ty1, b1, l1)"
  shows "unat l1 + b1 \<le> unat dl" and "c_int l1 = l1"
proof -
  note P = parse_len_RetD [OF assms(1)]
  have "parse_len mem (b + 2) dl = Ret (b1, l1) \<or> (b1, l1) = (b, l)"
    using assms(2,3)
    by (auto simp: parse_opaque_def elim!: obind_RetE split: if_splits prod.splits)
  then show "unat l1 + b1 \<le> unat dl" and "c_int l1 = l1"
    using P parse_len_RetD [of mem "b + 2" dl b1 l1] by auto
qed

lemma parse_opaque_no_Crash:
  assumes "parse_len mem 1 dl = Ret (b, l)" and "unat dl + 11 \<le> length mem"
  shows "parse_opaque mem dl ty b l tags \<noteq> Crash"
proof -
  have b: "b \<le> unat dl"
    using parse_len_RetD [OF assms(1)] by simp
  then have "parse_len mem (b + 2) dl \<noteq> Crash"
    using assms(2) by (intro parse_len_no_Crash) simp
  moreover have "rd mem b \<noteq> Crash" "rd mem (b + 1) \<noteq> Crash"
    using b assms(2) by (simp_all add: rd_Crash_iff)
  ultimately show ?thesis
    by (auto simp: parse_opaque_def obind_Crash_iff split: if_splits)
qed

lemma size_limit_no_Crash: "b < length mem \<Longrightarrow> size_limit mem b l \<noteq> Crash"
  by (auto simp: size_limit_def obind_Crash_iff)

lemma parseUnsignedInt64_consumes:
  assumes "Asn01_parseUnsignedInt64 mem dl cs = Ret (p, dl', v)"
  shows "p + unat dl' = unat dl"
proof -
  from assms obtain ty b l sp ty1 b1 l1 hi lo where l: "parse_len mem 1 dl = Ret (b, l)"
    and o: "parse_opaque mem dl ty b l {asnOPAQUE_COUNTER64, asnOPAQUE_U64} = Ret sp"
    and s: "(case sp of None \<Rightarrow> (ty, b, l) | Some r \<Rightarrow> r) = (ty1, b1, l1)"
    and sh: "shift_in_pair (unat l1) mem b1 (0 :: u64) 0 = Ret (p, hi, lo)"
    and "dl' = dl - (c_int l1 + of_nat b1)"
    unfolding Asn01_parseUnsignedInt64_def
    by (fastforce simp: Let_def elim!: obind_RetE split: if_splits prod.splits option.splits)
  then show ?thesis
    using parse_opaque_inside [OF l o s] consumed_word [of l1 b1 dl] shift_in_pair_RetD [OF sh] by simp
qed

lemma parseSignedInt64_consumes:
  assumes "Asn01_parseSignedInt64 mem dl cs = Ret (p, dl', v)"
  shows "p + unat dl' = unat dl"
proof -
  from assms obtain ty b l ty1 b1 l1 hi lo hi' lo' where l: "parse_len mem 1 dl = Ret (b, l)"
    and o: "parse_opaque mem dl ty b l {asnOPAQUE_I64} = Ret (Some (ty1, b1, l1))"
    and sh: "shift_in_pair (unat l1) mem b1 (hi :: u32) lo = Ret (p, hi', lo')"
    and "dl' = dl - (c_int l1 + of_nat b1)"
    unfolding Asn01_parseSignedInt64_def
    by (fastforce simp: Let_def elim!: obind_RetE split: if_splits prod.splits option.splits)
  then show ?thesis
    using parse_opaque_inside [OF l o] consumed_word [of l1 b1 dl] shift_in_pair_RetD [OF sh] by simp
qed

lemma contents_safe:
  assumes "parse_len mem 1 dl = Ret (b, l)" and "parse_opaque mem dl ty b l tags = Ret sp"
    and "(case sp of None \<Rightarrow> (ty, b, l) | Some r \<Rightarrow> r) = (ty1, b1, l1)"
    and "unat dl + 11 \<le> length mem"
  shows "safe (size_limit mem b1 l1)" and "safe (rd mem b1)"
    and "safe (shift_in_pair (unat l1) mem b1 hi lo)"
  using parse_opaque_inside [OF assms(1-3)] assms(4)
  by (simp_all add: size_limit_no_Crash shift_in_pair_no_Crash rd_Crash_iff safe_def)

lemma header_safe:
  assumes "unat dl + 11 \<le> length mem"
  shows "safe (rd mem 0)" and "safe (parse_len mem 1 dl)"
    and "parse_len mem 1 dl = Ret (b, l) \<Longrightarrow> safe (parse_opaque mem dl ty b l tags)"
    and "parse_len mem 1 dl = Ret (b, l) \<Longrightarrow> safe (rd mem b)"
    and "parse_len mem 1 dl = Ret (b, l) \<Longrightarrow> safe (rd mem (b + 1))"
proof -
  show "safe (rd mem 0)"
    using assms by (cases mem) (simp_all add: rd_def safe_def)
  show "safe (parse_len mem 1 dl)"
    using parse_len_slack [OF assms] by (simp add: safe_def)
  assume l: "parse_len mem 1 dl = Ret (b, l)"
  then show "safe (parse_opaque mem dl ty b l tags)"
    using parse_opaque_no_Crash [OF l assms] by (simp add: safe_def)
  show "safe (rd mem b)" and "safe (rd mem (b + 1))"
    using parse_len_RetD [OF l] assms by (simp_all add: safe_def rd_Crash_iff)
qed

lemma parseUnsignedInt64_in_bounds:
  assumes "unat dl + 11 \<le> length mem"
  shows "Asn01_parseUnsignedInt64 mem dl cs \<noteq> Crash"
proof -
  have "safe (Asn01_parseUnsignedInt64 mem dl cs)"
    unfolding Asn01_parseUnsignedInt64_def Let_def
    by (intro safe_intros header_safe [OF assms] contents_safe [OF _ _ _ assms]) auto
  then show ?thesis
    by (simp add: safe_def)
qed

lemma parseSignedInt64_in_bounds:
  assumes "unat dl + 11 \<le> length mem"
  shows "Asn01_parseSignedInt64 mem dl cs \<noteq> Crash"
proof -
  have "safe (Asn01_parseSignedInt64 mem dl cs)"
    unfolding Asn01_parseSignedInt64_def Let_def
    by (intro safe_intros header_safe [OF assms] contents_safe [OF _ _ _ assms]) auto
  then show ?thesis
    by (simp add: safe_def)
qed

interpretation counter64_codec: ber_codec "\<lambda>mem dl. Asn01_parseUnsignedInt64 mem dl 8"
  "\<lambda>dl (ty, x). Asn01_buildUnsignedInt64 dl ty x 8" "\<lambda>(ty, x). uint64_type ty" "\<lambda>p. p"
  by unfold_locales
    (auto simp: parseUnsignedInt64_consumes parseUnsignedInt64_in_bounds
      buildUnsignedInt64_capacity unsigned64_roundtrip)

interpretation int64_codec: ber_codec "\<lambda>mem dl. Asn01_parseSignedInt64 mem dl 8"
  "\<lambda>dl x. Asn01_buildSignedInt64 dl asnOPAQUE_I64 x 8" "\<lambda>_. True" "\<lambda>x. (asnOPAQUE_I64, x)"
  by unfold_locales
    (simp_all add: parseSignedInt64_consumes parseSignedInt64_in_bounds
      buildSignedInt64_capacity signed64_roundtrip)

end
