(* ===== verification/AsnRev.thy ===== *)
theory AsnRev
  imports AsnInt AsnString AsnOid AsnInt64
begin

text \<open>
  The reverse builders of src/Firmware/Core/Asn01.c (\<open>Asn01_realloc\<close>, \<open>Asn01_reallocRbuild*\<close>), which
  write a message from its end towards the front of a buffer that grows on demand
  (\<open>Memory_reallocIncrease\<close>, src/Firmware/Core/System/Util/Memory.c). The buffer is its bytes and
  the number of bytes already used at its end, \<open>*offset\<close>. An allocation of \<open>n\<close> bytes succeeds
  when \<open>ok n\<close>, and the bytes it adds are \<open>fresh\<close>; both are the environment's. A function returns
  the new buffer, \<open>Null\<close> where the code returns 0, and \<open>Crash\<close> for a write outside the buffer.
  What the buffer holds after an error return is not modelled.
\<close>

section \<open>The growing buffer\<close>

record rbuf =
  pkt :: "u8 list"
  offset :: nat

record heap_env =
  alloc_ok :: "nat \<Rightarrow> bool"
  fresh :: "nat \<Rightarrow> u8"

definition Memory_newLen :: "nat \<Rightarrow> nat" where
  "Memory_newLen bufLen =
     (if bufLen \<le> 255 then bufLen + 256
      else if bufLen > 255 \<and> bufLen \<le> 8191 then bufLen * 2
      else bufLen + 8192)"

definition Memory_reallocIncrease :: "heap_env \<Rightarrow> u8 list \<Rightarrow> u8 list option" where
  "Memory_reallocIncrease env buf =
     (let new_buf_len = Memory_newLen (length buf)
      in if alloc_ok env new_buf_len
         then Some (buf @ map (fresh env) [0..<new_buf_len - length buf])
         else None)"

text \<open>After the growth the old contents move to the end and the front is filled with blanks.\<close>

definition Asn01_realloc :: "heap_env \<Rightarrow> u8 list \<Rightarrow> u8 list option" where
  "Asn01_realloc env p =
     (case Memory_reallocIncrease env p of
        None \<Rightarrow> None
      | Some new \<Rightarrow>
          (let old_pkt_len = length p; added = length new - old_pkt_len;
               moved = take added new @ take old_pkt_len new
           in Some (replicate added 0x20 @ drop added moved)))"

text \<open>
  \<open>( *pkt_len - *offset )\<close>. An offset beyond the buffer makes it wrap, and the write that follows
  lands in front of the buffer.
\<close>

definition grow :: "heap_env \<Rightarrow> bool \<Rightarrow> rbuf \<Rightarrow> rbuf outcome" where
  "grow env r b =
     (if \<not> r then Null
      else case Asn01_realloc env (pkt b) of
        None \<Rightarrow> Null | Some p \<Rightarrow> Ret (b\<lparr>pkt := p\<rparr>))"

definition poke :: "u8 \<Rightarrow> rbuf \<Rightarrow> rbuf outcome" where
  "poke v b =
     (let off = offset b + 1
      in if length (pkt b) < off then Crash
         else Ret \<lparr>pkt = (pkt b)[length (pkt b) - off := v], offset = off\<rparr>)"

text \<open>The test for one byte of room that precedes a write, and the write.\<close>

definition put :: "heap_env \<Rightarrow> bool \<Rightarrow> u8 \<Rightarrow> rbuf \<Rightarrow> rbuf outcome" where
  "put env r v b =
     obind (if offset b \<le> length (pkt b) \<and> length (pkt b) - offset b < 1 then grow env r b else Ret b)
       (poke v)"

text \<open>The loop \<open>while ( ( *pkt_len - *offset ) < k )\<close> around the reallocation.\<close>

lemma Memory_newLen_larger: "length p < Memory_newLen (length p)"
  by (auto simp: Memory_newLen_def)

lemma realloc_length:
  "Asn01_realloc env p = Some p' \<Longrightarrow> length p' = Memory_newLen (length p)"
  using Memory_newLen_larger [of p]
  by (auto simp: Asn01_realloc_def Memory_reallocIncrease_def Let_def split: if_splits)

lemma grow_RetD: "grow env r b = Ret b' \<Longrightarrow> length (pkt b) < length (pkt b') \<and> offset b' = offset b"
  using realloc_length Memory_newLen_larger [of "pkt b"]
  by (fastforce simp: grow_def split: if_splits option.splits)

function need :: "heap_env \<Rightarrow> bool \<Rightarrow> nat \<Rightarrow> rbuf \<Rightarrow> rbuf outcome" where
  "need env r k b =
     (if offset b \<le> length (pkt b) \<and> length (pkt b) - offset b < k
      then (case grow env r b of Crash \<Rightarrow> Crash | Null \<Rightarrow> Null | Ret b' \<Rightarrow> need env r k b')
      else Ret b)"
  by pat_completeness auto
termination
  by (relation "measure (\<lambda>(env, r, k, b). offset b + k - length (pkt b))")
    (auto dest!: grow_RetD)

declare need.simps [simp del]

section \<open>The builders\<close>

lemma unat_drop_bit_less:
  assumes "x \<noteq> 0" and "0 < n"
  shows "unat (drop_bit n (x :: 'a::len word)) < unat x"
proof -
  have "unat (drop_bit n x) = unat x div 2 ^ n"
    using unat_lt2p [of x]
    by (simp only: unsigned_drop_bit_eq) (simp add: drop_bit_eq_div take_bit_nat_def)
  moreover have "1 < (2 :: nat) ^ n"
    using assms(2) by (rule one_less_power [rotated]) simp
  ultimately show ?thesis
    using assms(1) by (simp add: unat_gt_0)
qed

lemma drop_bit_8_less: "len > 0xff \<Longrightarrow> unat (drop_bit 8 (len :: u64)) < unat len"
proof -
  assume "len > 0xff"
  then show ?thesis
    by (intro unat_drop_bit_less) auto
qed

text \<open>The bytes of a length above 127, least significant first, until at most 255 is left.\<close>

function rlength_loop :: "heap_env \<Rightarrow> bool \<Rightarrow> size_t \<Rightarrow> rbuf \<Rightarrow> (size_t \<times> rbuf) outcome" where
  "rlength_loop env r len b =
     (if len > 0xff then
        obind (put env r (ucast (len AND 0xff)) b) (rlength_loop env r (drop_bit 8 len))
      else Ret (len, b))"
  by pat_completeness auto
termination
  by (relation "measure (\<lambda>(env, r, len, b). unat len)") (auto dest: drop_bit_8_less)

declare rlength_loop.simps [simp del]

definition Asn01_reallocRbuildLength ::
    "heap_env \<Rightarrow> bool \<Rightarrow> size_t \<Rightarrow> rbuf \<Rightarrow> rbuf outcome" where
  "Asn01_reallocRbuildLength env r len b =
     (if len \<le> 0x7f then put env r (ucast len) b
      else obind (rlength_loop env r len b) (\<lambda>(len1, b1).
        obind (need env r 2 b1) (\<lambda>b2.
        obind (poke (ucast (len1 AND 0xff)) b2) (\<lambda>b3.
          poke (of_nat (offset b3 - offset b) OR 0x80) b3))))"

definition Asn01_reallocBuildHeader ::
    "heap_env \<Rightarrow> bool \<Rightarrow> u8 \<Rightarrow> size_t \<Rightarrow> rbuf \<Rightarrow> rbuf outcome" where
  "Asn01_reallocBuildHeader env r type len b =
     obind (Asn01_reallocRbuildLength env r len b) (put env r type)"

definition Asn01_reallocBuildHeaderCheck :: "rbuf \<Rightarrow> nat \<Rightarrow> bool" where
  "Asn01_reallocBuildHeaderCheck b typedLength \<longleftrightarrow> length (pkt b) < typedLength"

text \<open>The last byte written, and the byte of signs in front of it when its top bit is wrong.\<close>

definition peek :: "rbuf \<Rightarrow> u8 outcome" where
  "peek b = (if offset b = 0 \<or> length (pkt b) < offset b then Crash
             else Ret (pkt b ! (length (pkt b) - offset b)))"

definition fix_sign :: "heap_env \<Rightarrow> bool \<Rightarrow> u8 \<Rightarrow> rbuf \<Rightarrow> rbuf outcome" where
  "fix_sign env r testvalue b =
     obind (peek b) (\<lambda>top.
       if top AND 0x80 \<noteq> testvalue AND 0x80 then put env r testvalue b else Ret b)"

text \<open>
  The loops over the remaining bytes of an integer. A 64-bit integer is used up after eight of
  them, so the fuel of eight never runs out.
\<close>

fun rint_loop :: "nat \<Rightarrow> heap_env \<Rightarrow> bool \<Rightarrow> u64 \<Rightarrow> u64 \<Rightarrow> rbuf \<Rightarrow> rbuf outcome" where
  "rint_loop n env r testvalue integer b =
     (if integer = testvalue then Ret b
      else case n of 0 \<Rightarrow> Crash
      | Suc m \<Rightarrow> obind (put env r (ucast integer) b)
                  (rint_loop m env r testvalue (signed_drop_bit 8 integer)))"

declare rint_loop.simps [simp del]

definition Asn01_reallocRbuildInt ::
    "heap_env \<Rightarrow> bool \<Rightarrow> u8 \<Rightarrow> u64 \<Rightarrow> size_t \<Rightarrow> rbuf \<Rightarrow> rbuf outcome" where
  "Asn01_reallocRbuildInt env r type intp intsize b =
     (if intsize \<noteq> 8 then Null
      else
        (let integer = asnCHECK_OVERFLOW_SIGNED intp;
             testvalue = (if sint integer < 0 then -1 else 0)
         in obind (put env r (ucast integer) b) (\<lambda>b1.
            obind (rint_loop 8 env r testvalue (signed_drop_bit 8 integer) b1) (\<lambda>b2.
            obind (fix_sign env r (ucast testvalue) b2) (\<lambda>b3.
            obind (Asn01_reallocBuildHeader env r type (of_nat (offset b3 - offset b)) b3) (\<lambda>b4.
              if Asn01_reallocBuildHeaderCheck b4 (offset b4 - offset b) then Null else Ret b4))))))"

text \<open>\<open>memcpy\<close> in front of what is there.\<close>

definition poke_block :: "u8 list \<Rightarrow> rbuf \<Rightarrow> rbuf outcome" where
  "poke_block bs b =
     (let off = offset b + length bs; at = length (pkt b) - off
      in if length (pkt b) < off then Crash
         else Ret \<lparr>pkt = take at (pkt b) @ bs @ drop (at + length bs) (pkt b), offset = off\<rparr>)"

definition Asn01_reallocRbuildString ::
    "heap_env \<Rightarrow> bool \<Rightarrow> u8 \<Rightarrow> u8 list \<Rightarrow> size_t \<Rightarrow> rbuf \<Rightarrow> rbuf outcome" where
  "Asn01_reallocRbuildString env r type str strlength b =
     obind (need env r (unat strlength) b) (\<lambda>b1.
     obind (rd_block str 0 (unat strlength)) (\<lambda>bs.
     obind (poke_block bs b1) (\<lambda>b2.
     obind (Asn01_reallocBuildHeader env r type strlength b2) (\<lambda>b3.
       if Asn01_reallocBuildHeaderCheck b3 (unat strlength) then Null else Ret b3))))"

definition Asn01_reallocRbuildBitstring ::
    "heap_env \<Rightarrow> bool \<Rightarrow> u8 \<Rightarrow> u8 list \<Rightarrow> size_t \<Rightarrow> rbuf \<Rightarrow> rbuf outcome" where
  "Asn01_reallocRbuildBitstring env r type str strlength b =
     obind (need env r (unat strlength) b) (\<lambda>b1.
     obind (rd_block str 0 (unat strlength)) (\<lambda>bs.
     obind (poke_block bs b1) (\<lambda>b2.
     obind (Asn01_reallocBuildHeader env r type strlength b2) (\<lambda>b3.
       if Asn01_reallocBuildHeaderCheck b3 (unat strlength) then Null else Ret b3))))"

text \<open>The loops over the bytes of an unsigned value; the first result counts the passes.\<close>

function ruint_loop :: "heap_env \<Rightarrow> bool \<Rightarrow> u64 \<Rightarrow> nat \<Rightarrow> rbuf \<Rightarrow> (nat \<times> rbuf) outcome" where
  "ruint_loop env r integer count b =
     (if integer \<noteq> 0 then
        obind (put env r (ucast integer) b) (ruint_loop env r (drop_bit 8 integer) (count + 1))
      else Ret (count, b))"
  by pat_completeness auto
termination
  by (relation "measure (\<lambda>(env, r, integer, count, b). unat integer)")
    (auto intro: unat_drop_bit_less)

declare ruint_loop.simps [simp del]

definition Asn01_reallocRbuildUnsignedInt ::
    "heap_env \<Rightarrow> bool \<Rightarrow> u8 \<Rightarrow> u64 \<Rightarrow> size_t \<Rightarrow> rbuf \<Rightarrow> rbuf outcome" where
  "Asn01_reallocRbuildUnsignedInt env r type intp intsize b =
     (if intsize \<noteq> 8 then Null
      else
        (let integer = asnCHECK_OVERFLOW_UNSIGNED intp
         in obind (put env r (ucast integer) b) (\<lambda>b1.
            obind (ruint_loop env r (drop_bit 8 integer) 1 b1) (\<lambda>(_, b2).
            obind (fix_sign env r 0 b2) (\<lambda>b3.
            obind (Asn01_reallocBuildHeader env r type (of_nat (offset b3 - offset b)) b3) (\<lambda>b4.
              if Asn01_reallocBuildHeaderCheck b4 (offset b4 - offset b) then Null else Ret b4))))))"

definition Asn01_reallocRbuildSequence ::
    "heap_env \<Rightarrow> bool \<Rightarrow> u8 \<Rightarrow> size_t \<Rightarrow> rbuf \<Rightarrow> rbuf outcome" where
  "Asn01_reallocRbuildSequence env r type len b = Asn01_reallocBuildHeader env r type len b"

definition Asn01_reallocRbuildNull :: "heap_env \<Rightarrow> bool \<Rightarrow> u8 \<Rightarrow> rbuf \<Rightarrow> rbuf outcome" where
  "Asn01_reallocRbuildNull env r type b = Asn01_reallocBuildHeader env r type 0 b"

text \<open>One sub-identifier, and the loop over all but the first two, from the last.\<close>

function rsubid_loop :: "heap_env \<Rightarrow> bool \<Rightarrow> oid \<Rightarrow> rbuf \<Rightarrow> rbuf outcome" where
  "rsubid_loop env r tmpint b =
     (if tmpint > 0 then
        obind (put env r (ucast ((tmpint AND 0x7f) OR 0x80)) b) (rsubid_loop env r (drop_bit 7 tmpint))
      else Ret b)"
  by pat_completeness auto
termination
  by (relation "measure (\<lambda>(env, r, tmpint, b). unat tmpint)")
    (auto intro: unat_drop_bit_less)

declare rsubid_loop.simps [simp del]

definition rsubid :: "heap_env \<Rightarrow> bool \<Rightarrow> oid \<Rightarrow> rbuf \<Rightarrow> rbuf outcome" where
  "rsubid env r tmpint b =
     obind (put env r (ucast tmpint AND 0x7f) b) (rsubid_loop env r (drop_bit 7 tmpint))"

fun robjid_loop :: "heap_env \<Rightarrow> bool \<Rightarrow> oid list \<Rightarrow> nat \<Rightarrow> rbuf \<Rightarrow> rbuf outcome" where
  "robjid_loop env r objid 0 b = Ret b"
| "robjid_loop env r objid (Suc i) b =
     (if Suc i > 2 then
        obind (rd_oid objid i) (\<lambda>tmpint.
        obind (rsubid env r tmpint b) (robjid_loop env r objid i))
      else Ret b)"

definition Asn01_reallocRbuildObjid ::
    "heap_env \<Rightarrow> bool \<Rightarrow> u8 \<Rightarrow> oid list \<Rightarrow> nat \<Rightarrow> rbuf \<Rightarrow> rbuf outcome" where
  "Asn01_reallocRbuildObjid env r type objid objidlength b =
     obind
       (if objidlength = 0 then
          obind (need env r 2 b) (\<lambda>b1. obind (poke 0 b1) (poke 0))
        else obind (rd_oid objid 0) (\<lambda>o0.
          if o0 > 2 then Null
          else if objidlength = 1 then put env r (ucast o0) b
          else obind (robjid_loop env r objid objidlength b) (\<lambda>b1.
            obind (rd_oid objid 1) (\<lambda>o1.
              if o1 > 40 \<and> o0 < 2 then Null
              else rsubid env r (o0 * 40 + o1) b1))))
       (\<lambda>b2.
         obind (Asn01_reallocBuildHeader env r type (of_nat (offset b2 - offset b)) b2) (\<lambda>b3.
           if Asn01_reallocBuildHeaderCheck b3 (offset b3 - offset b) then Null else Ret b3))"

text \<open>The Opaque wrapper of the 64-bit types.\<close>

definition rbuild_opaque :: "heap_env \<Rightarrow> bool \<Rightarrow> u8 \<Rightarrow> nat \<Rightarrow> rbuf \<Rightarrow> rbuf outcome" where
  "rbuild_opaque env r tag intsize b =
     obind (need env r 5 b) (\<lambda>b1.
     obind (poke (of_nat intsize) b1) (\<lambda>b2.
     obind (poke tag b2) (\<lambda>b3.
     obind (poke asnOPAQUE_TAG1 b3) (\<lambda>b4.
     obind (Asn01_reallocBuildHeader env r asnOPAQUE (of_nat intsize + 3) b4) (\<lambda>b5.
       if Asn01_reallocBuildHeaderCheck b5 (intsize + 3) then Null else Ret b5)))))"

fun rpad :: "nat \<Rightarrow> heap_env \<Rightarrow> bool \<Rightarrow> u8 \<Rightarrow> rbuf \<Rightarrow> rbuf outcome" where
  "rpad 0 env r v b = Ret b"
| "rpad (Suc n) env r v b = obind (put env r v b) (rpad n env r v)"

definition Asn01_reallocRbuildUnsignedInt64 ::
    "heap_env \<Rightarrow> bool \<Rightarrow> u8 \<Rightarrow> Integer64 \<Rightarrow> size_t \<Rightarrow> rbuf \<Rightarrow> rbuf outcome" where
  "Asn01_reallocRbuildUnsignedInt64 env r type cp countersize b =
     (if countersize \<noteq> 8 then Null
      else
        (let hi = asnCHECK_OVERFLOW_UNSIGNED (ucast (high cp));
             lo = asnCHECK_OVERFLOW_UNSIGNED (ucast (low cp))
         in obind (put env r (ucast lo) b) (\<lambda>b1.
            obind (ruint_loop env r (drop_bit 8 lo) 1 b1) (\<lambda>(count, b2).
            obind (if hi \<noteq> 0 then
                     obind (rpad (4 - count) env r 0 b2) (\<lambda>b3.
                     obind (put env r (ucast hi) b3) (\<lambda>b4.
                     obind (ruint_loop env r (drop_bit 8 hi) 1 b4) (\<lambda>(_, b5). Ret b5)))
                   else Ret b2) (\<lambda>b6.
            obind (fix_sign env r 0 b6) (\<lambda>b7.
            let intsize = offset b7 - offset b
            in if type = asnOPAQUE_COUNTER64 then rbuild_opaque env r asnOPAQUE_COUNTER64 intsize b7
               else if type = asnOPAQUE_U64 then rbuild_opaque env r asnOPAQUE_U64 intsize b7
               else obind (Asn01_reallocBuildHeader env r type (of_nat intsize) b7) (\<lambda>b8.
                 if Asn01_reallocBuildHeaderCheck b8 intsize then Null else Ret b8)))))))"

text \<open>
  The signed builder's halves are \<open>int32_t\<close>. The first loop runs over at most three more bytes of
  the low half, the second over at most three more of the high half (fuel four).
\<close>

fun rlow_loop :: "nat \<Rightarrow> heap_env \<Rightarrow> bool \<Rightarrow> u32 \<Rightarrow> u32 \<Rightarrow> rbuf \<Rightarrow> (nat \<times> rbuf) outcome" where
  "rlow_loop 0 env r testvalue lo b = Ret (0, b)"
| "rlow_loop (Suc k) env r testvalue lo b =
     (if lo \<noteq> testvalue then
        obind (put env r (ucast lo) b) (rlow_loop k env r testvalue (signed_drop_bit 8 lo))
      else Ret (Suc k, b))"

fun rhigh_loop :: "nat \<Rightarrow> heap_env \<Rightarrow> bool \<Rightarrow> u32 \<Rightarrow> u32 \<Rightarrow> rbuf \<Rightarrow> rbuf outcome" where
  "rhigh_loop n env r testvalue hi b =
     (if hi = testvalue then Ret b
      else case n of 0 \<Rightarrow> Crash
      | Suc m \<Rightarrow> obind (put env r (ucast hi) b)
                  (rhigh_loop m env r testvalue (signed_drop_bit 8 hi)))"

declare rhigh_loop.simps [simp del]

definition Asn01_reallocRbuildSignedInt64 ::
    "heap_env \<Rightarrow> bool \<Rightarrow> u8 \<Rightarrow> Integer64 \<Rightarrow> size_t \<Rightarrow> rbuf \<Rightarrow> rbuf outcome" where
  "Asn01_reallocRbuildSignedInt64 env r type cp countersize b =
     (if countersize \<noteq> 8 then Null
      else
        (let lo = low cp; hi = high cp;
             testvalue = (if hi AND 0x80000000 \<noteq> 0 then -1 else 0);
             pad = (if testvalue = 0 then 0 else 0xff)
         in obind (put env r (ucast lo) b) (\<lambda>b1.
            obind (rlow_loop 3 env r testvalue (signed_drop_bit 8 lo) b1) (\<lambda>(left, b2).
            obind (if hi \<noteq> testvalue then
                     obind (rpad left env r pad b2) (\<lambda>b3.
                     obind (put env r (ucast hi) b3) (\<lambda>b4.
                       rhigh_loop 4 env r testvalue (signed_drop_bit 8 hi) b4))
                   else Ret b2) (\<lambda>b5.
            obind (fix_sign env r pad b5) (\<lambda>b6.
              rbuild_opaque env r asnOPAQUE_I64 (offset b6 - offset b) b6))))))"

section \<open>What a builder prepends\<close>

text \<open>The bytes written so far, the room in front of them, and the state the builders keep.\<close>

definition written :: "rbuf \<Rightarrow> u8 list" where
  "written b = drop (length (pkt b) - offset b) (pkt b)"

definition room :: "rbuf \<Rightarrow> nat" where
  "room b = length (pkt b) - offset b"

definition rbuf_ok :: "rbuf \<Rightarrow> bool" where
  "rbuf_ok b \<longleftrightarrow> offset b \<le> length (pkt b)"

lemma length_written [simp]: "rbuf_ok b \<Longrightarrow> length (written b) = offset b"
  by (simp add: written_def rbuf_ok_def)

text \<open>
  \<open>prepends k growing f xs\<close>: from a good buffer with room for \<open>k\<close> bytes, \<open>f\<close> stays inside it; when
  it returns it has put \<open>xs\<close> in front of what was written and kept the rest; and it fails only when
  there was no room for \<open>xs\<close> and the buffer could not grow.
\<close>

definition prepends :: "nat \<Rightarrow> bool \<Rightarrow> (rbuf \<Rightarrow> rbuf outcome) \<Rightarrow> u8 list \<Rightarrow> bool" where
  "prepends k growing f xs \<longleftrightarrow> (\<forall>b. rbuf_ok b \<longrightarrow> k \<le> room b \<longrightarrow>
     (case f b of
        Crash \<Rightarrow> False
      | Null \<Rightarrow> room b < length xs \<and> \<not> growing
      | Ret b' \<Rightarrow> rbuf_ok b' \<and> written b' = xs @ written b \<and> room b \<le> room b' + length xs))"

lemma prependsI:
  assumes "\<And>b. rbuf_ok b \<Longrightarrow> k \<le> room b \<Longrightarrow> f b \<noteq> Crash"
    and "\<And>b. rbuf_ok b \<Longrightarrow> k \<le> room b \<Longrightarrow> f b = Null \<Longrightarrow> room b < length xs \<and> \<not> growing"
    and "\<And>b b'. rbuf_ok b \<Longrightarrow> k \<le> room b \<Longrightarrow> f b = Ret b' \<Longrightarrow>
      rbuf_ok b' \<and> written b' = xs @ written b \<and> room b \<le> room b' + length xs"
  shows "prepends k growing f xs"
  unfolding prepends_def using assms by (auto split: outcome.split)

lemma prependsD:
  assumes "prepends k growing f xs" and "rbuf_ok b" and "k \<le> room b"
  shows "f b \<noteq> Crash" and "f b = Null \<Longrightarrow> room b < length xs \<and> \<not> growing"
    and "f b = Ret b' \<Longrightarrow> rbuf_ok b' \<and> written b' = xs @ written b \<and> room b \<le> room b' + length xs"
  using assms unfolding prepends_def by (auto dest: spec [of _ b])

lemma prepends_offset:
  assumes "prepends k growing f xs" and "rbuf_ok b" and "k \<le> room b" and "f b = Ret b'"
  shows "offset b' = offset b + length xs"
proof -
  note P = prependsD(3) [OF assms]
  then have "length (written b') = length xs + length (written b)"
    by simp
  moreover have "length (written b') = offset b'"
    using P by (intro length_written) simp
  ultimately show ?thesis
    using assms(2) by simp
qed

lemma prepends_Ret [simp]: "prepends k growing Ret []"
  by (rule prependsI) auto

lemma prepends_weaken: "prepends j growing f xs \<Longrightarrow> j \<le> k \<Longrightarrow> prepends k growing f xs"
  unfolding prepends_def by (meson le_trans)

lemma prepends_cong:
  assumes "prepends k growing f xs" and "\<And>b. rbuf_ok b \<Longrightarrow> g b = f b"
  shows "prepends k growing g xs"
  using assms by (simp add: prepends_def)

lemma prepends_cong2:
  "prepends k growing f xs \<Longrightarrow> (\<And>b. rbuf_ok b \<Longrightarrow> g b = f b) \<Longrightarrow> ys = xs \<Longrightarrow> prepends k growing g ys"
  using prepends_cong by blast

text \<open>One builder after another; what the first leaves is room enough for the second.\<close>

lemma prepends_bind:
  assumes f: "prepends k growing f xs" and g: "prepends j growing g ys" and "j + length xs \<le> k \<or> j = 0"
  shows "prepends k growing (\<lambda>b. obind (f b) g) (ys @ xs)"
  unfolding prepends_def
proof (intro allI impI)
  fix b
  assume b: "rbuf_ok b" "k \<le> room b"
  show "case obind (f b) g of Crash \<Rightarrow> False | Null \<Rightarrow> room b < length (ys @ xs) \<and> \<not> growing
      | Ret b' \<Rightarrow> rbuf_ok b' \<and> written b' = (ys @ xs) @ written b \<and> room b \<le> room b' + length (ys @ xs)"
  proof (cases "f b")
    case (Ret b1)
    note F = prependsD(3) [OF f b Ret]
    then have b1: "rbuf_ok b1" "j \<le> room b1"
      using assms(3) b(2) by auto
    show ?thesis
    proof (cases "g b1")
      case (Ret b2)
      then show ?thesis
        using prependsD(3) [OF g b1 Ret] F \<open>f b = Ret b1\<close> by simp
    next
      case Null
      then show ?thesis
        using prependsD(2) [OF g b1 Null] F \<open>f b = Ret b1\<close> by simp
    qed (use prependsD(1) [OF g b1] in simp)
  next
    case Null
    then show ?thesis
      using prependsD(2) [OF f b Null] by simp
  qed (use prependsD(1) [OF f b] in simp)
qed

text \<open>The second may use the state before the first, for the number of bytes in between.\<close>

lemma prepends_bind_from:
  assumes f: "prepends k growing f xs"
    and g: "\<And>b b'. rbuf_ok b \<Longrightarrow> k \<le> room b \<Longrightarrow> f b = Ret b' \<Longrightarrow>
      offset b' = offset b + length xs \<Longrightarrow> rbuf_ok b' \<Longrightarrow> g b b' = h b'"
    and h: "prepends j growing h ys" and "j + length xs \<le> k \<or> j = 0"
  shows "prepends k growing (\<lambda>b. obind (f b) (g b)) (ys @ xs)"
proof -
  have "obind (f b) (g b) = obind (f b) h" if b: "rbuf_ok b" "k \<le> room b" for b
  proof (cases "f b")
    case (Ret b1)
    then show ?thesis
      using g [OF b Ret prepends_offset [OF f b Ret]] prependsD(3) [OF f b Ret] by simp
  qed simp_all
  then show ?thesis
    using prepends_bind [OF f h assms(4)] unfolding prepends_def by simp
qed

section \<open>The primitive writes\<close>

definition can_grow :: "heap_env \<Rightarrow> bool \<Rightarrow> bool" where
  "can_grow env r \<longleftrightarrow> r \<and> (\<forall>n. alloc_ok env n)"

text \<open>Growing keeps what was written at the end of the buffer.\<close>

lemma realloc_Some:
  assumes "Asn01_realloc env p = Some p'"
  shows "p' = replicate (Memory_newLen (length p) - length p) 0x20 @ p"
  using assms by (auto simp: Asn01_realloc_def Memory_reallocIncrease_def Let_def split: if_splits)

lemma grow_ok:
  assumes "rbuf_ok b" and "grow env r b = Ret b'"
  shows "rbuf_ok b'" and "written b' = written b" and "room b < room b'" and "256 \<le> room b'"
proof -
  obtain p where p: "Asn01_realloc env (pkt b) = Some p" "b' = b\<lparr>pkt := p\<rparr>"
    using assms(2) by (auto simp: grow_def split: if_splits option.splits)
  note r = realloc_Some [OF p(1)]
  have "256 \<le> Memory_newLen (length (pkt b)) - length (pkt b)"
    by (auto simp: Memory_newLen_def)
  then show "rbuf_ok b'" and "written b' = written b" and "room b < room b'" and "256 \<le> room b'"
    using assms(1) p(2) by (auto simp: r rbuf_ok_def written_def room_def)
qed

lemma grow_fails: "grow env r b \<noteq> Crash" "grow env r b = Null \<Longrightarrow> \<not> can_grow env r"
  by (auto simp: grow_def can_grow_def Asn01_realloc_def Memory_reallocIncrease_def Let_def
      split: if_splits option.splits)

text \<open>Making room before a write, once or in a loop.\<close>

definition reserves :: "nat \<Rightarrow> bool \<Rightarrow> (rbuf \<Rightarrow> rbuf outcome) \<Rightarrow> bool" where
  "reserves k growing m \<longleftrightarrow> (\<forall>b. rbuf_ok b \<longrightarrow>
     (case m b of
        Crash \<Rightarrow> False
      | Null \<Rightarrow> room b < k \<and> \<not> growing
      | Ret b' \<Rightarrow> rbuf_ok b' \<and> written b' = written b \<and> room b \<le> room b' \<and> k \<le> room b'))"

lemma reserves_one:
  "reserves 1 (can_grow env r)
     (\<lambda>b. if offset b \<le> length (pkt b) \<and> length (pkt b) - offset b < 1 then grow env r b else Ret b)"
proof -
  have "rbuf_ok b' \<and> written b' = written b \<and> room b \<le> room b' \<and> 1 \<le> room b'"
    if "grow env r b = Ret b'" "rbuf_ok b" for b b'
    using grow_ok [OF that(2,1)] by simp
  then show ?thesis
    using grow_fails by (auto simp: reserves_def room_def rbuf_ok_def split: outcome.split)
qed

lemma reserves_need: "reserves k (can_grow env r) (need env r k)"
proof -
  have "case need env r k b of Crash \<Rightarrow> False | Null \<Rightarrow> room b < k \<and> \<not> can_grow env r
      | Ret b' \<Rightarrow> rbuf_ok b' \<and> written b' = written b \<and> room b \<le> room b' \<and> k \<le> room b'"
    if "rbuf_ok b" for b
    using that
  proof (induction env r k b rule: need.induct)
    case (1 env r k b)
    show ?case
    proof (cases "room b < k")
      case True
      then have c: "offset b \<le> length (pkt b) \<and> length (pkt b) - offset b < k"
        using 1(2) by (simp add: rbuf_ok_def room_def)
      show ?thesis
      proof (cases "grow env r b")
        case (Ret b1)
        note G = grow_ok [OF 1(2) Ret]
        have "need env r k b = need env r k b1"
          using c Ret by (subst need.simps) simp
        then show ?thesis
          using 1(1) [OF c Ret G(1)] G by (auto split: outcome.splits)
      qed (use c True grow_fails [of env r b] in \<open>subst need.simps, simp\<close>)+
    next
      case False
      then show ?thesis
        using 1(2) by (subst need.simps) (simp add: room_def)
    qed
  qed
  then show ?thesis
    by (simp add: reserves_def)
qed

lemma prepends_reserve:
  assumes m: "reserves k growing m" and f: "prepends k growing f xs" and "k \<le> length xs"
  shows "prepends 0 growing (\<lambda>b. obind (m b) f) xs"
  unfolding prepends_def
proof (intro allI impI)
  fix b
  assume "rbuf_ok b"
  then have R: "case m b of Crash \<Rightarrow> False | Null \<Rightarrow> room b < k \<and> \<not> growing
      | Ret b' \<Rightarrow> rbuf_ok b' \<and> written b' = written b \<and> room b \<le> room b' \<and> k \<le> room b'"
    using m by (simp add: reserves_def)
  show "case obind (m b) f of Crash \<Rightarrow> False | Null \<Rightarrow> room b < length xs \<and> \<not> growing
      | Ret b' \<Rightarrow> rbuf_ok b' \<and> written b' = xs @ written b \<and> room b \<le> room b' + length xs"
  proof (cases "m b")
    case (Ret b1)
    then have b1: "rbuf_ok b1" "k \<le> room b1" "written b1 = written b" "room b \<le> room b1"
      using R by auto
    show ?thesis
      using prependsD [OF f b1(1,2)] b1 Ret by (cases "f b1") auto
  qed (use R assms(3) in auto)
qed

lemma poke_ok:
  assumes "rbuf_ok b" and "1 \<le> room b"
  shows "\<exists>b'. poke v b = Ret b' \<and> rbuf_ok b' \<and> written b' = v # written b \<and> room b = room b' + 1"
proof -
  let ?i = "length (pkt b) - (offset b + 1)"
  have i: "offset b + 1 \<le> length (pkt b)"
    using assms by (simp add: rbuf_ok_def room_def)
  then have "?i < length (pkt b)" by simp
  then have "drop ?i ((pkt b)[?i := v]) = v # drop (Suc ?i) (pkt b)"
    by (simp add: Cons_nth_drop_Suc [symmetric])
  moreover have "Suc ?i = length (pkt b) - offset b"
    using i by simp
  ultimately show ?thesis
    using i by (simp add: poke_def rbuf_ok_def written_def room_def)
qed

lemma poke_offset: "poke v b = Ret b' \<Longrightarrow> offset b' = Suc (offset b)"
  by (auto simp: poke_def Let_def split: if_splits)

lemma need_offset: "need env r k b = Ret b' \<Longrightarrow> offset b' = offset b"
proof (induction env r k b rule: need.induct)
  case (1 env r k b)
  show ?case
  proof (cases "offset b \<le> length (pkt b) \<and> length (pkt b) - offset b < k")
    case True
    then obtain b1 where "grow env r b = Ret b1" and "need env r k b1 = Ret b'"
      using 1(2) by (subst (asm) need.simps) (auto split: outcome.splits)
    then show ?thesis
      using 1(1) [OF True] grow_RetD by fastforce
  next
    case False
    then show ?thesis
      using 1(2) by (subst (asm) need.simps) auto
  qed
qed

lemma prepends_poke: "prepends 1 g (poke v) [v]"
  by (rule prependsI) (use poke_ok [of _ v] in fastforce)+

lemma prepends_put: "prepends 0 (can_grow env r) (put env r v) [v]"
  unfolding put_def by (rule prepends_reserve [OF reserves_one prepends_poke]) simp

lemma prepends_poke_block: "prepends (length bs) g (poke_block bs) bs"
proof (rule prependsI)
  fix b
  assume b: "rbuf_ok b" "length bs \<le> room b"
  then have i: "offset b + length bs \<le> length (pkt b)"
    by (simp add: rbuf_ok_def room_def)
  then show "poke_block bs b \<noteq> Crash" and "poke_block bs b = Null \<Longrightarrow> room b < length bs \<and> \<not> g"
    by (simp_all add: poke_block_def Let_def)
  show "rbuf_ok b' \<and> written b' = bs @ written b \<and> room b \<le> room b' + length bs"
    if "poke_block bs b = Ret b'" for b'
    using that i by (auto simp: poke_block_def Let_def rbuf_ok_def written_def room_def add.commute)
qed

text \<open>A sequence of single bytes: the last one put ends up in front.\<close>

fun puts :: "heap_env \<Rightarrow> bool \<Rightarrow> u8 list \<Rightarrow> rbuf \<Rightarrow> rbuf outcome" where
  "puts env r [] b = Ret b"
| "puts env r (v # vs) b = obind (put env r v b) (puts env r vs)"

lemma puts_append: "puts env r (vs @ ws) b = obind (puts env r vs b) (puts env r ws)"
proof (induction vs arbitrary: b)
  case (Cons v vs)
  then show ?case
    by (cases "put env r v b") simp_all
qed simp

lemma prepends_puts: "prepends 0 (can_grow env r) (puts env r vs) (rev vs)"
proof (induction vs)
  case Nil
  have "puts env r [] = Ret"
    by (rule ext) simp
  then show ?case by simp
next
  case (Cons v vs)
  have "prepends 0 (can_grow env r) (\<lambda>b. obind (put env r v b) (puts env r vs)) (rev vs @ [v])"
    by (rule prepends_bind [OF prepends_put Cons]) simp
  then show ?case by simp
qed

lemma rpad_puts: "rpad n env r v b = puts env r (replicate n v) b"
proof (induction n arbitrary: b)
  case (Suc n)
  then show ?case
    by (cases "put env r v b") simp_all
qed simp

text \<open>The bytes a loop writes that shifts its value by \<open>f\<close> after each one.\<close>

fun shifted :: "('a::len word \<Rightarrow> 'a word) \<Rightarrow> nat \<Rightarrow> 'a word \<Rightarrow> u8 list" where
  "shifted f 0 x = []"
| "shifted f (Suc n) x = ucast x # shifted f n (f x)"

lemma length_shifted [simp]: "length (shifted f n x) = n"
  by (induction n arbitrary: x) simp_all

lemma shifted_add: "shifted f (m + n) x = shifted f m x @ shifted f n ((f ^^ m) x)"
  by (induction m arbitrary: x) (simp_all add: funpow_swap1)

lemma shifted_last: "0 < n \<Longrightarrow> last (shifted f n x) = ucast ((f ^^ (n - 1)) x)"
  using shifted_add [of f "n - 1" 1 x] by simp

lemma be_bytes_snoc: "be_bytes (Suc n) x = be_bytes n (drop_bit 8 x) @ [ucast x]"
  by (induction n) (simp_all add: drop_bit_drop_bit add.commute)

lemma shifted_be_bytes: "rev (shifted (drop_bit 8) n x) = be_bytes n x"
  by (induction n arbitrary: x) (simp_all add: be_bytes_snoc del: be_bytes.simps(2))

lemma be_bytes_from_top: "be_bytes (Suc n) x = ucast (drop_bit (8 * n) x) # be_bytes n x"
  by simp

section \<open>Lengths and headers\<close>

lemma funpow_drop_bit: "(drop_bit k ^^ n) (x :: 'a::len word) = drop_bit (k * n) x"
  by (induction n) (simp_all add: drop_bit_drop_bit add.commute)

lemma ucast_and_ff: "ucast ((x :: u64) AND 0xff) = (ucast x :: u8)"
proof -
  have "x AND 0xff = take_bit 8 x"
    by (simp add: take_bit_eq_mask mask_eq_exp_minus_1)
  then show ?thesis
    by (intro bit_word_eqI) (simp add: bit_simps)
qed

text \<open>How many bytes beyond the last the length loop writes.\<close>

lemma rlength_loop_puts:
  "\<exists>m. (\<forall>env r b. rlength_loop env r len b =
      obind (puts env r (shifted (drop_bit 8) m len) b) (\<lambda>b'. Ret (drop_bit (8 * m) len, b'))) \<and>
    drop_bit (8 * m) len \<le> 0xff \<and> (\<forall>k < m. 0xff < drop_bit (8 * k) len)"
proof (induction len rule: measure_induct_rule [of unat])
  case (less len)
  show ?case
  proof (cases "0xff < len")
    case True
    then obtain m where m: "\<forall>env r b. rlength_loop env r (drop_bit 8 len) b =
        obind (puts env r (shifted (drop_bit 8) m (drop_bit 8 len)) b)
          (\<lambda>b'. Ret (drop_bit (8 * m) (drop_bit 8 len), b'))"
      and le: "drop_bit (8 * m) (drop_bit 8 len) \<le> 0xff"
      and low: "\<forall>k < m. 0xff < drop_bit (8 * k) (drop_bit 8 len)"
      using less.IH [OF drop_bit_8_less] by blast
    have byte: "ucast (len AND 0xff) = (ucast len :: u8)"
      by (rule ucast_and_ff)
    have "rlength_loop env r len b = obind (puts env r (shifted (drop_bit 8) (Suc m) len) b)
        (\<lambda>b'. Ret (drop_bit (8 * Suc m) len, b'))" for env r b
      using True by (subst rlength_loop.simps, cases "put env r (ucast len) b")
        (simp_all add: m byte drop_bit_drop_bit add.commute)
    moreover have "0xff < drop_bit (8 * k) len" if "k < Suc m" for k
      using that low True by (cases k) (simp_all add: drop_bit_drop_bit add.commute)
    moreover have "drop_bit (8 * Suc m) len \<le> 0xff"
      using le by (simp add: drop_bit_drop_bit add.commute)
    ultimately show ?thesis
      by (intro exI [of _ "Suc m"]) blast
  next
    case False
    then have "rlength_loop env r len b = Ret (len, b)" for env r b
      by (subst rlength_loop.simps) simp
    with False show ?thesis
      by (intro exI [of _ 0]) auto
  qed
qed

text \<open>The length in the fewest bytes, whatever its size.\<close>

definition ber_length :: "u64 \<Rightarrow> u8 list \<Rightarrow> bool" where
  "ber_length len bs \<longleftrightarrow>
     (if len \<le> 0x7f then bs = [ucast len]
      else \<exists>n. 1 \<le> n \<and> n \<le> 8 \<and> drop_bit (8 * n) len = 0 \<and> drop_bit (8 * (n - 1)) len \<noteq> 0 \<and>
        bs = (of_nat n OR 0x80) # be_bytes n len)"

lemma drop_bit_64: "64 \<le> n \<Longrightarrow> drop_bit n (x :: u64) = 0"
  by (rule bit_word_eqI) (auto simp: bit_simps dest: bit_imp_le_length)

lemma prepends_length:
  obtains bs where "ber_length len bs"
    and "\<And>env r. prepends 0 (can_grow env r) (Asn01_reallocRbuildLength env r len) bs"
proof (cases "len \<le> 0x7f")
  case True
  show ?thesis
  proof (rule that [of "[ucast len]"])
    show "prepends 0 (can_grow env r) (Asn01_reallocRbuildLength env r len) [ucast len]" for env r
      by (rule prepends_cong [OF prepends_put]) (simp add: Asn01_reallocRbuildLength_def True)
  qed (simp add: ber_length_def True)
next
  case False
  obtain m where m: "\<forall>env r b. rlength_loop env r len b =
      obind (puts env r (shifted (drop_bit 8) m len) b) (\<lambda>b'. Ret (drop_bit (8 * m) len, b'))"
    and le: "drop_bit (8 * m) len \<le> 0xff" and low: "\<forall>k < m. 0xff < drop_bit (8 * k) len"
    using rlength_loop_puts by blast
  let ?x = "drop_bit (8 * m) len" and ?y = "of_nat (Suc m) OR 0x80 :: u8"
  have top: "drop_bit (8 * Suc m) len = drop_bit 8 ?x"
    by (simp add: drop_bit_drop_bit add.commute)
  have small: "drop_bit 8 z = 0 \<longleftrightarrow> z \<le> 0xff" for z :: u64
    by (simp add: drop_bit_eq_div word_le_nat_alt word_unat_eq_iff unat_div div_eq_0_iff) linarith
  have nz: "?x \<noteq> 0"
  proof (cases m)
    case 0
    then show ?thesis using False by auto
  next
    case (Suc k)
    then have "0xff < drop_bit (8 * k) len"
      using low by simp
    then show ?thesis
      using small [of "drop_bit (8 * k) len"] Suc by (simp add: drop_bit_drop_bit add.commute)
  qed
  then have "m < 8"
    using drop_bit_64 [of "8 * m" len] by (cases "m < 8") simp_all
  have byte: "(ucast (?x AND 0xff) :: u8) = ucast ?x"
    by (rule ucast_and_ff)
  show ?thesis
  proof (rule that [of "?y # be_bytes (Suc m) len"])
    have "drop_bit (8 * Suc m) len = 0"
      by (simp only: top small le)
    then show "ber_length len (?y # be_bytes (Suc m) len)"
      unfolding ber_length_def using False nz \<open>m < 8\<close>
      by (simp only: if_False) (intro exI [of _ "Suc m"], simp)
    fix env r
    let ?h = "\<lambda>b1. obind (need env r 2 b1) (\<lambda>b2. obind (poke (ucast ?x) b2) (poke ?y))"
    have h: "prepends 0 (can_grow env r) ?h ([?y] @ [ucast ?x])"
      by (rule prepends_reserve [OF reserves_need prepends_bind [OF
            prepends_weaken [OF prepends_poke] prepends_poke]]) simp_all
    have "prepends 0 (can_grow env r) (\<lambda>b. obind (puts env r (shifted (drop_bit 8) m len) b)
        (\<lambda>b1. obind (need env r 2 b1) (\<lambda>b2. obind (poke (ucast ?x) b2)
          (\<lambda>b3. poke (of_nat (offset b3 - offset b) OR 0x80) b3))))
        (([?y] @ [ucast ?x]) @ rev (shifted (drop_bit 8) m len))"
    proof (rule prepends_bind_from [OF prepends_puts _ h])
      fix b b1 :: rbuf
      assume o: "offset b1 = offset b + length (rev (shifted (drop_bit 8) m len))"
      show "obind (need env r 2 b1) (\<lambda>b2. obind (poke (ucast ?x) b2)
          (\<lambda>b3. poke (of_nat (offset b3 - offset b) OR 0x80) b3)) = ?h b1"
        by (intro obind_cong refl) (use o in \<open>auto dest!: need_offset poke_offset\<close>)
    qed simp
    then show "prepends 0 (can_grow env r) (Asn01_reallocRbuildLength env r len) (?y # be_bytes (Suc m) len)"
      by (rule prepends_cong2)
        (simp_all add: Asn01_reallocRbuildLength_def False m byte shifted_be_bytes
          be_bytes_from_top)
  qed
qed

text \<open>For the lengths the forward builder supports, the bytes are the same.\<close>

lemma ber_length_buildLength:
  assumes "ber_length len bs" and "len \<le> 0xFFFF" and "Asn01_buildLength dl len = Ret (cs, dl')"
  shows "cs = bs"
proof -
  have len: "unat len \<le> 0xFFFF"
    using assms(2) by (simp add: word_le_nat_alt)
  have d: "drop_bit k len = 0 \<longleftrightarrow> unat len < 2 ^ k" for k
    using unat_lt2p [of len]
    by (simp only: word_unat_eq_iff unsigned_drop_bit_eq) (auto simp: drop_bit_eq_div take_bit_nat_def div_eq_0_iff)
  show ?thesis
  proof (cases "len \<le> 0x7f")
    case True
    then show ?thesis
      using assms by (auto simp: ber_length_def Asn01_buildLength_def word_le_nat_alt word_less_nat_alt
          split: if_splits)
  next
    case False
    then obtain n where n: "1 \<le> n" "unat len < 2 ^ (8 * n)" "\<not> unat len < 2 ^ (8 * (n - 1))"
      and bs: "bs = (of_nat n OR 0x80) # be_bytes n len"
      using assms(1) by (auto simp: ber_length_def d)
    have "n < 3"
    proof (rule ccontr)
      assume "\<not> n < 3"
      then have "(2 :: nat) ^ 16 \<le> 2 ^ (8 * (n - 1))"
        by (intro power_increasing) auto
      then show False
        using n(3) len by simp
    qed
    then consider "n = 1" | "n = 2"
      using n(1) by linarith
    then show ?thesis
    proof cases
      case 1
      then show ?thesis
        using n(2) False assms(3) bs
        by (auto simp: Asn01_buildLength_def word_le_nat_alt word_less_nat_alt asnLONG_LEN_def
            split: if_splits)
    next
      case 2
      then have "be_bytes n len = [ucast (drop_bit 8 len), ucast len]"
        by (simp add: numeral_2_eq_2)
      then show ?thesis
        using 2 n(3) False assms(3) bs
        by (auto simp: Asn01_buildLength_def word_le_nat_alt word_less_nat_alt asnLONG_LEN_def
            ucast_and_ff split: if_splits)
    qed
  qed
qed

text \<open>The length of the contents and the type in front of it.\<close>

lemma prepends_header:
  obtains hs where "ber_length len hs"
    and "\<And>env r. prepends 0 (can_grow env r) (Asn01_reallocBuildHeader env r ty len) (ty # hs)"
proof -
  obtain hs where hs: "ber_length len hs"
    and P: "\<And>env r. prepends 0 (can_grow env r) (Asn01_reallocRbuildLength env r len) hs"
    using prepends_length by blast
  have "prepends 0 (can_grow env r) (Asn01_reallocBuildHeader env r ty len) ([ty] @ hs)" for env r
    by (rule prepends_cong [OF prepends_bind [OF P prepends_put]])
      (simp_all add: Asn01_reallocBuildHeader_def)
  with hs that show ?thesis by simp
qed

text \<open>A header in front of contents, and the check that never fails.\<close>

lemma header_check_ok: "rbuf_ok b \<Longrightarrow> n \<le> offset b \<Longrightarrow> \<not> Asn01_reallocBuildHeaderCheck b n"
  by (simp add: Asn01_reallocBuildHeaderCheck_def rbuf_ok_def)

lemma prepends_item:
  assumes f: "prepends 0 (can_grow env r) f xs"
    and l: "\<And>b b'. offset b' = offset b + length xs \<Longrightarrow> l b b' = len"
    and n: "\<And>b b' b4. offset b' = offset b + length xs \<Longrightarrow> offset b' \<le> offset b4 \<Longrightarrow>
      n b b' b4 \<le> offset b4"
  shows "\<exists>hs. ber_length len hs \<and> prepends 0 (can_grow env r) (\<lambda>b. obind (f b) (\<lambda>b'.
      obind (Asn01_reallocBuildHeader env r ty (l b b') b') (\<lambda>b4.
        if Asn01_reallocBuildHeaderCheck b4 (n b b' b4) then Null else Ret b4))) (ty # hs @ xs)"
proof -
  obtain hs where hs: "ber_length len hs"
    and H: "\<And>env r. prepends 0 (can_grow env r) (Asn01_reallocBuildHeader env r ty len) (ty # hs)"
    using prepends_header by blast
  have "prepends 0 (can_grow env r) (\<lambda>b. obind (f b) (\<lambda>b'.
      obind (Asn01_reallocBuildHeader env r ty (l b b') b') (\<lambda>b4.
        if Asn01_reallocBuildHeaderCheck b4 (n b b' b4) then Null else Ret b4))) ((ty # hs) @ xs)"
  proof (rule prepends_bind_from [OF f _ H])
    fix b b' :: rbuf
    assume o: "offset b' = offset b + length xs" and ok: "rbuf_ok b'"
    show "obind (Asn01_reallocBuildHeader env r ty (l b b') b') (\<lambda>b4.
        if Asn01_reallocBuildHeaderCheck b4 (n b b' b4) then Null else Ret b4)
      = Asn01_reallocBuildHeader env r ty len b'"
    proof (cases "Asn01_reallocBuildHeader env r ty len b'")
      case (Ret b4)
      have "offset b' \<le> offset b4" "rbuf_ok b4"
        using prepends_offset [OF H ok _ Ret] prependsD(3) [OF H ok _ Ret] by simp_all
      then show ?thesis
        using header_check_ok [of b4 "n b b' b4"] n [OF o, of b4] l [OF o] Ret by simp
    qed (simp_all add: l [OF o])
  qed simp
  with hs show ?thesis by auto
qed

lemma prepends_item_offset:
  assumes "prepends 0 (can_grow env r) f xs"
  shows "\<exists>hs. ber_length (of_nat (length xs)) hs \<and> prepends 0 (can_grow env r) (\<lambda>b. obind (f b) (\<lambda>b'.
      obind (Asn01_reallocBuildHeader env r ty (of_nat (offset b' - offset b)) b') (\<lambda>b4.
        if Asn01_reallocBuildHeaderCheck b4 (offset b4 - offset b) then Null else Ret b4))) (ty # hs @ xs)"
  by (rule prepends_item [OF assms]) simp_all

text \<open>The byte of signs: in front when the top bit of what was written differs.\<close>

lemma peek_written:
  assumes "rbuf_ok b" and "written b = x # xs"
  shows "peek b = Ret x"
proof -
  have "offset b = Suc (length xs)"
    using length_written [OF assms(1)] assms(2) by simp
  moreover have "written b ! 0 = pkt b ! (length (pkt b) - offset b)"
    unfolding written_def using assms(1) by (subst nth_drop) (auto simp: rbuf_ok_def)
  moreover have "written b ! 0 = x"
    using assms(2) by simp
  ultimately show ?thesis
    using assms(1) by (simp add: peek_def rbuf_ok_def)
qed

lemma prepends_fix_sign:
  assumes f: "prepends 0 (can_grow env r) f (x # xs)"
  shows "prepends 0 (can_grow env r) (\<lambda>b. obind (f b) (fix_sign env r tv))
    (if x AND 0x80 \<noteq> tv AND 0x80 then tv # x # xs else x # xs)"
proof -
  have p: "peek b' = Ret x" if "rbuf_ok b" "f b = Ret b'" for b b'
    using prependsD(3) [OF f that(1) _ that(2)] by (intro peek_written) auto
  have eq: "obind (f b) (fix_sign env r tv) =
      obind (f b) (if x AND 0x80 \<noteq> tv AND 0x80 then put env r tv else Ret)" if "rbuf_ok b" for b
    using p [OF that] by (cases "f b") (simp_all add: fix_sign_def)
  have "prepends 0 (can_grow env r) (if x AND 0x80 \<noteq> tv AND 0x80 then put env r tv else Ret)
      (if x AND 0x80 \<noteq> tv AND 0x80 then [tv] else [])"
    using prepends_put by simp
  from prepends_bind [OF f this] show ?thesis
    by (rule prepends_cong2) (auto simp: eq)
qed

section \<open>Integers\<close>

lemma shifted_snoc: "shifted f (Suc n) x = shifted f n x @ [ucast ((f ^^ n) x)]"
  using shifted_add [of f n 1 x] by simp

lemma funpow_signed_drop_bit: "(signed_drop_bit k ^^ n) (x :: 'a::len word) = signed_drop_bit (k * n) x"
proof (induction n)
  case (Suc n)
  have "signed_drop_bit k (signed_drop_bit (k * n) x) = signed_drop_bit (k * Suc n) x"
    by (rule bit_word_eqI) (auto simp: bit_signed_drop_bit_iff)
  then show ?case
    using Suc by simp
qed simp

text \<open>\<open>M\<close> bytes are written before the shifted value is the test value.\<close>

definition stops :: "('a::len word \<Rightarrow> 'a word) \<Rightarrow> 'a word \<Rightarrow> 'a word \<Rightarrow> nat \<Rightarrow> bool" where
  "stops f tv x M \<longleftrightarrow> 1 \<le> M \<and> (f ^^ M) x = tv \<and> (\<forall>k. 1 \<le> k \<and> k < M \<longrightarrow> (f ^^ k) x \<noteq> tv)"

lemma stops_ex:
  assumes "(f ^^ N) x = tv" and "1 \<le> N"
  obtains M where "stops f tv x M" and "M \<le> N"
proof -
  let ?P = "\<lambda>M. 1 \<le> M \<and> (f ^^ M) x = tv"
  have P: "?P N" using assms by simp
  then have "?P (LEAST M. ?P M)" and "(LEAST M. ?P M) \<le> N"
    by (rule LeastI, rule Least_le)
  moreover have "\<not> ?P k" if "k < (LEAST M. ?P M)" for k
    using that by (rule not_less_Least)
  ultimately show ?thesis
    by (intro that [of "LEAST M. ?P M"]) (auto simp: stops_def)
qed

lemma stops_Suc:
  assumes "stops f tv x M"
  obtains m where "M = Suc m" and "(f ^^ m) (f x) = tv" and "\<forall>k < m. (f ^^ k) (f x) \<noteq> tv"
proof -
  obtain m where "M = Suc m"
    using assms by (cases M) (auto simp: stops_def)
  moreover have "(f ^^ k) (f x) = (f ^^ Suc k) x" for k
    by (simp only: funpow_Suc_right o_apply)
  ultimately show ?thesis
    using assms by (intro that) (auto simp: stops_def simp del: funpow.simps)
qed

lemma rint_loop_puts:
  "(signed_drop_bit 8 ^^ m) y = tv \<Longrightarrow> \<forall>k < m. (signed_drop_bit 8 ^^ k) y \<noteq> tv \<Longrightarrow> m \<le> n \<Longrightarrow>
    rint_loop n env r tv y b = puts env r (shifted (signed_drop_bit 8) m y) b"
proof (induction m arbitrary: n y b)
  case 0
  then show ?case
    by (subst rint_loop.simps) simp
next
  case (Suc m)
  have y: "y \<noteq> tv"
    using Suc.prems(2) by auto
  obtain n' where n: "n = Suc n'"
    using Suc.prems(3) by (cases n) auto
  have sw: "(signed_drop_bit 8 ^^ k) (signed_drop_bit 8 y) = (signed_drop_bit 8 ^^ Suc k) y" for k
    by (simp only: funpow_Suc_right o_apply)
  have "rint_loop n' env r tv (signed_drop_bit 8 y) b' =
      puts env r (shifted (signed_drop_bit 8) m (signed_drop_bit 8 y)) b'" for b'
    using Suc.prems n by (intro Suc.IH) (auto simp: sw simp del: funpow.simps)
  then show ?case
    using y by (subst rint_loop.simps, cases "put env r (ucast y) b") (simp_all add: n)
qed

lemma rint_puts:
  assumes "stops (signed_drop_bit 8) tv x M" and "M \<le> Suc n"
  shows "obind (put env r (ucast x) b) (rint_loop n env r tv (signed_drop_bit 8 x))
    = puts env r (shifted (signed_drop_bit 8) M x) b"
  using assms(1)
proof (rule stops_Suc)
  fix m
  assume m: "M = Suc m" "(signed_drop_bit 8 ^^ m) (signed_drop_bit 8 x) = tv"
    "\<forall>k < m. (signed_drop_bit 8 ^^ k) (signed_drop_bit 8 x) \<noteq> tv"
  then show ?thesis
    using rint_loop_puts [OF m(2,3)] assms(2) by (cases "put env r (ucast x) b") simp_all
qed

definition sign_word :: "u64 \<Rightarrow> u64" where
  "sign_word x = (if bit x 63 then -1 else 0)"

lemma bit_sign_word: "bit (sign_word x) j \<longleftrightarrow> j < 64 \<and> bit x 63"
  by (simp add: sign_word_def bit_simps)

lemma u64_eq_iff: "(x :: u64) = y \<longleftrightarrow> (\<forall>i < 64. bit x i = bit y i)"
  by (auto intro: bit_word_eqI)

text \<open>The shifted value is all signs exactly when the bits from there on are.\<close>

lemma signed_shift_sign:
  "(signed_drop_bit 8 ^^ M) x = sign_word x \<longleftrightarrow> (\<forall>j < 64. 8 * M \<le> j \<longrightarrow> bit x j = bit x 63)"
proof -
  have "signed_drop_bit (8 * M) x = sign_word x \<longleftrightarrow>
      (\<forall>i < 64. bit (signed_drop_bit (8 * M) x) i = bit x 63)"
    unfolding u64_eq_iff by (auto simp: bit_sign_word)
  also have "\<dots> \<longleftrightarrow> (\<forall>j < 64. 8 * M \<le> j \<longrightarrow> bit x j = bit x 63)"
  proof (rule iffI; intro allI impI)
    fix j
    assume *: "\<forall>i < 64. bit (signed_drop_bit (8 * M) x) i = bit x 63" and j: "j < 64" "8 * M \<le> j"
    then have "bit (signed_drop_bit (8 * M) x) (j - 8 * M) = bit x j"
      by (auto simp: bit_signed_drop_bit_iff)
    with * j show "bit x j = bit x 63" by simp
  next
    fix i :: nat
    assume *: "\<forall>j < 64. 8 * M \<le> j \<longrightarrow> bit x j = bit x 63" and i: "i < 64"
    have "bit x (8 * M + i) = bit x 63" if "\<not> 64 - 8 * M \<le> i"
    proof -
      have "8 * M + i < 64"
        using that by linarith
      then show ?thesis
        using * by (metis le_add1)
    qed
    then show "bit (signed_drop_bit (8 * M) x) i = bit x 63"
      using i by (simp add: bit_signed_drop_bit_iff)
  qed
  finally show ?thesis
    by (simp only: funpow_signed_drop_bit)
qed

lemma shifted_signed_be_bytes:
  "M \<le> 8 \<Longrightarrow> rev (shifted (signed_drop_bit 8) M x) = be_bytes M (x :: u64)"
proof -
  assume "M \<le> 8"
  then have "shifted (signed_drop_bit 8) M x = shifted (drop_bit 8) M x"
  proof (induction M)
    case (Suc M)
    have "(ucast (signed_drop_bit (8 * M) x) :: u8) = ucast (drop_bit (8 * M) x)"
      using Suc.prems by (intro bit_word_eqI) (auto simp: bit_simps bit_signed_drop_bit_iff)
    then show ?case
      using Suc by (simp add: shifted_snoc funpow_signed_drop_bit funpow_drop_bit
          del: shifted.simps(2))
  qed simp
  then show ?thesis
    by (simp add: shifted_be_bytes)
qed

lemma ucast_sign_word: "(ucast (sign_word x) :: u8) = (if bit x 63 then -1 else 0)"
  by (rule bit_word_eqI) (auto simp: bit_simps bit_sign_word)

lemma and_80: "(b :: u8) AND 0x80 = (if bit b 7 then 0x80 else 0)"
proof (rule bit_word_eqI)
  fix n
  show "bit (b AND 0x80) n = bit (if bit b 7 then 0x80 else 0 :: u8) n"
    by (cases "n = 7") (simp_all add: bit_and_iff bit_80_u8 del: bit_numeral_word_iff)
qed

lemma signed_top_bit: "(b :: u8) AND 0x80 \<noteq> ucast (sign_word x) AND 0x80 \<longleftrightarrow> bit b 7 \<noteq> bit x 63"
  by (simp add: ucast_sign_word and_80)

lemma sign_extended_shortest:
  assumes "stops (signed_drop_bit 8) (sign_word x) x M" and "M \<le> 8"
  obtains n where "shortest n x" and "be_bytes n x =
    (if hd (be_bytes M x) AND 0x80 \<noteq> ucast (sign_word x) AND 0x80
     then ucast (sign_word x) # be_bytes M x else be_bytes M x)"
proof -
  have M: "1 \<le> M" and sg: "\<forall>j < 64. 8 * M \<le> j \<longrightarrow> bit x j = bit x 63"
    and least: "\<And>k. 1 \<le> k \<Longrightarrow> k < M \<Longrightarrow> \<not> (\<forall>j < 64. 8 * k \<le> j \<longrightarrow> bit x j = bit x 63)"
    using assms(1) unfolding stops_def signed_shift_sign by blast+
  obtain m where m: "M = Suc m"
    using M by (cases M) auto
  have hd: "bit (hd (be_bytes M x)) 7 = bit x (8 * M - 1)"
    using assms(2) by (simp add: m bit_simps add.commute)
  show ?thesis
  proof (cases "bit x (8 * M - 1) = bit x 63")
    case True
    have "fits M x"
      unfolding fits_def
    proof (intro allI impI)
      fix j :: nat
      assume j: "j < 64" "8 * M - 1 \<le> j"
      show "bit x j = bit x 63"
      proof (cases "j = 8 * M - 1")
        case False
        then have "8 * M \<le> j"
          using j by linarith
        then show ?thesis
          using sg j(1) by blast
      qed (use True in \<open>simp only:\<close>)
    qed
    moreover have "M = 1 \<or> \<not> fits (M - 1) x"
    proof (cases "M = 1")
      case False
      then have "1 \<le> M - 1" and "M - 1 < M"
        using M by linarith+
      from least [OF this] obtain j where "j < 64" "8 * (M - 1) \<le> j" "bit x j \<noteq> bit x 63"
        by blast
      then show ?thesis
        by (auto simp: fits_def)
    qed simp
    ultimately have "shortest M x"
      using M assms(2) by (simp add: shortest_def)
    with True hd show ?thesis
      by (intro that) (simp_all only: signed_top_bit simp_thms if_False)
  next
    case False
    then have M8: "M < 8"
      using assms(2) by (cases "M = 8") auto
    have "fits (Suc M) x"
      unfolding fits_def
    proof (intro allI impI)
      fix j :: nat
      assume j: "j < 64" "8 * Suc M - 1 \<le> j"
      then have "8 * M \<le> j" by simp
      with sg j(1) show "bit x j = bit x 63" by blast
    qed
    moreover have "8 * M - 1 < 64"
      using M8 by linarith
    then have "\<not> fits M x"
      using False fitsD [of M x "8 * M - 1"] by blast
    ultimately have fits: "fits (Suc M) x" "\<not> fits M x" .
    then have "shortest (Suc M) x"
      using M8 M by (simp add: shortest_def)
    moreover have sg': "bit x (8 * M + i) = bit x 63" if "i < 8" for i
    proof -
      have "8 * M + i < 64" "8 * M \<le> 8 * M + i"
        using that M8 by linarith+
      then show ?thesis using sg by blast
    qed
    have "(ucast (drop_bit (8 * M) x) :: u8) = ucast (sign_word x)"
      using sg' by (intro bit_word_eqI) (simp add: bit_simps bit_sign_word del: ucast_sign_word)
    ultimately show ?thesis
      using False hd by (intro that [of "Suc M"])
        (simp_all only: signed_top_bit be_bytes.simps simp_thms if_True)
  qed
qed

lemma sign_word_test: "(if sint x < 0 then -1 else 0) = sign_word x"
proof -
  have "sint x < 0 \<longleftrightarrow> bit x 63"
    using bit_last_iff [of x] by simp
  then show ?thesis
    by (simp add: sign_word_def)
qed

lemma stops_sign:
  obtains M where "stops (signed_drop_bit 8) (sign_word x) x M" and "M \<le> 8"
proof -
  have "(signed_drop_bit 8 ^^ 8) x = sign_word x"
    by (simp only: signed_shift_sign) auto
  then show ?thesis
    by (rule stops_ex) (use that in auto)
qed

text \<open>The contents octets the signed builder writes.\<close>

lemma prepends_signed:
  obtains n where "shortest n x" and "\<And>env r. prepends 0 (can_grow env r)
    (\<lambda>b. obind (put env r (ucast x) b) (\<lambda>b1.
       obind (rint_loop 8 env r (sign_word x) (signed_drop_bit 8 x) b1)
         (fix_sign env r (ucast (sign_word x))))) (be_bytes n x)"
proof -
  obtain M where M: "stops (signed_drop_bit 8) (sign_word x) x M" "M \<le> 8"
    by (rule stops_sign)
  obtain n where n: "shortest n x" and bytes: "be_bytes n x =
      (if hd (be_bytes M x) AND 0x80 \<noteq> ucast (sign_word x) AND 0x80
       then ucast (sign_word x) # be_bytes M x else be_bytes M x)"
    by (rule sign_extended_shortest [OF M])
  obtain y ys where y: "be_bytes M x = y # ys"
    using M(1) by (cases M) (auto simp: stops_def)
  have "prepends 0 (can_grow env r) (puts env r (shifted (signed_drop_bit 8) M x)) (y # ys)" for env r
    using prepends_puts [of env r "shifted (signed_drop_bit 8) M x"]
    by (simp only: shifted_signed_be_bytes [OF M(2)] y)
  from prepends_fix_sign [OF this, where tv = "ucast (sign_word x)"]
  have "prepends 0 (can_grow env r) (\<lambda>b. obind (put env r (ucast x) b) (\<lambda>b1.
       obind (rint_loop 8 env r (sign_word x) (signed_drop_bit 8 x) b1)
         (fix_sign env r (ucast (sign_word x))))) (be_bytes n x)" for env r
    by (rule prepends_cong2)
      (use rint_puts [OF M(1), of 8 env r] M(2) bytes y in \<open>simp_all flip: obind_assoc\<close>)
  with n that show ?thesis by blast
qed

lemma shortest_unique_bytes: "shortest n x \<Longrightarrow> shortest m x \<Longrightarrow> be_bytes n x = be_bytes m x"
  using shortest_unique by blast

text \<open>The unsigned loop, and the zero byte in front when the top bit is set.\<close>

lemma ruint_loop_puts:
  "(drop_bit 8 ^^ m) y = 0 \<Longrightarrow> \<forall>k < m. (drop_bit 8 ^^ k) y \<noteq> 0 \<Longrightarrow>
    ruint_loop env r y c b = obind (puts env r (shifted (drop_bit 8) m y) b) (\<lambda>b'. Ret (c + m, b'))"
proof (induction m arbitrary: y c b)
  case 0
  then show ?case
    by (subst ruint_loop.simps) simp
next
  case (Suc m)
  have y: "y \<noteq> 0"
    using Suc.prems(2) by (auto dest: spec [of _ 0])
  have sw: "(drop_bit 8 ^^ k) (drop_bit 8 y) = (drop_bit 8 ^^ Suc k) y" for k
    by (simp only: funpow_Suc_right o_apply)
  have "ruint_loop env r (drop_bit 8 y) c' b' =
      obind (puts env r (shifted (drop_bit 8) m (drop_bit 8 y)) b') (\<lambda>b'. Ret (c' + m, b'))" for c' b'
    using Suc.prems by (intro Suc.IH) (auto simp: sw simp del: funpow.simps)
  then show ?case
    using y by (subst ruint_loop.simps, cases "put env r (ucast y) b") simp_all
qed

lemma ruint_puts:
  assumes "stops (drop_bit 8) 0 x M"
  shows "obind (put env r (ucast x) b) (ruint_loop env r (drop_bit 8 x) 1)
    = obind (puts env r (shifted (drop_bit 8) M x) b) (\<lambda>b'. Ret (M, b'))"
  using assms
proof (rule stops_Suc)
  fix m
  assume m: "M = Suc m" "(drop_bit 8 ^^ m) (drop_bit 8 x) = 0"
    "\<forall>k < m. (drop_bit 8 ^^ k) (drop_bit 8 x) \<noteq> 0"
  then show ?thesis
    using ruint_loop_puts [OF m(2,3)] by (cases "put env r (ucast x) b") simp_all
qed

lemma stops_unsigned:
  obtains M where "stops (drop_bit 8) 0 (x :: u64) M" and "M \<le> 8"
proof -
  have "(drop_bit 8 ^^ 8) x = 0"
    by (simp only: funpow_drop_bit) (rule drop_bit_64, simp)
  then show ?thesis
    by (rule stops_ex) (use that in auto)
qed

lemma signed_drop_bit_pos: "\<not> bit x 63 \<Longrightarrow> signed_drop_bit k (x :: u64) = drop_bit k x"
  by (rule bit_word_eqI) (auto simp: bit_simps bit_signed_drop_bit_iff dest: bit_imp_le_length)

lemma ucast_0_u8: "(ucast (0 :: u64) :: u8) = 0"
  by simp

lemma prepends_zero_byte:
  assumes M: "stops (drop_bit 8) 0 x M" and f: "prepends 0 (can_grow env r) f (be_bytes M x)"
  shows "\<exists>pl. counter_bytes x pl \<and> prepends 0 (can_grow env r) (\<lambda>b. obind (f b) (fix_sign env r 0)) pl"
proof -
  have M1: "1 \<le> M" and z: "drop_bit (8 * M) x = 0"
    and nz: "\<And>k. 1 \<le> k \<Longrightarrow> k < M \<Longrightarrow> drop_bit (8 * k) x \<noteq> 0"
    using M by (auto simp: stops_def funpow_drop_bit)
  have M8: "M \<le> 8"
    using nz [of 8] drop_bit_64 [of 64 x] by (cases "M \<le> 8") auto
  obtain y ys where y: "be_bytes M x = y # ys"
    using M1 by (cases M) auto
  have top: "bit y 7 = bit x (8 * M - 1)"
  proof -
    obtain m where "M = Suc m"
      using M1 by (cases M) auto
    then show ?thesis
      using M8 y by (auto simp: bit_simps add.commute)
  qed
  note P = prepends_fix_sign [OF f [unfolded y], where tv = 0]
  show ?thesis
  proof (cases "bit x 63")
    case True
    have "M = 8"
    proof (rule ccontr)
      assume "M \<noteq> 8"
      then have "8 * M \<le> 63" using M8 by linarith
      then have "bit (drop_bit (8 * M) x) (63 - 8 * M)"
        using True by (simp add: bit_drop_bit_eq)
      then show False
        using z by simp
    qed
    then have "bit y 7"
      using top True by simp
    then have "counter_bytes x (0 # y # ys)"
      using True y \<open>M = 8\<close> by (simp add: counter_bytes_def del: be_bytes.simps)
    with P \<open>bit y 7\<close> show ?thesis
      by (auto simp: and_80)
  next
    case False
    then have sw: "sign_word x = 0"
      by (simp add: sign_word_def)
    have "(signed_drop_bit 8 ^^ k) x = (drop_bit 8 ^^ k) x" for k
      by (simp only: funpow_signed_drop_bit funpow_drop_bit) (rule signed_drop_bit_pos [OF False])
    then have "stops (signed_drop_bit 8) (sign_word x) x M"
      using M by (simp add: stops_def sw)
    from sign_extended_shortest [OF this M8] obtain n where n: "shortest n x" and b: "be_bytes n x =
        (if hd (be_bytes M x) AND 0x80 \<noteq> ucast (sign_word x) AND 0x80
         then ucast (sign_word x) # be_bytes M x else be_bytes M x)"
      by blast
    from b have "be_bytes n x = (if y AND 0x80 \<noteq> 0 AND 0x80 then 0 # y # ys else y # ys)"
      by (simp only: y sw list.sel ucast_0_u8)
    moreover have "counter_bytes x (be_bytes n x)"
      unfolding counter_bytes_def using False n by auto
    ultimately show ?thesis
      using P by auto
  qed
qed

lemma counter_bytes_unique: "counter_bytes x pl \<Longrightarrow> counter_bytes x pl' \<Longrightarrow> pl = pl'"
  unfolding counter_bytes_def by (metis shortest_unique_bytes)

section \<open>The reverse builders write what the forward builders write\<close>

lemma build_hdr_ber_length:
  assumes "build_hdr dl ty len = Ret (h, d)" and "len \<le> 0xFFFF" and "ber_length len hs"
  shows "h = ty # hs"
proof -
  obtain cs where h: "h = ty # cs" and cs: "Asn01_buildLength (dl - 1) len = Ret (cs, d)"
    using assms(1)
    by (auto simp: build_hdr_def Asn01_buildHeader_def obind_Ret_iff split: if_splits)
  show ?thesis
    using ber_length_buildLength [OF assms(3,2) cs] h by simp
qed

lemma rbuild_int_bytes:
  assumes "Asn_buildInt dl ty x isz = Ret (bs, dl')"
  shows "prepends 0 (can_grow env r) (Asn01_reallocRbuildInt env r ty x isz) bs"
  using assms
proof (rule buildInt_RetD)
  fix n h dlh
  let ?x = "asnCHECK_OVERFLOW_SIGNED x"
  assume isz: "isz = 8" and n: "shortest n ?x" and h: "build_hdr dl ty (of_nat n) = Ret (h, dlh)"
    and bs: "bs = h @ be_bytes n ?x"
  obtain m where m: "shortest m ?x" and P: "\<And>env r. prepends 0 (can_grow env r)
    (\<lambda>b. obind (put env r (ucast ?x) b) (\<lambda>b1.
       obind (rint_loop 8 env r (sign_word ?x) (signed_drop_bit 8 ?x) b1)
         (fix_sign env r (ucast (sign_word ?x))))) (be_bytes m ?x)"
    using prepends_signed by blast
  have mn: "m = n"
    using m n by (rule shortest_unique)
  let ?F = "\<lambda>env r b. obind (put env r (ucast ?x) b) (\<lambda>b1.
       obind (rint_loop 8 env r (sign_word ?x) (signed_drop_bit 8 ?x) b1)
         (fix_sign env r (ucast (sign_word ?x))))"
  obtain hs where hs: "ber_length (of_nat (length (be_bytes n ?x))) hs" and Q: "prepends 0 (can_grow env r)
      (\<lambda>b. obind (?F env r b) (\<lambda>b3.
        obind (Asn01_reallocBuildHeader env r ty (of_nat (offset b3 - offset b)) b3) (\<lambda>b4.
          if Asn01_reallocBuildHeaderCheck b4 (offset b4 - offset b) then Null else Ret b4)))
      (ty # hs @ be_bytes n ?x)"
    using prepends_item_offset [OF P [unfolded mn], of env r ty] by blast
  have "(of_nat n :: u64) \<le> 0xFFFF"
    using n by (simp add: shortest_def word_le_nat_alt unat_of_nat)
  then have "h = ty # hs"
    using build_hdr_ber_length [OF h _ hs [unfolded length_be_bytes]] by simp
  with Q show ?thesis
    by (elim prepends_cong2) (simp_all add: Asn01_reallocRbuildInt_def isz sign_word_test bs Let_def)
qed

lemma prepends_unsigned:
  "\<exists>pl. counter_bytes x pl \<and> (\<forall>env r. prepends 0 (can_grow env r)
    (\<lambda>b. obind (put env r (ucast x) b) (\<lambda>b1.
       obind (ruint_loop env r (drop_bit 8 x) 1 b1) (\<lambda>(_, b2). fix_sign env r 0 b2))) pl)"
proof -
  obtain M where M: "stops (drop_bit 8) 0 x M" "M \<le> 8"
    by (rule stops_unsigned)
  have "prepends 0 (can_grow env r) (puts env r (shifted (drop_bit 8) M x)) (be_bytes M x)" for env r
    using prepends_puts [of env r "shifted (drop_bit 8) M x"] by (simp add: shifted_be_bytes)
  from prepends_zero_byte [OF M(1) this]
  have ex: "\<exists>pl. counter_bytes x pl \<and>
      prepends 0 (can_grow env r) (\<lambda>b. obind (puts env r (shifted (drop_bit 8) M x) b) (fix_sign env r 0)) pl"
    for env r .
  obtain pl where pl: "counter_bytes x pl"
    using ex by blast
  have "prepends 0 (can_grow env r) (\<lambda>b. obind (put env r (ucast x) b) (\<lambda>b1.
       obind (ruint_loop env r (drop_bit 8 x) 1 b1) (\<lambda>(_, b2). fix_sign env r 0 b2))) pl" for env r
  proof -
    obtain pl' where "counter_bytes x pl'"
      and P: "prepends 0 (can_grow env r) (\<lambda>b. obind (puts env r (shifted (drop_bit 8) M x) b) (fix_sign env r 0)) pl'"
      using ex by blast
    then have "pl' = pl"
      using pl by (intro counter_bytes_unique)
    moreover have "obind (put env r (ucast x) b) (\<lambda>b1. obind (ruint_loop env r (drop_bit 8 x) 1 b1)
        (\<lambda>(_, b2). fix_sign env r 0 b2)) =
      obind (puts env r (shifted (drop_bit 8) M x) b) (fix_sign env r 0)" for b
      unfolding obind_assoc [symmetric] ruint_puts [OF M(1)] by simp
    ultimately show ?thesis
      using P by (elim prepends_cong2) simp_all
  qed
  with pl show ?thesis by blast
qed

lemma rbuild_uint_bytes:
  assumes "Asn01_buildUnsignedInt dl ty x isz = Ret (bs, dl')"
  shows "prepends 0 (can_grow env r) (Asn01_reallocRbuildUnsignedInt env r ty x isz) bs"
  using assms
proof (rule buildUnsignedInt_RetD)
  fix n h dlh
  let ?x = "asnCHECK_OVERFLOW_UNSIGNED x"
  assume isz: "isz = 8" and n: "shortest n ?x" and h: "build_hdr dl ty (of_nat n) = Ret (h, dlh)"
    and bs: "bs = h @ be_bytes n ?x"
  let ?F = "\<lambda>env r b. obind (put env r (ucast ?x) b) (\<lambda>b1.
       obind (ruint_loop env r (drop_bit 8 ?x) 1 b1) (\<lambda>(_, b2). fix_sign env r 0 b2))"
  obtain pl where pl: "counter_bytes ?x pl" and P: "\<forall>env r. prepends 0 (can_grow env r) (?F env r) pl"
    using prepends_unsigned by blast
  have "\<not> bit ?x 63"
    using bit_less_exp [OF _ check_unsigned_less [of x], of 63] by auto
  then have "counter_bytes ?x (be_bytes n ?x)"
    using n by (auto simp: counter_bytes_def)
  then have pn: "pl = be_bytes n ?x"
    using pl by (intro counter_bytes_unique)
  obtain hs where hs: "ber_length (of_nat (length pl)) hs" and Q: "prepends 0 (can_grow env r)
      (\<lambda>b. obind (?F env r b) (\<lambda>b3.
        obind (Asn01_reallocBuildHeader env r ty (of_nat (offset b3 - offset b)) b3) (\<lambda>b4.
          if Asn01_reallocBuildHeaderCheck b4 (offset b4 - offset b) then Null else Ret b4)))
      (ty # hs @ pl)"
    using prepends_item_offset [OF P [rule_format], of env r ty] by blast
  have "(of_nat n :: u64) \<le> 0xFFFF"
    using n by (simp add: shortest_def word_le_nat_alt unat_of_nat)
  then have "h = ty # hs"
    using build_hdr_ber_length [OF h _ hs [unfolded pn length_be_bytes]] by simp
  with Q show ?thesis
    by (elim prepends_cong2)
      (simp_all add: Asn01_reallocRbuildUnsignedInt_def isz bs pn Let_def split_def)
qed

text \<open>Strings: the contents in one copy, then the header.\<close>

lemma prepends_block:
  assumes "unat n \<le> length s"
  shows "prepends 0 (can_grow env r) (\<lambda>b. obind (need env r (unat n) b) (\<lambda>b1.
     obind (rd_block s 0 (unat n)) (\<lambda>bs. poke_block bs b1))) (take (unat n) s)"
proof -
  have "prepends 0 (can_grow env r)
      (\<lambda>b. obind (need env r (length (take (unat n) s)) b) (poke_block (take (unat n) s))) (take (unat n) s)"
    by (rule prepends_reserve [OF reserves_need prepends_poke_block]) simp
  then show ?thesis
    using assms by (elim prepends_cong2) (simp_all add: rd_block_def min_absorb2)
qed

lemma rbuild_string_item:
  assumes "build_hdr dl ty n = Ret (h, d)" and "unat n \<le> length s" and "n \<le> 0xFFFF"
  shows "prepends 0 (can_grow env r) (Asn01_reallocRbuildString env r ty s n) (h @ take (unat n) s)"
proof -
  obtain hs where hs: "ber_length n hs" and Q: "prepends 0 (can_grow env r)
      (\<lambda>b. obind (obind (need env r (unat n) b) (\<lambda>b1.
        obind (rd_block s 0 (unat n)) (\<lambda>bs. poke_block bs b1))) (\<lambda>b2.
      obind (Asn01_reallocBuildHeader env r ty n b2) (\<lambda>b3.
        if Asn01_reallocBuildHeaderCheck b3 (unat n) then Null else Ret b3)))
      (ty # hs @ take (unat n) s)"
    using prepends_item [OF prepends_block [OF assms(2)],
        where l = "\<lambda>_ _. n" and len = n and n = "\<lambda>_ _ _. unat n" and ty = ty, of env r]
      assms(2) by auto
  have "h = ty # hs"
    by (rule build_hdr_ber_length [OF assms(1,3) hs])
  with Q show ?thesis
    by (elim prepends_cong2) (simp_all add: Asn01_reallocRbuildString_def)
qed

lemma rbuild_string_bytes:
  assumes "Asn01_buildString dl ty (Some s) n = Ret (bs, dl')" and "n \<le> 0xFFFF"
  shows "prepends 0 (can_grow env r) (Asn01_reallocRbuildString env r ty s n) bs"
  using assms(1) by (rule buildString_RetD) (use assms(2) in \<open>simp add: rbuild_string_item\<close>)

lemma rbuild_bitstring_bytes:
  assumes "Asn01_buildBitstring dl ty (Some s) n = Ret (bs, dl')" and "n \<le> 0xFFFF"
  shows "prepends 0 (can_grow env r) (Asn01_reallocRbuildBitstring env r ty s n) bs"
proof -
  have "Asn01_reallocRbuildBitstring env r ty s n = Asn01_reallocRbuildString env r ty s n"
    by (rule ext) (simp add: Asn01_reallocRbuildBitstring_def Asn01_reallocRbuildString_def)
  then show ?thesis
    using buildBitstring_RetD [OF assms(1)] assms(2) by (metis rbuild_string_item)
qed

lemma rbuild_null_bytes:
  assumes "Asn01_buildNull dl ty = Ret (bs, dl')"
  shows "prepends 0 (can_grow env r) (Asn01_reallocRbuildNull env r ty) bs"
proof -
  obtain hs where hs: "ber_length 0 hs"
    and P: "prepends 0 (can_grow env r) (Asn01_reallocBuildHeader env r ty 0) (ty # hs)"
    using prepends_header by blast
  have "bs = ty # hs"
    using assms hs
    by (auto simp: ber_length_def Asn01_buildNull_def Asn01_buildHeader_def Asn01_buildLength_def
        split: if_splits)
  with P show ?thesis
    by (elim prepends_cong2) (simp_all add: Asn01_reallocRbuildNull_def)
qed

section \<open>Object identifiers\<close>

fun sub_tail :: "nat \<Rightarrow> oid \<Rightarrow> u8 list" where
  "sub_tail 0 t = []"
| "sub_tail (Suc m) t = ucast ((t AND 0x7f) OR 0x80) # sub_tail m (drop_bit 7 t)"

lemma sub_tail_snoc: "sub_tail (Suc m) t = sub_tail m t @ [ucast ((drop_bit (7 * m) t AND 0x7f) OR 0x80)]"
proof (induction m arbitrary: t)
  case (Suc m)
  have "sub_tail (Suc (Suc m)) t = ucast ((t AND 0x7f) OR 0x80) # sub_tail (Suc m) (drop_bit 7 t)"
    by (rule sub_tail.simps)
  also have "sub_tail (Suc m) (drop_bit 7 t)
      = sub_tail m (drop_bit 7 t) @ [ucast ((drop_bit (7 * Suc m) t AND 0x7f) OR 0x80)]"
    by (simp only: Suc.IH) (simp add: drop_bit_drop_bit add.commute)
  finally show ?case
    by simp
qed simp

lemma rsubid_loop_puts:
  "drop_bit (7 * m) t = 0 \<Longrightarrow> \<forall>k < m. drop_bit (7 * k) t \<noteq> 0 \<Longrightarrow>
    rsubid_loop env r t b = puts env r (sub_tail m t) b"
proof (induction m arbitrary: t b)
  case 0
  then show ?case
    by (subst rsubid_loop.simps) simp
next
  case (Suc m)
  have t: "t \<noteq> 0"
    using Suc.prems(2) by (auto dest: spec [of _ 0])
  have "rsubid_loop env r (drop_bit 7 t) b' = puts env r (sub_tail m (drop_bit 7 t)) b'" for b'
    using Suc.prems by (intro Suc.IH) (auto simp: drop_bit_drop_bit add.commute)
  then show ?case
    using t by (subst rsubid_loop.simps, cases "put env r (ucast ((t AND 0x7f) OR 0x80)) b")
      (simp_all add: word_gt_0)
qed

lemma bit_7f_u32: "(t :: oid) AND 0x7f = take_bit 7 t"
  by (simp add: take_bit_eq_mask mask_eq_exp_minus_1)

lemma bit_7f_u8: "(t :: u8) AND 0x7f = take_bit 7 t"
  by (simp add: take_bit_eq_mask mask_eq_exp_minus_1)

lemma bit_80_u32: "bit (0x80 :: u32) i \<longleftrightarrow> i = 7"
proof -
  have "(0x80 :: u32) = 2 ^ 7" by simp
  then show ?thesis
    by (simp only: bit_exp_iff) auto
qed

lemma rsubid_bytes_rev:
  "rev ((ucast t AND 0x7f) # sub_tail m (drop_bit 7 t)) = sub_bytes (Suc m) (ucast (t :: oid))"
proof (induction m)
  case 0
  have "(ucast t AND 0x7f :: u8) = ucast (take_bit 7 (ucast t :: u64))"
    unfolding bit_7f_u8 by (rule bit_word_eqI) (auto simp: bit_simps)
  then show ?case by simp
next
  case (Suc m)
  have "(ucast ((drop_bit (7 * m) (drop_bit 7 t) AND 0x7f) OR 0x80) :: u8)
      = ucast (take_bit 7 (drop_bit (7 * Suc m) (ucast t :: u64))) OR 0x80"
    unfolding bit_7f_u32
    by (rule bit_word_eqI) (auto simp: bit_simps bit_80_u8 bit_80_u32 add.commute add.left_commute
        dest: bit_imp_le_length)
  then show ?case
    using Suc by (simp add: sub_tail_snoc del: sub_tail.simps(2))
qed

lemma drop_bit_zero_iff: "drop_bit k (t :: 'a::len word) = 0 \<longleftrightarrow> unat t < 2 ^ k"
  using unat_lt2p [of t]
  by (simp only: word_unat_eq_iff unsigned_drop_bit_eq)
    (auto simp: drop_bit_eq_div take_bit_nat_def div_eq_0_iff)

lemma objid_size_stops:
  fixes t :: oid
  defines "m \<equiv> objid_size (ucast t) - 1"
  shows "drop_bit (7 * m) (drop_bit 7 t) = 0"
    and "\<forall>k < m. drop_bit (7 * k) (drop_bit 7 t) \<noteq> 0"
proof -
  have u: "unat (ucast t :: u64) = unat t"
    by (simp add: unat_ucast_up)
  have t32: "unat (ucast t :: u64) < 2 ^ 32"
    using unat_lt2p [of t] by (simp add: u)
  have dd: "drop_bit (7 * k) (drop_bit 7 t) = drop_bit (7 * Suc k) t" for k
    by (simp add: drop_bit_drop_bit add.commute)
  note b = objid_size_bounds [OF t32]
  have "unat t < 2 ^ (7 * Suc m)"
    using b by (simp add: m_def u)
  then show "drop_bit (7 * m) (drop_bit 7 t) = 0"
    unfolding dd drop_bit_zero_iff .
  have big: "2 ^ (7 * m) \<le> unat t" if "0 < m"
    using that t32 by (auto simp: m_def objid_size_def Let_def word_less_nat_alt u split: if_splits)
  show "\<forall>k < m. drop_bit (7 * k) (drop_bit 7 t) \<noteq> 0"
    unfolding dd drop_bit_zero_iff
  proof (intro allI impI)
    fix k
    assume "k < m"
    then have "2 ^ (7 * Suc k) \<le> (2 :: nat) ^ (7 * m)"
      by (intro power_increasing) auto
    then show "\<not> unat t < 2 ^ (7 * Suc k)"
      using big \<open>k < m\<close> by linarith
  qed
qed

abbreviation subid_bytes :: "oid \<Rightarrow> u8 list" where
  "subid_bytes t \<equiv> sub_bytes (objid_size (ucast t)) (ucast t)"

lemma prepends_rsubid: "prepends 0 (can_grow env r) (rsubid env r t) (subid_bytes t)"
proof -
  let ?m = "objid_size (ucast t) - 1"
  have m: "Suc ?m = objid_size (ucast t)"
    using objid_size_pos [of "ucast t"] by simp
  have "rsubid env r t b = puts env r ((ucast t AND 0x7f) # sub_tail ?m (drop_bit 7 t)) b" for b
    using rsubid_loop_puts [OF objid_size_stops, of env r t]
    by (cases "put env r (ucast t AND 0x7f) b") (simp_all add: rsubid_def)
  then show ?thesis
    using prepends_puts [of env r "(ucast t AND 0x7f) # sub_tail ?m (drop_bit 7 t)"]
    by (elim prepends_cong2) (simp_all only: rsubid_bytes_rev m)
qed

lemma prepends_robjid_loop:
  assumes "n \<le> length xs"
  shows "prepends 0 (can_grow env r) (robjid_loop env r xs n)
    (concat (map subid_bytes (take (n - 2) (drop 2 xs))))"
  using assms
proof (induction n)
  case 0
  show ?case
    by (rule prepends_cong2 [OF prepends_Ret]) simp_all
next
  case (Suc n)
  show ?case
  proof (cases "2 < Suc n")
    case True
    then have n: "take (Suc n - 2) (drop 2 xs) = take (n - 2) (drop 2 xs) @ [xs ! n]"
      using Suc.prems take_Suc_conv_app_nth [of "n - 2" "drop 2 xs"] by (simp add: Suc_diff_Suc numeral_2_eq_2)
    have "prepends 0 (can_grow env r) (\<lambda>b. obind (rsubid env r (xs ! n) b) (robjid_loop env r xs n))
        (concat (map subid_bytes (take (n - 2) (drop 2 xs))) @ subid_bytes (xs ! n))"
      by (rule prepends_bind [OF prepends_rsubid]) (use Suc in auto)
    then show ?thesis
      using True Suc.prems n by (elim prepends_cong2) (simp_all add: rd_oid_def)
  next
    case False
    then show ?thesis
      by (intro prepends_cong2 [OF prepends_Ret]) auto
  qed
qed

lemma rbuild_objid_bytes:
  assumes "Asn01_buildObjid dl ty xs n = Ret (bs, dl')" and "2 \<le> n" and "n \<le> length xs"
  shows "prepends 0 (can_grow env r) (Asn01_reallocRbuildObjid env r ty xs n) bs"
proof -
  let ?first = "xs ! 0 * 40 + xs ! 1"
  let ?vals = "?first # take (n - 2) (drop 2 xs)"
  let ?pl = "concat (map subid_bytes ?vals)"
  have small: "\<forall>v \<in> set (map ucast ?vals :: u64 list). unat v < 2 ^ 32"
    using unat_lt2p [where 'a = 32] by (auto simp: unat_ucast_up)
  have emit: "concat (map2 emit_subid (map objid_size vs) vs) = concat (map (\<lambda>v. sub_bytes (objid_size v) v) vs)"
    if "\<forall>v \<in> set vs. unat v < 2 ^ 32" for vs
    using that by (induction vs) (simp_all add: emit_subid_sub_bytes)
  have first: "first_objid_val xs n = Ret (ucast ?first, n)" and ok: "\<not> xs ! 0 > 2" "\<not> (xs ! 1 > 40 \<and> xs ! 0 < 2)"
    using assms by (auto simp: Asn01_buildObjid_def first_objid_val_def rd_oid_def split: if_splits)
  have n128: "n \<le> 128"
    using assms(1) by (auto simp: Asn01_buildObjid_def first TYPES_MAX_OID_LEN_def split: if_splits)
  obtain h dlh where h: "build_hdr dl ty (of_nat (sum_list (map objid_size (map ucast ?vals)))) = Ret (h, dlh)"
    and bs: "bs = h @ concat (map (\<lambda>v. sub_bytes (objid_size v) v) (map ucast ?vals))"
    using assms(1) emit [OF small] unfolding Asn01_buildObjid_def first
    by (auto simp: Let_def elim!: obind_RetE split: if_splits)
  have plen: "length ?pl = sum_list (map objid_size (map ucast ?vals))"
    using emitted_length(1) [of "map ucast ?vals"] by (simp add: o_def)
  have "length ?pl \<le> 640"
    using emitted_length(2) [of "map ucast ?vals"] n128 unfolding plen by simp
  then have small_len: "(of_nat (length ?pl) :: u64) \<le> 0xFFFF"
    by (simp only: word_le_nat_alt unat_of_nat) simp
  let ?F = "\<lambda>env r b. obind (robjid_loop env r xs n b) (rsubid env r ?first)"
  have F: "prepends 0 (can_grow env r) (?F env r) ?pl"
    using prepends_bind [OF prepends_robjid_loop [OF assms(3)] prepends_rsubid] by simp
  obtain hs where hs: "ber_length (of_nat (length ?pl)) hs" and Q: "prepends 0 (can_grow env r)
      (\<lambda>b. obind (?F env r b) (\<lambda>b2.
        obind (Asn01_reallocBuildHeader env r ty (of_nat (offset b2 - offset b)) b2) (\<lambda>b3.
          if Asn01_reallocBuildHeaderCheck b3 (offset b3 - offset b) then Null else Ret b3)))
      (ty # hs @ ?pl)"
    using prepends_item_offset [OF F, of ty] by blast
  have "h = ty # hs"
    by (rule build_hdr_ber_length [OF _ small_len hs]) (use h plen in simp)
  moreover have "bs = h @ ?pl"
    by (simp add: bs o_def)
  moreover have "Asn01_reallocRbuildObjid env r ty xs n b = obind (?F env r b) (\<lambda>b2.
        obind (Asn01_reallocBuildHeader env r ty (of_nat (offset b2 - offset b)) b2) (\<lambda>b3.
          if Asn01_reallocBuildHeaderCheck b3 (offset b3 - offset b) then Null else Ret b3))" for b
    using assms(2,3) ok by (auto simp: Asn01_reallocRbuildObjid_def rd_oid_def)
  ultimately show ?thesis
    using Q by (elim prepends_cong2) simp_all
qed


section \<open>The lengths are read back\<close>

lemma parse_ber_length:
  assumes "ber_length len bs" and "unat len < 2 ^ 63"
  shows "Asn01_parseLength (bs @ rest) 0 = Ret (length bs, len)"
proof (cases "len \<le> 0x7f")
  case True
  then have l: "unat len < 2 ^ 7"
    by (simp add: word_le_nat_alt)
  have "(ucast len :: u8) AND 0x80 = 0"
    using bit_less_exp [OF _ l, of 7] by (auto simp: and_80_iff bit_simps)
  moreover have "ucast (ucast len :: u8) = len"
    by (rule bit_word_eqI) (auto simp: bit_simps dest: bit_less_exp [OF _ l])
  ultimately show ?thesis
    using True assms(1) by (simp add: ber_length_def Asn01_parseLength_def asnLONG_LEN_def)
next
  case False
  then obtain n where n: "1 \<le> n" "n \<le> 8" and z: "drop_bit (8 * n) len = 0"
    and bs: "bs = (of_nat n OR 0x80) # be_bytes n len"
    using assms(1) by (auto simp: ber_length_def)
  have un: "unat (of_nat n :: u8) = n"
    using n by (simp add: unat_of_nat)
  then have "unat (of_nat n :: u8) < 2 ^ 7"
    using n by simp
  then have sm: "bit n i \<Longrightarrow> i < 8 \<Longrightarrow> i < 7" for i
    using bit_less_exp [of "of_nat n :: u8" i 7] by (simp add: bit_simps)
  have not7: "NOT asnLONG_LEN = (mask 7 :: u8)"
    by (simp add: asnLONG_LEN_def mask_eq_exp_minus_1)
  have low: "(of_nat n OR 0x80 :: u8) AND NOT asnLONG_LEN = of_nat n"
    unfolding not7
    by (rule bit_word_eqI) (auto simp: bit_simps bit_80_u8 simp del: bit_numeral_word_iff intro: sm)
  have hi: "(of_nat n OR 0x80 :: u8) AND asnLONG_LEN \<noteq> 0"
    by (simp add: asnLONG_LEN_def and_80_iff bit_or_iff bit_80_u8)
  have "take_bit (8 * n) len = len"
    using z bits_ident [of "8 * n" len] by simp
  then have "shift_in n (bs @ rest) 1 0 = Ret (Suc n, len)"
    using foldl_be_bytes [of 0 n len] by (simp add: bs shift_in_Ret)
  moreover have "\<not> sint len < 0"
    using assms(2) by (simp add: sint_nonneg)
  moreover have "(of_nat n :: u8) \<noteq> 0" "\<not> (of_nat n :: u8) > 8"
    using n un by (auto simp: word_less_nat_alt)
  ultimately show ?thesis
    by (simp add: Asn01_parseLength_def bs hi low un)
qed

end
