(* ===== verification/AsnProps.thy ===== *)
theory AsnProps
  imports AsnRev
begin

text \<open>
  What the BER encoder and decoder promise, stated over the operations of src/Firmware/Core/Asn01.c
  and src/Firmware/Core/System/Numerics/Integer64.c: round trips of every data type, the bounds of
  the parsers, and the agreement of the two families of builders. The proofs go through the codec
  interface of AsnBase and its interpretations, and through the calculus of AsnRev.
\<close>

section \<open>Round trips\<close>

text \<open>
  C9: A 32-bit signed integer that \<open>Asn_buildInt\<close> encodes is what \<open>Asn_parseInt\<close> reads back, with the
  bytes written consumed, the length left exact and everything after it untouched.
\<close>

theorem asn_int_roundtrip:
  assumes "- (2 ^ 31) \<le> sint x" and "sint x < 2 ^ 31"
    and "Asn_buildInt dl asnINTEGER x 8 = Ret (bs, dl')"
  shows "Asn_parseInt (bs @ rest) dl 8 = Ret (length bs, dl', asnINTEGER, x) \<and>
    length bs + unat dl' = unat dl"
  using int_roundtrip_32 [OF assms] int_codec.capacity [OF assms(3)] by simp

lemma build_int_example: "Asn_buildInt 10 asnINTEGER (- 129) 8 = Ret ([2, 2, 0xFF, 0x7F], 6)"
  by code_simp

theorem asn_int_roundtrip_witness:
  "Asn_parseInt [2, 2, 0xFF, 0x7F, 9] 10 8 = Ret (4, 6, asnINTEGER, - 129)"
  using asn_int_roundtrip [OF _ _ build_int_example, of "[9]"] by simp

text \<open>
  Every value \<open>Asn_buildInt\<close> encodes is encoded in the fewest two's complement bytes that hold
  it, behind a header of at most four bytes.
\<close>

theorem asn_int_minimal:
  assumes "Asn_buildInt dl ty x 8 = Ret (bs, dl')" and "- (2 ^ 31) \<le> sint x" and "sint x < 2 ^ 31"
  shows "\<exists>h n. bs = h @ be_bytes n x \<and> length h \<le> 4 \<and> 1 \<le> n \<and> fits n x \<and>
    (\<forall>m. 1 \<le> m \<and> fits m x \<longrightarrow> n \<le> m)"
  using assms(1)
proof (rule buildInt_RetD)
  fix n h dlh
  assume n: "shortest n (asnCHECK_OVERFLOW_SIGNED x)" and h: "build_hdr dl ty (of_nat n) = Ret (h, dlh)"
    and bs: "bs = h @ be_bytes n (asnCHECK_OVERFLOW_SIGNED x)"
  have "shortest n x" and bs: "bs = h @ be_bytes n x"
    using n bs check_signed_in_range [OF assms(2,3)] by simp_all
  moreover have "n \<le> m" if "1 \<le> m" "fits m x" for m
  proof (rule ccontr)
    assume "\<not> n \<le> m"
    then have "m \<le> n - 1" and "n \<noteq> 1"
      using that(1) by linarith+
    with fits_mono [OF that(2)] \<open>shortest n x\<close> show False
      by (auto simp: shortest_def)
  qed
  ultimately show ?thesis
    using build_hdr_RetD(3) [OF h] by (auto simp: shortest_def)
qed

theorem asn_int_minimal_witness:
  "\<exists>h n. [2, 2, 0xFF, 0x7F] = h @ be_bytes n (- 129) \<and> length h \<le> 4 \<and> 1 \<le> n \<and> fits n (- 129) \<and>
    (\<forall>m. 1 \<le> m \<and> fits m (- 129) \<longrightarrow> n \<le> m)"
  using asn_int_minimal [OF build_int_example] by simp

text \<open>
  A counter, gauge or time tick of at most 32 bits is read back by \<open>Asn01_parseUnsignedInt\<close> as it
  was given to \<open>Asn01_buildUnsignedInt\<close>; a larger value comes back modulo \<open>2 ^ 32\<close>.
\<close>

theorem asn_unsigned_roundtrip:
  assumes "Asn01_buildUnsignedInt dl asnGAUGE x 8 = Ret (bs, dl')"
  shows "\<exists>y. Asn01_parseUnsignedInt (bs @ rest) dl 8 = Ret (length bs, dl', asnGAUGE, y) \<and>
    unat y = unat x mod 2 ^ 32"
  using gauge_codec.roundtrip_exact [OF TrueI assms, of rest] check_unsigned_mod [of x] by simp

lemma build_uint_example:
  "Asn01_buildUnsignedInt 10 asnGAUGE 0x80000000 8 = Ret ([0x42, 5, 0, 0x80, 0, 0, 0], 3)"
  by code_simp

theorem asn_unsigned_roundtrip_witness:
  "\<exists>y. Asn01_parseUnsignedInt ([0x42, 5, 0, 0x80, 0, 0, 0] @ []) 10 8 =
      Ret (length [0x42, 5, 0, 0x80, 0, 0, 0 :: u8], 3, asnGAUGE, y) \<and>
    unat y = unat (0x80000000 :: u64) mod 2 ^ 32"
  by (rule asn_unsigned_roundtrip [OF build_uint_example])

text \<open>
  An octet string of up to 65535 bytes that fits the caller's buffer is read back byte for byte;
  the parser adds the terminating NUL exactly when there is room for it.
\<close>

theorem asn_string_roundtrip:
  assumes "Asn01_buildString dl asnOCTET_STR (Some s) (of_nat (length s)) = Ret (bs, dl')"
    and "length s \<le> 0xFFFF" and "length s \<le> unat cap"
  shows "Asn01_parseString (bs @ rest) dl cap = Ret (length bs, dl', asnOCTET_STR,
    s @ (if length s < unat cap then [0] else []), of_nat (length s))"
  using string_codec.roundtrip_exact [of s cap dl bs dl' rest] assms by simp

lemma build_string_example: "Asn01_buildString 9 asnOCTET_STR (Some [7, 8]) 2 = Ret ([4, 2, 7, 8], 5)"
  by code_simp

theorem asn_string_roundtrip_witness:
  "Asn01_parseString [4, 2, 7, 8] 9 2 = Ret (4, 5, asnOCTET_STR, [7, 8], 2)"
  using asn_string_roundtrip [of 9 "[7, 8]" _ _ 2 "[]"] build_string_example by simp

text \<open>
  An object identifier of 2 to 128 sub-identifiers, the first at most 2, the second below 40
  under the first two arcs, is read back into the first elements of the caller's array, with its
  length, and the rest of the array is untouched.
\<close>

theorem asn_objid_roundtrip:
  assumes "Asn01_buildObjid dl asnOBJECT_ID xs (length xs) = Ret (bs, dl')" and "valid_oid xs"
    and "length arr = TYPES_MAX_OID_LEN"
  shows "Asn01_parseObjid (bs @ rest) dl arr (of_nat TYPES_MAX_OID_LEN) =
    Ret (length bs, dl', asnOBJECT_ID, xs @ drop (length xs) arr, of_nat (length xs))"
  using oid_codec.roundtrip_exact [OF assms(2,1), of rest arr] by (simp add: oid_buf_id assms(3))

lemma build_objid_example:
  "Asn01_buildObjid 10 asnOBJECT_ID [1, 3, 6, 1, 300] (length [1, 3, 6, 1, 300 :: oid]) =
    Ret ([6, 5, 0x2B, 6, 1, 0x82, 0x2C], 3)"
  by code_simp

lemma valid_oid_example: "valid_oid [1, 3, 6, 1, 300]"
  by (simp add: valid_oid_def TYPES_MAX_OID_LEN_def)

theorem asn_objid_roundtrip_witness:
  "Asn01_parseObjid [6, 5, 0x2B, 6, 1, 0x82, 0x2C] 10 (replicate 128 0) (of_nat TYPES_MAX_OID_LEN) =
    Ret (7, 3, asnOBJECT_ID, [1, 3, 6, 1, 300] @ replicate 123 0, 5)"
  using asn_objid_roundtrip [OF build_objid_example valid_oid_example, of "replicate 128 0" "[]"]
  by (simp add: TYPES_MAX_OID_LEN_def)

text \<open>
  A 64-bit counter, plain or wrapped in an Opaque as \<open>Counter64\<close> or \<open>U64\<close>, and a signed 64-bit
  integer wrapped in an Opaque are read back exactly.
\<close>

theorem asn_int64_roundtrip:
  assumes "uint64_type ty" and "Asn01_buildUnsignedInt64 dl ty x 8 = Ret (bs, dl')"
    and "Asn01_buildSignedInt64 el asnOPAQUE_I64 y 8 = Ret (cs, el')"
  shows "Asn01_parseUnsignedInt64 (bs @ rest) dl 8 = Ret (length bs, dl', ty, x) \<and>
    Asn01_parseSignedInt64 (cs @ rest) el 8 = Ret (length cs, el', asnOPAQUE_I64, y)"
  using counter64_codec.roundtrip_exact [of "(ty, x)" dl bs dl' rest]
    int64_codec.roundtrip_exact [OF TrueI assms(3), of rest] assms by simp_all

lemma build_uint64_example:
  "Asn01_buildUnsignedInt64 20 asnOPAQUE_U64 \<lparr>high = 0x80000000, low = 5\<rparr> 8 =
    Ret ([0x44, 12, 0x9F, 0x7B, 9, 0, 0x80, 0, 0, 0, 0, 0, 0, 5], 6)"
  by code_simp

lemma build_int64_example:
  "Asn01_buildSignedInt64 20 asnOPAQUE_I64 \<lparr>high = 0xFFFFFFFF, low = 0xFFFFFF80\<rparr> 8 =
    Ret ([0x44, 4, 0x9F, 0x7A, 1, 0x80], 14)"
  by code_simp

theorem asn_int64_roundtrip_witness:
  "Asn01_parseUnsignedInt64 [0x44, 12, 0x9F, 0x7B, 9, 0, 0x80, 0, 0, 0, 0, 0, 0, 5] 20 8 =
     Ret (14, 6, asnOPAQUE_U64, \<lparr>high = 0x80000000, low = 5\<rparr>)"
  using asn_int64_roundtrip [OF _ build_uint64_example build_int64_example, of "[]"]
  by (simp add: uint64_type_def)

section \<open>Bounds\<close>



text \<open>
  The slack is needed: a message whose length byte announces eight length bytes makes the parser
  read past the end of its object whenever fewer follow, whatever length the caller gave.
\<close>

theorem asn_length_overread:
  assumes "length xs < 8"
  shows "Asn_parseInt (asnINTEGER # 0x88 # xs) dl 8 = Crash"
  using parse_len_overread [OF assms, of asnINTEGER dl] by (simp add: Asn_parseInt_def)

theorem asn_length_overread_witness: "Asn_parseInt [asnINTEGER, 0x88] 2 8 = Crash"
  using asn_length_overread [of "[]" 2] by simp

text \<open>
  Whatever a parser returns, the bytes it consumed and the length it leaves add up to the length
  it was given, so the next parser starts inside the message.
\<close>

theorem asn_parsers_consume:
  shows "(Asn_parseInt mem dl 8 = Ret (p, dl', i) \<longrightarrow> p + unat dl' = unat dl) \<and>
    (Asn01_parseUnsignedInt mem dl 8 = Ret (p, dl', u) \<longrightarrow> p + unat dl' = unat dl) \<and>
    (Asn01_parseString mem dl cap = Ret (p, dl', s) \<longrightarrow> p + unat dl' = unat dl) \<and>
    (Asn01_parseObjid mem dl arr ol = Ret (p, dl', oi) \<longrightarrow> p + unat dl' = unat dl) \<and>
    (Asn01_parseUnsignedInt64 mem dl 8 = Ret (p, dl', c) \<longrightarrow> p + unat dl' = unat dl) \<and>
    (Asn01_parseSignedInt64 mem dl 8 = Ret (p, dl', c) \<longrightarrow> p + unat dl' = unat dl)"
  by (intro conjI impI)
    (erule int_codec.consumes gauge_codec.consumes string_codec.consumes parseObjid_consumes
      counter64_codec.consumes int64_codec.consumes)+

lemma parse_int_example: "Asn_parseInt [2, 1, 5, 9] 4 8 = Ret (3, 1, asnINTEGER, 5)"
  by code_simp

theorem asn_parsers_consume_witness:
  "Asn_parseInt [2, 1, 5, 9] 4 8 = Ret (3, 1, asnINTEGER, 5) \<and> 3 + unat (1 :: size_t) = unat (4 :: size_t)"
  using asn_parsers_consume [of "[2, 1, 5, 9]" 4] parse_int_example by blast

section \<open>The reverse builders\<close>

text \<open>
  The reverse builder writes a length of any size so that \<open>Asn01_parseLength\<close> reads it back,
  in front of what the buffer holds.
\<close>

theorem asn_reverse_length_roundtrip:
  assumes "rbuf_ok b" and "unat len < 2 ^ 63" and "Asn01_reallocRbuildLength env r len b = Ret b'"
  shows "Asn01_parseLength (written b') 0 = Ret (offset b' - offset b, len) \<and>
    drop (offset b' - offset b) (written b') = written b"
proof -
  obtain bs where bs: "ber_length len bs"
    and P: "\<And>env r. prepends 0 (can_grow env r) (Asn01_reallocRbuildLength env r len) bs"
    using prepends_length by blast
  have "written b' = bs @ written b" and "offset b' = offset b + length bs"
    using prependsD(3) [OF P assms(1) _ assms(3)] prepends_offset [OF P assms(1) _ assms(3)] by auto
  then show ?thesis
    using parse_ber_length [OF bs assms(2)] by simp
qed

lemma reverse_length_example:
  "Asn01_reallocRbuildLength \<lparr>alloc_ok = \<lambda>_. False, fresh = \<lambda>_. 0\<rparr> True 0x10000
     \<lparr>pkt = [1, 1, 1, 1, 9], offset = 1\<rparr> = Ret \<lparr>pkt = [0x83, 1, 0, 0, 9], offset = 5\<rparr>"
  by code_simp

theorem asn_reverse_length_roundtrip_witness:
  "Asn01_parseLength (written \<lparr>pkt = [0x83, 1, 0, 0, 9], offset = 5\<rparr>) 0 = Ret (4, 0x10000)"
  using asn_reverse_length_roundtrip [OF _ _ reverse_length_example] by (simp add: rbuf_ok_def)


text \<open>
  From a good buffer with enough room, or one that can always grow, an operation of the calculus
  returns with its bytes in front.
\<close>

lemma prepends_total:
  assumes "prepends 0 growing f bs" and "rbuf_ok b" and "length bs \<le> room b \<or> growing"
  shows "\<exists>b'. f b = Ret b' \<and> rbuf_ok b' \<and> written b' = bs @ written b"
  using prependsD [OF assms(1,2)] assms(3) by (cases "f b") auto

text \<open>
  C18: The reverse integer builders write, in front of what the buffer holds, exactly the bytes the
  forward ones would; they fail only for lack of memory, and never write outside the buffer.
\<close>

theorem asn_reverse_int_equiv:
  assumes "Asn_buildInt dl ty x 8 = Ret (bs, dl')" and "Asn01_buildUnsignedInt el ty y 8 = Ret (cs, el')"
    and "rbuf_ok b" and "length bs + length cs \<le> room b \<or> can_grow env r"
  shows "(\<exists>b'. Asn01_reallocRbuildInt env r ty x 8 b = Ret b' \<and> rbuf_ok b' \<and>
      written b' = bs @ written b) \<and>
    (\<exists>b'. Asn01_reallocRbuildUnsignedInt env r ty y 8 b = Ret b' \<and> rbuf_ok b' \<and>
      written b' = cs @ written b)"
  using assms(3,4) by (intro conjI prepends_total [OF rbuild_int_bytes [OF assms(1)]]
    prepends_total [OF rbuild_uint_bytes [OF assms(2)]]) auto

lemma build_uint_small: "Asn01_buildUnsignedInt 10 asnINTEGER 128 8 = Ret ([2, 2, 0, 0x80], 6)"
  by code_simp

theorem asn_reverse_int_equiv_witness:
  "\<exists>b'. Asn01_reallocRbuildInt \<lparr>alloc_ok = \<lambda>_. False, fresh = \<lambda>_. 0\<rparr> True asnINTEGER (- 129) 8
      \<lparr>pkt = replicate 8 1, offset = 0\<rparr> = Ret b' \<and> rbuf_ok b' \<and>
    written b' = [2, 2, 0xFF, 0x7F] @ written \<lparr>pkt = replicate 8 1, offset = 0\<rparr>"
  using asn_reverse_int_equiv [OF build_int_example build_uint_small,
      of "\<lparr>pkt = replicate 8 1, offset = 0\<rparr>"]
  by (simp add: rbuf_ok_def room_def)

text \<open>
  The reverse builders of object identifiers, octet strings, bit strings and NULL write exactly
  the bytes the forward ones would, for identifiers of at least two sub-identifiers and contents of
  at most 65535 bytes; the two families differ outside these bounds.
\<close>

theorem asn_reverse_data_equiv:
  assumes "Asn01_buildObjid dl ty xs n = Ret (bs, dl')" and "2 \<le> n" and "n \<le> length xs"
    and "Asn01_buildString el ty (Some s) k = Ret (cs, el')" and "k \<le> 0xFFFF"
    and "Asn01_buildBitstring fl ty (Some t) m = Ret (ds, fl')" and "m \<le> 0xFFFF"
    and "rbuf_ok b" and "can_grow env r"
  shows "(\<exists>b'. Asn01_reallocRbuildObjid env r ty xs n b = Ret b' \<and> written b' = bs @ written b) \<and>
    (\<exists>b'. Asn01_reallocRbuildString env r ty s k b = Ret b' \<and> written b' = cs @ written b) \<and>
    (\<exists>b'. Asn01_reallocRbuildBitstring env r ty t m b = Ret b' \<and> written b' = ds @ written b)"
  using prepends_total [OF rbuild_objid_bytes [OF assms(1-3)] assms(8)]
    prepends_total [OF rbuild_string_bytes [OF assms(4,5)] assms(8)]
    prepends_total [OF rbuild_bitstring_bytes [OF assms(6,7)] assms(8)] assms(9) by metis

lemma build_bits_example: "Asn01_buildBitstring 9 asnBIT_STR (Some [0, 8]) 2 = Ret ([3, 2, 0, 8], 5)"
  by code_simp

lemma build_objid_tagged:
  "Asn01_buildObjid 10 asnBIT_STR [1, 3, 6] 3 = Ret ([3, 2, 0x2B, 6], 6)"
  by code_simp

lemma build_string_tagged: "Asn01_buildString 9 asnBIT_STR (Some [7, 8]) 2 = Ret ([3, 2, 7, 8], 5)"
  by code_simp

theorem asn_reverse_data_equiv_witness:
  "\<exists>b'. Asn01_reallocRbuildObjid \<lparr>alloc_ok = \<lambda>_. True, fresh = \<lambda>_. 0\<rparr> True asnBIT_STR [1, 3, 6] 3
      \<lparr>pkt = [], offset = 0\<rparr> = Ret b' \<and> written b' = [3, 2, 0x2B, 6] @ written \<lparr>pkt = [], offset = 0\<rparr>"
  using asn_reverse_data_equiv [OF build_objid_tagged _ _ build_string_tagged _ build_bits_example, of
      "\<lparr>pkt = [], offset = 0\<rparr>" "\<lparr>alloc_ok = \<lambda>_. True, fresh = \<lambda>_. 0\<rparr>" True]
  by (simp add: rbuf_ok_def can_grow_def)

lemma build_hdr_small:
  assumes "unat n \<le> 8" and "10 \<le> dl"
  shows "build_hdr dl ty n = Ret ([ty, ucast n], dl - 2)"
proof -
  have u: "unat (dl - 1) = unat dl - 1" "unat (dl - 2) = unat dl - 2"
    using assms(2) by (auto simp: unat_sub word_le_nat_alt)
  have "\<not> dl < 1" "\<not> dl - 1 < 1" "n < 0x80" "\<not> dl - 2 < n"
    using assms u by (auto simp: word_less_nat_alt word_le_nat_alt)
  then show ?thesis
    by (simp add: build_hdr_def Asn01_buildHeader_def Asn01_buildLength_def Asn01_buildHeaderCheck_def)
qed

lemma buildInt_succeeds:
  assumes "10 \<le> dl"
  shows "\<exists>bs dl'. Asn_buildInt dl ty x 8 = Ret (bs, dl')"
proof -
  let ?x = "asnCHECK_OVERFLOW_SIGNED x"
  obtain n where n: "shortest n ?x" "trim_int 8 ?x = (n, push_bit (8 * (8 - n)) ?x)"
    by (rule trim_int_8)
  then have "n \<le> 8"
    by (simp add: shortest_def)
  then have "build_hdr dl ty (of_nat n) = Ret ([ty, ucast (of_nat n :: u64)], dl - 2)"
    using assms by (intro build_hdr_small) (simp_all add: unat_of_nat)
  then show ?thesis
    using n(2) by (simp add: Asn_buildInt_def)
qed

text \<open>
  A value written with the reverse builder is read by the parser from the front of the buffer,
  and the parser stops exactly where the earlier contents begin: a packet built back to front is
  parsed front to back.
\<close>

theorem asn_reverse_then_parse:
  assumes "- (2 ^ 31) \<le> sint x" and "sint x < 2 ^ 31" and "10 \<le> dl" and "rbuf_ok b"
    and "Asn01_reallocRbuildInt env r asnINTEGER x 8 b = Ret b'"
  shows "\<exists>dl'. Asn_parseInt (written b') dl 8 = Ret (offset b' - offset b, dl', asnINTEGER, x) \<and>
    drop (offset b' - offset b) (written b') = written b"
proof -
  obtain bs dl' where bs: "Asn_buildInt dl asnINTEGER x 8 = Ret (bs, dl')"
    using buildInt_succeeds [OF assms(3)] by blast
  note P = rbuild_int_bytes [OF bs, of env r]
  have "written b' = bs @ written b" and "offset b' = offset b + length bs"
    using prependsD(3) [OF P assms(4) _ assms(5)] prepends_offset [OF P assms(4) _ assms(5)] by auto
  then show ?thesis
    using int_roundtrip_32 [OF assms(1,2) bs, of "written b"] by simp
qed

lemma reverse_int_example:
  "Asn01_reallocRbuildInt \<lparr>alloc_ok = \<lambda>_. False, fresh = \<lambda>_. 0\<rparr> False asnINTEGER (- 129) 8
     \<lparr>pkt = [1, 1, 1, 1, 9], offset = 1\<rparr> = Ret \<lparr>pkt = [2, 2, 0xFF, 0x7F, 9], offset = 5\<rparr>"
  by code_simp

theorem asn_reverse_then_parse_witness:
  "\<exists>dl'. Asn_parseInt (written \<lparr>pkt = [2, 2, 0xFF, 0x7F, 9], offset = 5\<rparr>) 100 8 =
    Ret (4, dl', asnINTEGER, - 129)"
  using asn_reverse_then_parse [OF _ _ _ _ reverse_int_example, of 100] by (simp add: rbuf_ok_def)

section \<open>64-bit integers as pairs of words\<close>

text \<open>
  C19: The pair arithmetic is arithmetic modulo \<open>2 ^ 64\<close>: addition and subtraction carry and borrow
  between the halves, and the division and multiplication by ten are exact.
\<close>

theorem integer64_arithmetic:
  "i64_val (Integer64_addInt64 a b) = (i64_val a + i64_val b) mod 2 ^ 64 \<and>
   i64_val (Integer64_subtract a b) = (i64_val a + 2 ^ 64 - i64_val b) mod 2 ^ 64 \<and>
   i64_val (Integer64_diffAddInt64 r a b) = (i64_val r + i64_val a + 2 ^ 64 - i64_val b) mod 2 ^ 64 \<and>
   i64_val (Integer64_multBy10 a) = i64_val a * 10 mod 2 ^ 64 \<and>
   i64_val (fst (Integer64_divBy10 a)) = i64_val a div 10 \<and>
   unat (snd (Integer64_divBy10 a)) = i64_val a mod 10"
  using divBy10_val [of a "fst (Integer64_divBy10 a)" "snd (Integer64_divBy10 a)"]
  by (simp add: addInt64_val subtract_val diffAddInt64_val multBy10_val)

text \<open>
  Every signed 64-bit integer is printed inside the buffer, as a sign and its decimal digits,
  and reading the printed string gives the integer back.
\<close>

theorem integer64_print_parse:
  "\<exists>s. Integer64_int64ToString n = Ret s \<and> Integer64_stringToInt64 s = (n, 1) \<and>
    s = (if i64_sval n < 0 then CHR ''-'' # dec (nat (- i64_sval n)) else dec (nat (i64_sval n)))"
  using int64ToString_dec [of n] int64_string_inverse [of n] by metis

text \<open>
  A 32-bit counter that wrapped at most once between two samples is accumulated exactly: the
  64-bit total grows by the difference modulo \<open>2 ^ 32\<close>, and the new sample stays a 32-bit value.
\<close>

theorem integer64_wrap_update:
  assumes "high newVal = 0" and "high oldVal = 0" and "wrapCheck \<noteq> Some 0"
  shows "\<exists>acc'. Integer64_check32AndUpdate acc newVal (Some oldVal) wrapCheck =
      (0, acc', newVal, wrapCheck) \<and>
    i64_val acc' =
      (i64_val acc + (unat (low newVal) + 2 ^ 32 - unat (low oldVal)) mod 2 ^ 32) mod 2 ^ 64"
  by (rule check32AndUpdate_wrapped [OF assms])

theorem integer64_wrap_update_witness:
  "\<exists>acc'. Integer64_check32AndUpdate \<lparr>high = 0, low = 0xFFFFFFFF\<rparr> \<lparr>high = 0, low = 5\<rparr>
      (Some \<lparr>high = 0, low = 0xFFFFFFFE\<rparr>) None = (0, acc', \<lparr>high = 0, low = 5\<rparr>, None) \<and>
    i64_val acc' = 0x100000006"
  using integer64_wrap_update [of "\<lparr>high = 0, low = 5\<rparr>" "\<lparr>high = 0, low = 0xFFFFFFFE\<rparr>" None
      "\<lparr>high = 0, low = 0xFFFFFFFF\<rparr>"] by (simp add: i64_val_def)

end
