(* ===== verification/AsnFloat.thy ===== *)
theory AsnFloat
  imports AsnRev
begin

text \<open>
  The floating-point types of src/Firmware/Core/Asn01.c, wrapped in an Opaque. A \<open>float\<close> or
  \<open>double\<close> is its bit pattern: the code only copies it through a union and swaps its bytes. The host
  is little-endian, so \<open>ntohl\<close> and \<open>htonl\<close> reverse the four bytes of a word.
\<close>

section \<open>Byte order\<close>

definition le_bytes :: "u32 \<Rightarrow> u8 list" where
  "le_bytes w = [ucast w, ucast (drop_bit 8 w), ucast (drop_bit 16 w), ucast (drop_bit 24 w)]"

definition of_le_bytes :: "u8 list \<Rightarrow> u32" where
  "of_le_bytes bs = foldr (\<lambda>b w. push_bit 8 w OR ucast b) bs 0"

definition ntohl :: "u32 \<Rightarrow> u32" where
  "ntohl w = of_le_bytes (rev (le_bytes w))"

text \<open>The two halves of a \<open>double\<close>, swapped and put in network order (and back).\<close>

definition swap_halves :: "u32 \<times> u32 \<Rightarrow> u32 \<times> u32" where
  "swap_halves v = (let tmp = ntohl (fst v); v0 = ntohl (snd v); v1 = tmp in (v0, v1))"

section \<open>Parsers and builders\<close>

text \<open>
  The common part of the two parsers: \<open>berlen\<close> is the length of the special encoding, \<open>tag\<close> the
  special type and \<open>sz\<close> the size of the value. The pointer returned is \<open>bufp\<close>, at the value.
\<close>

definition parse_real ::
    "u8 list \<Rightarrow> size_t \<Rightarrow> u64 \<Rightarrow> u8 \<Rightarrow> u64 \<Rightarrow> (nat \<times> size_t \<times> u8 \<times> u8 list) outcome" where
  "parse_real mem datalength berlen tag sz =
     obind (rd mem 0) (\<lambda>type.
     obind (parse_len mem 1 datalength) (\<lambda>(bufp, asn_length).
     obind (if type = asnOPAQUE \<and> asn_length = berlen then
              obind (rd mem bufp) (\<lambda>t1.
              if t1 \<noteq> asnOPAQUE_TAG1 then Ret (type, bufp, asn_length)
              else obind (rd mem (bufp + 1)) (\<lambda>t2.
                if t2 \<noteq> tag then Ret (type, bufp, asn_length)
                else obind (parse_len mem (bufp + 2) datalength) (\<lambda>(bufp1, len1). Ret (tag, bufp1, len1))))
            else Ret (type, bufp, asn_length)) (\<lambda>(type1, bufp1, asn_length1).
       if type1 \<noteq> tag then Null
       else if asn_length1 \<noteq> sz then Null
       else obind (rd_block mem bufp1 (unat asn_length1)) (\<lambda>c.
         Ret (bufp1, datalength - (c_int asn_length1 + of_nat bufp1), type1, c)))))"

definition Asn01_parseFloat ::
    "u8 list \<Rightarrow> size_t \<Rightarrow> size_t \<Rightarrow> (nat \<times> size_t \<times> u8 \<times> u32) outcome" where
  "Asn01_parseFloat mem datalength floatsize =
     (if floatsize \<noteq> 4 then Null
      else obind (parse_real mem datalength 7 asnOPAQUE_FLOAT 4) (\<lambda>(bufp, dl, type, c).
        Ret (bufp, dl, type, ntohl (of_le_bytes c))))"

definition Asn01_parseDouble ::
    "u8 list \<Rightarrow> size_t \<Rightarrow> size_t \<Rightarrow> (nat \<times> size_t \<times> u8 \<times> u32 \<times> u32) outcome" where
  "Asn01_parseDouble mem datalength doublesize =
     (if doublesize \<noteq> 8 then Null
      else obind (parse_real mem datalength 11 asnOPAQUE_DOUBLE 8) (\<lambda>(bufp, dl, type, c).
        Ret (bufp, dl, type, swap_halves (of_le_bytes (take 4 c), of_le_bytes (drop 4 c)))))"

definition Asn01_buildFloat ::
    "size_t \<Rightarrow> u8 \<Rightarrow> u32 \<Rightarrow> size_t \<Rightarrow> (u8 list \<times> size_t) outcome" where
  "Asn01_buildFloat datalength type floatp floatsize =
     (if floatsize \<noteq> 4 then Null
      else obind (build_opaque datalength asnOPAQUE_FLOAT 4) (\<lambda>(bs, dl).
        Ret (bs @ le_bytes (ntohl floatp), dl - floatsize)))"

definition Asn01_buildDouble ::
    "size_t \<Rightarrow> u8 \<Rightarrow> u32 \<times> u32 \<Rightarrow> size_t \<Rightarrow> (u8 list \<times> size_t) outcome" where
  "Asn01_buildDouble datalength type doublep doublesize =
     (if doublesize \<noteq> 8 then Null
      else obind (build_opaque datalength asnOPAQUE_DOUBLE 8) (\<lambda>(bs, dl).
        let (v0, v1) = swap_halves doublep
        in Ret (bs @ le_bytes v0 @ le_bytes v1, dl - doublesize)))"

text \<open>The reverse builders: the value and the special tag, then the Opaque header.\<close>

definition rbuild_real ::
    "heap_env \<Rightarrow> bool \<Rightarrow> u8 \<Rightarrow> u8 list \<Rightarrow> rbuf \<Rightarrow> rbuf outcome" where
  "rbuild_real env r tag c b =
     obind (need env r (length c + 3) b) (\<lambda>b1.
     obind (poke_block c b1) (\<lambda>b2.
     obind (poke (of_nat (length c)) b2) (\<lambda>b3.
     obind (poke tag b3) (\<lambda>b4.
     obind (poke asnOPAQUE_TAG1 b4) (\<lambda>b5.
     obind (Asn01_reallocBuildHeader env r asnOPAQUE (of_nat (length c) + 3) b5) (\<lambda>b6.
       if Asn01_reallocBuildHeaderCheck b6 (length c + 3) then Null else Ret b6))))))"

definition Asn01_reallocRbuildFloat ::
    "heap_env \<Rightarrow> bool \<Rightarrow> u8 \<Rightarrow> u32 \<Rightarrow> size_t \<Rightarrow> rbuf \<Rightarrow> rbuf outcome" where
  "Asn01_reallocRbuildFloat env r type floatp floatsize b =
     (if floatsize \<noteq> 4 \<or> floatsize > 122 then Null
      else rbuild_real env r asnOPAQUE_FLOAT (le_bytes (ntohl floatp)) b)"

definition Asn01_reallocRbuildDouble ::
    "heap_env \<Rightarrow> bool \<Rightarrow> u8 \<Rightarrow> u32 \<times> u32 \<Rightarrow> size_t \<Rightarrow> rbuf \<Rightarrow> rbuf outcome" where
  "Asn01_reallocRbuildDouble env r type doublep doublesize b =
     (if doublesize \<noteq> 8 \<or> doublesize > 122 then Null
      else (let (v0, v1) = swap_halves doublep
            in rbuild_real env r asnOPAQUE_DOUBLE (le_bytes v0 @ le_bytes v1) b))"

section \<open>Round trips\<close>

lemma of_le_le_bytes [simp]: "of_le_bytes (le_bytes w) = w"
proof (rule bit_word_eqI)
  fix n
  assume "n < LENGTH(32)"
  then consider "n < 8" | "8 \<le> n" "n < 16" | "16 \<le> n" "n < 24" | "24 \<le> n" "n < 32"
    by fastforce
  then show "bit (of_le_bytes (le_bytes w)) n = bit w n"
    by cases (auto simp: of_le_bytes_def le_bytes_def bit_simps)
qed

lemma le_of_le_bytes:
  assumes "length bs = 4"
  shows "le_bytes (of_le_bytes bs) = bs"
proof -
  obtain a b c d where "bs = [a, b, c, d]"
    using assms by (auto simp: numeral_eq_Suc length_Suc_conv)
  then show ?thesis
    by (auto simp: of_le_bytes_def le_bytes_def bit_simps no_bit_u8 intro!: bit_word_eqI)
qed

lemma length_le_bytes [simp]: "length (le_bytes w) = 4"
  by (simp add: le_bytes_def)

lemma ntohl_ntohl [simp]: "ntohl (ntohl w) = w"
  by (simp add: ntohl_def le_of_le_bytes)

lemma swap_swap [simp]: "swap_halves (swap_halves v) = v"
  by (simp add: swap_halves_def Let_def)


text \<open>The header of the wrapper is read back; the pointer stays in front of the value.\<close>

lemma parse_real_build:
  assumes "build_opaque dl tag n = Ret (h, d)" and "length c = n" and "1 \<le> n" and "n \<le> 9"
    and "length h + n \<le> unat dl2"
  shows "parse_real (h @ c @ rest) dl2 (of_nat n + 3) tag (of_nat n) =
    Ret (length h, dl2 - of_nat (length (h @ c)), tag, c)"
proof -
  let ?l = "of_nat n + 3 :: u64"
  have un: "unat ?l = n + 3"
    using assms(4) by (simp add: unat_add_if unat_of_nat)
  from assms(1) obtain b d1 where b: "build_hdr dl asnOPAQUE ?l = Ret (b, d1)"
    and h: "h = b @ [asnOPAQUE_TAG1, tag, of_nat n]"
    by (auto simp: build_opaque_def elim!: obind_RetE)
  have small: "?l \<le> 0xFFFF" and fit: "length b + unat ?l \<le> unat dl2"
    using un assms(4,5) by (simp_all add: word_le_nat_alt h)
  note B = build_hdr_RetD [OF b] and P = parse_len_build_hdr [OF b small fit]
  have p: "parse_len (h @ c @ rest) 1 dl2 = Ret (length b, ?l)"
    using P(1) by (simp add: h)
  have "b \<noteq> []"
    using B(2) by auto
  then have h0: "rd (h @ c @ rest) 0 = Ret asnOPAQUE"
    using P(2) by (simp add: h nth_append hd_conv_nth rd_Ret_iff)
  have t: "rd (h @ c @ rest) (length b) = Ret asnOPAQUE_TAG1" "rd (h @ c @ rest) (length b + 1) = Ret tag"
    by (simp_all add: h nth_append rd_Ret_iff)
  have b2: "parse_len (h @ c @ rest) (Suc (Suc (length b))) dl2 = Ret (length h, of_nat n)"
    using parse_len_short [of "length b + 2" "h @ c @ rest" n dl2] B(3) assms(4,5)
    by (simp add: h nth_append)
  have c: "rd_block (h @ c @ rest) (length h) (unat (of_nat n :: u64)) = Ret c"
    using assms(2,4) by (simp add: unat_of_nat)
  have ci: "c_int (of_nat n) = of_nat n"
    using assms(4) by (intro c_int_small) (simp add: word_le_nat_alt unat_of_nat)
  have "parse_real (h @ c @ rest) dl2 (of_nat n + 3) tag (of_nat n) =
      Ret (length h, dl2 - (of_nat n + of_nat (length h)), tag, c)"
    by (simp add: parse_real_def h0 p t b2 c ci del: One_nat_def)
  then show ?thesis
    by (simp add: assms(2) add.commute)
qed

lemma float_roundtrip:
  assumes "Asn01_buildFloat dl ty v 4 = Ret (bs, dl')"
  shows "Asn01_parseFloat (bs @ rest) dl 4 = Ret (length bs - 4, dl', asnOPAQUE_FLOAT, v)"
proof -
  obtain h d where h: "build_opaque dl asnOPAQUE_FLOAT 4 = Ret (h, d)"
    and bs: "bs = h @ le_bytes (ntohl v)" and dl': "dl' = d - 4"
    using assms by (auto simp: Asn01_buildFloat_def elim!: obind_RetE)
  have L: "length h + unat d = unat dl" "4 \<le> unat d"
    using build_opaque_RetD [OF h] by simp_all
  then have "dl' = dl - of_nat (length bs)"
    using unat_lt2p [of dl]
    by (simp add: bs dl' word_unat_eq_iff unat_sub_if unat_of_nat unat_add_if)
  then show ?thesis
    using parse_real_build [OF h, of "le_bytes (ntohl v)" dl rest] L
    by (simp add: Asn01_parseFloat_def bs)
qed

lemma double_roundtrip:
  assumes "Asn01_buildDouble dl ty v 8 = Ret (bs, dl')"
  shows "Asn01_parseDouble (bs @ rest) dl 8 = Ret (length bs - 8, dl', asnOPAQUE_DOUBLE, v)"
proof -
  obtain v0 v1 where v: "swap_halves v = (v0, v1)"
    by (cases "swap_halves v")
  obtain h d where h: "build_opaque dl asnOPAQUE_DOUBLE 8 = Ret (h, d)"
    and bs: "bs = h @ le_bytes v0 @ le_bytes v1" and dl': "dl' = d - 8"
    using assms by (auto simp: Asn01_buildDouble_def v elim!: obind_RetE)
  have L: "length h + unat d = unat dl" "8 \<le> unat d"
    using build_opaque_RetD [OF h] by simp_all
  then have "dl' = dl - of_nat (length bs)"
    using unat_lt2p [of dl]
    by (simp add: bs dl' word_unat_eq_iff unat_sub_if unat_of_nat unat_add_if)
  moreover have "swap_halves (v0, v1) = v"
    using swap_swap [of v] by (simp add: v)
  ultimately show ?thesis
    using parse_real_build [OF h, of "le_bytes v0 @ le_bytes v1" dl rest] L
    by (simp add: Asn01_parseDouble_def bs)
qed

text \<open>
  C20: Floats and doubles that the builders encode are read back bit for bit, with the capacity
  accounted for; but the pointer the two parsers return is that of the value's first byte, not of
  the byte after the object as every other parser returns: it is four, respectively eight, bytes
  short of what was built.
\<close>

theorem asn_real_roundtrip:
  assumes "Asn01_buildFloat dl ty v 4 = Ret (bs, dl')" and "Asn01_buildDouble dm ty w 8 = Ret (cs, dm')"
  shows "Asn01_parseFloat (bs @ rest) dl 4 = Ret (length bs - 4, dl', asnOPAQUE_FLOAT, v) \<and>
    Asn01_parseDouble (cs @ rest) dm 8 = Ret (length cs - 8, dm', asnOPAQUE_DOUBLE, w) \<and>
    drop (length bs - 4) bs = le_bytes (ntohl v) \<and> 7 \<le> length bs \<and> 11 \<le> length cs"
proof -
  obtain h d where h: "build_opaque dl asnOPAQUE_FLOAT 4 = Ret (h, d)" and bs: "bs = h @ le_bytes (ntohl v)"
    using assms(1) by (auto simp: Asn01_buildFloat_def elim!: obind_RetE)
  obtain g e where g: "build_opaque dm asnOPAQUE_DOUBLE 8 = Ret (g, e)" and cs: "length cs = length g + 8"
    using assms(2) by (auto simp: Asn01_buildDouble_def elim!: obind_RetE split: prod.splits)
  have "3 \<le> length h" "3 \<le> length g"
    using h g by (auto simp: build_opaque_def elim!: obind_RetE)
  then show ?thesis
    using float_roundtrip [OF assms(1)] double_roundtrip [OF assms(2)] bs cs by simp
qed

lemma real_example:
  "Asn01_buildFloat 40 asnOPAQUE_FLOAT 0x3F800000 4 = Ret ([0x44, 7, 0x9F, 0x78, 4, 0x3F, 0x80, 0, 0], 31)"
  "Asn01_buildDouble 40 asnOPAQUE_FLOAT (0, 0x3FF00000) 8 =
     Ret ([0x44, 11, 0x9F, 0x79, 8, 0x3F, 0xF0, 0, 0, 0, 0, 0, 0], 27)"
  by code_simp+

theorem asn_real_roundtrip_witness:
  "Asn01_parseFloat ([0x44, 7, 0x9F, 0x78, 4, 0x3F, 0x80, 0, 0] @ [1]) 40 4 =
     Ret (5, 31, asnOPAQUE_FLOAT, 0x3F800000) \<and>
   Asn01_parseDouble ([0x44, 11, 0x9F, 0x79, 8, 0x3F, 0xF0, 0, 0, 0, 0, 0, 0] @ [1]) 40 8 =
     Ret (5, 27, asnOPAQUE_DOUBLE, (0, 0x3FF00000))"
  using conjunct1 [OF asn_real_roundtrip [OF real_example, of "[1]"]]
    conjunct1 [OF conjunct2 [OF asn_real_roundtrip [OF real_example, of "[1]"]]]
  by (simp add: One_nat_def [symmetric] del: One_nat_def)

end
