(* ===== verification/AsnRev64.thy ===== *)
theory AsnRev64
  imports AsnFloat
begin

text \<open>
  The reverse builders of the 64-bit integers, floats and doubles of src/Firmware/Core/Asn01.c
  (\<open>Asn01_reallocRbuildUnsignedInt64\<close>, \<open>Asn01_reallocRbuildSignedInt64\<close>, \<open>Asn01_reallocRbuildFloat\<close>,
  \<open>Asn01_reallocRbuildDouble\<close>, defined in AsnRev and AsnFloat) write what the forward builders
  write: the loops over the two halves are those over the joined word, and the Opaque wrapper is the same.
\<close>

section \<open>The Opaque wrapper\<close>

definition opaque_header :: "heap_env \<Rightarrow> bool \<Rightarrow> u8 \<Rightarrow> nat \<Rightarrow> rbuf \<Rightarrow> rbuf outcome" where
  "opaque_header env r tag n b =
     obind (poke (of_nat n) b) (\<lambda>b1. obind (poke tag b1) (\<lambda>b2. obind (poke asnOPAQUE_TAG1 b2)
       (Asn01_reallocBuildHeader env r asnOPAQUE (of_nat n + 3))))"

lemma opaque_header_bytes:
  assumes "build_opaque dl tag n = Ret (h, d)" and "n \<le> 9"
  shows "length h = 5" and "prepends 3 (can_grow env r) (opaque_header env r tag n) h"
proof -
  let ?l = "of_nat n + 3 :: u64"
  have un: "unat ?l = n + 3"
    using assms(2) by (simp add: unat_add_if unat_of_nat)
  from assms(1) obtain b d1 where b: "build_hdr dl asnOPAQUE ?l = Ret (b, d1)"
    and h: "h = b @ [asnOPAQUE_TAG1, tag, of_nat n]"
    by (auto simp: build_opaque_def elim!: obind_RetE)
  obtain hs where hs: "ber_length ?l hs"
    and H: "\<And>env r. prepends 0 (can_grow env r) (Asn01_reallocBuildHeader env r asnOPAQUE ?l) (asnOPAQUE # hs)"
    using prepends_header by blast
  have b': "b = asnOPAQUE # hs"
    by (rule build_hdr_ber_length [OF b _ hs]) (use un assms(2) in \<open>simp add: word_le_nat_alt\<close>)
  have "?l \<le> 0x7f"
    using un assms(2) by (simp add: word_le_nat_alt)
  then show "length h = 5"
    using hs by (simp add: h b' ber_length_def)
  have "prepends 3 (can_grow env r) (\<lambda>b. obind (poke (of_nat n) b) (poke tag)) ([tag] @ [of_nat n])"
    by (rule prepends_bind [OF prepends_weaken [OF prepends_poke] prepends_poke]) simp_all
  from prepends_bind [OF this prepends_poke [of _ asnOPAQUE_TAG1]]
  have "prepends 3 (can_grow env r) (\<lambda>b. obind (obind (poke (of_nat n) b) (poke tag)) (poke asnOPAQUE_TAG1))
      ([asnOPAQUE_TAG1] @ [tag] @ [of_nat n])"
    by simp
  from prepends_bind [OF this H]
  have "prepends 3 (can_grow env r) (\<lambda>b. obind (obind (obind (poke (of_nat n) b) (poke tag)) (poke asnOPAQUE_TAG1))
      (Asn01_reallocBuildHeader env r asnOPAQUE ?l)) h"
    by (simp add: h b')
  then show "prepends 3 (can_grow env r) (opaque_header env r tag n) h"
    by (rule prepends_cong2) (simp_all add: opaque_header_def)
qed

text \<open>The wrapper around contents of \<open>n\<close> bytes that have just been written.\<close>

lemma prepends_opaque:
  assumes f: "prepends 0 (can_grow env r) f pl" and h: "build_opaque dl tag (length pl) = Ret (h, d)"
    and n: "length pl \<le> 9"
  shows "prepends 0 (can_grow env r) (\<lambda>b. obind (f b) (\<lambda>b'. rbuild_opaque env r tag (offset b' - offset b) b')) (h @ pl)"
proof -
  let ?h = "\<lambda>b. obind (need env r 5 b) (opaque_header env r tag (length pl))"
  have H: "prepends 0 (can_grow env r) ?h h"
    by (rule prepends_reserve [OF reserves_need prepends_weaken [OF opaque_header_bytes(2) [OF h n]]])
      (simp_all add: opaque_header_bytes(1) [OF h n])
  show ?thesis
  proof (rule prepends_bind_from [OF f _ H])
    fix b b' :: rbuf
    assume o: "offset b' = offset b + length pl" and ok: "rbuf_ok b'"
    have "rbuild_opaque env r tag (length pl) b' = obind (?h b') (\<lambda>b5.
        if Asn01_reallocBuildHeaderCheck b5 (length pl + 3) then Null else Ret b5)"
      by (simp add: rbuild_opaque_def opaque_header_def)
    also have "\<dots> = ?h b'"
    proof (cases "?h b'")
      case (Ret b5)
      have "offset b5 = offset b' + 5" "rbuf_ok b5"
        using prepends_offset [OF H ok _ Ret] prependsD(3) [OF H ok _ Ret] opaque_header_bytes(1) [OF h n] by simp_all
      then show ?thesis
        using header_check_ok [of b5 "length pl + 3"] o Ret by simp
    qed simp_all
    finally show "rbuild_opaque env r tag (offset b' - offset b) b' = ?h b'"
      by (simp add: o)
  qed simp
qed

section \<open>Floats and doubles\<close>

lemma rbuild_real_bytes:
  assumes h: "build_opaque dl tag (length c) = Ret (h, d)" and n: "length c \<le> 9"
  shows "prepends 0 (can_grow env r) (rbuild_real env r tag c) (h @ c)"
proof -
  let ?f = "\<lambda>b. obind (need env r (length c + 3) b) (\<lambda>b1. obind (poke_block c b1) (opaque_header env r tag (length c)))"
  have "prepends (length c + 3) (can_grow env r) (\<lambda>b1. obind (poke_block c b1) (opaque_header env r tag (length c))) (h @ c)"
    by (rule prepends_bind [OF prepends_weaken [OF prepends_poke_block] opaque_header_bytes(2) [OF h n]]) simp_all
  then have F: "prepends 0 (can_grow env r) ?f (h @ c)"
    by (rule prepends_reserve [OF reserves_need]) (simp add: opaque_header_bytes(1) [OF h n])
  have "rbuild_real env r tag c b = ?f b" if ok: "rbuf_ok b" for b
  proof -
    have "rbuild_real env r tag c b = obind (?f b) (\<lambda>b6.
        if Asn01_reallocBuildHeaderCheck b6 (length c + 3) then Null else Ret b6)"
      by (simp add: rbuild_real_def opaque_header_def)
    also have "\<dots> = ?f b"
    proof (cases "?f b")
      case (Ret b6)
      have "offset b6 = offset b + length (h @ c)" "rbuf_ok b6"
        using prepends_offset [OF F ok _ Ret] prependsD(3) [OF F ok _ Ret] by simp_all
      then show ?thesis
        using header_check_ok [of b6 "length c + 3"] opaque_header_bytes(1) [OF h n] Ret by simp
    qed simp_all
    finally show ?thesis .
  qed
  with F show ?thesis
    by (rule prepends_cong)
qed

lemma rbuild_float_bytes:
  assumes "Asn01_buildFloat dl ty v sz = Ret (bs, dl')"
  shows "prepends 0 (can_grow env r) (Asn01_reallocRbuildFloat env r ty v sz) bs"
proof -
  obtain h d where h: "build_opaque dl asnOPAQUE_FLOAT 4 = Ret (h, d)" and bs: "bs = h @ le_bytes (ntohl v)"
    and sz: "sz = 4"
    using assms by (auto simp: Asn01_buildFloat_def elim!: obind_RetE split: if_splits)
  have "prepends 0 (can_grow env r) (rbuild_real env r asnOPAQUE_FLOAT (le_bytes (ntohl v))) bs"
    unfolding bs by (rule rbuild_real_bytes [of dl _ _ _ d]) (simp_all add: h)
  then show ?thesis
    by (rule prepends_cong) (simp add: Asn01_reallocRbuildFloat_def sz)
qed

lemma rbuild_double_bytes:
  assumes "Asn01_buildDouble dl ty v sz = Ret (bs, dl')"
  shows "prepends 0 (can_grow env r) (Asn01_reallocRbuildDouble env r ty v sz) bs"
proof -
  obtain v0 v1 where v: "swap_halves v = (v0, v1)"
    by (cases "swap_halves v")
  obtain h d where h: "build_opaque dl asnOPAQUE_DOUBLE 8 = Ret (h, d)" and bs: "bs = h @ le_bytes v0 @ le_bytes v1"
    and sz: "sz = 8"
    using assms by (auto simp: Asn01_buildDouble_def v elim!: obind_RetE split: if_splits)
  have "prepends 0 (can_grow env r) (rbuild_real env r asnOPAQUE_DOUBLE (le_bytes v0 @ le_bytes v1)) bs"
    unfolding bs by (rule rbuild_real_bytes [of dl _ _ _ d]) (simp_all add: h)
  then show ?thesis
    by (rule prepends_cong) (simp add: Asn01_reallocRbuildDouble_def sz v)
qed

section \<open>The loops over the halves\<close>

lemma shifted_map: "shifted f n x = map (\<lambda>i. ucast ((f ^^ i) x)) [0..<n]"
  by (induction n) (simp_all add: shifted_snoc del: shifted.simps(2))

lemma bit_i64_word: "bit (i64_word n) j \<longleftrightarrow> j < 64 \<and> (if j < 32 then bit (low n) j else bit (high n) (j - 32))"
  by (auto simp: i64_word_def bit_simps dest: bit_imp_le_length)

lemma drop_bit_mono_zero: "drop_bit k (x :: u64) = 0 \<Longrightarrow> k \<le> l \<Longrightarrow> drop_bit l x = 0"
  by (metis drop_bit_drop_bit drop_bit_of_0 le_add_diff_inverse2)

lemma puts_append_fun: "puts env r (vs @ ws) = (\<lambda>b. obind (puts env r vs b) (puts env r ws))"
  by (rule ext) (rule puts_append)

text \<open>The unsigned builder: the bytes of both halves are those of the word.\<close>

lemma unsigned_halves:
  obtains K where "stops (drop_bit 8) 0 v K" and "\<And>env r b. obind (put env r (ucast (lo_of v)) b) (\<lambda>b1.
      obind (ruint_loop env r (drop_bit 8 (lo_of v)) 1 b1) (\<lambda>(count, b2).
        if hi_of v \<noteq> 0 then
          obind (rpad (4 - count) env r 0 b2) (\<lambda>b3.
          obind (put env r (ucast (hi_of v)) b3) (\<lambda>b4.
          obind (ruint_loop env r (drop_bit 8 (hi_of v)) 1 b4) (\<lambda>(_, b5). Ret b5)))
        else Ret b2)) = puts env r (shifted (drop_bit 8) K v) b"
proof -
  let ?lo = "lo_of v" and ?hi = "hi_of v"
  have "(drop_bit 8 ^^ 4) ?lo = 0"
    unfolding funpow_drop_bit lo_of_def by (rule bit_word_eqI) (simp add: bit_simps)
  then obtain M where M: "stops (drop_bit 8) 0 ?lo M" "M \<le> 4"
    by (rule stops_ex) auto
  obtain N where N: "stops (drop_bit 8) 0 ?hi N"
    by (rule stops_unsigned)
  have lo: "obind (put env r (ucast ?lo) b) (\<lambda>b1. obind (ruint_loop env r (drop_bit 8 ?lo) 1 b1) (\<lambda>(count, b2). g count b2))
      = obind (puts env r (shifted (drop_bit 8) M ?lo) b) (g M)" for env r b and g :: "nat \<Rightarrow> rbuf \<Rightarrow> rbuf outcome"
    unfolding obind_assoc [symmetric] ruint_puts [OF M(1)] by simp
  have hi: "obind (put env r (ucast ?hi) b) (\<lambda>b4. obind (ruint_loop env r (drop_bit 8 ?hi) 1 b4) (\<lambda>(_, b5). Ret b5))
      = puts env r (shifted (drop_bit 8) N ?hi) b" for env r b
    unfolding obind_assoc [symmetric] ruint_puts [OF N]
    by (cases "puts env r (shifted (drop_bit 8) N ?hi) b") simp_all
  show ?thesis
  proof (cases "?hi = 0")
    case True
    have "?lo = v"
      using True unfolding hi_of_def lo_of_def by (metis bits_ident add.right_neutral push_bit_of_0 add.commute)
    then have e: "obind (put env r (ucast ?lo) b) (\<lambda>b1. obind (ruint_loop env r (drop_bit 8 ?lo) 1 b1) (\<lambda>(count, b2). Ret b2))
        = puts env r (shifted (drop_bit 8) M v) b" for env r b
      unfolding lo [of env r b "\<lambda>_ b2. Ret b2"] by (cases "puts env r (shifted (drop_bit 8) M v) b") simp_all
    show ?thesis
    proof (rule that [of M])
      show "stops (drop_bit 8) 0 v M"
        using M(1) \<open>?lo = v\<close> by simp
    qed (simp only: True e simp_thms if_False)
  next
    case False
    have d: "drop_bit (8 * (4 + k)) v = drop_bit (8 * k) ?hi" for k
      by (simp add: hi_of_def drop_bit_drop_bit add.commute)
    have "stops (drop_bit 8) 0 v (4 + N)"
      unfolding stops_def funpow_drop_bit
    proof (intro conjI allI impI)
      show "drop_bit (8 * (4 + N)) v = 0"
        using N unfolding d by (simp add: stops_def funpow_drop_bit)
      fix k
      assume k: "1 \<le> k \<and> k < 4 + N"
      show "drop_bit (8 * k) v \<noteq> 0"
      proof (cases "k \<le> 4")
        case True
        then show ?thesis
          using False drop_bit_mono_zero [of "8 * k" v 32] by (auto simp: hi_of_def)
      next
        case gt: False
        then obtain j where "k = 4 + j" "1 \<le> j"
          by (metis le_add_diff_inverse nat_le_linear not_less_eq_eq One_nat_def le_diff_conv2 plus_1_eq_Suc not_le)
        then show ?thesis
          using N k d [of j] by (simp add: stops_def funpow_drop_bit)
      qed
    qed simp
    moreover have "shifted (drop_bit 8) (4 + N) v =
        shifted (drop_bit 8) M ?lo @ replicate (4 - M) 0 @ shifted (drop_bit 8) N ?hi"
    proof -
      have "shifted (drop_bit 8) 4 v = shifted (drop_bit 8) 4 ?lo"
        unfolding shifted_map funpow_drop_bit lo_of_def by (intro map_cong refl bit_word_eqI) (auto simp: bit_simps)
      also have "\<dots> = shifted (drop_bit 8) (M + (4 - M)) ?lo"
        using M(2) by simp
      also have "\<dots> = shifted (drop_bit 8) M ?lo @ shifted (drop_bit 8) (4 - M) (0 :: u64)"
        using M(1) by (simp only: shifted_add stops_def)
      also have "shifted (drop_bit 8) n (0 :: u64) = replicate n 0" for n
        by (induction n) simp_all
      finally show ?thesis
        unfolding shifted_add by (simp add: funpow_drop_bit hi_of_def)
    qed
    moreover have "obind (put env r (ucast ?lo) b) (\<lambda>b1. obind (ruint_loop env r (drop_bit 8 ?lo) 1 b1) (\<lambda>(count, b2).
        if ?hi \<noteq> 0 then
          obind (rpad (4 - count) env r 0 b2) (\<lambda>b3.
          obind (put env r (ucast ?hi) b3) (\<lambda>b4.
          obind (ruint_loop env r (drop_bit 8 ?hi) 1 b4) (\<lambda>(_, b5). Ret b5)))
        else Ret b2)) =
      puts env r (shifted (drop_bit 8) M ?lo @ replicate (4 - M) 0 @ shifted (drop_bit 8) N ?hi) b" for env r b
      unfolding lo if_P [OF False] rpad_puts hi puts_append_fun ..
    ultimately show ?thesis
      by (intro that [of "4 + N"]) simp_all
  qed
qed

lemma rbuild_uint64_bytes:
  assumes "Asn01_buildUnsignedInt64 dl ty x sz = Ret (bs, dl')" and "uint64_type ty"
  shows "prepends 0 (can_grow env r) (Asn01_reallocRbuildUnsignedInt64 env r ty x sz) bs"
  using assms(1)
proof (rule buildUnsignedInt64_RetD)
  fix pl h dlh
  let ?v = "i64_word x"
  assume sz: "sz = 8" and pl: "counter_bytes ?v pl" and h: "uint64_hdr dl ty (length pl) = Ret (h, dlh)"
    and bs: "bs = h @ pl"
  let ?F = "\<lambda>env r b. obind (put env r (ucast (lo_of ?v)) b) (\<lambda>b1.
      obind (ruint_loop env r (drop_bit 8 (lo_of ?v)) 1 b1) (\<lambda>(count, b2).
        if hi_of ?v \<noteq> 0 then
          obind (rpad (4 - count) env r 0 b2) (\<lambda>b3.
          obind (put env r (ucast (hi_of ?v)) b3) (\<lambda>b4.
          obind (ruint_loop env r (drop_bit 8 (hi_of ?v)) 1 b4) (\<lambda>(_, b5). Ret b5)))
        else Ret b2))"
  obtain K where K: "stops (drop_bit 8) 0 ?v K" and F: "\<And>env r b. ?F env r b = puts env r (shifted (drop_bit 8) K ?v) b"
    using unsigned_halves by blast
  have "prepends 0 (can_grow env r) (?F env r) (be_bytes K ?v)"
    using prepends_puts [of env r "shifted (drop_bit 8) K ?v"] unfolding F shifted_be_bytes .
  from prepends_zero_byte [OF K this] obtain pl' where "counter_bytes ?v pl'"
    and P: "prepends 0 (can_grow env r) (\<lambda>b. obind (?F env r b) (fix_sign env r 0)) pl'"
    by blast
  then have "pl' = pl"
    using pl by (intro counter_bytes_unique)
  note P = P [unfolded this]
  note len = counter_bytes_length [OF pl]
  have B: "Asn01_reallocRbuildUnsignedInt64 env r ty x 8 b = obind (obind (?F env r b) (fix_sign env r 0)) (\<lambda>b7.
      if ty = asnOPAQUE_COUNTER64 then rbuild_opaque env r asnOPAQUE_COUNTER64 (offset b7 - offset b) b7
      else if ty = asnOPAQUE_U64 then rbuild_opaque env r asnOPAQUE_U64 (offset b7 - offset b) b7
      else obind (Asn01_reallocBuildHeader env r ty (of_nat (offset b7 - offset b)) b7) (\<lambda>b8.
        if Asn01_reallocBuildHeaderCheck b8 (offset b7 - offset b) then Null else Ret b8))" for b
    by (simp add: Asn01_reallocRbuildUnsignedInt64_def counter_halves Let_def split_def
        cong: obind_cong if_cong) 
  show ?thesis
  proof (cases "ty = asnOPAQUE_COUNTER64 \<or> ty = asnOPAQUE_U64")
    case True
    have ne: "asnOPAQUE_U64 \<noteq> asnOPAQUE_COUNTER64"
      by (simp add: asn_tags)
    have h': "build_opaque dl ty (length pl) = Ret (h, dlh)"
      using h True ne by (auto simp: uint64_hdr_def)
    show ?thesis
      unfolding sz bs using prepends_opaque [OF P h' conjunct2 [OF len]] True ne by (elim prepends_cong2) (auto simp: B)
  next
    case False
    then have h': "build_hdr dl ty (of_nat (length pl)) = Ret (h, dlh)"
      using h by (simp add: uint64_hdr_def)
    obtain hs where hs: "ber_length (of_nat (length pl)) hs" and Q: "prepends 0 (can_grow env r)
        (\<lambda>b. obind (obind (?F env r b) (fix_sign env r 0)) (\<lambda>b7.
          obind (Asn01_reallocBuildHeader env r ty (of_nat (offset b7 - offset b)) b7) (\<lambda>b8.
            if Asn01_reallocBuildHeaderCheck b8 (offset b7 - offset b) then Null else Ret b8))) (ty # hs @ pl)"
      using prepends_item [OF P, of "\<lambda>b b'. of_nat (offset b' - offset b)" "of_nat (length pl)"
          "\<lambda>b b' b4. offset b' - offset b" ty] by auto
    have "(of_nat (length pl) :: u64) \<le> 0xFFFF"
      using len by (simp add: word_le_nat_alt unat_of_nat)
    then have "h = ty # hs"
      by (rule build_hdr_ber_length [OF h' _ hs])
    with Q show ?thesis
      unfolding sz bs using False by (elim prepends_cong2) (simp_all add: B)
  qed
qed

section \<open>The signed halves\<close>

definition sign_half :: "bool \<Rightarrow> u32" where
  "sign_half s = (if s then - 1 else 0)"

lemma bit_sign_half: "bit (sign_half s) j \<longleftrightarrow> j < 32 \<and> s"
  by (simp add: sign_half_def bit_simps)

lemma u32_eq_iff: "(x :: u32) = y \<longleftrightarrow> (\<forall>i < 32. bit x i = bit y i)"
  by (auto intro: bit_word_eqI)

lemma signed_shift_half:
  assumes "k \<le> 3 \<or> bit x 31 = s"
  shows "(signed_drop_bit 8 ^^ k) (x :: u32) = sign_half s \<longleftrightarrow> (\<forall>j < 32. 8 * k \<le> j \<longrightarrow> bit x j = s)"
proof -
  have b: "bit (signed_drop_bit (8 * k) x) i = (if 8 * k + i < 32 then bit x (8 * k + i) else bit x 31)" if "i < 32" for i
    using that by (auto simp: bit_signed_drop_bit_iff)
  have "signed_drop_bit (8 * k) x = sign_half s \<longleftrightarrow> (\<forall>i < 32. bit (signed_drop_bit (8 * k) x) i = s)"
    unfolding u32_eq_iff by (simp add: bit_sign_half)
  also have "\<dots> \<longleftrightarrow> (\<forall>j < 32. 8 * k \<le> j \<longrightarrow> bit x j = s)"
  proof (rule iffI; intro allI impI)
    fix j assume *: "\<forall>i < 32. bit (signed_drop_bit (8 * k) x) i = s" and j: "j < 32" "8 * k \<le> j"
    then show "bit x j = s"
      using * [rule_format, of "j - 8 * k"] b [of "j - 8 * k"] by simp
  next
    fix i :: nat assume *: "\<forall>j < 32. 8 * k \<le> j \<longrightarrow> bit x j = s" and i: "i < 32"
    have "bit x 31 = s"
      using assms * [rule_format, of 31] by (cases "k \<le> 3") auto
    then show "bit (signed_drop_bit (8 * k) x) i = s"
      using * i b [OF i] by auto
  qed
  finally show ?thesis
    by (simp only: funpow_signed_drop_bit)
qed

lemma rlow_loop_puts:
  "m \<le> n \<Longrightarrow> m < n \<longrightarrow> (signed_drop_bit 8 ^^ m) y = tv \<Longrightarrow> \<forall>k < m. (signed_drop_bit 8 ^^ k) y \<noteq> tv \<Longrightarrow>
    rlow_loop n env r tv y b = obind (puts env r (shifted (signed_drop_bit 8) m y) b) (\<lambda>b'. Ret (n - m, b'))"
proof (induction m arbitrary: n y b)
  case 0
  then show ?case
    by (cases n) simp_all
next
  case (Suc m)
  have y: "y \<noteq> tv"
    using Suc.prems(3) by auto
  obtain n' where n: "n = Suc n'"
    using Suc.prems(1) by (cases n) auto
  have sw: "(signed_drop_bit 8 ^^ k) (signed_drop_bit 8 y) = (signed_drop_bit 8 ^^ Suc k) y" for k
    by (simp only: funpow_Suc_right o_apply)
  have "rlow_loop n' env r tv (signed_drop_bit 8 y) b' =
      obind (puts env r (shifted (signed_drop_bit 8) m (signed_drop_bit 8 y)) b') (\<lambda>b'. Ret (n' - m, b'))" for b'
    using Suc.prems n by (intro Suc.IH) (auto simp: sw simp del: funpow.simps)
  then show ?case
    using y by (cases "put env r (ucast y) b") (simp_all add: n)
qed

lemma rhigh_loop_puts:
  "(signed_drop_bit 8 ^^ m) y = tv \<Longrightarrow> \<forall>k < m. (signed_drop_bit 8 ^^ k) y \<noteq> tv \<Longrightarrow> m \<le> n \<Longrightarrow>
    rhigh_loop n env r tv y b = puts env r (shifted (signed_drop_bit 8) m y) b"
proof (induction m arbitrary: n y b)
  case 0
  then show ?case
    by (subst rhigh_loop.simps) simp
next
  case (Suc m)
  have y: "y \<noteq> tv"
    using Suc.prems(2) by auto
  obtain n' where n: "n = Suc n'"
    using Suc.prems(3) by (cases n) auto
  have sw: "(signed_drop_bit 8 ^^ k) (signed_drop_bit 8 y) = (signed_drop_bit 8 ^^ Suc k) y" for k
    by (simp only: funpow_Suc_right o_apply)
  have "rhigh_loop n' env r tv (signed_drop_bit 8 y) b' =
      puts env r (shifted (signed_drop_bit 8) m (signed_drop_bit 8 y)) b'" for b'
    using Suc.prems n by (intro Suc.IH) (auto simp: sw simp del: funpow.simps)
  then show ?case
    using y by (subst rhigh_loop.simps, cases "put env r (ucast y) b") (simp_all add: n)
qed

lemma rhigh_puts:
  assumes "stops (signed_drop_bit 8) tv x M" and "M \<le> Suc n"
  shows "obind (put env r (ucast x) b) (rhigh_loop n env r tv (signed_drop_bit 8 x))
    = puts env r (shifted (signed_drop_bit 8) M x) b"
  using assms(1)
proof (rule stops_Suc)
  fix m
  assume m: "M = Suc m" "(signed_drop_bit 8 ^^ m) (signed_drop_bit 8 x) = tv"
    "\<forall>k < m. (signed_drop_bit 8 ^^ k) (signed_drop_bit 8 x) \<noteq> tv"
  then show ?thesis
    using rhigh_loop_puts [OF m(2,3)] assms(2) by (cases "put env r (ucast x) b") simp_all
qed

text \<open>How many bytes of the low half the first loop writes after the first.\<close>

lemma low_stop:
  obtains m where "m \<le> (3 :: nat)" and "m < 3 \<longrightarrow> P m" and "\<forall>k < m. \<not> P k"
proof (cases "\<exists>m < 3. P m")
  case True
  then have "(LEAST m. P m) < 3" "P (LEAST m. P m)"
    by (auto intro: LeastI Least_le le_less_trans)
  then show ?thesis
    using not_less_Least by (intro that [of "LEAST m. P m"]) auto
qed (use that [of 3] in auto)

lemma half_byte:
  assumes "i < 4"
  shows "(ucast (signed_drop_bit (8 * i) (i64_word x)) :: u8) = ucast (signed_drop_bit (8 * i) (low x))"
    and "(ucast (signed_drop_bit (8 * i) (signed_drop_bit 32 (i64_word x))) :: u8) = ucast (signed_drop_bit (8 * i) (high x))"
proof -
  have n: "8 * i + n < 32" "8 * i + n < 64" "\<not> 32 - 8 * i \<le> n" "\<not> 64 - 8 * i \<le> n" if "n < 8" for n
    using that assms by linarith+
  show "(ucast (signed_drop_bit (8 * i) (i64_word x)) :: u8) = ucast (signed_drop_bit (8 * i) (low x))"
    by (rule bit_word_eqI) (simp add: bit_simps bit_signed_drop_bit_iff bit_i64_word n)
  show "(ucast (signed_drop_bit (8 * i) (signed_drop_bit 32 (i64_word x))) :: u8) = ucast (signed_drop_bit (8 * i) (high x))"
    by (rule bit_word_eqI) (simp add: bit_simps bit_signed_drop_bit_iff bit_i64_word n)
qed

lemma shifted_half:
  assumes "K \<le> 4"
  shows "shifted (signed_drop_bit 8) K (i64_word x) = shifted (signed_drop_bit 8) K (low x)"
    and "shifted (signed_drop_bit 8) K ((signed_drop_bit 8 ^^ 4) (i64_word x)) = shifted (signed_drop_bit 8) K (high x)"
  unfolding shifted_map funpow_signed_drop_bit using assms half_byte by (auto intro!: map_cong)

lemma shifted_sign: "shifted (signed_drop_bit 8) n (sign_half s) = replicate n (ucast (sign_half s))"
proof (induction n)
  case (Suc n)
  have "signed_drop_bit 8 (sign_half s) = sign_half s"
    by (rule bit_word_eqI) (auto simp: bit_signed_drop_bit_iff bit_sign_half)
  then show ?case
    using Suc by simp
qed simp

text \<open>The signed builder: the bytes of both halves are those of the word.\<close>

lemma signed_halves:
  fixes x :: Integer64
  defines "s \<equiv> bit (high x) 31"
  obtains K where "stops (signed_drop_bit 8) (sign_word (i64_word x)) (i64_word x) K" and "K \<le> 8"
    and "\<And>env r b. obind (put env r (ucast (low x)) b) (\<lambda>b1.
      obind (rlow_loop 3 env r (sign_half s) (signed_drop_bit 8 (low x)) b1) (\<lambda>(left, b2).
        if high x \<noteq> sign_half s then
          obind (rpad left env r (ucast (sign_half s)) b2) (\<lambda>b3.
          obind (put env r (ucast (high x)) b3) (\<lambda>b4.
            rhigh_loop 4 env r (sign_half s) (signed_drop_bit 8 (high x)) b4))
        else Ret b2)) = puts env r (shifted (signed_drop_bit 8) K (i64_word x)) b"
proof -
  let ?f = "signed_drop_bit 8 :: u32 \<Rightarrow> u32" and ?t = "sign_half s" and ?v = "i64_word x"
  obtain m where m: "m \<le> 3" "m < 3 \<longrightarrow> (?f ^^ Suc m) (low x) = ?t" "\<forall>k < m. (?f ^^ Suc k) (low x) \<noteq> ?t"
    using low_stop [of "\<lambda>k. (?f ^^ Suc k) (low x) = ?t"] by blast
  have sw: "(?f ^^ k) (?f (low x)) = (?f ^^ Suc k) (low x)" for k
    by (simp only: funpow_Suc_right o_apply)
  have lo: "obind (put env r (ucast (low x)) b) (\<lambda>b1. obind (rlow_loop 3 env r ?t (?f (low x)) b1) (\<lambda>(left, b2). g left b2))
      = obind (puts env r (shifted ?f (Suc m) (low x)) b) (g (3 - m))" for env r b and g :: "nat \<Rightarrow> rbuf \<Rightarrow> rbuf outcome"
  proof -
    have "rlow_loop 3 env r ?t (?f (low x)) b' = obind (puts env r (shifted ?f m (?f (low x))) b') (\<lambda>b'. Ret (3 - m, b'))" for b'
      by (rule rlow_loop_puts) (use m sw in auto)
    then show ?thesis
      by (cases "put env r (ucast (low x)) b") simp_all
  qed
  have sg: "sign_word ?v = (if s then - 1 else 0)" "bit ?v 63 = s"
    by (simp_all add: sign_word_def bit_i64_word s_def)
  have lowbits: "(\<forall>j < 32. 8 * k \<le> j \<longrightarrow> bit (low x) j = s) \<longleftrightarrow> (?f ^^ k) (low x) = ?t" if "k \<le> 3" for k
    using signed_shift_half [of k "low x" s] that by simp
  have hibits: "(\<forall>j < 32. 8 * k \<le> j \<longrightarrow> bit (high x) j = s) \<longleftrightarrow> (?f ^^ k) (high x) = ?t" for k
    using signed_shift_half [of k "high x" s] by (simp add: s_def)
  have vbits: "(signed_drop_bit 8 ^^ k) ?v = sign_word ?v \<longleftrightarrow>
      (\<forall>j < 32. 8 * k \<le> j \<longrightarrow> bit (low x) j = s) \<and> (\<forall>j < 32. 8 * k \<le> 32 + j \<longrightarrow> bit (high x) j = s)" for k
  proof -
    have "(\<forall>j < 64. 8 * k \<le> j \<longrightarrow> bit ?v j = s) \<longleftrightarrow>
        (\<forall>j < 32. 8 * k \<le> j \<longrightarrow> bit ?v j = s) \<and> (\<forall>j < 32. 8 * k \<le> 32 + j \<longrightarrow> bit ?v (32 + j) = s)"
    proof (rule iffI; (intro conjI)?; intro allI impI)
      fix j :: nat assume *: "(\<forall>j < 32. 8 * k \<le> j \<longrightarrow> bit ?v j = s) \<and> (\<forall>j < 32. 8 * k \<le> 32 + j \<longrightarrow> bit ?v (32 + j) = s)"
        and j: "j < 64" "8 * k \<le> j"
      show "bit ?v j = s"
      proof (cases "j < 32")
        case False
        then have "j - 32 < 32" "8 * k \<le> 32 + (j - 32)" "32 + (j - 32) = j"
          using j by simp_all
        then show ?thesis
          using * by metis
      qed (use * j in blast)
    qed simp_all
    then show ?thesis
      unfolding signed_shift_sign sg(2) by (simp add: bit_i64_word)
  qed
  have hi0: "(\<forall>j < 32. bit (high x) j = s) \<longleftrightarrow> high x = ?t"
    using hibits [of 0] by simp
  show ?thesis
  proof (cases "high x = ?t")
    case True
    have st: "stops (signed_drop_bit 8) (sign_word ?v) ?v (Suc m)"
      unfolding stops_def vbits
    proof (intro conjI allI impI)
      show "bit (low x) j = s" if "j < 32" "8 * Suc m \<le> j" for j
        using lowbits [of "Suc m"] m(1,2) that by (cases "m < 3") auto
      show "bit (high x) j = s" if "j < 32" for j
        using hi0 True that by blast
      fix k assume "1 \<le> k \<and> k < Suc m"
      then obtain l where l: "k = Suc l" "l < m"
        by (cases k) auto
      then have "\<not> (\<forall>j < 32. 8 * k \<le> j \<longrightarrow> bit (low x) j = s)"
        using lowbits [of k] m(1,3) by auto
      then show "\<not> ((\<forall>j < 32. 8 * k \<le> j \<longrightarrow> bit (low x) j = s) \<and> (\<forall>j < 32. 8 * k \<le> 32 + j \<longrightarrow> bit (high x) j = s))"
        by blast
    qed simp
    have e: "obind (put env r (ucast (low x)) b) (\<lambda>b1. obind (rlow_loop 3 env r ?t (?f (low x)) b1) (\<lambda>(left, b2). Ret b2))
        = puts env r (shifted (signed_drop_bit 8) (Suc m) ?v) b" for env r b
      unfolding lo [of env r b "\<lambda>_ b2. Ret b2"] using m(1) shifted_half(1) [of "Suc m" x]
      by (cases "puts env r (shifted ?f (Suc m) (low x)) b") simp_all
    show ?thesis
    proof (rule that [OF st])
      show "Suc m \<le> 8"
        using m(1) by simp
    qed (simp only: True simp_thms if_False e)
  next
    case False
    have "(?f ^^ 4) (high x) = ?t"
      using hibits [of 4] by simp
    then obtain N where N: "stops ?f ?t (high x) N" "N \<le> 4"
      by (rule stops_ex) auto
    have "stops (signed_drop_bit 8) (sign_word ?v) ?v (4 + N)"
      unfolding stops_def vbits
    proof (intro conjI allI impI)
      show "bit (high x) j = s" if "j < 32" "8 * (4 + N) \<le> 32 + j" for j
        using hibits [of N] N(1) that by (auto simp: stops_def)
      fix k assume k: "1 \<le> k \<and> k < 4 + N"
      have "\<not> (\<forall>j < 32. 8 * k \<le> 32 + j \<longrightarrow> bit (high x) j = s)"
      proof (cases "k \<le> 4")
        case True
        then show ?thesis
          using hi0 False by fastforce
      next
        case gt: False
        define l where "l = k - 4"
        have l: "k = 4 + l" "1 \<le> l" "l < N"
          using gt k by (auto simp: l_def)
        then show ?thesis
          using hibits [of l] N(1) by (auto simp: stops_def)
      qed
      then show "\<not> ((\<forall>j < 32. 8 * k \<le> j \<longrightarrow> bit (low x) j = s) \<and> (\<forall>j < 32. 8 * k \<le> 32 + j \<longrightarrow> bit (high x) j = s))"
        by blast
    qed simp_all
    moreover have "shifted (signed_drop_bit 8) (4 + N) ?v =
        shifted ?f (Suc m) (low x) @ replicate (3 - m) (ucast ?t) @ shifted ?f N (high x)"
    proof -
      have "shifted ?f 4 (low x) = shifted ?f (Suc m + (3 - m)) (low x)"
        using m(1) by (simp only: add_Suc le_add_diff_inverse) simp
      also have "\<dots> = shifted ?f (Suc m) (low x) @ shifted ?f (3 - m) ((?f ^^ Suc m) (low x))"
        by (rule shifted_add)
      also have "shifted ?f (3 - m) ((?f ^^ Suc m) (low x)) = replicate (3 - m) (ucast ?t)"
        using m(1,2) shifted_sign [of "3 - m" s] by (cases "m < 3") (simp_all del: funpow.simps)
      finally show ?thesis
        unfolding shifted_add using shifted_half(1) [of 4 x] shifted_half(2) [OF N(2), of x] by simp
    qed
    moreover have "obind (put env r (ucast (low x)) b) (\<lambda>b1. obind (rlow_loop 3 env r ?t (?f (low x)) b1) (\<lambda>(left, b2).
        if high x \<noteq> ?t then
          obind (rpad left env r (ucast ?t) b2) (\<lambda>b3.
          obind (put env r (ucast (high x)) b3) (\<lambda>b4. rhigh_loop 4 env r ?t (?f (high x)) b4))
        else Ret b2)) =
      puts env r (shifted ?f (Suc m) (low x) @ replicate (3 - m) (ucast ?t) @ shifted ?f N (high x)) b" for env r b
      unfolding lo if_P [OF False] rpad_puts rhigh_puts [OF N(1) le_SucI [OF N(2)]] puts_append_fun ..
    ultimately show ?thesis
      using N(2) by (intro that [of "4 + N"]) simp_all
  qed
qed

lemma ucast_minus_1: "(ucast (- 1 :: u32) :: u8) = - 1" "(255 :: u8) = - 1"
  by (rule bit_word_eqI) (simp_all add: bit_simps)

lemma rbuild_int64_bytes:
  assumes "Asn01_buildSignedInt64 dl ty x sz = Ret (bs, dl')"
  shows "prepends 0 (can_grow env r) (Asn01_reallocRbuildSignedInt64 env r ty x sz) bs"
  using assms
proof (rule buildSignedInt64_RetD)
  fix n h dlh
  let ?v = "i64_word x" and ?s = "bit (high x) 31"
  let ?t = "sign_half ?s"
  assume sz: "sz = 8" and n: "shortest n ?v" and h: "build_opaque dl asnOPAQUE_I64 n = Ret (h, dlh)"
    and bs: "bs = h @ be_bytes n ?v"
  let ?F = "\<lambda>env r b. obind (put env r (ucast (low x)) b) (\<lambda>b1.
      obind (rlow_loop 3 env r ?t (signed_drop_bit 8 (low x)) b1) (\<lambda>(left, b2).
        if high x \<noteq> ?t then
          obind (rpad left env r (ucast ?t) b2) (\<lambda>b3.
          obind (put env r (ucast (high x)) b3) (\<lambda>b4. rhigh_loop 4 env r ?t (signed_drop_bit 8 (high x)) b4))
        else Ret b2))"
  obtain K where K: "stops (signed_drop_bit 8) (sign_word ?v) ?v K" "K \<le> 8"
    and F: "\<And>env r b. ?F env r b = puts env r (shifted (signed_drop_bit 8) K ?v) b"
    using signed_halves by blast
  obtain n' where n': "shortest n' ?v" and bytes: "be_bytes n' ?v =
      (if hd (be_bytes K ?v) AND 0x80 \<noteq> ucast (sign_word ?v) AND 0x80
       then ucast (sign_word ?v) # be_bytes K ?v else be_bytes K ?v)"
    by (rule sign_extended_shortest [OF K])
  have nn: "n' = n"
    using n' n by (rule shortest_unique)
  obtain y ys where y: "be_bytes K ?v = y # ys"
    using K(1) by (cases K) (auto simp: stops_def)
  have "prepends 0 (can_grow env r) (?F env r) (y # ys)"
    using prepends_puts [of env r "shifted (signed_drop_bit 8) K ?v"]
    unfolding F shifted_signed_be_bytes [OF K(2)] y .
  from prepends_fix_sign [OF this, where tv = "ucast (sign_word ?v)"]
  have P: "prepends 0 (can_grow env r) (\<lambda>b. obind (?F env r b) (fix_sign env r (ucast (sign_word ?v)))) (be_bytes n ?v)"
    by (rule prepends_cong2) (use bytes nn y in simp_all)
  have "high x AND 0x80000000 \<noteq> 0 \<longleftrightarrow> ?s"
    using and_exp_eq_0_iff_not_bit [of "high x" 31] by simp
  then have t: "?t = (if high x AND 0x80000000 \<noteq> 0 then - 1 else 0)" "(ucast ?t :: u8) = (if ?t = 0 then 0 else 0xff)"
    "(ucast (sign_word ?v) :: u8) = ucast ?t"
    using ucast_minus_1 by (simp_all add: sign_half_def ucast_sign_word bit_i64_word)
  have B: "Asn01_reallocRbuildSignedInt64 env r ty x 8 b = obind (obind (?F env r b) (fix_sign env r (ucast ?t)))
      (\<lambda>b6. rbuild_opaque env r asnOPAQUE_I64 (offset b6 - offset b) b6)" for b
    unfolding Asn01_reallocRbuildSignedInt64_def t(1) [symmetric] Let_def t(2) [symmetric] by (simp add: split_def)
  have "length (be_bytes n ?v) \<le> 9" "build_opaque dl asnOPAQUE_I64 (length (be_bytes n ?v)) = Ret (h, dlh)"
    using n h by (simp_all add: shortest_def)
  from prepends_opaque [OF P this(2,1)] show ?thesis
    unfolding sz bs t(3) by (elim prepends_cong2) (simp_all add: B)
qed

end
