(* ===== verification/VarOp.thy ===== *)
theory VarOp
  imports AsnRev64
begin

text \<open>
  Variable bindings, src/Firmware/Core/Priot.c: a binding is a SEQUENCE of a name and a value. The
  pointer \<open>var_val\<close> is cast by the type of the value, so the value argument is a record of what the
  object reads as under each of the casts. Parsing leaves the value in its encoding and returns
  where it starts. Bytes are offsets from the start of the binding; a nested parser is given the
  object from its own start on.
\<close>

record var_val =
  as_long :: u64
  as_counter64 :: Integer64
  as_string :: "u8 list option"
  as_oid :: "oid list"
  as_float :: u32
  as_double :: "u32 \<times> u32"

text \<open>The \<open>switch\<close> on the type.\<close>

definition build_value ::
    "size_t \<Rightarrow> u8 \<Rightarrow> size_t \<Rightarrow> var_val \<Rightarrow> (u8 list \<times> size_t) outcome" where
  "build_value listlength ty val_len v =
     (if ty = asnINTEGER then Asn_buildInt listlength ty (as_long v) val_len
      else if ty \<in> {asnGAUGE, asnCOUNTER, asnTIMETICKS, asnUINTEGER}
      then Asn01_buildUnsignedInt listlength ty (as_long v) val_len
      else if ty \<in> {asnOPAQUE_COUNTER64, asnOPAQUE_U64, asnCOUNTER64}
      then Asn01_buildUnsignedInt64 listlength ty (as_counter64 v) val_len
      else if ty \<in> {asnOCTET_STR, asnIPADDRESS, asnOPAQUE, asnNSAP}
      then Asn01_buildString listlength ty (as_string v) val_len
      else if ty = asnOBJECT_ID then Asn01_buildObjid listlength ty (as_oid v) (unat val_len div 4)
      else if ty = asnNULL then Asn01_buildNull listlength ty
      else if ty = asnBIT_STR then Asn01_buildBitstring listlength ty (as_string v) val_len
      else if ty \<in> {PRIOT_NOSUCHOBJECT, PRIOT_NOSUCHINSTANCE, PRIOT_ENDOFMIBVIEW}
      then Asn01_buildNull listlength ty
      else if ty = asnOPAQUE_FLOAT then Asn01_buildFloat listlength ty (as_float v) val_len
      else if ty = asnOPAQUE_DOUBLE then Asn01_buildDouble listlength ty (as_double v) val_len
      else if ty = asnOPAQUE_I64 then Asn01_buildSignedInt64 listlength ty (as_counter64 v) val_len
      else Null)"

text \<open>
  The header is written last, into the four bytes left for it; the result of \<open>Asn01_buildSequence\<close>
  is ignored. \<open>old\<close> is what the buffer held there.
\<close>

definition Priot_buildVarOp ::
    "u8 list \<Rightarrow> size_t \<Rightarrow> oid list \<Rightarrow> nat \<Rightarrow> u8 \<Rightarrow> size_t \<Rightarrow> var_val \<Rightarrow> (u8 list \<times> size_t) outcome" where
  "Priot_buildVarOp old listlength var_name var_name_len ty val_len v =
     (if listlength < 4 then Null
      else
        obind (Asn01_buildObjid (listlength - 4) asnOBJECT_ID var_name var_name_len) (\<lambda>(nbs, l1).
        obind (build_value l1 ty val_len v) (\<lambda>(vbs, l2).
          let dummyLen = of_nat (length nbs + length vbs);
              header = (case Asn01_buildSequence dummyLen (asnSEQUENCE OR asnCONSTRUCTOR) dummyLen of
                          Ret (h, _) \<Rightarrow> h | _ \<Rightarrow> take 4 old)
          in Ret (header @ nbs @ vbs, l2))))"

definition Priot_parseVarOp ::
    "u8 list \<Rightarrow> oid list \<Rightarrow> size_t \<Rightarrow> size_t
     \<Rightarrow> (nat \<times> oid list \<times> size_t \<times> u8 \<times> size_t \<times> nat \<times> size_t) outcome" where
  "Priot_parseVarOp data var_name var_name_len listlength =
     obind (Asn01_parseSequence data listlength (asnSEQUENCE OR asnCONSTRUCTOR)) (\<lambda>(p0, len0, _).
     obind (Asn01_parseObjid (drop p0 data) len0 var_name var_name_len) (\<lambda>(p1, len1, ty1, name1, nlen1).
     if ty1 \<noteq> asnOBJECT_ID then Null
     else obind (Asn01_parseHeader (drop (p0 + p1) data) len1) (\<lambda>(p2, len2, vtype).
       let end = p0 + p1 + p2 + unat len2
       in Ret (end, name1, nlen1, vtype, len2, p0 + p1, listlength - c_int (of_nat end)))))"

definition rbuild_value ::
    "heap_env \<Rightarrow> bool \<Rightarrow> u8 \<Rightarrow> size_t \<Rightarrow> var_val \<Rightarrow> rbuf \<Rightarrow> rbuf outcome" where
  "rbuild_value env r ty val_len v =
     (if ty = asnINTEGER then Asn01_reallocRbuildInt env r ty (as_long v) val_len
      else if ty \<in> {asnGAUGE, asnCOUNTER, asnTIMETICKS, asnUINTEGER}
      then Asn01_reallocRbuildUnsignedInt env r ty (as_long v) val_len
      else if ty \<in> {asnOPAQUE_COUNTER64, asnOPAQUE_U64, asnCOUNTER64}
      then Asn01_reallocRbuildUnsignedInt64 env r ty (as_counter64 v) val_len
      else if ty \<in> {asnOCTET_STR, asnIPADDRESS, asnOPAQUE, asnNSAP}
      then (\<lambda>b. case as_string v of
              None \<Rightarrow> if val_len = 0 then Asn01_reallocRbuildString env r ty [] 0 b else Crash
            | Some s \<Rightarrow> Asn01_reallocRbuildString env r ty s val_len b)
      else if ty = asnOBJECT_ID then Asn01_reallocRbuildObjid env r ty (as_oid v) (unat val_len div 4)
      else if ty = asnNULL then Asn01_reallocRbuildNull env r ty
      else if ty = asnBIT_STR
      then (\<lambda>b. case as_string v of
              None \<Rightarrow> if val_len = 0 then Asn01_reallocRbuildBitstring env r ty [] 0 b else Crash
            | Some s \<Rightarrow> Asn01_reallocRbuildBitstring env r ty s val_len b)
      else if ty \<in> {PRIOT_NOSUCHOBJECT, PRIOT_NOSUCHINSTANCE, PRIOT_ENDOFMIBVIEW}
      then Asn01_reallocRbuildNull env r ty
      else if ty = asnOPAQUE_FLOAT then Asn01_reallocRbuildFloat env r ty (as_float v) val_len
      else if ty = asnOPAQUE_DOUBLE then Asn01_reallocRbuildDouble env r ty (as_double v) val_len
      else if ty = asnOPAQUE_I64 then Asn01_reallocRbuildSignedInt64 env r ty (as_counter64 v) val_len
      else (\<lambda>b. Null))"

definition Priot_reallocRbuildVarOp ::
    "heap_env \<Rightarrow> bool \<Rightarrow> oid list \<Rightarrow> nat \<Rightarrow> u8 \<Rightarrow> size_t \<Rightarrow> var_val \<Rightarrow> rbuf \<Rightarrow> rbuf outcome" where
  "Priot_reallocRbuildVarOp env r var_name var_name_len ty val_len v b =
     obind (rbuild_value env r ty val_len v b) (\<lambda>b1.
     obind (Asn01_reallocRbuildObjid env r asnOBJECT_ID var_name var_name_len b1) (\<lambda>b2.
       Asn01_reallocRbuildSequence env r (asnSEQUENCE OR asnCONSTRUCTOR)
         (of_nat (offset b2 - offset b)) b2))"

section \<open>Items\<close>

text \<open>
  What every builder writes: a header and the contents it announces, plain, or with the header of
  the special Opaque types.
\<close>

definition plain_item :: "u8 \<Rightarrow> u64 \<Rightarrow> u8 list \<Rightarrow> bool" where
  "plain_item ty n bs \<longleftrightarrow>
     (\<exists>dl h d c. build_hdr dl ty n = Ret (h, d) \<and> bs = h @ c \<and> length c = unat n)"

definition opaque_item :: "u8 \<Rightarrow> u64 \<Rightarrow> u8 list \<Rightarrow> bool" where
  "opaque_item tag n bs \<longleftrightarrow>
     (\<exists>dl h d c. build_opaque dl tag (unat n) = Ret (h, d) \<and> bs = h @ c \<and> length c = unat n \<and>
        1 \<le> unat n \<and> unat n \<le> 9)"

definition special_tags :: "u8 set" where
  "special_tags = {asnOPAQUE_COUNTER64, asnOPAQUE_U64, asnOPAQUE_FLOAT, asnOPAQUE_DOUBLE, asnOPAQUE_I64}"

lemma parseHeader_plain:
  assumes "plain_item ty n bs" and "length bs \<le> unat dl" and "length bs \<le> 0xFFFF"
    and "ty \<noteq> asnOPAQUE" and "\<not> asnIS_EXTENSION_ID ty"
  shows "Asn01_parseHeader (bs @ rest) dl = Ret (length bs - unat n, n, ty)"
proof -
  obtain d0 h d c where h: "build_hdr d0 ty n = Ret (h, d)" and bs: "bs = h @ c" and c: "length c = unat n"
    using assms(1) by (auto simp: plain_item_def)
  have "n \<le> 0xFFFF" and fit: "length h + unat n \<le> unat dl"
    using assms(2,3) c by (simp_all add: bs word_le_nat_alt)
  note P = parse_len_build_hdr [OF h this]
  have "h \<noteq> []"
    using build_hdr_RetD(2) [OF h] by auto
  then have "rd (bs @ rest) 0 = Ret ty"
    using P(2) by (simp add: bs rd_Ret_iff nth_append hd_conv_nth)
  then show ?thesis
    using P(1) [of "c @ rest"] P(3) assms(4,5) c by (simp add: Asn01_parseHeader_def bs)
qed

lemma opaque_tag_plain: "\<not> asnIS_EXTENSION_ID asnOPAQUE"
  by (simp add: asnIS_EXTENSION_ID_def asn_tags)

lemma parseHeader_opaque:
  assumes "opaque_item tag n bs" and "length bs \<le> unat dl" and "tag \<in> special_tags"
  shows "Asn01_parseHeader (bs @ rest) dl = Ret (length bs - unat n, n, tag)"
proof -
  obtain d0 h d c where h: "build_opaque d0 tag (unat n) = Ret (h, d)" and bs: "bs = h @ c"
    and c: "length c = unat n" and n: "1 \<le> unat n" "unat n \<le> 9"
    using assms(1) by (auto simp: opaque_item_def)
  have fit: "length h + unat n \<le> unat dl"
    using assms(2) c by (simp add: bs)
  obtain b l where p: "parse_len (h @ c @ rest) 1 dl = Ret (b, l)"
    and h0: "(h @ c @ rest) ! 0 = asnOPAQUE" and "h \<noteq> []"
    and po: "parse_opaque (h @ c @ rest) dl asnOPAQUE b l special_tags =
      Ret (Some (tag, length h, of_nat (unat n)))"
    using parse_opaque_build [OF h n assms(3) fit, of "c @ rest"] by blast
  have t: "rd (h @ c @ rest) b = Ret asnOPAQUE_TAG1" "rd (h @ c @ rest) (b + 1) = Ret tag"
    "parse_len (h @ c @ rest) (b + 2) dl = Ret (length h, n)"
    using po by (auto simp: parse_opaque_def elim!: obind_RetE split: if_splits)
  have "c_int n = n"
    using n(2) by (intro c_int_small) (simp add: word_le_nat_alt)
  moreover have "rd (h @ c @ rest) 0 = Ret asnOPAQUE"
    using h0 \<open>h \<noteq> []\<close> by (simp add: rd_Ret_iff)
  moreover have "tag \<in> {asnOPAQUE_COUNTER64, asnOPAQUE_U64, asnOPAQUE_FLOAT, asnOPAQUE_DOUBLE, asnOPAQUE_I64}"
    using assms(3) by (simp add: special_tags_def)
  ultimately show ?thesis
    using p t opaque_tag_plain by (simp add: Asn01_parseHeader_def bs c del: insert_iff)
qed


text \<open>\<open>item\<close>: a plain item, or a special Opaque when the type is one; with the capacity it took.\<close>

definition item :: "u8 \<Rightarrow> u8 list \<Rightarrow> bool" where
  "item ty bs \<longleftrightarrow> (\<exists>n. if ty \<in> special_tags then opaque_item ty n bs else plain_item ty n bs)"

lemma plain_itemI:
  assumes "build_hdr dl ty n = Ret (h, d)" and "length c = unat n" and "ty \<notin> special_tags"
  shows "item ty (h @ c)"
  using assms unfolding item_def plain_item_def by auto

lemma opaque_itemI:
  assumes "build_opaque dl tag n = Ret (h, d)" and "length c = n" and "1 \<le> n" and "n \<le> 9"
    and "tag \<in> special_tags"
  shows "item tag (h @ c)"
proof -
  have "unat (of_nat n :: u64) = n"
    using assms(4) by (simp add: unat_of_nat)
  then have "opaque_item tag (of_nat n) (h @ c)"
    using assms unfolding opaque_item_def by metis
  then show ?thesis
    using assms(5) by (auto simp: item_def)
qed

lemma unat_small_nat: "n \<le> 9 \<Longrightarrow> unat (of_nat n :: u64) = n"
  by (simp add: unat_of_nat)

lemma buildInt_item:
  assumes "Asn_buildInt dl ty x sz = Ret (bs, dl')" and "ty \<notin> special_tags"
  shows "item ty bs"
  using assms(1)
proof (rule buildInt_RetD)
  fix n h dlh
  assume n: "shortest n (asnCHECK_OVERFLOW_SIGNED x)" and h: "build_hdr dl ty (of_nat n) = Ret (h, dlh)"
    and bs: "bs = h @ be_bytes n (asnCHECK_OVERFLOW_SIGNED x)"
  show ?thesis
    unfolding bs using n by (intro plain_itemI [OF h _ assms(2)]) (simp add: unat_small_nat shortest_def)
qed

lemma buildUnsignedInt_item:
  assumes "Asn01_buildUnsignedInt dl ty x sz = Ret (bs, dl')" and "ty \<notin> special_tags"
  shows "item ty bs"
  using assms(1)
proof (rule buildUnsignedInt_RetD)
  fix n h dlh
  assume n: "shortest n (asnCHECK_OVERFLOW_UNSIGNED x)" and h: "build_hdr dl ty (of_nat n) = Ret (h, dlh)"
    and bs: "bs = h @ be_bytes n (asnCHECK_OVERFLOW_UNSIGNED x)"
  show ?thesis
    unfolding bs using n by (intro plain_itemI [OF h _ assms(2)]) (simp add: unat_small_nat shortest_def)
qed

lemma buildUnsignedInt64_item:
  assumes "Asn01_buildUnsignedInt64 dl ty x sz = Ret (bs, dl')" and "uint64_type ty"
  shows "item ty bs"
  using assms(1)
proof (rule buildUnsignedInt64_RetD)
  fix pl h dlh
  assume pl: "counter_bytes (i64_word x) pl" and h: "uint64_hdr dl ty (length pl) = Ret (h, dlh)"
    and bs: "bs = h @ pl"
  note len = counter_bytes_length [OF pl]
  show ?thesis
  proof (cases "ty = asnCOUNTER64")
    case True
    then have "build_hdr dl ty (of_nat (length pl)) = Ret (h, dlh)"
      using h by (simp add: uint64_hdr_def asn_tags)
    moreover have "length pl = unat (of_nat (length pl) :: u64)"
      using len by (simp add: unat_of_nat)
    moreover have "ty \<notin> special_tags"
      using True by (simp add: special_tags_def asn_tags)
    ultimately show ?thesis
      unfolding bs by (rule plain_itemI)
  next
    case False
    then have "build_opaque dl ty (length pl) = Ret (h, dlh)" and "ty \<in> special_tags"
      using h assms(2) by (auto simp: uint64_hdr_def uint64_type_def special_tags_def split: if_splits)
    then show ?thesis
      unfolding bs using len by (intro opaque_itemI) auto
  qed
qed

lemma buildSignedInt64_item:
  assumes "Asn01_buildSignedInt64 dl ty x sz = Ret (bs, dl')"
  shows "item asnOPAQUE_I64 bs"
  using assms
proof (rule buildSignedInt64_RetD)
  fix n h dlh
  assume n: "shortest n (i64_word x)" and h: "build_opaque dl asnOPAQUE_I64 n = Ret (h, dlh)"
    and bs: "bs = h @ be_bytes n (i64_word x)"
  show ?thesis
    unfolding bs using n by (intro opaque_itemI [OF h]) (simp_all add: shortest_def special_tags_def)
qed

lemma buildString_item:
  assumes "Asn01_buildString dl ty str n = Ret (bs, dl')" and "ty \<notin> special_tags"
  shows "item ty bs" and "length bs + unat dl' = unat dl"
proof -
  obtain h d c where h: "build_hdr dl ty n = Ret (h, d)" and bs: "bs = h @ c" and dl': "dl' = d - n"
    and c: "(if n \<noteq> 0 then (case str of None \<Rightarrow> Ret (replicate (unat n) 0)
               | Some s \<Rightarrow> rd_block s 0 (unat n)) else Ret []) = Ret c"
    using assms(1) unfolding Asn01_buildString_def by (auto elim!: obind_RetE)
  have "length c = unat n"
    using c by (auto simp: rd_block_Ret_iff split: if_splits option.splits)
  with plain_itemI [OF h _ assms(2)] show "item ty bs"
    by (simp add: bs)
  show "length bs + unat dl' = unat dl"
    using build_hdr_RetD [OF h] \<open>length c = unat n\<close> by (simp add: bs dl' unat_sub_if)
qed

lemma buildObjid_item:
  assumes "Asn01_buildObjid dl ty xs n = Ret (bs, dl')" and "ty \<notin> special_tags"
  shows "item ty bs"
proof -
  from assms(1) obtain first n1 vals h dlh
    where n1: "\<not> n1 > TYPES_MAX_OID_LEN" and vals: "vals = first # map ucast (take (n1 - 2) (drop 2 xs))"
      and h: "build_hdr dl ty (of_nat (sum_list (map objid_size vals))) = Ret (h, dlh)"
      and bs: "bs = h @ concat (map2 emit_subid (map objid_size vals) vals)"
    unfolding Asn01_buildObjid_def
    by (auto simp: Let_def elim!: obind_RetE split: if_splits prod.splits simp del: list.map)
  have "sum_list (map objid_size vals) \<le> 5 * length vals"
    by (rule emitted_length)
  also have "length vals \<le> 128"
    using n1 by (simp add: vals TYPES_MAX_OID_LEN_def)
  finally have "unat (of_nat (sum_list (map objid_size vals)) :: u64) = sum_list (map objid_size vals)"
    by (simp add: unat_of_nat)
  then show ?thesis
    unfolding bs by (intro plain_itemI [OF h _ assms(2)]) (simp only: length_emitted)
qed

lemma buildBitstring_NULL: "Asn01_buildBitstring dl ty None n \<noteq> Ret x"
  by (auto simp: Asn01_buildBitstring_def Asn01_bitStringCheck_def word_gt_0 obind_Ret_iff split: if_splits)

lemma buildBitstring_item:
  assumes "Asn01_buildBitstring dl ty str n = Ret (bs, dl')" and "ty \<notin> special_tags"
  shows "item ty bs" and "length bs + unat dl' = unat dl"
proof -
  obtain s where "str = Some s"
    using assms(1) buildBitstring_NULL by (cases str) auto
  then have b: "Asn01_buildBitstring dl ty (Some s) n = Ret (bs, dl')"
    using assms(1) by simp
  show "length bs + unat dl' = unat dl"
    by (rule buildBitstring_capacity [OF b])
  obtain h dlh where "build_hdr dl ty n = Ret (h, dlh)" "bs = h @ take (unat n) s" "unat n \<le> length s"
    by (rule buildBitstring_RetD [OF b])
  then show "item ty bs"
    using assms(2) by (auto intro: plain_itemI)
qed

lemma buildNull_item:
  assumes "Asn01_buildNull dl ty = Ret (bs, dl')" and "ty \<notin> special_tags"
  shows "item ty bs"
proof -
  have "build_hdr dl ty 0 = Ret (bs, dl')"
    using assms(1) by (simp add: Asn01_buildNull_def build_hdr_def Asn01_buildHeaderCheck_def)
  then show ?thesis
    using plain_itemI [of dl ty 0 bs dl' "[]"] assms(2) by simp
qed

lemma buildFloat_item: "Asn01_buildFloat dl ty x sz = Ret (bs, dl') \<Longrightarrow> item asnOPAQUE_FLOAT bs"
  by (auto simp: Asn01_buildFloat_def special_tags_def elim!: obind_RetE split: if_splits
      intro!: opaque_itemI)

lemma buildDouble_item: "Asn01_buildDouble dl ty x sz = Ret (bs, dl') \<Longrightarrow> item asnOPAQUE_DOUBLE bs"
  by (auto simp: Asn01_buildDouble_def special_tags_def elim!: obind_RetE split: if_splits prod.splits
      intro!: opaque_itemI)


lemma real_capacity:
  assumes "build_opaque dl tag n = Ret (h, d)" and "length c = n" and "n \<le> 9" and "k = of_nat n"
  shows "length (h @ c) + unat (d - k) = unat dl"
  using build_opaque_RetD [OF assms(1,3)] assms(2-4) by (simp add: unat_sub_if unat_of_nat)

lemma buildFloat_capacity:
  assumes "Asn01_buildFloat dl ty x sz = Ret (bs, dl')"
  shows "length bs + unat dl' = unat dl"
proof -
  obtain h d where h: "build_opaque dl asnOPAQUE_FLOAT 4 = Ret (h, d)"
    and bs: "bs = h @ le_bytes (ntohl x)" and dl': "dl' = d - 4"
    using assms by (auto simp: Asn01_buildFloat_def elim!: obind_RetE split: if_splits)
  show ?thesis
    unfolding bs dl' by (rule real_capacity [OF h]) simp_all
qed

lemma buildDouble_capacity:
  assumes "Asn01_buildDouble dl ty x sz = Ret (bs, dl')"
  shows "length bs + unat dl' = unat dl"
proof -
  obtain v0 v1 h d where h: "build_opaque dl asnOPAQUE_DOUBLE 8 = Ret (h, d)"
    and bs: "bs = h @ le_bytes v0 @ le_bytes v1" and dl': "dl' = d - 8"
    using assms by (auto simp: Asn01_buildDouble_def elim!: obind_RetE split: if_splits prod.splits)
  show ?thesis
    unfolding bs dl' by (rule real_capacity [OF h]) simp_all
qed

text \<open>Which types a binding may have, and the bytes \<open>build_value\<close> writes for them.\<close>

definition var_type :: "u8 \<Rightarrow> bool" where
  "var_type ty \<longleftrightarrow> ty \<in> {asnINTEGER, asnGAUGE, asnCOUNTER, asnTIMETICKS, asnUINTEGER,
     asnOPAQUE_COUNTER64, asnOPAQUE_U64, asnCOUNTER64, asnOCTET_STR, asnIPADDRESS, asnNSAP,
     asnOBJECT_ID, asnNULL, asnBIT_STR, PRIOT_NOSUCHOBJECT, PRIOT_NOSUCHINSTANCE,
     PRIOT_ENDOFMIBVIEW, asnOPAQUE_FLOAT, asnOPAQUE_DOUBLE, asnOPAQUE_I64}"

lemma var_type_tags:
  "var_type ty \<Longrightarrow> ty \<noteq> asnOPAQUE" "var_type ty \<Longrightarrow> ty \<notin> special_tags \<Longrightarrow> \<not> asnIS_EXTENSION_ID ty"
  by (auto simp: var_type_def special_tags_def asnIS_EXTENSION_ID_def asn_tags PRIOT_NOSUCHOBJECT_def
      PRIOT_NOSUCHINSTANCE_def PRIOT_ENDOFMIBVIEW_def)

lemma plain_types [simp]:
  "asnINTEGER \<notin> special_tags" "asnGAUGE \<notin> special_tags" "asnCOUNTER \<notin> special_tags"
  "asnTIMETICKS \<notin> special_tags" "asnUINTEGER \<notin> special_tags" "asnOCTET_STR \<notin> special_tags"
  "asnIPADDRESS \<notin> special_tags" "asnOPAQUE \<notin> special_tags" "asnNSAP \<notin> special_tags"
  "asnOBJECT_ID \<notin> special_tags" "asnNULL \<notin> special_tags" "asnBIT_STR \<notin> special_tags"
  "PRIOT_NOSUCHOBJECT \<notin> special_tags" "PRIOT_NOSUCHINSTANCE \<notin> special_tags"
  "PRIOT_ENDOFMIBVIEW \<notin> special_tags"
  by (simp_all add: special_tags_def asn_tags PRIOT_NOSUCHOBJECT_def PRIOT_NOSUCHINSTANCE_def
      PRIOT_ENDOFMIBVIEW_def)

lemma counter_types [simp]:
  "uint64_type asnCOUNTER64" "uint64_type asnOPAQUE_COUNTER64" "uint64_type asnOPAQUE_U64"
  by (simp_all add: uint64_type_def)

lemmas builder_items = buildInt_item buildUnsignedInt_item buildUnsignedInt64_item buildSignedInt64_item
  buildString_item(1) buildObjid_item buildNull_item buildBitstring_item(1) buildFloat_item buildDouble_item

lemma buildNull_capacity: "Asn01_buildNull dl ty = Ret (bs, dl') \<Longrightarrow> length bs + unat dl' = unat dl"
  unfolding Asn01_buildNull_def by (rule buildHeader_RetD)

lemmas builder_capacities = buildInt_capacity buildUnsignedInt_capacity buildUnsignedInt64_capacity
  buildSignedInt64_capacity buildObjid_capacity buildBitstring_item(2) buildFloat_capacity
  buildDouble_capacity buildNull_capacity

lemma build_value_item:
  assumes "build_value l ty n v = Ret (bs, l')"
  shows "item ty bs"
  using assms unfolding build_value_def
  by (auto intro: builder_items split: if_splits)

lemma build_value_capacity:
  assumes "build_value l ty n v = Ret (bs, l')"
  shows "length bs + unat l' = unat l"
  using assms unfolding build_value_def
  by (auto intro: builder_capacities buildString_item(2) split: if_splits)

section \<open>The round trip of a binding\<close>

lemma special_item_header:
  assumes "item ty bs" and "var_type ty" and "length bs \<le> unat dl" and "length bs \<le> 0xFFFF"
  obtains n where "Asn01_parseHeader (bs @ rest) dl = Ret (length bs - unat n, n, ty)"
    and "unat n < length bs"
proof (cases "ty \<in> special_tags")
  case True
  then obtain n where n: "opaque_item ty n bs"
    using assms(1) by (auto simp: item_def)
  then have "unat n < length bs"
    by (auto simp: opaque_item_def build_opaque_def elim!: obind_RetE)
  with that parseHeader_opaque [OF n assms(3) True] show thesis
    by blast
next
  case False
  then obtain n where n: "plain_item ty n bs"
    using assms(1) by (auto simp: item_def)
  then have "unat n < length bs"
    using build_hdr_RetD(2) by (fastforce simp: plain_item_def)
  with that parseHeader_plain [OF n assms(3,4)] var_type_tags [OF assms(2)] False show thesis
    by blast
qed

text \<open>
  The parser looks at the two bytes behind the header of an Opaque, even where they are not its contents,
  and takes it for a special type when they are the marks of one.
\<close>

definition opaque_free :: "u8 list \<Rightarrow> bool" where
  "opaque_free bs \<longleftrightarrow> bs \<noteq> [] \<and> (hd bs = asnOPAQUE_TAG1 \<longrightarrow> 2 \<le> length bs \<and> bs ! 1 \<notin> special_tags)"

definition typed_item :: "u8 \<Rightarrow> u8 list \<Rightarrow> u8 list \<Rightarrow> bool" where
  "typed_item ty bs rest \<longleftrightarrow> var_type ty \<and> item ty bs \<or>
     ty = asnOPAQUE \<and> (\<exists>dl n h d c. build_hdr dl ty n = Ret (h, d) \<and> bs = h @ c \<and> length c = unat n \<and>
       opaque_free (c @ rest))"

lemma build_value_type:
  assumes "build_value l ty n v = Ret (bs, l')"
  shows "var_type ty \<or> ty = asnOPAQUE"
  using assms unfolding build_value_def var_type_def by (auto split: if_splits)

text \<open>What a string builder writes behind the header; zeros for a NULL pointer.\<close>

definition string_contents :: "var_val \<Rightarrow> size_t \<Rightarrow> u8 list" where
  "string_contents v len =
     (case as_string v of None \<Rightarrow> replicate (unat len) 0 | Some s \<Rightarrow> take (unat len) s)"

lemma build_value_opaque:
  assumes "build_value l asnOPAQUE n v = Ret (bs, l')"
  obtains h d where "build_hdr l asnOPAQUE n = Ret (h, d)" and "bs = h @ string_contents v n"
    and "length (string_contents v n) = unat n"
proof -
  have "Asn01_buildString l asnOPAQUE (as_string v) n = Ret (bs, l')"
    using assms by (simp add: build_value_def asn_tags)
  then show thesis
    using that by (auto simp: Asn01_buildString_def obind_Ret_iff rd_block_Ret_iff string_contents_def
        split: if_splits option.splits)
qed

lemma build_value_typed:
  assumes "build_value l ty n v = Ret (bs, l')"
    and "ty = asnOPAQUE \<longrightarrow> opaque_free (string_contents v n @ rest)"
  shows "typed_item ty bs rest"
proof (cases "ty = asnOPAQUE")
  case True
  then obtain h d where "build_hdr l asnOPAQUE n = Ret (h, d)" "bs = h @ string_contents v n"
    "length (string_contents v n) = unat n"
    using build_value_opaque assms(1) by metis
  then show ?thesis
    using assms(2) True unfolding typed_item_def by metis
next
  case False
  then show ?thesis
    using build_value_type [OF assms(1)] build_value_item [OF assms(1)] by (simp add: typed_item_def)
qed

lemma opaque_item_header:
  assumes h: "build_hdr d0 asnOPAQUE n = Ret (h, d)" and c: "length c = unat n" "opaque_free (c @ rest)"
    and fit: "length (h @ c) \<le> unat dl" "length (h @ c) \<le> 0xFFFF"
  shows "Asn01_parseHeader (h @ c @ rest) dl = Ret (length h, n, asnOPAQUE)" and "h \<noteq> []"
proof -
  have "n \<le> 0xFFFF" and f: "length h + unat n \<le> unat dl"
    using fit c(1) by (simp_all add: word_le_nat_alt)
  note P = parse_len_build_hdr [OF h this]
  show ne: "h \<noteq> []"
    using build_hdr_RetD(2) [OF h] by auto
  then have r0: "rd (h @ c @ rest) 0 = Ret asnOPAQUE"
    using P(2) by (simp add: rd_Ret_iff nth_append hd_conv_nth)
  have tags: "{asnOPAQUE_COUNTER64, asnOPAQUE_U64, asnOPAQUE_FLOAT, asnOPAQUE_DOUBLE, asnOPAQUE_I64} = special_tags"
    by (simp add: special_tags_def)
  obtain x xs where x: "c @ rest = x # xs"
    using c(2) by (cases "c @ rest") (auto simp: opaque_free_def)
  then have t: "x = asnOPAQUE_TAG1 \<longrightarrow> xs \<noteq> [] \<and> hd xs \<notin> special_tags"
    using c(2) by (cases xs) (auto simp: opaque_free_def)
  have r1: "rd (h @ c @ rest) (length h) = Ret x" "xs \<noteq> [] \<longrightarrow> rd (h @ c @ rest) (length h + 1) = Ret (hd xs)"
    unfolding x by (auto simp: rd_Ret_iff nth_append neq_Nil_conv)
  show "Asn01_parseHeader (h @ c @ rest) dl = Ret (length h, n, asnOPAQUE)"
    unfolding Asn01_parseHeader_def r0 tags using P(1) [of "c @ rest"] P(3) opaque_tag_plain r1 t by simp
qed

lemma item_header:
  assumes "typed_item ty bs rest" and "length bs \<le> unat dl" and "length bs \<le> 0xFFFF"
  obtains n where "Asn01_parseHeader (bs @ rest) dl = Ret (length bs - unat n, n, ty)"
    and "unat n < length bs"
proof (cases "ty = asnOPAQUE")
  case True
  then have "\<not> var_type ty"
    using var_type_tags(1) by blast
  then obtain d0 n h d c where h: "build_hdr d0 asnOPAQUE n = Ret (h, d)" and bs: "bs = h @ c"
    and c: "length c = unat n" "opaque_free (c @ rest)"
    using assms(1) True unfolding typed_item_def by blast
  note o = opaque_item_header [OF h c assms(2,3) [unfolded bs]]
  show thesis
    by (rule that [of n]) (use o bs c True in simp_all)
next
  case False
  then have i: "item ty bs" "var_type ty"
    using assms(1) by (auto simp: typed_item_def)
  show thesis
    by (rule special_item_header [OF i assms(2,3)]) (rule that)
qed

lemma shift_in_two:
  "shift_in (Suc (Suc 0)) (a # b # x # y # bs) (Suc (Suc 0)) 0 = Ret (4, push_bit 8 (ucast x) OR ucast y)"
  by (simp add: rd_def)

lemma parseLength_two:
  assumes "push_bit 8 (ucast x) OR ucast y = (n :: u64)" and "\<not> sint n < 0"
  shows "Asn01_parseLength (a # 0x82 # x # y # bs) 1 = Ret (4, n)"
proof -
  have "(0x82 :: u8) AND asnLONG_LEN \<noteq> 0" "(0x82 :: u8) AND NOT asnLONG_LEN = 2"
    by (simp_all add: asnLONG_LEN_def)
  moreover have "unat (2 :: u8) = Suc (Suc 0)" "(1 :: nat) + 1 = Suc (Suc 0)"
    by simp_all
  moreover have "rd (a # 0x82 # x # y # bs) 1 = Ret 0x82"
    by (simp add: rd_def)
  ultimately show ?thesis
    using assms(2) by (simp only: Asn01_parseLength_def obind.simps Let_def shift_in_two assms(1)) simp
qed

lemma sequence_header:
  fixes n dl :: u64
  assumes "Asn01_buildSequence n (asnSEQUENCE OR asnCONSTRUCTOR) n = Ret (h, d)" and "n \<le> 0xFFFF"
    and "unat n + 4 \<le> unat dl"
  shows "Asn01_parseSequence (h @ bs) dl (asnSEQUENCE OR asnCONSTRUCTOR) =
    Ret (4, n, asnSEQUENCE OR asnCONSTRUCTOR)" and "length h = 4"
proof -
  let ?hi = "ucast (drop_bit 8 n AND 0xFF) :: u8" and ?lo = "ucast (n AND 0xFF) :: u8"
  have h: "h = [0x30, 0x82, ?hi, ?lo]"
    using assms(1) by (auto simp: Asn01_buildSequence_def asn_tags split: if_splits)
  have len: "unat n \<le> 0xFFFF"
    using assms(2) by (simp add: word_le_nat_alt)
  have "\<not> sint n < 0"
    using len by (simp add: sint_nonneg)
  then have l: "Asn01_parseLength (h @ bs) 1 = Ret (4, n)"
    unfolding h append_Cons append_Nil by (rule parseLength_two [OF hi_lo_bytes [OF len]])
  have "parse_len (h @ bs) 1 dl = Ret (4, n)"
    using l assms(2,3)
    by (simp add: parse_len_def Asn01_parseLengthCheck_def word_le_nat_alt word_less_nat_alt unat_add_if)
  moreover have "c_int n = n"
    using assms(2) by (intro c_int_small) (simp add: word_le_nat_alt)
  ultimately show "Asn01_parseSequence (h @ bs) dl (asnSEQUENCE OR asnCONSTRUCTOR) =
    Ret (4, n, asnSEQUENCE OR asnCONSTRUCTOR)"
    by (simp add: Asn01_parseSequence_def Asn01_parseHeader_def h rd_def asn_tags asnIS_EXTENSION_ID_def)
  show "length h = 4"
    by (simp add: h)
qed


lemma buildSequence_some:
  "4 \<le> n \<Longrightarrow> \<exists>h d. Asn01_buildSequence n ty n = Ret (h, d)"
  by (auto simp: Asn01_buildSequence_def)

text \<open>
  A sequence of a name and an item is read by \<open>Priot_parseVarOp\<close>. Used for both builders.
\<close>

lemma parseVarOp_item:
  assumes seq: "Asn01_parseSequence (h @ nbs @ vbs @ rest) ll (asnSEQUENCE OR asnCONSTRUCTOR) =
      Ret (length h, of_nat (length nbs + length vbs), st)"
    and nbs: "Asn01_buildObjid dl asnOBJECT_ID name (length name) = Ret (nbs, dl')"
    and name: "valid_oid name" and arr: "length arr = TYPES_MAX_OID_LEN"
    and vbs: "typed_item ty vbs rest"
    and small: "length h + length nbs + length vbs \<le> 0xFFFF"
  shows "\<exists>n. Priot_parseVarOp (h @ nbs @ vbs @ rest) arr (of_nat TYPES_MAX_OID_LEN) ll =
    Ret (length h + length nbs + length vbs, name @ drop (length name) arr, of_nat (length name), ty, n,
      length h + length nbs, ll - of_nat (length h + length nbs + length vbs)) \<and>
    unat n < length vbs"
proof -
  let ?L = "of_nat (length nbs + length vbs) :: u64"
  have un: "unat ?L = length nbs + length vbs" "unat (of_nat (length vbs) :: u64) = length vbs"
    using small by (simp_all only: unat_of_nat) simp_all
  have "length name \<le> 128"
    using name by (simp add: valid_oid_def TYPES_MAX_OID_LEN_def)
  then have o: "Asn01_parseObjid (nbs @ vbs @ rest) ?L arr (of_nat TYPES_MAX_OID_LEN) =
      Ret (length nbs, ?L - of_nat (length nbs), asnOBJECT_ID, name @ drop (length name) arr,
        of_nat (length name))"
    using un(1) by (intro objid_roundtrip_all(1) [OF nbs name])
      (simp_all add: arr TYPES_MAX_OID_LEN_def)
  have rem: "?L - of_nat (length nbs) = of_nat (length vbs)"
    by simp
  obtain n where hd: "Asn01_parseHeader (vbs @ rest) (of_nat (length vbs)) = Ret (length vbs - unat n, n, ty)"
    and n: "unat n < length vbs"
    using item_header [OF vbs, of "of_nat (length vbs)"] un(2) small by auto
  have end': "length h + length nbs + (length vbs - unat n) + unat n = length h + length nbs + length vbs"
    using n by simp
  have "c_int (of_nat (length h + length nbs + length vbs)) = of_nat (length h + length nbs + length vbs)"
    using small by (intro c_int_small) (simp add: word_le_nat_alt unat_of_nat del: of_nat_add)
  then have "Priot_parseVarOp (h @ nbs @ vbs @ rest) arr (of_nat TYPES_MAX_OID_LEN) ll =
    Ret (length h + length nbs + length vbs, name @ drop (length name) arr, of_nat (length name), ty, n,
      length h + length nbs, ll - of_nat (length h + length nbs + length vbs))"
    by (simp add: Priot_parseVarOp_def seq o rem hd Let_def end' del: of_nat_add)
  with n show ?thesis
    by blast
qed



lemma varop_example:
  "Priot_buildVarOp [] 40 [1, 3, 6] (length [1, 3, 6 :: oid]) asnINTEGER 8
      \<lparr>as_long = - 129, as_counter64 = \<lparr>high = 0, low = 0\<rparr>, as_string = Some [], as_oid = [],
       as_float = 0, as_double = (0, 0)\<rparr> =
    Ret ([0x30, 0x82, 0, 8, 6, 2, 0x2B, 6, 2, 2, 0xFF, 0x7F], 28)"
  by code_simp


text \<open>
  Without the condition on a plain Opaque it fails: an Opaque of the four bytes \<open>9F 78 00 01\<close> is read back as
  a value of type \<open>asnOPAQUE_FLOAT\<close>, and an empty Opaque is judged by what follows the binding.
\<close>

lemma opaque_misread:
  "Priot_buildVarOp [] 40 [1, 3, 6] (length [1, 3, 6 :: oid]) asnOPAQUE 4
      \<lparr>as_long = 0, as_counter64 = \<lparr>high = 0, low = 0\<rparr>, as_string = Some [0x9F, 0x78, 0, 1], as_oid = [],
       as_float = 0, as_double = (0, 0)\<rparr> =
    Ret ([0x30, 0x82, 0, 10, 6, 2, 0x2B, 6, 0x44, 4, 0x9F, 0x78, 0, 1], 26)"
  "Priot_parseVarOp [0x30, 0x82, 0, 10, 6, 2, 0x2B, 6, 0x44, 4, 0x9F, 0x78, 0, 1] (replicate 128 0)
      (of_nat TYPES_MAX_OID_LEN) 40 =
    Ret (13, [1, 3, 6] @ replicate 125 0, 3, asnOPAQUE_FLOAT, 0, 8, 27)"
  by code_simp+

section \<open>The reverse builder\<close>

text \<open>A reverse builder that puts in front of a buffer what a forward builder writes.\<close>

definition mirrors :: "heap_env \<Rightarrow> bool \<Rightarrow> (u8 list \<times> size_t) outcome \<Rightarrow> (rbuf \<Rightarrow> rbuf outcome) \<Rightarrow> bool" where
  "mirrors env r m f \<longleftrightarrow> (\<forall>bs d. m = Ret (bs, d) \<longrightarrow> length bs \<le> 0xFFFF \<longrightarrow> prepends 0 (can_grow env r) f bs)"

lemma mirrors_if:
  "(c \<Longrightarrow> mirrors env r m f) \<Longrightarrow> (\<not> c \<Longrightarrow> mirrors env r m' f') \<Longrightarrow>
    mirrors env r (if c then m else m') (if c then f else f')"
  by simp

lemma mirrors_string:
  assumes "as_string v = None \<longrightarrow> len = 0"
  shows "mirrors env r (Asn01_buildString l ty (as_string v) len) (\<lambda>b. case as_string v of
      None \<Rightarrow> if len = 0 then Asn01_reallocRbuildString env r ty [] 0 b else Crash
    | Some s \<Rightarrow> Asn01_reallocRbuildString env r ty s len b)"
proof -
  define s where "s = (case as_string v of None \<Rightarrow> [] | Some s \<Rightarrow> s)"
  have eq: "Asn01_buildString l ty (as_string v) len = Asn01_buildString l ty (Some s) len"
    "(\<lambda>b. case as_string v of
        None \<Rightarrow> if len = 0 then Asn01_reallocRbuildString env r ty [] 0 b else Crash
      | Some s \<Rightarrow> Asn01_reallocRbuildString env r ty s len b) = Asn01_reallocRbuildString env r ty s len"
    using assms by (auto simp: s_def Asn01_buildString_def split: option.split)
  show ?thesis
    unfolding mirrors_def eq
  proof (intro allI impI)
    fix bs d
    assume b: "Asn01_buildString l ty (Some s) len = Ret (bs, d)" and "length bs \<le> 0xFFFF"
    then have "len \<le> 0xFFFF"
      using buildString_RetD [OF b] by (fastforce simp: word_le_nat_alt)
    then show "prepends 0 (can_grow env r) (Asn01_reallocRbuildString env r ty s len) bs"
      by (rule rbuild_string_bytes [OF b])
  qed
qed

lemma mirrors_bitstring:
  "mirrors env r (Asn01_buildBitstring l ty (as_string v) len) (\<lambda>b. case as_string v of
      None \<Rightarrow> if len = 0 then Asn01_reallocRbuildBitstring env r ty [] 0 b else Crash
    | Some s \<Rightarrow> Asn01_reallocRbuildBitstring env r ty s len b)"
proof (cases "as_string v")
  case None
  then show ?thesis
    using buildBitstring_NULL by (simp add: mirrors_def)
next
  case (Some s)
  show ?thesis
    unfolding mirrors_def Some option.case
  proof (intro allI impI)
    fix bs d
    assume b: "Asn01_buildBitstring l ty (Some s) len = Ret (bs, d)" and "length bs \<le> 0xFFFF"
    then have "len \<le> 0xFFFF"
      using buildBitstring_RetD [OF b] by (fastforce simp: word_le_nat_alt)
    then show "prepends 0 (can_grow env r) (Asn01_reallocRbuildBitstring env r ty s len) bs"
      by (rule rbuild_bitstring_bytes [OF b])
  qed
qed

text \<open>Every type of value has such a builder; an object identifier with at least two sub-identifiers.\<close>

lemma rbuild_value_mirrors:
  assumes s: "as_string v = None \<longrightarrow> len = 0"
    and oid: "ty = asnOBJECT_ID \<longrightarrow> 2 \<le> unat len div 4 \<and> unat len div 4 \<le> length (as_oid v)"
  shows "mirrors env r (build_value dl ty len v) (rbuild_value env r ty len v)"
  unfolding build_value_def rbuild_value_def
proof (intro mirrors_if)
  show "mirrors env r (Asn01_buildString dl ty (as_string v) len) (\<lambda>b. case as_string v of
      None \<Rightarrow> if len = 0 then Asn01_reallocRbuildString env r ty [] 0 b else Crash
    | Some s \<Rightarrow> Asn01_reallocRbuildString env r ty s len b)"
    by (rule mirrors_string [OF s])
  show "mirrors env r (Asn01_buildBitstring dl ty (as_string v) len) (\<lambda>b. case as_string v of
      None \<Rightarrow> if len = 0 then Asn01_reallocRbuildBitstring env r ty [] 0 b else Crash
    | Some s \<Rightarrow> Asn01_reallocRbuildBitstring env r ty s len b)"
    by (rule mirrors_bitstring)
  show "mirrors env r (Asn01_buildUnsignedInt64 dl ty (as_counter64 v) len)
      (Asn01_reallocRbuildUnsignedInt64 env r ty (as_counter64 v) len)"
    if "ty \<in> {asnOPAQUE_COUNTER64, asnOPAQUE_U64, asnCOUNTER64}"
    using that by (auto simp: mirrors_def uint64_type_def intro: rbuild_uint64_bytes)
  show "mirrors env r (Asn01_buildObjid dl ty (as_oid v) (unat len div 4))
      (Asn01_reallocRbuildObjid env r ty (as_oid v) (unat len div 4))" if "ty = asnOBJECT_ID"
    using that oid by (auto simp: mirrors_def intro: rbuild_objid_bytes)
qed (auto simp: mirrors_def intro: rbuild_int_bytes rbuild_uint_bytes rbuild_null_bytes rbuild_float_bytes
    rbuild_double_bytes rbuild_int64_bytes)

lemma rbuild_value_bytes:
  assumes "build_value dl ty len v = Ret (vbs, dl')" and "as_string v = None \<longrightarrow> len = 0" and "length vbs \<le> 0xFFFF"
    and "ty = asnOBJECT_ID \<longrightarrow> 2 \<le> unat len div 4 \<and> unat len div 4 \<le> length (as_oid v)"
  shows "prepends 0 (can_grow env r) (rbuild_value env r ty len v) vbs"
  using rbuild_value_mirrors [OF assms(2,4)] assms(1,3) unfolding mirrors_def by blast

lemma ber_length_short: "ber_length n hs \<Longrightarrow> 1 \<le> length hs \<and> length hs \<le> 9"
  by (auto simp: ber_length_def split: if_splits)

lemma sequence_header_ber:
  assumes "ber_length n hs" and "1 + length hs + unat n \<le> unat dl" and "unat n \<le> 0xFFFF"
  shows "Asn01_parseSequence ((asnSEQUENCE OR asnCONSTRUCTOR) # hs @ bs) dl (asnSEQUENCE OR asnCONSTRUCTOR) =
    Ret (1 + length hs, n, asnSEQUENCE OR asnCONSTRUCTOR)"
proof -
  let ?ty = "asnSEQUENCE OR asnCONSTRUCTOR"
  have "Asn01_parseLength ([?ty] @ hs @ bs) (length [?ty] + 0) = Ret (1 + length hs, n)"
    using parse_ber_length [OF assms(1), of bs] assms(3) by (simp only: parseLength_shift) simp
  then have "parse_len (?ty # hs @ bs) 1 dl = Ret (1 + length hs, n)"
    using assms(2,3) ber_length_short [OF assms(1)] unat_lt2p [of dl]
    by (simp add: parse_len_def Asn01_parseLengthCheck_def word_le_nat_alt word_less_nat_alt
        unat_add_if unat_of_nat)
  moreover have "c_int n = n"
    using assms(3) by (intro c_int_small) (simp add: word_le_nat_alt)
  ultimately show ?thesis
    by (simp add: Asn01_parseSequence_def Asn01_parseHeader_def rd_def asn_tags asnIS_EXTENSION_ID_def)
qed

lemma prepends_var_op:
  assumes nbs: "Asn01_buildObjid dl asnOBJECT_ID name (length name) = Ret (nbs, dl1)"
    and vbs: "build_value dl2 ty len v = Ret (vbs, dl3)"
    and "as_string v = None \<longrightarrow> len = 0" and "length vbs \<le> 0xFFFF"
    and "ty = asnOBJECT_ID \<longrightarrow> 2 \<le> unat len div 4 \<and> unat len div 4 \<le> length (as_oid v)" and "2 \<le> length name"
  shows "\<exists>hs. ber_length (of_nat (length nbs + length vbs)) hs \<and>
    prepends 0 (can_grow env r) (Priot_reallocRbuildVarOp env r name (length name) ty len v)
      ((asnSEQUENCE OR asnCONSTRUCTOR) # hs @ nbs @ vbs)"
proof -
  let ?ty = "asnSEQUENCE OR asnCONSTRUCTOR" and ?n = "of_nat (length nbs + length vbs) :: u64"
  obtain hs where hs: "ber_length ?n hs"
    and H: "\<And>env r. prepends 0 (can_grow env r) (Asn01_reallocBuildHeader env r ?ty ?n) (?ty # hs)"
    using prepends_header by blast
  have "prepends 0 (can_grow env r) (\<lambda>b. obind (rbuild_value env r ty len v b)
      (Asn01_reallocRbuildObjid env r asnOBJECT_ID name (length name))) (nbs @ vbs)"
    by (rule prepends_bind [OF rbuild_value_bytes [OF vbs assms(3-5)] rbuild_objid_bytes [OF nbs assms(6)]])
      simp_all
  then have "prepends 0 (can_grow env r) (\<lambda>b. obind (obind (rbuild_value env r ty len v b)
      (Asn01_reallocRbuildObjid env r asnOBJECT_ID name (length name)))
      (\<lambda>b2. Asn01_reallocRbuildSequence env r ?ty (of_nat (offset b2 - offset b)) b2))
      ((?ty # hs) @ nbs @ vbs)"
    by (rule prepends_bind_from [OF _ _ H]) (simp_all add: Asn01_reallocRbuildSequence_def)
  moreover have "Priot_reallocRbuildVarOp env r name (length name) ty len v =
      (\<lambda>b. obind (obind (rbuild_value env r ty len v b)
        (Asn01_reallocRbuildObjid env r asnOBJECT_ID name (length name)))
        (\<lambda>b2. Asn01_reallocRbuildSequence env r ?ty (of_nat (offset b2 - offset b)) b2))"
    by (rule ext) (auto simp: Priot_reallocRbuildVarOp_def split: outcome.split)
  ultimately show ?thesis
    using hs by auto
qed


text \<open>The value of the example, at a word: \<open>- 129\<close> as an integer.\<close>

definition example_val :: var_val where
  "example_val = \<lparr>as_long = - 129, as_counter64 = \<lparr>high = 0, low = 0\<rparr>, as_string = Some [], as_oid = [],
     as_float = 0, as_double = (0, 0)\<rparr>"

lemma reverse_example_parts:
  "Asn01_buildObjid 30 asnOBJECT_ID [1, 3, 6] (length [1, 3, 6 :: oid]) = Ret ([6, 2, 0x2B, 6], 26)"
  "build_value 30 asnINTEGER 8 example_val = Ret ([2, 2, 0xFF, 0x7F], 26)"
  by code_simp+

lemma reverse_example:
  "Priot_reallocRbuildVarOp \<lparr>alloc_ok = \<lambda>_. False, fresh = \<lambda>_. 0\<rparr> False [1, 3, 6] (length [1, 3, 6 :: oid])
     asnINTEGER 8 example_val \<lparr>pkt = [1, 1, 1, 1, 1, 1, 1, 1, 1, 1, 9], offset = 1\<rparr> =
   Ret \<lparr>pkt = [0x30, 8, 6, 2, 0x2B, 6, 2, 2, 0xFF, 0x7F, 9], offset = 11\<rparr>"
  by code_simp


end
