(* ===== verification/OidCmp.thy ===== *)
theory OidCmp
  imports PriotBase "HOL-Library.List_Lexorder" "HOL-Library.Sublist"
begin

text \<open>
  The comparisons of object identifiers of src/Firmware/Core/Api.c. An \<open>oid\<close> pointer with its
  length is the list of the sub-identifiers it denotes; lengths are below \<open>2 ^ 31\<close>, so the \<open>int\<close>
  counters of the loops do not wrap, and the pointers are not NULL unless they are an option.
  The loops count \<open>len\<close> down to \<open>-1\<close>, which the offset reported by \<open>Api_oidCompareLl\<close> shows.
\<close>

text \<open>The sign of \<open>memcmp\<close>, on arrays of at least \<open>n\<close> bytes.\<close>

definition memcmp :: "u8 list \<Rightarrow> u8 list \<Rightarrow> nat \<Rightarrow> int" where
  "memcmp a b n = (if take n a < take n b then -1 else if take n a = take n b then 0 else 1)"

section \<open>The code\<close>

text \<open>
  The loop \<open>while ( len-- > 0 )\<close> that all of them run: the result of the first difference, if any,
  and the counter afterwards.
\<close>

fun oid_loop :: "nat \<Rightarrow> oid list \<Rightarrow> oid list \<Rightarrow> int option \<times> int" where
  "oid_loop (Suc len) (x # name1) (y # name2) =
     (if x \<noteq> y then (Some (if x < y then -1 else 1), int len) else oid_loop len name1 name2)"
| "oid_loop 0 name1 name2 = (None, -1)"
| "oid_loop (Suc len) [] name2 = (None, -1)"
| "oid_loop (Suc len) (x # name1) [] = (None, -1)"

definition compare_lengths :: "oid list \<Rightarrow> oid list \<Rightarrow> int" where
  "compare_lengths name1 name2 =
     (if length name1 < length name2 then -1 else if length name2 < length name1 then 1 else 0)"

definition Api_oidNcompare :: "oid list \<Rightarrow> oid list \<Rightarrow> nat \<Rightarrow> int" where
  "Api_oidNcompare name1 name2 max_len =
     (let min_len0 = (if length name1 < length name2 then length name1 else length name2);
          min_len = (if min_len0 > max_len then max_len else min_len0)
      in case fst (oid_loop min_len name1 name2) of
           Some r \<Rightarrow> r
         | None \<Rightarrow> if min_len \<noteq> max_len then compare_lengths name1 name2 else 0)"

definition Api_oidCompare :: "oid list \<Rightarrow> oid list \<Rightarrow> int" where
  "Api_oidCompare name1 name2 =
     (let len = (if length name1 < length name2 then length name1 else length name2)
      in case fst (oid_loop len name1 name2) of
           Some r \<Rightarrow> r | None \<Rightarrow> compare_lengths name1 name2)"

definition Api_oidCompareLl :: "oid list \<Rightarrow> oid list \<Rightarrow> int \<times> int" where
  "Api_oidCompareLl name1 name2 =
     (let initlen = (if length name1 < length name2 then length name1 else length name2);
          (r, len) = oid_loop initlen name1 name2;
          offpt = int initlen - len
      in (case r of Some c \<Rightarrow> c | None \<Rightarrow> compare_lengths name1 name2, offpt))"

definition Api_oidtreeCompare :: "oid list \<Rightarrow> oid list \<Rightarrow> int" where
  "Api_oidtreeCompare name1 name2 =
     (let len = (if length name1 < length name2 then length name1 else length name2)
      in Api_oidCompare (take len name1) (take len name2))"

definition Api_oidsubtreeCompare :: "oid list \<Rightarrow> oid list \<Rightarrow> int" where
  "Api_oidsubtreeCompare name1 name2 =
     (let len = (if length name1 < length name2 then length name1 else length name2)
      in Api_oidCompare name1 (take len name2))"

text \<open>A NULL pointer is \<open>None\<close>; it counts only when both lengths are the same and not zero.\<close>

fun equal_loop :: "nat \<Rightarrow> oid list \<Rightarrow> oid list \<Rightarrow> int" where
  "equal_loop (Suc len) (x # name1) (y # name2) = (if x \<noteq> y then 1 else equal_loop len name1 name2)"
| "equal_loop 0 name1 name2 = 0"
| "equal_loop (Suc len) [] name2 = 0"
| "equal_loop (Suc len) (x # name1) [] = 0"

definition Api_oidEquals :: "oid list option \<Rightarrow> nat \<Rightarrow> oid list option \<Rightarrow> nat \<Rightarrow> int" where
  "Api_oidEquals name1 len1 name2 len2 =
     (if len1 \<noteq> len2 then 1
      else if len1 = 0 then 0
      else case (name1, name2) of
        (Some n1, Some n2) \<Rightarrow> equal_loop len1 n1 n2 | _ \<Rightarrow> 1)"

definition Api_oidIsSubtree :: "oid list \<Rightarrow> oid list \<Rightarrow> int" where
  "Api_oidIsSubtree name1 name2 =
     (if length name1 > length name2 then 1
      else if take (length name1) name1 \<noteq> take (length name1) name2 then 1 else 0)"

fun prefix_loop :: "nat \<Rightarrow> nat \<Rightarrow> oid list \<Rightarrow> oid list \<Rightarrow> nat" where
  "prefix_loop (Suc n) i (x # name1) (y # name2) =
     (if x \<noteq> y then i else prefix_loop n (i + 1) name1 name2)"
| "prefix_loop 0 i name1 name2 = i"
| "prefix_loop (Suc n) i [] name2 = i + Suc n"
| "prefix_loop (Suc n) i (x # name1) [] = i + Suc n"

definition Api_oidFindPrefix :: "oid list option \<Rightarrow> oid list option \<Rightarrow> int" where
  "Api_oidFindPrefix name1 name2 =
     (case (name1, name2) of
        (Some n1, Some n2) \<Rightarrow>
          (if length n1 = 0 \<or> length n2 = 0 then -1
           else if n1 ! 0 \<noteq> n2 ! 0 then 0
           else int (prefix_loop (min (length n1) (length n2)) 0 n1 n2))
      | _ \<Rightarrow> -1)"

section \<open>The order on object identifiers\<close>

lemma compare_lengths_simps [simp]:
  "compare_lengths [] [] = 0" "compare_lengths [] (y # ys) = -1" "compare_lengths (x # xs) [] = 1"
  "compare_lengths (x # xs) (y # ys) = compare_lengths xs ys"
  by (simp_all add: compare_lengths_def)

lemma oid_loop_compare:
  "len = min (length xs) (length ys) \<Longrightarrow>
    (case fst (oid_loop len xs ys) of Some r \<Rightarrow> r | None \<Rightarrow> compare_lengths xs ys) =
      (if xs < ys then -1 else if xs = ys then 0 else 1)"
proof (induction len xs ys rule: oid_loop.induct)
  case (1 len x xs y ys)
  then show ?case
    by (auto split: option.splits)
next
  case (2 xs ys)
  then show ?case
    by (cases xs; cases ys) auto
next
  case (3 len ys)
  then show ?case
    by (cases ys) auto
next
  case (4 len x xs)
  then show ?case
    by (cases xs) auto
qed

text \<open>\<open>Api_oidCompare\<close> is the lexicographic order of lists of sub-identifiers.\<close>

lemma shorter_length: "(if (m :: nat) < n then m else n) = min m n"
  by simp

lemma oidCompare_less: "Api_oidCompare xs ys = (if xs < ys then -1 else if xs = ys then 0 else 1)"
  unfolding Api_oidCompare_def Let_def shorter_length by (rule oid_loop_compare) simp

lemma oidCompare_iff [simp]:
  "Api_oidCompare xs ys < 0 \<longleftrightarrow> xs < ys" "Api_oidCompare xs ys > 0 \<longleftrightarrow> ys < xs"
  "Api_oidCompare xs ys = 0 \<longleftrightarrow> xs = ys" "Api_oidCompare xs ys \<le> 0 \<longleftrightarrow> xs \<le> ys"
  by (auto simp: oidCompare_less)

lemma take_less_iff_prefix: "length xs \<le> length ys \<Longrightarrow> take (length xs) ys = xs \<longleftrightarrow> prefix xs ys"
  by (auto simp: prefix_def) (metis append_take_drop_id)

lemma prefix_same_length: "prefix xs ys \<Longrightarrow> length ys \<le> length xs \<Longrightarrow> ys = xs"
  by (auto simp: prefix_def)

lemma oidtreeCompare_iff: "Api_oidtreeCompare xs ys = 0 \<longleftrightarrow> prefix xs ys \<or> prefix ys xs"
proof (cases "length xs < length ys")
  case True
  then show ?thesis
    using take_less_iff_prefix [of xs ys] prefix_length_le [of ys xs]
    by (auto simp: Api_oidtreeCompare_def eq_commute [of xs])
next
  case False
  then show ?thesis
    using take_less_iff_prefix [of ys xs] prefix_same_length [of xs ys]
    by (auto simp: Api_oidtreeCompare_def)
qed

lemma oidsubtreeCompare_iff: "Api_oidsubtreeCompare xs ys = 0 \<longleftrightarrow> prefix xs ys"
  using take_less_iff_prefix [of xs ys] prefix_length_le [of xs ys]
  by (auto simp: Api_oidsubtreeCompare_def eq_commute [of xs])

lemma oidIsSubtree_iff: "Api_oidIsSubtree xs ys = 0 \<longleftrightarrow> prefix xs ys"
  using take_less_iff_prefix [of xs ys] prefix_length_le [of xs ys]
  by (auto simp: Api_oidIsSubtree_def eq_commute [of xs])


text \<open>The bounded comparison compares the identifiers cut to the bound.\<close>

lemma oid_loop_take: "len \<le> n \<Longrightarrow> oid_loop len (take n xs) (take n ys) = oid_loop len xs ys"
proof (induction len xs ys arbitrary: n rule: oid_loop.induct)
  case (1 len x xs y ys)
  then show ?case
    by (cases n) auto
next
  case (4 len x xs)
  then show ?case
    by (cases n) auto
qed auto

lemma oidNcompare_take: "Api_oidNcompare xs ys n = Api_oidCompare (take n xs) (take n ys)"
proof -
  let ?m = "min (min (length xs) (length ys)) n"
  have m: "min (length (take n xs)) (length (take n ys)) = ?m"
    by simp
  have c: "compare_lengths (take n xs) (take n ys) = (if ?m \<noteq> n then compare_lengths xs ys else 0)"
    by (auto simp: compare_lengths_def min_def)
  have "Api_oidCompare (take n xs) (take n ys) =
      (case fst (oid_loop ?m xs ys) of Some r \<Rightarrow> r
       | None \<Rightarrow> if ?m \<noteq> n then compare_lengths xs ys else 0)"
    unfolding Api_oidCompare_def Let_def shorter_length m c by (simp only: oid_loop_take min.cobounded2)
  moreover have "(if (k :: nat) > n then n else k) = min k n" for k
    by simp
  ultimately show ?thesis
    unfolding Api_oidNcompare_def Let_def shorter_length by (auto split: option.splits)
qed

text \<open>The offset is one past the first difference, or one past the end of the shorter identifier.\<close>

lemma oid_loop_offset:
  "len = min (length xs) (length ys) \<Longrightarrow>
    int len - snd (oid_loop len xs ys) = int (length (longest_common_prefix xs ys)) + 1"
proof (induction len xs ys rule: oid_loop.induct)
  case (2 xs ys)
  then show ?case
    by (cases xs; cases ys) auto
qed auto

lemma oidCompareLl_eq:
  "Api_oidCompareLl xs ys = (Api_oidCompare xs ys, int (length (longest_common_prefix xs ys)) + 1)"
  using oid_loop_offset [OF refl, of xs ys]
  unfolding Api_oidCompareLl_def Api_oidCompare_def Let_def shorter_length
  by (cases "oid_loop (min (length xs) (length ys)) xs ys") simp

lemma prefix_loop_lcp:
  "n = min (length xs) (length ys) \<Longrightarrow>
    prefix_loop n i xs ys = i + length (longest_common_prefix xs ys)"
proof (induction n i xs ys rule: prefix_loop.induct)
  case (2 i xs ys)
  then show ?case
    by (cases xs; cases ys) auto
qed auto

lemma oidFindPrefix_lcp:
  assumes "xs \<noteq> []" and "ys \<noteq> []"
  shows "Api_oidFindPrefix (Some xs) (Some ys) = int (length (longest_common_prefix xs ys))"
  using assms prefix_loop_lcp [OF refl, of xs ys 0]
  by (cases xs; cases ys) (auto simp: Api_oidFindPrefix_def)

lemma equal_loop_iff: "length xs = len \<Longrightarrow> length ys = len \<Longrightarrow> equal_loop len xs ys = 0 \<longleftrightarrow> xs = ys"
  by (induction len xs ys rule: equal_loop.induct) auto

lemma oidEquals_iff: "Api_oidEquals (Some xs) (length xs) (Some ys) (length ys) = 0 \<longleftrightarrow> xs = ys"
  using equal_loop_iff [of xs "length xs" ys] by (auto simp: Api_oidEquals_def)


text \<open>
  C22: The comparisons agree with the order of identifiers: \<open>Api_oidCompare\<close> is the lexicographic
  order, the bounded one is that order on the identifiers cut to the bound, the reporting one adds
  the length of the common prefix plus one, and the subtree tests are the prefix relation.
\<close>

theorem oid_comparisons:
  "Api_oidCompare xs ys = (if xs < ys then -1 else if xs = ys then 0 else 1) \<and>
   Api_oidNcompare xs ys n = Api_oidCompare (take n xs) (take n ys) \<and>
   Api_oidCompareLl xs ys = (Api_oidCompare xs ys, int (length (longest_common_prefix xs ys)) + 1) \<and>
   (Api_oidtreeCompare xs ys = 0 \<longleftrightarrow> prefix xs ys \<or> prefix ys xs) \<and>
   (Api_oidsubtreeCompare xs ys = 0 \<longleftrightarrow> prefix xs ys) \<and>
   (Api_oidIsSubtree xs ys = 0 \<longleftrightarrow> prefix xs ys) \<and>
   (Api_oidEquals (Some xs) (length xs) (Some ys) (length ys) = 0 \<longleftrightarrow> xs = ys) \<and>
   Api_oidFindPrefix (Some (x # xs)) (Some (y # ys)) =
     int (length (longest_common_prefix (x # xs) (y # ys)))"
  by (simp only: oidCompare_less oidNcompare_take oidCompareLl_eq oidtreeCompare_iff
      oidsubtreeCompare_iff oidIsSubtree_iff oidEquals_iff oidFindPrefix_lcp list.distinct simp_thms)

end
