(* ===== verification/LinkedList.thy ===== *)
theory LinkedList
  imports PriotBase "HOL-Library.Multiset"
begin

text \<open>
  The singly linked lists that the access control tables, the callback tables and the registries
  keep in order by hand: the search loop that stops in front of the first entry that sorts behind
  the new one, and the loop that unlinks the first match. The locale \<open>keyed_list\<close> states what such
  a list keeps when the stop test of the code agrees with a key in a linear order; the components
  interpret it with their own tests.
\<close>

fun link_before :: "('a \<Rightarrow> bool) \<Rightarrow> 'a \<Rightarrow> 'a list \<Rightarrow> 'a list" where
  "link_before stop x [] = [x]"
| "link_before stop x (y # ys) = (if stop y then x # y # ys else y # link_before stop x ys)"

fun unlink :: "('a \<Rightarrow> bool) \<Rightarrow> 'a list \<Rightarrow> 'a list" where
  "unlink match [] = []"
| "unlink match (y # ys) = (if match y then ys else y # unlink match ys)"

lemma set_link_before [simp]: "set (link_before stop x ys) = insert x (set ys)"
  by (induction ys) auto

lemma mset_link_before [simp]: "mset (link_before stop x ys) = add_mset x (mset ys)"
  by (induction ys) auto

lemma length_link_before [simp]: "length (link_before stop x ys) = Suc (length ys)"
  by (induction ys) auto

lemma set_unlink_subset: "set (unlink match ys) \<subseteq> set ys"
  by (induction ys) auto

lemma unlink_id [simp]: "\<forall>y \<in> set ys. \<not> match y \<Longrightarrow> unlink match ys = ys"
  by (induction ys) auto

lemma unlink_split: "\<forall>y \<in> set xs. \<not> match y \<Longrightarrow> match y \<Longrightarrow> unlink match (xs @ y # ys) = xs @ ys"
  by (induction xs) auto

text \<open>Unlinking takes back what linking did, whenever nothing else matches.\<close>

lemma unlink_link_before:
  assumes "match x" and "\<forall>y \<in> set ys. \<not> match y"
  shows "unlink match (link_before stop x ys) = ys"
  using assms by (induction ys) auto

lemma find_link_before:
  assumes "P x" and "\<forall>y \<in> set ys. \<not> P y"
  shows "find P (link_before stop x ys) = Some x"
  using assms by (induction ys) auto

lemma find_link_before_other: "\<not> P x \<Longrightarrow> find P (link_before stop x ys) = find P ys"
  by (induction ys) auto

lemma filter_link_before_other [simp]: "\<not> P x \<Longrightarrow> filter P (link_before stop x ys) = filter P ys"
  by (induction ys) auto

locale keyed_list =
  fixes ok :: "'a \<Rightarrow> bool" and behind :: "'a \<Rightarrow> 'a \<Rightarrow> bool" and key :: "'a \<Rightarrow> 'k::linorder"
  assumes behind_iff: "ok x \<Longrightarrow> ok y \<Longrightarrow> behind y x \<longleftrightarrow> key x < key y"
begin

lemma sorted_link:
  assumes "sorted (map key ys)" and "ok x" and "\<forall>y \<in> set ys. ok y"
  shows "sorted (map key (link_before (\<lambda>y. behind y x) x ys))"
  using assms
proof (induction ys)
  case (Cons y ys)
  then show ?case
    using behind_iff [of x y] by (auto simp: not_less)
qed simp

lemma sorted_unlink:
  assumes "sorted (map key ys)"
  shows "sorted (map key (unlink match ys))"
  using assms
proof (induction ys)
  case (Cons y ys)
  then show ?case
    using set_unlink_subset [of match ys] by auto
qed simp

text \<open>The new entry goes behind those with the same key.\<close>

lemma link_splits:
  assumes "sorted (map key ys)" and "ok x" and "\<forall>y \<in> set ys. ok y"
  shows "link_before (\<lambda>y. behind y x) x ys =
    filter (\<lambda>y. key y \<le> key x) ys @ x # filter (\<lambda>y. key x < key y) ys"
  using assms
proof (induction ys)
  case (Cons y ys)
  show ?case
  proof (cases "key x < key y")
    case True
    with Cons.prems have "\<forall>z \<in> set ys. key x < key z"
      by auto
    then have "filter (\<lambda>y. key y \<le> key x) ys = []" and "filter (\<lambda>y. key x < key y) ys = ys"
      by (simp_all add: filter_empty_conv not_le)
    with True Cons.prems behind_iff [of x y] show ?thesis
      by simp
  next
    case False
    with Cons behind_iff [of x y] show ?thesis
      by auto
  qed
qed simp

end

end
