(* ===== verification/Vacm.thy ===== *)
theory Vacm
  imports LinkedList OidCmp "HOL-Library.Product_Lexorder"
begin

text \<open>
  The view-based access control model, src/Firmware/Core/System/AccessControl/Vacm.c: the tables of
  views, groups and access rights, which the code keeps as linked lists ordered by their index, and
  the searches over them. A table is the list of its entries. A C string is the list of its
  characters before the NUL; a name is stored with its length in front, in an array of 34 bytes, and
  a subtree with its length in front, in an array of 128 sub-identifiers, as the structures have
  them. A pair of an \<open>oid\<close> pointer and a length is the list it denotes. \<open>calloc\<close> may fail: the
  creating functions take the two answers of the allocator. The parsing and saving of configuration
  lines and the \<open>reserved\<close> copies, which only the tables' SET handlers use, are not modelled.
\<close>

section \<open>Names\<close>

definition VACM_MAX_STRING :: nat where "VACM_MAX_STRING = 32"
definition VACM_VACMSTRINGLEN :: nat where "VACM_VACMSTRINGLEN = 34"
definition VIEW_SUBTREE_MAX :: nat where "VIEW_SUBTREE_MAX = 128"

text \<open>The array after \<open>view[ 0 ] = glen; strcpy( view + 1, viewName )\<close> on cleared memory.\<close>

definition counted :: "u8 list \<Rightarrow> u8 list" where
  "counted s = of_nat (length s) # s"

definition counted_buf :: "u8 list \<Rightarrow> u8 list" where
  "counted_buf s = counted s @ replicate (VACM_VACMSTRINGLEN - 1 - length s) 0"

text \<open>\<open>strcmp( a + 1, s ) == 0\<close> for a counted name \<open>a\<close>.\<close>

definition same_string :: "u8 list \<Rightarrow> u8 list \<Rightarrow> bool" where
  "same_string a s \<longleftrightarrow> takeWhile (\<lambda>c. c \<noteq> 0) (tl a) = s"

section \<open>Views\<close>

record Vacm_ViewEntry_s =
  viewName :: "u8 list"
  viewSubtree :: "oid list"
  viewSubtreeLen :: nat
  viewMask :: "u8 list"
  viewMaskLen :: nat
  viewType :: int
  viewStorageType :: int
  viewStatus :: int

definition PRIOT_VIEW_INCLUDED :: int where "PRIOT_VIEW_INCLUDED = 1"
definition PRIOT_VIEW_EXCLUDED :: int where "PRIOT_VIEW_EXCLUDED = 2"

datatype view_mode = VACM_MODE_FIND | VACM_MODE_IGNORE_MASK | VACM_MODE_CHECK_SUBTREE

definition VACM_SUCCESS :: int where "VACM_SUCCESS = 0"
definition VACM_NOSECNAME :: int where "VACM_NOSECNAME = 1"
definition VACM_NOGROUP :: int where "VACM_NOGROUP = 2"
definition VACM_NOACCESS :: int where "VACM_NOACCESS = 3"
definition VACM_NOVIEW :: int where "VACM_NOVIEW = 4"
definition VACM_NOTINVIEW :: int where "VACM_NOTINVIEW = 5"
definition VACM_NOSUCHCONTEXT :: int where "VACM_NOSUCHCONTEXT = 6"
definition VACM_SUBTREE_UNKNOWN :: int where "VACM_SUBTREE_UNKNOWN = 7"

lemmas vacm_codes = VACM_SUCCESS_def VACM_NOSECNAME_def VACM_NOGROUP_def VACM_NOACCESS_def
  VACM_NOVIEW_def VACM_NOTINVIEW_def VACM_NOSUCHCONTEXT_def VACM_SUBTREE_UNKNOWN_def

text \<open>\<open>viewSubtreeLen - 1\<close>, a \<open>size_t\<close>.\<close>

definition sub_len :: "Vacm_ViewEntry_s \<Rightarrow> nat" where
  "sub_len vp = (if viewSubtreeLen vp = 0 then 2 ^ 64 - 1 else viewSubtreeLen vp - 1)"

definition sub_oid :: "Vacm_ViewEntry_s \<Rightarrow> oid list" where
  "sub_oid vp = take (sub_len vp) (drop 1 (viewSubtree vp))"

definition VIEW_MASK :: "Vacm_ViewEntry_s \<Rightarrow> nat \<Rightarrow> u8 \<Rightarrow> u8 outcome" where
  "VIEW_MASK vp idx mk =
     (if idx \<ge> viewMaskLen vp then Ret mk
      else obind (rd (viewMask vp) idx) (\<lambda>b. Ret (b AND mk)))"

text \<open>The loop over the sub-identifiers that the mask selects; \<open>n\<close> of them are left.\<close>

fun mask_loop ::
    "bool \<Rightarrow> Vacm_ViewEntry_s \<Rightarrow> oid list \<Rightarrow> nat \<Rightarrow> nat \<Rightarrow> nat \<Rightarrow> u8 \<Rightarrow> bool outcome" where
  "mask_loop ignore vp sub 0 oidpos maskpos mk = Ret True"
| "mask_loop ignore vp sub (Suc n) oidpos maskpos mk =
     obind (if ignore then Ret True
            else obind (VIEW_MASK vp maskpos mk) (\<lambda>b. Ret (b \<noteq> 0))) (\<lambda>care.
     obind (if care then obind (rd sub oidpos) (\<lambda>s. obind (rd (viewSubtree vp) (oidpos + 1)) (\<lambda>v. Ret (s = v)))
            else Ret True) (\<lambda>found.
       if \<not> found then Ret False
       else if mk = 1 then mask_loop ignore vp sub n (oidpos + 1) (maskpos + 1) 0x80
       else mask_loop ignore vp sub n (oidpos + 1) maskpos (drop_bit 1 mk)))"

text \<open>The entry is kept when it is longer than the previous, or as long and lexicographically greater.\<close>

definition better :: "Vacm_ViewEntry_s \<Rightarrow> Vacm_ViewEntry_s option \<Rightarrow> bool" where
  "better vp best =
     (case best of None \<Rightarrow> True
      | Some b \<Rightarrow> viewSubtreeLen vp > viewSubtreeLen b \<or>
          (viewSubtreeLen vp = viewSubtreeLen b \<and> Api_oidCompare (sub_oid vp) (sub_oid b) > 0))"

fun viewGet_loop ::
    "Vacm_ViewEntry_s list \<Rightarrow> u8 list \<Rightarrow> oid list \<Rightarrow> view_mode \<Rightarrow> Vacm_ViewEntry_s option \<Rightarrow> nat
     \<Rightarrow> (Vacm_ViewEntry_s option \<times> nat) outcome" where
  "viewGet_loop [] view sub mode vpret cnt = Ret (vpret, cnt)"
| "viewGet_loop (vp # rest) view sub mode vpret cnt =
     obind (if memcmp view (viewName vp) (length view) = 0 \<and> length sub \<ge> sub_len vp
            then mask_loop (mode = VACM_MODE_IGNORE_MASK) vp sub (sub_len vp) 0 0 0x80
            else Ret False) (\<lambda>found.
       if found then
         viewGet_loop rest view sub mode
           (if mode = VACM_MODE_CHECK_SUBTREE \<or> better vp vpret then Some vp else vpret) (cnt + 1)
       else viewGet_loop rest view sub mode vpret cnt)"

definition Vacm_viewGet ::
    "Vacm_ViewEntry_s list \<Rightarrow> u8 list \<Rightarrow> oid list \<Rightarrow> view_mode \<Rightarrow> Vacm_ViewEntry_s option outcome" where
  "Vacm_viewGet head name sub mode =
     (if length name > VACM_MAX_STRING then Ret None
      else obind (viewGet_loop head (counted name) sub mode None 0) (\<lambda>(vpret, cnt).
        if mode = VACM_MODE_CHECK_SUBTREE \<and> cnt > 1 then Ret None else Ret vpret))"

text \<open>The subtree check; \<open>Inl\<close> is the early return out of the loop.\<close>

fun viewSubtreeCheck_loop ::
    "Vacm_ViewEntry_s list \<Rightarrow> u8 list \<Rightarrow> oid list \<Rightarrow> Vacm_ViewEntry_s option \<Rightarrow> Vacm_ViewEntry_s option
     \<Rightarrow> (int + Vacm_ViewEntry_s option \<times> Vacm_ViewEntry_s option) outcome" where
  "viewSubtreeCheck_loop [] view sub shorter longer = Ret (Inr (shorter, longer))"
| "viewSubtreeCheck_loop (vp # rest) view sub shorter longer =
     (if memcmp view (viewName vp) (length view) = 0 then
        (if length sub \<ge> sub_len vp then
           obind (mask_loop False vp sub (sub_len vp) 0 0 0x80) (\<lambda>found.
             viewSubtreeCheck_loop rest view sub
               (if found \<and> better vp shorter then Some vp else shorter) longer)
         else
           obind (mask_loop False vp sub (length sub) 0 0 0x80) (\<lambda>found.
             if found then
               (case longer of
                  Some l \<Rightarrow>
                    if viewType l \<noteq> viewType vp then Ret (Inl VACM_SUBTREE_UNKNOWN)
                    else viewSubtreeCheck_loop rest view sub shorter longer
                | None \<Rightarrow> viewSubtreeCheck_loop rest view sub shorter (Some vp))
             else viewSubtreeCheck_loop rest view sub shorter longer))
      else viewSubtreeCheck_loop rest view sub shorter longer)"

definition Vacm_viewSubtreeCheck ::
    "Vacm_ViewEntry_s list \<Rightarrow> u8 list \<Rightarrow> oid list \<Rightarrow> int outcome" where
  "Vacm_viewSubtreeCheck head name sub =
     (if length name > VACM_MAX_STRING then Ret VACM_NOTINVIEW
      else obind (viewSubtreeCheck_loop head (counted name) sub None None) (\<lambda>r.
        case r of
          Inl code \<Rightarrow> Ret code
        | Inr (shorter, longer) \<Rightarrow>
            (if (case longer of None \<Rightarrow> False
                 | Some l \<Rightarrow> (case shorter of None \<Rightarrow> viewType l \<noteq> PRIOT_VIEW_EXCLUDED
                             | Some s \<Rightarrow> viewType l \<noteq> viewType s))
             then Ret VACM_SUBTREE_UNKNOWN
             else if (case shorter of None \<Rightarrow> False | Some s \<Rightarrow> viewType s \<noteq> PRIOT_VIEW_EXCLUDED)
             then Ret VACM_SUCCESS
             else Ret VACM_NOTINVIEW)))"

text \<open>
  The stop test of the insertion. The entry itself is the second result. The subtree is copied
  behind its length, so 128 sub-identifiers do not fit.
\<close>

definition view_behind :: "Vacm_ViewEntry_s \<Rightarrow> Vacm_ViewEntry_s \<Rightarrow> bool" where
  "view_behind lp vp =
     (let cmp = memcmp (viewName lp) (viewName vp) (unat (hd (viewName vp)) + 1);
          cmp2 = Api_oidCompare (take (viewSubtreeLen lp) (viewSubtree lp))
                   (take (viewSubtreeLen vp) (viewSubtree vp))
      in (cmp = 0 \<and> cmp2 > 0) \<or> cmp > 0)"

definition new_view :: "u8 list \<Rightarrow> oid list \<Rightarrow> Vacm_ViewEntry_s" where
  "new_view name sub =
     \<lparr>viewName = counted_buf name,
      viewSubtree = of_nat (length sub) # sub @ replicate (VIEW_SUBTREE_MAX - 1 - length sub) 0,
      viewSubtreeLen = length sub + 1, viewMask = replicate VACM_VACMSTRINGLEN 0, viewMaskLen = 0,
      viewType = 0, viewStorageType = 0, viewStatus = 0\<rparr>"

definition Vacm_viewCreate ::
    "bool \<Rightarrow> bool \<Rightarrow> Vacm_ViewEntry_s list \<Rightarrow> u8 list \<Rightarrow> oid list
     \<Rightarrow> (Vacm_ViewEntry_s list \<times> Vacm_ViewEntry_s option) outcome" where
  "Vacm_viewCreate calloc1 calloc2 head name sub =
     (if length name > VACM_MAX_STRING then Ret (head, None)
      else if \<not> calloc1 \<or> \<not> calloc2 then Ret (head, None)
      else if length sub + 1 > VIEW_SUBTREE_MAX then Crash
      else
        (let vp = new_view name sub
         in Ret (link_before (\<lambda>lp. view_behind lp vp) vp head, Some vp)))"

text \<open>The subtree of the caller is the stored form, with the length in front.\<close>

definition view_matches :: "u8 list \<Rightarrow> oid list \<Rightarrow> Vacm_ViewEntry_s \<Rightarrow> bool" where
  "view_matches name sub vp \<longleftrightarrow>
     same_string (viewName vp) name \<and> viewSubtreeLen vp = length sub \<and>
     take (length sub) (viewSubtree vp) = sub"

definition Vacm_viewDestroy ::
    "Vacm_ViewEntry_s list \<Rightarrow> u8 list \<Rightarrow> oid list \<Rightarrow> Vacm_ViewEntry_s list" where
  "Vacm_viewDestroy head name sub = unlink (view_matches name sub) head"

definition Vacm_viewClear :: "Vacm_ViewEntry_s list \<Rightarrow> Vacm_ViewEntry_s list" where
  "Vacm_viewClear head = []"


section \<open>Well-formed views\<close>

definition view_name :: "Vacm_ViewEntry_s \<Rightarrow> u8 list" where
  "view_name vp = takeWhile (\<lambda>c. c \<noteq> 0) (tl (viewName vp))"

definition counted_ok :: "u8 list \<Rightarrow> bool" where
  "counted_ok a \<longleftrightarrow> (\<exists>s. a = counted_buf s \<and> length s \<le> VACM_MAX_STRING \<and> 0 \<notin> set s)"

definition view_ok :: "Vacm_ViewEntry_s \<Rightarrow> bool" where
  "view_ok vp \<longleftrightarrow> counted_ok (viewName vp) \<and>
     length (viewSubtree vp) = VIEW_SUBTREE_MAX \<and>
     1 \<le> viewSubtreeLen vp \<and> viewSubtreeLen vp \<le> VIEW_SUBTREE_MAX \<and>
     viewSubtree vp ! 0 = of_nat (viewSubtreeLen vp - 1) \<and>
     length (viewMask vp) = VACM_VACMSTRINGLEN \<and> viewMaskLen vp \<le> VACM_VACMSTRINGLEN"

lemma takeWhile_counted_buf:
  "0 \<notin> set s \<Longrightarrow> takeWhile (\<lambda>c. c \<noteq> 0) (tl (counted_buf s)) = s"
  by (cases "VACM_VACMSTRINGLEN - 1 - length s")
    (auto simp: counted_buf_def counted_def takeWhile_append2 takeWhile_tail intro: takeWhile_eq_all_conv [THEN iffD2])

lemma counted_inject:
  assumes "length s \<le> VACM_MAX_STRING" and "length t \<le> VACM_MAX_STRING"
  shows "memcmp (counted s) (counted_buf t) (length (counted s)) = 0 \<longleftrightarrow> s = t"
proof -
  have "(of_nat (length s) :: u8) = of_nat (length t) \<longleftrightarrow> length s = length t"
    using assms by (auto simp: VACM_MAX_STRING_def word_of_nat_eq_iff take_bit_nat_def)
  then show ?thesis
    by (auto simp: memcmp_def counted_def counted_buf_def)
qed

lemma view_okD:
  assumes "view_ok vp"
  shows "viewName vp = counted_buf (view_name vp)" and "length (view_name vp) \<le> VACM_MAX_STRING"
    and "0 \<notin> set (view_name vp)" and "sub_len vp = length (sub_oid vp)"
    and "viewSubtreeLen vp = length (sub_oid vp) + 1"
    and "length (sub_oid vp) < VIEW_SUBTREE_MAX"
    and "i < length (sub_oid vp) \<Longrightarrow> viewSubtree vp ! (i + 1) = sub_oid vp ! i"
    and "length (sub_oid vp) < length (viewSubtree vp)"
  using assms takeWhile_counted_buf
  by (auto simp: view_ok_def counted_ok_def view_name_def sub_oid_def sub_len_def)

text \<open>Sub-identifier \<open>i\<close> of the entry is a wildcard when its bit in the mask is zero.\<close>

definition wild :: "Vacm_ViewEntry_s \<Rightarrow> nat \<Rightarrow> bool" where
  "wild vp i \<longleftrightarrow> i div 8 < viewMaskLen vp \<and> \<not> bit (viewMask vp ! (i div 8)) (7 - i mod 8)"

definition agrees :: "bool \<Rightarrow> Vacm_ViewEntry_s \<Rightarrow> oid list \<Rightarrow> nat \<Rightarrow> bool" where
  "agrees ignore vp sub i \<longleftrightarrow> (\<not> ignore \<and> wild vp i) \<or> sub ! i = sub_oid vp ! i"

lemma less_8_cases: "j < 8 \<Longrightarrow> j \<in> {0, 1, 2, 3, 4, 5, 6, 7 :: nat}"
  by auto

lemma mask_push: "j < 8 \<Longrightarrow> drop_bit j (0x80 :: u8) = push_bit (7 - j) 1"
  by (drule less_8_cases) (elim insertE emptyE; simp)

lemma mask_bit:
  assumes "j < 8"
  shows "(b :: u8) AND drop_bit j 0x80 \<noteq> 0 \<longleftrightarrow> bit b (7 - j)"
  unfolding mask_push [OF assms] by (simp add: and_exp_eq_0_iff_not_bit push_bit_eq_mult)

lemma mask_step: "j < 8 \<Longrightarrow> drop_bit j (0x80 :: u8) = 1 \<longleftrightarrow> j = 7"
  by (drule less_8_cases) (elim insertE emptyE; simp)

lemma mask_loop_eq:
  assumes "view_ok vp" and "p + n \<le> length (sub_oid vp)" and "p + n \<le> length sub"
  shows "mask_loop ignore vp sub n p (p div 8) (drop_bit (p mod 8) 0x80) =
    Ret (\<forall>i \<in> {p..<p + n}. agrees ignore vp sub i)"
  using assms(2,3)
proof (induction n arbitrary: p)
  case (Suc n)
  let ?mk = "drop_bit (p mod 8) (0x80 :: u8)"
  have lt: "7 - p mod 8 < (8 :: nat)"
    by simp
  have care: "(if ignore then Ret True else obind (VIEW_MASK vp (p div 8) ?mk) (\<lambda>b. Ret (b \<noteq> 0)))
      = Ret (\<not> (\<not> ignore \<and> wild vp p))"
    using assms(1) mask_bit [of "p mod 8"] mask_push [of "p mod 8"] lt
    by (simp add: VIEW_MASK_def wild_def view_ok_def)
  have found: "(if \<not> (\<not> ignore \<and> wild vp p)
      then obind (rd sub p) (\<lambda>s. obind (rd (viewSubtree vp) (p + 1)) (\<lambda>v. Ret (s = v)))
      else Ret True) = Ret (agrees ignore vp sub p)"
    using Suc.prems view_okD(7,8) [OF assms(1)] by (auto simp: agrees_def)
  have step: "(if ?mk = 1 then mask_loop ignore vp sub n (p + 1) (p div 8 + 1) 0x80
      else mask_loop ignore vp sub n (p + 1) (p div 8) (drop_bit 1 ?mk)) =
      mask_loop ignore vp sub n (p + 1) ((p + 1) div 8) (drop_bit ((p + 1) mod 8) 0x80)"
  proof (cases "p mod 8 = 7")
    case True
    then have "(p + 1) mod 8 = 0" "(p + 1) div 8 = p div 8 + 1"
      by presburger+
    with True show ?thesis
      by simp
  next
    case False
    then have "(p + 1) mod 8 = p mod 8 + 1" "(p + 1) div 8 = p div 8"
      by presburger+
    moreover have "drop_bit 1 ?mk = drop_bit (p mod 8 + 1) 0x80"
      by (simp only: drop_bit_drop_bit add.commute)
    ultimately show ?thesis
      using False mask_step [of "p mod 8"] by simp
  qed
  have "{p..<p + Suc n} = insert p {p + 1..<p + 1 + n}"
    by auto
  with care found step Suc.IH [of "p + 1"] Suc.prems show ?case
    by (simp del: drop_bit_of_1 mask_push)
qed simp


section \<open>The longest match\<close>

text \<open>Whether an entry speaks for a subtree, and the entries of a view that do.\<close>

definition covers :: "bool \<Rightarrow> Vacm_ViewEntry_s \<Rightarrow> oid list \<Rightarrow> bool" where
  "covers ignore vp sub \<longleftrightarrow> length (sub_oid vp) \<le> length sub \<and>
     (\<forall>i \<in> {0..<length (sub_oid vp)}. agrees ignore vp sub i)"

definition speaking :: "bool \<Rightarrow> u8 list \<Rightarrow> oid list \<Rightarrow> Vacm_ViewEntry_s list \<Rightarrow> Vacm_ViewEntry_s list" where
  "speaking ignore name sub = filter (\<lambda>vp. view_name vp = name \<and> covers ignore vp sub)"

definition rank :: "Vacm_ViewEntry_s \<Rightarrow> nat \<times> oid list" where
  "rank vp = (length (sub_oid vp), sub_oid vp)"

definition pick :: "Vacm_ViewEntry_s \<Rightarrow> Vacm_ViewEntry_s option \<Rightarrow> Vacm_ViewEntry_s option" where
  "pick vp best = (if better vp best then Some vp else best)"

lemma name_test:
  assumes "view_ok vp" and "length name \<le> VACM_MAX_STRING"
  shows "memcmp (counted name) (viewName vp) (length (counted name)) = 0 \<longleftrightarrow> view_name vp = name"
  using counted_inject [OF assms(2) view_okD(2) [OF assms(1)]] view_okD(1) [OF assms(1)]
  by metis

lemma whole_mask:
  assumes "view_ok vp" and "n \<le> length (sub_oid vp)" and "n \<le> length sub"
  shows "mask_loop ignore vp sub n 0 0 0x80 = Ret (\<forall>i \<in> {0..<n}. agrees ignore vp sub i)"
  using mask_loop_eq [OF assms(1), of 0 n sub ignore] assms(2,3) by simp

lemma entry_test:
  assumes "view_ok vp" and "length name \<le> VACM_MAX_STRING"
  shows "(if memcmp (counted name) (viewName vp) (length (counted name)) = 0 \<and> length sub \<ge> sub_len vp
      then mask_loop ignore vp sub (sub_len vp) 0 0 0x80 else Ret False) =
    Ret (view_name vp = name \<and> covers ignore vp sub)"
  unfolding name_test [OF assms] covers_def view_okD(4) [OF assms(1)]
  using whole_mask [OF assms(1) order_refl, of sub ignore] by auto

lemma viewGet_loop_eq:
  assumes "\<forall>vp \<in> set head. view_ok vp" and "length name \<le> VACM_MAX_STRING"
  shows "viewGet_loop head (counted name) sub mode v c =
    Ret (fold (\<lambda>vp v. if mode = VACM_MODE_CHECK_SUBTREE then Some vp else pick vp v)
           (speaking (mode = VACM_MODE_IGNORE_MASK) name sub head) v,
         c + length (speaking (mode = VACM_MODE_IGNORE_MASK) name sub head))"
  using assms(1)
proof (induction head arbitrary: v c)
  case (Cons vp head)
  then show ?case
    by (cases "mode = VACM_MODE_CHECK_SUBTREE"; cases "better vp v";
        cases "view_name vp = name \<and> covers (mode = VACM_MODE_IGNORE_MASK) vp sub")
      (simp_all add: entry_test [OF _ assms(2)] speaking_def pick_def del: if_split)
qed (simp add: speaking_def)

lemma better_rank:
  assumes "view_ok vp" and "view_ok b"
  shows "better vp (Some b) \<longleftrightarrow> rank b < rank vp"
  using view_okD(5) [OF assms(1)] view_okD(5) [OF assms(2)]
  by (auto simp: better_def rank_def less_prod_def' not_less)

text \<open>The fold keeps the first entry of the highest rank.\<close>

lemma find_Some_split: "find P xs = Some x \<Longrightarrow> x \<in> set xs \<and> P x"
  by (induction xs) (auto split: if_splits)

lemma fold_pick_Some:
  assumes "\<forall>vp \<in> set ms. view_ok vp" and "view_ok b"
  shows "fold pick ms (Some b) = find (\<lambda>v. \<forall>w \<in> set (b # ms). rank w \<le> rank v) (b # ms)"
  using assms
proof (induction ms arbitrary: b)
  case (Cons m ms)
  show ?case
  proof (cases "rank b < rank m")
    case True
    then have "fold pick (m # ms) (Some b) = fold pick ms (Some m)"
      using Cons.prems better_rank [of m b] by (simp add: pick_def)
    also have "\<dots> = find (\<lambda>v. \<forall>w \<in> set (m # ms). rank w \<le> rank v) (m # ms)"
      using Cons.prems by (intro Cons.IH) auto
    finally have "fold pick (m # ms) (Some b) = find (\<lambda>v. \<forall>w \<in> set (m # ms). rank w \<le> rank v) (m # ms)" .
    moreover have "(\<forall>w \<in> set (m # ms). rank w \<le> rank v) \<longleftrightarrow> (\<forall>w \<in> set (b # m # ms). rank w \<le> rank v)" for v
      using True by auto
    moreover have "\<not> rank m \<le> rank b"
      using True by simp
    ultimately show ?thesis
      by (simp only: find.simps split: if_split) auto
  next
    case False
    have eq: "(\<forall>w \<in> set (b # ms). rank w \<le> rank v) \<longleftrightarrow> (\<forall>w \<in> set (b # m # ms). rank w \<le> rank v)" for v
      using False by auto
    have "(\<forall>w \<in> set (b # m # ms). rank w \<le> rank b)" if "\<forall>w \<in> set (b # m # ms). rank w \<le> rank m"
      using False that by (auto simp: not_less intro: order_trans)
    then have "find (\<lambda>v. \<forall>w \<in> set (b # m # ms). rank w \<le> rank v) (b # m # ms) =
        find (\<lambda>v. \<forall>w \<in> set (b # m # ms). rank w \<le> rank v) (b # ms)"
      by (simp only: find.simps split: if_split) blast
    moreover have "fold pick (m # ms) (Some b) = fold pick ms (Some b)"
      using Cons.prems False better_rank [of m b] by (simp add: pick_def)
    moreover have "\<dots> = find (\<lambda>v. \<forall>w \<in> set (b # ms). rank w \<le> rank v) (b # ms)"
      using Cons.prems by (intro Cons.IH) auto
    ultimately show ?thesis
      by (simp only: eq)
  qed
qed simp

lemma fold_pick_None:
  assumes "\<forall>vp \<in> set ms. view_ok vp"
  shows "fold pick ms None = find (\<lambda>v. \<forall>w \<in> set ms. rank w \<le> rank v) ms"
proof (cases ms)
  case (Cons m ms')
  then show ?thesis
    using fold_pick_Some [of ms' m] assms by (simp add: pick_def better_def)
qed simp


definition longest :: "Vacm_ViewEntry_s list \<Rightarrow> Vacm_ViewEntry_s option" where
  "longest ms = find (\<lambda>v. \<forall>w \<in> set ms. rank w \<le> rank v) ms"

lemma longest_Nil_iff: "longest ms = None \<longleftrightarrow> ms = []"
proof
  assume none: "longest ms = None"
  show "ms = []"
  proof (rule ccontr)
    assume "ms \<noteq> []"
    then have "Max (rank ` set ms) \<in> rank ` set ms"
      by (intro Max_in) auto
    then obtain v where "v \<in> set ms" "rank v = Max (rank ` set ms)"
      by (metis imageE)
    with none show False
      by (auto simp: longest_def find_None_iff)
  qed
qed (simp add: longest_def)

lemma longest_SomeD:
  assumes "longest ms = Some v"
  shows "v \<in> set ms" and "w \<in> set ms \<Longrightarrow> rank w \<le> rank v"
  using assms find_Some_split [of _ ms v] by (auto simp: longest_def)

lemma fold_pick_longest:
  "\<forall>vp \<in> set ms. view_ok vp \<Longrightarrow> fold pick ms None = longest ms"
  by (simp add: fold_pick_None longest_def)

lemma set_speaking [simp]: "set (speaking ign name sub head) =
    {vp \<in> set head. view_name vp = name \<and> covers ign vp sub}"
  by (simp add: speaking_def)

lemma viewGet_longest:
  assumes "\<forall>vp \<in> set head. view_ok vp" and "length name \<le> VACM_MAX_STRING"
    and "mode \<noteq> VACM_MODE_CHECK_SUBTREE"
  shows "Vacm_viewGet head name sub mode = Ret (longest (speaking (mode = VACM_MODE_IGNORE_MASK) name sub head))"
  using assms fold_pick_longest [of "speaking (mode = VACM_MODE_IGNORE_MASK) name sub head"]
  by (simp add: Vacm_viewGet_def viewGet_loop_eq [OF assms(1,2)])

lemma fold_last: "fold (\<lambda>x _. Some x) xs v = (if xs = [] then v else Some (last xs))"
  by (induction xs arbitrary: v) auto

lemma viewGet_unique:
  assumes "\<forall>vp \<in> set head. view_ok vp" and "length name \<le> VACM_MAX_STRING"
  shows "Vacm_viewGet head name sub VACM_MODE_CHECK_SUBTREE =
    Ret (case speaking False name sub head of [v] \<Rightarrow> Some v | _ \<Rightarrow> None)"
  using assms
  by (simp add: Vacm_viewGet_def viewGet_loop_eq [OF assms] fold_last split: list.split)

text \<open>The search over an identifier cut short: longer entries aside, it is the same search.\<close>

definition short :: "oid list \<Rightarrow> Vacm_ViewEntry_s \<Rightarrow> bool" where
  "short sub vp \<longleftrightarrow> length (sub_oid vp) \<le> length sub"

lemma covers_extend:
  assumes "short sub vp"
  shows "covers ign vp (sub @ ext) \<longleftrightarrow> covers ign vp sub"
  using assms by (auto simp: covers_def short_def agrees_def nth_append)

lemma speaking_extend:
  "filter (short sub) (speaking ign name (sub @ ext) head) = speaking ign name sub head"
  by (induction head) (auto simp: speaking_def covers_extend, auto simp: covers_def short_def)

lemma find_filter:
  "(\<And>x. x \<in> set xs \<Longrightarrow> P x \<Longrightarrow> Q x) \<Longrightarrow> find P (filter Q xs) = find P xs"
  by (induction xs) auto

lemma find_cong_on: "(\<And>x. x \<in> set xs \<Longrightarrow> P x \<longleftrightarrow> P' x) \<Longrightarrow> find P xs = find P' xs"
  by (induction xs) auto

lemma longest_filter_short:
  assumes "longest ms = Some v" and "short sub v"
  shows "longest (filter (short sub) ms) = Some v"
proof -
  note D = longest_SomeD [OF assms(1)]
  have eq: "(\<forall>w \<in> set ms. rank w \<le> rank u) \<longleftrightarrow> rank u = rank v" if "u \<in> set ms" for u
    using D that by (auto intro: order.antisym order.trans)
  have sh: "short sub u" if "rank u = rank v" for u
    using that assms(2) by (simp add: rank_def short_def)
  have "longest (filter (short sub) ms) = find (\<lambda>u. rank u = rank v) (filter (short sub) ms)"
    unfolding longest_def using D assms(2) by (intro find_cong_on) (auto intro: order.antisym)
  also have "\<dots> = find (\<lambda>u. rank u = rank v) ms"
    by (rule find_filter) (rule sh)
  also have "\<dots> = longest ms"
    unfolding longest_def using eq by (intro find_cong_on) auto
  finally show ?thesis
    using assms(1) by simp
qed

section \<open>The check of a whole subtree\<close>

definition overlaps :: "u8 list \<Rightarrow> oid list \<Rightarrow> Vacm_ViewEntry_s \<Rightarrow> bool" where
  "overlaps name sub vp \<longleftrightarrow> view_name vp = name \<and> \<not> short sub vp \<and>
     (\<forall>i \<in> {0..<length sub}. agrees False vp sub i)"

lemma overlaps_extend:
  assumes "covers False vp (sub @ ext)" and "\<not> short sub vp"
  shows "\<forall>i \<in> {0..<length sub}. agrees False vp sub i"
  using assms by (auto simp: covers_def short_def agrees_def nth_append)

lemma subtreeCheck_step:
  assumes "view_ok vp" and "length name \<le> VACM_MAX_STRING"
  shows "viewSubtreeCheck_loop (vp # rest) (counted name) sub s l =
    (if view_name vp = name \<and> covers False vp sub
       then viewSubtreeCheck_loop rest (counted name) sub (pick vp s) l
     else if overlaps name sub vp then
       (case l of
          Some l' \<Rightarrow> if viewType l' \<noteq> viewType vp then Ret (Inl VACM_SUBTREE_UNKNOWN)
                   else viewSubtreeCheck_loop rest (counted name) sub s l
        | None \<Rightarrow> viewSubtreeCheck_loop rest (counted name) sub s (Some vp))
     else viewSubtreeCheck_loop rest (counted name) sub s l)"
  unfolding viewSubtreeCheck_loop.simps name_test [OF assms] view_okD(4) [OF assms(1)]
  using whole_mask [OF assms(1), of "length (sub_oid vp)" sub False]
    whole_mask [OF assms(1), of "length sub" sub False]
  by (auto simp: covers_def overlaps_def short_def pick_def split: option.split)

declare viewSubtreeCheck_loop.simps(2) [simp del]

lemma subtreeCheck_loop_RetD:
  assumes "\<forall>vp \<in> set head. view_ok vp" and "length name \<le> VACM_MAX_STRING"
    and "viewSubtreeCheck_loop head (counted name) sub s l = Ret (Inr (s', l'))"
  shows "s' = fold pick (speaking False name sub head) s \<and>
    (\<forall>vp \<in> set head. overlaps name sub vp \<longrightarrow> map_option viewType l' = Some (viewType vp)) \<and>
    (l \<noteq> None \<longrightarrow> l' = l) \<and> (l = None \<longrightarrow> (\<forall>v. l' = Some v \<longrightarrow> overlaps name sub v))"
  using assms(1,3)
proof (induction head arbitrary: s l)
  case (Cons vp head)
  have st: "viewSubtreeCheck_loop (vp # head) (counted name) sub s l = Ret (Inr (s', l'))"
    by (rule Cons.prems(2))
  have ok: "view_ok vp" and oks: "\<forall>vp \<in> set head. view_ok vp"
    using Cons.prems(1) by auto
  show ?case
  proof (cases "view_name vp = name \<and> covers False vp sub")
    case True
    then have "\<not> overlaps name sub vp"
      by (auto simp: covers_def overlaps_def short_def)
    with True st Cons.IH [OF oks, of "pick vp s" l] show ?thesis
      by (auto simp: subtreeCheck_step [OF ok assms(2)] speaking_def)
  next
    case False
    with st Cons.IH [OF oks, of s l] Cons.IH [OF oks, of s "Some vp"] show ?thesis
      by (auto simp: subtreeCheck_step [OF ok assms(2)] speaking_def split: if_splits option.splits)
  qed
qed (auto simp: speaking_def)

lemma subtreeCheck_loop_total:
  assumes "\<forall>vp \<in> set head. view_ok vp" and "length name \<le> VACM_MAX_STRING"
  shows "\<exists>r. viewSubtreeCheck_loop head (counted name) sub s l = Ret r \<and>
    (case r of Inl c \<Rightarrow> c = VACM_SUBTREE_UNKNOWN | Inr _ \<Rightarrow> True)"
  using assms(1)
proof (induction head arbitrary: s l)
  case (Cons vp head)
  then show ?case
    by (simp add: subtreeCheck_step [OF _ assms(2)] split: option.split)
qed simp


text \<open>\<open>in_view\<close>: what \<open>VacmConf_checkViewContents\<close> asks of one identifier.\<close>

definition in_view :: "Vacm_ViewEntry_s list \<Rightarrow> u8 list \<Rightarrow> oid list \<Rightarrow> bool" where
  "in_view head name sub \<longleftrightarrow>
     (case Vacm_viewGet head name sub VACM_MODE_FIND of
        Ret (Some v) \<Rightarrow> viewType v \<noteq> PRIOT_VIEW_EXCLUDED | _ \<Rightarrow> False)"

lemma subtreeCheck_RetD:
  assumes "\<forall>vp \<in> set head. view_ok vp" and "length name \<le> VACM_MAX_STRING"
    and "Vacm_viewSubtreeCheck head name sub = Ret c" and "c \<noteq> VACM_SUBTREE_UNKNOWN"
  obtains s and l :: "Vacm_ViewEntry_s option"
  where "s = longest (speaking False name sub head)"
    and "\<forall>vp \<in> set head. overlaps name sub vp \<longrightarrow> map_option viewType l = Some (viewType vp)"
    and "l \<noteq> None \<longrightarrow> map_option viewType l =
      Some (case s of None \<Rightarrow> PRIOT_VIEW_EXCLUDED | Some v \<Rightarrow> viewType v)"
    and "c = VACM_SUCCESS \<longleftrightarrow> (\<exists>v. s = Some v \<and> viewType v \<noteq> PRIOT_VIEW_EXCLUDED)"
proof -
  obtain r where r: "viewSubtreeCheck_loop head (counted name) sub None None = Ret r"
    and "case r of Inl c \<Rightarrow> c = VACM_SUBTREE_UNKNOWN | Inr _ \<Rightarrow> True"
    using subtreeCheck_loop_total [OF assms(1,2)] by blast
  with assms obtain s l where sl: "r = Inr (s, l)"
    by (auto simp: Vacm_viewSubtreeCheck_def split: sum.splits)
  note D = subtreeCheck_loop_RetD [OF assms(1,2) r [unfolded sl]]
  moreover have "fold pick (speaking False name sub head) None = longest (speaking False name sub head)"
    using assms(1) by (intro fold_pick_longest) simp
  ultimately show thesis
    using assms(2-4) r sl
    by (intro that [of s l]) (auto simp: Vacm_viewSubtreeCheck_def vacm_codes split: option.splits if_splits)
qed

lemma subtreeCheck_decides:
  assumes "\<forall>vp \<in> set head. view_ok vp" and "length name \<le> VACM_MAX_STRING"
    and "Vacm_viewSubtreeCheck head name sub = Ret c" and "c \<noteq> VACM_SUBTREE_UNKNOWN"
  shows "in_view head name (sub @ ext) \<longleftrightarrow> c = VACM_SUCCESS"
proof (rule subtreeCheck_RetD [OF assms])
  fix s and l :: "Vacm_ViewEntry_s option"
  assume s: "s = longest (speaking False name sub head)"
    and over: "\<forall>vp \<in> set head. overlaps name sub vp \<longrightarrow> map_option viewType l = Some (viewType vp)"
    and l: "l \<noteq> None \<longrightarrow> map_option viewType l =
      Some (case s of None \<Rightarrow> PRIOT_VIEW_EXCLUDED | Some v \<Rightarrow> viewType v)"
    and c: "c = VACM_SUCCESS \<longleftrightarrow> (\<exists>v. s = Some v \<and> viewType v \<noteq> PRIOT_VIEW_EXCLUDED)"
  let ?M = "speaking False name (sub @ ext) head"
  have get: "Vacm_viewGet head name (sub @ ext) VACM_MODE_FIND = Ret (longest ?M)"
    using viewGet_longest [OF assms(1,2), of VACM_MODE_FIND "sub @ ext"] by simp
  have S: "speaking False name sub head = filter (short sub) ?M"
    by (simp add: speaking_extend)
  show ?thesis
  proof (cases "longest ?M")
    case None
    then have "s = None"
      using s S by (simp add: longest_Nil_iff)
    with None get c show ?thesis
      by (simp add: in_view_def)
  next
    case (Some v)
    note v = longest_SomeD(1) [OF Some]
    show ?thesis
    proof (cases "short sub v")
      case True
      then have "s = Some v"
        using longest_filter_short [OF Some] s S by simp
      with Some get c show ?thesis
        by (simp add: in_view_def)
    next
      case False
      then have "map_option viewType l = Some (viewType v)"
        using v over overlaps_extend [of v sub ext] by (auto simp: overlaps_def)
      with l have "viewType v = (case s of None \<Rightarrow> PRIOT_VIEW_EXCLUDED | Some u \<Rightarrow> viewType u)"
        by auto
      with Some get c show ?thesis
        by (auto simp: in_view_def split: option.splits)
    qed
  qed
qed

section \<open>The order of the table\<close>

lemma hd_counted_buf: "length s \<le> VACM_MAX_STRING \<Longrightarrow> unat (hd (counted_buf s)) = length s"
  by (simp add: counted_buf_def counted_def VACM_MAX_STRING_def unat_of_nat)

lemma take_counted_buf: "take (Suc (length s)) (counted_buf s) = counted s"
  by (simp add: counted_buf_def counted_def)

lemma counted_eq_iff: "counted s = counted t \<longleftrightarrow> s = t"
  by (auto simp: counted_def)

text \<open>\<open>memcmp\<close> over the length of one of two counted names is the order of the names.\<close>

lemma memcmp_counted:
  assumes "length s \<le> VACM_MAX_STRING" and "length t \<le> VACM_MAX_STRING"
  shows "memcmp (counted_buf t) (counted_buf s) (Suc (length s)) =
    (if counted t < counted s then -1 else if counted t = counted s then 0 else 1)"
proof (cases "length s = length t")
  case True
  then show ?thesis
    using take_counted_buf [of s] take_counted_buf [of t] by (simp add: memcmp_def)
next
  case False
  then have "(of_nat (length s) :: u8) \<noteq> of_nat (length t)"
    using assms by (auto simp: VACM_MAX_STRING_def word_of_nat_eq_iff take_bit_nat_def)
  then show ?thesis
    by (auto simp: memcmp_def counted_buf_def counted_def)
qed

lemma memcmp_counted_iff:
  assumes "length s \<le> VACM_MAX_STRING" and "length t \<le> VACM_MAX_STRING"
  shows "memcmp (counted_buf t) (counted_buf s) (Suc (length s)) > 0 \<longleftrightarrow> counted s < counted t"
    and "memcmp (counted_buf t) (counted_buf s) (Suc (length s)) < 0 \<longleftrightarrow> counted t < counted s"
    and "memcmp (counted_buf t) (counted_buf s) (Suc (length s)) = 0 \<longleftrightarrow> s = t"
  using memcmp_counted [OF assms] counted_eq_iff [of t s] by auto

definition view_key :: "Vacm_ViewEntry_s \<Rightarrow> u8 list \<times> oid list" where
  "view_key vp = (counted (view_name vp), take (viewSubtreeLen vp) (viewSubtree vp))"

lemma view_behind_key:
  assumes "view_ok vp" and "view_ok lp"
  shows "view_behind lp vp \<longleftrightarrow> view_key vp < view_key lp"
proof -
  note names = view_okD(1) [OF assms(1)] view_okD(1) [OF assms(2)]
  note le = view_okD(2) [OF assms(1)] view_okD(2) [OF assms(2)]
  have "view_behind lp vp \<longleftrightarrow> (view_name vp = view_name lp \<and>
      take (viewSubtreeLen vp) (viewSubtree vp) < take (viewSubtreeLen lp) (viewSubtree lp)) \<or>
    counted (view_name vp) < counted (view_name lp)"
    unfolding view_behind_def Let_def
    by (subst (1 2 3 4) names) (simp_all add: names hd_counted_buf [OF le(1)] memcmp_counted_iff [OF le])
  then show ?thesis
    by (auto simp: view_key_def less_prod_def' counted_eq_iff)
qed

interpretation view_table: keyed_list view_ok view_behind view_key
  by unfold_locales (rule view_behind_key)


text \<open>The table's invariant: well-formed entries in the order of the index.\<close>

definition views_ok :: "Vacm_ViewEntry_s list \<Rightarrow> bool" where
  "views_ok head \<longleftrightarrow> (\<forall>vp \<in> set head. view_ok vp) \<and> sorted (map view_key head)"

lemma new_view_ok:
  assumes "length name \<le> VACM_MAX_STRING" and "0 \<notin> set name" and "length sub < VIEW_SUBTREE_MAX"
  shows "view_ok (new_view name sub)" and "view_name (new_view name sub) = name"
    and "sub_oid (new_view name sub) = sub"
  using assms takeWhile_counted_buf [OF assms(2)]
  by (auto simp: view_ok_def counted_ok_def new_view_def view_name_def sub_oid_def sub_len_def)

lemma viewCreate_cases:
  assumes "Vacm_viewCreate c1 c2 head name sub = Ret (head', r)"
  shows "head' = head \<and> r = None \<or>
    length name \<le> VACM_MAX_STRING \<and> length sub < VIEW_SUBTREE_MAX \<and> r = Some (new_view name sub) \<and>
    head' = link_before (\<lambda>lp. view_behind lp (new_view name sub)) (new_view name sub) head"
  using assms by (auto simp: Vacm_viewCreate_def Let_def split: if_splits)

lemma viewCreate_ok:
  assumes "Vacm_viewCreate c1 c2 head name sub = Ret (head', r)" and "views_ok head" and "0 \<notin> set name"
  shows "views_ok head'"
  using viewCreate_cases [OF assms(1)]
proof (elim disjE conjE)
  assume "length name \<le> VACM_MAX_STRING" and "length sub < VIEW_SUBTREE_MAX"
    and head': "head' = link_before (\<lambda>lp. view_behind lp (new_view name sub)) (new_view name sub) head"
  then have "view_ok (new_view name sub)"
    using assms(3) by (intro new_view_ok)
  then show ?thesis
    using assms(2) view_table.sorted_link [of head "new_view name sub"]
    by (auto simp: views_ok_def head')
qed (use assms(2) in simp)

lemma viewDestroy_ok: "views_ok head \<Longrightarrow> views_ok (Vacm_viewDestroy head name sub)"
  using set_unlink_subset [of "view_matches name sub" head]
  by (auto simp: views_ok_def Vacm_viewDestroy_def intro: view_table.sorted_unlink)

lemma view_matches_iff:
  assumes "view_ok vp" and "length sub < VIEW_SUBTREE_MAX"
  shows "view_matches name (of_nat (length sub) # sub) vp \<longleftrightarrow> view_name vp = name \<and> sub_oid vp = sub"
proof -
  obtain x xs where sub: "viewSubtree vp = x # xs"
    using assms(1) by (cases "viewSubtree vp") (auto simp: view_ok_def VIEW_SUBTREE_MAX_def)
  obtain k where k: "viewSubtreeLen vp = Suc k"
    using assms(1) by (cases "viewSubtreeLen vp") (auto simp: view_ok_def)
  have x: "x = of_nat k" and xs: "k \<le> length xs" and so: "sub_oid vp = take k xs"
    using assms(1) sub k by (auto simp: view_ok_def sub_oid_def sub_len_def)
  have "k = length sub" if "take k xs = sub"
    using that xs by auto
  then show ?thesis
    unfolding view_matches_def same_string_def view_name_def [symmetric] sub k so x by auto
qed

lemma view_matches_new:
  assumes "length name \<le> VACM_MAX_STRING" and "0 \<notin> set name" and "length sub < VIEW_SUBTREE_MAX"
  shows "view_matches name (of_nat (length sub) # sub) (new_view name sub)"
  using view_matches_iff [OF new_view_ok(1) [OF assms] assms(3)] new_view_ok(2,3) [OF assms] by simp

end
