(* ===== verification/Maps.thy ===== *)
theory Maps
  imports Integer64
begin

text \<open>
  String-keyed maps and the name tables built on them: src/Firmware/Core/System/Containers/Map.c and
  MapList.c. A map is the list of its nodes; keys and labels are strings that are not NULL. Whether
  an allocation succeeds is a parameter of the operations that allocate.
\<close>

section \<open>Maps\<close>

definition Map_newElement :: "bool \<Rightarrow> string \<Rightarrow> 'v \<Rightarrow> (string \<times> 'v) option" where
  "Map_newElement alloc key value = (if alloc then Some (key, value) else None)"

text \<open>A duplicate key is reported in the log and stored all the same, behind the first.\<close>

definition Map_insert :: "(string \<times> 'v) list \<Rightarrow> string \<times> 'v \<Rightarrow> (string \<times> 'v) list" where
  "Map_insert mapHead element = mapHead @ [element]"

definition Map_emplace :: "bool \<Rightarrow> (string \<times> 'v) list \<Rightarrow> string \<Rightarrow> 'v \<Rightarrow> (string \<times> 'v) list" where
  "Map_emplace alloc mapHead key value =
     (case Map_newElement alloc key value of
        None \<Rightarrow> mapHead
      | Some node \<Rightarrow> Map_insert mapHead node)"

fun Map_find :: "(string \<times> 'v) list \<Rightarrow> string \<Rightarrow> (string \<times> 'v) option" where
  "Map_find [] key = None"
| "Map_find (e # es) key = (if fst e = key then Some e else Map_find es key)"

definition Map_at :: "(string \<times> 'v) list \<Rightarrow> string \<Rightarrow> 'v option" where
  "Map_at mapHead key = map_option snd (Map_find mapHead key)"

fun Map_erase :: "(string \<times> 'v) list \<Rightarrow> string \<Rightarrow> (string \<times> 'v) list \<times> int" where
  "Map_erase [] key = ([], 1)"
| "Map_erase (e # es) key =
     (if fst e = key then (es, 0) else (case Map_erase es key of (es', rc) \<Rightarrow> (e # es', rc)))"

lemma Map_at_map_of: "Map_at m k = map_of m k"
  by (induction m) (auto simp: Map_at_def)

lemma Map_emplace_simp: "Map_emplace alloc m k v = (if alloc then m @ [(k, v)] else m)"
  by (simp add: Map_emplace_def Map_newElement_def Map_insert_def)

lemma Map_erase_rc: "snd (Map_erase m k) = (if k \<in> fst ` set m then 0 else 1)"
proof (induction m)
  case (Cons e m)
  obtain es rc where "Map_erase m k = (es, rc)"
    by fastforce
  then show ?case
    using Cons.IH by auto
qed simp

lemma map_of_snoc: "map_of m k = None \<Longrightarrow> map_of (m @ [(k, v)]) = (map_of m)(k \<mapsto> v)"
  by (auto simp: fun_eq_iff map_add_def split: option.split)

lemma Map_erase_filter:
  "distinct (map fst m) \<Longrightarrow> fst (Map_erase m k) = filter (\<lambda>e. fst e \<noteq> k) m"
proof (induction m)
  case (Cons e m)
  have "fst e \<notin> fst ` set m \<Longrightarrow> filter (\<lambda>x. fst x \<noteq> fst e) m = m"
    by (induction m) auto
  then show ?case
    using Cons by (auto split: prod.splits)
qed simp

text \<open>
  What the users of a dictionary rely on, for dictionaries that satisfy \<open>ok\<close>: keys that are stored
  once.
\<close>

locale dictionary =
  fixes ok :: "'d \<Rightarrow> bool"
    and put :: "'d \<Rightarrow> 'k \<Rightarrow> 'v \<Rightarrow> 'd"
    and get :: "'d \<Rightarrow> 'k \<Rightarrow> 'v option"
    and remove :: "'d \<Rightarrow> 'k \<Rightarrow> 'd"
  assumes ok_put: "ok d \<Longrightarrow> get d k = None \<Longrightarrow> ok (put d k v)"
    and ok_remove: "ok d \<Longrightarrow> ok (remove d k)"
    and get_put: "ok d \<Longrightarrow> get d k = None \<Longrightarrow> get (put d k v) = (get d)(k \<mapsto> v)"
    and get_remove: "ok d \<Longrightarrow> get (remove d k) = (get d)(k := None)"
begin

lemma get_put_same: "ok d \<Longrightarrow> get d k = None \<Longrightarrow> get (put d k v) k = Some v"
  by (simp add: get_put)

lemma remove_put: "ok d \<Longrightarrow> get d k = None \<Longrightarrow> get (remove (put d k v) k) = get d"
  by (rule ext) (simp add: get_remove ok_put get_put)

lemma remove_other: "ok d \<Longrightarrow> j \<noteq> k \<Longrightarrow> get (remove d k) j = get d j"
  by (simp add: get_remove)

end

text \<open>The two operations as the users of a map call them.\<close>

definition map_put :: "(string \<times> 'v) list \<Rightarrow> string \<Rightarrow> 'v \<Rightarrow> (string \<times> 'v) list" where
  "map_put m k v = Map_emplace True m k v"

definition map_remove :: "(string \<times> 'v) list \<Rightarrow> string \<Rightarrow> (string \<times> 'v) list" where
  "map_remove m k = fst (Map_erase m k)"

lemma map_of_filter_key: "map_of (filter (\<lambda>e. fst e \<noteq> k) m) = (map_of m)(k := None)"
  by (induction m) (auto simp: fun_eq_iff)

interpretation map_dict: dictionary "\<lambda>m. distinct (map fst m)" map_put Map_at map_remove
proof
  fix m :: "(string \<times> 'v) list" and k :: string and v :: 'v
  assume m: "distinct (map fst m)"
  show "distinct (map fst (map_remove m k))" "Map_at (map_remove m k) = (Map_at m)(k := None)"
    using m by (simp_all add: map_remove_def Map_erase_filter distinct_map_filter Map_at_map_of [abs_def]
        map_of_filter_key)
  assume "Map_at m k = None"
  then have k: "k \<notin> fst ` set m"
    by (simp add: Map_at_map_of map_of_eq_None_iff)
  then show "distinct (map fst (map_put m k v))"
    using m by (simp add: map_put_def Map_emplace_simp)
  show "Map_at (map_put m k v) = (Map_at m)(k \<mapsto> v)"
    using k map_of_snoc [of m k v] unfolding map_put_def Map_emplace_simp Map_at_map_of [abs_def]
    by (auto simp add: map_of_eq_None_iff fun_eq_iff simp del: map_of_append)
qed

section \<open>Numbers as keys\<close>

text \<open>What \<open>sprintf\<close> writes for \<open>%d\<close>, and \<open>atoi\<close> on such strings.\<close>

definition int_dec :: "int \<Rightarrow> string" where
  "int_dec i = (if i < 0 then CHR ''-'' # dec (nat (- i)) else dec (nat i))"

definition atoi :: "string \<Rightarrow> int" where
  "atoi s = (if s \<noteq> [] \<and> hd s = CHR ''-'' then - int (dec_val (tl s)) else int (dec_val s))"

lemma length_dec: "length (dec n) = (if n < 10 then 1 else Suc (length (dec (n div 10))))"
  by (subst dec.simps) simp

lemma hd_dec: "hd (dec n) \<noteq> CHR ''-''"
proof -
  have "isdigit_c (hd (dec n))"
    using dec_digits [of n] by simp
  then show ?thesis
    by (auto simp: isdigit_c_def)
qed

lemma atoi_int_dec [simp]: "atoi (int_dec i) = i"
  using hd_dec [of "nat i"] by (simp add: atoi_def int_dec_def dec_val_dec)

lemma int_dec_inject [simp]: "int_dec i = int_dec j \<longleftrightarrow> i = j"
  by (metis atoi_int_dec)

section \<open>Tables of names\<close>

text \<open>
  A named map from numbers to labels. The number is printed into a buffer of eight bytes, which a
  number of eight characters overruns.
\<close>

type_synonym name_tables = "(string \<times> (string \<times> string) list) list"

definition MapListErrorCode_SUCCESS :: int where "MapListErrorCode_SUCCESS = 0"
definition MapListErrorCode_NO_MEMORY :: int where "MapListErrorCode_NO_MEMORY = 1"
definition MapListErrorCode_ALREADY_EXIST :: int where "MapListErrorCode_ALREADY_EXIST = 2"
definition MapListErrorCode_NULL :: int where "MapListErrorCode_NULL = -2"

lemmas maplist_codes = MapListErrorCode_SUCCESS_def MapListErrorCode_NO_MEMORY_def
  MapListErrorCode_ALREADY_EXIST_def MapListErrorCode_NULL_def

definition print_key :: "int \<Rightarrow> string outcome" where
  "print_key value = (if length (int_dec value) + 1 \<le> 8 then Ret (int_dec value) else Crash)"

text \<open>The map of a table, \<open>[]\<close> (a NULL pointer) when there is none.\<close>

definition mapList_find :: "name_tables \<Rightarrow> string \<Rightarrow> (string \<times> string) list" where
  "mapList_find storage mapName = (case map_of storage mapName of None \<Rightarrow> [] | Some m \<Rightarrow> m)"

fun map_update :: "name_tables \<Rightarrow> string \<Rightarrow> (string \<times> string) list \<Rightarrow> name_tables" where
  "map_update [] mapName m = []"
| "map_update (e # es) mapName m =
     (if fst e = mapName then (mapName, m) # es else e # map_update es mapName m)"

definition mapList_add ::
    "bool \<Rightarrow> (string \<times> string) list \<Rightarrow> string \<Rightarrow> int \<Rightarrow> ((string \<times> string) list \<times> int) outcome" where
  "mapList_add alloc m label value =
     obind (print_key value) (\<lambda>key.
       if Map_at m key \<noteq> None then Ret (m, MapListErrorCode_ALREADY_EXIST)
       else Ret (Map_emplace alloc m key label, MapListErrorCode_SUCCESS))"

text \<open>\<open>alloc\<close> is for the new pair, \<open>alloc2\<close> for the new table.\<close>

definition MapList_addPair ::
    "bool \<Rightarrow> bool \<Rightarrow> name_tables \<Rightarrow> string \<Rightarrow> string \<Rightarrow> int \<Rightarrow> (name_tables \<times> int) outcome" where
  "MapList_addPair alloc alloc2 storage mapName label value =
     (let m = mapList_find storage mapName
      in obind (mapList_add alloc m label value) (\<lambda>(m', ret).
           if m = []
           then (if \<not> alloc2 then Ret (storage, MapListErrorCode_NO_MEMORY)
                 else Ret ((mapName, m') # storage, ret))
           else Ret (map_update storage mapName m', ret)))"

definition MapList_findLabel :: "name_tables \<Rightarrow> string \<Rightarrow> int \<Rightarrow> string option outcome" where
  "MapList_findLabel storage mapName value =
     (let m = mapList_find storage mapName
      in if m = [] then Ret None else obind (print_key value) (\<lambda>key. Ret (Map_at m key)))"

fun find_value :: "(string \<times> string) list \<Rightarrow> string \<Rightarrow> int" where
  "find_value [] label = MapListErrorCode_NULL"
| "find_value (e # es) label = (if snd e = label then atoi (fst e) else find_value es label)"

definition MapList_findValue :: "name_tables \<Rightarrow> string \<Rightarrow> string \<Rightarrow> int" where
  "MapList_findValue storage mapName label = find_value (mapList_find storage mapName) label"

definition MapList_clear :: "name_tables \<Rightarrow> name_tables" where
  "MapList_clear storage = []"

lemma find_map_update:
  "mapList_find storage mapName \<noteq> [] \<Longrightarrow>
    mapList_find (map_update storage mapName m) n = (if n = mapName then m else mapList_find storage n)"
  by (induction storage) (auto simp: mapList_find_def)

lemma find_value_snoc:
  "label \<notin> snd ` set m \<Longrightarrow> find_value (m @ [(key, label)]) label = atoi key"
  by (induction m) auto

lemma addPair_find:
  assumes "MapList_addPair alloc alloc2 storage mapName label value = Ret (storage', MapListErrorCode_SUCCESS)"
    and "alloc"
  shows "Map_at (mapList_find storage mapName) (int_dec value) = None"
    and "mapList_find storage' n =
      (if n = mapName then mapList_find storage mapName @ [(int_dec value, label)] else mapList_find storage n)"
proof -
  let ?m = "mapList_find storage mapName"
  have A: "Map_at ?m (int_dec value) = None" and S: "storage' = (if ?m = []
      then (mapName, ?m @ [(int_dec value, label)]) # storage
      else map_update storage mapName (?m @ [(int_dec value, label)]))"
    using assms by (auto simp: MapList_addPair_def mapList_add_def Let_def maplist_codes print_key_def
        Map_emplace_simp elim!: obind_RetE split: if_splits)
  from A show "Map_at ?m (int_dec value) = None" .
  have N: "mapList_find ((mapName, x) # storage) n = (if n = mapName then x else mapList_find storage n)" for x
    by (simp add: mapList_find_def)
  show "mapList_find storage' n = (if n = mapName then ?m @ [(int_dec value, label)]
      else mapList_find storage n)"
    unfolding S using N find_map_update [of storage mapName] by (cases "?m = []") simp_all
qed

end
