(* ===== verification/SecModel.thy ===== *)
theory SecModel
  imports Maps
begin

text \<open>
  The table of security models, src/Firmware/Core/System/Security/SecMod.c, over the name tables of
  MapList.c: registration, removal and lookup of the definition of a security model.
\<close>

definition ErrorCode_GENERR_code :: int where "ErrorCode_GENERR_code = -1"
definition ErrorCode_MALLOC_code :: int where "ErrorCode_MALLOC_code = -62"

section \<open>State and operations\<close>

text \<open>\<open>_registeredServices\<close>, the newest first, and the name tables.\<close>

record 'd secmod_state =
  registeredServices :: "(int \<times> 'd) list"
  nameTables :: name_tables

fun find_service :: "(int \<times> 'd) list \<Rightarrow> int \<Rightarrow> 'd option" where
  "find_service [] secMod = None"
| "find_service (e # es) secMod = (if fst e = secMod then Some (snd e) else find_service es secMod)"

definition SecMod_findDefBySecMod :: "'d secmod_state \<Rightarrow> int \<Rightarrow> 'd option" where
  "SecMod_findDefBySecMod s secMod = find_service (registeredServices s) secMod"

text \<open>
  \<open>alloc\<close> is for the list node, \<open>allocP\<close> for the pair of the name table and \<open>allocT\<close> for a new name
  table. The label of the name that is already there is only read for the log.
\<close>

definition SecMod_register ::
    "bool \<Rightarrow> bool \<Rightarrow> bool \<Rightarrow> 'd secmod_state \<Rightarrow> int \<Rightarrow> string \<Rightarrow> 'd \<Rightarrow> ('d secmod_state \<times> int) outcome" where
  "SecMod_register alloc allocP allocT s secMod secModName newDef =
     (if find_service (registeredServices s) secMod \<noteq> None then Ret (s, ErrorCode_GENERR_code)
      else if \<not> alloc then Ret (s, ErrorCode_MALLOC_code)
      else
        obind (MapList_addPair allocP allocT (nameTables s) ''priotSecmods'' secModName secMod)
          (\<lambda>(tables, result).
             Ret (s\<lparr>registeredServices := (secMod, newDef) # registeredServices s, nameTables := tables\<rparr>,
                  if result \<noteq> MapListErrorCode_SUCCESS then ErrorCode_GENERR_code else 0)))"

fun take_service :: "(int \<times> 'd) list \<Rightarrow> int \<Rightarrow> ((int \<times> 'd) list) option" where
  "take_service [] secmod = None"
| "take_service (e # es) secmod =
     (if fst e = secmod then Some es else map_option ((#) e) (take_service es secmod))"

definition SecMod_unregister :: "'d secmod_state \<Rightarrow> int \<Rightarrow> 'd secmod_state \<times> int" where
  "SecMod_unregister s secmod =
     (case take_service (registeredServices s) secmod of
        Some services \<Rightarrow> (s\<lparr>registeredServices := services\<rparr>, 0)
      | None \<Rightarrow> (s, ErrorCode_GENERR_code))"

definition SecMod_clear :: "'d secmod_state \<Rightarrow> 'd secmod_state" where
  "SecMod_clear s = s\<lparr>registeredServices := []\<rparr>"

text \<open>
  The session callback: \<open>Some defSecurityModel\<close> is the configured name. It returns the security model
  of the session and its code.
\<close>

definition USM_SEC_MODEL_NUMBER :: int where "USM_SEC_MODEL_NUMBER = 3"
definition API_DEFAULT_SECMODEL :: int where "API_DEFAULT_SECMODEL = -1"

definition setDefaultSecMod ::
    "'d secmod_state \<Rightarrow> string option \<Rightarrow> int \<Rightarrow> int \<times> int" where
  "setDefaultSecMod s defSecurityModel securityModel =
     (if securityModel = API_DEFAULT_SECMODEL
      then (case defSecurityModel of
              Some cptr \<Rightarrow>
                (let model = MapList_findValue (nameTables s) ''priotSecmods'' cptr
                 in if model \<noteq> MapListErrorCode_NULL then (model, 0)
                    else (USM_SEC_MODEL_NUMBER, ErrorCode_GENERR_code))
            | None \<Rightarrow> (USM_SEC_MODEL_NUMBER, 0))
      else (securityModel, 0))"

section \<open>Lemmas\<close>

text \<open>A security model is registered once.\<close>

definition secmod_inv :: "'d secmod_state \<Rightarrow> bool" where
  "secmod_inv s = distinct (map fst (registeredServices s))"

lemma find_service_map_of: "find_service es k = map_of es k"
  by (induction es) auto

lemma take_service_None: "take_service es k = None \<longleftrightarrow> k \<notin> fst ` set es"
  by (induction es) auto

lemma take_service_Some:
  "take_service es k = Some es' \<Longrightarrow> distinct (map fst es) \<Longrightarrow> es' = filter (\<lambda>e. fst e \<noteq> k) es"
proof (induction es arbitrary: es')
  case (Cons e es)
  have "fst e \<notin> fst ` set es \<Longrightarrow> filter (\<lambda>x. fst x \<noteq> fst e) es = es"
    by (induction es) auto
  then show ?case
    using Cons by (auto split: if_splits)
qed simp

lemma register_inv:
  assumes "secmod_inv s" "SecMod_register alloc allocP allocT s secMod secModName newDef = Ret (s', rc)"
  shows "secmod_inv s'"
  using assms unfolding SecMod_register_def secmod_inv_def
  by (auto elim!: obind_RetE split: if_splits simp: find_service_map_of map_of_eq_None_iff)

lemma unregister_lookup:
  assumes "secmod_inv s"
  shows "secmod_inv (fst (SecMod_unregister s secmod))"
    and "SecMod_findDefBySecMod (fst (SecMod_unregister s secmod)) k =
      (if k = secmod then None else SecMod_findDefBySecMod s k)"
    and "nameTables (fst (SecMod_unregister s secmod)) = nameTables s"
proof -
  have f: "filter (\<lambda>e. fst e \<noteq> secmod) (registeredServices s) = registeredServices s"
    if "secmod \<notin> fst ` set (registeredServices s)"
    using that by (auto simp: filter_id_conv)
  have R: "registeredServices (fst (SecMod_unregister s secmod)) =
      filter (\<lambda>e. fst e \<noteq> secmod) (registeredServices s)"
    using assms f by (auto simp: SecMod_unregister_def secmod_inv_def take_service_None
        take_service_Some split: option.split)
  show "secmod_inv (fst (SecMod_unregister s secmod))"
    using assms by (simp add: secmod_inv_def R distinct_map_filter)
  show "SecMod_findDefBySecMod (fst (SecMod_unregister s secmod)) k =
      (if k = secmod then None else SecMod_findDefBySecMod s k)"
    by (simp add: SecMod_findDefBySecMod_def find_service_map_of R map_of_filter_key)
  show "nameTables (fst (SecMod_unregister s secmod)) = nameTables s"
    by (simp add: SecMod_unregister_def split: option.split)
qed

section \<open>Properties\<close>

text \<open>
  registering a security model under a name whose number fits in seven characters makes it
  found by number and by name, and leaves every other model as it was; a number of eight or more
  characters overruns the buffer it is printed into.
\<close>

theorem secmod_register:
  assumes "secmod_inv s" "find_service (registeredServices s) secMod = None"
    and "Map_at (mapList_find (nameTables s) ''priotSecmods'') (int_dec secMod) = None"
  shows "if length (int_dec secMod) < 8
    then (\<exists>s'. SecMod_register True True True s secMod secModName newDef = Ret (s', 0) \<and> secmod_inv s' \<and>
      (\<forall>k. SecMod_findDefBySecMod s' k = (if k = secMod then Some newDef else SecMod_findDefBySecMod s k)) \<and>
      MapList_findLabel (nameTables s') ''priotSecmods'' secMod = Ret (Some secModName) \<and>
      (secModName \<notin> snd ` set (mapList_find (nameTables s) ''priotSecmods'') \<longrightarrow>
        setDefaultSecMod s' (Some secModName) API_DEFAULT_SECMODEL =
          (if secMod = -2 then (3, -1) else (secMod, 0))))
    else SecMod_register True True True s secMod secModName newDef = Crash"
proof (cases "length (int_dec secMod) < 8")
  case True
  let ?m = "mapList_find (nameTables s) ''priotSecmods''"
  obtain t where A: "MapList_addPair True True (nameTables s) ''priotSecmods'' secModName secMod =
      Ret (t, MapListErrorCode_SUCCESS)"
    using True assms(3)
    by (cases "?m = []") (simp_all add: MapList_addPair_def mapList_add_def print_key_def Let_def)
  have T: "mapList_find t ''priotSecmods'' = ?m @ [(int_dec secMod, secModName)]"
    using addPair_find(2) [OF A, of "''priotSecmods''"] by simp
  let ?s' = "s\<lparr>registeredServices := (secMod, newDef) # registeredServices s, nameTables := t\<rparr>"
  have R: "SecMod_register True True True s secMod secModName newDef = Ret (?s', 0)"
    using assms(2) A by (simp add: SecMod_register_def)
  have I: "secmod_inv ?s'"
    using register_inv [OF assms(1) R] .
  have L: "MapList_findLabel t ''priotSecmods'' secMod = Ret (Some secModName)"
    using True assms(3) by (simp add: MapList_findLabel_def T print_key_def Map_at_map_of map_add_def)
  have V: "secModName \<notin> snd ` set ?m \<Longrightarrow> MapList_findValue t ''priotSecmods'' secModName = secMod"
    by (simp add: MapList_findValue_def T find_value_snoc)
  show ?thesis
    using True R I L V by (auto simp: SecMod_findDefBySecMod_def setDefaultSecMod_def Let_def maplist_codes
        USM_SEC_MODEL_NUMBER_def ErrorCode_GENERR_code_def)
next
  case False
  then show ?thesis
    using assms by (simp add: SecMod_register_def MapList_addPair_def mapList_add_def print_key_def Let_def)
qed

text \<open>The model number of the Kerberos model has seven digits: it fits, and no digit more would.\<close>

lemma secmod_register_witness:
  "\<exists>s'. SecMod_register True True True \<lparr>registeredServices = [(3, ''u'')], nameTables = []\<rparr> 2066432 ''ksm'' ''k'' =
      Ret (s', 0) \<and> MapList_findLabel (nameTables s') ''priotSecmods'' 2066432 = Ret (Some ''ksm'')"
proof -
  have L: "length (int_dec 2066432) < 8"
    by (simp add: int_dec_def length_dec [of 2066432] length_dec [of 206643] length_dec [of 20664]
        length_dec [of 2066] length_dec [of 206] length_dec [of 20] length_dec [of 2])
  show ?thesis
    using secmod_register [of "\<lparr>registeredServices = [(3, ''u'')], nameTables = []\<rparr>" 2066432 "''ksm''" "''k''"] L
    by (fastforce simp: secmod_inv_def mapList_find_def Map_at_def)
qed

text \<open>
  removing a security model does not remove its name: a model that is registered again after its
  removal is found, but the registration reports an error, and the definition is in the list all the
  same.
\<close>

theorem secmod_reregister:
  assumes "secmod_inv s" "SecMod_register True True True s secMod secModName newDef = Ret (s1, 0)"
    and "SecMod_unregister s1 secMod = (s2, rc)"
  shows "rc = 0 \<and> SecMod_findDefBySecMod s2 secMod = None \<and>
    (\<exists>s3. SecMod_register True True True s2 secMod secModName otherDef = Ret (s3, -1) \<and>
      SecMod_findDefBySecMod s3 secMod = Some otherDef)"
proof -
  obtain t where N: "find_service (registeredServices s) secMod = None"
    and A: "MapList_addPair True True (nameTables s) ''priotSecmods'' secModName secMod =
        Ret (t, MapListErrorCode_SUCCESS)"
    and s1: "s1 = s\<lparr>registeredServices := (secMod, newDef) # registeredServices s, nameTables := t\<rparr>"
    using assms(2) by (auto simp: SecMod_register_def ErrorCode_GENERR_code_def ErrorCode_MALLOC_code_def
        elim!: obind_RetE split: if_splits)
  have p: "print_key secMod = Ret (int_dec secMod)"
    using A by (auto simp: MapList_addPair_def mapList_add_def print_key_def Let_def elim!: obind_RetE split: if_splits)
  have s2: "s2 = s\<lparr>nameTables := t\<rparr>" and rc: "rc = 0"
    using assms(3) by (auto simp: SecMod_unregister_def s1)
  have T: "mapList_find t ''priotSecmods'' = mapList_find (nameTables s) ''priotSecmods'' @ [(int_dec secMod, secModName)]"
    using addPair_find(2) [OF A, of "''priotSecmods''"] by simp
  have K: "Map_at (mapList_find t ''priotSecmods'') (int_dec secMod) \<noteq> None"
    by (simp add: T Map_at_map_of map_add_def split: option.split)
  have "MapList_addPair True True t ''priotSecmods'' secModName secMod =
      Ret (map_update t ''priotSecmods'' (mapList_find t ''priotSecmods''), MapListErrorCode_ALREADY_EXIST)"
    using K p T by (auto simp: MapList_addPair_def mapList_add_def Let_def)
  then show ?thesis
    using N rc by (simp add: s2 SecMod_register_def SecMod_findDefBySecMod_def maplist_codes ErrorCode_GENERR_code_def)
qed

lemma secmod_reregister_witness:
  "\<exists>s1 s2 s3. SecMod_register True True True \<lparr>registeredServices = [], nameTables = []\<rparr> 3 ''usm'' ''d'' = Ret (s1, 0) \<and>
    SecMod_unregister s1 3 = (s2, 0) \<and> SecMod_register True True True s2 3 ''usm'' ''e'' = Ret (s3, -1)"
proof -
  have I: "secmod_inv \<lparr>registeredServices = [], nameTables = []\<rparr>"
    by (simp add: secmod_inv_def)
  have L: "length (int_dec 3) \<le> 7"
    by (simp add: int_dec_def length_dec [of 3])
  have R: "SecMod_register True True True \<lparr>registeredServices = [], nameTables = []\<rparr> 3 ''usm'' ''d'' =
      Ret (\<lparr>registeredServices = [(3, ''d'')], nameTables = [(''priotSecmods'', [(int_dec 3, ''usm'')])]\<rparr>, 0)"
    by (simp add: SecMod_register_def MapList_addPair_def mapList_add_def print_key_def Let_def
        mapList_find_def Map_emplace_simp Map_at_def
        L)
  obtain s2 rc where U: "SecMod_unregister \<lparr>registeredServices = [(3, ''d'')],
      nameTables = [(''priotSecmods'', [(int_dec 3, ''usm'')])]\<rparr> 3 = (s2, rc)"
    by fastforce
  show ?thesis
    using secmod_reregister [OF I R U, of "''e''"] R U by blast
qed

end
