(* ===== verification/VacmAccess.thy ===== *)
theory VacmAccess
  imports Vacm SecModel
begin

text \<open>
  The group and access tables of src/Firmware/Core/System/AccessControl/Vacm.c, and the decision that puts them
  together, \<open>VacmConf_checkViewContents\<close> of src/Firmware/Plugin/mibII/VacmConf.c. The tables are
  global lists in the code and arguments here. \<open>groupName\<close> of a group entry and the view names of
  an access entry, which the configuration writes into the created entry, are plain C strings.
\<close>

section \<open>Groups\<close>

record Vacm_GroupEntry_s =
  ge_securityModel :: int
  ge_securityName :: "u8 list"
  ge_groupName :: "u8 list"
  ge_storageType :: int
  ge_status :: int

definition PRIOT_SEC_MODEL_ANY :: int where "PRIOT_SEC_MODEL_ANY = 0"

definition group_hit :: "int \<Rightarrow> u8 list \<Rightarrow> Vacm_GroupEntry_s \<Rightarrow> bool" where
  "group_hit model secname vp \<longleftrightarrow>
     (model = ge_securityModel vp \<or> ge_securityModel vp = PRIOT_SEC_MODEL_ANY) \<and>
     memcmp (ge_securityName vp) secname (length secname) = 0"

definition Vacm_getGroupEntry ::
    "Vacm_GroupEntry_s list \<Rightarrow> int \<Rightarrow> u8 list \<Rightarrow> Vacm_GroupEntry_s option" where
  "Vacm_getGroupEntry groups model name =
     (if length name > VACM_MAX_STRING then None
      else find (group_hit model (counted name)) groups)"

definition group_behind :: "Vacm_GroupEntry_s \<Rightarrow> Vacm_GroupEntry_s \<Rightarrow> bool" where
  "group_behind lg gp \<longleftrightarrow> ge_securityModel lg > ge_securityModel gp \<or>
     (ge_securityModel lg = ge_securityModel gp \<and>
      memcmp (ge_securityName lg) (ge_securityName gp) (unat (hd (ge_securityName gp)) + 1) > 0)"

definition new_group :: "int \<Rightarrow> u8 list \<Rightarrow> Vacm_GroupEntry_s" where
  "new_group model name =
     \<lparr>ge_securityModel = model, ge_securityName = counted_buf name, ge_groupName = [],
      ge_storageType = 0, ge_status = 0\<rparr>"

definition Vacm_createGroupEntry ::
    "bool \<Rightarrow> bool \<Rightarrow> Vacm_GroupEntry_s list \<Rightarrow> int \<Rightarrow> u8 list
     \<Rightarrow> Vacm_GroupEntry_s list \<times> Vacm_GroupEntry_s option" where
  "Vacm_createGroupEntry calloc1 calloc2 groups model name =
     (if length name > VACM_MAX_STRING then (groups, None)
      else if \<not> calloc1 \<or> \<not> calloc2 then (groups, None)
      else
        (let gp = new_group model name
         in (link_before (\<lambda>lg. group_behind lg gp) gp groups, Some gp)))"

definition Vacm_destroyGroupEntry ::
    "Vacm_GroupEntry_s list \<Rightarrow> int \<Rightarrow> u8 list \<Rightarrow> Vacm_GroupEntry_s list" where
  "Vacm_destroyGroupEntry groups model name =
     unlink (\<lambda>vp. ge_securityModel vp = model \<and> same_string (ge_securityName vp) name) groups"

definition Vacm_destroyAllGroupEntries :: "Vacm_GroupEntry_s list \<Rightarrow> Vacm_GroupEntry_s list" where
  "Vacm_destroyAllGroupEntries groups = []"

section \<open>Access rights\<close>

record Vacm_AccessEntry_s =
  ae_groupName :: "u8 list"
  ae_contextPrefix :: "u8 list"
  ae_securityModel :: int
  ae_securityLevel :: int
  ae_contextMatch :: int
  ae_views :: "u8 list list"
  ae_storageType :: int
  ae_status :: int

definition CONTEXT_MATCH_EXACT :: int where "CONTEXT_MATCH_EXACT = 1"
definition CONTEXT_MATCH_PREFIX :: int where "CONTEXT_MATCH_PREFIX = 2"
definition VACM_MAX_VIEWS :: nat where "VACM_MAX_VIEWS = 8"

definition Vacm_chooseBest ::
    "Vacm_AccessEntry_s option \<Rightarrow> Vacm_AccessEntry_s \<Rightarrow> Vacm_AccessEntry_s" where
  "Vacm_chooseBest current candidate =
     (case current of None \<Rightarrow> candidate
      | Some cur \<Rightarrow>
          (if (ae_securityModel cur = PRIOT_SEC_MODEL_ANY \<and>
               ae_securityModel candidate \<noteq> PRIOT_SEC_MODEL_ANY) \<or>
              (ae_contextMatch cur = CONTEXT_MATCH_PREFIX \<and>
               ae_contextMatch candidate = CONTEXT_MATCH_EXACT) \<or>
              (ae_contextMatch cur = CONTEXT_MATCH_PREFIX \<and>
               hd (ae_contextPrefix cur) < hd (ae_contextPrefix candidate)) \<or>
              ae_securityLevel cur < ae_securityLevel candidate
           then candidate else cur))"

definition access_hit ::
    "u8 list \<Rightarrow> u8 list \<Rightarrow> int \<Rightarrow> int \<Rightarrow> Vacm_AccessEntry_s \<Rightarrow> bool" where
  "access_hit grp context model level vp \<longleftrightarrow>
     (model = ae_securityModel vp \<or> ae_securityModel vp = PRIOT_SEC_MODEL_ANY) \<and>
     level \<ge> ae_securityLevel vp \<and>
     memcmp (ae_groupName vp) grp (length grp) = 0 \<and>
     ((ae_contextMatch vp = CONTEXT_MATCH_EXACT \<and>
       length context - 1 = unat (hd (ae_contextPrefix vp)) \<and>
       memcmp (ae_contextPrefix vp) context (length context) = 0) \<or>
      (ae_contextMatch vp = CONTEXT_MATCH_PREFIX \<and>
       length context - 1 \<ge> unat (hd (ae_contextPrefix vp)) \<and>
       memcmp (tl (ae_contextPrefix vp)) (tl context) (unat (hd (ae_contextPrefix vp))) = 0))"

definition Vacm_getAccessEntry ::
    "Vacm_AccessEntry_s list \<Rightarrow> u8 list \<Rightarrow> u8 list \<Rightarrow> int \<Rightarrow> int \<Rightarrow> Vacm_AccessEntry_s option" where
  "Vacm_getAccessEntry acl grp context model level =
     (if length grp > VACM_MAX_STRING then None
      else if length context > VACM_MAX_STRING then None
      else foldl (\<lambda>best vp. if access_hit (counted grp) (counted context) model level vp
                           then Some (Vacm_chooseBest best vp) else best) None acl)"

definition access_behind :: "Vacm_AccessEntry_s \<Rightarrow> Vacm_AccessEntry_s \<Rightarrow> bool" where
  "access_behind lp vp =
     (let cmp = memcmp (ae_groupName lp) (ae_groupName vp) (unat (hd (ae_groupName vp)) + 1)
      in if cmp > 0 then True else if cmp < 0 then False
         else
           (let cmp = memcmp (ae_contextPrefix lp) (ae_contextPrefix vp)
                        (unat (hd (ae_contextPrefix vp)) + 1)
            in if cmp > 0 then True else if cmp < 0 then False
               else if ae_securityModel lp > ae_securityModel vp then True
               else if ae_securityModel lp < ae_securityModel vp then False
               else ae_securityLevel lp > ae_securityLevel vp))"

definition new_access :: "u8 list \<Rightarrow> u8 list \<Rightarrow> int \<Rightarrow> int \<Rightarrow> Vacm_AccessEntry_s" where
  "new_access grp context model level =
     \<lparr>ae_groupName = counted_buf grp, ae_contextPrefix = counted_buf context,
      ae_securityModel = model, ae_securityLevel = level, ae_contextMatch = 0,
      ae_views = replicate VACM_MAX_VIEWS [], ae_storageType = 0, ae_status = 0\<rparr>"

definition Vacm_createAccessEntry ::
    "bool \<Rightarrow> bool \<Rightarrow> Vacm_AccessEntry_s list \<Rightarrow> u8 list \<Rightarrow> u8 list \<Rightarrow> int \<Rightarrow> int
     \<Rightarrow> Vacm_AccessEntry_s list \<times> Vacm_AccessEntry_s option" where
  "Vacm_createAccessEntry calloc1 calloc2 acl grp context model level =
     (if length grp > VACM_MAX_STRING then (acl, None)
      else if length context > VACM_MAX_STRING then (acl, None)
      else if \<not> calloc1 \<or> \<not> calloc2 then (acl, None)
      else
        (let vp = new_access grp context model level
         in (link_before (\<lambda>lp. access_behind lp vp) vp acl, Some vp)))"

definition Vacm_destroyAccessEntry ::
    "Vacm_AccessEntry_s list \<Rightarrow> u8 list \<Rightarrow> u8 list \<Rightarrow> int \<Rightarrow> int \<Rightarrow> Vacm_AccessEntry_s list" where
  "Vacm_destroyAccessEntry acl grp context model level =
     unlink (\<lambda>vp. ae_securityModel vp = model \<and> ae_securityLevel vp = level \<and>
       same_string (ae_groupName vp) grp \<and> same_string (ae_contextPrefix vp) context) acl"

definition Vacm_destroyAllAccessEntries :: "Vacm_AccessEntry_s list \<Rightarrow> Vacm_AccessEntry_s list" where
  "Vacm_destroyAllAccessEntries acl = []"

definition Vacm_isConfigured :: "Vacm_AccessEntry_s list \<Rightarrow> Vacm_GroupEntry_s list \<Rightarrow> int" where
  "Vacm_isConfigured acl groups = (if acl = [] \<and> groups = [] then 0 else 1)"

section \<open>Contexts\<close>

text \<open>The cache of contexts: names, which may be NULL, with the first subtree, which may be NULL.\<close>

definition AgentRegistry_subtreeFindFirst ::
    "(u8 list option \<times> 't option) list \<Rightarrow> u8 list option \<Rightarrow> 't option" where
  "AgentRegistry_subtreeFindFirst contexts context_name =
     (let name = (case context_name of None \<Rightarrow> [] | Some n \<Rightarrow> n)
      in case find (\<lambda>c. fst c = Some name) contexts of None \<Rightarrow> None | Some c \<Rightarrow> snd c)"

section \<open>The decision\<close>

text \<open>The fields of the PDU that the decision reads; NULL pointers are \<open>None\<close>.\<close>

record vacm_pdu =
  pdu_command :: int
  pdu_securityModel :: int
  pdu_securityLevel :: int
  pdu_securityName :: "u8 list option"
  pdu_contextName :: "u8 list option"
  pdu_contextNameLen :: nat

record ('d, 't) vacm_state =
  vs_services :: "(int \<times> 'd) list"
  vs_contexts :: "(u8 list option \<times> 't option) list"
  vs_groups :: "Vacm_GroupEntry_s list"
  vs_acl :: "Vacm_AccessEntry_s list"
  vs_views :: "Vacm_ViewEntry_s list"

definition CONTEXTNAMEINDEXLEN :: nat where "CONTEXTNAMEINDEXLEN = 32"

text \<open>\<open>contextNameIndex\<close>: the copied bytes up to the first NUL.\<close>

definition context_index :: "vacm_pdu \<Rightarrow> u8 list" where
  "context_index pdu =
     (case pdu_contextName pdu of None \<Rightarrow> []
      | Some c \<Rightarrow> takeWhile (\<lambda>b. b \<noteq> 0) (take (pdu_contextNameLen pdu) c))"

definition VacmConf_checkViewContents ::
    "('d, 't) vacm_state \<Rightarrow> vacm_pdu \<Rightarrow> oid list option \<Rightarrow> bool \<Rightarrow> int \<Rightarrow> bool \<Rightarrow> int outcome" where
  "VacmConf_checkViewContents st pdu name check_subtree viewtype dne_context_ok =
     (let sn = (case find_service (vs_services st) (pdu_securityModel pdu) of
                  None \<Rightarrow> None | Some _ \<Rightarrow> pdu_securityName pdu)
      in case sn of None \<Rightarrow> Ret VACM_NOSECNAME | Some sname \<Rightarrow>
      if pdu_contextNameLen pdu > CONTEXTNAMEINDEXLEN then Ret VACM_NOSUCHCONTEXT
      else if \<not> dne_context_ok \<and>
        AgentRegistry_subtreeFindFirst (vs_contexts st) (Some (context_index pdu)) = None
      then Ret VACM_NOSUCHCONTEXT
      else case Vacm_getGroupEntry (vs_groups st) (pdu_securityModel pdu) sname of
        None \<Rightarrow> Ret VACM_NOGROUP
      | Some gp \<Rightarrow>
      (case Vacm_getAccessEntry (vs_acl st) (ge_groupName gp) (context_index pdu)
              (pdu_securityModel pdu) (pdu_securityLevel pdu) of
        None \<Rightarrow> Ret VACM_NOACCESS
      | Some ap \<Rightarrow>
      (case name of None \<Rightarrow> Ret VACM_SUCCESS | Some nm \<Rightarrow>
      if viewtype < 0 \<or> viewtype \<ge> int VACM_MAX_VIEWS then Ret VACM_NOACCESS
      else obind (rd (ae_views ap) (nat viewtype)) (\<lambda>vn.
        if check_subtree then Vacm_viewSubtreeCheck (vs_views st) vn nm
        else obind (Vacm_viewGet (vs_views st) vn nm VACM_MODE_FIND) (\<lambda>vp.
          case vp of None \<Rightarrow> Ret VACM_NOVIEW
          | Some v \<Rightarrow> if viewType v = PRIOT_VIEW_EXCLUDED then Ret VACM_NOTINVIEW
                     else Ret VACM_SUCCESS)))))"

definition VacmConf_checkView ::
    "('d, 't) vacm_state \<Rightarrow> vacm_pdu \<Rightarrow> oid list option \<Rightarrow> bool \<Rightarrow> int \<Rightarrow> int outcome" where
  "VacmConf_checkView st pdu name check_subtree viewtype =
     VacmConf_checkViewContents st pdu name check_subtree viewtype False"

text \<open>The view a command needs; a command that is not one of them is logged and reads.\<close>

definition view_for_command :: "int \<Rightarrow> int" where
  "view_for_command cmd =
     (if cmd \<in> {0xA0, 0xA1, 0xA5} then 0
      else if cmd = 0xA3 then 1
      else if cmd \<in> {0xA4, 0xA7, 0xA6} then 2
      else 0)"

definition VacmConf_inView ::
    "('d, 't) vacm_state \<Rightarrow> vacm_pdu \<Rightarrow> oid list option \<Rightarrow> bool \<Rightarrow> int outcome" where
  "VacmConf_inView st pdu name check_subtree =
     VacmConf_checkView st pdu name check_subtree (view_for_command (pdu_command pdu))"


section \<open>The order of the tables\<close>

definition plain :: "u8 list \<Rightarrow> u8 list" where
  "plain a = takeWhile (\<lambda>c. c \<noteq> 0) (tl a)"

lemma counted_okD:
  assumes "counted_ok a"
  shows "a = counted_buf (plain a)" and "length (plain a) \<le> VACM_MAX_STRING" and "0 \<notin> set (plain a)"
  using assms takeWhile_counted_buf by (auto simp: counted_ok_def plain_def)

lemma plain_counted_buf: "0 \<notin> set s \<Longrightarrow> plain (counted_buf s) = s"
  by (simp add: plain_def takeWhile_counted_buf)

lemma counted_ok_buf: "length s \<le> VACM_MAX_STRING \<Longrightarrow> 0 \<notin> set s \<Longrightarrow> counted_ok (counted_buf s)"
  by (auto simp: counted_ok_def)

lemma stored_compare:
  assumes "counted_ok a" and "counted_ok b"
  shows "memcmp b a (Suc (unat (hd a))) > 0 \<longleftrightarrow> counted (plain a) < counted (plain b)"
    and "memcmp b a (Suc (unat (hd a))) < 0 \<longleftrightarrow> counted (plain b) < counted (plain a)"
    and "memcmp b a (Suc (unat (hd a))) = 0 \<longleftrightarrow> plain a = plain b"
  using memcmp_counted_iff [OF counted_okD(2) [OF assms(1)] counted_okD(2) [OF assms(2)]]
    hd_counted_buf [OF counted_okD(2) [OF assms(1)]] counted_okD(1) [OF assms(1)] counted_okD(1) [OF assms(2)]
  by simp_all

lemma stored_equal:
  assumes "counted_ok a" and "length s \<le> VACM_MAX_STRING"
  shows "memcmp a (counted s) (length (counted s)) = 0 \<longleftrightarrow> plain a = s"
  using counted_inject [OF assms(2) counted_okD(2) [OF assms(1)]] counted_okD(1) [OF assms(1)]
  by (auto simp: memcmp_def split: if_splits)

definition group_ok :: "Vacm_GroupEntry_s \<Rightarrow> bool" where
  "group_ok gp \<longleftrightarrow> counted_ok (ge_securityName gp)"

definition group_key :: "Vacm_GroupEntry_s \<Rightarrow> int \<times> u8 list" where
  "group_key gp = (ge_securityModel gp, counted (plain (ge_securityName gp)))"

interpretation group_table: keyed_list group_ok group_behind group_key
  by unfold_locales
    (auto simp: group_ok_def group_behind_def group_key_def less_prod_def' stored_compare)

definition access_ok :: "Vacm_AccessEntry_s \<Rightarrow> bool" where
  "access_ok vp \<longleftrightarrow> counted_ok (ae_groupName vp) \<and> counted_ok (ae_contextPrefix vp)"

definition access_key :: "Vacm_AccessEntry_s \<Rightarrow> u8 list \<times> u8 list \<times> int \<times> int" where
  "access_key vp = (counted (plain (ae_groupName vp)), counted (plain (ae_contextPrefix vp)),
     ae_securityModel vp, ae_securityLevel vp)"

lemma lexicographic_test:
  fixes g g' :: "'a::linorder" and c c' :: "'b::linorder" and m m' :: "'c::linorder" and l l' :: "'d::linorder"
  shows "(if g < g' then True else if g' < g then False
      else if c < c' then True else if c' < c then False
      else if m' > m then True else if m' < m then False else l' > l) \<longleftrightarrow> (g, c, m, l) < (g', c', m', l')"
  by (cases g g' rule: linorder_cases; cases c c' rule: linorder_cases; cases m m' rule: linorder_cases)
    (auto simp: less_prod_def')

lemma access_behind_key:
  assumes "access_ok vp" and "access_ok lp"
  shows "access_behind lp vp \<longleftrightarrow> access_key vp < access_key lp"
proof -
  let ?g = "counted (plain (ae_groupName vp))" and ?g' = "counted (plain (ae_groupName lp))"
  let ?c = "counted (plain (ae_contextPrefix vp))" and ?c' = "counted (plain (ae_contextPrefix lp))"
  have ok: "counted_ok (ae_groupName vp)" "counted_ok (ae_groupName lp)"
    "counted_ok (ae_contextPrefix vp)" "counted_ok (ae_contextPrefix lp)"
    using assms by (simp_all add: access_ok_def)
  have "access_behind lp vp \<longleftrightarrow>
    (if ?g < ?g' then True else if ?g' < ?g then False
     else if ?c < ?c' then True else if ?c' < ?c then False
     else if ae_securityModel lp > ae_securityModel vp then True
     else if ae_securityModel lp < ae_securityModel vp then False
     else ae_securityLevel lp > ae_securityLevel vp)"
    by (simp only: access_behind_def Let_def stored_compare [OF ok(1,2)] stored_compare [OF ok(3,4)]
        Suc_eq_plus1 [symmetric])
  also have "\<dots> \<longleftrightarrow> access_key vp < access_key lp"
    unfolding access_key_def by (rule lexicographic_test)
  finally show ?thesis .
qed

interpretation access_table: keyed_list access_ok access_behind access_key
  by unfold_locales (rule access_behind_key)

section \<open>The lookups\<close>

lemma getGroupEntry_eq:
  assumes "\<forall>gp \<in> set groups. group_ok gp" and "length name \<le> VACM_MAX_STRING"
  shows "Vacm_getGroupEntry groups model name =
    find (\<lambda>gp. (ge_securityModel gp = model \<or> ge_securityModel gp = PRIOT_SEC_MODEL_ANY) \<and>
               plain (ge_securityName gp) = name) groups"
  using assms stored_equal [OF _ assms(2)]
  by (auto simp: Vacm_getGroupEntry_def group_hit_def group_ok_def intro!: find_cong_on)

lemma chooseBest_either: "Vacm_chooseBest best vp = v \<Longrightarrow> v = vp \<or> best = Some v"
  by (auto simp: Vacm_chooseBest_def split: option.splits if_splits)

lemma getAccessEntry_fold:
  "foldl (\<lambda>best vp. if P vp then Some (Vacm_chooseBest best vp) else best) b acl = r \<Longrightarrow>
    (case r of
       None \<Rightarrow> b = None \<and> (\<forall>vp \<in> set acl. \<not> P vp)
     | Some v \<Rightarrow> b = Some v \<or> v \<in> set acl \<and> P v)"
proof (induction acl arbitrary: b)
  case (Cons vp acl)
  let ?v = "Vacm_chooseBest b vp"
  show ?case
  proof (cases "P vp")
    case True
    then show ?thesis
      using Cons.IH [of "Some ?v"] Cons.prems chooseBest_either [OF refl, of b vp]
      by (cases r) auto
  next
    case False
    then show ?thesis
      using Cons.IH [of b] Cons.prems by (cases r) auto
  qed
qed (auto split: option.split)

text \<open>When one entry applies, it is chosen; when none does, the access is refused.\<close>

lemma getAccessEntry_cases:
  assumes "length grp \<le> VACM_MAX_STRING" and "length context \<le> VACM_MAX_STRING"
  shows "case Vacm_getAccessEntry acl grp context model level of
    None \<Rightarrow> \<forall>vp \<in> set acl. \<not> access_hit (counted grp) (counted context) model level vp
  | Some v \<Rightarrow> v \<in> set acl \<and> access_hit (counted grp) (counted context) model level v"
  using getAccessEntry_fold [of "access_hit (counted grp) (counted context) model level" None acl]
    assms by (auto simp: Vacm_getAccessEntry_def split: option.split)

lemma getAccessEntry_SomeD:
  assumes "Vacm_getAccessEntry acl grp context model level = Some v"
  shows "v \<in> set acl" and "access_hit (counted grp) (counted context) model level v"
proof -
  have "length grp \<le> VACM_MAX_STRING" "length context \<le> VACM_MAX_STRING"
    using assms by (auto simp: Vacm_getAccessEntry_def split: if_splits)
  from getAccessEntry_cases [OF this, of acl model level] show "v \<in> set acl"
    and "access_hit (counted grp) (counted context) model level v"
    by (simp_all add: assms)
qed

text \<open>What it means for an entry to apply, in terms of the strings.\<close>

lemma prefix_compare:
  assumes "counted_ok a"
  shows "unat (hd a) \<le> length s \<and> memcmp (tl a) s (unat (hd a)) = 0 \<longleftrightarrow> prefix (plain a) s"
proof -
  have "unat (hd a) = length (plain a)" and "take (length (plain a)) (tl a) = plain a"
    using counted_okD(1,2) [OF assms] hd_counted_buf [of "plain a"]
    by (metis, metis append_Cons append_eq_conv_conj counted_buf_def counted_def list.sel(3))
  then show ?thesis
    by (auto simp: memcmp_def prefix_def split: if_splits) (metis append_take_drop_id)
qed

lemma access_hit_iff:
  assumes "access_ok vp" and "length grp \<le> VACM_MAX_STRING" and "length context \<le> VACM_MAX_STRING"
  shows "access_hit (counted grp) (counted context) model level vp \<longleftrightarrow>
    (ae_securityModel vp = model \<or> ae_securityModel vp = PRIOT_SEC_MODEL_ANY) \<and>
    ae_securityLevel vp \<le> level \<and> plain (ae_groupName vp) = grp \<and>
    (ae_contextMatch vp = CONTEXT_MATCH_EXACT \<and> plain (ae_contextPrefix vp) = context \<or>
     ae_contextMatch vp = CONTEXT_MATCH_PREFIX \<and> prefix (plain (ae_contextPrefix vp)) context)"
proof -
  have ok: "counted_ok (ae_groupName vp)" "counted_ok (ae_contextPrefix vp)"
    using assms(1) by (simp_all add: access_ok_def)
  have len: "unat (hd (ae_contextPrefix vp)) = length (plain (ae_contextPrefix vp))"
    using counted_okD(1,2) [OF ok(2)] hd_counted_buf by metis
  have tl: "length (counted context) - 1 = length context" "tl (counted context) = context"
    by (simp_all add: counted_def)
  show ?thesis
    using prefix_compare [OF ok(2), of "context"] len
    unfolding access_hit_def stored_equal [OF ok(1) assms(2)] stored_equal [OF ok(2) assms(3)] tl
    by auto
qed

end
