(* ===== verification/VacmProps.thy ===== *)
theory VacmProps
  imports VacmAccess
begin

text \<open>
  What the access control model promises: the tables of a running agent stay in the order of their
  index whatever the configuration does to them, a view is decided by the longest matching subtree,
  the check of a whole subtree agrees with the check of every identifier below it, and the decision
  of \<open>VacmConf_checkViewContents\<close> grants an access only through a group, an access entry and a view
  that apply.
\<close>

section \<open>The tables of a running agent\<close>

text \<open>
  The configuration and the SET handlers create and destroy entries and write the columns outside
  the index of an entry they looked up.
\<close>

inductive vacm_step :: "('d, 't) vacm_state \<Rightarrow> ('d, 't) vacm_state \<Rightarrow> bool" where
  view_create: "0 \<notin> set name \<Longrightarrow> Vacm_viewCreate c1 c2 (vs_views st) name sub = Ret (head, r) \<Longrightarrow>
    vacm_step st (st\<lparr>vs_views := head\<rparr>)"
| view_destroy: "vacm_step st (st\<lparr>vs_views := Vacm_viewDestroy (vs_views st) name sub\<rparr>)"
| view_clear: "vacm_step st (st\<lparr>vs_views := Vacm_viewClear (vs_views st)\<rparr>)"
| view_write: "vs_views st = xs @ vp # ys \<Longrightarrow> length mk = VACM_VACMSTRINGLEN \<Longrightarrow>
    n \<le> VACM_VACMSTRINGLEN \<Longrightarrow>
    vacm_step st (st\<lparr>vs_views := xs @ vp\<lparr>viewMask := mk, viewMaskLen := n, viewType := t,
      viewStorageType := s, viewStatus := w\<rparr> # ys\<rparr>)"
| group_create: "0 \<notin> set name \<Longrightarrow>
    vacm_step st (st\<lparr>vs_groups := fst (Vacm_createGroupEntry c1 c2 (vs_groups st) model name)\<rparr>)"
| group_destroy: "vacm_step st (st\<lparr>vs_groups := Vacm_destroyGroupEntry (vs_groups st) model name\<rparr>)"
| group_clear: "vacm_step st (st\<lparr>vs_groups := Vacm_destroyAllGroupEntries (vs_groups st)\<rparr>)"
| group_write: "vs_groups st = xs @ gp # ys \<Longrightarrow>
    vacm_step st (st\<lparr>vs_groups := xs @ gp\<lparr>ge_groupName := g, ge_storageType := s, ge_status := w\<rparr> # ys\<rparr>)"
| access_create: "0 \<notin> set grp \<Longrightarrow> 0 \<notin> set pre \<Longrightarrow>
    vacm_step st (st\<lparr>vs_acl := fst (Vacm_createAccessEntry c1 c2 (vs_acl st) grp pre model level)\<rparr>)"
| access_destroy: "vacm_step st (st\<lparr>vs_acl := Vacm_destroyAccessEntry (vs_acl st) grp pre model level\<rparr>)"
| access_clear: "vacm_step st (st\<lparr>vs_acl := Vacm_destroyAllAccessEntries (vs_acl st)\<rparr>)"
| access_write: "vs_acl st = xs @ ap # ys \<Longrightarrow> length vs = VACM_MAX_VIEWS \<Longrightarrow>
    vacm_step st (st\<lparr>vs_acl := xs @ ap\<lparr>ae_contextMatch := m, ae_views := vs, ae_storageType := s,
      ae_status := w\<rparr> # ys\<rparr>)"

inductive vacm_reachable :: "('d, 't) vacm_state \<Rightarrow> bool" where
  start: "vs_views st = [] \<Longrightarrow> vs_groups st = [] \<Longrightarrow> vs_acl st = [] \<Longrightarrow> vacm_reachable st"
| step: "vacm_reachable st \<Longrightarrow> vacm_step st st' \<Longrightarrow> vacm_reachable st'"

definition groups_ok :: "Vacm_GroupEntry_s list \<Rightarrow> bool" where
  "groups_ok gs \<longleftrightarrow> (\<forall>gp \<in> set gs. group_ok gp) \<and> sorted (map group_key gs)"

definition acl_ok :: "Vacm_AccessEntry_s list \<Rightarrow> bool" where
  "acl_ok as \<longleftrightarrow> (\<forall>ap \<in> set as. access_ok ap \<and> length (ae_views ap) = VACM_MAX_VIEWS) \<and>
     sorted (map access_key as)"

definition vacm_ok :: "('d, 't) vacm_state \<Rightarrow> bool" where
  "vacm_ok st \<longleftrightarrow> views_ok (vs_views st) \<and> groups_ok (vs_groups st) \<and> acl_ok (vs_acl st)"

lemma new_group_ok:
  "length name \<le> VACM_MAX_STRING \<Longrightarrow> 0 \<notin> set name \<Longrightarrow> group_ok (new_group model name)"
  by (simp add: group_ok_def new_group_def counted_ok_buf)

lemma new_access_ok:
  "length grp \<le> VACM_MAX_STRING \<Longrightarrow> 0 \<notin> set grp \<Longrightarrow> length pre \<le> VACM_MAX_STRING \<Longrightarrow> 0 \<notin> set pre \<Longrightarrow>
    access_ok (new_access grp pre model level) \<and> length (ae_views (new_access grp pre model level)) = VACM_MAX_VIEWS"
  by (simp add: access_ok_def new_access_def counted_ok_buf)

lemma groups_ok_create:
  assumes "groups_ok gs" and "0 \<notin> set name"
  shows "groups_ok (fst (Vacm_createGroupEntry c1 c2 gs model name))"
  using assms new_group_ok [of name model] group_table.sorted_link [of gs "new_group model name"]
  by (auto simp: groups_ok_def Vacm_createGroupEntry_def Let_def)

lemma groups_ok_unlink: "groups_ok gs \<Longrightarrow> groups_ok (unlink P gs)"
  using set_unlink_subset [of P gs] group_table.sorted_unlink by (auto simp: groups_ok_def)

lemma acl_ok_create:
  assumes "acl_ok as" and "0 \<notin> set grp" and "0 \<notin> set pre"
  shows "acl_ok (fst (Vacm_createAccessEntry c1 c2 as grp pre model level))"
  using assms new_access_ok [of grp pre model level]
    access_table.sorted_link [of as "new_access grp pre model level"]
  by (auto simp: acl_ok_def Vacm_createAccessEntry_def Let_def)

lemma acl_ok_unlink: "acl_ok as \<Longrightarrow> acl_ok (unlink P as)"
  using set_unlink_subset [of P as] access_table.sorted_unlink by (auto simp: acl_ok_def)

lemma vacm_step_ok: "vacm_step st st' \<Longrightarrow> vacm_ok st \<Longrightarrow> vacm_ok st'"
proof (induction rule: vacm_step.induct)
  case (view_create name c1 c2 st sub head r)
  then show ?case
    using viewCreate_ok [OF view_create(2)] by (simp add: vacm_ok_def)
next
  case (view_write st xs vp ys mk n t s w)
  then show ?case
    by (simp add: vacm_ok_def views_ok_def view_ok_def view_key_def view_name_def)
next
  case (group_write st xs gp ys g s w)
  then show ?case
    by (simp add: vacm_ok_def groups_ok_def group_ok_def group_key_def)
next
  case (access_write st xs ap ys vs m s w)
  then show ?case
    by (simp add: vacm_ok_def acl_ok_def access_ok_def access_key_def)
qed (simp_all add: vacm_ok_def viewDestroy_ok groups_ok_create acl_ok_create Vacm_viewClear_def
    Vacm_destroyGroupEntry_def groups_ok_unlink Vacm_destroyAllGroupEntries_def
    Vacm_destroyAccessEntry_def acl_ok_unlink Vacm_destroyAllAccessEntries_def,
    simp_all add: views_ok_def groups_ok_def acl_ok_def)

lemma vacm_reachable_ok: "vacm_reachable st \<Longrightarrow> vacm_ok st"
proof (induction rule: vacm_reachable.induct)
  case (start st)
  then show ?case
    by (simp add: vacm_ok_def views_ok_def groups_ok_def acl_ok_def)
qed (rule vacm_step_ok)

lemma vacm_reachable_views: "vacm_reachable st \<Longrightarrow> \<forall>vp \<in> set (vs_views st). view_ok vp"
  using vacm_reachable_ok [of st] by (simp add: vacm_ok_def views_ok_def)

text \<open>
  C23: Whatever sequence of creations, deletions and column writes the configuration makes, the three
  tables stay sorted by their index and every stored name and subtree keeps its length prefix.
\<close>

theorem vacm_tables_ordered:
  assumes "vacm_reachable st"
  shows "sorted (map view_key (vs_views st)) \<and> sorted (map group_key (vs_groups st)) \<and>
    sorted (map access_key (vs_acl st)) \<and> (\<forall>vp \<in> set (vs_views st). view_ok vp) \<and>
    (\<forall>gp \<in> set (vs_groups st). group_ok gp) \<and> (\<forall>ap \<in> set (vs_acl st). access_ok ap)"
  using vacm_reachable_ok [OF assms] by (simp add: vacm_ok_def views_ok_def groups_ok_def acl_ok_def)

text \<open>A small configuration: the view \<open>v\<close> includes 1.3, and excludes 1.3.6 with its sub-identifiers.\<close>

definition example_views :: "Vacm_ViewEntry_s list" where
  "example_views =
     [(new_view [118] [1, 3])\<lparr>viewType := 1\<rparr>, (new_view [118] [1, 3, 6])\<lparr>viewType := 2\<rparr>]"

definition example_state :: "(nat, nat) vacm_state" where
  "example_state = \<lparr>vs_services = [(3, 0)], vs_contexts = [(Some [], Some 0)],
     vs_groups = [(new_group 3 [117])\<lparr>ge_groupName := [103]\<rparr>],
     vs_acl = [(new_access [103] [] 3 1)\<lparr>ae_contextMatch := 1, ae_views := replicate 8 [118]\<rparr>],
     vs_views = example_views\<rparr>"

lemma view_ok_type [simp]: "view_ok (vp\<lparr>viewType := t\<rparr>) \<longleftrightarrow> view_ok vp"
  by (simp add: view_ok_def)

lemma example_ok: "\<forall>vp \<in> set example_views. view_ok vp"
  by (simp add: example_views_def new_view_ok VACM_MAX_STRING_def VIEW_SUBTREE_MAX_def)

definition empty_state :: "(nat, nat) vacm_state" where
  "empty_state = \<lparr>vs_services = [(3, 0)], vs_contexts = [(Some [], Some 0)],
     vs_groups = [], vs_acl = [], vs_views = []\<rparr>"

lemma empty_reachable: "vacm_reachable empty_state"
  by (rule vacm_reachable.start) (simp_all add: empty_state_def)

lemma one_view_reachable: "vacm_reachable (empty_state\<lparr>vs_views := [new_view [118] [1, 3]]\<rparr>)"
proof (rule vacm_reachable.step [OF empty_reachable], rule vacm_step.view_create)
  show "Vacm_viewCreate True True (vs_views empty_state) [118] [1, 3] =
      Ret ([new_view [118] [1, 3]], Some (new_view [118] [1, 3]))"
    by (simp add: Vacm_viewCreate_def Let_def empty_state_def VACM_MAX_STRING_def VIEW_SUBTREE_MAX_def)
qed simp

theorem vacm_tables_ordered_witness:
  "sorted (map view_key (vs_views (empty_state\<lparr>vs_views := [new_view [118] [1, 3]]\<rparr>))) \<and>
    view_ok (new_view [118] [1, 3])"
  using vacm_tables_ordered [OF one_view_reachable] by simp

section \<open>Lookups\<close>

text \<open>
  C13: \<open>Vacm_viewGet\<close> never leaves its arrays and decides by the entries of the view that cover the
  identifier under their masks (in the mode that ignores masks, under none), not by an entry with the
  same subtree: a name longer than \<open>VACM_MAX_STRING\<close> finds nothing; in the mode of a subtree check the
  only covering entry is found, and nothing when none or several cover; in every other mode nothing is
  found exactly when no entry covers, and otherwise an entry that covers and that no covering entry
  beats in length or, at equal length, in the order of identifiers.
\<close>

theorem vacm_longest_match:
  assumes "\<forall>vp \<in> set head. view_ok vp"
  shows "\<exists>r. Vacm_viewGet head name sub mode = Ret r \<and>
    (let ms = filter (\<lambda>vp. view_name vp = name \<and> covers (mode = VACM_MODE_IGNORE_MASK) vp sub) head
     in if length name > VACM_MAX_STRING then r = None
        else if mode = VACM_MODE_CHECK_SUBTREE then r = (if length ms = 1 then Some (hd ms) else None)
        else (case r of None \<Rightarrow> ms = [] | Some v \<Rightarrow> v \<in> set ms \<and> (\<forall>w \<in> set ms. rank w \<le> rank v)))"
proof (cases "length name \<le> VACM_MAX_STRING")
  case True
  let ?ms = "speaking (mode = VACM_MODE_IGNORE_MASK) name sub head"
  show ?thesis
  proof (cases "mode = VACM_MODE_CHECK_SUBTREE")
    case check: True
    then have "Vacm_viewGet head name sub mode = Ret (if length ?ms = 1 then Some (hd ?ms) else None)"
      using viewGet_unique [OF assms True, of sub] by (simp split: list.split)
    then show ?thesis
      using True check by (simp add: speaking_def Let_def)
  next
    case False
    have "case longest ?ms of None \<Rightarrow> ?ms = []
       | Some v \<Rightarrow> v \<in> set ?ms \<and> (\<forall>w \<in> set ?ms. rank w \<le> rank v)"
      using longest_Nil_iff [of ?ms] longest_SomeD [of ?ms] by (cases "longest ?ms") simp_all
    then show ?thesis
      using viewGet_longest [OF assms True False, of sub] True False
      unfolding speaking_def [symmetric] by (simp add: Let_def del: set_speaking)
  qed
next
  case False
  then show ?thesis
    by (simp add: Vacm_viewGet_def)
qed

theorem vacm_longest_match_witness:
  "Vacm_viewGet example_views [118] [1, 3, 6, 1] VACM_MODE_CHECK_SUBTREE = Ret None"
proof -
  have "\<not> length [118 :: u8] > VACM_MAX_STRING" "VACM_MODE_CHECK_SUBTREE \<noteq> VACM_MODE_IGNORE_MASK"
    "length (filter (\<lambda>vp. view_name vp = [118] \<and> covers False vp [1, 3, 6, 1]) example_views) = 2"
    by (simp_all add: VACM_MAX_STRING_def) code_simp
  then show ?thesis
    using vacm_longest_match [OF example_ok, of "[118]" "[1, 3, 6, 1]" VACM_MODE_CHECK_SUBTREE] by (auto simp: Let_def)
qed

text \<open>
  Creating a view entry and destroying it again gives the table back, and in between the exact
  lookup finds the entry, provided the table held none with that view and subtree.
\<close>

theorem vacm_view_create_destroy:
  assumes "views_ok head" and "length name \<le> VACM_MAX_STRING" and "0 \<notin> set name"
    and "length sub < VIEW_SUBTREE_MAX"
    and "\<forall>vp \<in> set head. \<not> (view_name vp = name \<and> sub_oid vp = sub)"
  shows "\<exists>head' e. Vacm_viewCreate True True head name sub = Ret (head', Some e) \<and>
    views_ok head' \<and> e \<in> set head' \<and> view_name e = name \<and> sub_oid e = sub \<and>
    Vacm_viewDestroy head' name (of_nat (length sub) # sub) = head"
proof -
  let ?e = "new_view name sub"
  let ?head = "link_before (\<lambda>lp. view_behind lp ?e) ?e head"
  have create: "Vacm_viewCreate True True head name sub = Ret (?head, Some ?e)"
    using assms(2,4) by (simp add: Vacm_viewCreate_def Let_def)
  have "\<forall>vp \<in> set head. \<not> view_matches name (of_nat (length sub) # sub) vp"
    using assms(1,4,5) by (auto simp: views_ok_def view_matches_iff)
  then have "Vacm_viewDestroy ?head name (of_nat (length sub) # sub) = head"
    unfolding Vacm_viewDestroy_def by (intro unlink_link_before view_matches_new assms(2-4))
  with create viewCreate_ok [OF create assms(1,3)] new_view_ok [OF assms(2-4)] show ?thesis
    by simp
qed

theorem vacm_view_create_destroy_witness:
  "\<exists>head' e. Vacm_viewCreate True True [] [118] [1, 3] = Ret (head', Some e) \<and>
    views_ok head' \<and> e \<in> set head' \<and> view_name e = [118] \<and> sub_oid e = [1, 3] \<and>
    Vacm_viewDestroy head' [118] (of_nat (length [1, 3 :: oid]) # [1, 3]) = []"
  by (rule vacm_view_create_destroy)
    (simp_all add: views_ok_def VACM_MAX_STRING_def VIEW_SUBTREE_MAX_def)


lemma subtreeCheck_total:
  assumes "\<forall>vp \<in> set head. view_ok vp" and "length name \<le> VACM_MAX_STRING"
  shows "\<exists>c. Vacm_viewSubtreeCheck head name sub = Ret c \<and>
    c \<in> {VACM_SUCCESS, VACM_NOTINVIEW, VACM_SUBTREE_UNKNOWN}"
proof -
  obtain r where r: "viewSubtreeCheck_loop head (counted name) sub None None = Ret r"
    and "case r of Inl c \<Rightarrow> c = VACM_SUBTREE_UNKNOWN | Inr _ \<Rightarrow> True"
    using subtreeCheck_loop_total [OF assms] by blast
  then show ?thesis
    using assms(2)
    by (cases r) (auto simp: Vacm_viewSubtreeCheck_def split: prod.split option.split)
qed

text \<open>
  C24: The check of a whole subtree agrees with the checks of the identifiers below it: when it
  answers that the subtree is in the view, every identifier below is; when it answers that it is
  not, none is; and it always answers.
\<close>

theorem vacm_subtree_check:
  assumes "\<forall>vp \<in> set head. view_ok vp" and "length name \<le> VACM_MAX_STRING"
  shows "\<exists>c. Vacm_viewSubtreeCheck head name sub = Ret c \<and>
    c \<in> {VACM_SUCCESS, VACM_NOTINVIEW, VACM_SUBTREE_UNKNOWN} \<and>
    (c = VACM_SUCCESS \<longrightarrow> (\<forall>ext. in_view head name (sub @ ext))) \<and>
    (c = VACM_NOTINVIEW \<longrightarrow> (\<forall>ext. \<not> in_view head name (sub @ ext)))"
proof -
  obtain c where c: "Vacm_viewSubtreeCheck head name sub = Ret c"
    and "c \<in> {VACM_SUCCESS, VACM_NOTINVIEW, VACM_SUBTREE_UNKNOWN}"
    using subtreeCheck_total [OF assms] by blast
  moreover have "in_view head name (sub @ ext) \<longleftrightarrow> c = VACM_SUCCESS" if "c \<noteq> VACM_SUBTREE_UNKNOWN" for ext
    by (rule subtreeCheck_decides [OF assms c that])
  ultimately show ?thesis
    by (intro exI [of _ c]) (auto simp: vacm_codes)
qed

lemma subtree_check_example: "Vacm_viewSubtreeCheck example_views [118] [1, 3, 6] = Ret VACM_NOTINVIEW"
  by code_simp

theorem vacm_subtree_check_witness:
  "\<not> in_view example_views [118] ([1, 3, 6] @ [4, 5])"
  using vacm_subtree_check [OF example_ok, of "[118]" "[1, 3, 6]"] subtree_check_example
  by (auto simp: VACM_MAX_STRING_def)

text \<open>
  \<open>Vacm_getAccessEntry\<close> returns an entry exactly when one applies: its group is the one asked
  for, its model is the message's or any, its level is at most the message's, and its context is the
  message's, or a prefix of it when it matches prefixes; what it returns applies.
\<close>

theorem vacm_access_lookup:
  assumes "acl_ok as" and "length grp \<le> VACM_MAX_STRING" and "length ctx \<le> VACM_MAX_STRING"
  shows "let hits = {vp \<in> set as.
      (ae_securityModel vp = model \<or> ae_securityModel vp = PRIOT_SEC_MODEL_ANY) \<and>
      ae_securityLevel vp \<le> level \<and> plain (ae_groupName vp) = grp \<and>
      (ae_contextMatch vp = CONTEXT_MATCH_EXACT \<and> plain (ae_contextPrefix vp) = ctx \<or>
       ae_contextMatch vp = CONTEXT_MATCH_PREFIX \<and> prefix (plain (ae_contextPrefix vp)) ctx)}
    in case Vacm_getAccessEntry as grp ctx model level of None \<Rightarrow> hits = {} | Some v \<Rightarrow> v \<in> hits"
proof -
  have "access_hit (counted grp) (counted ctx) model level vp \<longleftrightarrow>
      (ae_securityModel vp = model \<or> ae_securityModel vp = PRIOT_SEC_MODEL_ANY) \<and>
      ae_securityLevel vp \<le> level \<and> plain (ae_groupName vp) = grp \<and>
      (ae_contextMatch vp = CONTEXT_MATCH_EXACT \<and> plain (ae_contextPrefix vp) = ctx \<or>
       ae_contextMatch vp = CONTEXT_MATCH_PREFIX \<and> prefix (plain (ae_contextPrefix vp)) ctx)"
    if "vp \<in> set as" for vp
    using that assms by (intro access_hit_iff) (auto simp: acl_ok_def)
  then show ?thesis
    using getAccessEntry_cases [OF assms(2,3), of as model level]
    by (auto simp: Let_def split: option.splits)
qed

definition example_access :: Vacm_AccessEntry_s where
  "example_access = (new_access [103] [] 3 1)\<lparr>ae_contextMatch := CONTEXT_MATCH_PREFIX\<rparr>"

lemma example_access_fields:
  "acl_ok [example_access]" "ae_securityModel example_access = 3" "ae_securityLevel example_access = 1"
  "plain (ae_groupName example_access) = [103]" "plain (ae_contextPrefix example_access) = []"
  "ae_contextMatch example_access = CONTEXT_MATCH_PREFIX"
  by (simp_all add: example_access_def acl_ok_def access_ok_def new_access_def counted_ok_buf
      plain_counted_buf VACM_MAX_STRING_def VACM_MAX_VIEWS_def)

theorem vacm_access_lookup_witness:
  "Vacm_getAccessEntry [example_access] [103] [99] 3 1 \<noteq> None"
  using vacm_access_lookup [OF example_access_fields(1), of "[103]" "[99]" 3 1] example_access_fields
  by (auto simp: VACM_MAX_STRING_def Let_def split: option.splits)

section \<open>The decision\<close>

text \<open>
  The part of the decision before the view: the name of the view that decides, or the refusal. What
  the decision then asks of one identifier is \<open>view_answer\<close>.
\<close>

definition granting_view :: "('d, 't) vacm_state \<Rightarrow> vacm_pdu \<Rightarrow> int \<Rightarrow> int + u8 list" where
  "granting_view st pdu vt =
     (case (if find_service (vs_services st) (pdu_securityModel pdu) = None then None
            else pdu_securityName pdu) of
        None \<Rightarrow> Inl VACM_NOSECNAME
      | Some sname \<Rightarrow>
          (if pdu_contextNameLen pdu > CONTEXTNAMEINDEXLEN \<or>
              AgentRegistry_subtreeFindFirst (vs_contexts st) (Some (context_index pdu)) = None
           then Inl VACM_NOSUCHCONTEXT
           else case Vacm_getGroupEntry (vs_groups st) (pdu_securityModel pdu) sname of
             None \<Rightarrow> Inl VACM_NOGROUP
           | Some gp \<Rightarrow>
               (case Vacm_getAccessEntry (vs_acl st) (ge_groupName gp) (context_index pdu)
                       (pdu_securityModel pdu) (pdu_securityLevel pdu) of
                  None \<Rightarrow> Inl VACM_NOACCESS | Some ap \<Rightarrow> Inr (ae_views ap ! nat vt))))"

definition view_answer :: "Vacm_ViewEntry_s list \<Rightarrow> u8 list \<Rightarrow> oid list \<Rightarrow> int outcome" where
  "view_answer head vn nm =
     obind (Vacm_viewGet head vn nm VACM_MODE_FIND) (\<lambda>vp.
       case vp of None \<Rightarrow> Ret VACM_NOVIEW
       | Some v \<Rightarrow> if viewType v = PRIOT_VIEW_EXCLUDED then Ret VACM_NOTINVIEW else Ret VACM_SUCCESS)"

lemma access_views_length:
  assumes "vacm_ok st" and "Vacm_getAccessEntry (vs_acl st) g x m l = Some ap"
  shows "ap \<in> set (vs_acl st)" and "length (ae_views ap) = 8"
  using getAccessEntry_SomeD(1) [OF assms(2)] assms(1)
  by (auto simp: vacm_ok_def acl_ok_def VACM_MAX_VIEWS_def)

lemma checkView_eq:
  assumes "vacm_ok st" and "0 \<le> vt" and "vt < 8"
  shows "VacmConf_checkView st pdu (Some nm) sub vt =
    (case granting_view st pdu vt of
       Inl c \<Rightarrow> Ret c
     | Inr vn \<Rightarrow> if sub then Vacm_viewSubtreeCheck (vs_views st) vn nm else view_answer (vs_views st) vn nm)"
  using assms(2,3) access_views_length(2) [OF assms(1)]
  by (cases "find_service (vs_services st) (pdu_securityModel pdu)"; cases "pdu_securityName pdu";
      cases "AgentRegistry_subtreeFindFirst (vs_contexts st) (Some (context_index pdu))";
      cases "pdu_contextNameLen pdu > CONTEXTNAMEINDEXLEN")
    (simp_all add: VacmConf_checkView_def VacmConf_checkViewContents_def granting_view_def
      view_answer_def Let_def VACM_MAX_VIEWS_def split: option.split)

lemma granting_view_Inl: "granting_view st pdu vt = Inl c \<Longrightarrow> c \<notin> {VACM_SUCCESS, VACM_NOTINVIEW}"
  by (auto simp: granting_view_def vacm_codes split: option.splits if_splits)

lemma granting_view_Inr:
  assumes "vacm_ok st" and "0 \<le> vt" and "vt < 8" and "granting_view st pdu vt = Inr vn"
  shows "\<exists>ap \<in> set (vs_acl st). vn \<in> set (ae_views ap)"
proof -
  obtain g x m l ap where ap: "Vacm_getAccessEntry (vs_acl st) g x m l = Some ap"
    and vn: "vn = ae_views ap ! nat vt"
    using assms(4) by (auto simp: granting_view_def split: option.splits if_splits)
  then show ?thesis
    using access_views_length [OF assms(1) ap] assms(2,3) by (auto intro!: bexI [of _ ap])
qed

lemma view_answer_success: "view_answer head vn nm = Ret VACM_SUCCESS \<longleftrightarrow> in_view head vn nm"
  by (auto simp: view_answer_def in_view_def vacm_codes obind_Ret_iff split: outcome.split option.splits)

lemma view_answer_refused:
  assumes "\<forall>vp \<in> set head. view_ok vp" and "length vn \<le> VACM_MAX_STRING" and "\<not> in_view head vn nm"
  shows "view_answer head vn nm \<in> {Ret VACM_NOTINVIEW, Ret VACM_NOVIEW}"
  using assms viewGet_longest [OF assms(1,2), of VACM_MODE_FIND nm]
  by (auto simp: view_answer_def in_view_def split: option.splits)

text \<open>
  C4: An access is granted only through the tables: the security model is registered, the context
  exists, the first group of the security name applies, an access entry of that group admits the
  context, the model and the level, and the view it names for the requested operation has the
  identifier in it; and when all of that holds, it is granted.
\<close>

theorem vacm_access_granted:
  assumes "vacm_ok st" and "0 \<le> vt" and "vt < 8"
    and "pdu_securityName pdu = Some sname" and "length sname \<le> VACM_MAX_STRING"
  shows "VacmConf_checkView st pdu (Some oid) False vt = Ret VACM_SUCCESS \<longleftrightarrow>
    find_service (vs_services st) (pdu_securityModel pdu) \<noteq> None \<and>
    pdu_contextNameLen pdu \<le> CONTEXTNAMEINDEXLEN \<and>
    AgentRegistry_subtreeFindFirst (vs_contexts st) (Some (context_index pdu)) \<noteq> None \<and>
    (\<exists>gp ap.
       find (\<lambda>gp. ge_securityModel gp \<in> {pdu_securityModel pdu, PRIOT_SEC_MODEL_ANY} \<and>
               plain (ge_securityName gp) = sname) (vs_groups st) = Some gp \<and>
       Vacm_getAccessEntry (vs_acl st) (ge_groupName gp) (context_index pdu)
         (pdu_securityModel pdu) (pdu_securityLevel pdu) = Some ap \<and>
       in_view (vs_views st) (ae_views ap ! nat vt) oid)"
proof -
  have groups: "Vacm_getGroupEntry (vs_groups st) (pdu_securityModel pdu) sname =
    find (\<lambda>gp. ge_securityModel gp \<in> {pdu_securityModel pdu, PRIOT_SEC_MODEL_ANY} \<and>
            plain (ge_securityName gp) = sname) (vs_groups st)"
    using assms(1,5) by (simp add: vacm_ok_def groups_ok_def getGroupEntry_eq)
  have "VacmConf_checkView st pdu (Some oid) False vt = Ret VACM_SUCCESS \<longleftrightarrow>
      (\<exists>vn. granting_view st pdu vt = Inr vn \<and> in_view (vs_views st) vn oid)"
    using granting_view_Inl [of st pdu vt]
    by (auto simp: checkView_eq [OF assms(1-3)] view_answer_success split: sum.split)
  then show ?thesis
    by (auto simp: granting_view_def assms(4) groups not_less split: option.splits if_splits)
qed

definition example_pdu :: vacm_pdu where
  "example_pdu = \<lparr>pdu_command = 0xA0, pdu_securityModel = 3, pdu_securityLevel = 1,
     pdu_securityName = Some [117], pdu_contextName = None, pdu_contextNameLen = 0\<rparr>"

lemma example_sorted: "sorted (map view_key example_views)"
  by code_simp

lemma example_state_ok: "vacm_ok example_state"
proof -
  have "views_ok example_views"
    unfolding views_ok_def using example_ok example_sorted by simp
  moreover have "groups_ok (vs_groups example_state)"
    by (simp add: groups_ok_def example_state_def group_ok_def new_group_def counted_ok_buf VACM_MAX_STRING_def)
  moreover have "acl_ok (vs_acl example_state)"
    by (simp add: acl_ok_def example_state_def access_ok_def new_access_def counted_ok_buf
        VACM_MAX_STRING_def VACM_MAX_VIEWS_def)
  ultimately show ?thesis
    by (simp add: vacm_ok_def example_state_def)
qed

lemma example_granted: "VacmConf_checkView example_state example_pdu (Some [1, 3, 5]) False 0 = Ret VACM_SUCCESS"
  by code_simp

theorem vacm_access_granted_witness:
  "\<exists>ap. Vacm_getAccessEntry (vs_acl example_state) [103] [] 3 1 = Some ap \<and>
    in_view (vs_views example_state) (ae_views ap ! 0) [1, 3, 5]"
  using vacm_access_granted [OF example_state_ok, of 0 example_pdu "[117]" "[1, 3, 5]"] example_granted
  by (auto simp: example_pdu_def VACM_MAX_STRING_def example_state_def new_group_def plain_counted_buf
      context_index_def)

text \<open>
  C25: A subtree check by the decision is sound for the requests that follow it: when it grants a
  subtree, the decision grants every identifier below it; when it refuses the subtree as not in the
  view, every identifier below it is refused. (The agent relies on this to skip a check per
  variable binding.)
\<close>

theorem vacm_decision_subtree:
  assumes "vacm_ok st" and "0 \<le> vt" and "vt < 8"
    and "VacmConf_checkView st pdu (Some sub) True vt = Ret c"
    and "\<forall>ap \<in> set (vs_acl st). \<forall>vn \<in> set (ae_views ap). length vn \<le> VACM_MAX_STRING"
  shows "(c = VACM_SUCCESS \<longrightarrow> VacmConf_checkView st pdu (Some (sub @ ext)) False vt = Ret VACM_SUCCESS) \<and>
    (c = VACM_NOTINVIEW \<longrightarrow> VacmConf_checkView st pdu (Some (sub @ ext)) False vt \<in>
      {Ret VACM_NOTINVIEW, Ret VACM_NOVIEW})"
proof (cases "granting_view st pdu vt")
  case (Inl k)
  then have "k = c"
    using assms(4) by (simp add: checkView_eq [OF assms(1-3)])
  then show ?thesis
    using granting_view_Inl [OF Inl] by auto
next
  case (Inr vn)
  have oks: "\<forall>vp \<in> set (vs_views st). view_ok vp" and len: "length vn \<le> VACM_MAX_STRING"
    using assms(1,5) granting_view_Inr [OF assms(1-3) Inr] by (auto simp: vacm_ok_def views_ok_def)
  have c: "Vacm_viewSubtreeCheck (vs_views st) vn sub = Ret c"
    using assms(4) Inr by (simp add: checkView_eq [OF assms(1-3)])
  have "in_view (vs_views st) vn (sub @ ext) \<longleftrightarrow> c = VACM_SUCCESS" if "c \<noteq> VACM_SUBTREE_UNKNOWN"
    using subtreeCheck_decides [OF oks len c that] .
  then show ?thesis
    using Inr view_answer_refused [OF oks len, of "sub @ ext"]
      view_answer_success [of "vs_views st" vn "sub @ ext"]
    by (auto simp: checkView_eq [OF assms(1-3)] vacm_codes)
qed

lemma example_refused: "VacmConf_checkView example_state example_pdu (Some [1, 3, 6]) True 0 = Ret VACM_NOTINVIEW"
  by code_simp

theorem vacm_decision_subtree_witness:
  "VacmConf_checkView example_state example_pdu (Some ([1, 3, 6] @ [4])) False 0 \<in>
    {Ret VACM_NOTINVIEW, Ret VACM_NOVIEW}"
  using vacm_decision_subtree [OF example_state_ok _ _ example_refused, of "[4]"]
  by (auto simp: example_state_def new_access_def VACM_MAX_STRING_def)

text \<open>
  The choice among access entries does not prefer the entries of the message's own security model,
  as its comment and RFC 3415 say: an entry for any model with an exact context replaces one for the
  message's model with a context prefix.
\<close>

lemma chooseBest_prefers_any_model:
  "Vacm_getAccessEntry
     [(new_access [103] [] 3 1)\<lparr>ae_contextMatch := CONTEXT_MATCH_PREFIX\<rparr>,
      (new_access [103] [99] 0 1)\<lparr>ae_contextMatch := CONTEXT_MATCH_EXACT\<rparr>] [103] [99] 3 1 =
   Some ((new_access [103] [99] 0 1)\<lparr>ae_contextMatch := CONTEXT_MATCH_EXACT\<rparr>)"
  by code_simp

end
