(* ===== verification/TextConv.thy ===== *)
theory TextConv
  imports PriotBase
begin

text \<open>
  Row status and storage type (src/Firmware/Core/TextualConvention.c): the checks a table applies
  to a SET of its RowStatus or StorageType column. The values are C ints that are only compared, so
  they are integers here. The checks are compared with the state table of SNMPv2-TC that the source
  quotes.
\<close>

section \<open>Values\<close>

definition tcROW_STATUS_NONEXISTENT :: int where "tcROW_STATUS_NONEXISTENT = 0"
definition tcROW_STATUS_ACTIVE :: int where "tcROW_STATUS_ACTIVE = 1"
definition tcROW_STATUS_NOTINSERVICE :: int where "tcROW_STATUS_NOTINSERVICE = 2"
definition tcROW_STATUS_NOTREADY :: int where "tcROW_STATUS_NOTREADY = 3"
definition tcROW_STATUS_CREATEANDGO :: int where "tcROW_STATUS_CREATEANDGO = 4"
definition tcROW_STATUS_CREATEANDWAIT :: int where "tcROW_STATUS_CREATEANDWAIT = 5"
definition tcROW_STATUS_DESTROY :: int where "tcROW_STATUS_DESTROY = 6"

definition PRIOT_STORAGE_NONE :: int where "PRIOT_STORAGE_NONE = 0"
definition PRIOT_STORAGE_OTHER :: int where "PRIOT_STORAGE_OTHER = 1"
definition PRIOT_STORAGE_VOLATILE :: int where "PRIOT_STORAGE_VOLATILE = 2"
definition PRIOT_STORAGE_NONVOLATILE :: int where "PRIOT_STORAGE_NONVOLATILE = 3"
definition PRIOT_STORAGE_PERMANENT :: int where "PRIOT_STORAGE_PERMANENT = 4"
definition PRIOT_STORAGE_READONLY :: int where "PRIOT_STORAGE_READONLY = 5"

definition PRIOT_ERR_NOERROR :: int where "PRIOT_ERR_NOERROR = 0"
definition PRIOT_ERR_WRONGVALUE :: int where "PRIOT_ERR_WRONGVALUE = 10"
definition PRIOT_ERR_INCONSISTENTVALUE :: int where "PRIOT_ERR_INCONSISTENTVALUE = 12"

lemmas tc_values =
  tcROW_STATUS_NONEXISTENT_def tcROW_STATUS_ACTIVE_def tcROW_STATUS_NOTINSERVICE_def
  tcROW_STATUS_NOTREADY_def tcROW_STATUS_CREATEANDGO_def tcROW_STATUS_CREATEANDWAIT_def
  tcROW_STATUS_DESTROY_def PRIOT_STORAGE_NONE_def PRIOT_STORAGE_OTHER_def
  PRIOT_STORAGE_VOLATILE_def PRIOT_STORAGE_NONVOLATILE_def PRIOT_STORAGE_PERMANENT_def
  PRIOT_STORAGE_READONLY_def PRIOT_ERR_NOERROR_def PRIOT_ERR_WRONGVALUE_def
  PRIOT_ERR_INCONSISTENTVALUE_def

section \<open>The checks\<close>

definition TextualConvention_checkRowStatusTransition :: "int \<Rightarrow> int \<Rightarrow> int" where
  "TextualConvention_checkRowStatusTransition oldValue newValue =
     (if newValue = tcROW_STATUS_ACTIVE \<or> newValue = tcROW_STATUS_NOTINSERVICE
      then (if oldValue = tcROW_STATUS_NOTINSERVICE \<or> oldValue = tcROW_STATUS_ACTIVE
            then PRIOT_ERR_NOERROR else PRIOT_ERR_INCONSISTENTVALUE)
      else if newValue = tcROW_STATUS_NOTREADY then PRIOT_ERR_WRONGVALUE
      else if newValue = tcROW_STATUS_CREATEANDGO \<or> newValue = tcROW_STATUS_CREATEANDWAIT
      then (if oldValue \<noteq> tcROW_STATUS_NONEXISTENT then PRIOT_ERR_INCONSISTENTVALUE
            else PRIOT_ERR_NOERROR)
      else if newValue = tcROW_STATUS_DESTROY then PRIOT_ERR_NOERROR
      else PRIOT_ERR_WRONGVALUE)"

definition TextualConvention_checkRowStatusWithStorageTypeTransition ::
    "int \<Rightarrow> int \<Rightarrow> int \<Rightarrow> int" where
  "TextualConvention_checkRowStatusWithStorageTypeTransition oldValue newValue oldStorage =
     (if tcROW_STATUS_DESTROY = newValue \<and>
         (PRIOT_STORAGE_PERMANENT = oldStorage \<or> PRIOT_STORAGE_READONLY = oldStorage)
      then PRIOT_ERR_WRONGVALUE
      else TextualConvention_checkRowStatusTransition oldValue newValue)"

definition TextualConvention_checkStorageTransition :: "int \<Rightarrow> int \<Rightarrow> int" where
  "TextualConvention_checkStorageTransition oldValue newValue =
     (if oldValue = PRIOT_STORAGE_PERMANENT \<or> oldValue = PRIOT_STORAGE_READONLY
      then PRIOT_ERR_INCONSISTENTVALUE
      else if oldValue \<in> {PRIOT_STORAGE_NONE, PRIOT_STORAGE_OTHER, PRIOT_STORAGE_VOLATILE,
          PRIOT_STORAGE_NONVOLATILE} \<and>
          (newValue = PRIOT_STORAGE_PERMANENT \<or> newValue = PRIOT_STORAGE_READONLY)
      then PRIOT_ERR_INCONSISTENTVALUE
      else PRIOT_ERR_NOERROR)"

section \<open>The state table of SNMPv2-TC\<close>

text \<open>
  The four states of a conceptual row (columns A to D of the table) and the rows of the table: the
  states an accepted SET may lead to, with \<open>{}\<close> where every outcome is an error. The footnotes 2, 3
  and 8 leave some cells to the agent; an agent that answers with the error of the cell is allowed.
\<close>

datatype row_state = Absent | NotReady | NotInService | Active

fun status_value :: "row_state \<Rightarrow> int" where
  "status_value Absent = tcROW_STATUS_NONEXISTENT"
| "status_value NotReady = tcROW_STATUS_NOTREADY"
| "status_value NotInService = tcROW_STATUS_NOTINSERVICE"
| "status_value Active = tcROW_STATUS_ACTIVE"

datatype row_action = SetCreateAndGo | SetCreateAndWait | SetActive | SetNotInService | SetDestroy

fun action_value :: "row_action \<Rightarrow> int" where
  "action_value SetCreateAndGo = tcROW_STATUS_CREATEANDGO"
| "action_value SetCreateAndWait = tcROW_STATUS_CREATEANDWAIT"
| "action_value SetActive = tcROW_STATUS_ACTIVE"
| "action_value SetNotInService = tcROW_STATUS_NOTINSERVICE"
| "action_value SetDestroy = tcROW_STATUS_DESTROY"

fun tc_next :: "row_action \<Rightarrow> row_state \<Rightarrow> row_state set" where
  "tc_next SetCreateAndGo s = (if s = Absent then {Active} else {})"
| "tc_next SetCreateAndWait s = (if s = Absent then {NotReady, NotInService} else {})"
| "tc_next SetActive s = (if s = Absent then {} else {Active})"
| "tc_next SetNotInService s = (if s = Absent then {} else {NotInService})"
| "tc_next SetDestroy s = {Absent}"

fun tc_errors :: "row_action \<Rightarrow> row_state \<Rightarrow> int set" where
  "tc_errors SetCreateAndGo s = {PRIOT_ERR_INCONSISTENTVALUE}"
| "tc_errors SetCreateAndWait s =
     (if s = Absent then {PRIOT_ERR_WRONGVALUE} else {PRIOT_ERR_INCONSISTENTVALUE})"
| "tc_errors SetActive s = (if s = Active then {} else {PRIOT_ERR_INCONSISTENTVALUE})"
| "tc_errors SetNotInService s =
     (if s = NotInService then {}
      else if s = Active then {PRIOT_ERR_WRONGVALUE, PRIOT_ERR_INCONSISTENTVALUE}
      else {PRIOT_ERR_INCONSISTENTVALUE})"
| "tc_errors SetDestroy s = (if s = Active then {PRIOT_ERR_INCONSISTENTVALUE} else {})"

section \<open>Storage types\<close>

definition fixed_storage :: "int \<Rightarrow> bool" where
  "fixed_storage v \<longleftrightarrow> v = PRIOT_STORAGE_PERMANENT \<or> v = PRIOT_STORAGE_READONLY"

definition tc_storage :: "int set" where
  "tc_storage = {PRIOT_STORAGE_NONE, PRIOT_STORAGE_OTHER, PRIOT_STORAGE_VOLATILE,
     PRIOT_STORAGE_NONVOLATILE, PRIOT_STORAGE_PERMANENT, PRIOT_STORAGE_READONLY}"

lemma storage_fixed:
  "fixed_storage old \<Longrightarrow> TextualConvention_checkStorageTransition old v \<noteq> PRIOT_ERR_NOERROR"
  by (auto simp: TextualConvention_checkStorageTransition_def fixed_storage_def tc_values)

lemma storage_not_raised:
  "old \<in> tc_storage \<Longrightarrow> TextualConvention_checkStorageTransition old v = PRIOT_ERR_NOERROR \<Longrightarrow>
    \<not> fixed_storage v"
  by (auto simp: TextualConvention_checkStorageTransition_def fixed_storage_def tc_storage_def tc_values)

lemma destroy_refused:
  "fixed_storage st \<Longrightarrow>
    TextualConvention_checkRowStatusWithStorageTypeTransition old tcROW_STATUS_DESTROY st
      = PRIOT_ERR_WRONGVALUE"
  by (auto simp: TextualConvention_checkRowStatusWithStorageTypeTransition_def fixed_storage_def)

lemma next_absent: "Absent \<in> tc_next a s \<Longrightarrow> a = SetDestroy"
  by (cases a) (auto split: if_splits)

lemma range_action_value:
  "range action_value = {tcROW_STATUS_CREATEANDGO, tcROW_STATUS_CREATEANDWAIT, tcROW_STATUS_ACTIVE,
     tcROW_STATUS_NOTINSERVICE, tcROW_STATUS_DESTROY}"
proof -
  have "a \<in> {SetCreateAndGo, SetCreateAndWait, SetActive, SetNotInService, SetDestroy}" for a
    by (cases a) simp_all
  then have "UNIV = {SetCreateAndGo, SetCreateAndWait, SetActive, SetNotInService, SetDestroy}"
    by blast
  from arg_cong [OF this, of "image action_value"] show ?thesis
    by simp
qed

text \<open>
  C26: The row-status check agrees with the state table of SNMPv2-TC in every cell: it accepts a SET
  only where the table has a next state, and the error it answers is one the table lists; every
  value that is not an action, notReady among them, is a wrong value whatever the state.
\<close>

theorem row_status_table:
  "(if TextualConvention_checkRowStatusTransition (status_value s) (action_value a) = PRIOT_ERR_NOERROR
    then tc_next a s \<noteq> {}
    else TextualConvention_checkRowStatusTransition (status_value s) (action_value a) \<in> tc_errors a s) \<and>
   (v \<in> range action_value \<or>
      TextualConvention_checkRowStatusTransition old v = PRIOT_ERR_WRONGVALUE)"
proof -
  have "v \<in> range action_value \<or>
      TextualConvention_checkRowStatusTransition old v = PRIOT_ERR_WRONGVALUE"
    by (simp add: TextualConvention_checkRowStatusTransition_def range_action_value)
  moreover have "if TextualConvention_checkRowStatusTransition (status_value s) (action_value a) =
      PRIOT_ERR_NOERROR then tc_next a s \<noteq> {}
    else TextualConvention_checkRowStatusTransition (status_value s) (action_value a) \<in> tc_errors a s"
    by (cases s; cases a) (simp_all add: TextualConvention_checkRowStatusTransition_def tc_values)
  ultimately show ?thesis by blast
qed

text \<open>
  On its own the storage check lets an undefined value in, and from an undefined value on it lets
  everything in: two accepted changes make a row permanent. It relies on its callers to check the range first, and the
  tables of the source do: here or, before they call the check, value by value.
\<close>

lemma storage_check_alone:
  assumes "v \<notin> tc_storage" "old \<in> tc_storage" "\<not> fixed_storage old"
  shows "TextualConvention_checkStorageTransition old v = PRIOT_ERR_NOERROR \<and>
    TextualConvention_checkStorageTransition v w = PRIOT_ERR_NOERROR"
  using assms by (auto simp: TextualConvention_checkStorageTransition_def fixed_storage_def tc_storage_def)

end
