(* ===== verification/AgentHandler.thy ===== *)
theory AgentHandler
  imports AsnBase OidCmp Maps TextConv
begin

text \<open>
  Requests and chains of handlers: src/Firmware/Priot/AgentHandler.c, the error of a request in
  Agent.c, and the handlers that a watched variable is registered with: Serialize.c, ReadOnly.c,
  Instance.c and Watcher.c. The list of requests that a handler gets is a list of records; a handler
  returns the requests as it leaves them, its code, and what it makes of the state \<open>'s\<close> behind it.
  The mode of the transaction is an argument, since a handler may change it for those that follow.
\<close>

section \<open>Modes and error codes\<close>

named_theorems mode_defs "the numbers of modes and errors"

definition MODE_GET :: int where [mode_defs]: "MODE_GET = 0xA0"
definition MODE_GETNEXT :: int where [mode_defs]: "MODE_GETNEXT = 0xA1"
definition MODE_GETBULK :: int where [mode_defs]: "MODE_GETBULK = 0xA5"
definition MODE_SET_BEGIN :: int where [mode_defs]: "MODE_SET_BEGIN = -1"
definition MODE_SET_RESERVE1 :: int where [mode_defs]: "MODE_SET_RESERVE1 = 0"
definition MODE_SET_RESERVE2 :: int where [mode_defs]: "MODE_SET_RESERVE2 = 1"
definition MODE_SET_ACTION :: int where [mode_defs]: "MODE_SET_ACTION = 2"
definition MODE_SET_COMMIT :: int where [mode_defs]: "MODE_SET_COMMIT = 3"
definition MODE_SET_FREE :: int where [mode_defs]: "MODE_SET_FREE = 4"
definition MODE_SET_UNDO :: int where [mode_defs]: "MODE_SET_UNDO = 5"
definition IMPL_FINISHED_SUCCESS :: int where [mode_defs]: "IMPL_FINISHED_SUCCESS = 9"
definition IMPL_FINISHED_FAILURE :: int where [mode_defs]: "IMPL_FINISHED_FAILURE = 10"

definition PRIOT_ERR_NOSUCHNAME :: int where [mode_defs]: "PRIOT_ERR_NOSUCHNAME = 2"
definition PRIOT_ERR_GENERR :: int where [mode_defs]: "PRIOT_ERR_GENERR = 5"
definition PRIOT_ERR_WRONGTYPE :: int where [mode_defs]: "PRIOT_ERR_WRONGTYPE = 7"
definition PRIOT_ERR_WRONGLENGTH :: int where [mode_defs]: "PRIOT_ERR_WRONGLENGTH = 8"
definition PRIOT_ERR_NOCREATION :: int where [mode_defs]: "PRIOT_ERR_NOCREATION = 11"
definition PRIOT_ERR_RESOURCEUNAVAILABLE :: int where [mode_defs]: "PRIOT_ERR_RESOURCEUNAVAILABLE = 13"
definition PRIOT_ERR_COMMITFAILED :: int where [mode_defs]: "PRIOT_ERR_COMMITFAILED = 14"
definition PRIOT_ERR_UNDOFAILED :: int where [mode_defs]: "PRIOT_ERR_UNDOFAILED = 15"
definition PRIOT_ERR_NOTWRITABLE :: int where [mode_defs]: "PRIOT_ERR_NOTWRITABLE = 17"

declare PRIOT_ERR_NOERROR_def [mode_defs] PRIOT_ERR_WRONGVALUE_def [mode_defs]

definition is_set_mode :: "int \<Rightarrow> bool" where
  "is_set_mode mode \<longleftrightarrow> mode \<in> {MODE_SET_RESERVE1, MODE_SET_RESERVE2, MODE_SET_ACTION, MODE_SET_COMMIT,
     MODE_SET_FREE, MODE_SET_UNDO}"

definition is_get_mode :: "int \<Rightarrow> bool" where
  "is_get_mode mode \<longleftrightarrow> mode \<in> {MODE_GET, MODE_GETNEXT, MODE_GETBULK}"

section \<open>Requests\<close>

text \<open>The binding of a request, its flags and error, and the data that handlers left with it.\<close>

record 'p request =
  vb_name :: "oid list"
  vb_type :: u8
  vb_value :: "u8 list"
  delegated :: bool
  processed :: bool
  inclusive :: int
  req_status :: int
  req_index :: int
  parent_data :: "(string \<times> 'p) list"

definition requestSetError :: "int \<Rightarrow> int \<Rightarrow> 'p request \<Rightarrow> 'p request" where
  "requestSetError mode error_value request =
     (let r = request\<lparr>processed := True, delegated := False\<rparr>
      in if error_value \<in> {uint PRIOT_NOSUCHOBJECT, uint PRIOT_NOSUCHINSTANCE, uint PRIOT_ENDOFMIBVIEW}
         then (if is_get_mode mode then r\<lparr>vb_type := word_of_int error_value\<rparr>
               else if mode = MODE_SET_RESERVE1 then r\<lparr>req_status := PRIOT_ERR_NOCREATION\<rparr>
               else r\<lparr>req_status := PRIOT_ERR_NOSUCHNAME\<rparr>)
         else if error_value < 0 then r\<lparr>req_status := PRIOT_ERR_GENERR\<rparr>
         else r\<lparr>req_status := error_value\<rparr>)"

text \<open>The error for the first of the requests, and for the one that the PDU has at \<open>idx\<close>.\<close>

fun on_first :: "('a \<Rightarrow> 'a) \<Rightarrow> 'a list \<Rightarrow> 'a list" where
  "on_first f [] = []"
| "on_first f (x # xs) = f x # xs"

definition Agent_requestSetErrorAll :: "int \<Rightarrow> int \<Rightarrow> 'p request list \<Rightarrow> 'p request list" where
  "Agent_requestSetErrorAll mode error requests = map (requestSetError mode error) requests"

definition Agent_requestSetErrorIdx ::
    "int \<Rightarrow> int \<Rightarrow> int \<Rightarrow> 'p request list \<Rightarrow> 'p request list option" where
  "Agent_requestSetErrorIdx mode error_value idx requests =
     (let n = nat (idx - 2)
      in if n < length requests then Some (requests[n := requestSetError mode error_value (requests ! n)])
         else None)"

definition requestAddListData :: "string \<times> 'p \<Rightarrow> 'p request \<Rightarrow> 'p request" where
  "requestAddListData node r =
     (if parent_data r \<noteq> [] then r\<lparr>parent_data := Map_insert (parent_data r) node\<rparr>
      else r\<lparr>parent_data := [node]\<rparr>)"

definition requestGetListData :: "'p request \<Rightarrow> string \<Rightarrow> 'p option" where
  "requestGetListData r name = Map_at (parent_data r) name"

definition requestRemoveListData :: "'p request \<Rightarrow> string \<Rightarrow> 'p request \<times> int" where
  "requestRemoveListData r name =
     (if parent_data r = [] then (r, 1)
      else (case Map_erase (parent_data r) name of (d, rc) \<Rightarrow> (r\<lparr>parent_data := d\<rparr>, rc)))"

section \<open>Chains of handlers\<close>

text \<open>
  A handler is given the rest of its chain, which it may call, and tells at the end whether it has
  switched off the automatic call of the next handler this once.
\<close>

type_synonym ('p, 's) chain = "int \<Rightarrow> 'p request list \<Rightarrow> 's \<Rightarrow> 'p request list \<times> int \<times> 's"
type_synonym ('p, 's) access = "('p, 's) chain \<Rightarrow> int \<Rightarrow> 'p request list \<Rightarrow> 's \<Rightarrow> ('p request list \<times> int \<times> 's) \<times> bool"

record ('p, 's) mib_handler =
  handler_name :: string
  access_method :: "('p, 's) access option"
  auto_next :: bool

fun call_loop :: "('p, 's) mib_handler list \<Rightarrow> ('p, 's) chain" where
  "call_loop [] mode requests s = (requests, PRIOT_ERR_GENERR, s)"
| "call_loop (h # hs) mode requests s =
     (case access_method h of
        None \<Rightarrow> (requests, if hs \<noteq> [] then PRIOT_ERR_GENERR else PRIOT_ERR_NOERROR, s)
      | Some nh \<Rightarrow>
          (case nh (\<lambda>m rs s. if rs = [] then (rs, PRIOT_ERR_GENERR, s) else call_loop hs m rs s) mode requests s of
             ((requests', ret, s'), override) \<Rightarrow>
               if \<not> auto_next h \<or> override \<or> hs = [] then (requests', ret, s')
               else call_loop hs mode requests' s'))"

text \<open>No next handler and no request are illegal.\<close>

definition AgentHandler_callHandler :: "('p, 's) mib_handler list \<Rightarrow> ('p, 's) chain" where
  "AgentHandler_callHandler hs mode requests s =
     (if hs = [] \<or> requests = [] then (requests, PRIOT_ERR_GENERR, s) else call_loop hs mode requests s)"

record ('p, 's) registration =
  rootoid :: "oid list"
  reg_handlers :: "('p, 's) mib_handler list"
  can_getandgetnext :: bool
  can_set :: bool

definition AgentHandler_callHandlers :: "('p, 's) registration \<Rightarrow> ('p, 's) chain" where
  "AgentHandler_callHandlers reginfo mode requests s =
     (if requests = [] \<or> reg_handlers reginfo = [] then (requests, PRIOT_ERR_GENERR, s)
      else if is_get_mode mode \<and> \<not> can_getandgetnext reginfo then (requests, PRIOT_ERR_NOERROR, s)
      else if is_set_mode mode \<and> \<not> can_set reginfo
      then (map (requestSetError mode PRIOT_ERR_NOTWRITABLE) requests, PRIOT_ERR_NOERROR, s)
      else if \<not> is_get_mode mode \<and> \<not> is_set_mode mode then (requests, PRIOT_ERR_GENERR, s)
      else AgentHandler_callHandler (reg_handlers reginfo) mode (map (processed_update (\<lambda>_. False)) requests) s)"

text \<open>The handler goes in front, or in front of the one called \<open>before_what\<close>.\<close>

fun inject_before :: "('p, 's) mib_handler list \<Rightarrow> ('p, 's) mib_handler list \<Rightarrow> string \<Rightarrow>
    ('p, 's) mib_handler list option" where
  "inject_before hs [] what = None"
| "inject_before hs (h # rest) what =
     (if handler_name h = what then Some (hs @ h # rest) else map_option ((#) h) (inject_before hs rest what))"

definition AgentHandler_injectHandlerBefore ::
    "('p, 's) registration \<Rightarrow> ('p, 's) mib_handler list \<Rightarrow> string option \<Rightarrow> ('p, 's) registration \<times> int" where
  "AgentHandler_injectHandlerBefore reginfo hs before_what =
     (case before_what of
        None \<Rightarrow> (reginfo\<lparr>reg_handlers := hs @ reg_handlers reginfo\<rparr>, 0)
      | Some what \<Rightarrow>
          (case inject_before hs (reg_handlers reginfo) what of
             None \<Rightarrow> (reginfo, PRIOT_ERR_GENERR)
           | Some hs' \<Rightarrow> (reginfo\<lparr>reg_handlers := hs'\<rparr>, 0)))"

definition AgentHandler_injectHandler ::
    "('p, 's) registration \<Rightarrow> ('p, 's) mib_handler list \<Rightarrow> ('p, 's) registration" where
  "AgentHandler_injectHandler reginfo hs = fst (AgentHandler_injectHandlerBefore reginfo hs None)"

section \<open>The serialize, read-only and instance handlers\<close>

fun serialize_loop :: "('p, 's) chain \<Rightarrow> ('p, 's) chain" where
  "serialize_loop callNext mode [] s = ([], PRIOT_ERR_NOERROR, s)"
| "serialize_loop callNext mode (r # rs) s =
     (case callNext mode [r] s of
        (rs1, ret, s1) \<Rightarrow>
          if ret \<noteq> PRIOT_ERR_NOERROR then (rs1 @ rs, ret, s1)
          else (case serialize_loop callNext mode rs s1 of (rs2, ret2, s2) \<Rightarrow> (rs1 @ rs2, ret2, s2)))"

definition Serialize_helperHandler :: "('p, 's) access" where
  "Serialize_helperHandler callNext mode requests s = (serialize_loop callNext mode requests s, False)"

definition ReadOnly_helper :: "('p, 's) access" where
  "ReadOnly_helper callNext mode requests s =
     (if is_set_mode mode
      then ((Agent_requestSetErrorAll mode PRIOT_ERR_NOTWRITABLE requests, PRIOT_ERR_NOTWRITABLE, s), False)
      else if is_get_mode mode then ((requests, PRIOT_ERR_NOERROR, s), False)
      else ((Agent_requestSetErrorAll mode PRIOT_ERR_GENERR requests, PRIOT_ERR_GENERR, s), False))"

text \<open>The type of the first request becomes NULL when the instance has no data.\<close>

definition no_data_to_null :: "'p request \<Rightarrow> 'p request" where
  "no_data_to_null r =
     (if \<not> delegated r \<and> (vb_type r = PRIOT_NOSUCHINSTANCE \<or> vb_type r = PRIOT_NOSUCHOBJECT)
      then r\<lparr>vb_type := asnNULL\<rparr> else r)"

definition Instance_helperHandler :: "oid list \<Rightarrow> ('p, 's) access" where
  "Instance_helperHandler root callNext mode requests s =
     (let cmp = Api_oidCompare (vb_name (hd requests)) root
      in (if mode = MODE_GET
          then (if cmp \<noteq> 0
                then (on_first (requestSetError mode (uint PRIOT_NOSUCHINSTANCE)) requests, PRIOT_ERR_NOERROR, s)
                else callNext mode requests s)
          else if is_set_mode mode
          then (if cmp \<noteq> 0
                then (on_first (requestSetError mode PRIOT_ERR_NOCREATION) requests, PRIOT_ERR_NOERROR, s)
                else callNext mode requests s)
          else if mode = MODE_GETNEXT
          then (if cmp < 0 \<or> (cmp = 0 \<and> inclusive (hd requests) \<noteq> 0)
                then (case callNext MODE_GET (on_first (vb_name_update (\<lambda>_. root)) requests) s of
                        (requests', ret, s') \<Rightarrow> (on_first no_data_to_null requests', ret, s'))
                else (requests, PRIOT_ERR_NOERROR, s))
          else (on_first (requestSetError mode PRIOT_ERR_GENERR) requests, PRIOT_ERR_NOERROR, s),
          False))"

end
