(* ===== verification/WatchedVar.thy ===== *)
theory WatchedVar
  imports AgentHandler
begin

text \<open>
  Watched variables, src/Firmware/Priot/Watcher.c: a handler that serves GET and SET for a variable of
  the program, and its registration as an instance. The state gives each watcher \<open>i\<close> the buffer of its
  variable, the size stored for it, and whether memory outside has been touched.
\<close>

unbundle bit_operations_syntax

section \<open>State\<close>

definition WATCHER_FIXED_SIZE :: u32 where "WATCHER_FIXED_SIZE = 0x01"
definition WATCHER_MAX_SIZE :: u32 where "WATCHER_MAX_SIZE = 0x02"
definition WATCHER_SIZE_IS_PTR :: u32 where "WATCHER_SIZE_IS_PTR = 0x04"
definition WATCHER_SIZE_STRLEN :: u32 where "WATCHER_SIZE_STRLEN = 0x08"
definition WATCHER_SIZE_UNIT_OIDS :: u32 where "WATCHER_SIZE_UNIT_OIDS = 0x10"

lemmas watcher_flags = WATCHER_FIXED_SIZE_def WATCHER_MAX_SIZE_def WATCHER_SIZE_IS_PTR_def
  WATCHER_SIZE_STRLEN_def WATCHER_SIZE_UNIT_OIDS_def

record watcher_info =
  max_size :: nat
  w_type :: u8
  w_flags :: u32

definition has :: "watcher_info \<Rightarrow> u32 \<Rightarrow> bool" where
  "has w f \<longleftrightarrow> w_flags w AND f \<noteq> 0"

text \<open>\<open>data_size\<close> stands for \<open>*data_size_p\<close> when the flag says so.\<close>

record watched =
  wdata :: "u8 list"
  data_size :: nat
  mem_error :: bool

definition sizeof_oid :: nat where "sizeof_oid = 4"

section \<open>Reading and writing the variable\<close>

definition strlen :: "u8 list \<Rightarrow> nat" where
  "strlen s = length (takeWhile (\<lambda>b. b \<noteq> 0) s)"

definition Watcher_getDataSize :: "watcher_info \<Rightarrow> watched \<Rightarrow> nat" where
  "Watcher_getDataSize w d =
     (if has w WATCHER_SIZE_STRLEN then strlen (wdata d)
      else if has w WATCHER_SIZE_UNIT_OIDS then data_size d * sizeof_oid else data_size d)"

text \<open>What fits is copied; the rest is a write outside of the buffer.\<close>

definition memcpy_to :: "watched \<Rightarrow> u8 list \<Rightarrow> watched" where
  "memcpy_to d bytes =
     (if length bytes \<le> length (wdata d) then d\<lparr>wdata := bytes @ drop (length bytes) (wdata d)\<rparr>
      else d\<lparr>wdata := take (length (wdata d)) bytes, mem_error := True\<rparr>)"

definition store_nul :: "watched \<Rightarrow> nat \<Rightarrow> watched" where
  "store_nul d n = (if n < length (wdata d) then d\<lparr>wdata := (wdata d)[n := 0]\<rparr> else d\<lparr>mem_error := True\<rparr>)"

definition Watcher_setData :: "watcher_info \<Rightarrow> watched \<Rightarrow> u8 list \<Rightarrow> watched" where
  "Watcher_setData w d bytes =
     (let d1 = memcpy_to d bytes
      in if has w WATCHER_SIZE_STRLEN then store_nul d1 (length bytes)
         else d1\<lparr>data_size := (if has w WATCHER_SIZE_UNIT_OIDS then length bytes div sizeof_oid else length bytes)\<rparr>)"

definition Watcher_cacheCreate :: "bool \<Rightarrow> watched \<Rightarrow> nat \<Rightarrow> u8 list option" where
  "Watcher_cacheCreate alloc d n = (if alloc then Some (take n (wdata d)) else None)"

text \<open>
  \<open>Client_setVarValue\<close> for the types a variable is watched with: integers are widened to a \<open>long\<close>
  of eight bytes, least significant first, and cut to 32 bits when they are above; a size that is not
  one of an integer type leaves the old buffer and the size given.
\<close>

fun le_value :: "u8 list \<Rightarrow> nat" where
  "le_value [] = 0"
| "le_value (b # bs) = unat b + 256 * le_value bs"

fun le_bytes :: "nat \<Rightarrow> nat \<Rightarrow> u8 list" where
  "le_bytes 0 v = []"
| "le_bytes (Suc n) v = of_nat v # le_bytes n (v div 256)"

definition integer_like :: "u8 \<Rightarrow> bool" where
  "integer_like t \<longleftrightarrow> t \<in> {asnINTEGER, asnGAUGE, asnTIMETICKS, asnCOUNTER, asnUINTEGER}"

definition widen :: "u8 \<Rightarrow> u8 list \<Rightarrow> u8 list" where
  "widen t bytes =
     (if t = asnINTEGER \<and> bytes \<noteq> [] \<and> last bytes \<ge> 0x80 then bytes @ replicate (8 - length bytes) 0xFF
      else bytes @ replicate (8 - length bytes) 0)"

definition Client_setVarValue :: "u8 list \<Rightarrow> u8 \<Rightarrow> u8 list \<Rightarrow> u8 list \<times> int" where
  "Client_setVarValue old t bytes =
     (if bytes = [] then ([], 0)
      else if integer_like t
      then (if length bytes \<in> {1, 2, 4} then (widen t bytes, 0)
            else if length bytes = 8
            then (if le_value bytes > 0xFFFFFFFF \<and> last bytes < 0x80 then (take 4 bytes @ replicate 4 0, 0)
                  else (bytes, 0))
            else (take (length bytes) (old @ replicate (length bytes) 0), 1))
      else (bytes, 0))"

section \<open>The handler\<close>

definition Watcher_helperHandler ::
    "bool \<Rightarrow> watcher_info \<Rightarrow> 'i \<Rightarrow> (u8 list, 'i \<Rightarrow> watched) access" where
  "Watcher_helperHandler alloc w i callNext mode requests s =
     (let r = hd requests; d = s i; fail = (\<lambda>e. ((on_first (requestSetError mode e) requests, PRIOT_ERR_NOERROR, s), True))
      in if mode = MODE_GET
         then ((on_first (\<lambda>r. r\<lparr>vb_type := w_type w,
                    vb_value := fst (Client_setVarValue (vb_value r) (w_type w) (take (Watcher_getDataSize w d) (wdata d)))\<rparr>)
                  requests, PRIOT_ERR_NOERROR, s), False)
         else if mode = MODE_SET_RESERVE1
         then (if vb_type r \<noteq> w_type w then fail PRIOT_ERR_WRONGTYPE
               else if (has w WATCHER_MAX_SIZE \<and> length (vb_value r) > max_size w) \<or>
                    (has w WATCHER_FIXED_SIZE \<and> length (vb_value r) \<noteq> Watcher_getDataSize w d)
               then fail PRIOT_ERR_WRONGLENGTH
               else if has w WATCHER_SIZE_STRLEN \<and> 0 \<in> set (vb_value r) then fail PRIOT_ERR_WRONGVALUE
               else ((requests, PRIOT_ERR_NOERROR, s), False))
         else if mode = MODE_SET_RESERVE2
         then (case Watcher_cacheCreate alloc d (Watcher_getDataSize w d) of
                 None \<Rightarrow> fail PRIOT_ERR_RESOURCEUNAVAILABLE
               | Some old \<Rightarrow> ((on_first (requestAddListData (''watcher'', old)) requests, PRIOT_ERR_NOERROR, s), False))
         else if mode = MODE_SET_ACTION
         then ((requests, PRIOT_ERR_NOERROR, s(i := Watcher_setData w d (vb_value r))), False)
         else if mode = MODE_SET_UNDO
         then (case requestGetListData r ''watcher'' of
                 Some old \<Rightarrow> ((requests, PRIOT_ERR_NOERROR, s(i := Watcher_setData w d old)), False)
               | None \<Rightarrow> ((requests, PRIOT_ERR_NOERROR, s(i := d\<lparr>mem_error := True\<rparr>)), False))
         else if mode = MODE_SET_FREE \<or> mode = MODE_SET_COMMIT then ((requests, PRIOT_ERR_NOERROR, s), False)
         else ((requests, PRIOT_ERR_GENERR, s), False))"

text \<open>
  The chain of a watched instance: the registration was created for a subhandler, which may have no
  access method, and the others are put in front of it.
\<close>

definition Watcher_getWatcherHandler ::
    "bool \<Rightarrow> watcher_info \<Rightarrow> 'i \<Rightarrow> (u8 list, 'i \<Rightarrow> watched) mib_handler" where
  "Watcher_getWatcherHandler alloc w i =
     \<lparr>handler_name = ''watcher'', access_method = Some (Watcher_helperHandler alloc w i), auto_next = True\<rparr>"

definition Instance_getInstanceHandler :: "oid list \<Rightarrow> ('p, 's) mib_handler" where
  "Instance_getInstanceHandler root =
     \<lparr>handler_name = ''instance'', access_method = Some (Instance_helperHandler root), auto_next = False\<rparr>"

definition Serialize_getSerializeHandler :: "('p, 's) mib_handler" where
  "Serialize_getSerializeHandler =
     \<lparr>handler_name = ''serialize'', access_method = Some Serialize_helperHandler, auto_next = False\<rparr>"

definition Watcher_registerWatchedInstance ::
    "bool \<Rightarrow> watcher_info \<Rightarrow> 'i \<Rightarrow> (u8 list, 'i \<Rightarrow> watched) registration \<Rightarrow> (u8 list, 'i \<Rightarrow> watched) registration" where
  "Watcher_registerWatchedInstance alloc w i reginfo =
     AgentHandler_injectHandler
       (AgentHandler_injectHandler
         (AgentHandler_injectHandler reginfo [Watcher_getWatcherHandler alloc w i])
         [Instance_getInstanceHandler (rootoid reginfo)])
       [Serialize_getSerializeHandler]"

definition int_instance :: "oid list \<Rightarrow> (u8 list, 'i \<Rightarrow> watched) registration" where
  "int_instance root = \<lparr>rootoid = root, reg_handlers = [\<lparr>handler_name = ''int'', access_method = None, auto_next = False\<rparr>],
     can_getandgetnext = True, can_set = True\<rparr>"

section \<open>What the chain does to one request\<close>

text \<open>The chain as a function of one request of a SET, its error flag and the variable.\<close>

definition watched_step ::
    "bool \<Rightarrow> watcher_info \<Rightarrow> oid list \<Rightarrow> int \<Rightarrow> u8 list request \<Rightarrow> watched \<Rightarrow> u8 list request \<times> watched" where
  "watched_step alloc w root mode r d =
     (if vb_name r \<noteq> root then (requestSetError mode PRIOT_ERR_NOCREATION r, d)
      else if mode = MODE_SET_RESERVE1
      then (if vb_type r \<noteq> w_type w then (requestSetError mode PRIOT_ERR_WRONGTYPE r, d)
            else if (has w WATCHER_MAX_SIZE \<and> length (vb_value r) > max_size w) \<or>
                 (has w WATCHER_FIXED_SIZE \<and> length (vb_value r) \<noteq> Watcher_getDataSize w d)
            then (requestSetError mode PRIOT_ERR_WRONGLENGTH r, d)
            else if has w WATCHER_SIZE_STRLEN \<and> 0 \<in> set (vb_value r) then (requestSetError mode PRIOT_ERR_WRONGVALUE r, d)
            else (r, d))
      else if mode = MODE_SET_RESERVE2
      then (if alloc then (requestAddListData (''watcher'', take (Watcher_getDataSize w d) (wdata d)) r, d)
            else (requestSetError mode PRIOT_ERR_RESOURCEUNAVAILABLE r, d))
      else if mode = MODE_SET_ACTION then (r, Watcher_setData w d (vb_value r))
      else if mode = MODE_SET_UNDO
      then (r, case requestGetListData r ''watcher'' of Some old \<Rightarrow> Watcher_setData w d old | None \<Rightarrow> d\<lparr>mem_error := True\<rparr>)
      else (r, d))"

fun watched_steps ::
    "bool \<Rightarrow> watcher_info \<Rightarrow> oid list \<Rightarrow> int \<Rightarrow> u8 list request list \<Rightarrow> watched \<Rightarrow> u8 list request list \<times> watched" where
  "watched_steps alloc w root mode [] d = ([], d)"
| "watched_steps alloc w root mode (r # rs) d =
     (case watched_step alloc w root mode r d of (r', d') \<Rightarrow>
        (case watched_steps alloc w root mode rs d' of (rs', d'') \<Rightarrow> (r' # rs', d'')))"

lemma oidCompare_eq_0: "Api_oidCompare xs ys = 0 \<longleftrightarrow> xs = ys"
  by (simp add: oidCompare_less)

lemma registered_handlers:
  "reg_handlers (Watcher_registerWatchedInstance alloc w i (int_instance root)) =
     [Serialize_getSerializeHandler, Instance_getInstanceHandler root, Watcher_getWatcherHandler alloc w i,
      \<lparr>handler_name = ''int'', access_method = None, auto_next = False\<rparr>]"
  by (simp add: Watcher_registerWatchedInstance_def AgentHandler_injectHandler_def
      AgentHandler_injectHandlerBefore_def int_instance_def)

lemma registered_modes [simp]:
  "can_set (Watcher_registerWatchedInstance alloc w i (int_instance root))"
  "can_getandgetnext (Watcher_registerWatchedInstance alloc w i (int_instance root))"
  "rootoid (Watcher_registerWatchedInstance alloc w i (int_instance root)) = root"
  by (simp_all add: Watcher_registerWatchedInstance_def AgentHandler_injectHandler_def
      AgentHandler_injectHandlerBefore_def int_instance_def)

lemma watcher_one:
  assumes "is_set_mode mode"
  shows "call_loop [Instance_getInstanceHandler root, Watcher_getWatcherHandler alloc w i,
        \<lparr>handler_name = ''int'', access_method = None, auto_next = False\<rparr>] mode [r] s =
     ([fst (watched_step alloc w root mode r (s i))], PRIOT_ERR_NOERROR,
      s(i := snd (watched_step alloc w root mode r (s i))))"
  using assms
  by (auto simp: Instance_getInstanceHandler_def Instance_helperHandler_def Watcher_getWatcherHandler_def
      Watcher_helperHandler_def watched_step_def Watcher_cacheCreate_def oidCompare_eq_0 is_set_mode_def mode_defs
      Let_def split: option.splits)

lemma serialize_watched:
  assumes "is_set_mode mode"
  shows "serialize_loop (\<lambda>m rs s. if rs = [] then (rs, PRIOT_ERR_GENERR, s)
        else call_loop [Instance_getInstanceHandler root, Watcher_getWatcherHandler alloc w i,
          \<lparr>handler_name = ''int'', access_method = None, auto_next = False\<rparr>] m rs s) mode rs s =
     (fst (watched_steps alloc w root mode rs (s i)), PRIOT_ERR_NOERROR,
      s(i := snd (watched_steps alloc w root mode rs (s i))))"
proof (induction rs arbitrary: s)
  case (Cons r rs)
  obtain r' d' where r: "watched_step alloc w root mode r (s i) = (r', d')"
    by fastforce
  obtain rs' d'' where rs: "watched_steps alloc w root mode rs d' = (rs', d'')"
    by fastforce
  show ?case
    unfolding serialize_loop.simps watched_steps.simps watcher_one [OF assms] if_not_P [OF list.simps(3)]
    using r rs by (simp add: Cons.IH fun_eq_iff)
qed simp

abbreviation watched_call ::
    "bool \<Rightarrow> watcher_info \<Rightarrow> oid list \<Rightarrow> 'i \<Rightarrow> (u8 list, 'i \<Rightarrow> watched) chain" where
  "watched_call alloc w root i \<equiv>
     AgentHandler_callHandlers (Watcher_registerWatchedInstance alloc w i (int_instance root))"

lemma watched_call_set:
  assumes "is_set_mode mode" "rs \<noteq> []"
  shows "watched_call alloc w root i mode rs s =
     (let (rs', d) = watched_steps alloc w root mode (map (processed_update (\<lambda>_. False)) rs) (s i)
      in (rs', PRIOT_ERR_NOERROR, s(i := d)))"
proof -
  have "\<not> is_get_mode mode"
    using assms(1) by (auto simp: is_set_mode_def is_get_mode_def mode_defs)
  then show ?thesis
    using assms serialize_watched [OF assms(1), of root alloc w i "map (processed_update (\<lambda>_. False)) rs" s]
    by (simp add: AgentHandler_callHandlers_def AgentHandler_callHandler_def registered_handlers
        Serialize_getSerializeHandler_def Serialize_helperHandler_def Let_def split_beta del: serialize_loop.simps)
qed

end
