(* ===== verification/RowCheck.thy ===== *)
theory RowCheck
  imports AgentHandler AsnOid WatchedVar
begin

text \<open>
  The checks of a variable binding before a SET (src/Firmware/Core/System/Util/VariableList.c): its
  type, its length and its value, and with them the changes of a RowStatus and a StorageType column.
  The rows of a table that guards its columns with these checks are followed through any sequence of
  accepted SETs. A binding is None for the null pointer; \<open>vl_integer\<close> is the \<open>long\<close> its value points to,
  which the checks read after the length has been found to be that of a \<open>long\<close>; only the range check of
  an integer by itself reads it unseen.
\<close>

section \<open>Bindings\<close>

record variable =
  vl_type :: u8
  vl_length :: size_t
  vl_integer :: u64

definition sizeof_long :: size_t where "sizeof_long = 8"

definition PRIOT_ROW_NONEXISTENT :: int where [mode_defs]: "PRIOT_ROW_NONEXISTENT = 0"
definition PRIOT_ROW_DESTROY :: int where [mode_defs]: "PRIOT_ROW_DESTROY = 6"

definition asnUNSIGNED :: u8 where "asnUNSIGNED = asnAPPLICATION OR 2"

text \<open>The conversion of the \<open>long\<close> to the \<open>int\<close> of a parameter.\<close>

definition to_int :: "u64 \<Rightarrow> int" where
  "to_int v = sint (ucast v :: u32)"

section \<open>The checks\<close>

definition VariableList_checkType :: "variable option \<Rightarrow> int \<Rightarrow> int" where
  "VariableList_checkType var ty =
     (case var of None \<Rightarrow> PRIOT_ERR_GENERR
      | Some v \<Rightarrow> if uint (vl_type v) \<noteq> ty then PRIOT_ERR_WRONGTYPE else PRIOT_ERR_NOERROR)"

definition VariableList_checkLength :: "variable option \<Rightarrow> size_t \<Rightarrow> int" where
  "VariableList_checkLength var valueSize =
     (case var of None \<Rightarrow> PRIOT_ERR_GENERR
      | Some v \<Rightarrow> if vl_length v \<noteq> valueSize then PRIOT_ERR_WRONGLENGTH else PRIOT_ERR_NOERROR)"

definition VariableList_checkMaxLength :: "variable option \<Rightarrow> size_t \<Rightarrow> int" where
  "VariableList_checkMaxLength var maxValueSize =
     (case var of None \<Rightarrow> PRIOT_ERR_GENERR
      | Some v \<Rightarrow> if vl_length v > maxValueSize then PRIOT_ERR_WRONGLENGTH else PRIOT_ERR_NOERROR)"

definition VariableList_checkIntegerRange :: "variable option \<Rightarrow> size_t \<Rightarrow> size_t \<Rightarrow> int" where
  "VariableList_checkIntegerRange var lo hi =
     (case var of None \<Rightarrow> PRIOT_ERR_GENERR
      | Some v \<Rightarrow> if vl_integer v < lo \<or> vl_integer v > hi then PRIOT_ERR_WRONGVALUE else PRIOT_ERR_NOERROR)"

definition VariableList_checkLengthRange :: "variable option \<Rightarrow> size_t \<Rightarrow> size_t \<Rightarrow> int" where
  "VariableList_checkLengthRange var lo hi =
     (case var of None \<Rightarrow> PRIOT_ERR_GENERR
      | Some v \<Rightarrow> if vl_length v < lo \<or> vl_length v > hi then PRIOT_ERR_WRONGLENGTH else PRIOT_ERR_NOERROR)"

definition VariableList_checkTypeAndLength :: "variable option \<Rightarrow> int \<Rightarrow> size_t \<Rightarrow> int" where
  "VariableList_checkTypeAndLength var ty valueSize =
     (if var = None then PRIOT_ERR_GENERR
      else let rc = VariableList_checkType var ty
           in if rc = PRIOT_ERR_NOERROR then VariableList_checkLength var valueSize else rc)"

definition VariableList_checkTypeAndMaxLength :: "variable option \<Rightarrow> int \<Rightarrow> size_t \<Rightarrow> int" where
  "VariableList_checkTypeAndMaxLength var ty maxValueSize =
     (if var = None then PRIOT_ERR_GENERR
      else let rc = VariableList_checkType var ty
           in if rc = PRIOT_ERR_NOERROR then VariableList_checkMaxLength var maxValueSize else rc)"

definition VariableList_checkOidMaxLength :: "variable option \<Rightarrow> int" where
  "VariableList_checkOidMaxLength var =
     (if var = None then PRIOT_ERR_GENERR
      else let rc = VariableList_checkType var (uint asnOBJECT_ID)
           in if rc = PRIOT_ERR_NOERROR
              then VariableList_checkMaxLength var (of_nat (TYPES_MAX_OID_LEN * sizeof_oid)) else rc)"

definition VariableList_checkIntLength :: "variable option \<Rightarrow> int" where
  "VariableList_checkIntLength var =
     (if var = None then PRIOT_ERR_GENERR else VariableList_checkTypeAndLength var (uint asnINTEGER) sizeof_long)"

definition VariableList_checkUIntLength :: "variable option \<Rightarrow> int" where
  "VariableList_checkUIntLength var =
     (if var = None then PRIOT_ERR_GENERR else VariableList_checkTypeAndLength var (uint asnUNSIGNED) sizeof_long)"

definition VariableList_checkIntLengthAndRange :: "variable option \<Rightarrow> int \<Rightarrow> int \<Rightarrow> int" where
  "VariableList_checkIntLengthAndRange var lo hi =
     (case var of None \<Rightarrow> PRIOT_ERR_GENERR
      | Some v \<Rightarrow>
          let rc = VariableList_checkTypeAndLength var (uint asnINTEGER) sizeof_long
          in if rc = PRIOT_ERR_NOERROR \<and> (sint (vl_integer v) < lo \<or> sint (vl_integer v) > hi)
             then PRIOT_ERR_WRONGVALUE else rc)"

definition VariableList_checkBoolLengthAndValue :: "variable option \<Rightarrow> int" where
  "VariableList_checkBoolLengthAndValue var =
     (if var = None then PRIOT_ERR_GENERR
      else let rc = VariableList_checkTypeAndLength var (uint asnINTEGER) sizeof_long
           in if rc = PRIOT_ERR_NOERROR then VariableList_checkIntLengthAndRange var 1 2 else rc)"

definition VariableList_checkRowStatusLengthAndRange :: "variable option \<Rightarrow> int" where
  "VariableList_checkRowStatusLengthAndRange var =
     (case var of None \<Rightarrow> PRIOT_ERR_GENERR
      | Some v \<Rightarrow>
          let rc = VariableList_checkTypeAndLength var (uint asnINTEGER) sizeof_long;
              rc = (if rc = PRIOT_ERR_NOERROR \<and> sint (vl_integer v) = tcROW_STATUS_NOTREADY
                    then PRIOT_ERR_WRONGVALUE else rc)
          in if rc = PRIOT_ERR_NOERROR
             then VariableList_checkIntLengthAndRange var PRIOT_ROW_NONEXISTENT PRIOT_ROW_DESTROY else rc)"

definition VariableList_checkRowStatusTransition :: "variable option \<Rightarrow> int \<Rightarrow> int" where
  "VariableList_checkRowStatusTransition var oldValue =
     (case var of None \<Rightarrow> PRIOT_ERR_GENERR
      | Some v \<Rightarrow>
          let rc = VariableList_checkRowStatusLengthAndRange var
          in if rc = PRIOT_ERR_NOERROR
             then TextualConvention_checkRowStatusTransition oldValue (to_int (vl_integer v)) else rc)"

definition VariableList_checkRowStatusWithStorageType :: "variable option \<Rightarrow> int \<Rightarrow> int \<Rightarrow> int" where
  "VariableList_checkRowStatusWithStorageType var oldValue oldStorage =
     (case var of None \<Rightarrow> PRIOT_ERR_GENERR
      | Some v \<Rightarrow>
          let rc = VariableList_checkRowStatusLengthAndRange var
          in if rc = PRIOT_ERR_NOERROR
             then TextualConvention_checkRowStatusWithStorageTypeTransition oldValue (to_int (vl_integer v)) oldStorage
             else rc)"

definition VariableList_checkStorageType :: "variable option \<Rightarrow> int \<Rightarrow> int" where
  "VariableList_checkStorageType var old_value =
     (case var of None \<Rightarrow> PRIOT_ERR_GENERR
      | Some v \<Rightarrow>
          let rc = VariableList_checkTypeAndLength var (uint asnINTEGER) sizeof_long;
              rc = (if rc = PRIOT_ERR_NOERROR
                    then VariableList_checkIntLengthAndRange var PRIOT_STORAGE_NONE PRIOT_STORAGE_READONLY else rc)
          in if rc = PRIOT_ERR_NOERROR
             then TextualConvention_checkStorageTransition old_value (to_int (vl_integer v)) else rc)"

lemmas variable_checks =
  VariableList_checkType_def VariableList_checkLength_def VariableList_checkTypeAndLength_def
  VariableList_checkIntLengthAndRange_def VariableList_checkRowStatusLengthAndRange_def
  VariableList_checkRowStatusWithStorageType_def VariableList_checkStorageType_def

section \<open>What an accepted value is\<close>

text \<open>A \<open>long\<close> in the range of the textual conventions is the same as an \<open>int\<close>.\<close>

lemma to_int_small: "0 \<le> sint v \<Longrightarrow> sint v < 2 ^ 31 \<Longrightarrow> to_int v = sint v"
proof -
  assume v: "0 \<le> sint v" "sint v < 2 ^ 31"
  have "to_int v = signed_take_bit 31 (signed_take_bit 63 (uint v))"
    by (simp add: to_int_def signed_ucast_eq)
  also have "\<dots> = signed_take_bit 31 (sint v)"
    by (simp add: sint_uint)
  finally show ?thesis
    using v by (simp add: signed_take_bit_int_eq_self)
qed

lemma checkIntRange_accepts:
  "VariableList_checkIntLengthAndRange (Some v) lo hi = PRIOT_ERR_NOERROR \<longleftrightarrow>
    vl_type v = asnINTEGER \<and> vl_length v = sizeof_long \<and> lo \<le> sint (vl_integer v) \<and> sint (vl_integer v) \<le> hi"
  by (auto simp: variable_checks Let_def mode_defs word_uint_eq_iff)

lemma checkStorageType_accepts:
  "VariableList_checkStorageType (Some v) old = PRIOT_ERR_NOERROR \<longleftrightarrow>
    vl_type v = asnINTEGER \<and> vl_length v = sizeof_long \<and> sint (vl_integer v) \<in> tc_storage \<and>
    TextualConvention_checkStorageTransition old (sint (vl_integer v)) = PRIOT_ERR_NOERROR"
proof -
  have r: "sint (vl_integer v) \<in> tc_storage \<longleftrightarrow>
      PRIOT_STORAGE_NONE \<le> sint (vl_integer v) \<and> sint (vl_integer v) \<le> PRIOT_STORAGE_READONLY"
    by (auto simp: tc_storage_def tc_values)
  have "to_int (vl_integer v) = sint (vl_integer v)" if "sint (vl_integer v) \<in> tc_storage"
    using that by (intro to_int_small) (auto simp: tc_storage_def tc_values)
  then show ?thesis
    unfolding VariableList_checkStorageType_def
    using checkIntRange_accepts [of v PRIOT_STORAGE_NONE PRIOT_STORAGE_READONLY] r
    by (auto simp: VariableList_checkTypeAndLength_def VariableList_checkType_def VariableList_checkLength_def Let_def
        mode_defs word_uint_eq_iff)
qed

lemma checkRowStatus_accepts:
  assumes "VariableList_checkRowStatusWithStorageType (Some v) old st = PRIOT_ERR_NOERROR"
  shows "TextualConvention_checkRowStatusWithStorageTypeTransition old (to_int (vl_integer v)) st = PRIOT_ERR_NOERROR"
  using assms by (auto simp: VariableList_checkRowStatusWithStorageType_def Let_def split: if_splits)

section \<open>Rows under SETs\<close>

text \<open>
  A row of a table that guards its columns with the checks. A SET either passes the check and takes the
  row to a state the convention allows, or writes the storage type, or changes nothing; a row that does
  not exist has, when it is created, the storage type \<open>dflt\<close> that the table starts its rows with.
\<close>

record row =
  status :: row_state
  storage :: int

inductive row_set :: "int \<Rightarrow> row \<Rightarrow> row \<Rightarrow> bool" for dflt where
  set_status: "VariableList_checkRowStatusWithStorageType (Some v) (status_value (status r)) (storage r) = PRIOT_ERR_NOERROR \<Longrightarrow>
    to_int (vl_integer v) = action_value a \<Longrightarrow> s \<in> tc_next a (status r) \<Longrightarrow>
    row_set dflt r (r\<lparr>status := s, storage := (if status r = Absent then dflt else storage r)\<rparr>)"
| set_storage: "status r \<noteq> Absent \<Longrightarrow> VariableList_checkStorageType (Some v) (storage r) = PRIOT_ERR_NOERROR \<Longrightarrow>
    row_set dflt r (r\<lparr>storage := to_int (vl_integer v)\<rparr>)"

abbreviation row_sets :: "int \<Rightarrow> row \<Rightarrow> row \<Rightarrow> bool" where
  "row_sets dflt \<equiv> (row_set dflt)\<^sup>*\<^sup>*"

lemma row_set_fixed:
  assumes "row_set dflt r r'" "fixed_storage (storage r)" "status r \<noteq> Absent"
  shows "storage r' = storage r \<and> status r' \<noteq> Absent"
  using assms(1)
proof cases
  case (set_status v a s)
  have "a \<noteq> SetDestroy"
    using checkRowStatus_accepts [OF set_status(2)] set_status(3) destroy_refused [OF assms(2)] by (auto simp: tc_values)
  then have "s \<noteq> Absent"
    using set_status(4) next_absent by blast
  then show ?thesis
    using set_status(1) assms(3) by simp
next
  case (set_storage v)
  then show ?thesis
    using checkStorageType_accepts storage_fixed [OF assms(2)] by blast
qed

lemma row_sets_fixed:
  assumes "row_sets dflt r r'" "fixed_storage (storage r)" "status r \<noteq> Absent"
  shows "storage r' = storage r \<and> status r' \<noteq> Absent"
  using assms by (induction rule: rtranclp_induct) (auto dest: row_set_fixed)

lemma row_set_storage:
  assumes "row_set dflt r r'" "dflt \<in> tc_storage" "\<not> fixed_storage dflt" "storage r \<in> tc_storage"
  shows "storage r' \<in> tc_storage \<and> (fixed_storage (storage r') \<longrightarrow> fixed_storage (storage r))"
  using assms(1)
proof cases
  case (set_storage v)
  have "sint (vl_integer v) \<in> tc_storage"
    and t: "TextualConvention_checkStorageTransition (storage r) (sint (vl_integer v)) = PRIOT_ERR_NOERROR"
    using set_storage(3) checkStorageType_accepts by blast+
  moreover from this have "to_int (vl_integer v) = sint (vl_integer v)"
    by (intro to_int_small) (auto simp: tc_storage_def tc_values)
  ultimately show ?thesis
    using set_storage(1) storage_not_raised [OF assms(4) t] by simp
qed (use assms in auto)

lemma row_sets_storage:
  assumes "row_sets dflt r r'" "dflt \<in> tc_storage" "\<not> fixed_storage dflt" "storage r \<in> tc_storage"
  shows "storage r' \<in> tc_storage \<and> (fixed_storage (storage r') \<longrightarrow> fixed_storage (storage r))"
  using assms by (induction rule: rtranclp_induct) (auto dest: row_set_storage)

text \<open>
  C27: Over every sequence of SETs that the checks of a table accept, whatever the bindings hold: a row
  that exists with a permanent or read-only storage type keeps existing, with that type; the storage type
  stays one of the convention, and it is permanent or read-only at the end only if it was at the start,
  through deletions and new creations too, when the table creates its rows with another type.
\<close>

theorem row_storage_kept:
  assumes "row_sets dflt r r'" and "dflt \<in> tc_storage" "\<not> fixed_storage dflt" and "storage r \<in> tc_storage"
  shows "(status r \<noteq> Absent \<and> fixed_storage (storage r) \<longrightarrow> status r' \<noteq> Absent \<and> storage r' = storage r) \<and>
    storage r' \<in> tc_storage \<and> (fixed_storage (storage r') \<longrightarrow> fixed_storage (storage r))"
  using row_sets_fixed [OF assms(1)] row_sets_storage [OF assms] by blast

lemma row_example:
  "row_sets 3 \<lparr>status = Active, storage = 4\<rparr> \<lparr>status = NotInService, storage = 4\<rparr>"
  "row_sets 3 \<lparr>status = Active, storage = 3\<rparr> \<lparr>status = Active, storage = 2\<rparr>"
proof -
  let ?v = "\<lambda>n. \<lparr>vl_type = asnINTEGER, vl_length = 8, vl_integer = n\<rparr>"
  have "row_set 3 \<lparr>status = Active, storage = 4\<rparr> \<lparr>status = NotInService, storage = 4\<rparr>"
    using set_status [of "?v 2" "\<lparr>status = Active, storage = 4\<rparr>" SetNotInService NotInService 3]
    by (simp add: variable_checks TextualConvention_checkRowStatusWithStorageTypeTransition_def
        TextualConvention_checkRowStatusTransition_def to_int_def sizeof_long_def mode_defs tc_values)
  then show "row_sets 3 \<lparr>status = Active, storage = 4\<rparr> \<lparr>status = NotInService, storage = 4\<rparr>"
    by blast
  have "row_set 3 \<lparr>status = Active, storage = 3\<rparr> \<lparr>status = Active, storage = 2\<rparr>"
    using set_storage [of "\<lparr>status = Active, storage = 3\<rparr>" "?v 2" 3]
    by (simp add: variable_checks TextualConvention_checkStorageTransition_def to_int_def sizeof_long_def mode_defs tc_values)
  then show "row_sets 3 \<lparr>status = Active, storage = 3\<rparr> \<lparr>status = Active, storage = 2\<rparr>"
    by blast
qed

theorem row_storage_kept_witness:
  "row_sets 3 \<lparr>status = Active, storage = 4\<rparr> \<lparr>status = NotInService, storage = 4\<rparr> \<and>
    status \<lparr>status = NotInService, storage = 4\<rparr> \<noteq> Absent \<and> \<not> fixed_storage (storage \<lparr>status = Active, storage = 2\<rparr>)"
  using row_storage_kept [OF row_example(1)] row_storage_kept [OF row_example(2)] row_example(1)
  by (simp add: fixed_storage_def tc_storage_def tc_values)

end
