(* ===== verification/BinSort.thy ===== *)
theory BinSort
  imports PriotBase "HOL-Library.Multiset"
begin

text \<open>
  The in-place quick sort of the sorted containers
  (\<open>_ContainerBinaryArray_arrayQSort\<close> in src/Firmware/Core/System/Containers/ContainerBinaryArray.c)
  and the interface its callers give it: a three-way comparison. The indices are C ints that may
  step below the first and above the last one (\<open>lo\<close> and \<open>hi\<close> here), so they are integers; the array is a list.
\<close>

section \<open>The sort\<close>

definition at :: "'a list \<Rightarrow> int \<Rightarrow> 'a" where
  "at d k = d ! nat k"

definition swap_at :: "'a list \<Rightarrow> int \<Rightarrow> int \<Rightarrow> 'a list" where
  "swap_at d i j = d[nat i := at d j, nat j := at d i]"

function scan_up :: "('a \<Rightarrow> 'a \<Rightarrow> int) \<Rightarrow> 'a list \<Rightarrow> 'a \<Rightarrow> int \<Rightarrow> int \<Rightarrow> int" where
  "scan_up f d mid hi i = (if i < hi \<and> f (at d i) mid < 0 then scan_up f d mid hi (i + 1) else i)"
  by auto
termination by (relation "measure (\<lambda>(_, _, _, hi, i). nat (hi - i))") auto

function scan_down :: "('a \<Rightarrow> 'a \<Rightarrow> int) \<Rightarrow> 'a list \<Rightarrow> 'a \<Rightarrow> int \<Rightarrow> int \<Rightarrow> int" where
  "scan_down f d mid lo j = (if lo < j \<and> f mid (at d j) < 0 then scan_down f d mid lo (j - 1) else j)"
  by auto
termination by (relation "measure (\<lambda>(_, _, _, lo, j). nat (j - lo))") auto

declare scan_up.simps [simp del] scan_down.simps [simp del]

lemma scan_up_bounds: "i \<le> scan_up f d mid hi i \<and> (i \<le> hi \<longrightarrow> scan_up f d mid hi i \<le> hi)"
  by (induction f d mid hi i rule: scan_up.induct) (subst (1 2) scan_up.simps, auto)

lemma scan_down_bounds:
  "scan_down f d mid lo j \<le> j \<and> (lo \<le> j \<longrightarrow> lo \<le> scan_down f d mid lo j)"
  by (induction f d mid lo j rule: scan_down.induct) (subst (1 2) scan_down.simps, auto)

text \<open>The do-while loop: the array and the two indices it leaves.\<close>

function part_loop ::
    "('a \<Rightarrow> 'a \<Rightarrow> int) \<Rightarrow> 'a \<Rightarrow> int \<Rightarrow> int \<Rightarrow> 'a list \<Rightarrow> int \<Rightarrow> int \<Rightarrow> 'a list \<times> int \<times> int" where
  "part_loop f mid lo hi d i j =
     (let i1 = scan_up f d mid hi i; j1 = scan_down f d mid lo j
      in if i1 < j1
         then (if i1 + 1 \<le> j1 - 1
               then part_loop f mid lo hi (swap_at d i1 j1) (i1 + 1) (j1 - 1)
               else (swap_at d i1 j1, i1 + 1, j1 - 1))
         else if i1 = j1 then (d, i1 + 1, j1 - 1)
         else (d, i1, j1))"
  by auto
termination
proof (relation "measure (\<lambda>(_, _, _, _, _, i, j). nat (j - i + 1))", goal_cases)
  case (2 f mid lo hi d i j i1 j1)
  then show ?case
    using scan_up_bounds [of i f d mid hi] scan_down_bounds [of f d mid lo j] by auto
qed simp

declare part_loop.simps [simp del]

lemma part_loop_empty: "hi < lo \<Longrightarrow> part_loop f mid lo hi d lo hi = (d, lo, hi)"
  using scan_up_bounds [of lo f d mid hi] scan_down_bounds [of f d mid lo hi]
  by (simp add: part_loop.simps [of f mid lo hi d lo hi] scan_up.simps [of f d mid hi lo]
      scan_down.simps [of f d mid lo hi] Let_def)

lemma part_loop_bounds:
  assumes "part_loop f mid lo hi d i j = (d', i', j')" and "lo \<le> i" and "i \<le> hi" and "lo \<le> j" and "j \<le> hi"
  shows "i \<le> i'" and "j' \<le> j" and "j' < hi" and "lo < i'" and "lo - 1 \<le> j'"
proof -
  have "i \<le> i' \<and> j' \<le> j \<and> j' < hi \<and> lo < i' \<and> lo - 1 \<le> j'"
    using assms
  proof (induction f mid lo hi d i j rule: part_loop.induct)
    case (1 f mid lo hi d i j)
    let ?i = "scan_up f d mid hi i" and ?j = "scan_down f d mid lo j"
    note B = scan_up_bounds [of i f d mid hi] scan_down_bounds [of f d mid lo j]
    show ?case
    proof (cases "?i < ?j \<and> ?i + 1 \<le> ?j - 1")
      case True
      have "?i + 1 \<le> i' \<and> j' \<le> ?j - 1 \<and> j' < hi \<and> lo < i' \<and> lo - 1 \<le> j'"
        by (rule "1.IH" [OF refl refl])
          (use True B "1.prems" in \<open>auto simp: part_loop.simps [of f mid lo hi d i j] Let_def\<close>)
      then show ?thesis
        using B by auto
    next
      case False
      then show ?thesis
        using "1.prems" B by (auto simp: part_loop.simps [of f mid lo hi d i j] Let_def split: if_splits)
    qed
  qed
  then show "i \<le> i'" "j' \<le> j" "j' < hi" "lo < i'" "lo - 1 \<le> j'"
    by simp_all
qed

function arrayQSort :: "('a \<Rightarrow> 'a \<Rightarrow> int) \<Rightarrow> int \<Rightarrow> int \<Rightarrow> 'a list \<Rightarrow> 'a list" where
  "arrayQSort f lo hi d =
     (let (d1, i, j) = part_loop f (at d ((lo + hi) div 2)) lo hi d lo hi;
          d2 = (if lo < j then arrayQSort f lo j d1 else d1)
      in if i < hi then arrayQSort f i hi d2 else d2)"
  by pat_completeness auto
termination
proof (relation "measure (\<lambda>(_, lo, hi, _). nat (hi - lo))", goal_cases)
  case (2 f lo hi d x d1 y i j)
  then show ?case
    using part_loop_bounds [of f _ lo hi d lo hi d1 i j] part_loop_empty [of hi lo f _ d]
    by (cases "lo \<le> hi") fastforce+
next
  case (3 f lo hi d x d1 y i j d2)
  then show ?case
    using part_loop_bounds [of f _ lo hi d lo hi d1 i j] part_loop_empty [of hi lo f _ d]
    by (cases "lo \<le> hi") fastforce+
qed simp

declare arrayQSort.simps [simp del]

section \<open>Permutations of a segment\<close>

definition perm_in :: "int \<Rightarrow> int \<Rightarrow> 'a list \<Rightarrow> 'a list \<Rightarrow> bool" where
  "perm_in lo hi d d' \<longleftrightarrow> mset d' = mset d \<and>
     (\<forall>k. 0 \<le> k \<and> (k < lo \<or> hi < k) \<longrightarrow> at d' k = at d k) \<and>
     (\<forall>k. lo \<le> k \<and> k \<le> hi \<longrightarrow> (\<exists>m. lo \<le> m \<and> m \<le> hi \<and> at d' k = at d m))"

lemma perm_inD:
  assumes "perm_in lo hi d d'"
  shows "mset d' = mset d" and "length d' = length d"
    and "0 \<le> k \<Longrightarrow> k < lo \<or> hi < k \<Longrightarrow> at d' k = at d k"
    and "lo \<le> k \<Longrightarrow> k \<le> hi \<Longrightarrow> \<exists>m. lo \<le> m \<and> m \<le> hi \<and> at d' k = at d m"
  using assms by (auto simp: perm_in_def dest: mset_eq_length)

lemma perm_in_refl [simp]: "perm_in lo hi d d"
  by (auto simp: perm_in_def)

lemma perm_in_trans: "perm_in lo hi d d' \<Longrightarrow> perm_in lo hi d' d'' \<Longrightarrow> perm_in lo hi d d''"
  unfolding perm_in_def by metis

lemma perm_in_mono:
  assumes "perm_in lo hi d d'" and "0 \<le> lo'" and "lo' \<le> lo" and "hi \<le> hi'"
  shows "perm_in lo' hi' d d'"
proof -
  have "\<exists>m. lo' \<le> m \<and> m \<le> hi' \<and> at d' k = at d m" if "lo' \<le> k" "k \<le> hi'" for k
  proof (cases "lo \<le> k \<and> k \<le> hi")
    case True
    then show ?thesis
      using perm_inD(4) [OF assms(1), of k] assms(3,4) by (meson order_trans)
  next
    case False
    then have "at d' k = at d k"
      using perm_inD(3) [OF assms(1), of k] that assms(2) by force
    with that show ?thesis by blast
  qed
  then show ?thesis
    using assms unfolding perm_in_def by auto
qed

lemma at_swap:
  assumes "0 \<le> i" and "i < int (length d)" and "0 \<le> j" and "j < int (length d)" and "0 \<le> k"
  shows "at (swap_at d i j) k = (if k = j then at d i else if k = i then at d j else at d k)"
  using assms by (auto simp: at_def swap_at_def nth_list_update nat_eq_iff)

lemma swap_perm_in:
  assumes "0 \<le> lo" and "hi < int (length d)" and "lo \<le> i" and "i \<le> hi" and "lo \<le> j" and "j \<le> hi"
  shows "perm_in lo hi d (swap_at d i j)"
proof -
  have "mset (swap_at d i j) = mset d"
    using assms mset_swap [of "nat j" d "nat i"] by (simp add: swap_at_def at_def nat_less_iff)
  moreover have "\<exists>m. lo \<le> m \<and> m \<le> hi \<and> at (swap_at d i j) k = at d m" if "lo \<le> k" "k \<le> hi" for k
    using assms that by (auto simp: at_swap)
  ultimately show ?thesis
    using assms by (auto simp: perm_in_def at_swap)
qed

lemma part_loop_perm:
  assumes "part_loop f mid lo hi d i j = (d', i', j')" and "0 \<le> lo" and "hi < int (length d)"
    and "lo \<le> i" and "i \<le> hi" and "lo \<le> j" and "j \<le> hi"
  shows "perm_in lo hi d d'"
  using assms
proof (induction f mid lo hi d i j rule: part_loop.induct)
  case (1 f mid lo hi d i j)
  let ?i = "scan_up f d mid hi i" and ?j = "scan_down f d mid lo j"
  have B: "i \<le> ?i" "?i \<le> hi" "?j \<le> j" "lo \<le> ?j"
    using scan_up_bounds [of i f d mid hi] scan_down_bounds [of f d mid lo j] "1.prems" by simp_all
  have S: "perm_in lo hi d (swap_at d ?i ?j)"
    using B "1.prems" by (intro swap_perm_in) auto
  show ?case
  proof (cases "?i < ?j \<and> ?i + 1 \<le> ?j - 1")
    case True
    have "perm_in lo hi (swap_at d ?i ?j) d'"
      by (rule "1.IH" [OF refl refl]) (use True B "1.prems" perm_inD(2) [OF S] in
          \<open>auto simp: part_loop.simps [of f mid lo hi d i j] Let_def\<close>)
    with S show ?thesis by (rule perm_in_trans)
  next
    case False
    then show ?thesis
      using S "1.prems"(1) by (auto simp: part_loop.simps [of f mid lo hi d i j] Let_def split: if_splits)
  qed
qed

lemma arrayQSort_perm:
  assumes "0 \<le> lo" and "lo \<le> hi" and "hi < int (length d)"
  shows "perm_in lo hi d (arrayQSort f lo hi d)"
  using assms
proof (induction f lo hi d rule: arrayQSort.induct)
  case (1 f lo hi d)
  obtain d1 i j where P: "part_loop f (at d ((lo + hi) div 2)) lo hi d lo hi = (d1, i, j)"
    by (cases "part_loop f (at d ((lo + hi) div 2)) lo hi d lo hi") auto
  note B = part_loop_bounds [OF P]
  have p1: "perm_in lo hi d d1"
    using part_loop_perm [OF P] "1.prems" by simp
  define d2 where "d2 = (if lo < j then arrayQSort f lo j d1 else d1)"
  have "perm_in lo j d1 (arrayQSort f lo j d1)" if "lo < j"
    by (rule "1.IH"(1) [OF P [symmetric] refl refl that])
      (use that "1.prems" B perm_inD(2) [OF p1] in auto)
  then have p2: "perm_in lo hi d1 d2"
    using perm_in_mono [of lo j d1 "arrayQSort f lo j d1" lo hi] "1.prems" B by (simp add: d2_def)
  have "perm_in i hi d2 (arrayQSort f i hi d2)" if "i < hi"
    by (rule "1.IH"(2) [OF P [symmetric] refl refl d2_def that])
      (use that "1.prems" B perm_inD(2) [OF p1] perm_inD(2) [OF p2] in auto)
  then have "perm_in lo hi d2 (if i < hi then arrayQSort f i hi d2 else d2)"
    using perm_in_mono [of i hi d2 "arrayQSort f i hi d2" lo hi] "1.prems" B by simp
  moreover have "arrayQSort f lo hi d = (if i < hi then arrayQSort f i hi d2 else d2)"
    by (simp add: arrayQSort.simps [of f lo hi d] P d2_def)
  ultimately show ?case
    using perm_in_trans [OF perm_in_trans [OF p1 p2]] by simp
qed

text \<open>What the scans pass over, and where they stop.\<close>

lemma scan_up_less: "i \<le> k \<Longrightarrow> k < scan_up f d mid hi i \<Longrightarrow> f (at d k) mid < 0"
proof (induction f d mid hi i rule: scan_up.induct)
  case (1 f d mid hi i)
  then show ?case
    by (cases "k = i") (auto simp: scan_up.simps [of f d mid hi i] split: if_splits)
qed

lemma scan_down_less: "k \<le> j \<Longrightarrow> scan_down f d mid lo j < k \<Longrightarrow> f mid (at d k) < 0"
proof (induction f d mid lo j rule: scan_down.induct)
  case (1 f d mid lo j)
  then show ?case
    by (cases "k = j") (auto simp: scan_down.simps [of f d mid lo j] split: if_splits)
qed

lemma scan_up_stop: "scan_up f d mid hi i < hi \<Longrightarrow> \<not> f (at d (scan_up f d mid hi i)) mid < 0"
proof (induction f d mid hi i rule: scan_up.induct)
  case (1 f d mid hi i)
  then show ?case
    by (cases "i < hi \<and> f (at d i) mid < 0") (auto simp: scan_up.simps [of f d mid hi i])
qed

lemma scan_down_stop: "lo < scan_down f d mid lo j \<Longrightarrow> \<not> f mid (at d (scan_down f d mid lo j)) < 0"
proof (induction f d mid lo j rule: scan_down.induct)
  case (1 f d mid lo j)
  then show ?case
    by (cases "lo < j \<and> f mid (at d j) < 0") (auto simp: scan_down.simps [of f d mid lo j])
qed

lemma find_append: "\<forall>x \<in> set xs. \<not> P x \<Longrightarrow> find P (xs @ ys) = find P ys"
  by (induction xs) auto

section \<open>Comparisons\<close>

text \<open>
  What the containers require of the comparison function they are given: a negative, zero or
  positive answer that orders the keys. Two elements with answer zero have equal keys.
\<close>

locale total_compare =
  fixes cmp :: "'a \<Rightarrow> 'a \<Rightarrow> int"
  assumes cmp_flip: "cmp x y < 0 \<longleftrightarrow> 0 < cmp y x"
    and cmp_trans: "cmp x y \<le> 0 \<Longrightarrow> cmp y z \<le> 0 \<Longrightarrow> cmp x z \<le> 0"
begin

definition le :: "'a \<Rightarrow> 'a \<Rightarrow> bool" where
  "le x y \<longleftrightarrow> cmp x y \<le> 0"

lemma le_refl [simp]: "le x x"
  using cmp_flip [of x x] by (auto simp: le_def not_less)

lemma le_trans: "le x y \<Longrightarrow> le y z \<Longrightarrow> le x z"
  by (auto simp: le_def intro: cmp_trans)

lemma not_le: "\<not> le x y \<longleftrightarrow> cmp y x < 0"
  using cmp_flip [of y x] by (auto simp: le_def)

lemma le_linear: "le x y \<or> le y x"
  using not_le [of x y] by (auto simp: le_def)

lemma cmp_zero_sym: "cmp x y = 0 \<longleftrightarrow> cmp y x = 0"
  using cmp_flip [of x y] cmp_flip [of y x] by (smt (verit))

lemma cmp_less_le_trans: "cmp x y < 0 \<Longrightarrow> le y z \<Longrightarrow> cmp x z < 0"
  using le_trans not_le by blast

lemma le_cmp_less_trans: "le x y \<Longrightarrow> cmp y z < 0 \<Longrightarrow> cmp x z < 0"
  using le_trans not_le by blast

definition ordered_in :: "int \<Rightarrow> int \<Rightarrow> 'a list \<Rightarrow> bool" where
  "ordered_in lo hi d \<longleftrightarrow> (\<forall>k m. lo \<le> k \<and> k \<le> m \<and> m \<le> hi \<longrightarrow> le (at d k) (at d m))"

text \<open>An element not below the pivot ahead of the scan: the scan ends at such an element.\<close>

lemma scan_up_end:
  assumes "i \<le> k" and "k \<le> hi" and "le mid (at d k)"
  shows "le mid (at d (scan_up cmp d mid hi i))" and "scan_up cmp d mid hi i \<le> k"
proof -
  show *: "scan_up cmp d mid hi i \<le> k"
    using scan_up_less [OF assms(1)] assms(3) not_le by (meson not_less)
  show "le mid (at d (scan_up cmp d mid hi i))"
    using * assms scan_up_stop [of cmp d mid hi i] not_le by (cases "scan_up cmp d mid hi i = hi") auto
qed

lemma scan_down_end:
  assumes "k \<le> j" and "lo \<le> k" and "le (at d k) mid"
  shows "le (at d (scan_down cmp d mid lo j)) mid" and "k \<le> scan_down cmp d mid lo j"
proof -
  show *: "k \<le> scan_down cmp d mid lo j"
    using scan_down_less [OF assms(1)] assms(3) not_le by (meson not_less)
  show "le (at d (scan_down cmp d mid lo j)) mid"
    using * assms scan_down_stop [of lo cmp d mid j] not_le by (cases "scan_down cmp d mid lo j = lo") auto
qed

definition below :: "int \<Rightarrow> int \<Rightarrow> 'a \<Rightarrow> 'a list \<Rightarrow> bool" where
  "below lo i mid d \<longleftrightarrow> (\<forall>k. lo \<le> k \<and> k < i \<longrightarrow> le (at d k) mid)"

definition above :: "int \<Rightarrow> int \<Rightarrow> 'a \<Rightarrow> 'a list \<Rightarrow> bool" where
  "above j hi mid d \<longleftrightarrow> (\<forall>k. j < k \<and> k \<le> hi \<longrightarrow> le mid (at d k))"

lemma belowD: "below lo i mid d \<Longrightarrow> lo \<le> k \<Longrightarrow> k < i \<Longrightarrow> le (at d k) mid"
  by (simp add: below_def)

lemma aboveD: "above j hi mid d \<Longrightarrow> j < k \<Longrightarrow> k \<le> hi \<Longrightarrow> le mid (at d k)"
  by (simp add: above_def)

lemma below_step: "below lo i mid d \<Longrightarrow> le (at d i) mid \<Longrightarrow> below lo (i + 1) mid d"
  unfolding below_def by (metis zless_add1_eq)

lemma above_step: "above j hi mid d \<Longrightarrow> le mid (at d j) \<Longrightarrow> above (j - 1) hi mid d"
  unfolding above_def by (metis diff_add_cancel zless_add1_eq order_le_less zle_diff1_eq not_less)

lemma below_scan: "below lo i mid d \<Longrightarrow> below lo (scan_up cmp d mid hi i) mid d"
  using scan_up_less [where f = cmp] unfolding below_def le_def
  by (metis linorder_not_le order_less_imp_le)

lemma above_scan: "above j hi mid d \<Longrightarrow> above (scan_down cmp d mid lo j) hi mid d"
  using scan_down_less [where f = cmp] unfolding above_def le_def
  by (metis linorder_not_le order_less_imp_le)

text \<open>
  A pass of the loop keeps the elements left of \<open>i\<close> at most the pivot and those right of \<open>j\<close> at
  least it; an element on each side stops the scans, so that their bounds are never what ends them.
\<close>

lemma part_loop_split:
  assumes "part_loop cmp mid lo hi d i j = (d', i', j')" and "0 \<le> lo" and "hi < int (length d)"
    and "lo \<le> i" and "i \<le> j" and "j \<le> hi"
    and "below lo i mid d" and "above j hi mid d"
    and "\<exists>k. i \<le> k \<and> k \<le> hi \<and> le mid (at d k)" and "\<exists>k. lo \<le> k \<and> k \<le> j \<and> le (at d k) mid"
  shows "j' < i' \<and> below lo i' mid d' \<and> above j' hi mid d'"
  using assms
proof (induction "nat (j - i)" arbitrary: d i j rule: less_induct)
  case (less i j d)
  let ?i = "scan_up cmp d mid hi i" and ?j = "scan_down cmp d mid lo j"
  let ?d = "swap_at d ?i ?j"
  note P = less.prems(1) and bounds = less.prems(2-6)
  obtain k m where k: "i \<le> k" "k \<le> hi" "le mid (at d k)" and m: "m \<le> j" "lo \<le> m" "le (at d m) mid"
    using less.prems(9,10) by blast
  have U: "le mid (at d ?i)" and D: "le (at d ?j) mid"
    using scan_up_end(1) [OF k] scan_down_end(1) [OF m] by simp_all
  have bi: "i \<le> ?i" "?i \<le> hi" and bj: "?j \<le> j" "lo \<le> ?j"
    using scan_up_bounds [of i cmp d mid hi] scan_down_bounds [of cmp d mid lo j] bounds by simp_all
  have L: "below lo ?i mid d" and R: "above ?j hi mid d"
    using below_scan [OF less.prems(7)] above_scan [OF less.prems(8)] by simp_all
  show ?case
  proof (cases "?i < ?j")
    case True
    have at: "at ?d n = (if n = ?j then at d ?i else if n = ?i then at d ?j else at d n)" if "0 \<le> n" for n
      using that bounds bi bj by (intro at_swap) auto
    have L': "below lo (?i + 1) mid ?d"
      using belowD [OF L] D bounds(1) True by (auto simp: below_def at)
    have R': "above (?j - 1) hi mid ?d"
      using aboveD [OF R] U bounds(1) bj True by (auto simp: above_def at)
    show ?thesis
    proof (cases "?i + 1 \<le> ?j - 1")
      case again: True
      show ?thesis
      proof (rule less.hyps [OF _ _ _ _ _ _ _ L' R'])
        show "part_loop cmp mid lo hi ?d (?i + 1) (?j - 1) = (d', i', j')"
          using P True again by (simp add: part_loop.simps [of cmp mid lo hi d i j] Let_def)
        show "\<exists>n. ?i + 1 \<le> n \<and> n \<le> hi \<and> le mid (at ?d n)"
          using U True bj bounds by (intro exI [of _ ?j]) (simp add: at)
        show "\<exists>n. lo \<le> n \<and> n \<le> ?j - 1 \<and> le (at ?d n) mid"
          using D True bi bounds by (intro exI [of _ ?i]) (simp add: at)
      qed (use bi bj bounds True again in \<open>simp_all add: swap_at_def\<close>)
    next
      case False
      then have "(d', i', j') = (?d, ?i + 1, ?j - 1)"
        using P True by (simp add: part_loop.simps [of cmp mid lo hi d i j] Let_def)
      then show ?thesis
        using L' R' False by auto
    qed
  next
    case False
    show ?thesis
    proof (cases "?i = ?j")
      case True
      then have "(d', i', j') = (d, ?i + 1, ?j - 1)"
        using P by (auto simp: part_loop.simps [of cmp mid lo hi d i j] Let_def)
      moreover have "below lo (?i + 1) mid d" "above (?j - 1) hi mid d"
        using below_step [OF L] above_step [OF R] U D True by simp_all
      ultimately show ?thesis
        using True by simp
    next
      case neq: False
      then have "(d', i', j') = (d, ?i, ?j)"
        using P False neq by (auto simp: part_loop.simps [of cmp mid lo hi d i j] Let_def)
      then show ?thesis
        using L R False neq by auto
    qed
  qed
qed

lemma part_loop_pivot:
  assumes "part_loop cmp (at d ((lo + hi) div 2)) lo hi d lo hi = (d', i', j')" and "0 \<le> lo" and "lo \<le> hi"
    and "hi < int (length d)"
  shows "j' < i' \<and> below lo i' (at d ((lo + hi) div 2)) d' \<and> above j' hi (at d ((lo + hi) div 2)) d'"
proof -
  have "lo \<le> (lo + hi) div 2" "(lo + hi) div 2 \<le> hi"
    using assms(3) by auto
  then show ?thesis
    using assms by (intro part_loop_split [OF assms(1)])
      (auto simp: below_def above_def intro: exI [of _ "(lo + hi) div 2"])
qed

lemma below_perm:
  assumes "below lo i mid d" and "perm_in lo hi d d'" and "hi < i" and "0 \<le> lo"
  shows "below lo i mid d'"
  unfolding below_def
proof (intro allI impI)
  fix k
  assume k: "lo \<le> k \<and> k < i"
  show "le (at d' k) mid"
  proof (cases "k \<le> hi")
    case True
    then obtain m where "lo \<le> m" "m \<le> hi" "at d' k = at d m"
      using perm_inD(4) [OF assms(2)] k by blast
    then show ?thesis
      using belowD [OF assms(1), of m] assms(3) by simp
  next
    case False
    then show ?thesis
      using perm_inD(3) [OF assms(2), of k] belowD [OF assms(1)] k assms(4) by simp
  qed
qed

lemma above_perm:
  assumes "above j hi mid d" and "perm_in lo hi d d'" and "j < lo" and "0 \<le> j + 1"
  shows "above j hi mid d'"
  unfolding above_def
proof (intro allI impI)
  fix k
  assume k: "j < k \<and> k \<le> hi"
  show "le mid (at d' k)"
  proof (cases "lo \<le> k")
    case True
    then obtain m where "lo \<le> m" "m \<le> hi" "at d' k = at d m"
      using perm_inD(4) [OF assms(2)] k by blast
    then show ?thesis
      using aboveD [OF assms(1), of m] assms(3) by simp
  next
    case False
    then show ?thesis
      using perm_inD(3) [OF assms(2), of k] aboveD [OF assms(1)] k assms(4) by simp
  qed
qed

lemma arrayQSort_ordered:
  assumes "0 \<le> lo" and "lo \<le> hi" and "hi < int (length d)"
  shows "ordered_in lo hi (arrayQSort cmp lo hi d)"
  using assms
proof (induction "nat (hi - lo)" arbitrary: lo hi d rule: less_induct)
  case (less lo hi d)
  let ?mid = "at d ((lo + hi) div 2)"
  obtain d1 i j where P: "part_loop cmp ?mid lo hi d lo hi = (d1, i, j)"
    by (cases "part_loop cmp ?mid lo hi d lo hi") auto
  define d2 where "d2 = (if lo < j then arrayQSort cmp lo j d1 else d1)"
  define d3 where "d3 = (if i < hi then arrayQSort cmp i hi d2 else d2)"
  note bounds = less.prems
  have B: "j < hi" "lo < i" "lo - 1 \<le> j"
    using part_loop_bounds [OF P] bounds by simp_all
  have split: "j < i" "below lo i ?mid d1" "above j hi ?mid d1"
    using part_loop_pivot [OF P bounds] by simp_all
  have len1: "length d1 = length d"
    using part_loop_perm [OF P] bounds perm_inD(2) by blast
  have p2: "perm_in lo j d1 d2"
    using bounds B len1 by (simp add: d2_def arrayQSort_perm)
  have o2: "ordered_in lo j d2"
  proof (cases "lo < j")
    case True
    then show ?thesis
      using less.hyps [of j lo d1] bounds B len1 by (simp add: d2_def)
  next
    case False
    then have "lo \<le> k \<and> k \<le> m \<and> m \<le> j \<Longrightarrow> k = m" for k m
      by auto
    then show ?thesis
      unfolding ordered_in_def using le_refl by metis
  qed
  have b2: "below lo i ?mid d2"
    using below_perm [OF split(2) p2 split(1)] bounds by simp
  have a2: "above j hi ?mid d2"
    using perm_inD(3) [OF p2] aboveD [OF split(3)] bounds B(3) by (auto simp: above_def)
  have len2: "length d2 = length d"
    using perm_inD(2) [OF p2] len1 by simp
  have p3: "perm_in i hi d2 d3"
    using bounds B len2 by (simp add: d3_def arrayQSort_perm)
  have o3: "ordered_in i hi d3"
  proof (cases "i < hi")
    case True
    then show ?thesis
      using less.hyps [of hi i d2] bounds B len2 by (simp add: d3_def)
  next
    case False
    then have "i \<le> k \<and> k \<le> m \<and> m \<le> hi \<Longrightarrow> k = m" for k m
      by auto
    then show ?thesis
      unfolding ordered_in_def using le_refl by metis
  qed
  have old: "at d3 k = at d2 k" if "lo \<le> k" "k < i" for k
    using perm_inD(3) [OF p3, of k] that bounds by simp
  have b3: "below lo i ?mid d3"
    using belowD [OF b2] old by (simp add: below_def)
  have a3: "above j hi ?mid d3"
    using above_perm [OF a2 p3 split(1)] B(3) bounds by simp
  have "le (at d3 k) (at d3 m)" if "lo \<le> k" "k \<le> m" "m \<le> hi" for k m
  proof (cases "k < i \<and> j < m")
    case True
    then show ?thesis
      using le_trans belowD [OF b3] aboveD [OF a3] that by blast
  next
    case False
    then show ?thesis
      using o2 o3 old that split(1) unfolding ordered_in_def by (smt (verit))
  qed
  moreover have "arrayQSort cmp lo hi d = d3"
    by (simp add: arrayQSort.simps [of cmp lo hi d] P d2_def d3_def)
  ultimately show ?case
    by (simp add: ordered_in_def)
qed

lemma arrayQSort_sorted:
  assumes "1 < length d"
  shows "sorted_wrt le (arrayQSort cmp 0 (int (length d) - 1) d)"
    and "mset (arrayQSort cmp 0 (int (length d) - 1) d) = mset d"
proof -
  let ?s = "arrayQSort cmp 0 (int (length d) - 1) d"
  have b: "0 \<le> int (length d) - 1"
    using assms by linarith
  have P: "perm_in 0 (int (length d) - 1) d ?s"
    using b by (intro arrayQSort_perm) simp_all
  then show "mset ?s = mset d"
    by (rule perm_inD(1))
  have O: "ordered_in 0 (int (length d) - 1) ?s"
    using b by (intro arrayQSort_ordered) simp_all
  have "le (?s ! m) (?s ! n)" if "m < n" "n < length ?s" for m n
    using O that perm_inD(2) [OF P] unfolding ordered_in_def at_def
    by (metis nat_int of_nat_0_le_iff of_nat_less_iff less_imp_le of_nat_le_iff zle_diff1_eq)
  then show "sorted_wrt le ?s"
    by (simp add: sorted_wrt_iff_nth_less)
qed

end

end
