(* ===== verification/BinArray.thy ===== *)
theory BinArray
  imports BinSort
begin

text \<open>
  The sorted array container (src/Firmware/Core/System/Containers/ContainerBinaryArray.c): a table
  that is sorted when it is next searched. \<open>contents\<close> holds the \<open>count\<close> live entries of the table; an
  entry is a pointer whose key the comparison \<open>cmp\<close> reads, and keys do not change while an entry
  is stored. An index of -1 is \<open>None\<close>, a NULL result too. Allocation is a parameter.
\<close>

definition CONTAINER_KEY_ALLOW_DUPLICATES :: u32 where "CONTAINER_KEY_ALLOW_DUPLICATES = 1"
definition CONTAINER_KEY_UNSORTED :: u32 where "CONTAINER_KEY_UNSORTED = 2"

record 'a binarray =
  contents :: "'a list"
  max_size :: nat
  dirty :: bool
  flags :: u32
  sync :: u64

definition has_flag :: "u32 \<Rightarrow> 'a binarray \<Rightarrow> bool" where
  "has_flag f c \<longleftrightarrow> flags c AND f \<noteq> 0"

section \<open>Searching\<close>

definition sortArray :: "('a \<Rightarrow> 'a \<Rightarrow> int) \<Rightarrow> 'a binarray \<Rightarrow> 'a binarray" where
  "sortArray cmp c =
     (if has_flag CONTAINER_KEY_UNSORTED c then c
      else if dirty c
      then c\<lparr>contents := if 1 < length (contents c)
               then arrayQSort cmp 0 (int (length (contents c)) - 1) (contents c) else contents c,
             dirty := False, sync := sync c + 1\<rparr>
      else c)"

fun linear_loop :: "('a \<Rightarrow> 'a \<Rightarrow> int) \<Rightarrow> 'a \<Rightarrow> 'a list \<Rightarrow> nat \<Rightarrow> nat" where
  "linear_loop cmp val [] pos = pos"
| "linear_loop cmp val (x # xs) pos = (if cmp x val = 0 then pos else linear_loop cmp val xs (pos + 1))"

definition linearSearch :: "('a \<Rightarrow> 'a \<Rightarrow> int) \<Rightarrow> 'a \<Rightarrow> 'a binarray \<Rightarrow> nat option" where
  "linearSearch cmp val c =
     (if contents c = [] then None
      else if \<not> has_flag CONTAINER_KEY_UNSORTED c then None
      else let pos = linear_loop cmp val (contents c) 0
           in if length (contents c) \<le> pos then None else Some pos)"

function search_loop ::
    "('a \<Rightarrow> 'a \<Rightarrow> int) \<Rightarrow> 'a \<Rightarrow> 'a list \<Rightarrow> nat \<Rightarrow> nat \<Rightarrow> nat \<Rightarrow> int \<Rightarrow> nat \<times> nat \<times> int" where
  "search_loop cmp val d len first mid r =
     (if len = 0 then (first, mid, r)
      else let half = len div 2; mid' = first + half; r' = cmp (d ! mid') val
           in if r' < 0 then search_loop cmp val d (len - half - 1) (mid' + 1) mid' r'
              else if r' = 0 then (mid', mid', r')
              else search_loop cmp val d half first mid' r')"
  by auto
termination by (relation "measure (\<lambda>(_, _, _, len, _). len)") auto

declare search_loop.simps [simp del]

definition binarySearch ::
    "('a \<Rightarrow> 'a \<Rightarrow> int) \<Rightarrow> 'a \<Rightarrow> 'a binarray \<Rightarrow> bool \<Rightarrow> 'a binarray \<times> nat option" where
  "binarySearch cmp val c exact =
     (if contents c = [] then (c, None)
      else if has_flag CONTAINER_KEY_UNSORTED c
      then (c, if exact then linearSearch cmp val c else None)
      else let c1 = (if dirty c then sortArray cmp c else c);
               n = length (contents c1);
               (first, mid, r) = search_loop cmp val (contents c1) n 0 0 0
           in if n \<le> first then (c1, None)
              else let r' = (if first \<noteq> mid then cmp (contents c1 ! first) val else r)
                   in if r' = 0
                      then (c1, if exact then Some first else if first + 1 = n then None else Some (first + 1))
                      else (c1, if exact then None else Some first))"

fun skip_duplicates :: "('a \<Rightarrow> 'a \<Rightarrow> int) \<Rightarrow> 'a \<Rightarrow> 'a list \<Rightarrow> 'a option" where
  "skip_duplicates cmp key [] = None"
| "skip_duplicates cmp key (x # xs) = (if cmp x key = 0 then skip_duplicates cmp key xs else Some x)"

definition get2 ::
    "('a \<Rightarrow> 'a \<Rightarrow> int) \<Rightarrow> 'a binarray \<Rightarrow> 'a option \<Rightarrow> bool \<Rightarrow> 'a binarray \<times> 'a option" where
  "get2 cmp c key exact =
     (if contents c = [] then (c, None)
      else let c1 = (if dirty c then sortArray cmp c else c)
           in case key of
                None \<Rightarrow> (c1, Some (contents c1 ! 0))
              | Some k \<Rightarrow>
                  (case binarySearch cmp k c1 exact of
                     (c2, None) \<Rightarrow> (c2, None)
                   | (c2, Some i) \<Rightarrow>
                       (c2, if \<not> exact \<and> has_flag CONTAINER_KEY_ALLOW_DUPLICATES c2
                            then skip_duplicates cmp k (drop i (contents c2))
                            else Some (contents c2 ! i))))"

section \<open>Changing the table\<close>

definition ContainerBinaryArray_optionsSet :: "'a binarray \<Rightarrow> bool \<Rightarrow> u32 \<Rightarrow> 'a binarray \<times> u32" where
  "ContainerBinaryArray_optionsSet c setting flgs =
     (let BA_FLAGS = CONTAINER_KEY_ALLOW_DUPLICATES OR CONTAINER_KEY_UNSORTED
      in if setting then (if flgs AND BA_FLAGS = flgs then (c\<lparr>flags := flgs\<rparr>, flgs) else (c, - 1))
         else (c, if flags c AND flgs = flgs then 1 else 0))"

text \<open>The entry taken out. Past the live entries the shift would copy a negative size.\<close>

definition ContainerBinaryArray_removeAt :: "'a binarray \<Rightarrow> nat \<Rightarrow> ('a binarray \<times> 'a option) outcome" where
  "ContainerBinaryArray_removeAt c index =
     (if contents c = [] then Ret (c, None)
      else if length (contents c) \<le> index then Crash
      else Ret (c\<lparr>contents := take index (contents c) @ drop (index + 1) (contents c),
                  sync := if index \<noteq> length (contents c) - 1 then sync c + 1 else sync c\<rparr>,
                Some (contents c ! index)))"

definition ContainerBinaryArray_remove ::
    "('a \<Rightarrow> 'a \<Rightarrow> int) \<Rightarrow> 'a binarray \<Rightarrow> 'a \<Rightarrow> ('a binarray \<times> int \<times> 'a option) outcome" where
  "ContainerBinaryArray_remove cmp c key =
     (if contents c = [] then Ret (c, 0, None)
      else let c1 = (if dirty c then sortArray cmp c else c)
           in case binarySearch cmp key c1 True of
                (c2, None) \<Rightarrow> Ret (c2, -1, None)
              | (c2, Some i) \<Rightarrow> obind (ContainerBinaryArray_removeAt c2 i) (\<lambda>(c3, old). Ret (c3, 0, old)))"

definition forEach :: "('a \<Rightarrow> 'a \<Rightarrow> int) \<Rightarrow> 'a binarray \<Rightarrow> bool \<Rightarrow> 'a binarray \<times> 'a list" where
  "forEach cmp c sorting =
     (let c1 = (if sorting \<and> dirty c then sortArray cmp c else c) in (c1, contents c1))"

definition clear :: "'a binarray \<Rightarrow> 'a binarray \<times> 'a list" where
  "clear c = (c\<lparr>contents := [], dirty := False, sync := sync c + 1\<rparr>, contents c)"

definition insert_entry ::
    "(nat \<Rightarrow> bool) \<Rightarrow> ('a \<Rightarrow> 'a \<Rightarrow> int) \<Rightarrow> 'a binarray \<Rightarrow> 'a \<Rightarrow> 'a binarray \<times> int" where
  "insert_entry alloc cmp c entry =
     (let unique = \<not> has_flag CONTAINER_KEY_ALLOW_DUPLICATES c;
          was_dirty = (unique \<and> dirty c);
          (c1, found) = (if unique then get2 cmp c (Some entry) True else (c, None))
      in if found \<noteq> None then (c1, -1)
         else
           let full = max_size c1 \<le> length (contents c1);
               new_max = (if 0 < max_size c1 then 2 * max_size c1 else 10)
           in if full \<and> \<not> alloc (new_max * 8) then (c1, -1)
              else (c1\<lparr>contents := contents c1 @ [entry],
                       max_size := if full then new_max else max_size c1,
                       dirty := True,
                       sync := if was_dirty then sync c1 else sync c1 + 1\<rparr>, 0))"

text \<open>The subset that a partial key selects; \<open>ncmp\<close> compares an entry with the partial key.\<close>

function start_loop :: "('a \<Rightarrow> int) \<Rightarrow> 'a list \<Rightarrow> nat \<Rightarrow> nat \<Rightarrow> nat" where
  "start_loop ncmp d len first =
     (if len = 0 then first
      else let half = len div 2; mid = first + half
           in if ncmp (d ! mid) < 0 then start_loop ncmp d (len - half - 1) (mid + 1)
              else start_loop ncmp d half first)"
  by auto
termination by (relation "measure (\<lambda>(_, _, len, _). len)") auto

declare start_loop.simps [simp del]

definition binarySearchForStart ::
    "('a \<Rightarrow> 'a \<Rightarrow> int) \<Rightarrow> ('a \<Rightarrow> int) \<Rightarrow> 'a binarray \<Rightarrow> 'a binarray \<times> nat option" where
  "binarySearchForStart cmp ncmp c =
     (if contents c = [] then (c, None)
      else let c1 = (if dirty c then sortArray cmp c else c);
               first = start_loop ncmp (contents c1) (length (contents c1)) 0
           in (c1, if length (contents c1) \<le> first \<or> ncmp (contents c1 ! first) \<noteq> 0 then None else Some first))"

definition ContainerBinaryArray_getSubset ::
    "(nat \<Rightarrow> bool) \<Rightarrow> ('a \<Rightarrow> 'a \<Rightarrow> int) \<Rightarrow> ('a \<Rightarrow> int) \<Rightarrow> 'a binarray \<Rightarrow> 'a binarray \<times> 'a list option" where
  "ContainerBinaryArray_getSubset alloc cmp ncmp c =
     (if contents c = [] then (c, None)
      else let c1 = (if dirty c then sortArray cmp c else c)
           in case binarySearchForStart cmp ncmp c1 of
                (c2, None) \<Rightarrow> (c2, None)
              | (c2, Some start) \<Rightarrow>
                  (let subset = contents c2 ! start # takeWhile (\<lambda>x. ncmp x = 0) (drop (start + 1) (contents c2))
                   in (c2, if alloc (length subset * 8) then Some subset else None)))"

section \<open>Iterators\<close>

text \<open>
  An iterator remembers the change count of its container and answers NULL when the container has
  changed since. Its position is a \<open>size_t\<close>: it steps below zero by wrapping.
\<close>

record ba_iterator =
  it_sync :: u64
  pos :: size_t

definition iteratorPosition :: "'a binarray \<Rightarrow> ba_iterator \<Rightarrow> size_t \<Rightarrow> 'a option" where
  "iteratorPosition c it p =
     (if sync c \<noteq> it_sync it then None
      else if contents c = [] then None
      else if length (contents c) \<le> unat p then None
      else Some (contents c ! unat p))"

definition iteratorCurr :: "'a binarray \<Rightarrow> ba_iterator \<Rightarrow> 'a option" where
  "iteratorCurr c it = iteratorPosition c it (pos it)"

definition iteratorFirst :: "'a binarray \<Rightarrow> ba_iterator \<Rightarrow> 'a option" where
  "iteratorFirst c it = iteratorPosition c it 0"

definition iteratorNext :: "'a binarray \<Rightarrow> ba_iterator \<Rightarrow> ba_iterator \<times> 'a option" where
  "iteratorNext c it = (let it' = it\<lparr>pos := pos it + 1\<rparr> in (it', iteratorPosition c it' (pos it')))"

definition iteratorLast :: "'a binarray \<Rightarrow> ba_iterator \<Rightarrow> 'a option" where
  "iteratorLast c it = iteratorPosition c it (of_nat (length (contents c)) - 1)"

definition iteratorRemove :: "'a binarray \<Rightarrow> ba_iterator \<Rightarrow> ('a binarray \<times> ba_iterator) outcome" where
  "iteratorRemove c it =
     obind (ContainerBinaryArray_removeAt c (unat (pos it))) (\<lambda>(c', _).
       Ret (c', it\<lparr>it_sync := it_sync it + 1, pos := pos it - 1\<rparr>))"

definition iteratorReset :: "('a \<Rightarrow> 'a \<Rightarrow> int) \<Rightarrow> 'a binarray \<Rightarrow> ba_iterator \<Rightarrow> 'a binarray \<times> ba_iterator" where
  "iteratorReset cmp c it =
     (let c1 = (if dirty c then sortArray cmp c else c) in (c1, it\<lparr>it_sync := sync c1, pos := 0\<rparr>))"

section \<open>Keys\<close>

context total_compare
begin

definition unique_keys :: "'a multiset \<Rightarrow> bool" where
  "unique_keys M \<longleftrightarrow> (\<forall>x \<in># M. \<forall>y \<in># M - {#x#}. cmp x y \<noteq> 0)"

lemma unique_keys_add:
  "unique_keys (add_mset x M) \<longleftrightarrow> unique_keys M \<and> (\<forall>y \<in># M. cmp x y \<noteq> 0)"
proof -
  have *: "add_mset x M - {#z#} = add_mset x (M - {#z#})" if "z \<in># M" for z
    using that by (auto simp: multiset_eq_iff)
  have "(\<forall>y \<in># add_mset x M - {#z#}. cmp z y \<noteq> 0) \<longleftrightarrow>
      cmp z x \<noteq> 0 \<and> (\<forall>y \<in># M - {#z#}. cmp z y \<noteq> 0)" if "z \<in># M" for z
    using * [OF that] by simp
  moreover have "cmp z x \<noteq> 0 \<longleftrightarrow> cmp x z \<noteq> 0" for z
    using cmp_zero_sym by blast
  ultimately show ?thesis
    unfolding unique_keys_def by (metis add_mset_remove_trivial insert_iff set_mset_add_mset_insert)
qed

lemma unique_keys_list: "unique_keys (mset xs) \<longleftrightarrow> sorted_wrt (\<lambda>x y. cmp x y \<noteq> 0) xs"
proof (induction xs)
  case Nil
  then show ?case
    by (simp add: unique_keys_def)
qed (auto simp: unique_keys_add)

lemma unique_keys_diff: "unique_keys M \<Longrightarrow> unique_keys (M - N)"
  unfolding unique_keys_def by (metis diff_right_commute in_diffD)

definition wf :: "'a binarray \<Rightarrow> bool" where
  "wf c \<longleftrightarrow> (dirty c \<or> has_flag CONTAINER_KEY_UNSORTED c \<or> sorted_wrt le (contents c)) \<and>
     (has_flag CONTAINER_KEY_ALLOW_DUPLICATES c \<or> unique_keys (mset (contents c))) \<and>
     length (contents c) \<le> max_size c"

lemma sorted_strict:
  assumes "sorted_wrt le xs" and "unique_keys (mset xs)"
  shows "sorted_wrt (\<lambda>x y. cmp x y < 0) xs"
  using assms
proof (induction xs)
  case (Cons x xs)
  then show ?case
    using cmp_zero_sym by (auto simp: unique_keys_add le_def order_le_less)
qed simp

lemma sortArray_mset [simp]: "mset (contents (sortArray cmp c)) = mset (contents c)"
  using arrayQSort_sorted(2) [of "contents c"] by (auto simp: sortArray_def)

lemma sortArray_fields [simp]:
  "flags (sortArray cmp c) = flags c" "max_size (sortArray cmp c) = max_size c"
  "has_flag f (sortArray cmp c) = has_flag f c" "contents (sortArray cmp c) = [] \<longleftrightarrow> contents c = []"
  "length (contents (sortArray cmp c)) = length (contents c)"
  using sortArray_mset [of c] by (auto simp: sortArray_def has_flag_def simp del: sortArray_mset
      dest: mset_eq_length)

lemma sortArray_sorted:
  assumes "wf c" and "\<not> has_flag CONTAINER_KEY_UNSORTED c"
  shows "sorted_wrt le (contents (sortArray cmp c))" and "\<not> dirty (sortArray cmp c)"
proof -
  have "sorted_wrt le xs" if "\<not> 1 < length xs" for xs
    using that by (cases xs) auto
  then show "sorted_wrt le (contents (sortArray cmp c))" "\<not> dirty (sortArray cmp c)"
    using assms arrayQSort_sorted(1) [of "contents c"] by (auto simp: sortArray_def wf_def)
qed

lemma sortArray_wf [intro]: "wf c \<Longrightarrow> wf (sortArray cmp c)"
  using sortArray_sorted [of c] by (auto simp: wf_def)

lemma sortArray_clean [simp]: "\<not> dirty c \<Longrightarrow> sortArray cmp c = c"
  by (simp add: sortArray_def)

lemma sorted_less_before:
  "sorted_wrt le d \<Longrightarrow> cmp (d ! m) val < 0 \<Longrightarrow> k \<le> m \<Longrightarrow> m < length d \<Longrightarrow> cmp (d ! k) val < 0"
  using sorted_wrt_nth_less [of le d k m] le_cmp_less_trans by (cases "k = m") auto

lemma sorted_greater_after:
  "sorted_wrt le d \<Longrightarrow> 0 < cmp (d ! m) val \<Longrightarrow> m \<le> k \<Longrightarrow> k < length d \<Longrightarrow> 0 < cmp (d ! k) val"
  using sorted_wrt_nth_less [of le d m k] cmp_flip cmp_less_le_trans by (cases "k = m") (simp, metis order_le_imp_less_or_eq)

text \<open>
  The loop ends at an entry with the key, or at the first entry above it; the comparison it carries
  out is that of the middle it last looked at.
\<close>

lemma search_loop_result:
  assumes "search_loop cmp val d len first mid r = (f, m, r')" and "sorted_wrt le d"
    and "first + len \<le> length d" and "\<forall>k < first. cmp (d ! k) val < 0"
    and "\<forall>k. first + len \<le> k \<and> k < length d \<longrightarrow> 0 < cmp (d ! k) val"
    and "len = 0 \<Longrightarrow> r = cmp (d ! mid) val"
  shows "f < length d \<and> f = m \<and> r' = 0 \<and> cmp (d ! f) val = 0 \<or>
    f \<le> length d \<and> (\<forall>k < f. cmp (d ! k) val < 0) \<and> (\<forall>k. f \<le> k \<and> k < length d \<longrightarrow> 0 < cmp (d ! k) val) \<and>
    r' = cmp (d ! m) val"
  using assms
proof (induction len arbitrary: first mid r rule: less_induct)
  case (less len first mid r)
  show ?case
  proof (cases "len = 0")
    case True
    then have "f = first \<and> m = mid \<and> r' = r"
      using less.prems(1) by (simp add: search_loop.simps)
    then show ?thesis
      using less.prems(3-6) True by simp
  next
    case False
    let ?half = "len div 2"
    let ?m = "first + ?half"
    let ?c = "cmp (d ! ?m) val"
    note unfold = less.prems(1) [unfolded search_loop.simps [of cmp val d len] Let_def]
    have m: "?m < first + len" "?m < length d"
      using False less.prems(3) by linarith+
    consider "?c < 0" | "?c = 0" | "0 < ?c" by linarith
    then show ?thesis
    proof cases
      case 1
      then have *: "search_loop cmp val d (len - ?half - 1) (?m + 1) ?m ?c = (f, m, r')"
        using unfold False by simp
      show ?thesis
        by (rule less.IH [OF _ *])
          (use 1 False m less.prems(2,3,5) sorted_less_before [OF less.prems(2) 1] in auto)
    next
      case 2
      then show ?thesis
        using unfold False m by auto
    next
      case 3
      then have *: "search_loop cmp val d ?half first ?m ?c = (f, m, r')"
        using unfold False by simp
      show ?thesis
        by (rule less.IH [OF _ *])
          (use 3 False m less.prems(2,3,4) sorted_greater_after [OF less.prems(2) 3] in auto)
    qed
  qed
qed

lemma linear_loop_takeWhile:
  "linear_loop cmp val xs p = p + length (takeWhile (\<lambda>x. cmp x val \<noteq> 0) xs)"
  by (induction xs arbitrary: p) auto

lemma linearSearch_spec:
  assumes "has_flag CONTAINER_KEY_UNSORTED c"
  shows "case linearSearch cmp k c of
      None \<Rightarrow> \<forall>x \<in> set (contents c). cmp x k \<noteq> 0
    | Some n \<Rightarrow> n < length (contents c) \<and> cmp (contents c ! n) k = 0"
proof -
  let ?n = "length (takeWhile (\<lambda>x. cmp x k \<noteq> 0) (contents c))"
  have "?n < length (contents c) \<Longrightarrow> cmp (contents c ! ?n) k = 0"
    using nth_length_takeWhile by blast
  moreover have "length (contents c) \<le> ?n \<Longrightarrow> \<forall>x \<in> set (contents c). cmp x k \<noteq> 0"
    by (metis length_takeWhile_le le_antisym takeWhile_eq_take take_all set_takeWhileD order_refl)
  ultimately show ?thesis
    using assms by (auto simp: linearSearch_def linear_loop_takeWhile Let_def not_le)
qed

lemma search_exact:
  assumes "wf c" and "dirty c \<Longrightarrow> has_flag CONTAINER_KEY_UNSORTED c"
    and "binarySearch cmp k c True = (c', i)"
  shows "c' = c \<and> (case i of
      None \<Rightarrow> \<forall>x \<in> set (contents c). cmp x k \<noteq> 0
    | Some n \<Rightarrow> n < length (contents c) \<and> cmp (contents c ! n) k = 0)"
proof (cases "contents c = [] \<or> has_flag CONTAINER_KEY_UNSORTED c")
  case True
  then have "binarySearch cmp k c True = (c, if contents c = [] then None else linearSearch cmp k c)"
    by (cases "contents c = []") (simp_all add: binarySearch_def)
  then show ?thesis
    using assms(3) True linearSearch_spec [of c k] by auto
next
  case False
  let ?d = "contents c"
  have sorted: "sorted_wrt le ?d" and clean: "\<not> dirty c"
    using False assms(1,2) by (auto simp: wf_def)
  obtain f m r where L: "search_loop cmp k ?d (length ?d) 0 0 0 = (f, m, r)"
    by (cases "search_loop cmp k ?d (length ?d) 0 0 0") auto
  have "f < length ?d \<and> f = m \<and> r = 0 \<and> cmp (?d ! f) k = 0 \<or>
    f \<le> length ?d \<and> (\<forall>n < f. cmp (?d ! n) k < 0) \<and> (\<forall>n. f \<le> n \<and> n < length ?d \<longrightarrow> 0 < cmp (?d ! n) k) \<and>
    r = cmp (?d ! m) k"
    using search_loop_result [OF L sorted] False by simp
  moreover have "\<forall>x \<in> set ?d. cmp x k \<noteq> 0"
    if "\<forall>n < f. cmp (?d ! n) k < 0" "\<forall>n. f \<le> n \<and> n < length ?d \<longrightarrow> 0 < cmp (?d ! n) k"
  proof
    fix x
    assume "x \<in> set ?d"
    then obtain n where "n < length ?d" "x = ?d ! n"
      by (auto simp: in_set_conv_nth)
    then show "cmp x k \<noteq> 0"
      using that(1) that(2) [rule_format, of n] by (cases "n < f") auto
  qed
  moreover have "binarySearch cmp k c True =
      (c, if length ?d \<le> f \<or> (if f \<noteq> m then cmp (?d ! f) k else r) \<noteq> 0 then None else Some f)"
    using False clean by (simp add: binarySearch_def L Let_def)
  ultimately show ?thesis
    using assms(3) by (auto split: if_splits)
qed

lemma search_next:
  assumes "wf c" and "\<not> dirty c" and "\<not> has_flag CONTAINER_KEY_UNSORTED c" and "contents c \<noteq> []"
    and "binarySearch cmp k c False = (c', i)"
  shows "c' = c \<and> (case i of
      None \<Rightarrow> \<forall>x \<in> set (contents c). cmp x k \<le> 0
    | Some n \<Rightarrow> n < length (contents c) \<and> (\<forall>x \<in> set (take n (contents c)). cmp x k \<le> 0) \<and>
        (\<forall>x \<in> set (drop n (contents c)). 0 \<le> cmp x k) \<and>
        (has_flag CONTAINER_KEY_ALLOW_DUPLICATES c \<or> 0 < cmp (contents c ! n) k))"
proof -
  let ?d = "contents c"
  have sorted: "sorted_wrt le ?d" and uniq: "has_flag CONTAINER_KEY_ALLOW_DUPLICATES c \<or> unique_keys (mset ?d)"
    using assms(1-3) by (auto simp: wf_def)
  obtain f m r where L: "search_loop cmp k ?d (length ?d) 0 0 0 = (f, m, r)"
    by (cases "search_loop cmp k ?d (length ?d) 0 0 0") auto
  consider "f < length ?d" "f = m" "r = 0" "cmp (?d ! f) k = 0"
    | "f \<le> length ?d" "\<forall>n < f. cmp (?d ! n) k < 0" "\<forall>n. f \<le> n \<and> n < length ?d \<longrightarrow> 0 < cmp (?d ! n) k"
      "r = cmp (?d ! m) k"
    using search_loop_result [OF L sorted] assms(4) by auto
  then show ?thesis
  proof cases
    case 1
    have before: "cmp (?d ! n) k \<le> 0" if "n \<le> f" for n
      using that 1(1,4) sorted_wrt_nth_less [OF sorted, of n f] cmp_trans [of "?d ! n" "?d ! f" k]
      by (cases "n = f") (auto simp: le_def)
    have flip: "0 \<le> cmp x k \<longleftrightarrow> le k x" for x
      using cmp_flip [of k x] cmp_flip [of x k] by (auto simp: le_def)
    have after: "0 \<le> cmp (?d ! n) k" if "f \<le> n" "n < length ?d" for n
      using that 1(1,4) sorted_wrt_nth_less [OF sorted, of f n] flip [of "?d ! f"] le_trans
      by (cases "n = f") (auto simp: flip)
    have strict: "0 < cmp (?d ! Suc f) k"
      if "Suc f < length ?d" "unique_keys (mset ?d)"
    proof -
      have "cmp (?d ! f) (?d ! Suc f) < 0"
        using sorted_wrt_nth_less [OF sorted_strict [OF sorted that(2)]] that(1) by blast
      moreover have "le k (?d ! f)"
        using 1(4) flip [of "?d ! f"] by simp
      ultimately show ?thesis
        using le_cmp_less_trans cmp_flip by blast
    qed
    have "binarySearch cmp k c False = (c, if f + 1 = length ?d then None else Some (f + 1))"
      using 1(1,4) by (simp add: binarySearch_def assms(2-4) L Let_def 1(3) 1(2) [symmetric])
    then have "i = (if f + 1 = length ?d then None else Some (f + 1))" "c' = c"
      using assms(5) by simp_all
    moreover have "\<forall>x \<in> set (take (Suc f) ?d). cmp x k \<le> 0"
      using before by (auto simp: in_set_conv_nth)
    moreover have "\<forall>x \<in> set (drop (Suc f) ?d). 0 \<le> cmp x k"
      using after by (auto simp: in_set_conv_nth)
    ultimately show ?thesis
      using strict uniq 1(1) by (auto simp: Suc_lessI)
  next
    case 2
    have "f < length ?d \<Longrightarrow> (if f \<noteq> m then cmp (?d ! f) k else r) \<noteq> 0"
      using 2(3,4) by (metis less_irrefl order_refl)
    then have "binarySearch cmp k c False = (c, if f = length ?d then None else Some f)"
      using 2(1) by (simp add: binarySearch_def assms(2-4) L Let_def)
    then have "i = (if f = length ?d then None else Some f)" "c' = c"
      using assms(5) by simp_all
    moreover have "\<forall>x \<in> set (take f ?d). cmp x k \<le> 0"
      using less_imp_le [OF 2(2) [rule_format]] by (auto simp: in_set_conv_nth)
    moreover have "\<forall>x \<in> set (drop f ?d). 0 \<le> cmp x k"
      using less_imp_le [OF 2(3) [rule_format]] by (auto simp: in_set_conv_nth)
    ultimately show ?thesis
      using 2 by (auto split: if_splits)
  qed
qed

section \<open>What the operations do\<close>

text \<open>What no search changes, and every search leaves: the entries, sorted where they are to be.\<close>

definition same_entries :: "'a binarray \<Rightarrow> 'a binarray \<Rightarrow> bool" where
  "same_entries c c' \<longleftrightarrow> wf c' \<and> mset (contents c') = mset (contents c) \<and> flags c' = flags c \<and>
     max_size c' = max_size c \<and>
     (contents c = [] \<or> has_flag CONTAINER_KEY_UNSORTED c \<or> \<not> dirty c' \<and> sorted_wrt le (contents c'))"

lemma same_entries_flag: "same_entries c c' \<Longrightarrow> has_flag f c' = has_flag f c"
  by (simp add: same_entries_def has_flag_def)

lemma same_entries_sort: "wf c \<Longrightarrow> same_entries c (if dirty c then sortArray cmp c else c)"
  using sortArray_sorted [of c] by (auto simp: same_entries_def wf_def)

lemma same_entries_set: "same_entries c c' \<Longrightarrow> set (contents c') = set (contents c)"
  by (auto simp: same_entries_def dest: mset_eq_setD)

lemma get2_exact:
  assumes "wf c" and "get2 cmp c (Some k) True = (c', r)"
  shows "same_entries c c'"
    and "case r of None \<Rightarrow> \<forall>x \<in># mset (contents c). cmp x k \<noteq> 0
      | Some x \<Rightarrow> x \<in># mset (contents c) \<and> cmp x k = 0"
proof -
  have "same_entries c c' \<and> (case r of None \<Rightarrow> \<forall>x \<in># mset (contents c). cmp x k \<noteq> 0
      | Some x \<Rightarrow> x \<in># mset (contents c) \<and> cmp x k = 0)"
  proof (cases "contents c = []")
    case True
    then show ?thesis
      using assms by (auto simp: get2_def same_entries_def)
  next
    case False
    let ?c = "if dirty c then sortArray cmp c else c"
    have s: "same_entries c ?c"
      using same_entries_sort [OF assms(1)] .
    then have "wf ?c" "dirty ?c \<Longrightarrow> has_flag CONTAINER_KEY_UNSORTED ?c"
      using False same_entries_flag [OF s] by (auto simp: same_entries_def)
    note S = search_exact [OF this]
    obtain c2 i where i: "binarySearch cmp k ?c True = (c2, i)"
      by (cases "binarySearch cmp k ?c True") auto
    then have "c2 = ?c" and "case i of None \<Rightarrow> \<forall>x \<in> set (contents ?c). cmp x k \<noteq> 0
        | Some n \<Rightarrow> n < length (contents ?c) \<and> cmp (contents ?c ! n) k = 0"
      using S [OF _ i] by blast+
    moreover have "(c', r) = (c2, map_option (\<lambda>n. contents c2 ! n) i)"
      using assms(2) False i by (cases i) (auto simp: get2_def Let_def)
    ultimately show ?thesis
      using s same_entries_set [OF s] nth_mem by (cases i) auto
  qed
  then show "same_entries c c'" and "case r of None \<Rightarrow> \<forall>x \<in># mset (contents c). cmp x k \<noteq> 0
      | Some x \<Rightarrow> x \<in># mset (contents c) \<and> cmp x k = 0"
    by simp_all
qed

lemma skip_duplicates_find:
  "\<forall>x \<in> set xs. 0 \<le> cmp x k \<Longrightarrow> skip_duplicates cmp k xs = find (\<lambda>x. 0 < cmp x k) xs"
  by (induction xs) auto

lemma get2_next:
  assumes "wf c" and "\<not> has_flag CONTAINER_KEY_UNSORTED c" and "get2 cmp c (Some k) False = (c', r)"
  shows "same_entries c c' \<and> r = find (\<lambda>x. 0 < cmp x k) (contents c')"
proof (cases "contents c = []")
  case True
  then show ?thesis
    using assms by (auto simp: get2_def same_entries_def)
next
  case False
  let ?c = "if dirty c then sortArray cmp c else c"
  have s: "same_entries c ?c"
    using same_entries_sort [OF assms(1)] .
  then have "wf ?c" "\<not> dirty ?c" "\<not> has_flag CONTAINER_KEY_UNSORTED ?c" "contents ?c \<noteq> []"
    using False assms(2) same_entries_flag [OF s] by (auto simp: same_entries_def)
  note S = search_next [OF this]
  obtain c2 i where i: "binarySearch cmp k ?c False = (c2, i)"
    by (cases "binarySearch cmp k ?c False") auto
  have c2: "c2 = ?c" and I: "case i of None \<Rightarrow> \<forall>x \<in> set (contents c2). cmp x k \<le> 0
    | Some n \<Rightarrow> n < length (contents c2) \<and> (\<forall>x \<in> set (take n (contents c2)). cmp x k \<le> 0) \<and>
        (\<forall>x \<in> set (drop n (contents c2)). 0 \<le> cmp x k) \<and>
        (has_flag CONTAINER_KEY_ALLOW_DUPLICATES c2 \<or> 0 < cmp (contents c2 ! n) k)"
    using S [OF i] by auto
  have r: "(c', r) = (c2, case i of None \<Rightarrow> None | Some n \<Rightarrow>
      if has_flag CONTAINER_KEY_ALLOW_DUPLICATES c2 then skip_duplicates cmp k (drop n (contents c2))
      else Some (contents c2 ! n))"
    using assms(3) False i by (cases i) (auto simp: get2_def Let_def)
  show ?thesis
  proof (cases i)
    case None
    then show ?thesis
      using r I s c2 by (auto simp: find_None_iff2 not_less)
  next
    case (Some n)
    have "find (\<lambda>x. 0 < cmp x k) (take n (contents c2) @ drop n (contents c2)) =
        find (\<lambda>x. 0 < cmp x k) (drop n (contents c2))"
      by (rule find_append) (use I Some in \<open>auto simp: not_less\<close>)
    then have "find (\<lambda>x. 0 < cmp x k) (contents c2) = find (\<lambda>x. 0 < cmp x k) (drop n (contents c2))"
      by simp
    moreover have "drop n (contents c2) = contents c2 ! n # drop (Suc n) (contents c2)"
      using I Some by (simp add: Cons_nth_drop_Suc)
    ultimately show ?thesis
      using r I Some s c2 skip_duplicates_find [of "drop n (contents c2)" k] by auto
  qed
qed

lemma get2_first:
  assumes "wf c" and "get2 cmp c None False = (c', r)"
  shows "same_entries c c' \<and> r = (if contents c' = [] then None else Some (hd (contents c')))"
proof -
  let ?c = "if dirty c then sortArray cmp c else c"
  have "(c', r) = (if contents c = [] then (c, None) else (?c, Some (hd (contents ?c))))"
    using assms(2) by (auto simp: get2_def Let_def hd_conv_nth)
  then show ?thesis
    using same_entries_sort [OF assms(1)] assms(1)
    by (auto simp: same_entries_def split: if_splits)
qed

lemma wf_append:
  assumes "wf c" and "has_flag CONTAINER_KEY_ALLOW_DUPLICATES c \<or> (\<forall>y \<in># mset (contents c). cmp y x \<noteq> 0)"
    and "length (contents c) < n"
  shows "wf (c\<lparr>contents := contents c @ [x], max_size := n, dirty := True, sync := s\<rparr>)"
  using assms cmp_zero_sym by (auto simp: wf_def has_flag_def unique_keys_add)

lemma insert_entry_spec:
  assumes "wf c" and "insert_entry alloc cmp c x = (c', rc)"
  shows "wf c'" and "flags c' = flags c"
    and "rc = 0 \<and> mset (contents c') = add_mset x (mset (contents c)) \<or>
      rc = -1 \<and> mset (contents c') = mset (contents c)"
    and "has_flag CONTAINER_KEY_ALLOW_DUPLICATES c \<or>
      (rc = 0 \<longrightarrow> (\<forall>y \<in># mset (contents c). cmp y x \<noteq> 0))"
    and "rc \<noteq> 0 \<Longrightarrow> (\<forall>n. alloc n) \<Longrightarrow>
      \<not> has_flag CONTAINER_KEY_ALLOW_DUPLICATES c \<and> (\<exists>y \<in># mset (contents c). cmp y x = 0)"
proof -
  let ?dup = "has_flag CONTAINER_KEY_ALLOW_DUPLICATES c"
  obtain c1 found where F: "(if \<not> ?dup then get2 cmp c (Some x) True else (c, None)) = (c1, found)"
    by (cases "if \<not> ?dup then get2 cmp c (Some x) True else (c, None)") auto
  have G: "wf c1" "mset (contents c1) = mset (contents c)" "flags c1 = flags c"
    and found: "case found of None \<Rightarrow> ?dup \<or> (\<forall>y \<in># mset (contents c). cmp y x \<noteq> 0)
      | Some y \<Rightarrow> \<not> ?dup \<and> y \<in># mset (contents c) \<and> cmp y x = 0"
    using F get2_exact [OF assms(1), of x c1 found] assms(1)
    by (auto simp: same_entries_def split: if_splits option.splits)
  let ?full = "max_size c1 \<le> length (contents c1)"
    and ?new = "if 0 < max_size c1 then 2 * max_size c1 else 10"
  have I: "(c', rc) = (if found \<noteq> None then (c1, -1) else if ?full \<and> \<not> alloc (?new * 8) then (c1, -1)
      else (c1\<lparr>contents := contents c1 @ [x], max_size := if ?full then ?new else max_size c1,
        dirty := True, sync := if \<not> ?dup \<and> dirty c then sync c1 else sync c1 + 1\<rparr>, 0))"
    using assms(2) by (simp only: insert_entry_def Let_def F prod.case)
  have dup: "has_flag f c1 = has_flag f c" for f
    using G(3) by (simp add: has_flag_def)
  have fit: "length (contents c1) \<le> max_size c1"
    using G(1) by (simp add: wf_def)
  have "found = None \<Longrightarrow> has_flag CONTAINER_KEY_ALLOW_DUPLICATES c1 \<or> (\<forall>y \<in># mset (contents c1). cmp y x \<noteq> 0)"
    using found dup G(2) by simp
  note W = wf_append [OF G(1) this]
  have "\<not> ?full \<Longrightarrow> length (contents c1) < max_size c1" "?full \<Longrightarrow> length (contents c1) < ?new"
    using fit by auto
  then show "wf c'" "flags c' = flags c"
    using I G W by (auto split: if_splits)
  show "rc = 0 \<and> mset (contents c') = add_mset x (mset (contents c)) \<or>
      rc = -1 \<and> mset (contents c') = mset (contents c)"
    using I G by (auto split: if_splits)
  show "?dup \<or> (rc = 0 \<longrightarrow> (\<forall>y \<in># mset (contents c). cmp y x \<noteq> 0))"
    and "rc \<noteq> 0 \<Longrightarrow> (\<forall>n. alloc n) \<Longrightarrow> \<not> ?dup \<and> (\<exists>y \<in># mset (contents c). cmp y x = 0)"
    using I found by (auto split: if_splits option.splits)
qed

lemma removeAt_spec:
  assumes "wf c" and "i < length (contents c)"
  shows "\<exists>c'. ContainerBinaryArray_removeAt c i = Ret (c', Some (contents c ! i)) \<and> wf c' \<and>
    mset (contents c') = mset (contents c) - {#contents c ! i#} \<and> flags c' = flags c"
proof -
  let ?d = "take i (contents c) @ drop (Suc i) (contents c)"
  have split: "contents c = take i (contents c) @ contents c ! i # drop (Suc i) (contents c)"
    using assms(2) by (simp add: id_take_nth_drop)
  have m: "mset ?d = mset (contents c) - {#contents c ! i#}"
    by (subst (2) split) simp
  have "sorted_wrt le ?d" if "sorted_wrt le (contents c)"
    using that by (subst (asm) split) (auto simp: sorted_wrt_append)
  moreover have "length ?d \<le> length (contents c)"
    using assms(2) by simp
  ultimately have "wf (c\<lparr>contents := ?d, sync := s\<rparr>)" for s
    using assms(1) m unique_keys_diff unfolding wf_def has_flag_def by auto
  then show ?thesis
    using assms(2) m by (auto simp: ContainerBinaryArray_removeAt_def)
qed

lemma remove_spec:
  assumes "wf c"
  shows "\<exists>c' rc old. ContainerBinaryArray_remove cmp c k = Ret (c', rc, old) \<and> wf c' \<and> flags c' = flags c \<and>
    (case old of
       None \<Rightarrow> mset (contents c') = mset (contents c) \<and> (\<forall>x \<in># mset (contents c). cmp x k \<noteq> 0) \<and>
         rc = (if contents c = [] then 0 else -1)
     | Some x \<Rightarrow> rc = 0 \<and> x \<in># mset (contents c) \<and> cmp x k = 0 \<and>
         mset (contents c') = mset (contents c) - {#x#})"
proof (cases "contents c = []")
  case True
  then show ?thesis
    using assms by (simp add: ContainerBinaryArray_remove_def)
next
  case False
  let ?c = "if dirty c then sortArray cmp c else c"
  have s: "same_entries c ?c"
    using same_entries_sort [OF assms] .
  then have w: "wf ?c" "dirty ?c \<Longrightarrow> has_flag CONTAINER_KEY_UNSORTED ?c"
    using False same_entries_flag [OF s] by (auto simp: same_entries_def)
  obtain c2 i where i: "binarySearch cmp k ?c True = (c2, i)"
    by (cases "binarySearch cmp k ?c True") auto
  then have c2: "c2 = ?c" and I: "case i of None \<Rightarrow> \<forall>x \<in> set (contents ?c). cmp x k \<noteq> 0
      | Some n \<Rightarrow> n < length (contents ?c) \<and> cmp (contents ?c ! n) k = 0"
    using search_exact [OF w i] by blast+
  have R: "ContainerBinaryArray_remove cmp c k = (case i of None \<Rightarrow> Ret (c2, -1, None)
      | Some n \<Rightarrow> obind (ContainerBinaryArray_removeAt c2 n) (\<lambda>(c3, old). Ret (c3, 0, old)))"
    using False i by (simp add: ContainerBinaryArray_remove_def Let_def split: option.split)
  show ?thesis
  proof (cases i)
    case None
    then show ?thesis
      using R I c2 s same_entries_set [OF s] False by (auto simp: same_entries_def)
  next
    case (Some n)
    then show ?thesis
      using R I c2 s removeAt_spec [OF w(1), of n] same_entries_set [OF s] nth_mem
      by (auto simp: same_entries_def)
  qed
qed

text \<open>
  A partial key selects a run of the sorted table: \<open>ncmp\<close> has to grow along the order, as comparing
  a prefix of the key does.
\<close>

definition selects :: "('a \<Rightarrow> int) \<Rightarrow> bool" where
  "selects ncmp \<longleftrightarrow> (\<forall>x y. le x y \<longrightarrow> (ncmp y < 0 \<longrightarrow> ncmp x < 0) \<and> (0 < ncmp x \<longrightarrow> 0 < ncmp y))"

lemma start_loop_result:
  assumes "sorted_wrt le d" and "selects ncmp" and "first + len \<le> length d"
    and "\<forall>k < first. ncmp (d ! k) < 0" and "\<forall>k. first + len \<le> k \<and> k < length d \<longrightarrow> 0 \<le> ncmp (d ! k)"
  shows "start_loop ncmp d len first \<le> length d \<and> (\<forall>k < start_loop ncmp d len first. ncmp (d ! k) < 0) \<and>
    (\<forall>k. start_loop ncmp d len first \<le> k \<and> k < length d \<longrightarrow> 0 \<le> ncmp (d ! k))"
  using assms(3-5)
proof (induction len arbitrary: first rule: less_induct)
  case (less len first)
  let ?m = "first + len div 2"
  show ?case
  proof (cases "len = 0")
    case True
    then show ?thesis
      using less.prems by (simp add: start_loop.simps)
  next
    case False
    then have m: "?m < length d"
      using less.prems(1) by linarith
    have le: "le (d ! k) (d ! n)" if "k \<le> n" "n < length d" for k n
      using that sorted_wrt_nth_less [OF assms(1), of k n] by (cases "k = n") simp_all
    show ?thesis
    proof (cases "ncmp (d ! ?m) < 0")
      case True
      have "ncmp (d ! k) < 0" if "k \<le> ?m" for k
        using assms(2) le [OF that m] True unfolding selects_def by blast
      then have 1: "\<forall>k < ?m + 1. ncmp (d ! k) < 0"
        by auto
      have "?m + 1 + (len - len div 2 - 1) = first + len" "len - len div 2 - 1 < len"
        using False by linarith+
      moreover have "start_loop ncmp d len first = start_loop ncmp d (len - len div 2 - 1) (?m + 1)"
        using False True by (subst start_loop.simps) (simp add: Let_def)
      ultimately show ?thesis
        using less.IH [of "len - len div 2 - 1" "?m + 1"] less.prems(1,3) 1 by simp
    next
      case ge: False
      have 1: "\<forall>k. ?m \<le> k \<and> k < length d \<longrightarrow> 0 \<le> ncmp (d ! k)"
        using assms(2) le ge unfolding selects_def by (meson linorder_not_le)
      have "start_loop ncmp d len first = start_loop ncmp d (len div 2) first"
        using False ge by (subst start_loop.simps) (simp add: Let_def)
      moreover have "?m \<le> length d" "len div 2 < len"
        using m False by simp_all
      ultimately show ?thesis
        using less.IH [of "len div 2" first] less.prems(2) 1 by simp
    qed
  qed
qed

lemma takeWhile_run:
  assumes "sorted_wrt le xs" and "selects ncmp" and "\<forall>x \<in> set xs. 0 \<le> ncmp x"
  shows "takeWhile (\<lambda>x. ncmp x = 0) xs = filter (\<lambda>x. ncmp x = 0) xs"
  using assms(1,3)
proof (induction xs)
  case (Cons x xs)
  show ?case
  proof (cases "ncmp x = 0")
    case False
    then have "0 < ncmp x"
      using Cons.prems(2) by auto
    then have "\<forall>y \<in> set xs. 0 < ncmp y"
      using Cons.prems(1) assms(2) unfolding selects_def by auto
    then have "filter (\<lambda>y. ncmp y = 0) xs = []"
      by (auto simp: filter_empty_conv)
    then show ?thesis
      using False by simp
  qed (use Cons in auto)
qed simp

lemma getSubset_spec:
  assumes "wf c" and "\<not> has_flag CONTAINER_KEY_UNSORTED c" and "selects ncmp" and "\<forall>n. alloc n"
    and "ContainerBinaryArray_getSubset alloc cmp ncmp c = (c', r)"
  shows "same_entries c c' \<and>
    r = (let xs = filter (\<lambda>x. ncmp x = 0) (contents c') in if xs = [] then None else Some xs)"
proof (cases "contents c = []")
  case True
  then show ?thesis
    using assms(1,5) by (auto simp: ContainerBinaryArray_getSubset_def same_entries_def)
next
  case False
  let ?c = "if dirty c then sortArray cmp c else c"
  let ?d = "contents ?c" and ?p = "\<lambda>x. ncmp x = 0"
  have s: "same_entries c ?c"
    using same_entries_sort [OF assms(1)] .
  then have clean: "\<not> dirty ?c" "?d \<noteq> []" and sorted: "sorted_wrt le ?d"
    using False assms(2) by (auto simp: same_entries_def)
  define f where "f = start_loop ncmp ?d (length ?d) 0"
  have F: "f \<le> length ?d" "\<forall>k < f. ncmp (?d ! k) < 0" "\<forall>k. f \<le> k \<and> k < length ?d \<longrightarrow> 0 \<le> ncmp (?d ! k)"
    using start_loop_result [OF sorted assms(3), of 0 "length ?d"] by (simp_all add: f_def)
  have B: "binarySearchForStart cmp ncmp ?c =
      (?c, if length ?d \<le> f \<or> ncmp (?d ! f) \<noteq> 0 then None else Some f)"
    using clean by (simp add: binarySearchForStart_def f_def Let_def)
  have pre: "filter ?p (take f ?d) = []"
    using F(1) less_imp_neq [OF F(2) [rule_format]] by (auto simp: filter_empty_conv in_set_conv_nth)
  have ge: "\<forall>x \<in> set (drop f ?d). 0 \<le> ncmp x"
    using F(3) by (auto simp: in_set_conv_nth)
  have "filter ?p ?d = filter ?p (take f ?d @ drop f ?d)"
    by simp
  also have "\<dots> = filter ?p (drop f ?d)"
    using pre by (simp only: filter_append append_Nil)
  also have "\<dots> = takeWhile ?p (drop f ?d)"
    using takeWhile_run [OF _ assms(3) ge] sorted sorted_wrt_drop by metis
  finally have fil: "filter ?p ?d = takeWhile ?p (drop f ?d)" .
  have "takeWhile ?p (drop f ?d) = (if length ?d \<le> f \<or> ncmp (?d ! f) \<noteq> 0 then []
      else ?d ! f # takeWhile ?p (drop (f + 1) ?d))"
    by (cases "length ?d \<le> f") (simp_all add: Cons_nth_drop_Suc [symmetric] not_le)
  moreover have "(c', r) = (?c, if length ?d \<le> f \<or> ncmp (?d ! f) \<noteq> 0 then None
      else Some (?d ! f # takeWhile ?p (drop (f + 1) ?d)))"
    using assms(4,5) False B by (auto simp: ContainerBinaryArray_getSubset_def Let_def)
  ultimately show ?thesis
    using s fil by (auto simp: Let_def)
qed

end

end
