(* ===== verification/ListSsll.thy ===== *)
theory ListSsll
  imports BinSort
begin

text \<open>
  The singly linked list container (src/Firmware/Core/System/Containers/ContainerListSsll.c), sorted
  or not. A node is identified with its place in the list \<open>nodes\<close>; a pointer to a node is the rest
  of the list from it, NULL the empty list.
\<close>

record 'a ssll =
  nodes :: "'a list"
  node_count :: nat
  unsorted :: bool
  fifo :: bool
  ssll_sync :: u64

section \<open>Operations\<close>

fun seek :: "('a \<Rightarrow> 'a \<Rightarrow> int) \<Rightarrow> bool \<Rightarrow> 'a \<Rightarrow> 'a list \<Rightarrow> int \<Rightarrow> 'a list \<times> int" where
  "seek cmp uns key [] rc = ([], rc)"
| "seek cmp uns key (x # xs) rc =
     (let rc = cmp x key
      in if rc = 0 then (x # xs, rc)
         else if 0 < rc \<and> \<not> uns then (x # xs, rc)
         else seek cmp uns key xs rc)"

definition ssll_get :: "('a \<Rightarrow> 'a \<Rightarrow> int) \<Rightarrow> 'a ssll \<Rightarrow> 'a option \<Rightarrow> bool \<Rightarrow> 'a option" where
  "ssll_get cmp sl key exact =
     (let cur =
        (case key of
           None \<Rightarrow> nodes sl
         | Some k \<Rightarrow>
             if nodes sl = [] then nodes sl
             else (case seek cmp (unsorted sl) k (nodes sl) 0 of
                     (cur, rc) \<Rightarrow> if cur \<noteq> [] \<and> \<not> exact \<and> rc = 0 then tl cur else cur))
      in if cur = [] then None else Some (hd cur))"

definition ssll_find :: "('a \<Rightarrow> 'a \<Rightarrow> int) \<Rightarrow> 'a ssll \<Rightarrow> 'a option \<Rightarrow> 'a option" where
  "ssll_find cmp sl k = (if k = None then None else ssll_get cmp sl k True)"

definition ssll_findNext :: "('a \<Rightarrow> 'a \<Rightarrow> int) \<Rightarrow> 'a ssll \<Rightarrow> 'a option \<Rightarrow> 'a option" where
  "ssll_findNext cmp sl k = ssll_get cmp sl k False"

fun sorted_in :: "('a \<Rightarrow> 'a \<Rightarrow> int) \<Rightarrow> 'a \<Rightarrow> 'a list \<Rightarrow> 'a list" where
  "sorted_in cmp x [] = [x]"
| "sorted_in cmp x (y # ys) = (if 0 < cmp y x then x # y # ys else y # sorted_in cmp x ys)"

definition ssll_insert :: "(nat \<Rightarrow> bool) \<Rightarrow> ('a \<Rightarrow> 'a \<Rightarrow> int) \<Rightarrow> 'a ssll \<Rightarrow> 'a \<Rightarrow> 'a ssll \<times> int" where
  "ssll_insert alloc cmp sl x =
     (if \<not> alloc 16 then (sl, -1)
      else (sl\<lparr>nodes :=
                 if nodes sl = [] then [x]
                 else if unsorted sl then (if fifo sl then nodes sl @ [x] else x # nodes sl)
                 else sorted_in cmp x (nodes sl),
               node_count := node_count sl + 1, ssll_sync := ssll_sync sl + 1\<rparr>, 0))"

fun take_out :: "('a \<Rightarrow> 'a \<Rightarrow> int) \<Rightarrow> bool \<Rightarrow> 'a \<Rightarrow> 'a list \<Rightarrow> 'a list option" where
  "take_out cmp uns key [] = None"
| "take_out cmp uns key (x # xs) =
     (if cmp x key = 0 then Some xs
      else if 0 < cmp x key \<and> \<not> uns then None
      else map_option ((#) x) (take_out cmp uns key xs))"

text \<open>Without a key the first node goes, as from a stack.\<close>

definition ssll_remove :: "('a \<Rightarrow> 'a \<Rightarrow> int) \<Rightarrow> 'a ssll \<Rightarrow> 'a option \<Rightarrow> 'a ssll \<times> int" where
  "ssll_remove cmp sl key =
     (if nodes sl = [] then (sl, -1)
      else
        case (case key of
                None \<Rightarrow> Some (tl (nodes sl))
              | Some k \<Rightarrow>
                  if cmp (hd (nodes sl)) k = 0 then Some (tl (nodes sl))
                  else map_option ((#) (hd (nodes sl))) (take_out cmp (unsorted sl) k (tl (nodes sl)))) of
          None \<Rightarrow> (sl, -2)
        | Some xs \<Rightarrow> (sl\<lparr>nodes := xs, node_count := node_count sl - 1, ssll_sync := ssll_sync sl + 1\<rparr>, 0))"

definition ssll_size :: "'a ssll \<Rightarrow> nat" where
  "ssll_size sl = node_count sl"

definition ssll_clear :: "'a ssll \<Rightarrow> 'a ssll \<times> 'a list" where
  "ssll_clear sl = (sl\<lparr>nodes := [], node_count := 0, ssll_sync := ssll_sync sl + 1\<rparr>, nodes sl)"

text \<open>The four kinds of list the factories make.\<close>

definition ContainerListSsll_getSsll :: "'a ssll" where
  "ContainerListSsll_getSsll =
     \<lparr>nodes = [], node_count = 0, unsorted = False, fifo = False, ssll_sync = 0\<rparr>"

definition ContainerListSsll_getUsll :: "'a ssll" where
  "ContainerListSsll_getUsll = ContainerListSsll_getSsll\<lparr>unsorted := True\<rparr>"

definition ContainerListSsll_getSinglyLinkedList :: "bool \<Rightarrow> 'a ssll" where
  "ContainerListSsll_getSinglyLinkedList ff = ContainerListSsll_getUsll\<lparr>fifo := ff\<rparr>"

definition ContainerListSsll_getFifo :: "'a ssll" where
  "ContainerListSsll_getFifo = ContainerListSsll_getSinglyLinkedList True"

section \<open>Iterators\<close>

text \<open>
  The iterator's \<open>last\<close> operation returns an entry the first time and the node itself afterwards:
  the two are told apart here.
\<close>

datatype 'a pointer = Entry 'a | Node "'a list"

record 'a ssll_iterator =
  base_sync :: u64
  at_node :: "'a list"
  last_node :: "'a list"

definition ssll_iteratorCurr :: "'a ssll \<Rightarrow> 'a ssll_iterator \<Rightarrow> 'a option" where
  "ssll_iteratorCurr sl it =
     (if ssll_sync sl \<noteq> base_sync it \<or> at_node it = [] then None else Some (hd (at_node it)))"

definition ssll_iteratorFirst :: "'a ssll \<Rightarrow> 'a ssll_iterator \<Rightarrow> 'a option" where
  "ssll_iteratorFirst sl it =
     (if ssll_sync sl \<noteq> base_sync it \<or> nodes sl = [] then None else Some (hd (nodes sl)))"

definition ssll_iteratorNext :: "'a ssll \<Rightarrow> 'a ssll_iterator \<Rightarrow> 'a ssll_iterator \<times> 'a option" where
  "ssll_iteratorNext sl it =
     (if ssll_sync sl \<noteq> base_sync it \<or> at_node it = [] then (it, None)
      else (it\<lparr>at_node := tl (at_node it)\<rparr>,
            if tl (at_node it) = [] then None else Some (hd (tl (at_node it)))))"

definition ssll_iteratorLast :: "'a ssll \<Rightarrow> 'a ssll_iterator \<Rightarrow> 'a ssll_iterator \<times> 'a pointer option" where
  "ssll_iteratorLast sl it =
     (if ssll_sync sl \<noteq> base_sync it then (it, None)
      else if last_node it \<noteq> [] then (it, Some (Node (last_node it)))
      else let n = (if at_node it \<noteq> [] then at_node it else nodes sl)
           in if n = [] then (it, None)
              else (it\<lparr>last_node := [last n]\<rparr>, Some (Entry (last n))))"

definition ssll_iteratorReset :: "'a ssll \<Rightarrow> 'a ssll_iterator \<Rightarrow> 'a ssll_iterator" where
  "ssll_iteratorReset sl it = it\<lparr>last_node := [], at_node := nodes sl, base_sync := ssll_sync sl\<rparr>"

section \<open>What the operations do\<close>

lemma mset_sorted_in [simp]: "mset (sorted_in cmp x xs) = add_mset x (mset xs)"
  by (induction xs) auto

lemma take_out_None: "take_out cmp True k xs = None \<longleftrightarrow> (\<forall>x \<in> set xs. cmp x k \<noteq> 0)"
  by (induction xs) auto

lemma take_out_Some:
  "take_out cmp uns k xs = Some ys \<Longrightarrow> \<exists>x \<in># mset xs. cmp x k = 0 \<and> mset ys = mset xs - {#x#}"
proof (induction xs arbitrary: ys)
  case (Cons a xs)
  show ?case
  proof (cases "cmp a k = 0")
    case False
    then obtain zs where "take_out cmp uns k xs = Some zs" "ys = a # zs"
      using Cons.prems by (auto split: if_splits)
    then show ?thesis
      using Cons.IH [of zs] by (auto simp: insert_DiffM multiset_eq_iff)
  qed (use Cons.prems in auto)
qed simp

lemma subseq_take_out: "take_out cmp uns k xs = Some ys \<Longrightarrow> sorted_wrt P xs \<Longrightarrow> sorted_wrt P ys \<and> set ys \<subseteq> set xs"
  by (induction xs arbitrary: ys) (auto split: if_splits, blast+)

context total_compare
begin

definition ssll_wf :: "'a ssll \<Rightarrow> bool" where
  "ssll_wf sl \<longleftrightarrow> node_count sl = length (nodes sl) \<and> (unsorted sl \<or> sorted_wrt le (nodes sl))"

lemma sorted_in_sorted: "sorted_wrt le xs \<Longrightarrow> sorted_wrt le (sorted_in cmp x xs)"
proof (induction xs)
  case (Cons y ys)
  have set_in: "set (sorted_in cmp x ys) = insert x (set ys)"
    using mset_sorted_in [of cmp x ys] by (metis set_mset_add_mset_insert set_mset_mset)
  have "0 < cmp y x \<longleftrightarrow> \<not> le y x"
    by (auto simp: le_def)
  then show ?case
    using Cons set_in le_linear [of x y] le_trans [of x y] by auto
qed simp

lemma take_out_sorted_None:
  "sorted_wrt le xs \<Longrightarrow> take_out cmp uns k xs = None \<Longrightarrow> x \<in> set xs \<Longrightarrow> cmp x k \<noteq> 0"
proof (induction xs)
  case (Cons a xs)
  show ?case
  proof (cases "0 < cmp a k \<and> \<not> uns")
    case True
    then have "cmp k a < 0"
      using cmp_flip by blast
    then have "cmp k x < 0"
      using Cons.prems(1,3) cmp_less_le_trans by auto
    then show ?thesis
      using cmp_flip [of k x] by auto
  next
    case False
    then show ?thesis
      using Cons by (auto split: if_splits)
  qed
qed simp

lemma ssll_insert_spec:
  assumes "ssll_wf sl" and "ssll_insert alloc cmp sl x = (sl', rc)"
  shows "ssll_wf sl'" and "unsorted sl' = unsorted sl"
    and "rc = 0 \<and> mset (nodes sl') = add_mset x (mset (nodes sl)) \<or> rc = -1 \<and> sl' = sl"
    and "rc \<noteq> 0 \<Longrightarrow> \<not> (\<forall>n. alloc n)"
proof -
  have "length (sorted_in cmp x xs) = Suc (length xs)" for xs
    by (induction xs) auto
  then show "ssll_wf sl'" "unsorted sl' = unsorted sl"
    "rc = 0 \<and> mset (nodes sl') = add_mset x (mset (nodes sl)) \<or> rc = -1 \<and> sl' = sl"
    "rc \<noteq> 0 \<Longrightarrow> \<not> (\<forall>n. alloc n)"
    using assms sorted_in_sorted by (auto simp: ssll_insert_def ssll_wf_def split: if_splits)
qed

lemma ssll_remove_spec:
  assumes "ssll_wf sl" and "ssll_remove cmp sl (Some k) = (sl', rc)"
  shows "ssll_wf sl'" and "unsorted sl' = unsorted sl"
    and "rc = 0 \<and> (\<exists>x \<in># mset (nodes sl). cmp x k = 0 \<and> mset (nodes sl') = mset (nodes sl) - {#x#}) \<or>
      rc < 0 \<and> sl' = sl \<and> (\<forall>x \<in># mset (nodes sl). cmp x k \<noteq> 0)"
proof -
  have "ssll_wf sl' \<and> unsorted sl' = unsorted sl \<and>
    (rc = 0 \<and> (\<exists>x \<in># mset (nodes sl). cmp x k = 0 \<and> mset (nodes sl') = mset (nodes sl) - {#x#}) \<or>
      rc < 0 \<and> sl' = sl \<and> (\<forall>x \<in># mset (nodes sl). cmp x k \<noteq> 0))"
  proof (cases "nodes sl")
    case Nil
    then show ?thesis
      using assms by (auto simp: ssll_remove_def)
  next
    case (Cons h t)
    have sorted: "unsorted sl \<or> sorted_wrt le t" and cnt: "node_count sl = Suc (length t)"
      using assms(1) Cons by (auto simp: ssll_wf_def)
    show ?thesis
    proof (cases "cmp h k = 0")
      case True
      then show ?thesis
        using assms Cons by (auto simp: ssll_remove_def ssll_wf_def)
    next
      case neq: False
      show ?thesis
      proof (cases "take_out cmp (unsorted sl) k t")
        case None
        then have "\<forall>x \<in> set t. cmp x k \<noteq> 0"
          using sorted take_out_None [of cmp k t] take_out_sorted_None [of t] by (cases "unsorted sl") auto
        then show ?thesis
          using assms Cons neq None by (auto simp: ssll_remove_def)
      next
        case (Some ys)
        have sl': "sl' = sl\<lparr>nodes := h # ys, node_count := length t, ssll_sync := ssll_sync sl + 1\<rparr>" "rc = 0"
          using assms(2) Cons neq Some cnt by (auto simp: ssll_remove_def)
        obtain x where x: "x \<in># mset t" "cmp x k = 0" "mset ys = mset t - {#x#}"
          using take_out_Some [OF Some] by blast
        then have "size (mset ys) = size (mset t) - 1"
          by (simp add: size_Diff_singleton)
        moreover have "t \<noteq> []"
          using x(1) by auto
        ultimately have "length (h # ys) = length t"
          by (cases t) auto
        moreover have "unsorted sl \<or> sorted_wrt le (h # ys)"
          using assms(1) Cons subseq_take_out [OF Some] by (auto simp: ssll_wf_def)
        ultimately have "ssll_wf sl'"
          by (simp add: ssll_wf_def sl')
        moreover have "mset (h # ys) = mset (nodes sl) - {#x#}"
          using x(1,3) Cons by (simp add: multiset_eq_iff)
        ultimately show ?thesis
          using sl' x(1,2) Cons by auto
      qed
    qed
  qed
  then show "ssll_wf sl'" "unsorted sl' = unsorted sl"
    "rc = 0 \<and> (\<exists>x \<in># mset (nodes sl). cmp x k = 0 \<and> mset (nodes sl') = mset (nodes sl) - {#x#}) \<or>
      rc < 0 \<and> sl' = sl \<and> (\<forall>x \<in># mset (nodes sl). cmp x k \<noteq> 0)"
    by simp_all
qed

text \<open>On a sorted list the search stops at the first node not below the key, equal to it or not.\<close>

lemma seek_sorted:
  "case seek cmp False k xs rc of
     ([], _) \<Rightarrow> \<forall>x \<in> set xs. cmp x k < 0
   | (x # ys, rc') \<Rightarrow> rc' = cmp x k \<and> 0 \<le> cmp x k \<and> (\<exists>zs. xs = zs @ x # ys \<and> (\<forall>z \<in> set zs. cmp z k < 0))"
proof (induction xs arbitrary: rc)
  case (Cons x xs)
  show ?case
  proof (cases "cmp x k < 0")
    case True
    then have "seek cmp False k (x # xs) rc = seek cmp False k xs (cmp x k)"
      by (simp add: Let_def)
    moreover have "\<exists>zs. x # xs = zs @ y # ys \<and> (\<forall>z \<in> set zs. cmp z k < 0)"
      if "\<exists>zs. xs = zs @ y # ys \<and> (\<forall>z \<in> set zs. cmp z k < 0)" for y ys
      using that True by (metis append_Cons set_ConsD)
    ultimately show ?thesis
      using Cons.IH [of "cmp x k"] True by (auto split: prod.splits list.splits)
  next
    case False
    then have "seek cmp False k (x # xs) rc = (x # xs, cmp x k)"
      by (auto simp: Let_def)
    then show ?thesis
      using False by auto
  qed
qed simp

lemma ssll_find_sorted:
  assumes "\<not> unsorted sl"
  shows "ssll_find cmp sl (Some k) = find (\<lambda>x. 0 \<le> cmp x k) (nodes sl)"
proof -
  obtain cur rc where S: "seek cmp False k (nodes sl) 0 = (cur, rc)"
    by (cases "seek cmp False k (nodes sl) 0") auto
  have "ssll_find cmp sl (Some k) = (if cur = [] then None else Some (hd cur))"
    using assms S by (auto simp: ssll_find_def ssll_get_def)
  moreover have "find (\<lambda>x. 0 \<le> cmp x k) (nodes sl) = (if cur = [] then None else Some (hd cur))"
  proof (cases cur)
    case Nil
    then show ?thesis
      using seek_sorted [where k = k and xs = "nodes sl" and rc = 0] by (auto simp: S find_None_iff)
  next
    case (Cons x ys)
    then obtain zs where "nodes sl = zs @ x # ys" "\<forall>z \<in> set zs. \<not> 0 \<le> cmp z k" "0 \<le> cmp x k"
      using seek_sorted [where k = k and xs = "nodes sl" and rc = 0] by (auto simp: S linorder_not_le)
    then show ?thesis
      using Cons find_append [of zs "\<lambda>x. 0 \<le> cmp x k"] by simp
  qed
  ultimately show ?thesis by simp
qed

lemma ssll_next_sorted:
  assumes "\<not> unsorted sl" and "sorted_wrt (\<lambda>x y. cmp x y < 0) (nodes sl)"
  shows "ssll_findNext cmp sl (Some k) = find (\<lambda>x. 0 < cmp x k) (nodes sl)"
proof -
  obtain cur rc where S: "seek cmp False k (nodes sl) 0 = (cur, rc)"
    by (cases "seek cmp False k (nodes sl) 0") auto
  let ?cur = "if cur \<noteq> [] \<and> rc = 0 then tl cur else cur"
  have "ssll_findNext cmp sl (Some k) = (if ?cur = [] then None else Some (hd ?cur))"
    using assms(1) S by (auto simp: ssll_findNext_def ssll_get_def Let_def)
  moreover have "find (\<lambda>x. 0 < cmp x k) (nodes sl) = (if ?cur = [] then None else Some (hd ?cur))"
  proof (cases cur)
    case Nil
    then show ?thesis
      using seek_sorted [where k = k and xs = "nodes sl" and rc = 0] by (auto simp: S find_None_iff)
  next
    case (Cons x ys)
    then obtain zs where zs: "nodes sl = zs @ x # ys" "\<forall>z \<in> set zs. cmp z k < 0" "rc = cmp x k" "0 \<le> cmp x k"
      using seek_sorted [where k = k and xs = "nodes sl" and rc = 0] by (auto simp: S)
    have "0 < cmp y k" if "cmp x k = 0" "y \<in> set ys" for y
    proof -
      have "cmp x y < 0" "le k x"
        using assms(2) zs(1) that cmp_zero_sym [of x k] by (auto simp: sorted_wrt_append le_def)
      then show ?thesis
        using le_cmp_less_trans cmp_flip by blast
    qed
    then have "find (\<lambda>x. 0 < cmp x k) ys = (if ys = [] then None else Some (hd ys))" if "cmp x k = 0"
      using that by (cases ys) auto
    moreover have "\<forall>z \<in> set zs. \<not> 0 < cmp z k"
      using zs(2) by auto
    ultimately show ?thesis
      using zs(1,3,4) Cons find_append [of zs "\<lambda>x. 0 < cmp x k"] by auto
  qed
  ultimately show ?thesis by simp
qed

end

end
