(* ===== verification/Containers.thy ===== *)
theory Containers
  imports BinArray ListSsll OidCmp
begin

text \<open>
  Containers as their users see them (src/Firmware/Core/System/Containers/Container.c): the
  comparisons, the interface behind the function pointers of \<open>Container_Container\<close>, the sorted array
  and the sorted list as its providers, and the operations over a chain of indexes.
\<close>

section \<open>The comparisons\<close>

text \<open>The key of an entry is its first member: an identifier (\<open>Types_Index\<close>), a name, a number.\<close>

record index_entry =
  oids :: "oid list"
  payload :: nat

definition Container_compareIndex :: "index_entry \<Rightarrow> index_entry \<Rightarrow> int" where
  "Container_compareIndex lhs rhs = Api_oidCompare (oids lhs) (oids rhs)"

definition Container_nCompareIndex :: "index_entry \<Rightarrow> index_entry \<Rightarrow> int" where
  "Container_nCompareIndex lhs rhs = Api_oidNcompare (oids lhs) (oids rhs) (length (oids rhs))"

text \<open>The sign of \<open>strcmp\<close> on strings without their terminating NUL.\<close>

definition strcmp :: "u8 list \<Rightarrow> u8 list \<Rightarrow> int" where
  "strcmp s t = (if s < t then -1 else if s = t then 0 else 1)"

definition Container_compareDirectCstring :: "u8 list \<Rightarrow> u8 list \<Rightarrow> int" where
  "Container_compareDirectCstring lhs rhs = strcmp lhs rhs"

record container_type =
  name :: "u8 list"
  factory :: nat

definition Container_compareCstring :: "container_type \<Rightarrow> container_type \<Rightarrow> int" where
  "Container_compareCstring lhs rhs = strcmp (name lhs) (name rhs)"

definition Container_compareMem :: "u8 list \<Rightarrow> u8 list \<Rightarrow> int" where
  "Container_compareMem lhs rhs =
     (let rc = memcmp lhs rhs (min (length lhs) (length rhs))
      in if rc = 0 \<and> length lhs \<noteq> length rhs
         then (if length lhs < length rhs then -1 else 1)
         else rc)"

definition Container_compareLong :: "u64 \<Rightarrow> u64 \<Rightarrow> int" where
  "Container_compareLong lhs rhs =
     (if sint lhs < sint rhs then -1 else if sint rhs < sint lhs then 1 else 0)"

definition Container_compareUlong :: "u64 \<Rightarrow> u64 \<Rightarrow> int" where
  "Container_compareUlong lhs rhs = (if lhs < rhs then -1 else if rhs < lhs then 1 else 0)"

definition Container_compareInt32 :: "u32 \<Rightarrow> u32 \<Rightarrow> int" where
  "Container_compareInt32 lhs rhs =
     (if sint lhs < sint rhs then -1 else if sint rhs < sint lhs then 1 else 0)"

definition Container_compareUint32 :: "u32 \<Rightarrow> u32 \<Rightarrow> int" where
  "Container_compareUint32 lhs rhs = (if lhs < rhs then -1 else if rhs < lhs then 1 else 0)"

lemma compareMem_lex: "Container_compareMem lhs rhs = strcmp lhs rhs"
proof (induction lhs arbitrary: rhs)
  case Nil
  then show ?case
    by (cases rhs) (simp_all add: Container_compareMem_def memcmp_def strcmp_def)
next
  case (Cons x xs)
  then show ?case
  proof (cases rhs)
    case Nil
    then show ?thesis
      by (simp add: Container_compareMem_def memcmp_def strcmp_def)
  next
    case (Cons y ys)
    then show ?thesis
      using Cons.IH [of ys] by (auto simp: Container_compareMem_def memcmp_def strcmp_def Let_def
          split: if_splits)
  qed
qed

interpretation index: total_compare Container_compareIndex
  by unfold_locales (auto simp: Container_compareIndex_def)

interpretation direct_cstring: total_compare Container_compareDirectCstring
  by unfold_locales (auto simp: Container_compareDirectCstring_def strcmp_def split: if_splits)

interpretation cstring: total_compare Container_compareCstring
  by unfold_locales (auto simp: Container_compareCstring_def strcmp_def split: if_splits)

interpretation bytes: total_compare Container_compareMem
  by unfold_locales (auto simp: compareMem_lex strcmp_def split: if_splits)

interpretation long: total_compare Container_compareLong
  by unfold_locales (auto simp: Container_compareLong_def split: if_splits)

interpretation ulong: total_compare Container_compareUlong
  by unfold_locales (auto simp: Container_compareUlong_def split: if_splits)

interpretation int32: total_compare Container_compareInt32
  by unfold_locales (auto simp: Container_compareInt32_def split: if_splits)

interpretation uint32: total_compare Container_compareUint32
  by unfold_locales (auto simp: Container_compareUint32_def split: if_splits)

section \<open>The interface\<close>

text \<open>
  The operations behind the function pointers of a container, with \<open>inv\<close> its invariant and
  \<open>entries\<close> the multiset of the entries it stores. What every container promises: an insertion adds
  the entry or fails without a trace; a removal takes out one entry with the key, if there is one;
  a search for a key that is stored finds an entry with it; and where keys are unique the get-next
  operation answers the least entry above the key, or the least of all without a key.
\<close>

locale container = total_compare cmp
  for cmp :: "'a \<Rightarrow> 'a \<Rightarrow> int" +
  fixes insert_op :: "(nat \<Rightarrow> bool) \<Rightarrow> 'c \<Rightarrow> 'a \<Rightarrow> 'c \<times> int"
    and remove_op :: "'c \<Rightarrow> 'a \<Rightarrow> ('c \<times> int) outcome"
    and find_op :: "'c \<Rightarrow> 'a \<Rightarrow> 'c \<times> 'a option"
    and next_op :: "'c \<Rightarrow> 'a option \<Rightarrow> 'c \<times> 'a option"
    and inv :: "'c \<Rightarrow> bool"
    and entries :: "'c \<Rightarrow> 'a multiset"
  assumes insert_law: "inv c \<Longrightarrow> insert_op alloc c x = (c', rc) \<Longrightarrow>
      inv c' \<and> entries c' = (if rc = 0 then add_mset x (entries c) else entries c)"
    and remove_law: "inv c \<Longrightarrow> \<exists>c' rc. remove_op c x = Ret (c', rc) \<and> inv c' \<and>
      (if \<exists>y \<in># entries c. cmp y x = 0
       then rc = 0 \<and> (\<exists>y \<in># entries c. cmp y x = 0 \<and> entries c' = entries c - {#y#})
       else entries c' = entries c)"
    and find_law: "inv c \<Longrightarrow> find_op c x = (c', r) \<Longrightarrow> inv c' \<and> entries c' = entries c \<and>
      ((\<exists>y \<in># entries c. cmp y x = 0) \<longrightarrow> (\<exists>y. r = Some y \<and> y \<in># entries c \<and> cmp y x = 0))"
    and next_law: "inv c \<Longrightarrow> unique_keys (entries c) \<Longrightarrow> next_op c k = (c', r) \<Longrightarrow>
      inv c' \<and> entries c' = entries c \<and>
      (case r of
         None \<Rightarrow> \<forall>y \<in># entries c. \<exists>x. k = Some x \<and> cmp y x \<le> 0
       | Some z \<Rightarrow> z \<in># entries c \<and> (\<forall>x. k = Some x \<longrightarrow> 0 < cmp z x) \<and>
           (\<forall>y \<in># entries c. (\<forall>x. k = Some x \<longrightarrow> 0 < cmp y x) \<longrightarrow> le z y))"

text \<open>A container whose find operation answers nothing for a key that is not stored.\<close>

locale exact_container = container +
  assumes find_exact: "inv c \<Longrightarrow> find_op c x = (c', Some y) \<Longrightarrow> cmp y x = 0"

section \<open>Walking over a container\<close>

text \<open>
  The loop \<open>for( x = CONTAINER_FIRST( c ); x; x = CONTAINER_NEXT( c, x ) )\<close>, with the number of rounds
  as fuel: the entries it sees.
\<close>

fun walk :: "('c \<Rightarrow> 'a option \<Rightarrow> 'c \<times> 'a option) \<Rightarrow> nat \<Rightarrow> 'c \<Rightarrow> 'a option \<Rightarrow> 'a list" where
  "walk next 0 c k = []"
| "walk next (Suc n) c k =
     (case next c k of (c', None) \<Rightarrow> [] | (c', Some x) \<Rightarrow> x # walk next n c' (Some x))"

context container
begin

definition beyond :: "'a option \<Rightarrow> 'a \<Rightarrow> bool" where
  "beyond k y \<longleftrightarrow> (\<forall>x. k = Some x \<longrightarrow> 0 < cmp y x)"

lemma next_beyond:
  assumes "inv c" and "unique_keys (entries c)" and "next_op c k = (c', r)"
  shows "inv c'" and "entries c' = entries c"
    and "r = None \<Longrightarrow> filter_mset (beyond k) (entries c) = {#}"
    and "r = Some z \<Longrightarrow> filter_mset (beyond k) (entries c) =
      add_mset z (filter_mset (beyond (Some z)) (entries c))"
proof -
  note N = next_law [OF assms]
  show "inv c'" "entries c' = entries c"
    using N by simp_all
  show "filter_mset (beyond k) (entries c) = {#}" if "r = None"
    using N that by (auto simp: beyond_def)
  show "filter_mset (beyond k) (entries c) = add_mset z (filter_mset (beyond (Some z)) (entries c))"
    if "r = Some z"
  proof -
    have z: "z \<in># entries c" "beyond k z"
      and least: "\<And>y. y \<in># entries c \<Longrightarrow> beyond k y \<Longrightarrow> le z y"
      using N that by (auto simp: beyond_def)
    obtain M where M: "entries c = add_mset z M"
      using z(1) by (rule mset_add)
    have uniq: "\<forall>y \<in># M. cmp z y \<noteq> 0"
      using assms(2) by (simp add: M unique_keys_add)
    have "beyond k y \<longleftrightarrow> beyond (Some z) y" if y: "y \<in># M" for y
    proof
      assume "beyond k y"
      then have "le z y" "cmp z y \<noteq> 0"
        using least y uniq by (auto simp: M)
      then show "beyond (Some z) y"
        using cmp_flip [of z y] by (auto simp: beyond_def le_def)
    next
      assume "beyond (Some z) y"
      then have "le z y"
        using cmp_flip [of z y] by (auto simp: beyond_def le_def)
      then show "beyond k y"
        using z(2) cmp_flip cmp_less_le_trans unfolding beyond_def by blast
    qed
    then have "filter_mset (beyond k) M = filter_mset (beyond (Some z)) M"
      by (rule filter_mset_cong [OF refl])
    moreover have "\<not> beyond (Some z) z"
      using le_refl [of z, unfolded le_def] by (auto simp: beyond_def)
    ultimately show ?thesis
      using z(2) by (simp add: M)
  qed
qed

lemma walk_beyond:
  assumes "inv c" and "unique_keys (entries c)" and "size (filter_mset (beyond k) (entries c)) \<le> n"
  shows "mset (walk next_op n c k) = filter_mset (beyond k) (entries c) \<and>
    sorted_wrt (\<lambda>x y. cmp x y < 0) (walk next_op n c k)"
  using assms
proof (induction n arbitrary: c k)
  case (Suc n)
  obtain c' r where N: "next_op c k = (c', r)"
    by (cases "next_op c k") auto
  note B = next_beyond [OF Suc.prems(1,2) N]
  show ?case
  proof (cases r)
    case None
    then show ?thesis
      using B(3) N by simp
  next
    case (Some z)
    have F: "filter_mset (beyond k) (entries c) = add_mset z (filter_mset (beyond (Some z)) (entries c))"
      using B(4) [OF Some] .
    have IH: "mset (walk next_op n c' (Some z)) = filter_mset (beyond (Some z)) (entries c)"
      "sorted_wrt (\<lambda>x y. cmp x y < 0) (walk next_op n c' (Some z))"
      using Suc.IH [of c' "Some z"] Suc.prems(2,3) B(1,2) F by simp_all
    have "\<forall>y \<in> set (walk next_op n c' (Some z)). cmp z y < 0"
      using arg_cong [OF IH(1), of set_mset] cmp_flip [of z] by (auto simp: beyond_def)
    then show ?thesis
      using N Some F IH by simp
  qed
qed simp

text \<open>With a round for every entry the walk sees every entry once, in the order of the keys.\<close>

lemma walk_all:
  assumes "inv c" and "unique_keys (entries c)" and "size (entries c) \<le> n"
  shows "mset (walk next_op n c None) = entries c"
    and "sorted_wrt (\<lambda>x y. cmp x y < 0) (walk next_op n c None)"
proof -
  have "filter_mset (beyond None) (entries c) = entries c"
    by (simp add: beyond_def [abs_def])
  then show "mset (walk next_op n c None) = entries c"
    "sorted_wrt (\<lambda>x y. cmp x y < 0) (walk next_op n c None)"
    using walk_beyond [OF assms(1,2), of None n] assms(3) by simp_all
qed

end

section \<open>The providers\<close>

definition baInsert ::
    "('a \<Rightarrow> 'a \<Rightarrow> int) \<Rightarrow> (nat \<Rightarrow> bool) \<Rightarrow> 'a binarray \<Rightarrow> 'a \<Rightarrow> 'a binarray \<times> int" where
  "baInsert cmp alloc c x = insert_entry alloc cmp c x"

definition baRemove :: "('a \<Rightarrow> 'a \<Rightarrow> int) \<Rightarrow> 'a binarray \<Rightarrow> 'a \<Rightarrow> ('a binarray \<times> int) outcome" where
  "baRemove cmp c x = obind (ContainerBinaryArray_remove cmp c x) (\<lambda>(c', rc, _). Ret (c', rc))"

definition baFind :: "('a \<Rightarrow> 'a \<Rightarrow> int) \<Rightarrow> 'a binarray \<Rightarrow> 'a \<Rightarrow> 'a binarray \<times> 'a option" where
  "baFind cmp c x = get2 cmp c (Some x) True"

definition baFindNext :: "('a \<Rightarrow> 'a \<Rightarrow> int) \<Rightarrow> 'a binarray \<Rightarrow> 'a option \<Rightarrow> 'a binarray \<times> 'a option" where
  "baFindNext cmp c k = get2 cmp c k False"

definition slInsert :: "('a \<Rightarrow> 'a \<Rightarrow> int) \<Rightarrow> (nat \<Rightarrow> bool) \<Rightarrow> 'a ssll \<Rightarrow> 'a \<Rightarrow> 'a ssll \<times> int" where
  "slInsert cmp alloc c x = ssll_insert alloc cmp c x"

definition slRemove :: "('a \<Rightarrow> 'a \<Rightarrow> int) \<Rightarrow> 'a ssll \<Rightarrow> 'a \<Rightarrow> ('a ssll \<times> int) outcome" where
  "slRemove cmp c x = Ret (ssll_remove cmp c (Some x))"

definition slFind :: "('a \<Rightarrow> 'a \<Rightarrow> int) \<Rightarrow> 'a ssll \<Rightarrow> 'a \<Rightarrow> 'a ssll \<times> 'a option" where
  "slFind cmp c x = (c, ssll_find cmp c (Some x))"

definition slFindNext :: "('a \<Rightarrow> 'a \<Rightarrow> int) \<Rightarrow> 'a ssll \<Rightarrow> 'a option \<Rightarrow> 'a ssll \<times> 'a option" where
  "slFindNext cmp c k = (c, ssll_findNext cmp c k)"

definition ba_entries :: "'a binarray \<Rightarrow> 'a multiset" where
  "ba_entries c = mset (contents c)"

definition sl_entries :: "'a ssll \<Rightarrow> 'a multiset" where
  "sl_entries c = mset (nodes c)"

context total_compare
begin

definition ba_inv :: "'a binarray \<Rightarrow> bool" where
  "ba_inv c \<longleftrightarrow> wf c \<and> \<not> has_flag CONTAINER_KEY_UNSORTED c"

definition sl_inv :: "'a ssll \<Rightarrow> bool" where
  "sl_inv c \<longleftrightarrow> ssll_wf c \<and> \<not> unsorted c"

lemma find_least:
  "sorted_wrt le xs \<Longrightarrow> (case find P xs of
     None \<Rightarrow> \<forall>y \<in># mset xs. \<not> P y
   | Some z \<Rightarrow> z \<in># mset xs \<and> P z \<and> (\<forall>y \<in># mset xs. P y \<longrightarrow> le z y))"
  by (induction xs) (auto split: option.splits)

lemma ba_inv_keep:
  "ba_inv c \<Longrightarrow> wf c' \<Longrightarrow> flags c' = flags c \<Longrightarrow> ba_inv c'"
  by (simp add: ba_inv_def has_flag_def)

lemma ba_same:
  "ba_inv c \<Longrightarrow> same_entries c c' \<Longrightarrow> ba_inv c' \<and> ba_entries c' = ba_entries c \<and> sorted_wrt le (contents c')"
  using ba_inv_keep [of c c'] by (auto simp: same_entries_def ba_inv_def ba_entries_def)

lemma ba_insert:
  assumes "ba_inv c" and "baInsert cmp alloc c x = (c', rc)"
  shows "ba_inv c' \<and> ba_entries c' = (if rc = 0 then add_mset x (ba_entries c) else ba_entries c)"
  using insert_entry_spec(1-3) [of c alloc x c' rc] assms ba_inv_keep [of c c']
  by (auto simp: baInsert_def ba_inv_def ba_entries_def)

lemma ba_remove:
  assumes "ba_inv c"
  shows "\<exists>c' rc. baRemove cmp c x = Ret (c', rc) \<and> ba_inv c' \<and>
    (if \<exists>y \<in># ba_entries c. cmp y x = 0
     then rc = 0 \<and> (\<exists>y \<in># ba_entries c. cmp y x = 0 \<and> ba_entries c' = ba_entries c - {#y#})
     else ba_entries c' = ba_entries c)"
proof -
  have "wf c"
    using assms by (simp add: ba_inv_def)
  then obtain c' rc old where R: "ContainerBinaryArray_remove cmp c x = Ret (c', rc, old)"
    and w: "wf c'" "flags c' = flags c" and old: "case old of
       None \<Rightarrow> mset (contents c') = mset (contents c) \<and> (\<forall>y \<in># mset (contents c). cmp y x \<noteq> 0) \<and>
         rc = (if contents c = [] then 0 else -1)
     | Some y \<Rightarrow> rc = 0 \<and> y \<in># mset (contents c) \<and> cmp y x = 0 \<and>
         mset (contents c') = mset (contents c) - {#y#}"
    using remove_spec [of c x] by blast
  have "ba_inv c'"
    using ba_inv_keep [OF assms w] .
  then show ?thesis
    using R old by (cases old) (auto simp: baRemove_def ba_entries_def)
qed

lemma ba_find:
  assumes "ba_inv c" and "baFind cmp c x = (c', r)"
  shows "ba_inv c'" and "ba_entries c' = ba_entries c"
    and "case r of None \<Rightarrow> \<forall>y \<in># ba_entries c. cmp y x \<noteq> 0 | Some y \<Rightarrow> y \<in># ba_entries c \<and> cmp y x = 0"
  using get2_exact [of c x c' r] assms ba_same [of c c']
  by (cases r; auto simp: baFind_def ba_entries_def ba_inv_def)+

lemma ba_next:
  assumes "ba_inv c" and "baFindNext cmp c k = (c', r)"
  shows "ba_inv c' \<and> ba_entries c' = ba_entries c \<and>
      (case r of
         None \<Rightarrow> \<forall>y \<in># ba_entries c. \<exists>x. k = Some x \<and> cmp y x \<le> 0
       | Some z \<Rightarrow> z \<in># ba_entries c \<and> (\<forall>x. k = Some x \<longrightarrow> 0 < cmp z x) \<and>
           (\<forall>y \<in># ba_entries c. (\<forall>x. k = Some x \<longrightarrow> 0 < cmp y x) \<longrightarrow> le z y))"
proof (cases k)
  case None
  have G: "same_entries c c'" and r: "r = (if contents c' = [] then None else Some (hd (contents c')))"
    using get2_first [of c c' r] assms None by (auto simp: baFindNext_def ba_inv_def)
  have hd: "hd xs \<in># mset xs \<and> (\<forall>y \<in># mset xs. le (hd xs) y)" if "sorted_wrt le xs" "xs \<noteq> []" for xs
    using that by (cases xs) auto
  show ?thesis
    using ba_same [OF assms(1) G] None r hd [of "contents c'"]
    by (cases "contents c' = []") (simp_all add: ba_entries_def)
next
  case (Some x)
  have G: "same_entries c c'" and r: "r = find (\<lambda>y. 0 < cmp y x) (contents c')"
    using get2_next [of c x c' r] assms Some by (auto simp: baFindNext_def ba_inv_def)
  show ?thesis
    using ba_same [OF assms(1) G] Some find_least [of "contents c'" "\<lambda>y. 0 < cmp y x"]
    by (auto simp: ba_entries_def r linorder_not_less split: option.splits)
qed

lemma sl_insert:
  assumes "sl_inv c" and "slInsert cmp alloc c x = (c', rc)"
  shows "sl_inv c' \<and> sl_entries c' = (if rc = 0 then add_mset x (sl_entries c) else sl_entries c)"
  using ssll_insert_spec(1-3) [of c alloc x c' rc] assms
  by (auto simp: slInsert_def sl_inv_def sl_entries_def)

lemma sl_remove:
  assumes "sl_inv c"
  shows "\<exists>c' rc. slRemove cmp c x = Ret (c', rc) \<and> sl_inv c' \<and>
    (if \<exists>y \<in># sl_entries c. cmp y x = 0
     then rc = 0 \<and> (\<exists>y \<in># sl_entries c. cmp y x = 0 \<and> sl_entries c' = sl_entries c - {#y#})
     else sl_entries c' = sl_entries c)"
proof -
  obtain c' rc where R: "ssll_remove cmp c (Some x) = (c', rc)"
    by (cases "ssll_remove cmp c (Some x)") auto
  have "ssll_wf c"
    using assms by (simp add: sl_inv_def)
  note S = ssll_remove_spec [OF this R]
  show ?thesis
    using S assms by (auto simp: slRemove_def R sl_inv_def sl_entries_def)
qed

lemma sl_next:
  assumes "sl_inv c" and "unique_keys (sl_entries c)"
  shows "case ssll_findNext cmp c k of
         None \<Rightarrow> \<forall>y \<in># sl_entries c. \<exists>x. k = Some x \<and> cmp y x \<le> 0
       | Some z \<Rightarrow> z \<in># sl_entries c \<and> (\<forall>x. k = Some x \<longrightarrow> 0 < cmp z x) \<and>
           (\<forall>y \<in># sl_entries c. (\<forall>x. k = Some x \<longrightarrow> 0 < cmp y x) \<longrightarrow> le z y)"
proof -
  have sorted: "sorted_wrt le (nodes c)" and uns: "\<not> unsorted c"
    using assms(1) by (auto simp: sl_inv_def ssll_wf_def)
  then have strict: "sorted_wrt (\<lambda>x y. cmp x y < 0) (nodes c)"
    using sorted_strict assms(2) by (simp add: sl_entries_def)
  show ?thesis
  proof (cases k)
    case None
    then show ?thesis
      using sorted by (cases "nodes c") (auto simp: ssll_findNext_def ssll_get_def sl_entries_def)
  next
    case (Some x)
    then show ?thesis
      using ssll_next_sorted [OF uns strict, of x] find_least [OF sorted, of "\<lambda>y. 0 < cmp y x"]
      by (auto simp: sl_entries_def linorder_not_less split: option.splits)
  qed
qed

lemma sl_find:
  assumes "sl_inv c" and "y \<in># sl_entries c" and "cmp y x = 0"
  shows "\<exists>z. ssll_find cmp c (Some x) = Some z \<and> z \<in># sl_entries c \<and> cmp z x = 0"
proof -
  have sorted: "sorted_wrt le (nodes c)" and uns: "\<not> unsorted c"
    using assms(1) by (auto simp: sl_inv_def ssll_wf_def)
  obtain z where z: "find (\<lambda>z. 0 \<le> cmp z x) (nodes c) = Some z" "z \<in># mset (nodes c)" "0 \<le> cmp z x" "le z y"
    using find_least [OF sorted, of "\<lambda>z. 0 \<le> cmp z x"] assms(2,3)
    by (auto simp: sl_entries_def split: option.splits)
  have "cmp z x \<le> 0"
    using z(4) assms(3) cmp_trans [of z y x] by (simp add: le_def)
  then show ?thesis
    using z ssll_find_sorted [OF uns, of x] by (auto simp: sl_entries_def)
qed

end

sublocale total_compare \<subseteq> ba: exact_container cmp "baInsert cmp" "baRemove cmp" "baFind cmp"
    "baFindNext cmp" ba_inv ba_entries
proof unfold_locales
  show "ba_inv c \<Longrightarrow> baInsert cmp alloc c x = (c', rc) \<Longrightarrow>
      ba_inv c' \<and> ba_entries c' = (if rc = 0 then add_mset x (ba_entries c) else ba_entries c)"
    for alloc c x c' rc by (rule ba_insert)
  show "ba_inv c \<Longrightarrow> \<exists>c' rc. baRemove cmp c x = Ret (c', rc) \<and> ba_inv c' \<and>
      (if \<exists>y \<in># ba_entries c. cmp y x = 0
       then rc = 0 \<and> (\<exists>y \<in># ba_entries c. cmp y x = 0 \<and> ba_entries c' = ba_entries c - {#y#})
       else ba_entries c' = ba_entries c)" for c x by (rule ba_remove)
  show "ba_inv c' \<and> ba_entries c' = ba_entries c \<and>
      ((\<exists>y \<in># ba_entries c. cmp y x = 0) \<longrightarrow> (\<exists>y. r = Some y \<and> y \<in># ba_entries c \<and> cmp y x = 0))"
    if "ba_inv c" "baFind cmp c x = (c', r)" for c x c' r
    using ba_find [OF that] by (cases r) auto
  show "cmp y x = 0" if "ba_inv c" "baFind cmp c x = (c', Some y)" for c x c' y
    using ba_find(3) [OF that] by simp
qed (rule ba_next)

sublocale total_compare \<subseteq> sl: container cmp "slInsert cmp" "slRemove cmp" "slFind cmp"
    "slFindNext cmp" sl_inv sl_entries
proof unfold_locales
qed (use sl_insert sl_remove sl_next sl_find in \<open>auto simp: slFind_def slFindNext_def\<close>)

text \<open>The default comparison, as the containers of the tables use it.\<close>

interpretation index_array: exact_container Container_compareIndex
    "baInsert Container_compareIndex" "baRemove Container_compareIndex" "baFind Container_compareIndex"
    "baFindNext Container_compareIndex" index.ba_inv ba_entries
  by unfold_locales

interpretation index_list: container Container_compareIndex
    "slInsert Container_compareIndex" "slRemove Container_compareIndex" "slFind Container_compareIndex"
    "slFindNext Container_compareIndex" index.sl_inv sl_entries
  by unfold_locales

section \<open>Chains of indexes\<close>

text \<open>
  A container may carry further indexes over the same entries, linked by \<open>next\<close>. Each has its own
  comparison, its own implementation and an optional filter that answers 1 for entries it leaves
  out. The chain is the list of them, from the first.
\<close>

datatype 'a impl = BinaryArray "'a binarray" | SortedList "'a ssll"

record 'a subcontainer =
  compare_fn :: "'a \<Rightarrow> 'a \<Rightarrow> int"
  insertFilter :: "('a \<Rightarrow> int) option"
  implementation :: "'a impl"

definition sub_insert :: "(nat \<Rightarrow> bool) \<Rightarrow> 'a subcontainer \<Rightarrow> 'a \<Rightarrow> 'a subcontainer \<times> int" where
  "sub_insert alloc x k =
     (case implementation x of
        BinaryArray c \<Rightarrow> (case baInsert (compare_fn x) alloc c k of
          (c', rc) \<Rightarrow> (x\<lparr>implementation := BinaryArray c'\<rparr>, rc))
      | SortedList c \<Rightarrow> (case slInsert (compare_fn x) alloc c k of
          (c', rc) \<Rightarrow> (x\<lparr>implementation := SortedList c'\<rparr>, rc)))"

definition sub_remove :: "'a subcontainer \<Rightarrow> 'a \<Rightarrow> ('a subcontainer \<times> int) outcome" where
  "sub_remove x k =
     (case implementation x of
        BinaryArray c \<Rightarrow> obind (baRemove (compare_fn x) c k) (\<lambda>(c', rc).
          Ret (x\<lparr>implementation := BinaryArray c'\<rparr>, rc))
      | SortedList c \<Rightarrow> obind (slRemove (compare_fn x) c k) (\<lambda>(c', rc).
          Ret (x\<lparr>implementation := SortedList c'\<rparr>, rc)))"

definition filtered :: "'a subcontainer \<Rightarrow> 'a \<Rightarrow> bool" where
  "filtered x k \<longleftrightarrow> (case insertFilter x of None \<Rightarrow> False | Some f \<Rightarrow> f k = 1)"

text \<open>
  \<open>alloc n\<close> says which allocations succeed in the index that \<open>n\<close> others follow. An index that takes
  the entry takes it back when a later one fails.
\<close>

fun CONTAINER_INSERT_HELPER ::
    "(nat \<Rightarrow> nat \<Rightarrow> bool) \<Rightarrow> 'a subcontainer list \<Rightarrow> 'a \<Rightarrow> ('a subcontainer list \<times> int) outcome" where
  "CONTAINER_INSERT_HELPER alloc [] k = Ret ([], 0)"
| "CONTAINER_INSERT_HELPER alloc (x # xs) k =
     (if filtered x k
      then obind (CONTAINER_INSERT_HELPER alloc xs k) (\<lambda>(xs', rc). Ret (x # xs', rc))
      else case sub_insert (alloc (length xs)) x k of
             (x', rc) \<Rightarrow>
               if rc \<noteq> 0 then Ret (x' # xs, rc)
               else obind (CONTAINER_INSERT_HELPER alloc xs k) (\<lambda>(xs', rc').
                 if rc' \<noteq> 0
                 then obind (sub_remove x' k) (\<lambda>(x'', _). Ret (x'' # xs', rc'))
                 else Ret (x' # xs', rc')))"

definition CONTAINER_INSERT ::
    "(nat \<Rightarrow> nat \<Rightarrow> bool) \<Rightarrow> 'a subcontainer list \<Rightarrow> 'a \<Rightarrow> ('a subcontainer list \<times> int) outcome" where
  "CONTAINER_INSERT alloc chain k = CONTAINER_INSERT_HELPER alloc chain k"

text \<open>Removal goes from the last index to the first; errors of filtered indexes are ignored.\<close>

fun CONTAINER_REMOVE :: "'a subcontainer list \<Rightarrow> 'a \<Rightarrow> ('a subcontainer list \<times> int) outcome" where
  "CONTAINER_REMOVE [] k = Ret ([], 0)"
| "CONTAINER_REMOVE (x # xs) k =
     obind (CONTAINER_REMOVE xs k) (\<lambda>(xs', rc).
     obind (sub_remove x k) (\<lambda>(x', rc2).
       Ret (x' # xs', if rc2 \<noteq> 0 \<and> insertFilter x = None then rc2 else rc)))"

definition Container_addIndex ::
    "'a subcontainer list \<Rightarrow> 'a subcontainer list \<Rightarrow> 'a subcontainer list" where
  "Container_addIndex primary newIndex = primary @ newIndex"

definition sub_entries :: "'a subcontainer \<Rightarrow> 'a multiset" where
  "sub_entries x = (case implementation x of BinaryArray c \<Rightarrow> ba_entries c | SortedList c \<Rightarrow> sl_entries c)"

definition sub_ok :: "'a subcontainer \<Rightarrow> bool" where
  "sub_ok x \<longleftrightarrow> total_compare (compare_fn x) \<and>
     (case implementation x of
        BinaryArray c \<Rightarrow> total_compare.ba_inv (compare_fn x) c
      | SortedList c \<Rightarrow> total_compare.sl_inv (compare_fn x) c)"

definition same_kind :: "'a subcontainer \<Rightarrow> 'a subcontainer \<Rightarrow> bool" where
  "same_kind x x' \<longleftrightarrow> compare_fn x' = compare_fn x \<and> insertFilter x' = insertFilter x"

definition admits_duplicates :: "'a subcontainer \<Rightarrow> bool" where
  "admits_duplicates x \<longleftrightarrow> (case implementation x of
     BinaryArray c \<Rightarrow> has_flag CONTAINER_KEY_ALLOW_DUPLICATES c | SortedList c \<Rightarrow> True)"

definition holds_key :: "'a subcontainer \<Rightarrow> 'a \<Rightarrow> bool" where
  "holds_key x k \<longleftrightarrow> (\<exists>y \<in># sub_entries x. compare_fn x y k = 0)"

lemma sub_insert_spec:
  assumes "sub_ok x" and "sub_insert alloc x k = (x', rc)"
  shows "sub_ok x'" and "same_kind x x'"
    and "sub_entries x' = (if rc = 0 then add_mset k (sub_entries x) else sub_entries x)"
    and "rc = 0 \<Longrightarrow> admits_duplicates x \<or> \<not> holds_key x k"
proof -
  have cmp: "total_compare (compare_fn x)"
    using assms(1) by (simp add: sub_ok_def)
  have "sub_ok x' \<and> same_kind x x' \<and>
    sub_entries x' = (if rc = 0 then add_mset k (sub_entries x) else sub_entries x) \<and>
    (rc = 0 \<longrightarrow> admits_duplicates x \<or> \<not> holds_key x k)"
  proof (cases "implementation x")
    case (BinaryArray c)
    obtain c' where I: "baInsert (compare_fn x) alloc c k = (c', rc)" and x': "x' = x\<lparr>implementation := BinaryArray c'\<rparr>"
      using assms(2) BinaryArray by (auto simp: sub_insert_def split: prod.splits)
    have inv: "total_compare.ba_inv (compare_fn x) c"
      using assms(1) BinaryArray by (simp add: sub_ok_def)
    have wf: "total_compare.wf (compare_fn x) c"
      using inv total_compare.ba_inv_def [OF cmp] by blast
    show ?thesis
      using total_compare.ba_insert [OF cmp inv I] cmp BinaryArray
        total_compare.insert_entry_spec(4) [OF cmp wf, of alloc k c' rc] I
      by (auto simp: x' sub_ok_def same_kind_def sub_entries_def admits_duplicates_def holds_key_def
          ba_entries_def baInsert_def)
  next
    case (SortedList c)
    obtain c' where I: "slInsert (compare_fn x) alloc c k = (c', rc)" and x': "x' = x\<lparr>implementation := SortedList c'\<rparr>"
      using assms(2) SortedList by (auto simp: sub_insert_def split: prod.splits)
    have inv: "total_compare.sl_inv (compare_fn x) c"
      using assms(1) SortedList by (simp add: sub_ok_def)
    show ?thesis
      using total_compare.sl_insert [OF cmp inv I] cmp SortedList
      by (auto simp: x' sub_ok_def same_kind_def sub_entries_def admits_duplicates_def)
  qed
  then show "sub_ok x'" "same_kind x x'"
    "sub_entries x' = (if rc = 0 then add_mset k (sub_entries x) else sub_entries x)"
    "rc = 0 \<Longrightarrow> admits_duplicates x \<or> \<not> holds_key x k"
    by simp_all
qed

lemma sub_remove_spec:
  assumes "sub_ok x"
  shows "\<exists>x' rc. sub_remove x k = Ret (x', rc) \<and> sub_ok x' \<and> same_kind x x' \<and>
    (if holds_key x k
     then rc = 0 \<and> (\<exists>y \<in># sub_entries x. compare_fn x y k = 0 \<and> sub_entries x' = sub_entries x - {#y#})
     else sub_entries x' = sub_entries x)"
proof -
  have cmp: "total_compare (compare_fn x)"
    using assms(1) by (simp add: sub_ok_def)
  show ?thesis
  proof (cases "implementation x")
    case (BinaryArray c)
    have inv: "total_compare.ba_inv (compare_fn x) c"
      using assms(1) BinaryArray by (simp add: sub_ok_def)
    obtain c' rc where R: "baRemove (compare_fn x) c k = Ret (c', rc)"
      and C: "total_compare.ba_inv (compare_fn x) c'" "if \<exists>y \<in># ba_entries c. compare_fn x y k = 0
        then rc = 0 \<and> (\<exists>y \<in># ba_entries c. compare_fn x y k = 0 \<and> ba_entries c' = ba_entries c - {#y#})
        else ba_entries c' = ba_entries c"
      using total_compare.ba_remove [OF cmp inv, of k] by blast
    show ?thesis
      by (rule exI [of _ "x\<lparr>implementation := BinaryArray c'\<rparr>"], rule exI [of _ rc])
        (use R C cmp BinaryArray in \<open>simp add: sub_remove_def sub_ok_def same_kind_def sub_entries_def holds_key_def\<close>)
  next
    case (SortedList c)
    have inv: "total_compare.sl_inv (compare_fn x) c"
      using assms(1) SortedList by (simp add: sub_ok_def)
    obtain c' rc where R: "slRemove (compare_fn x) c k = Ret (c', rc)"
      and C: "total_compare.sl_inv (compare_fn x) c'" "if \<exists>y \<in># sl_entries c. compare_fn x y k = 0
        then rc = 0 \<and> (\<exists>y \<in># sl_entries c. compare_fn x y k = 0 \<and> sl_entries c' = sl_entries c - {#y#})
        else sl_entries c' = sl_entries c"
      using total_compare.sl_remove [OF cmp inv, of k] by blast
    show ?thesis
      by (rule exI [of _ "x\<lparr>implementation := SortedList c'\<rparr>"], rule exI [of _ rc])
        (use R C cmp SortedList in \<open>simp add: sub_remove_def sub_ok_def same_kind_def sub_entries_def holds_key_def\<close>)
  qed
qed

text \<open>Taking back the entry just put in, where it is the only one with its key.\<close>

lemma sub_rollback:
  assumes "sub_ok x" and "sub_entries x = add_mset k M" and "\<forall>y \<in># M. compare_fn x y k \<noteq> 0"
  shows "\<exists>x' rc. sub_remove x k = Ret (x', rc) \<and> sub_ok x' \<and> same_kind x x' \<and> sub_entries x' = M"
proof -
  have "total_compare (compare_fn x)"
    using assms(1) by (simp add: sub_ok_def)
  then have "compare_fn x k k = 0"
    using total_compare.cmp_flip [of "compare_fn x" k k] by auto
  then have "holds_key x k"
    by (simp add: holds_key_def assms(2))
  then obtain x' rc where R: "sub_remove x k = Ret (x', rc)" "sub_ok x'" "same_kind x x'"
    and "\<exists>y \<in># sub_entries x. compare_fn x y k = 0 \<and> sub_entries x' = sub_entries x - {#y#}"
    using sub_remove_spec [OF assms(1), of k] by metis
  from this(4) obtain y where y: "y \<in># add_mset k M" "compare_fn x y k = 0" "sub_entries x' = add_mset k M - {#y#}"
    by (simp only: assms(2)) blast
  then have "y = k"
    using assms(3) by auto
  then show ?thesis
    using R y(3) by simp
qed

definition insert_effect :: "'a \<Rightarrow> int \<Rightarrow> 'a subcontainer \<Rightarrow> 'a subcontainer \<Rightarrow> bool" where
  "insert_effect k rc x x' \<longleftrightarrow> sub_ok x' \<and> same_kind x x' \<and>
     sub_entries x' = (if rc = 0 \<and> \<not> filtered x k then add_mset k (sub_entries x) else sub_entries x)"

lemma chain_insert:
  assumes "\<forall>x \<in> set chain. sub_ok x \<and> (admits_duplicates x \<longrightarrow> \<not> holds_key x k)"
  shows "\<exists>chain' rc. CONTAINER_INSERT_HELPER alloc chain k = Ret (chain', rc) \<and>
    list_all2 (insert_effect k rc) chain chain'"
  using assms
proof (induction chain)
  case (Cons x xs)
  obtain xs' rc where IH: "CONTAINER_INSERT_HELPER alloc xs k = Ret (xs', rc)"
    and E: "list_all2 (insert_effect k rc) xs xs'"
    using Cons by auto
  have x: "sub_ok x" "admits_duplicates x \<longrightarrow> \<not> holds_key x k"
    using Cons.prems by auto
  have same: "insert_effect k rc y y" if "sub_ok y" "filtered y k \<or> rc \<noteq> 0" for y rc
    using that by (auto simp: insert_effect_def same_kind_def)
  show ?case
  proof (cases "filtered x k")
    case True
    then show ?thesis
      using IH E same [OF x(1)] by auto
  next
    case False
    obtain x1 rc1 where I: "sub_insert (alloc (length xs)) x k = (x1, rc1)"
      by (cases "sub_insert (alloc (length xs)) x k")
    note S = sub_insert_spec [OF x(1) I]
    consider "rc1 \<noteq> 0" | "rc1 = 0" "rc = 0" | "rc1 = 0" "rc \<noteq> 0" by blast
    then show ?thesis
    proof cases
      case 1
      then have "CONTAINER_INSERT_HELPER alloc (x # xs) k = Ret (x1 # xs, rc1)"
        using False I by simp
      moreover have "insert_effect k rc1 x x1"
        using 1 S by (simp add: insert_effect_def)
      moreover have "list_all2 (insert_effect k rc1) xs xs"
        using 1 Cons.prems same by (auto simp: list_all2_same)
      ultimately show ?thesis
        using list_all2_Cons by metis
    next
      case 2
      then have "CONTAINER_INSERT_HELPER alloc (x # xs) k = Ret (x1 # xs', 0)"
        using False I IH by simp
      moreover have "insert_effect k 0 x x1"
        using 2 S False by (simp add: insert_effect_def)
      ultimately show ?thesis
        using E 2 list_all2_Cons by metis
    next
      case 3
      have "sub_entries x1 = add_mset k (sub_entries x)" "\<not> holds_key x k"
        using 3 S x(2) by auto
      then obtain x2 r where R: "sub_remove x1 k = Ret (x2, r)" "sub_ok x2" "same_kind x1 x2"
          "sub_entries x2 = sub_entries x"
        using sub_rollback [OF S(1), of k "sub_entries x"] S(2)
        by (auto simp: same_kind_def holds_key_def)
      have "CONTAINER_INSERT_HELPER alloc (x # xs) k = Ret (x2 # xs', rc)"
        using False I IH 3 R(1) by simp
      moreover have "insert_effect k rc x x2"
        using 3 R S(2) by (simp add: insert_effect_def same_kind_def)
      ultimately show ?thesis
        using E list_all2_Cons by metis
    qed
  qed
qed simp

end
