(* ===== verification/ContProps.thy ===== *)
theory ContProps
  imports Containers
begin

text \<open>
  The properties of the containers: the sort, the searches of every table that the operations can
  build, walking over a container, and the chains of indexes.
\<close>

section \<open>Sorting\<close>

text \<open>
  C11: The in-place quick sort terminates and sorts the segment it is given, whatever the comparison
  orders: inside the segment the entries are in order afterwards, outside nothing moved, and no
  entry is lost or doubled. Neither scan is ever stopped by its bound alone, so no entry outside the
  segment is compared.
\<close>

theorem array_qsort_sorts:
  assumes "total_compare cmp" and "0 \<le> lo" and "lo \<le> hi" and "hi < int (length d)"
  shows "(\<forall>k m. lo \<le> k \<and> k \<le> m \<and> m \<le> hi \<longrightarrow>
      cmp (at (arrayQSort cmp lo hi d) k) (at (arrayQSort cmp lo hi d) m) \<le> 0) \<and>
    (\<forall>k. 0 \<le> k \<and> (k < lo \<or> hi < k) \<longrightarrow> at (arrayQSort cmp lo hi d) k = at d k) \<and>
    mset (arrayQSort cmp lo hi d) = mset d"
  using total_compare.arrayQSort_ordered [OF assms] perm_inD [OF arrayQSort_perm [OF assms(2-4), of cmp]]
  by (auto simp: total_compare.ordered_in_def [OF assms(1)] total_compare.le_def [OF assms(1)])

theorem array_qsort_sorts_witness:
  "arrayQSort Container_compareUlong 1 4 [9, 7, 3, 5, 3, 1] = [9, 3, 3, 5, 7, 1] \<and>
   mset (arrayQSort Container_compareUlong 1 4 [9, 7, 3, 5, 3, 1]) = mset [9, 7, 3, 5, 3, 1 :: u64]"
proof
  show "arrayQSort Container_compareUlong 1 4 [9, 7, 3, 5, 3, 1] = [9, 3, 3, 5, 7, 1]"
    by code_simp
  show "mset (arrayQSort Container_compareUlong 1 4 [9, 7, 3, 5, 3, 1]) = mset [9, 7, 3, 5, 3, 1 :: u64]"
    using array_qsort_sorts [of Container_compareUlong 1 4 "[9, 7, 3, 5, 3, 1]"] ulong.total_compare_axioms
    by simp
qed

section \<open>Tables\<close>

text \<open>The tables that the operations build from an empty one, whose options are set at the start.\<close>

inductive ba_reach :: "('a \<Rightarrow> 'a \<Rightarrow> int) \<Rightarrow> 'a binarray \<Rightarrow> bool" for cmp where
  empty: "ba_reach cmp (fst (ContainerBinaryArray_optionsSet
    \<lparr>contents = [], max_size = 0, dirty = False, flags = 0, sync = 0\<rparr> True f))"
| insert: "ba_reach cmp c \<Longrightarrow> ba_reach cmp (fst (insert_entry alloc cmp c x))"
| remove: "ba_reach cmp c \<Longrightarrow> ContainerBinaryArray_remove cmp c k = Ret (c', rc, old) \<Longrightarrow> ba_reach cmp c'"
| removeAt: "ba_reach cmp c \<Longrightarrow> ContainerBinaryArray_removeAt c i = Ret (c', old) \<Longrightarrow> ba_reach cmp c'"
| find: "ba_reach cmp c \<Longrightarrow> ba_reach cmp (fst (get2 cmp c (Some k) True))"
| forEach: "ba_reach cmp c \<Longrightarrow> ba_reach cmp (fst (forEach cmp c sorting))"
| reset: "ba_reach cmp c \<Longrightarrow> ba_reach cmp (fst (iteratorReset cmp c it))"
| clear: "ba_reach cmp c \<Longrightarrow> ba_reach cmp (fst (clear c))"

lemma ba_reach_wf:
  assumes "total_compare cmp" and "ba_reach cmp c"
  shows "total_compare.wf cmp c"
  using assms(2)
proof (induction rule: ba_reach.induct)
  case (empty f)
  then show ?case
    by (simp add: total_compare.wf_def [OF assms(1)] ContainerBinaryArray_optionsSet_def Let_def
        total_compare.unique_keys_def [OF assms(1)])
next
  case (insert c alloc x)
  then show ?case
    using total_compare.insert_entry_spec(1) [OF assms(1)] by (metis prod.collapse)
next
  case (remove c k c' rc old)
  then show ?case
    using total_compare.remove_spec [OF assms(1) remove.IH, of k] by auto
next
  case (removeAt c i c' old)
  then show ?case
    using total_compare.removeAt_spec [OF assms(1) removeAt.IH, of i]
    by (cases "i < length (contents c)") (auto simp: ContainerBinaryArray_removeAt_def split: if_splits)
next
  case (find c k)
  then show ?case
    using total_compare.get2_exact(1) [OF assms(1)] total_compare.same_entries_def [OF assms(1)]
    by (metis prod.collapse)
next
  case (forEach c sorting)
  then show ?case
    using total_compare.sortArray_wf [OF assms(1)] by (simp add: forEach_def Let_def)
next
  case (reset c it)
  then show ?case
    using total_compare.sortArray_wf [OF assms(1)] by (simp add: iteratorReset_def Let_def)
next
  case (clear c)
  then show ?case
    by (simp add: total_compare.wf_def [OF assms(1)] clear_def total_compare.unique_keys_def [OF assms(1)])
qed

text \<open>
  C28: Every table that the operations build is sorted unless it is marked dirty or was made
  unsorted, holds no two entries with the same key unless it was made to allow them, and never
  more entries than it has room for.
\<close>

theorem array_invariant:
  assumes "total_compare cmp" and "ba_reach cmp c"
  shows "(dirty c \<or> has_flag CONTAINER_KEY_UNSORTED c \<or> sorted_wrt (\<lambda>x y. cmp x y \<le> 0) (contents c)) \<and>
    (has_flag CONTAINER_KEY_ALLOW_DUPLICATES c \<or>
      (\<forall>i j. i < j \<and> j < length (contents c) \<longrightarrow> cmp (contents c ! i) (contents c ! j) \<noteq> 0)) \<and>
    length (contents c) \<le> max_size c"
proof -
  note W = ba_reach_wf [OF assms, unfolded total_compare.wf_def [OF assms(1)]]
  have "\<forall>i j. i < j \<and> j < length (contents c) \<longrightarrow> cmp (contents c ! i) (contents c ! j) \<noteq> 0"
    if "\<not> has_flag CONTAINER_KEY_ALLOW_DUPLICATES c"
    using W that by (auto simp: total_compare.unique_keys_list [OF assms(1)] sorted_wrt_iff_nth_less)
  moreover have "total_compare.le cmp = (\<lambda>x y. cmp x y \<le> 0)"
    by (intro ext) (rule total_compare.le_def [OF assms(1)])
  ultimately show ?thesis
    using W by auto
qed

text \<open>A table with the keys 1 and 3, entered in the other order: it is dirty.\<close>

definition example_entry :: "nat \<Rightarrow> index_entry" where
  "example_entry n = \<lparr>oids = [of_nat n], payload = n\<rparr>"

definition example_table :: "index_entry binarray" where
  "example_table = (let c0 = fst (ContainerBinaryArray_optionsSet
       \<lparr>contents = [], max_size = 0, dirty = False, flags = 0, sync = 0\<rparr> True 0);
     c1 = fst (insert_entry (\<lambda>_. True) Container_compareIndex c0 (example_entry 3))
   in fst (insert_entry (\<lambda>_. True) Container_compareIndex c1 (example_entry 1)))"

lemma example_table_reach: "ba_reach Container_compareIndex example_table"
  unfolding example_table_def Let_def by (intro ba_reach.intros)

lemma example_table_value:
  "contents example_table = [example_entry 3, example_entry 1]" "dirty example_table"
  "flags example_table = 0" "max_size example_table = 10"
  by code_simp+

theorem array_invariant_witness:
  "Container_compareIndex (contents example_table ! 0) (contents example_table ! 1) \<noteq> 0 \<and>
   length (contents example_table) \<le> 10"
  using array_invariant [OF index.total_compare_axioms example_table_reach]
  by (auto simp: example_table_value has_flag_def)

section \<open>Searching\<close>

text \<open>
  Searching a table of the operations agrees with scanning all its entries: an exact search
  answers an entry with the key if and only if there is one; the get-next search answers the first
  entry above the key in the sorted table, even among duplicates; a partial key selects exactly the
  entries it matches, in order. A search may sort the table and does nothing else to it.
\<close>

theorem array_search_equiv:
  assumes "total_compare cmp" and "ba_reach cmp c" and "\<not> has_flag CONTAINER_KEY_UNSORTED c"
    and "total_compare.selects cmp ncmp" and "\<forall>n. alloc n"
  shows "(case snd (get2 cmp c (Some k) True) of
      None \<Rightarrow> \<forall>x \<in> set (contents c). cmp x k \<noteq> 0
    | Some x \<Rightarrow> x \<in> set (contents c) \<and> cmp x k = 0) \<and>
   snd (get2 cmp c (Some k) False) =
     find (\<lambda>x. 0 < cmp x k) (contents (fst (get2 cmp c (Some k) False))) \<and>
   snd (ContainerBinaryArray_getSubset alloc cmp ncmp c) =
     (let xs = filter (\<lambda>x. ncmp x = 0) (contents (fst (ContainerBinaryArray_getSubset alloc cmp ncmp c)))
      in if xs = [] then None else Some xs) \<and>
   (\<forall>c' \<in> {fst (get2 cmp c (Some k) True), fst (get2 cmp c (Some k) False),
      fst (ContainerBinaryArray_getSubset alloc cmp ncmp c)}.
     mset (contents c') = mset (contents c) \<and> flags c' = flags c \<and> max_size c' = max_size c \<and>
     sorted_wrt (\<lambda>x y. cmp x y \<le> 0) (contents c'))"
proof -
  note wf = ba_reach_wf [OF assms(1,2)]
  note E = total_compare.get2_exact [OF assms(1) wf, of k "fst (get2 cmp c (Some k) True)"
      "snd (get2 cmp c (Some k) True)", OF prod.collapse [symmetric]]
  note N = total_compare.get2_next [OF assms(1) wf assms(3), of k "fst (get2 cmp c (Some k) False)"
      "snd (get2 cmp c (Some k) False)", OF prod.collapse [symmetric]]
  note S = total_compare.getSubset_spec [OF assms(1) wf assms(3-5),
      of "fst (ContainerBinaryArray_getSubset alloc cmp ncmp c)"
      "snd (ContainerBinaryArray_getSubset alloc cmp ncmp c)", OF prod.collapse [symmetric]]
  have le: "total_compare.le cmp = (\<lambda>x y. cmp x y \<le> 0)"
    by (intro ext) (rule total_compare.le_def [OF assms(1)])
  have same: "mset (contents c') = mset (contents c) \<and> flags c' = flags c \<and> max_size c' = max_size c \<and>
     sorted_wrt (\<lambda>x y. cmp x y \<le> 0) (contents c')" if "total_compare.same_entries cmp c c'" for c'
    using that assms(3) by (auto simp: total_compare.same_entries_def [OF assms(1)] le)
  show ?thesis
    using E N S same by (simp split: option.splits)
qed

text \<open>Comparing with a partial index selects along the order.\<close>

lemma take_mono: "(xs :: oid list) \<le> ys \<Longrightarrow> take n xs \<le> take n ys"
proof (induction n arbitrary: xs ys)
  case (Suc n)
  then show ?case
    by (cases xs; cases ys) auto
qed simp

lemma nCompareIndex_selects: "index.selects (\<lambda>x. Container_nCompareIndex x p)"
  unfolding index.selects_def index.le_def Container_nCompareIndex_def oidNcompare_take
    Container_compareIndex_def oidCompare_iff
  by (meson take_mono order_le_less_trans order_less_le_trans)

theorem array_search_equiv_witness:
  "snd (get2 Container_compareIndex example_table (Some (example_entry 1)) False) = Some (example_entry 3) \<and>
   (\<exists>xs. snd (ContainerBinaryArray_getSubset (\<lambda>_. True) Container_compareIndex
      (\<lambda>x. Container_nCompareIndex x (example_entry 3)) example_table) = Some xs)"
proof -
  note A = array_search_equiv [OF index.total_compare_axioms example_table_reach _
      nCompareIndex_selects, of "\<lambda>_. True" "example_entry 1" "example_entry 3"]
  have "\<not> has_flag CONTAINER_KEY_UNSORTED example_table"
    by (simp add: has_flag_def example_table_value)
  then have S: "snd (get2 Container_compareIndex example_table (Some (example_entry 1)) False) =
      find (\<lambda>x. 0 < Container_compareIndex x (example_entry 1))
        (contents (fst (get2 Container_compareIndex example_table (Some (example_entry 1)) False)))"
    using A by blast
  moreover have "contents (fst (get2 Container_compareIndex example_table (Some (example_entry 1)) False)) =
      [example_entry 1, example_entry 3]"
    by code_simp
  ultimately have "snd (get2 Container_compareIndex example_table (Some (example_entry 1)) False) =
      Some (example_entry 3)"
    by (simp add: Container_compareIndex_def example_entry_def)
  moreover have "\<exists>xs. snd (ContainerBinaryArray_getSubset (\<lambda>_. True) Container_compareIndex
      (\<lambda>x. Container_nCompareIndex x (example_entry 3)) example_table) = Some xs"
    by (rule exI [of _ "[example_entry 3]"]) code_simp
  ultimately show ?thesis by blast
qed

section \<open>Walking over a container\<close>

text \<open>
  C29: The loop over \<open>CONTAINER_FIRST\<close> and \<open>CONTAINER_NEXT\<close> sees every entry of a sorted container once,
  in the order of the keys, and ends after as many rounds as there are entries: for the sorted
  array that was made to refuse duplicates, and for the sorted list as long as its keys are unique.
\<close>

theorem container_walk_complete:
  assumes "ba_reach Container_compareIndex c" and "flags c = 0"
    and "index.sl_inv l" and "index.unique_keys (sl_entries l)"
    and "length (contents c) \<le> n" and "length (nodes l) \<le> n"
  shows "mset (walk (baFindNext Container_compareIndex) n c None) = mset (contents c) \<and>
    sorted_wrt (\<lambda>x y. Container_compareIndex x y < 0) (walk (baFindNext Container_compareIndex) n c None) \<and>
    walk (slFindNext Container_compareIndex) n l None = nodes l"
proof -
  have wf: "index.wf c"
    using ba_reach_wf [OF index.total_compare_axioms assms(1)] .
  have inv: "index.ba_inv c" "index.unique_keys (ba_entries c)" "size (ba_entries c) \<le> n"
    using wf assms(2,5) by (auto simp: index.ba_inv_def index.wf_def has_flag_def ba_entries_def)
  have list: "mset (walk (slFindNext Container_compareIndex) n l None) = mset (nodes l)"
    "sorted_wrt (\<lambda>x y. Container_compareIndex x y < 0) (walk (slFindNext Container_compareIndex) n l None)"
    using index.sl.walk_all [OF assms(3,4)] assms(6) by (simp_all add: sl_entries_def)
  have strict: "sorted_wrt (\<lambda>x y. Container_compareIndex x y < 0) (nodes l)"
    using index.sorted_strict assms(3,4) by (auto simp: index.sl_inv_def index.ssll_wf_def sl_entries_def)
  have "xs = ys" if "mset xs = mset ys" "sorted_wrt (\<lambda>x y. Container_compareIndex x y < 0) xs"
    "sorted_wrt (\<lambda>x y. Container_compareIndex x y < 0) ys" for xs ys
    using that
  proof (induction xs arbitrary: ys)
    case (Cons x xs)
    then obtain y ys' where ys: "ys = y # ys'"
      by (cases ys) auto
    have "x = y"
    proof (rule ccontr)
      assume "x \<noteq> y"
      then have "y \<in> set xs" "x \<in> set ys'"
        using Cons.prems(1) ys by (metis list.set_intros(1) mset_eq_setD set_ConsD)+
      then have "Container_compareIndex x y < 0" "Container_compareIndex y x < 0"
        using Cons.prems(2,3) ys by auto
      then show False
        using index.cmp_flip by (metis less_asym)
    qed
    then show ?case
      using Cons ys by auto
  qed simp
  then have "walk (slFindNext Container_compareIndex) n l None = nodes l"
    using list strict by blast
  then show ?thesis
    using index.ba.walk_all [OF inv] by (simp add: ba_entries_def)
qed

definition example_list :: "index_entry ssll" where
  "example_list = fst (slInsert Container_compareIndex (\<lambda>_. True)
     (fst (slInsert Container_compareIndex (\<lambda>_. True) ContainerListSsll_getSsll (example_entry 3)))
     (example_entry 1))"

lemma example_list_value:
  "nodes example_list = [example_entry 1, example_entry 3]" "node_count example_list = 2"
  "\<not> unsorted example_list"
  by code_simp+

lemma example_list_inv: "index.sl_inv example_list" "index.unique_keys (sl_entries example_list)"
  unfolding sl_entries_def index.unique_keys_list
  by (auto simp: index.sl_inv_def index.ssll_wf_def example_list_value index.le_def
      Container_compareIndex_def example_entry_def)

theorem container_walk_complete_witness:
  "walk (slFindNext Container_compareIndex) 5 example_list None = [example_entry 1, example_entry 3] \<and>
   mset (walk (baFindNext Container_compareIndex) 5 example_table None) = {#example_entry 3, example_entry 1#}"
  using container_walk_complete [OF example_table_reach _ example_list_inv, of 5]
  by (simp add: example_table_value example_list_value)

text \<open>
  The find operation of the sorted list answers the first entry that is not below the key,
  which is another entry when the key is not stored, where the sorted array answers nothing.
\<close>

theorem sorted_list_find_inexact:
  assumes "index.sl_inv l" and "index.ba_inv c" and "ba_entries c = sl_entries l"
    and "\<forall>x \<in> set (nodes l). Container_compareIndex x k \<noteq> 0"
    and "z \<in> set (nodes l)" and "0 < Container_compareIndex z k"
  shows "(\<exists>y. snd (slFind Container_compareIndex l k) = Some y \<and> Container_compareIndex y k \<noteq> 0) \<and>
    snd (baFind Container_compareIndex c k) = None"
proof -
  have "snd (slFind Container_compareIndex l k) = find (\<lambda>x. 0 \<le> Container_compareIndex x k) (nodes l)"
    using index.ssll_find_sorted assms(1) by (simp add: slFind_def index.sl_inv_def)
  moreover have "find (\<lambda>x. 0 \<le> Container_compareIndex x k) (nodes l) \<noteq> None"
    using assms(5,6) by (auto simp: find_None_iff)
  ultimately obtain y where y: "snd (slFind Container_compareIndex l k) = Some y"
    and "find (\<lambda>x. 0 \<le> Container_compareIndex x k) (nodes l) = Some y"
    by auto
  from this(2) have "y \<in> set (nodes l)"
    by (auto simp: find_Some_iff)
  moreover have "snd (baFind Container_compareIndex c k) = None"
  proof -
    obtain c' r where B: "baFind Container_compareIndex c k = (c', r)"
      by (cases "baFind Container_compareIndex c k")
    show ?thesis
      using index.ba_find(3) [OF assms(2) B] assms(3,4) B by (cases r) (auto simp: sl_entries_def)
  qed
  ultimately show ?thesis
    using assms(4) y by auto
qed

theorem sorted_list_find_inexact_witness:
  "\<exists>y. snd (slFind Container_compareIndex example_list (example_entry 2)) = Some y \<and>
     Container_compareIndex y (example_entry 2) \<noteq> 0"
proof -
  have "index.ba_inv example_table"
    using ba_reach_wf [OF index.total_compare_axioms example_table_reach]
    by (simp add: index.ba_inv_def has_flag_def example_table_value)
  moreover have "ba_entries example_table = sl_entries example_list"
    by (simp add: ba_entries_def sl_entries_def example_table_value example_list_value)
  ultimately show ?thesis
    using sorted_list_find_inexact [OF example_list_inv(1), of example_table "example_entry 2" "example_entry 3"]
    by (simp add: example_list_value Container_compareIndex_def example_entry_def)
qed

section \<open>Chains of indexes\<close>

text \<open>
  C14: Inserting into a container with further indexes is all or nothing: when it succeeds every
  index whose filter admits the entry has it and the others are unchanged, and when an index fails
  the entry is taken back from those before it, so that all are as they were. An index that allows
  duplicates must not yet hold the key, since the entry taken back could be another one.
\<close>

theorem chain_insert_atomic:
  assumes "\<forall>x \<in> set chain. sub_ok x \<and> (admits_duplicates x \<longrightarrow> \<not> holds_key x k)"
  shows "\<exists>chain' rc. CONTAINER_INSERT alloc chain k = Ret (chain', rc) \<and>
    list_all2 (\<lambda>x x'. sub_ok x' \<and> compare_fn x' = compare_fn x \<and> insertFilter x' = insertFilter x \<and>
      sub_entries x' = (if rc = 0 \<and> \<not> filtered x k then add_mset k (sub_entries x) else sub_entries x))
      chain chain'"
  using chain_insert [OF assms, of alloc]
  unfolding CONTAINER_INSERT_def insert_effect_def same_kind_def conj_assoc .

definition example_chain :: "index_entry subcontainer list" where
  "example_chain =
     [\<lparr>compare_fn = Container_compareIndex, insertFilter = None, implementation = SortedList example_list\<rparr>,
      \<lparr>compare_fn = Container_compareIndex, insertFilter = None, implementation = BinaryArray example_table\<rparr>]"

lemma example_chain_ok:
  "\<forall>x \<in> set example_chain. sub_ok x \<and> (admits_duplicates x \<longrightarrow> \<not> holds_key x (example_entry 2))"
  using example_list_inv(1) ba_reach_wf [OF index.total_compare_axioms example_table_reach]
    index.total_compare_axioms
  by (auto simp: example_chain_def sub_ok_def admits_duplicates_def holds_key_def sub_entries_def
      sl_entries_def example_list_value index.ba_inv_def has_flag_def example_table_value
      Container_compareIndex_def example_entry_def)

theorem chain_insert_atomic_witness:
  "\<exists>chain' rc. CONTAINER_INSERT (\<lambda>n _. n \<noteq> 0) example_chain (example_entry 2) = Ret (chain', rc) \<and>
     length chain' = 2"
  using chain_insert_atomic [OF example_chain_ok, of "\<lambda>n _. n \<noteq> 0"]
  by (auto simp: example_chain_def dest!: list_all2_lengthD)

end
