(* ===== verification/Alarm.thy ===== *)
theory Alarm
  imports Maps
begin

text \<open>
  The alarms of src/Firmware/Core/System/Util/Alarm.c and the time arithmetic of Time.h. A state holds
  the map of alarms, the next id, whether alarms are started, the timer of the process and the number
  of readings of the clock so far; the clock is a parameter that gives the time of each reading. A
  callback function with its argument is a value of type \<open>'cb\<close>; what running it does to the state,
  \<open>world\<close> included, is a parameter.
\<close>

section \<open>Times\<close>

record timeval =
  tv_sec :: int
  tv_usec :: int

abbreviation timerclear :: timeval where
  "timerclear \<equiv> \<lparr>tv_sec = 0, tv_usec = 0\<rparr>"

definition timerisset :: "timeval \<Rightarrow> bool" where
  "timerisset t = (tv_sec t \<noteq> 0 \<or> tv_usec t \<noteq> 0)"

definition timercmp_less :: "timeval \<Rightarrow> timeval \<Rightarrow> bool" where
  "timercmp_less a b = (if tv_sec a = tv_sec b then tv_usec a < tv_usec b else tv_sec a < tv_sec b)"

definition TIME_ADD_TIME :: "timeval \<Rightarrow> timeval \<Rightarrow> timeval" where
  "TIME_ADD_TIME a b =
     (let s = tv_sec a + tv_sec b; u = tv_usec a + tv_usec b
      in if u \<ge> 1000000 then \<lparr>tv_sec = s + 1, tv_usec = u - 1000000\<rparr> else \<lparr>tv_sec = s, tv_usec = u\<rparr>)"

definition TIME_SUB_TIME :: "timeval \<Rightarrow> timeval \<Rightarrow> timeval" where
  "TIME_SUB_TIME a b =
     (let s = tv_sec a - tv_sec b - 1; u = tv_usec a - tv_usec b + 1000000
      in if u \<ge> 1000000 then \<lparr>tv_sec = s + 1, tv_usec = u - 1000000\<rparr> else \<lparr>tv_sec = s, tv_usec = u\<rparr>)"

text \<open>A normalised time and the microseconds it stands for.\<close>

definition normal :: "timeval \<Rightarrow> bool" where
  "normal t \<longleftrightarrow> 0 \<le> tv_usec t \<and> tv_usec t < 1000000"

definition micros :: "timeval \<Rightarrow> int" where
  "micros t = tv_sec t * 1000000 + tv_usec t"

lemma micros_less: "normal a \<Longrightarrow> normal b \<Longrightarrow> timercmp_less a b \<longleftrightarrow> micros a < micros b"
  by (auto simp: normal_def micros_def timercmp_less_def)

lemma micros_add [simp]: "micros (TIME_ADD_TIME a b) = micros a + micros b"
  by (simp add: micros_def TIME_ADD_TIME_def Let_def algebra_simps)

lemma micros_sub [simp]: "micros (TIME_SUB_TIME a b) = micros a - micros b"
  by (simp add: micros_def TIME_SUB_TIME_def Let_def algebra_simps)

lemma normal_add [intro, simp]: "normal a \<Longrightarrow> normal b \<Longrightarrow> normal (TIME_ADD_TIME a b)"
  by (auto simp: normal_def TIME_ADD_TIME_def Let_def)

lemma normal_sub [intro, simp]: "normal a \<Longrightarrow> normal b \<Longrightarrow> normal (TIME_SUB_TIME a b)"
  by (auto simp: normal_def TIME_SUB_TIME_def Let_def)

lemma timerisset_micros: "normal t \<Longrightarrow> timerisset t \<longleftrightarrow> micros t \<noteq> 0"
  by (cases "tv_sec t" "0 :: int" rule: linorder_cases)
    (auto simp: normal_def timerisset_def micros_def)

lemma timerisset_clear [simp]: "\<not> timerisset timerclear"
  by (simp add: timerisset_def)

lemma normal_clear [simp]: "normal timerclear" and micros_clear [simp]: "micros timerclear = 0"
  by (simp_all add: normal_def micros_def)

section \<open>State\<close>

definition AlarmFlag_REPEAT :: "32 word" where "AlarmFlag_REPEAT = 0x01"
definition AlarmFlag_FIRED :: "32 word" where "AlarmFlag_FIRED = 0x10"

record 'cb alarm =
  timeInterval :: timeval
  alarmFlag :: "32 word"
  alarmId :: "32 word"
  lastTime :: timeval
  nextTime :: timeval
  callback :: 'cb

record ('cb, 'w) alarm_state =
  theAlarms :: "(string \<times> 'cb alarm) list"
  startAlarms :: bool
  alarmIdNumber :: "32 word"
  timer :: "timeval option"
  reads :: nat
  world :: 'w

unbundle bit_operations_syntax

definition fired :: "'cb alarm \<Rightarrow> bool" where
  "fired a \<longleftrightarrow> alarmFlag a AND AlarmFlag_FIRED \<noteq> 0"

definition repeating :: "'cb alarm \<Rightarrow> bool" where
  "repeating a \<longleftrightarrow> alarmFlag a AND AlarmFlag_REPEAT \<noteq> 0"

text \<open>\<open>Convert_int32ToString\<close> of an id.\<close>

definition alarm_key :: "32 word \<Rightarrow> string" where
  "alarm_key i = int_dec (sint i)"

lemma alarm_key_inject [simp]: "alarm_key i = alarm_key j \<longleftrightarrow> i = j"
  by (metis alarm_key_def int_dec_inject signed_word_eqI)

section \<open>Operations\<close>

text \<open>The position of the alarm that \<open>a\<close> points to stands for the pointer.\<close>

fun find_next :: "nat \<Rightarrow> (nat \<times> 'cb alarm) option \<Rightarrow> (string \<times> 'cb alarm) list \<Rightarrow> (nat \<times> 'cb alarm) option" where
  "find_next i lowest [] = lowest"
| "find_next i lowest ((k, v) # es) =
     find_next (i + 1)
       (if \<not> fired v \<and> (case lowest of None \<Rightarrow> True | Some (j, l) \<Rightarrow> timercmp_less (nextTime v) (nextTime l))
        then Some (i, v) else lowest) es"

definition Alarm_findNext :: "(string \<times> 'cb alarm) list \<Rightarrow> (nat \<times> 'cb alarm) option" where
  "Alarm_findNext es = find_next 0 None es"

fun position :: "(string \<times> 'v) list \<Rightarrow> string \<Rightarrow> nat option" where
  "position [] k = None"
| "position (e # es) k = (if fst e = k then Some 0 else map_option Suc (position es k))"

definition Alarm_findSpecific :: "(string \<times> 'cb alarm) list \<Rightarrow> 32 word \<Rightarrow> 'cb alarm option" where
  "Alarm_findSpecific es i = Map_at es (alarm_key i)"

definition Alarm_unregister :: "('cb, 'w) alarm_state \<Rightarrow> 32 word \<Rightarrow> ('cb, 'w) alarm_state" where
  "Alarm_unregister s i = s\<lparr>theAlarms := fst (Map_erase (theAlarms s) (alarm_key i))\<rparr>"

definition Alarm_unregisterAll :: "('cb, 'w) alarm_state \<Rightarrow> ('cb, 'w) alarm_state" where
  "Alarm_unregisterAll s = s\<lparr>theAlarms := []\<rparr>"

text \<open>
  What the update makes of an alarm and of the number of readings: None asks to remove the alarm.
\<close>

definition updateEntry :: "(nat \<Rightarrow> timeval) \<Rightarrow> nat \<Rightarrow> 'cb alarm \<Rightarrow> 'cb alarm option \<times> nat" where
  "updateEntry clock n a =
     (if \<not> timerisset (lastTime a)
      then (Some (a\<lparr>lastTime := clock n, nextTime := TIME_ADD_TIME (clock n) (timeInterval a)\<rparr>), n + 1)
      else if \<not> timerisset (nextTime a)
      then (if repeating a
            then (if timerisset (timeInterval a)
                  then (Some (a\<lparr>nextTime := TIME_ADD_TIME (lastTime a) (timeInterval a)\<rparr>), n)
                  else (None, n))
            else (None, n))
      else (Some a, n))"

definition put_at :: "nat \<Rightarrow> 'v \<Rightarrow> (string \<times> 'v) list \<Rightarrow> (string \<times> 'v) list" where
  "put_at i v es = es[i := (fst (es ! i), v)]"

definition Alarm_getNextAlarmTime :: "('cb, 'w) alarm_state \<Rightarrow> timeval \<Rightarrow> timeval option \<times> 32 word" where
  "Alarm_getNextAlarmTime s now =
     (case Alarm_findNext (theAlarms s) of
        Some (i, a) \<Rightarrow> (Some (if timercmp_less now (nextTime a) then nextTime a else now), alarmId a)
      | None \<Rightarrow> (None, 0))"

definition getNextAlarmDelayTime ::
    "(nat \<Rightarrow> timeval) \<Rightarrow> ('cb, 'w) alarm_state \<Rightarrow> timeval option \<times> 32 word \<times> ('cb, 'w) alarm_state" where
  "getNextAlarmDelayTime clock s =
     (let t_now = clock (reads s); s' = s\<lparr>reads := reads s + 1\<rparr>
      in case Alarm_getNextAlarmTime s' t_now of
           (alarm_tm, res) \<Rightarrow>
             (if res \<noteq> 0 then map_option (\<lambda>t. TIME_SUB_TIME t t_now) alarm_tm else None, res, s'))"

text \<open>A timer that is set to zero is disarmed.\<close>

definition setitimer :: "timeval \<Rightarrow> timeval option" where
  "setitimer it_value = (if timerisset it_value then Some it_value else None)"

text \<open>\<open>dont\<close> is the setting \<open>DsBool_ALARM_DONT_USE_SIGNAL\<close>.\<close>

definition setAnAlarm :: "(nat \<Rightarrow> timeval) \<Rightarrow> bool \<Rightarrow> ('cb, 'w) alarm_state \<Rightarrow> ('cb, 'w) alarm_state" where
  "setAnAlarm clock dont s =
     (case getNextAlarmDelayTime clock s of
        (Some delta, nextAlarm, s') \<Rightarrow> if nextAlarm \<noteq> 0 \<and> \<not> dont then s'\<lparr>timer := setitimer delta\<rparr> else s'
      | (None, nextAlarm, s') \<Rightarrow> s')"

text \<open>\<open>alloc\<close> is for the alarm and \<open>allocM\<close> for its node in the map, whose failure is not noticed.\<close>

definition register_alarm ::
    "(nat \<Rightarrow> timeval) \<Rightarrow> bool \<Rightarrow> bool \<Rightarrow> bool \<Rightarrow> ('cb, 'w) alarm_state \<Rightarrow> timeval \<Rightarrow> 32 word \<Rightarrow> 'cb \<Rightarrow>
     ('cb, 'w) alarm_state \<times> 32 word" where
  "register_alarm clock dont alloc allocM s time flag cb =
     (if \<not> alloc then (s, 0)
      else
        let i = alarmIdNumber s;
            newAlarm = \<lparr>timeInterval = time, alarmFlag = flag, alarmId = i,
                        lastTime = timerclear, nextTime = timerclear, callback = cb\<rparr>;
            s1 = s\<lparr>alarmIdNumber := i + 1\<rparr>;
            s2 = (case updateEntry clock (reads s1) newAlarm of
                    (Some a, n) \<Rightarrow> s1\<lparr>theAlarms := Map_emplace allocM (theAlarms s1) (alarm_key i) a, reads := n\<rparr>
                  | (None, n) \<Rightarrow>
                      Alarm_unregister (s1\<lparr>theAlarms := Map_emplace allocM (theAlarms s1) (alarm_key i) newAlarm,
                                           reads := n\<rparr>) i)
        in (if startAlarms s2 then setAnAlarm clock dont s2 else s2, i))"

definition Alarm_register ::
    "(nat \<Rightarrow> timeval) \<Rightarrow> bool \<Rightarrow> bool \<Rightarrow> bool \<Rightarrow> ('cb, 'w) alarm_state \<Rightarrow> 32 word \<Rightarrow> 32 word \<Rightarrow> 'cb \<Rightarrow>
     ('cb, 'w) alarm_state \<times> 32 word" where
  "Alarm_register clock dont alloc allocM s seconds flag cb =
     register_alarm clock dont alloc allocM s
       (if seconds = 0 then \<lparr>tv_sec = 0, tv_usec = 1\<rparr> else \<lparr>tv_sec = uint seconds, tv_usec = 0\<rparr>) flag cb"

definition Alarm_initAlarm :: "('cb, 'w) alarm_state \<Rightarrow> ('cb, 'w) alarm_state" where
  "Alarm_initAlarm s = s\<lparr>startAlarms := False\<rparr>"

definition initAlarmPostConfig :: "(nat \<Rightarrow> timeval) \<Rightarrow> bool \<Rightarrow> ('cb, 'w) alarm_state \<Rightarrow> ('cb, 'w) alarm_state" where
  "initAlarmPostConfig clock dont s = setAnAlarm clock dont (s\<lparr>startAlarms := True\<rparr>)"

text \<open>After the callback: the alarm is looked up again, since the callback may have removed it.\<close>

definition after_callback ::
    "(nat \<Rightarrow> timeval) \<Rightarrow> 32 word \<Rightarrow> timeval \<Rightarrow> ('cb, 'w) alarm_state \<Rightarrow> ('cb, 'w) alarm_state" where
  "after_callback clock i t_now s =
     (case position (theAlarms s) (alarm_key i) of
        None \<Rightarrow> s
      | Some j \<Rightarrow>
          let a = snd (theAlarms s ! j);
              a1 = a\<lparr>lastTime := t_now, nextTime := timerclear,
                     alarmFlag := alarmFlag a AND NOT AlarmFlag_FIRED\<rparr>
          in (case updateEntry clock (reads s) a1 of
                (Some a2, n) \<Rightarrow> s\<lparr>theAlarms := put_at j a2 (theAlarms s), reads := n\<rparr>
              | (None, n) \<Rightarrow>
                  Alarm_unregister (s\<lparr>theAlarms := put_at j a1 (theAlarms s), reads := n\<rparr>) (alarmId a1)))"

text \<open>\<open>fuel\<close> bounds the rounds of the loop; None is a loop that is still running.\<close>

fun Alarm_runAlarms ::
    "nat \<Rightarrow> (nat \<Rightarrow> timeval) \<Rightarrow> ('cb \<Rightarrow> 32 word \<Rightarrow> ('cb, 'w) alarm_state \<Rightarrow> ('cb, 'w) alarm_state) \<Rightarrow>
     ('cb, 'w) alarm_state \<Rightarrow> ('cb, 'w) alarm_state option" where
  "Alarm_runAlarms 0 clock run s = None"
| "Alarm_runAlarms (Suc fuel) clock run s =
     (case Alarm_findNext (theAlarms s) of
        None \<Rightarrow> Some s
      | Some (i, a) \<Rightarrow>
          let t_now = clock (reads s); s1 = s\<lparr>reads := reads s + 1\<rparr>
          in if timercmp_less t_now (nextTime a) then Some s1
             else
               let s2 = s1\<lparr>theAlarms := put_at i (a\<lparr>alarmFlag := alarmFlag a OR AlarmFlag_FIRED\<rparr>) (theAlarms s1)\<rparr>;
                   s3 = run (callback a) (alarmId a) s2
               in Alarm_runAlarms fuel clock run (after_callback clock (alarmId a) t_now s3))"

declare Alarm_runAlarms.simps [simp del]

definition handler ::
    "nat \<Rightarrow> (nat \<Rightarrow> timeval) \<Rightarrow> bool \<Rightarrow> ('cb \<Rightarrow> 32 word \<Rightarrow> ('cb, 'w) alarm_state \<Rightarrow> ('cb, 'w) alarm_state) \<Rightarrow>
     ('cb, 'w) alarm_state \<Rightarrow> ('cb, 'w) alarm_state option" where
  "handler fuel clock dont run s =
     map_option (setAnAlarm clock dont) (Alarm_runAlarms fuel clock run s)"

definition Alarm_reset :: "(nat \<Rightarrow> timeval) \<Rightarrow> ('cb, 'w) alarm_state \<Rightarrow> 32 word \<Rightarrow> ('cb, 'w) alarm_state \<times> int" where
  "Alarm_reset clock s i =
     (case position (theAlarms s) (alarm_key i) of
        Some j \<Rightarrow>
          let a = snd (theAlarms s ! j); nowTime = clock (reads s)
          in (s\<lparr>theAlarms := put_at j (a\<lparr>lastTime := nowTime,
                   nextTime := TIME_ADD_TIME nowTime (timeInterval a)\<rparr>) (theAlarms s),
                reads := reads s + 1\<rparr>, 0)
      | None \<Rightarrow> (s, -1))"

section \<open>The next alarm\<close>

lemma timercmp_less_trans: "timercmp_less a b \<Longrightarrow> \<not> timercmp_less c b \<Longrightarrow> timercmp_less a c"
  by (auto simp: timercmp_less_def split: if_splits)

lemma timercmp_less_trans2: "timercmp_less a b \<Longrightarrow> timercmp_less b c \<Longrightarrow> timercmp_less a c"
  by (auto simp: timercmp_less_def split: if_splits)

lemma timercmp_less_irrefl [simp]: "\<not> timercmp_less a a"
  by (simp add: timercmp_less_def)

lemma timercmp_less_asym: "timercmp_less a b \<Longrightarrow> \<not> timercmp_less b a"
  by (auto simp: timercmp_less_def split: if_splits)

lemma find_next_None: "find_next i lowest es = None \<longleftrightarrow> lowest = None \<and> (\<forall>e \<in> set es. fired (snd e))"
  by (induction i lowest es rule: find_next.induct) (auto split: option.splits)

lemma find_next_in:
  "find_next i lowest es = Some (p, a) \<Longrightarrow>
    lowest = Some (p, a) \<or> (i \<le> p \<and> p - i < length es \<and> snd (es ! (p - i)) = a \<and> \<not> fired a)"
proof (induction i lowest es rule: find_next.induct)
  case (2 i lowest k v es)
  show ?case
    using "2.IH" "2.prems" by (fastforce simp: nth_Cons' split: if_splits)
qed simp

lemma find_next_le:
  "find_next i lowest es = Some (p, a) \<Longrightarrow>
    (\<forall>j l. lowest = Some (j, l) \<longrightarrow> \<not> timercmp_less (nextTime l) (nextTime a)) \<and>
    (\<forall>e \<in> set es. \<not> fired (snd e) \<longrightarrow> \<not> timercmp_less (nextTime (snd e)) (nextTime a))"
proof (induction i lowest es rule: find_next.induct)
  case (2 i lowest k v es)
  show ?case
  proof (cases "\<not> fired v \<and> (case lowest of None \<Rightarrow> True | Some (j, l) \<Rightarrow> timercmp_less (nextTime v) (nextTime l))")
    case True
    then show ?thesis
      using "2.IH" "2.prems" by (auto dest: timercmp_less_trans timercmp_less_trans2 timercmp_less_asym)
  next
    case False
    then show ?thesis
      using "2.IH" "2.prems" by (auto dest: timercmp_less_trans split: option.splits)
  qed
qed simp

lemma findNext_None: "Alarm_findNext es = None \<longleftrightarrow> (\<forall>e \<in> set es. fired (snd e))"
  by (simp add: Alarm_findNext_def find_next_None)

lemma findNext_Some:
  assumes "Alarm_findNext es = Some (i, a)"
  shows "i < length es" "snd (es ! i) = a" "\<not> fired a"
    "\<And>b. b \<in> snd ` set es \<Longrightarrow> \<not> fired b \<Longrightarrow> \<not> timercmp_less (nextTime b) (nextTime a)"
  using find_next_in [of 0 None es i a] find_next_le [of 0 None es i a] assms
  by (auto simp: Alarm_findNext_def)

section \<open>Changing one alarm\<close>

lemma position_map_of: "position es k = None \<longleftrightarrow> map_of es k = None"
  by (induction es) auto

lemma position_Some: "position es k = Some j \<Longrightarrow> j < length es \<and> fst (es ! j) = k \<and> map_of es k = Some (snd (es ! j))"
  by (induction es arbitrary: j) (auto split: if_splits)

lemma position_nth:
  "distinct (map fst es) \<Longrightarrow> i < length es \<Longrightarrow> position es (fst (es ! i)) = Some i"
proof (induction es arbitrary: i)
  case (Cons e es)
  then show ?case
    by (cases i) (auto simp: image_iff)
qed simp

lemma keys_put_at [simp]: "map fst (put_at i v es) = map fst es"
  by (cases "i < length es") (simp_all add: put_at_def map_update list_update_same_conv list_update_beyond)

lemma map_of_put_at:
  "distinct (map fst es) \<Longrightarrow> i < length es \<Longrightarrow> map_of (put_at i v es) = (map_of es)(fst (es ! i) \<mapsto> v)"
proof (induction es arbitrary: i)
  case (Cons e es)
  have "fst (es ! j) \<noteq> fst e" if "j < length es" for j
    using that Cons.prems(1) by (metis distinct.simps(2) image_eqI list.map(2) nth_mem set_map)
  then show ?case
    using Cons by (cases i) (auto simp: put_at_def fun_eq_iff)
qed simp
lemma put_at_put_at [simp]: "put_at i w (put_at i v es) = put_at i w es"
  by (cases "i < length es") (simp_all add: put_at_def list_update_beyond)

lemma length_put_at [simp]: "length (put_at i v es) = length es"
  by (simp add: put_at_def)

lemma put_at_nth: "i < length es \<Longrightarrow> put_at i v es ! i = (fst (es ! i), v)"
  by (simp add: put_at_def)

lemma filter_update_drop: "i < length xs \<Longrightarrow> \<not> P (xs ! i) \<Longrightarrow> \<not> P y \<Longrightarrow> filter P (xs[i := y]) = filter P xs"
proof (induction xs arbitrary: i)
  case (Cons x xs)
  then show ?case
    by (cases i) auto
qed simp

lemma flag_off_on: "x AND m = 0 \<Longrightarrow> (x OR m) AND NOT m = (x :: 32 word)"
  by (simp add: bit_eq_iff bit_simps) blast

section \<open>The invariant\<close>

text \<open>
  Every alarm is stored once, under its id; the ids were handed out before the next one, and times are
  normalised.
\<close>

definition alarm_inv :: "('cb, 'w) alarm_state \<Rightarrow> bool" where
  "alarm_inv s \<longleftrightarrow> distinct (map fst (theAlarms s)) \<and> 0 < unat (alarmIdNumber s) \<and>
     (\<forall>(k, a) \<in> set (theAlarms s). k = alarm_key (alarmId a) \<and> 0 < unat (alarmId a) \<and>
        unat (alarmId a) < unat (alarmIdNumber s) \<and> normal (timeInterval a) \<and> normal (nextTime a))"

lemma alarm_inv_cong:
  "theAlarms s = theAlarms s' \<Longrightarrow> alarmIdNumber s = alarmIdNumber s' \<Longrightarrow> alarm_inv s = alarm_inv s'"
  by (simp add: alarm_inv_def)

lemma findSpecific_map_of: "Alarm_findSpecific es i = map_of es (alarm_key i)"
  by (simp add: Alarm_findSpecific_def Map_at_map_of)

lemma alarm_invD:
  assumes "alarm_inv s" "a \<in> snd ` set (theAlarms s)"
  shows "(alarm_key (alarmId a), a) \<in> set (theAlarms s)" "Alarm_findSpecific (theAlarms s) (alarmId a) = Some a"
    "normal (nextTime a)" "normal (timeInterval a)" "alarmId a \<noteq> 0"
proof -
  obtain k where k: "(k, a) \<in> set (theAlarms s)"
    using assms(2) by auto
  with assms(1) have "k = alarm_key (alarmId a)" "0 < unat (alarmId a)" "normal (timeInterval a)" "normal (nextTime a)"
    and d: "distinct (map fst (theAlarms s))"
    by (auto simp: alarm_inv_def)
  with k show "(alarm_key (alarmId a), a) \<in> set (theAlarms s)" "normal (nextTime a)" "normal (timeInterval a)"
    and "alarmId a \<noteq> 0"
    by auto
  then show "Alarm_findSpecific (theAlarms s) (alarmId a) = Some a"
    using d by (simp add: findSpecific_map_of)
qed

lemma alarm_inv_remove: "alarm_inv s \<Longrightarrow> alarm_inv (Alarm_unregister s i)"
  by (auto simp: alarm_inv_def Alarm_unregister_def Map_erase_filter distinct_map_filter)

lemma alarm_inv_put_at:
  assumes "alarm_inv s" "i < length (theAlarms s)" "theAlarms s' = put_at i v (theAlarms s)"
    "alarmIdNumber s' = alarmIdNumber s"
    "alarmId v = alarmId (snd (theAlarms s ! i))" "normal (timeInterval v)" "normal (nextTime v)"
  shows "alarm_inv s'"
proof -
  have "theAlarms s ! i \<in> set (theAlarms s)"
    using assms(2) by simp
  then have "fst (theAlarms s ! i) = alarm_key (alarmId v)" "0 < unat (alarmId v)"
    "unat (alarmId v) < unat (alarmIdNumber s)"
    using assms(1,5) by (cases "theAlarms s ! i"; fastforce simp: alarm_inv_def)+
  moreover have "set (theAlarms s') \<subseteq> insert (fst (theAlarms s ! i), v) (set (theAlarms s))"
    by (simp add: assms(3) put_at_def set_update_subset_insert)
  ultimately show ?thesis
    using assms(1,3,4,6,7) by (fastforce simp: alarm_inv_def)
qed

section \<open>One alarm after its callback\<close>

text \<open>The alarm as it comes back, when it repeats with an interval.\<close>

definition rescheduled :: "timeval \<Rightarrow> 'cb alarm \<Rightarrow> 'cb alarm" where
  "rescheduled t a = a\<lparr>lastTime := t, nextTime := TIME_ADD_TIME t (timeInterval a)\<rparr>"

lemma rescheduled_sel [simp]:
  "alarmId (rescheduled t a) = alarmId a" "timeInterval (rescheduled t a) = timeInterval a"
  "nextTime (rescheduled t a) = TIME_ADD_TIME t (timeInterval a)" "alarmFlag (rescheduled t a) = alarmFlag a"
  "fired (rescheduled t a) = fired a" "repeating (rescheduled t a) = repeating a"
  by (simp_all add: rescheduled_def fired_def repeating_def)

lemma after_callback_eq:
  assumes inv: "alarm_inv s" and i: "i < length (theAlarms s)" "snd (theAlarms s ! i) = a" "\<not> fired a"
    and t: "timerisset t" and iv: "repeating a \<Longrightarrow> timerisset (timeInterval a)"
  shows "after_callback clock (alarmId a) t
      (s\<lparr>reads := n, theAlarms := put_at i (a\<lparr>alarmFlag := alarmFlag a OR AlarmFlag_FIRED\<rparr>) (theAlarms s), world := w\<rparr>) =
    (if repeating a then s\<lparr>reads := n, theAlarms := put_at i (rescheduled t a) (theAlarms s), world := w\<rparr>
     else Alarm_unregister (s\<lparr>reads := n, world := w\<rparr>) (alarmId a))"
proof -
  let ?A = "put_at i (a\<lparr>alarmFlag := alarmFlag a OR AlarmFlag_FIRED\<rparr>) (theAlarms s)"
  have d: "distinct (map fst (theAlarms s))" and k: "fst (theAlarms s ! i) = alarm_key (alarmId a)"
    using inv i nth_mem [OF i(1)] by (cases "theAlarms s ! i"; fastforce simp: alarm_inv_def)+
  have p: "position ?A (alarm_key (alarmId a)) = Some i"
    using position_nth [of ?A i] d k i(1) by (simp add: put_at_nth)
  have f: "(alarmFlag a OR AlarmFlag_FIRED) AND NOT AlarmFlag_FIRED = alarmFlag a"
    using i(3) by (intro flag_off_on) (simp add: fired_def)
  have u: "updateEntry clock n (a\<lparr>lastTime := t, nextTime := timerclear\<rparr>) =
      (if repeating a then Some (rescheduled t a) else None, n)"
    using t iv by (simp add: updateEntry_def rescheduled_def repeating_def)
  have e: "fst (Map_erase (put_at i v (theAlarms s)) (alarm_key (alarmId a))) =
      fst (Map_erase (theAlarms s) (alarm_key (alarmId a)))" for v
  proof -
    have "distinct (map fst (put_at i v (theAlarms s)))"
      using d by simp
    then show ?thesis
      using d k i(1) by (simp add: Map_erase_filter filter_update_drop put_at_def del: keys_put_at)
  qed
  show ?thesis
    using i(1) p f u e by (simp add: after_callback_def Let_def put_at_nth Alarm_unregister_def)
qed

end
