(* ===== verification/AlarmProps.thy ===== *)
theory AlarmProps
  imports Alarm
begin

text \<open>
  What running the alarms achieves, what registering, resetting and removing an alarm do to the table,
  and how the timer of the process follows it.
\<close>

section \<open>Lookups\<close>

abbreviation alarms :: "('cb, 'w) alarm_state \<Rightarrow> 'cb alarm set" where
  "alarms s \<equiv> snd ` set (theAlarms s)"

abbreviation lookup :: "('cb, 'w) alarm_state \<Rightarrow> 32 word \<Rightarrow> 'cb alarm option" where
  "lookup s \<equiv> Alarm_findSpecific (theAlarms s)"

lemma alarms_lookup: "alarm_inv s \<Longrightarrow> a \<in> alarms s \<longleftrightarrow> lookup s (alarmId a) = Some a"
  by (auto simp: findSpecific_map_of dest: alarm_invD(2) map_of_SomeD intro: rev_image_eqI)

lemma lookup_alarms: "lookup s i = Some a \<Longrightarrow> a \<in> alarms s"
  by (auto simp: findSpecific_map_of dest: map_of_SomeD intro: rev_image_eqI)

lemma lookup_id: "alarm_inv s \<Longrightarrow> lookup s i = Some a \<Longrightarrow> alarmId a = i"
  by (auto simp: findSpecific_map_of alarm_inv_def dest!: map_of_SomeD)

lemma lookup_unregister:
  "alarm_inv s \<Longrightarrow> lookup (Alarm_unregister s i) j = (if j = i then None else lookup s j)"
  by (auto simp: findSpecific_map_of Alarm_unregister_def Map_erase_filter map_of_filter_key alarm_inv_def)

lemma lookup_put_at:
  assumes "alarm_inv s" "i < length (theAlarms s)" "theAlarms s' = put_at i v (theAlarms s)"
  shows "lookup s' j = (if j = alarmId (snd (theAlarms s ! i)) then Some v else lookup s j)"
proof -
  have "fst (theAlarms s ! i) = alarm_key (alarmId (snd (theAlarms s ! i)))"
    using assms(1) nth_mem [OF assms(2)] by (cases "theAlarms s ! i"; fastforce simp: alarm_inv_def)
  then show ?thesis
    using assms map_of_put_at [of "theAlarms s" i v] by (auto simp: findSpecific_map_of alarm_inv_def)
qed

lemma length_filter_update:
  "i < length xs \<Longrightarrow> P (xs ! i) \<Longrightarrow> \<not> P y \<Longrightarrow> length (filter P (xs[i := y])) < length (filter P xs)"
proof (induction xs arbitrary: i)
  case (Cons x xs)
  then show ?case
    by (cases i) auto
qed simp

section \<open>Running the alarms\<close>

text \<open>
  \<open>L\<close> are the alarms that ran, in this order, each with the clock at its start in \<open>C\<close>: the callbacks
  change the world one after the other, those that repeat are due again one interval later, the
  others are gone, and the rest is as it was.
\<close>

definition after_run :: "timeval set \<Rightarrow> 'cb alarm \<Rightarrow> 'cb alarm option \<Rightarrow> bool" where
  "after_run C a r \<longleftrightarrow>
     (if repeating a then \<exists>t \<in> C. micros (nextTime a) \<le> micros t \<and> r = Some (rescheduled t a) else r = None)"

definition ran :: "timeval set \<Rightarrow> ('cb \<Rightarrow> 32 word \<Rightarrow> 'w \<Rightarrow> 'w) \<Rightarrow> ('cb, 'w) alarm_state \<Rightarrow> ('cb, 'w) alarm_state \<Rightarrow>
    'cb alarm list \<Rightarrow> bool" where
  "ran C f s s' L \<longleftrightarrow>
     sorted_wrt (\<lambda>a b. micros (nextTime a) \<le> micros (nextTime b)) L \<and> distinct (map alarmId L) \<and>
     set L \<subseteq> alarms s \<and> world s' = fold (\<lambda>a. f (callback a) (alarmId a)) L (world s) \<and>
     (\<forall>a \<in> alarms s. if a \<in> set L then after_run C a (lookup s' (alarmId a)) else lookup s' (alarmId a) = Some a) \<and>
     (\<forall>i. lookup s i = None \<longrightarrow> lookup s' i = None)"

definition ready :: "int \<Rightarrow> int \<Rightarrow> ('cb, 'w) alarm_state \<Rightarrow> bool" where
  "ready T T' s \<longleftrightarrow> alarm_inv s \<and>
     (\<forall>a \<in> alarms s. \<not> fired a \<and> (repeating a \<longrightarrow> T' - T < micros (timeInterval a)))"

lemma ran_Cons:
  assumes inv: "alarm_inv s" "alarm_inv s1" and a: "a \<in> alarms s"
    and l: "\<And>j. lookup s1 j = (if j = alarmId a then r else lookup s j)"
    and r: "after_run C a r" "\<And>b. r = Some b \<Longrightarrow> T' < micros (nextTime b)"
    and le: "\<And>b. b \<in> alarms s \<Longrightarrow> micros (nextTime a) \<le> micros (nextTime b)"
    and w: "world s1 = f (callback a) (alarmId a) (world s)"
    and L: "ran C f s1 s' L" "\<forall>b \<in> set L. micros (nextTime b) \<le> T'"
  shows "ran C f s s' (a # L)"
proof -
  have s1: "b \<in> alarms s1 \<longleftrightarrow> (if alarmId b = alarmId a then r = Some b else b \<in> alarms s)" for b
    using inv by (simp add: alarms_lookup l)
  have L1: "b \<in> set L \<Longrightarrow> b \<in> alarms s1 \<and> micros (nextTime b) \<le> T'" for b
    using L unfolding ran_def by blast
  have L2: "b \<in> set L \<Longrightarrow> alarmId b \<noteq> alarmId a \<and> b \<in> alarms s" for b
    using L1 [of b] r(2) [of b] s1 [of b] by (auto split: if_splits)
  have out: "if b \<in> set (a # L) then after_run C b (lookup s' (alarmId b)) else lookup s' (alarmId b) = Some b"
    if b: "b \<in> alarms s" for b
  proof (cases "alarmId b = alarmId a")
    case True
    then have ba: "b = a"
      using a b inv by (metis alarms_lookup option.inject)
    have "lookup s' (alarmId a) = r"
    proof (cases r)
      case None
      then show ?thesis
        using L(1) l unfolding ran_def by simp
    next
      case (Some c)
      then have c: "lookup s1 (alarmId a) = Some c" "c \<in> alarms s1"
        using l [of "alarmId a"] lookup_alarms [of s1 "alarmId a" c] by simp_all
      moreover from this have "c \<notin> set L"
        using r(2) [OF Some] L1 by fastforce
      moreover have "alarmId c = alarmId a"
        using c lookup_id inv by blast
      ultimately show ?thesis
        using L(1) Some unfolding ran_def by metis
    qed
    then show ?thesis
      using ba r(1) by simp
  next
    case False
    then have "b \<in> alarms s1" "b \<noteq> a"
      using s1 b by auto
    then show ?thesis
      using L(1) unfolding ran_def by auto
  qed
  have none: "lookup s i = None \<Longrightarrow> lookup s' i = None" for i
    using L(1) l a inv(1) unfolding ran_def by (metis alarms_lookup option.distinct(1))
  have "alarmId a \<notin> alarmId ` set L" "set (a # L) \<subseteq> alarms s"
    using L2 a by (metis imageE) (auto dest: L2 simp: a)
  moreover have "\<forall>b \<in> set L. micros (nextTime a) \<le> micros (nextTime b)"
    using L2 le by blast
  ultimately show ?thesis
    unfolding ran_def using L(1) w out none by (simp add: ran_def)
qed

lemma runAlarms_ran:
  assumes run: "\<And>cb i s. run cb i s = s\<lparr>world := f cb i (world s)\<rparr>"
    and clk: "\<And>n. normal (clock n) \<and> T \<le> micros (clock n) \<and> micros (clock n) \<le> T'" and T: "0 < T"
  shows "ready T T' s \<Longrightarrow> length (filter (\<lambda>e. micros (nextTime (snd e)) \<le> T') (theAlarms s)) < fuel \<Longrightarrow>
    \<exists>s' L. Alarm_runAlarms fuel clock run s = Some s' \<and> ran (range clock) f s s' L \<and> ready T T' s' \<and>
      (\<forall>a \<in> set L. micros (nextTime a) \<le> T') \<and> (\<forall>a \<in> alarms s'. T < micros (nextTime a))"
proof (induction fuel arbitrary: s)
  case (Suc fuel)
  have inv: "alarm_inv s" and rdy: "\<And>a. a \<in> alarms s \<Longrightarrow> \<not> fired a \<and> (repeating a \<longrightarrow> T' - T < micros (timeInterval a))"
    using Suc.prems(1) by (auto simp: ready_def)
  have stop: ?case if "Alarm_runAlarms (Suc fuel) clock run s = Some s1" "theAlarms s1 = theAlarms s"
      "alarmIdNumber s1 = alarmIdNumber s" "world s1 = world s" "\<And>a. a \<in> alarms s \<Longrightarrow> T < micros (nextTime a)" for s1
  proof -
    have "ran (range clock) f s s1 []"
      using that(2,4) inv by (simp add: ran_def alarm_invD(2))
    moreover have "ready T T' s1"
      using Suc.prems(1) that(2,3) alarm_inv_cong [of s1 s] by (simp add: ready_def)
    ultimately show ?thesis
      using that by (intro exI [of _ s1] exI [of _ "[]"]) simp
  qed
  show ?case
  proof (cases "Alarm_findNext (theAlarms s)")
    case None
    then have "theAlarms s = []"
      using rdy by (metis findNext_None image_eqI list.set_intros(1) neq_Nil_conv)
    then show ?thesis
      using None by (intro stop [of s]) (simp_all add: Alarm_runAlarms.simps)
  next
    case (Some ia)
    obtain i a where ia: "ia = (i, a)"
      by (cases ia)
    note nx = findNext_Some [OF Some [unfolded ia]]
    have a: "a \<in> alarms s"
      using nx(1,2) nth_mem by fastforce
    have le: "micros (nextTime a) \<le> micros (nextTime b)" if b: "b \<in> alarms s" for b
      using nx(4) [OF b] rdy [OF b] alarm_invD(3) [OF inv a] alarm_invD(3) [OF inv b] by (simp add: micros_less)
    let ?t = "clock (reads s)"
    have t: "normal ?t" "T \<le> micros ?t" "micros ?t \<le> T'"
      using clk [of "reads s"] by simp_all
    show ?thesis
    proof (cases "timercmp_less ?t (nextTime a)")
      case True
      then have "micros ?t < micros (nextTime a)"
        using t(1) alarm_invD(3) [OF inv a] by (simp add: micros_less)
      then have "T < micros (nextTime b)" if "b \<in> alarms s" for b
        using t(2) le [OF that] by linarith
      then show ?thesis
        using Some ia True by (intro stop [of "s\<lparr>reads := reads s + 1\<rparr>"])
          (simp_all add: Alarm_runAlarms.simps Let_def)
    next
      case False
      then have due: "micros (nextTime a) \<le> micros ?t"
        using t(1) alarm_invD(3) [OF inv a] by (simp add: micros_less)
      have ts: "timerisset ?t"
        using t T by (simp add: timerisset_micros)
      have iv: "repeating a \<Longrightarrow> timerisset (timeInterval a)"
        using rdy [OF a] t alarm_invD(4) [OF inv a] by (simp add: timerisset_micros)
      let ?w = "f (callback a) (alarmId a) (world s)"
      define s1 where "s1 = (if repeating a
          then s\<lparr>reads := reads s + 1, theAlarms := put_at i (rescheduled ?t a) (theAlarms s), world := ?w\<rparr>
          else Alarm_unregister (s\<lparr>reads := reads s + 1, world := ?w\<rparr>) (alarmId a))"
      let ?r = "if repeating a then Some (rescheduled ?t a) else None"
      have step: "Alarm_runAlarms (Suc fuel) clock run s = Alarm_runAlarms fuel clock run s1"
        using Some ia False after_callback_eq [OF inv nx(1,2,3) ts iv]
        by (simp add: Alarm_runAlarms.simps Let_def run s1_def)
      have inv1: "alarm_inv s1"
      proof (cases "repeating a")
        case True
        show ?thesis
          by (rule alarm_inv_put_at [OF inv nx(1), of _ "rescheduled ?t a"])
            (use True nx(2) t(1) alarm_invD(4) [OF inv a] in \<open>simp_all add: s1_def\<close>)
      next
        case False
        have "alarm_inv (s\<lparr>reads := reads s + 1, world := ?w\<rparr>)"
          using inv alarm_inv_cong [of "s\<lparr>reads := reads s + 1, world := ?w\<rparr>" s] by simp
        then show ?thesis
          using False by (simp add: s1_def alarm_inv_remove)
      qed
      have l1: "lookup s1 j = (if j = alarmId a then ?r else lookup s j)" for j
      proof (cases "repeating a")
        case True
        then show ?thesis
          using lookup_put_at [OF inv nx(1), of s1 "rescheduled ?t a"] nx(2) by (simp add: s1_def)
      next
        case False
        have "alarm_inv (s\<lparr>reads := reads s + 1, world := ?w\<rparr>)"
          using inv alarm_inv_cong [of "s\<lparr>reads := reads s + 1, world := ?w\<rparr>" s] by simp
        from lookup_unregister [OF this, of "alarmId a" j] show ?thesis
          using False by (simp add: s1_def)
      qed
      have late: "T' < micros (nextTime b)" if "?r = Some b" for b
        using that rdy [OF a] t by (auto split: if_splits)
      have r1: "ready T T' s1"
        unfolding ready_def
      proof (intro conjI ballI inv1)
        fix b
        assume "b \<in> alarms s1"
        then have "lookup s1 (alarmId b) = Some b"
          using alarms_lookup inv1 by blast
        then have "b \<in> alarms s \<or> (repeating a \<and> b = rescheduled ?t a)"
          using lookup_alarms by (auto simp: l1 split: if_splits)
        then show "\<not> fired b" "repeating b \<longrightarrow> T' - T < micros (timeInterval b)"
          using rdy rdy [OF a] by auto
      qed
      have "length (filter (\<lambda>e. micros (nextTime (snd e)) \<le> T') (theAlarms s1))
          < length (filter (\<lambda>e. micros (nextTime (snd e)) \<le> T') (theAlarms s))"
      proof (cases "repeating a")
        case True
        then show ?thesis
          using nx(1,2) due t(3) late by (simp add: s1_def put_at_def length_filter_update)
      next
        case False
        have "(alarm_key (alarmId a), a) \<in> set (filter (\<lambda>e. micros (nextTime (snd e)) \<le> T') (theAlarms s))"
          using alarm_invD(1) [OF inv a] due t(3) by simp
        then have "length (filter (\<lambda>e. fst e \<noteq> alarm_key (alarmId a))
            (filter (\<lambda>e. micros (nextTime (snd e)) \<le> T') (theAlarms s))) <
            length (filter (\<lambda>e. micros (nextTime (snd e)) \<le> T') (theAlarms s))"
          by (rule length_filter_less) simp
        then show ?thesis
          using False inv by (simp add: s1_def Alarm_unregister_def Map_erase_filter alarm_inv_def conj_commute)
      qed
      then obtain s' L where IH: "Alarm_runAlarms fuel clock run s1 = Some s'" "ran (range clock) f s1 s' L"
        "ready T T' s'" "\<forall>a \<in> set L. micros (nextTime a) \<le> T'" "\<forall>a \<in> alarms s'. T < micros (nextTime a)"
        using Suc.IH [OF r1] Suc.prems(2) by (meson less_Suc_eq_le order_less_le_trans)
      have "ran (range clock) f s s' (a # L)"
      proof (rule ran_Cons [OF inv inv1 a l1 _ late le _ IH(2,4)])
        show "after_run (range clock) a ?r"
          using due by (auto simp: after_run_def)
        show "world s1 = ?w"
          by (simp add: s1_def Alarm_unregister_def)
      qed
      then show ?thesis
        using IH due t(3) step by (intro exI [of _ s'] exI [of _ "a # L"]) simp
    qed
  qed
qed simp

section \<open>Registering and the timer\<close>

lemma getNextAlarmDelayTime_simp:
  "getNextAlarmDelayTime clock s = (case Alarm_findNext (theAlarms s) of
     None \<Rightarrow> (None, 0, s\<lparr>reads := reads s + 1\<rparr>)
   | Some (i, a) \<Rightarrow>
       let t = clock (reads s)
       in (if alarmId a \<noteq> 0 then Some (TIME_SUB_TIME (if timercmp_less t (nextTime a) then nextTime a else t) t) else None,
           alarmId a, s\<lparr>reads := reads s + 1\<rparr>))"
  by (auto simp: getNextAlarmDelayTime_def Alarm_getNextAlarmTime_def Let_def split: option.splits prod.splits)

lemma setAnAlarm_table [simp]:
  "theAlarms (setAnAlarm clock dont s) = theAlarms s" "alarmIdNumber (setAnAlarm clock dont s) = alarmIdNumber s"
  "world (setAnAlarm clock dont s) = world s" "startAlarms (setAnAlarm clock dont s) = startAlarms s"
  by (auto simp: setAnAlarm_def getNextAlarmDelayTime_simp Let_def split: option.splits prod.splits)

definition new_alarm :: "timeval \<Rightarrow> 32 word \<Rightarrow> 32 word \<Rightarrow> timeval \<Rightarrow> 'cb \<Rightarrow> 'cb alarm" where
  "new_alarm time flag i now cb =
     \<lparr>timeInterval = time, alarmFlag = flag, alarmId = i, lastTime = now, nextTime = TIME_ADD_TIME now time, callback = cb\<rparr>"

lemma register_alarm_table:
  assumes "register_alarm clock dont True True s time flag cb = (s', i)"
  shows "i = alarmIdNumber s" "alarmIdNumber s' = i + 1" "world s' = world s"
    "theAlarms s' = map_put (theAlarms s) (alarm_key i) (new_alarm time flag i (clock (reads s)) cb)"
  using assms by (auto simp: register_alarm_def updateEntry_def new_alarm_def map_put_def Let_def split: if_splits)

lemma fresh_key: "alarm_inv s \<Longrightarrow> Map_at (theAlarms s) (alarm_key (alarmIdNumber s)) = None"
  by (auto simp: Map_at_map_of map_of_eq_None_iff alarm_inv_def)

lemma register_alarm_inv:
  assumes inv: "alarm_inv s" and max: "alarmIdNumber s \<noteq> - 1" and t: "normal time" "normal (clock (reads s))"
    and r: "register_alarm clock dont True True s time flag cb = (s', i)"
  shows "alarm_inv s'"
proof -
  have i: "i = alarmIdNumber s" "alarmIdNumber s' = i + 1"
    using register_alarm_table [OF r] by simp_all
  have u: "unat (i + 1) = unat i + 1"
    using max i(1) unatSuc [of i] by (simp add: add.commute eq_neg_iff_add_eq_0)
  have "distinct (map fst (theAlarms s'))"
    using inv map_dict.ok_put [OF _ fresh_key [OF inv]] i
    by (simp add: register_alarm_table(4) [OF r] alarm_inv_def)
  moreover have "set (theAlarms s') = insert (alarm_key i, new_alarm time flag i (clock (reads s)) cb) (set (theAlarms s))"
    by (simp add: register_alarm_table(4) [OF r] map_put_def Map_emplace_simp)
  ultimately show ?thesis
    using inv t i u by (fastforce simp: alarm_inv_def new_alarm_def)
qed

lemma lookup_register:
  assumes "alarm_inv s" "register_alarm clock dont True True s time flag cb = (s', i)"
  shows "lookup s i = None" "lookup s' = (lookup s)(i \<mapsto> new_alarm time flag i (clock (reads s)) cb)"
proof -
  note r = register_alarm_table [OF assms(2)]
  note fresh = fresh_key [OF assms(1)]
  show "lookup s i = None"
    using fresh r(1) by (simp add: Alarm_findSpecific_def)
  show "lookup s' = (lookup s)(i \<mapsto> new_alarm time flag i (clock (reads s)) cb)"
    using map_dict.get_put [OF _ fresh] r assms(1) by (auto simp: Alarm_findSpecific_def alarm_inv_def fun_eq_iff)
qed

lemma reset_lookup:
  assumes inv: "alarm_inv s" and a: "lookup s i = Some a" and t: "normal (clock (reads s))"
  shows "\<exists>s'. Alarm_reset clock s i = (s', 0) \<and> alarm_inv s' \<and> lookup s' = (lookup s)(i \<mapsto> rescheduled (clock (reads s)) a)"
proof -
  obtain j where j: "position (theAlarms s) (alarm_key i) = Some j"
    using a position_map_of [of "theAlarms s" "alarm_key i"] by (auto simp: findSpecific_map_of)
  then have n: "j < length (theAlarms s)" "snd (theAlarms s ! j) = a"
    using position_Some [OF j] a by (auto simp: findSpecific_map_of)
  let ?s' = "s\<lparr>theAlarms := put_at j (rescheduled (clock (reads s)) a) (theAlarms s), reads := reads s + 1\<rparr>"
  have "Alarm_reset clock s i = (?s', 0)"
    using j n by (simp add: Alarm_reset_def Let_def rescheduled_def)
  moreover have "alarm_inv ?s'"
    using alarm_inv_put_at [OF inv n(1), of ?s' "rescheduled (clock (reads s)) a"] n t
      alarm_invD(4) [OF inv lookup_alarms [OF a]] by simp
  moreover have "lookup ?s' = (lookup s)(i \<mapsto> rescheduled (clock (reads s)) a)"
    using lookup_put_at [OF inv n(1), of ?s' "rescheduled (clock (reads s)) a"] n lookup_id [OF inv a]
    by (auto simp: fun_eq_iff)
  ultimately show ?thesis
    by blast
qed

section \<open>Properties\<close>

text \<open>
  C10: when the callbacks only change the world outside and take less time than the interval of
  every alarm that repeats, running the alarms returns after at most one round for each alarm and
  one more: every alarm that was due when it began has run, once, the earliest first; no other alarm
  was touched; and all that are left are in the future.
\<close>

theorem alarms_all_run:
  assumes "\<And>cb i s. run cb i s = s\<lparr>world := f cb i (world s)\<rparr>"
    and "\<And>n. normal (clock n) \<and> T \<le> micros (clock n) \<and> micros (clock n) \<le> T'" "0 < T"
    and "ready T T' s" "length (theAlarms s) < fuel"
  shows "\<exists>s' L. Alarm_runAlarms fuel clock run s = Some s' \<and> ran (range clock) f s s' L \<and>
    {a \<in> alarms s. micros (nextTime a) \<le> T} \<subseteq> set L \<and> set L \<subseteq> {a \<in> alarms s. micros (nextTime a) \<le> T'} \<and>
    ready T T' s' \<and> (\<forall>a \<in> alarms s'. T < micros (nextTime a))"
proof -
  have "length (filter (\<lambda>e. micros (nextTime (snd e)) \<le> T') (theAlarms s)) < fuel"
    using assms(5) length_filter_le order_le_less_trans by blast
  from runAlarms_ran [where run = run and f = f and clock = clock, OF assms(1-4) this] obtain s' L where
    R: "Alarm_runAlarms fuel clock run s = Some s'" "ran (range clock) f s s' L" "ready T T' s'"
      "\<forall>a \<in> set L. micros (nextTime a) \<le> T'" "\<forall>a \<in> alarms s'. T < micros (nextTime a)"
    by blast
  have "a \<in> set L" if "a \<in> alarms s" "micros (nextTime a) \<le> T" for a
  proof (rule ccontr)
    assume "a \<notin> set L"
    then have "lookup s' (alarmId a) = Some a"
      using R(2) that(1) unfolding ran_def by auto
    then show False
      using R(5) that(2) lookup_alarms by fastforce
  qed
  moreover have "set L \<subseteq> alarms s"
    using R(2) by (simp add: ran_def)
  ultimately show ?thesis
    using R by blast
qed

definition two_alarms :: "(string, string list) alarm_state" where
  "two_alarms = \<lparr>theAlarms = [
      (alarm_key 1, \<lparr>timeInterval = \<lparr>tv_sec = 5, tv_usec = 0\<rparr>, alarmFlag = AlarmFlag_REPEAT, alarmId = 1,
        lastTime = timerclear, nextTime = \<lparr>tv_sec = 9, tv_usec = 0\<rparr>, callback = ''a''\<rparr>),
      (alarm_key 2, \<lparr>timeInterval = \<lparr>tv_sec = 1, tv_usec = 0\<rparr>, alarmFlag = 0, alarmId = 2,
        lastTime = timerclear, nextTime = \<lparr>tv_sec = 8, tv_usec = 5\<rparr>, callback = ''b''\<rparr>)],
     startAlarms = False, alarmIdNumber = 3, timer = None, reads = 0, world = []\<rparr>"

lemma alarms_all_run_witness:
  "\<exists>s' L. Alarm_runAlarms 3 (\<lambda>n. \<lparr>tv_sec = 10, tv_usec = 0\<rparr>) (\<lambda>cb i s. s\<lparr>world := cb # world s\<rparr>) two_alarms = Some s' \<and>
    set L = alarms two_alarms \<and> ready 10000000 10000000 s'"
proof -
  have R: "ready 10000000 10000000 two_alarms"
    by (simp add: ready_def two_alarms_def alarm_inv_def fired_def repeating_def AlarmFlag_REPEAT_def
        AlarmFlag_FIRED_def micros_def normal_def)
  have D: "{a \<in> alarms two_alarms. micros (nextTime a) \<le> 10000000} = alarms two_alarms"
    by (auto simp: two_alarms_def micros_def)
  show ?thesis
    using alarms_all_run [of "\<lambda>cb i s. s\<lparr>world := cb # world s\<rparr>" "\<lambda>cb i w. cb # w" "\<lambda>n. \<lparr>tv_sec = 10, tv_usec = 0\<rparr>"
        10000000 10000000 two_alarms 3] R
    unfolding D by (fastforce simp: normal_def micros_def two_alarms_def)
qed

text \<open>
  C30: registering an alarm hands out an id that is not 0 and that no alarm of the table has, stores
  the alarm under it with its time one interval from now and leaves the others alone; resetting it
  counts the interval from the new now; removing it brings back the table from before; the
  invariant holds throughout, until the ids are used up.
\<close>

theorem alarm_table:
  assumes "alarm_inv s" "alarmIdNumber s \<noteq> - 1" "normal time" "\<And>n. normal (clock n)"
    and "register_alarm clock dont True True s time flag cb = (s', i)"
  shows "alarm_inv s' \<and> i \<noteq> 0 \<and> lookup s i = None \<and>
    lookup s' = (lookup s)(i \<mapsto> new_alarm time flag i (clock (reads s)) cb) \<and>
    (\<exists>s''. Alarm_reset clock s' i = (s'', 0) \<and> alarm_inv s'' \<and>
      lookup s'' = (lookup s)(i \<mapsto> new_alarm time flag i (clock (reads s')) cb)) \<and>
    alarm_inv (Alarm_unregister s' i) \<and> lookup (Alarm_unregister s' i) = lookup s"
proof -
  note inv' = register_alarm_inv [OF assms(1-3) assms(4) assms(5)]
  note lk = lookup_register [OF assms(1,5)]
  have i: "i \<noteq> 0"
    using assms(1) register_alarm_table(1) [OF assms(5)] by (auto simp: alarm_inv_def)
  have "lookup s' i = Some (new_alarm time flag i (clock (reads s)) cb)"
    by (simp add: lk)
  from reset_lookup [OF inv' this, where clock = clock] have "\<exists>s''. Alarm_reset clock s' i = (s'', 0) \<and> alarm_inv s'' \<and>
      lookup s'' = (lookup s)(i \<mapsto> new_alarm time flag i (clock (reads s')) cb)"
    using assms(4) by (simp add: lk rescheduled_def new_alarm_def)
  moreover have "lookup (Alarm_unregister s' i) = lookup s"
    using lk by (auto simp: lookup_unregister [OF inv'])
  ultimately show ?thesis
    using inv' i lk by (simp add: alarm_inv_remove)
qed

lemma alarm_table_witness:
  "\<exists>s' i. register_alarm (\<lambda>n. \<lparr>tv_sec = 10, tv_usec = 0\<rparr>) True True True two_alarms \<lparr>tv_sec = 3, tv_usec = 0\<rparr> 0 ''c'' = (s', i) \<and>
    i \<noteq> 0 \<and> alarm_inv s' \<and> lookup (Alarm_unregister s' i) = lookup two_alarms"
proof -
  obtain s' i where R: "register_alarm (\<lambda>n. \<lparr>tv_sec = 10, tv_usec = 0\<rparr>) True True True two_alarms
      \<lparr>tv_sec = 3, tv_usec = 0\<rparr> 0 ''c'' = (s', i)"
    by fastforce
  have "alarm_inv two_alarms" "alarmIdNumber two_alarms \<noteq> - 1"
    by (simp_all add: two_alarms_def alarm_inv_def normal_def)
  from alarm_table [OF this _ _ R] show ?thesis
    using R by (auto simp: normal_def)
qed

text \<open>
  setting the timer arms it with the time that is left until the next alarm; when that alarm has
  become due in the meantime the timer is set to zero, which disarms it: no signal will come.
\<close>

theorem alarm_timer:
  assumes "alarm_inv s" "Alarm_findNext (theAlarms s) = Some (i, a)" "normal (clock (reads s))"
  shows "case timer (setAnAlarm clock False s) of
      Some d \<Rightarrow> micros (clock (reads s)) < micros (nextTime a) \<and> normal d \<and>
        micros d = micros (nextTime a) - micros (clock (reads s))
    | None \<Rightarrow> micros (nextTime a) \<le> micros (clock (reads s))"
proof -
  have a: "a \<in> alarms s"
    using findNext_Some(1,2) [OF assms(2)] nth_mem by fastforce
  note n = alarm_invD(3,5) [OF assms(1) a]
  show ?thesis
    using assms(2,3) n by (simp add: setAnAlarm_def getNextAlarmDelayTime_simp setitimer_def micros_less
        timerisset_micros Let_def)
qed

lemma alarm_timer_witness:
  "timer (setAnAlarm (\<lambda>n. \<lparr>tv_sec = 10, tv_usec = 0\<rparr>) False two_alarms) = None \<and> Alarm_findNext (theAlarms two_alarms) \<noteq> None"
proof -
  obtain i a where F: "Alarm_findNext (theAlarms two_alarms) = Some (i, a)" and a: "micros (nextTime a) \<le> 10000000"
    by (simp add: two_alarms_def Alarm_findNext_def fired_def AlarmFlag_FIRED_def AlarmFlag_REPEAT_def
        timercmp_less_def micros_def)
  have "alarm_inv two_alarms"
    by (simp add: two_alarms_def alarm_inv_def normal_def)
  from alarm_timer [OF this F, of "\<lambda>n. \<lparr>tv_sec = 10, tv_usec = 0\<rparr>"] show ?thesis
    using F a by (simp add: normal_def micros_def split: option.splits)
qed

end
