(* ===== verification/AgentSet.thy ===== *)
theory AgentSet
  imports AgentHandler
begin

text \<open>
  How the agent processes the bindings of a PDU, src/Firmware/Priot/Agent.c: the passes over the
  groups of requests, the modes that a SET goes through, and the errors that come back. A group is the
  registration of its subtree, None when it is gone, with its requests; \<open>call\<close> is
  \<open>AgentHandler_callHandlers\<close> for a registration.
\<close>

section \<open>State\<close>

record ('r, 'p) agent_session =
  asp_mode :: int
  asp_status :: int
  asp_index :: int
  one_pass_only :: bool
  treecache :: "('r option \<times> 'p request list) list"

section \<open>One pass\<close>

fun Agent_checkRequestsStatus ::
    "int \<Rightarrow> ('r, 'p) agent_session \<Rightarrow> 'p request list \<Rightarrow> ('r, 'p) agent_session" where
  "Agent_checkRequestsStatus look_for_specific asp [] = asp"
| "Agent_checkRequestsStatus look_for_specific asp (r # rs) =
     Agent_checkRequestsStatus look_for_specific
       (if req_status r \<noteq> PRIOT_ERR_NOERROR \<and>
           (look_for_specific = 0 \<or> req_status r = look_for_specific) \<and>
           (look_for_specific \<noteq> 0 \<or> asp_index asp = 0 \<or> req_index r < asp_index asp)
        then asp\<lparr>asp_index := req_index r, asp_status := req_status r\<rparr>
        else asp) rs"

definition Agent_checkAllRequestsStatus :: "('r, 'p) agent_session \<Rightarrow> int \<Rightarrow> ('r, 'p) agent_session" where
  "Agent_checkAllRequestsStatus asp look_for_specific =
     fold (\<lambda>g asp. Agent_checkRequestsStatus look_for_specific asp (snd g)) (treecache asp) asp"

definition Agent_checkForDelegated :: "('r, 'p) agent_session \<Rightarrow> bool" where
  "Agent_checkForDelegated asp \<longleftrightarrow> (\<exists>g \<in> set (treecache asp). \<exists>r \<in> set (snd g). delegated r)"

definition specific_error :: "int \<Rightarrow> int" where
  "specific_error mode =
     (if mode = MODE_SET_COMMIT then PRIOT_ERR_COMMITFAILED
      else if mode = MODE_SET_UNDO then PRIOT_ERR_UNDOFAILED else 0)"

text \<open>One round of the loop over the groups: the session, the requests, the state and the final status.\<close>

definition call_group ::
    "('r \<Rightarrow> ('p, 's) chain) \<Rightarrow> ('r, 'p) agent_session \<Rightarrow> 'r option \<Rightarrow> 'p request list \<Rightarrow> 's \<Rightarrow> int \<Rightarrow>
     ('r, 'p) agent_session \<times> 'p request list \<times> 's \<times> int" where
  "call_group call asp reginfo requests s final_status =
     (case (case reginfo of
              Some r \<Rightarrow> call r (asp_mode asp) requests s
            | None \<Rightarrow> (requests, PRIOT_ERR_GENERR, s)) of
        (requests', rc, s') \<Rightarrow>
          let asp' = Agent_checkRequestsStatus (specific_error (asp_mode asp)) asp requests';
              retstatus = asp_status asp';
              rc' = (if retstatus \<noteq> PRIOT_ERR_NOERROR then retstatus else rc)
          in (asp', requests', s',
              if final_status = PRIOT_ERR_NOERROR \<and> rc' \<noteq> PRIOT_ERR_NOERROR then rc' else final_status))"

fun var_loop ::
    "('r \<Rightarrow> ('p, 's) chain) \<Rightarrow> ('r, 'p) agent_session \<Rightarrow> ('r option \<times> 'p request list) list \<Rightarrow> 's \<Rightarrow> int \<Rightarrow>
     ('r, 'p) agent_session \<times> ('r option \<times> 'p request list) list \<times> 's \<times> int" where
  "var_loop call asp [] s final_status = (asp, [], s, final_status)"
| "var_loop call asp ((reginfo, requests) # groups) s final_status =
     (case call_group call asp reginfo requests s final_status of
        (asp', requests', s', final') \<Rightarrow>
          (case var_loop call asp' groups s' final' of
             (asp'', groups', s'', final'') \<Rightarrow> (asp'', (reginfo, requests') # groups', s'', final'')))"

definition Agent_handleVarRequests ::
    "('r \<Rightarrow> ('p, 's) chain) \<Rightarrow> ('r, 'p) agent_session \<Rightarrow> 's \<Rightarrow> ('r, 'p) agent_session \<times> 's \<times> int" where
  "Agent_handleVarRequests call asp s =
     (case var_loop call asp (treecache asp) s PRIOT_ERR_NOERROR of
        (asp', groups, s', final_status) \<Rightarrow> (asp'\<lparr>treecache := groups\<rparr>, s', final_status))"

section \<open>The modes of a SET\<close>

definition next_set_mode :: "int \<Rightarrow> int \<Rightarrow> int" where
  "next_set_mode mode rc =
     (if mode = MODE_SET_BEGIN then MODE_SET_RESERVE1
      else if mode = MODE_SET_RESERVE1
      then (if rc \<noteq> PRIOT_ERR_NOERROR then MODE_SET_FREE else MODE_SET_RESERVE2)
      else if mode = MODE_SET_RESERVE2
      then (if rc \<noteq> PRIOT_ERR_NOERROR then MODE_SET_FREE else MODE_SET_ACTION)
      else if mode = MODE_SET_ACTION
      then (if rc \<noteq> PRIOT_ERR_NOERROR then MODE_SET_UNDO else MODE_SET_COMMIT)
      else if mode = MODE_SET_COMMIT
      then (if rc \<noteq> PRIOT_ERR_NOERROR then IMPL_FINISHED_FAILURE else IMPL_FINISHED_SUCCESS)
      else if mode = MODE_SET_UNDO \<or> mode = MODE_SET_FREE then IMPL_FINISHED_FAILURE
      else mode)"

definition advance :: "('r, 'p) agent_session \<Rightarrow> ('r, 'p) agent_session" where
  "advance asp =
     (if one_pass_only asp then asp
      else asp\<lparr>asp_mode := next_set_mode (asp_mode asp) (asp_status asp),
               asp_status := (if asp_mode asp = MODE_SET_BEGIN then PRIOT_ERR_NOERROR else asp_status asp)\<rparr>)"

definition finished :: "int \<Rightarrow> bool" where
  "finished mode \<longleftrightarrow> mode = IMPL_FINISHED_SUCCESS \<or> mode = IMPL_FINISHED_FAILURE"

definition set_pass ::
    "('r \<Rightarrow> ('p, 's) chain) \<Rightarrow> ('r, 'p) agent_session \<Rightarrow> 's \<Rightarrow> ('r, 'p) agent_session \<times> 's" where
  "set_pass call asp s =
     (case Agent_handleVarRequests call asp s of
        (asp', s', rc) \<Rightarrow>
          (if (rc \<noteq> PRIOT_ERR_NOERROR \<and> asp_status asp' = PRIOT_ERR_NOERROR) \<or>
              rc = PRIOT_ERR_COMMITFAILED \<or> rc = PRIOT_ERR_UNDOFAILED
           then asp'\<lparr>asp_status := rc\<rparr> else asp', s'))"

definition Agent_handleSet ::
    "('r \<Rightarrow> ('p, 's) chain) \<Rightarrow> ('r, 'p) agent_session \<Rightarrow> 's \<Rightarrow> ('r, 'p) agent_session \<times> 's" where
  "Agent_handleSet call asp s =
     (let asp1 = advance asp in if finished (asp_mode asp1) then (asp1, s) else set_pass call asp1 s)"

text \<open>\<open>fuel\<close> bounds the rounds; None is a loop that has not ended.\<close>

fun Agent_handleSetLoop ::
    "nat \<Rightarrow> ('r \<Rightarrow> ('p, 's) chain) \<Rightarrow> ('r, 'p) agent_session \<Rightarrow> 's \<Rightarrow>
     (int \<times> ('r, 'p) agent_session \<times> 's) option" where
  "Agent_handleSetLoop 0 call asp s = None"
| "Agent_handleSetLoop (Suc fuel) call asp s =
     (if finished (asp_mode asp) then Some (asp_status asp, asp, s)
      else
        (case Agent_handleSet call asp s of
           (asp', s') \<Rightarrow>
             if Agent_checkForDelegated asp' then Some (PRIOT_ERR_NOERROR, asp', s')
             else if one_pass_only asp' then Some (asp_status asp', asp', s')
             else Agent_handleSetLoop fuel call asp' s'))"

declare Agent_handleSetLoop.simps [simp del]

section \<open>Frames\<close>

lemma checkRequestsStatus_frame [simp]:
  "asp_mode (Agent_checkRequestsStatus look asp rs) = asp_mode asp"
  "one_pass_only (Agent_checkRequestsStatus look asp rs) = one_pass_only asp"
  "treecache (Agent_checkRequestsStatus look asp rs) = treecache asp"
  by (induction look asp rs rule: Agent_checkRequestsStatus.induct) simp_all

lemma call_group_frame:
  "call_group call asp reginfo requests s final_status = (asp', requests', s', f) \<Longrightarrow>
    asp_mode asp' = asp_mode asp \<and> one_pass_only asp' = one_pass_only asp"
  by (auto simp: call_group_def Let_def split: prod.splits)

lemma var_loop_frame:
  "var_loop call asp groups s final_status = (asp', groups', s', f) \<Longrightarrow>
    asp_mode asp' = asp_mode asp \<and> one_pass_only asp' = one_pass_only asp \<and> map fst groups' = map fst groups"
proof (induction groups arbitrary: asp s final_status asp' groups' s' f)
  case (Cons g groups)
  then show ?case
    by (cases g) (auto dest!: call_group_frame split: prod.splits)
qed simp

lemma handleVarRequests_frame:
  "Agent_handleVarRequests call asp s = (asp', s', rc) \<Longrightarrow>
    asp_mode asp' = asp_mode asp \<and> one_pass_only asp' = one_pass_only asp \<and>
    map fst (treecache asp') = map fst (treecache asp)"
  by (auto simp: Agent_handleVarRequests_def dest: var_loop_frame split: prod.splits)

lemma set_pass_frame:
  "set_pass call asp s = (asp', s') \<Longrightarrow>
    asp_mode asp' = asp_mode asp \<and> one_pass_only asp' = one_pass_only asp \<and>
    map fst (treecache asp') = map fst (treecache asp)"
  by (auto simp: set_pass_def dest: handleVarRequests_frame split: prod.splits if_splits)

lemma handleSet_mode:
  "Agent_handleSet call asp s = (asp', s') \<Longrightarrow> \<not> one_pass_only asp \<Longrightarrow>
    asp_mode asp' = next_set_mode (asp_mode asp) (asp_status asp) \<and> \<not> one_pass_only asp' \<and>
    map fst (treecache asp') = map fst (treecache asp)"
  by (auto simp: Agent_handleSet_def advance_def Let_def dest!: set_pass_frame split: if_splits)

section \<open>The protocol of a SET\<close>

text \<open>
  The runs of a SET: each call of \<open>Agent_handleSet\<close> decides on the next mode, from the error status it finds,
  and makes the pass of that mode; while a request is delegated nothing is decided, and whoever it was
  delegated to changes requests, errors and state. \<open>h\<close> are the decisions, each with the status it was made on.
\<close>

inductive set_run ::
    "('r \<Rightarrow> ('p, 's) chain) \<Rightarrow> ('r, 'p) agent_session \<Rightarrow> 's \<Rightarrow> ('r, 'p) agent_session \<Rightarrow> 's \<Rightarrow> (int \<times> int) list \<Rightarrow> bool"
  for call asp0 s0 where
  start: "set_run call asp0 s0 asp0 s0 []"
| pass: "set_run call asp0 s0 asp s h \<Longrightarrow> \<not> finished (asp_mode asp) \<Longrightarrow> \<not> Agent_checkForDelegated asp \<Longrightarrow>
    Agent_handleSet call asp s = (asp', s') \<Longrightarrow>
    set_run call asp0 s0 asp' s' (h @ [(asp_mode asp', asp_status asp)])"
| delegates: "set_run call asp0 s0 asp s h \<Longrightarrow> Agent_checkForDelegated asp \<Longrightarrow>
    asp_mode asp' = asp_mode asp \<Longrightarrow> one_pass_only asp' = one_pass_only asp \<Longrightarrow>
    set_run call asp0 s0 asp' s' h"

text \<open>What has been decided when the session is in a mode, and on which status.\<close>

definition decisions :: "int \<Rightarrow> int list \<Rightarrow> bool" where
  "decisions mode ms \<longleftrightarrow>
     (let R1 = MODE_SET_RESERVE1; R2 = MODE_SET_RESERVE2; A = MODE_SET_ACTION; C = MODE_SET_COMMIT;
          F = MODE_SET_FREE; U = MODE_SET_UNDO; good = IMPL_FINISHED_SUCCESS; bad = IMPL_FINISHED_FAILURE
      in (mode, ms) \<in> {(MODE_SET_BEGIN, []), (R1, [R1]), (R2, [R1, R2]), (A, [R1, R2, A]),
           (C, [R1, R2, A, C]), (U, [R1, R2, A, U]), (F, [R1, F]), (F, [R1, R2, F]),
           (good, [R1, R2, A, C, good]), (bad, [R1, R2, A, C, bad]),
           (bad, [R1, R2, A, U, bad]), (bad, [R1, F, bad]), (bad, [R1, R2, F, bad])})"

definition decided_on :: "(int \<times> int) list \<Rightarrow> bool" where
  "decided_on h \<longleftrightarrow> (\<forall>(m, e) \<in> set h.
     (m \<in> {MODE_SET_RESERVE2, MODE_SET_ACTION, MODE_SET_COMMIT, IMPL_FINISHED_SUCCESS} \<longrightarrow> e = PRIOT_ERR_NOERROR) \<and>
     (m \<in> {MODE_SET_FREE, MODE_SET_UNDO} \<longrightarrow> e \<noteq> PRIOT_ERR_NOERROR) \<and>
     (m = IMPL_FINISHED_FAILURE \<and> MODE_SET_COMMIT \<in> fst ` set h \<longrightarrow> e \<noteq> PRIOT_ERR_NOERROR))"

lemma decided_step:
  assumes "decisions mode (map fst h)" "decided_on h" "\<not> finished mode"
  shows "decisions (next_set_mode mode e) (map fst (h @ [(next_set_mode mode e, e)])) \<and>
    decided_on (h @ [(next_set_mode mode e, e)])"
proof -
  let ?n = "next_set_mode mode e"
  have m: "mode \<in> {MODE_SET_BEGIN, MODE_SET_RESERVE1, MODE_SET_RESERVE2, MODE_SET_ACTION, MODE_SET_COMMIT, MODE_SET_FREE, MODE_SET_UNDO}"
    and f: "IMPL_FINISHED_FAILURE \<notin> set (map fst h)" and c: "MODE_SET_COMMIT \<in> set (map fst h) \<longleftrightarrow> mode = MODE_SET_COMMIT"
    using assms(1,3) by (auto simp: decisions_def finished_def mode_defs Let_def)
  have d: "decisions ?n (map fst h @ [?n])"
    using assms(1,3) by (auto simp: decisions_def next_set_mode_def finished_def mode_defs Let_def)
  have n: "?n \<in> {MODE_SET_RESERVE2, MODE_SET_ACTION, MODE_SET_COMMIT, IMPL_FINISHED_SUCCESS} \<longrightarrow> e = PRIOT_ERR_NOERROR"
    "?n \<in> {MODE_SET_FREE, MODE_SET_UNDO} \<longrightarrow> e \<noteq> PRIOT_ERR_NOERROR"
    "?n = IMPL_FINISHED_FAILURE \<and> mode = MODE_SET_COMMIT \<longrightarrow> e \<noteq> PRIOT_ERR_NOERROR"
    "?n = IMPL_FINISHED_FAILURE \<longrightarrow> ?n \<noteq> MODE_SET_COMMIT"
    using m by (auto simp: next_set_mode_def mode_defs)
  have old: "a \<noteq> IMPL_FINISHED_FAILURE" if "(a, b) \<in> set h" for a b
    using f that by (force simp: image_iff)
  have "decided_on (h @ [(?n, e)])"
    unfolding decided_on_def
  proof (rule ballI, clarify)
    fix a b assume "(a, b) \<in> set (h @ [(?n, e)])"
    then consider "(a, b) \<in> set h" | "a = ?n" "b = e"
      by auto
    then show "(a \<in> {MODE_SET_RESERVE2, MODE_SET_ACTION, MODE_SET_COMMIT, IMPL_FINISHED_SUCCESS} \<longrightarrow> b = PRIOT_ERR_NOERROR) \<and>
      (a \<in> {MODE_SET_FREE, MODE_SET_UNDO} \<longrightarrow> b \<noteq> PRIOT_ERR_NOERROR) \<and>
      (a = IMPL_FINISHED_FAILURE \<and> MODE_SET_COMMIT \<in> fst ` set (h @ [(?n, e)]) \<longrightarrow> b \<noteq> PRIOT_ERR_NOERROR)"
    proof cases
      case 1
      then show ?thesis
        using assms(2) old [OF 1] unfolding decided_on_def by blast
    next
      case 2
      then show ?thesis
        using n c by auto
    qed
  qed
  then show ?thesis
    using d by simp
qed

lemma set_run_decisions:
  assumes "set_run call asp0 s0 asp s h" "asp_mode asp0 = MODE_SET_BEGIN" "\<not> one_pass_only asp0"
  shows "decisions (asp_mode asp) (map fst h) \<and> decided_on h \<and> \<not> one_pass_only asp"
  using assms
proof (induction rule: set_run.induct)
  case start
  then show ?case
    by (simp add: decisions_def decided_on_def mode_defs)
next
  case (pass asp s h asp' s')
  have IH: "decisions (asp_mode asp) (map fst h)" "decided_on h" "\<not> one_pass_only asp"
    using pass.IH pass.prems by simp_all
  have "asp_mode asp' = next_set_mode (asp_mode asp) (asp_status asp)" "\<not> one_pass_only asp'"
    using handleSet_mode [OF pass.hyps(4) IH(3)] by simp_all
  then show ?case
    using decided_step [OF IH(1,2) pass.hyps(2), of "asp_status asp"] by simp
qed simp

end
