(* ===== verification/SetContract.thy ===== *)
theory SetContract
  imports AgentSet
begin

text \<open>
  What the agent relies on when it processes a SET: the contract between the passes and the handlers,
  and that a SET over handlers that keep it is atomic.
\<close>

section \<open>The status of a session\<close>

definition no_error :: "'p request list \<Rightarrow> bool" where
  "no_error rs \<longleftrightarrow> (\<forall>r \<in> set rs. req_status r = PRIOT_ERR_NOERROR)"

definition undelegated :: "'p request list \<Rightarrow> bool" where
  "undelegated rs \<longleftrightarrow> (\<forall>r \<in> set rs. \<not> delegated r)"

definition index_ok :: "('r, 'p) agent_session \<Rightarrow> bool" where
  "index_ok asp \<longleftrightarrow> (asp_index asp \<noteq> 0 \<longrightarrow> asp_status asp \<noteq> PRIOT_ERR_NOERROR)"

lemma check_status_nonzero:
  "asp_status asp \<noteq> PRIOT_ERR_NOERROR \<Longrightarrow> asp_status (Agent_checkRequestsStatus look asp rs) \<noteq> PRIOT_ERR_NOERROR"
  by (induction rs arbitrary: asp) simp_all

lemma check_index_ok: "index_ok asp \<Longrightarrow> index_ok (Agent_checkRequestsStatus look asp rs)"
  by (induction rs arbitrary: asp) (simp_all add: index_ok_def)

lemma check_no_error: "no_error rs \<Longrightarrow> Agent_checkRequestsStatus look asp rs = asp"
  by (induction rs) (simp_all add: no_error_def)

lemma check_finds_error:
  "index_ok asp \<Longrightarrow> asp_status (Agent_checkRequestsStatus 0 asp rs) = PRIOT_ERR_NOERROR \<Longrightarrow>
    asp_status asp = PRIOT_ERR_NOERROR \<and> no_error rs"
proof (induction rs arbitrary: asp)
  case (Cons r rs)
  show ?case
  proof (cases "req_status r = PRIOT_ERR_NOERROR")
    case True
    then show ?thesis
      using Cons by (simp add: no_error_def)
  next
    case False
    let ?asp = "if asp_index asp = 0 \<or> req_index r < asp_index asp
      then asp\<lparr>asp_index := req_index r, asp_status := req_status r\<rparr> else asp"
    have "asp_status ?asp \<noteq> PRIOT_ERR_NOERROR"
      using False Cons.prems(1) by (simp add: index_ok_def)
    then have "asp_status (Agent_checkRequestsStatus 0 ?asp rs) \<noteq> PRIOT_ERR_NOERROR"
      by (rule check_status_nonzero)
    then show ?thesis
      using False Cons.prems(2) by (simp split: if_splits)
  qed
qed (simp add: no_error_def)

lemma var_loop_index_ok: "var_loop call asp gs s f = (asp', gs', s', f') \<Longrightarrow> index_ok asp \<Longrightarrow> index_ok asp'"
proof (induction gs arbitrary: asp s f gs')
  case (Cons g gs)
  obtain reginfo q where g: "g = (reginfo, q)"
    by (cases g)
  obtain a1 q1 s1 f1 where c: "call_group call asp reginfo q s f = (a1, q1, s1, f1)"
    by (cases "call_group call asp reginfo q s f") auto
  then have "index_ok a1"
    using check_index_ok [OF Cons.prems(2)] by (auto simp: call_group_def Let_def split: prod.splits)
  then show ?case
    using Cons.IH Cons.prems(1) c by (auto simp: g split: prod.splits)
qed simp

text \<open>A final status of 0 says that nothing has failed, in the modes that look for every error.\<close>

lemma call_group_ok:
  assumes "call_group call asp (Some r) q s f = (asp', q', s', f')" "index_ok asp"
    and "specific_error (asp_mode asp) = 0"
  shows "\<exists>rc. call r (asp_mode asp) q s = (q', rc, s') \<and> index_ok asp' \<and>
    (f' = PRIOT_ERR_NOERROR \<longleftrightarrow> f = PRIOT_ERR_NOERROR \<and> asp_status asp' = PRIOT_ERR_NOERROR \<and> rc = PRIOT_ERR_NOERROR) \<and>
    (asp_status asp' = PRIOT_ERR_NOERROR \<longrightarrow> asp_status asp = PRIOT_ERR_NOERROR \<and> no_error q')"
proof -
  obtain rc where c: "call r (asp_mode asp) q s = (q', rc, s')"
    and a: "asp' = Agent_checkRequestsStatus 0 asp q'"
    and f: "f' = (let rc' = (if asp_status asp' \<noteq> PRIOT_ERR_NOERROR then asp_status asp' else rc)
      in if f = PRIOT_ERR_NOERROR \<and> rc' \<noteq> PRIOT_ERR_NOERROR then rc' else f)"
    using assms(1,3) by (auto simp: call_group_def Let_def split: prod.splits)
  show ?thesis
    using c a f check_index_ok [OF assms(2)] check_finds_error [OF assms(2), of q'] by (auto simp: Let_def)
qed

lemma set_pass_nonzero:
  assumes "set_pass call asp s = (asp', s')" "asp_status asp \<noteq> PRIOT_ERR_NOERROR"
  shows "asp_status asp' \<noteq> PRIOT_ERR_NOERROR"
proof -
  have g: "asp_status asp'' \<noteq> PRIOT_ERR_NOERROR"
    if "call_group call asp reginfo q s f = (asp'', q', s', f')" "asp_status asp \<noteq> PRIOT_ERR_NOERROR"
    for asp asp'' :: "('a, 'b) agent_session" and reginfo q s f q' s' f'
    using that check_status_nonzero by (auto simp: call_group_def Let_def split: prod.splits)
  have v: "asp_status asp'' \<noteq> PRIOT_ERR_NOERROR"
    if "var_loop call asp groups s f = (asp'', groups', s', f')" "asp_status asp \<noteq> PRIOT_ERR_NOERROR"
    for asp asp'' :: "('a, 'b) agent_session" and groups s f groups' s' f'
    using that
  proof (induction groups arbitrary: asp s f asp'' groups' s' f')
    case (Cons x groups)
    obtain reginfo q where x: "x = (reginfo, q)"
      by (cases x)
    obtain a1 q1 s1 f1 where c: "call_group call asp reginfo q s f = (a1, q1, s1, f1)"
      by (cases "call_group call asp reginfo q s f") auto
    then show ?case
      using Cons g [OF c Cons.prems(2)] by (auto simp: x split: prod.splits)
  qed simp
  show ?thesis
    using assms v by (auto simp: set_pass_def Agent_handleVarRequests_def mode_defs split: prod.splits if_splits)
qed

lemmas round_simps = next_set_mode_def finished_def is_set_mode_def specific_error_def mode_defs

section \<open>The contract\<close>

text \<open>
  \<open>view r\<close> is what registration \<open>r\<close> owns of the state; calling another registration does not touch
  it. The first pass checks the requests and the second saves what the undo needs, and neither
  changes the data; the third sets, and whatever it did the undo brings back the \<open>same\<close> data; the
  commit of what was set does not fail; freeing changes nothing. \<open>achieved\<close> says that the data is as
  the values ask.
\<close>

locale set_handlers =
  fixes call :: "'r \<Rightarrow> ('p, 's) chain"
    and view :: "'r \<Rightarrow> 's \<Rightarrow> 'v"
    and fresh :: "'r \<Rightarrow> 'p request list \<Rightarrow> 'v \<Rightarrow> bool"
    and checked :: "'r \<Rightarrow> 'p request list \<Rightarrow> 'v \<Rightarrow> bool"
    and saved :: "'r \<Rightarrow> 'p request list \<Rightarrow> 'v \<Rightarrow> bool"
    and undoable :: "'r \<Rightarrow> 'p request list \<Rightarrow> 'v \<Rightarrow> 'v \<Rightarrow> bool"
    and same :: "'r \<Rightarrow> 'v \<Rightarrow> 'v \<Rightarrow> bool"
    and achieved :: "'r \<Rightarrow> u8 list list \<Rightarrow> 'v \<Rightarrow> bool"
  assumes frame: "is_set_mode mode \<Longrightarrow> call r mode q s = (q', rc, s') \<Longrightarrow> r' \<noteq> r \<Longrightarrow> view r' s' = view r' s"
    and keeps: "is_set_mode mode \<Longrightarrow> call r mode q s = (q', rc, s') \<Longrightarrow>
      map vb_value q' = map vb_value q \<and> (undelegated q \<longrightarrow> undelegated q')"
    and reserve1: "fresh r q (view r s) \<Longrightarrow> call r MODE_SET_RESERVE1 q s = (q', rc, s') \<Longrightarrow>
      view r s' = view r s \<and> (rc = PRIOT_ERR_NOERROR \<and> no_error q' \<longrightarrow> checked r q' (view r s))"
    and reserve2: "checked r q (view r s) \<Longrightarrow> call r MODE_SET_RESERVE2 q s = (q', rc, s') \<Longrightarrow>
      view r s' = view r s \<and> (rc = PRIOT_ERR_NOERROR \<and> no_error q' \<longrightarrow> saved r q' (view r s))"
    and action: "saved r q (view r s) \<Longrightarrow> call r MODE_SET_ACTION q s = (q', rc, s') \<Longrightarrow>
      undoable r q' (view r s) (view r s') \<and>
      (rc = PRIOT_ERR_NOERROR \<and> no_error q' \<longrightarrow> achieved r (map vb_value q') (view r s'))"
    and undo: "undoable r q v (view r s) \<Longrightarrow> call r MODE_SET_UNDO q s = (q', rc, s') \<Longrightarrow> same r v (view r s')"
    and commit: "undoable r q v (view r s) \<Longrightarrow> no_error q \<Longrightarrow> call r MODE_SET_COMMIT q s = (q', rc, s') \<Longrightarrow>
      rc = PRIOT_ERR_NOERROR \<and> no_error q' \<and> view r s' = view r s"
    and free: "call r MODE_SET_FREE q s = (q', rc, s') \<Longrightarrow> view r s' = view r s"
    and same_refl: "same r v v"
begin

definition groups :: "('r \<times> 'p request list) list \<Rightarrow> ('r option \<times> 'p request list) list" where
  "groups gs = map (\<lambda>(r, q). (Some r, q)) gs"

text \<open>
  In a pass every registration is called once, with its data as it was at the start of the pass, and
  its data at the end of the pass is what the call left.
\<close>

definition called :: "int \<Rightarrow> bool \<Rightarrow> 's \<Rightarrow> 's \<Rightarrow> 'r \<times> 'p request list \<Rightarrow> 'r \<times> 'p request list \<Rightarrow> bool" where
  "called mode ok s s' g g' \<longleftrightarrow> fst g' = fst g \<and>
     (\<exists>s1 rc s2. call (fst g) mode (snd g) s1 = (snd g', rc, s2) \<and> view (fst g) s1 = view (fst g) s \<and>
        view (fst g) s' = view (fst g) s2 \<and> (ok \<longrightarrow> rc = PRIOT_ERR_NOERROR \<and> no_error (snd g')))"

lemma called_mono: "called mode ok s s' g g' \<Longrightarrow> (ok' \<Longrightarrow> ok) \<Longrightarrow> called mode ok' s s' g g'"
  unfolding called_def by blast

lemma var_loop_final: "var_loop call asp gs s f = (asp', gs', s', f') \<Longrightarrow> f \<noteq> PRIOT_ERR_NOERROR \<Longrightarrow> f' = f"
proof (induction gs arbitrary: asp s f asp' gs' s' f')
  case (Cons g gs)
  then show ?case
    by (cases g) (fastforce simp: call_group_def Let_def split: prod.splits)
qed simp

lemma var_loop_called:
  assumes "distinct (map fst gs)" "var_loop call asp (groups gs) s f = (asp', gs1, s', f')"
    and "is_set_mode (asp_mode asp)"
  shows "\<exists>gs'. gs1 = groups gs' \<and> map fst gs' = map fst gs \<and>
    list_all2 (called (asp_mode asp) (specific_error (asp_mode asp) = 0 \<and> index_ok asp \<and> f' = PRIOT_ERR_NOERROR) s s')
      gs gs' \<and> (\<forall>r. r \<notin> fst ` set gs \<longrightarrow> view r s' = view r s)"
  using assms
proof (induction gs arbitrary: asp s f asp' gs1 s' f')
  case (Cons g gs)
  let ?ok = "\<lambda>asp. specific_error (asp_mode asp) = 0 \<and> index_ok asp \<and> f' = PRIOT_ERR_NOERROR"
  obtain r q where g: "g = (r, q)"
    by (cases g)
  obtain a1 q1 s1 f1 where c: "call_group call asp (Some r) q s f = (a1, q1, s1, f1)"
    by (cases "call_group call asp (Some r) q s f") auto
  then obtain rc where call: "call r (asp_mode asp) q s = (q1, rc, s1)"
    by (auto simp: call_group_def Let_def split: prod.splits)
  obtain gs2 where v: "var_loop call a1 (groups gs) s1 f1 = (asp', gs2, s', f')" and gs1: "gs1 = (Some r, q1) # gs2"
    using Cons.prems(2) c by (auto simp: g groups_def split: prod.splits)
  have r: "r \<notin> fst ` set gs" and d: "distinct (map fst gs)"
    using Cons.prems(1) by (auto simp: g)
  have m: "asp_mode a1 = asp_mode asp"
    using call_group_frame [OF c] by simp
  obtain gs' where IH: "gs2 = groups gs'" "map fst gs' = map fst gs" "list_all2 (called (asp_mode asp) (?ok a1) s1 s') gs gs'"
    "\<forall>r. r \<notin> fst ` set gs \<longrightarrow> view r s' = view r s1"
    using Cons.IH [OF d v] m Cons.prems(3) by auto
  have ok: "index_ok a1 \<and> rc = PRIOT_ERR_NOERROR \<and> no_error q1" if "?ok asp"
    using that call_group_ok [OF c] call var_loop_final [OF v] by fastforce
  have "called (asp_mode asp) (?ok asp) s s' (r, q) (r, q1)"
    using call IH(4) r ok unfolding called_def by auto
  moreover have "list_all2 (called (asp_mode asp) (?ok asp) s s') gs gs'"
  proof (rule list.rel_mono_strong [OF IH(3)])
    fix h h'
    assume "h \<in> set gs" "called (asp_mode asp) (?ok a1) s1 s' h h'"
    moreover from this r have "view (fst h) s1 = view (fst h) s"
      by (intro frame [OF Cons.prems(3) call]) auto
    ultimately have "called (asp_mode asp) (?ok a1) s s' h h'"
      by (simp add: called_def)
    then show "called (asp_mode asp) (?ok asp) s s' h h'"
      by (rule called_mono) (use ok m in auto)
  qed
  moreover have "view r' s' = view r' s" if "r' \<notin> fst ` set (g # gs)" for r'
    using that IH(4) frame [OF Cons.prems(3) call, of r'] by (auto simp: g)
  ultimately show ?case
    using IH(1,2) gs1 by (intro exI [of _ "(r, q1) # gs'"]) (auto simp: g groups_def)
qed (simp add: groups_def)

lemma var_loop_status:
  assumes "var_loop call asp (groups gs) s f = (asp', gs1, s', f')"
    and "specific_error (asp_mode asp) = 0" "index_ok asp" "asp_status asp = PRIOT_ERR_NOERROR"
    and "f' = PRIOT_ERR_NOERROR"
  shows "asp_status asp' = PRIOT_ERR_NOERROR"
  using assms
proof (induction gs arbitrary: asp s f asp' gs1 s' f')
  case (Cons g gs)
  obtain r q where g: "g = (r, q)"
    by (cases g)
  obtain a1 q1 s1 f1 where c: "call_group call asp (Some r) q s f = (a1, q1, s1, f1)"
    by (cases "call_group call asp (Some r) q s f") auto
  obtain gs2 where v: "var_loop call a1 (groups gs) s1 f1 = (asp', gs2, s', f')"
    using Cons.prems(1) c by (auto simp: g groups_def split: prod.splits)
  have "f1 = PRIOT_ERR_NOERROR"
    using var_loop_final [OF v] Cons.prems(5) by blast
  then show ?case
    using Cons.IH [OF v] call_group_ok [OF c Cons.prems(3,2)] call_group_frame [OF c] Cons.prems(2,5) by auto
qed (simp add: groups_def)

lemma var_loop_silent:
  assumes "var_loop call asp (groups gs) s f = (asp', gs1, s', f')" "asp_status asp = PRIOT_ERR_NOERROR"
    and "distinct (map fst gs)" "is_set_mode (asp_mode asp)"
    and "\<And>r q s1 q' rc s2. (r, q) \<in> set gs \<Longrightarrow> view r s1 = view r s \<Longrightarrow>
      call r (asp_mode asp) q s1 = (q', rc, s2) \<Longrightarrow> rc = PRIOT_ERR_NOERROR \<and> no_error q'"
  shows "asp' = asp \<and> f' = f"
  using assms
proof (induction gs arbitrary: s gs1)
  case (Cons g gs)
  obtain r q where g: "g = (r, q)"
    by (cases g)
  obtain q1 rc s1 where call: "call r (asp_mode asp) q s = (q1, rc, s1)"
    by (cases "call r (asp_mode asp) q s") auto
  have "rc = PRIOT_ERR_NOERROR \<and> no_error q1"
    using Cons.prems(5) [OF _ refl call] by (simp add: g)
  then have "call_group call asp (Some r) q s f = (asp, q1, s1, f)"
    using call Cons.prems(2) by (simp add: call_group_def check_no_error)
  then obtain gs2 where v: "var_loop call asp (groups gs) s1 f = (asp', gs2, s', f')"
    using Cons.prems(1) by (auto simp: g groups_def split: prod.splits)
  show ?case
  proof (rule Cons.IH [OF v Cons.prems(2)])
    fix r' q' s2 q2 rc s3
    assume *: "(r', q') \<in> set gs" "view r' s2 = view r' s1" "call r' (asp_mode asp) q' s2 = (q2, rc, s3)"
    then have "r' \<noteq> r"
      using Cons.prems(3) by (force simp: g)
    then have "view r' s1 = view r' s"
      by (rule frame [OF Cons.prems(4) call])
    then show "rc = PRIOT_ERR_NOERROR \<and> no_error q2"
      using Cons.prems(5) [of r' q' s2 q2 rc s3] * by simp
  qed (use Cons.prems(3,4) in simp_all)
qed (simp add: groups_def)

text \<open>A session over these groups.\<close>

definition base :: "('r, 'p) agent_session \<Rightarrow> ('r \<times> 'p request list) list \<Rightarrow> bool" where
  "base asp gs \<longleftrightarrow> treecache asp = groups gs \<and> distinct (map fst gs) \<and> \<not> one_pass_only asp \<and> index_ok asp \<and>
     (\<forall>g \<in> set gs. undelegated (snd g))"

definition wanted :: "('r \<times> 'p request list) list \<Rightarrow> ('r \<times> u8 list list) list" where
  "wanted gs = map (\<lambda>(r, q). (r, map vb_value q)) gs"

lemma called_keeps:
  assumes "is_set_mode mode" "list_all2 (called mode ok s s') gs gs'"
  shows "map fst gs' = map fst gs" "wanted gs' = wanted gs"
    "(\<forall>g \<in> set gs. undelegated (snd g)) \<longrightarrow> (\<forall>g \<in> set gs'. undelegated (snd g))"
  using assms(2)
proof (induction gs gs' rule: list_all2_induct)
  case (Cons g gs g' gs')
  obtain s1 rc s2 where c: "fst g' = fst g" "call (fst g) mode (snd g) s1 = (snd g', rc, s2)"
    using Cons.hyps(1) unfolding called_def by blast
  note k = keeps [OF assms(1) c(2)]
  {
    case 1
    then show ?case
      using Cons.IH c by simp
  next
    case 2
    then show ?case
      using Cons.IH c k by (simp add: wanted_def split_beta)
  next
    case 3
    then show ?case
      using Cons.IH k by auto
  }
qed (simp_all add: wanted_def)

lemma set_pass_called:
  assumes b: "base asp gs" and m: "is_set_mode (asp_mode asp)" and p: "set_pass call asp s = (asp', s')"
  shows "\<exists>gs'. base asp' gs' \<and> map fst gs' = map fst gs \<and> wanted gs' = wanted gs \<and>
    (\<forall>r. r \<notin> fst ` set gs \<longrightarrow> view r s' = view r s) \<and>
    list_all2 (called (asp_mode asp) (specific_error (asp_mode asp) = 0 \<and> asp_status asp' = PRIOT_ERR_NOERROR) s s') gs gs'"
proof -
  obtain a1 gs1 s1 f1 where v: "var_loop call asp (groups gs) s PRIOT_ERR_NOERROR = (a1, gs1, s1, f1)"
    by (cases "var_loop call asp (groups gs) s PRIOT_ERR_NOERROR") auto
  obtain gs' where g: "gs1 = groups gs'" and l: "list_all2 (called (asp_mode asp)
      (specific_error (asp_mode asp) = 0 \<and> index_ok asp \<and> f1 = PRIOT_ERR_NOERROR) s s1) gs gs'"
    and o: "\<forall>r. r \<notin> fst ` set gs \<longrightarrow> view r s1 = view r s"
    using var_loop_called [OF _ v m] b unfolding base_def by blast
  have asp': "s' = s1" "asp' = (if (f1 \<noteq> PRIOT_ERR_NOERROR \<and> asp_status a1 = PRIOT_ERR_NOERROR) \<or>
      f1 = PRIOT_ERR_COMMITFAILED \<or> f1 = PRIOT_ERR_UNDOFAILED then a1\<lparr>treecache := gs1, asp_status := f1\<rparr>
      else a1\<lparr>treecache := gs1\<rparr>)"
    using p b v by (auto simp: set_pass_def Agent_handleVarRequests_def base_def)
  have "index_ok a1"
    using var_loop_index_ok [OF v] b by (simp add: base_def)
  then have i: "index_ok asp'"
    using asp'(2) by (auto simp: index_ok_def mode_defs)
  have f1: "f1 = PRIOT_ERR_NOERROR" if "asp_status asp' = PRIOT_ERR_NOERROR"
    using that asp'(2) by (auto split: if_splits)
  note k = called_keeps [OF m l]
  have "base asp' gs'"
    using b i k asp'(2) g set_pass_frame [OF p] by (auto simp: base_def)
  moreover have "list_all2 (called (asp_mode asp)
      (specific_error (asp_mode asp) = 0 \<and> asp_status asp' = PRIOT_ERR_NOERROR) s s') gs gs'"
    using l unfolding asp'(1) by (rule list.rel_mono_strong) (use f1 b in \<open>auto simp: base_def elim!: called_mono\<close>)
  ultimately show ?thesis
    using k o asp'(1) by blast
qed

lemma set_pass_status:
  assumes b: "base asp gs" and m: "is_set_mode (asp_mode asp)"
    and p: "set_pass call asp s = (asp', s')" and z: "asp_status asp = PRIOT_ERR_NOERROR"
    and q: "\<And>r q s1 q' rc s2. (r, q) \<in> set gs \<Longrightarrow> view r s1 = view r s \<Longrightarrow>
      call r (asp_mode asp) q s1 = (q', rc, s2) \<Longrightarrow> rc = PRIOT_ERR_NOERROR \<and> no_error q'"
  shows "asp_status asp' = PRIOT_ERR_NOERROR"
proof -
  obtain a1 gs1 s1 f1 where v: "var_loop call asp (groups gs) s PRIOT_ERR_NOERROR = (a1, gs1, s1, f1)"
    by (cases "var_loop call asp (groups gs) s PRIOT_ERR_NOERROR") auto
  have "a1 = asp \<and> f1 = PRIOT_ERR_NOERROR"
    by (rule var_loop_silent [OF v z]) (use b m q in \<open>auto simp: base_def\<close>)
  then show ?thesis
    using p b v z by (auto simp: set_pass_def Agent_handleVarRequests_def base_def mode_defs)
qed

text \<open>The passes, one registration at a time.\<close>

lemma called_pass:
  assumes "list_all2 (called mode ok s s') gs gs'" "(r, q') \<in> set gs'"
    and "\<And>q s1 rc s2. (r, q) \<in> set gs \<Longrightarrow> call r mode q s1 = (q', rc, s2) \<Longrightarrow> view r s1 = view r s \<Longrightarrow>
      view r s' = view r s2 \<Longrightarrow> (ok \<Longrightarrow> rc = PRIOT_ERR_NOERROR \<and> no_error q') \<Longrightarrow> P"
  shows P
proof -
  obtain i where i: "i < length gs'" "gs' ! i = (r, q')"
    using assms(2) by (metis in_set_conv_nth)
  then have c: "called mode ok s s' (gs ! i) (r, q')" and "gs ! i \<in> set gs"
    using assms(1) by (auto simp: list_all2_conv_all_nth)
  moreover from c obtain q where q: "gs ! i = (r, q)"
    unfolding called_def by (metis fst_conv prod.collapse)
  ultimately show P
    using assms(3) [of q] unfolding called_def by auto
qed

text \<open>One round of the loop.\<close>

definition round_to ::
    "int \<Rightarrow> ('r, 'p) agent_session \<Rightarrow> ('r \<times> 'p request list) list \<Rightarrow> 's \<Rightarrow>
     ('r, 'p) agent_session \<Rightarrow> ('r \<times> 'p request list) list \<Rightarrow> 's \<Rightarrow> bool" where
  "round_to m asp gs s asp' gs' s' \<longleftrightarrow>
     asp_mode asp' = m \<and> base asp' gs' \<and> map fst gs' = map fst gs \<and> wanted gs' = wanted gs \<and>
     (\<forall>r. r \<notin> fst ` set gs \<longrightarrow> view r s' = view r s) \<and>
     list_all2 (called m (specific_error m = 0 \<and> asp_status asp' = PRIOT_ERR_NOERROR) s s') gs gs'"

definition silent :: "int \<Rightarrow> ('r \<times> 'p request list) list \<Rightarrow> 's \<Rightarrow> bool" where
  "silent m gs s \<longleftrightarrow> (\<forall>r q s1 q' rc s2. (r, q) \<in> set gs \<longrightarrow> view r s1 = view r s \<longrightarrow>
     call r m q s1 = (q', rc, s2) \<longrightarrow> rc = PRIOT_ERR_NOERROR \<and> no_error q')"

lemma loop_round:
  assumes b: "base asp gs" and m: "\<not> finished (asp_mode asp)" "is_set_mode m"
      "next_set_mode (asp_mode asp) (asp_status asp) = m"
    and i: "asp_mode asp = MODE_SET_BEGIN \<longrightarrow> asp_index asp = 0"
  shows "\<exists>asp' gs' s'. Agent_handleSetLoop (Suc n) call asp s = Agent_handleSetLoop n call asp' s' \<and>
    round_to m asp gs s asp' gs' s' \<and>
    (asp_mode asp \<noteq> MODE_SET_BEGIN \<longrightarrow> asp_status asp \<noteq> PRIOT_ERR_NOERROR \<longrightarrow> asp_status asp' \<noteq> PRIOT_ERR_NOERROR) \<and>
    (asp_status asp = PRIOT_ERR_NOERROR \<longrightarrow> silent m gs s \<longrightarrow> asp_status asp' = PRIOT_ERR_NOERROR)"
proof -
  have f: "\<not> finished m"
    using m(2) by (auto simp: is_set_mode_def finished_def mode_defs)
  have a: "base (advance asp) gs" "asp_mode (advance asp) = m"
    using b i m(3) by (auto simp: base_def advance_def index_ok_def)
  obtain asp' s' where p: "set_pass call (advance asp) s = (asp', s')"
    by fastforce
  obtain gs' where g: "base asp' gs'" "map fst gs' = map fst gs" "wanted gs' = wanted gs"
      "\<forall>r. r \<notin> fst ` set gs \<longrightarrow> view r s' = view r s"
      "list_all2 (called m (specific_error m = 0 \<and> asp_status asp' = PRIOT_ERR_NOERROR) s s') gs gs'"
    using set_pass_called [OF a(1) _ p] a(2) m(2) by auto
  have d: "\<not> Agent_checkForDelegated asp'" "\<not> one_pass_only asp'"
    using g(1) by (auto simp: base_def Agent_checkForDelegated_def undelegated_def groups_def)
  have "Agent_handleSet call asp s = (asp', s')"
    using p a(2) f by (simp add: Agent_handleSet_def Let_def)
  then have "Agent_handleSetLoop (Suc n) call asp s = Agent_handleSetLoop n call asp' s'"
    using m(1) d by (simp add: Agent_handleSetLoop.simps)
  moreover have "round_to m asp gs s asp' gs' s'"
    using g set_pass_frame [OF p] a(2) by (simp add: round_to_def)
  moreover have "asp_status asp' \<noteq> PRIOT_ERR_NOERROR"
    if "asp_mode asp \<noteq> MODE_SET_BEGIN" "asp_status asp \<noteq> PRIOT_ERR_NOERROR"
  proof (rule set_pass_nonzero [OF p])
    show "asp_status (advance asp) \<noteq> PRIOT_ERR_NOERROR"
      using that b by (simp add: advance_def base_def)
  qed
  moreover have "asp_status asp' = PRIOT_ERR_NOERROR" if "asp_status asp = PRIOT_ERR_NOERROR" "silent m gs s"
  proof (rule set_pass_status [OF a(1) _ p])
    show "is_set_mode (asp_mode (advance asp))"
      using a(2) m(2) by simp
  next
    show "asp_status (advance asp) = PRIOT_ERR_NOERROR"
      using that(1) by (simp add: advance_def)
  qed (use that(2) a(2) in \<open>auto simp: silent_def\<close>)
  ultimately show ?thesis
    by blast
qed

lemma loop_finish:
  assumes "base asp gs" "\<not> finished (asp_mode asp)" "finished (next_set_mode (asp_mode asp) (asp_status asp))"
    "asp_mode asp \<noteq> MODE_SET_BEGIN"
  shows "Agent_handleSetLoop (Suc (Suc n)) call asp s =
    Some (asp_status asp, asp\<lparr>asp_mode := next_set_mode (asp_mode asp) (asp_status asp)\<rparr>, s)"
proof -
  have "advance asp = asp\<lparr>asp_mode := next_set_mode (asp_mode asp) (asp_status asp)\<rparr>"
    using assms(1,4) by (simp add: advance_def base_def)
  moreover have "\<not> Agent_checkForDelegated asp" "\<not> one_pass_only asp"
    using assms(1) by (auto simp: base_def Agent_checkForDelegated_def undelegated_def groups_def)
  ultimately show ?thesis
    using assms(2,3) by (simp add: Agent_handleSetLoop.simps Agent_handleSet_def Let_def Agent_checkForDelegated_def)
qed

text \<open>What a SET may come to.\<close>

definition all_or_nothing :: "('r \<times> 'p request list) list \<Rightarrow> 's \<Rightarrow> ('r, 'p) agent_session \<Rightarrow> 's \<Rightarrow> bool" where
  "all_or_nothing gs s asp' s' \<longleftrightarrow> (\<forall>r. r \<notin> fst ` set gs \<longrightarrow> view r s' = view r s) \<and>
     (asp_mode asp' = IMPL_FINISHED_SUCCESS \<and> asp_status asp' = PRIOT_ERR_NOERROR \<and>
        (\<forall>(r, vs) \<in> set (wanted gs). achieved r vs (view r s')) \<or>
      asp_mode asp' = IMPL_FINISHED_FAILURE \<and> asp_status asp' \<noteq> PRIOT_ERR_NOERROR \<and>
        (\<forall>r \<in> fst ` set gs. same r (view r s) (view r s')))"

lemma loop_free:
  assumes b: "base asp gs" and m: "asp_mode asp \<in> {MODE_SET_RESERVE1, MODE_SET_RESERVE2}"
    and z: "asp_status asp \<noteq> PRIOT_ERR_NOERROR"
  shows "\<exists>asp' s'. Agent_handleSetLoop (Suc (Suc (Suc n))) call asp s = Some (asp_status asp', asp', s') \<and>
    asp_mode asp' = IMPL_FINISHED_FAILURE \<and> asp_status asp' \<noteq> PRIOT_ERR_NOERROR \<and> (\<forall>r. view r s' = view r s)"
proof -
  have "\<not> finished (asp_mode asp)" "is_set_mode MODE_SET_FREE" "asp_mode asp \<noteq> MODE_SET_BEGIN"
    "next_set_mode (asp_mode asp) (asp_status asp) = MODE_SET_FREE"
    using m z by (auto simp: round_simps)
  from loop_round [OF b this(1,2,4), of "Suc (Suc n)" s] this(3) z obtain a1 gs1 s1 where
    L: "Agent_handleSetLoop (Suc (Suc (Suc n))) call asp s = Agent_handleSetLoop (Suc (Suc n)) call a1 s1"
    and r: "round_to MODE_SET_FREE asp gs s a1 gs1 s1" and z1: "asp_status a1 \<noteq> PRIOT_ERR_NOERROR"
    by blast
  have b1: "base a1 gs1" and m1: "asp_mode a1 = MODE_SET_FREE" and f: "map fst gs1 = map fst gs"
    using r by (simp_all add: round_to_def)
  have "view r' s1 = view r' s" for r'
  proof (cases "r' \<in> fst ` set gs")
    case True
    then have "r' \<in> fst ` set gs1"
      using f by (metis set_map)
    then obtain q' where q': "(r', q') \<in> set gs1"
      by auto
    have "list_all2 (called MODE_SET_FREE (specific_error MODE_SET_FREE = 0 \<and> asp_status a1 = PRIOT_ERR_NOERROR) s s1) gs gs1"
      using r by (simp add: round_to_def)
    then show ?thesis
    proof (rule called_pass [OF _ q'])
      fix q s2 rc s3
      assume "call r' MODE_SET_FREE q s2 = (q', rc, s3)" "view r' s2 = view r' s" "view r' s1 = view r' s3"
      then show "view r' s1 = view r' s"
        using free by metis
    qed
  qed (use r in \<open>simp add: round_to_def\<close>)
  moreover have "\<not> finished (asp_mode a1)" "finished (next_set_mode (asp_mode a1) (asp_status a1))"
    "asp_mode a1 \<noteq> MODE_SET_BEGIN" "next_set_mode (asp_mode a1) (asp_status a1) = IMPL_FINISHED_FAILURE"
    using m1 by (auto simp: round_simps)
  ultimately show ?thesis
    using L loop_finish [OF b1, of n s1] z1 by auto
qed

text \<open>A pass, for what holds of every registration with its requests and its data.\<close>

lemma round_all:
  assumes r: "round_to m asp gs s asp' gs' s'" and P: "\<forall>(r, q) \<in> set gs. P r q (view r s)"
    and c: "\<And>r q s1 q' rc s2. P r q (view r s1) \<Longrightarrow> call r m q s1 = (q', rc, s2) \<Longrightarrow>
      (specific_error m = 0 \<and> asp_status asp' = PRIOT_ERR_NOERROR \<longrightarrow> rc = PRIOT_ERR_NOERROR \<and> no_error q') \<Longrightarrow>
      Q r q' (view r s1) (view r s2)"
  shows "\<forall>(r, q) \<in> set gs'. Q r q (view r s) (view r s')"
proof (intro ballI, clarify)
  fix r q'
  assume q': "(r, q') \<in> set gs'"
  have "list_all2 (called m (specific_error m = 0 \<and> asp_status asp' = PRIOT_ERR_NOERROR) s s') gs gs'"
    using r by (simp add: round_to_def)
  then show "Q r q' (view r s) (view r s')"
  proof (rule called_pass [OF _ q'])
    fix q s1 rc s2
    assume *: "(r, q) \<in> set gs" "call r m q s1 = (q', rc, s2)" "view r s1 = view r s" "view r s' = view r s2"
      "specific_error m = 0 \<and> asp_status asp' = PRIOT_ERR_NOERROR \<Longrightarrow> rc = PRIOT_ERR_NOERROR \<and> no_error q'"
    then have "P r q (view r s1)"
      using P by auto
    from c [OF this *(2)] show "Q r q' (view r s) (view r s')"
      using *(3,4,5) by auto
  qed
qed

lemma round_views:
  assumes "round_to m asp gs s asp' gs' s'" "\<forall>(r, q) \<in> set gs'. R r q (view r s) (view r s')"
    "\<And>r q. R r q (view r s) (view r s') \<Longrightarrow> view r s' = view r s"
  shows "view r s' = view r s"
proof (cases "r \<in> fst ` set gs")
  case True
  then have "r \<in> fst ` set gs'"
    using assms(1) by (metis round_to_def set_map)
  then show ?thesis
    using assms(2,3) by fastforce
qed (use assms(1) in \<open>simp add: round_to_def\<close>)

lemma loop_undo:
  assumes b: "base asp gs" and m: "asp_mode asp = MODE_SET_ACTION" and z: "asp_status asp \<noteq> PRIOT_ERR_NOERROR"
    and u: "\<forall>(r, q) \<in> set gs. undoable r q (v r) (view r s)"
  shows "\<exists>asp' s'. Agent_handleSetLoop (Suc (Suc (Suc n))) call asp s = Some (asp_status asp', asp', s') \<and>
    asp_mode asp' = IMPL_FINISHED_FAILURE \<and> asp_status asp' \<noteq> PRIOT_ERR_NOERROR \<and>
    (\<forall>r. r \<notin> fst ` set gs \<longrightarrow> view r s' = view r s) \<and> (\<forall>r \<in> fst ` set gs. same r (v r) (view r s'))"
proof -
  have "\<not> finished (asp_mode asp)" "is_set_mode MODE_SET_UNDO" "asp_mode asp \<noteq> MODE_SET_BEGIN"
    "next_set_mode (asp_mode asp) (asp_status asp) = MODE_SET_UNDO"
    using m z by (auto simp: round_simps)
  from loop_round [OF b this(1,2,4), of "Suc (Suc n)" s] this(3) z obtain a1 gs1 s1 where
    L: "Agent_handleSetLoop (Suc (Suc (Suc n))) call asp s = Agent_handleSetLoop (Suc (Suc n)) call a1 s1"
    and r: "round_to MODE_SET_UNDO asp gs s a1 gs1 s1" and z1: "asp_status a1 \<noteq> PRIOT_ERR_NOERROR"
    by blast
  have b1: "base a1 gs1" and m1: "asp_mode a1 = MODE_SET_UNDO" and f: "fst ` set gs1 = fst ` set gs"
    using r by (simp_all add: round_to_def flip: set_map)
  have "\<forall>(r, q) \<in> set gs1. same r (v r) (view r s1)"
  proof (rule round_all [where P = "\<lambda>r q x. undoable r q (v r) x" and Q = "\<lambda>r q x y. same r (v r) y", OF r u])
    fix r q s1 q' rc s2
    assume "undoable r q (v r) (view r s1)" "call r MODE_SET_UNDO q s1 = (q', rc, s2)"
    then show "same r (v r) (view r s2)"
      by (rule undo)
  qed
  then have "\<forall>r \<in> fst ` set gs1. same r (v r) (view r s1)"
    by (simp add: split_beta)
  then have "\<forall>r \<in> fst ` set gs. same r (v r) (view r s1)"
    by (simp only: f)
  moreover have "\<forall>r. r \<notin> fst ` set gs \<longrightarrow> view r s1 = view r s"
    using r by (simp add: round_to_def)
  moreover have "\<not> finished (asp_mode a1)" "finished (next_set_mode (asp_mode a1) (asp_status a1))"
    "asp_mode a1 \<noteq> MODE_SET_BEGIN" "next_set_mode (asp_mode a1) (asp_status a1) = IMPL_FINISHED_FAILURE"
    using m1 by (auto simp: round_simps)
  ultimately show ?thesis
    using L loop_finish [OF b1, of n s1] z1 by auto
qed

lemma loop_commit:
  assumes b: "base asp gs" and m: "asp_mode asp = MODE_SET_ACTION" and z: "asp_status asp = PRIOT_ERR_NOERROR"
    and u: "\<forall>(r, q) \<in> set gs. undoable r q (v r) (view r s) \<and> no_error q"
  shows "\<exists>asp' s'. Agent_handleSetLoop (Suc (Suc (Suc n))) call asp s = Some (asp_status asp', asp', s') \<and>
    asp_mode asp' = IMPL_FINISHED_SUCCESS \<and> asp_status asp' = PRIOT_ERR_NOERROR \<and> (\<forall>r. view r s' = view r s)"
proof -
  have c: "rc = PRIOT_ERR_NOERROR \<and> no_error q' \<and> view r s2 = view r s1"
    if "undoable r q (v r) (view r s1) \<and> no_error q" "call r MODE_SET_COMMIT q s1 = (q', rc, s2)" for r q s1 q' rc s2
    using commit that by blast
  have n: "\<not> finished (asp_mode asp)" "is_set_mode MODE_SET_COMMIT"
    "next_set_mode (asp_mode asp) (asp_status asp) = MODE_SET_COMMIT"
    "asp_mode asp = MODE_SET_BEGIN \<longrightarrow> asp_index asp = 0"
    using m z by (auto simp: round_simps)
  have "silent MODE_SET_COMMIT gs s"
    unfolding silent_def
  proof (intro allI impI)
    fix r q s1 q' rc s2
    assume "(r, q) \<in> set gs" "view r s1 = view r s" "call r MODE_SET_COMMIT q s1 = (q', rc, s2)"
    then show "rc = PRIOT_ERR_NOERROR \<and> no_error q'"
      using c [of r q s1 q' rc s2] u by auto
  qed
  with loop_round [OF b n, of "Suc (Suc n)" s] z obtain a1 gs1 s1 where
    L: "Agent_handleSetLoop (Suc (Suc (Suc n))) call asp s = Agent_handleSetLoop (Suc (Suc n)) call a1 s1"
    and r: "round_to MODE_SET_COMMIT asp gs s a1 gs1 s1" and z1: "asp_status a1 = PRIOT_ERR_NOERROR"
    by blast
  have b1: "base a1 gs1" and m1: "asp_mode a1 = MODE_SET_COMMIT"
    using r by (simp_all add: round_to_def)
  have "\<forall>(r, q) \<in> set gs1. view r s1 = view r s"
    by (rule round_all [where P = "\<lambda>r q x. undoable r q (v r) x \<and> no_error q" and Q = "\<lambda>r q x y. y = x", OF r u])
      (use c in blast)
  then have "view r' s1 = view r' s" for r'
    by (rule round_views [where R = "\<lambda>r q x y. y = x", OF r])
  moreover have "\<not> finished (asp_mode a1)" "finished (next_set_mode (asp_mode a1) (asp_status a1))"
    "asp_mode a1 \<noteq> MODE_SET_BEGIN" "next_set_mode (asp_mode a1) (asp_status a1) = IMPL_FINISHED_SUCCESS"
    using m1 z1 by (auto simp: round_simps)
  ultimately show ?thesis
    using L loop_finish [OF b1, of n s1] z1 by auto
qed

lemma loop_action:
  assumes b: "base asp gs" and m: "asp_mode asp = MODE_SET_RESERVE2" and z: "asp_status asp = PRIOT_ERR_NOERROR"
    and v: "\<forall>(r, q) \<in> set gs. saved r q (view r s)"
  shows "\<exists>asp' s'. Agent_handleSetLoop (Suc (Suc (Suc (Suc n)))) call asp s = Some (asp_status asp', asp', s') \<and>
    all_or_nothing gs s asp' s'"
proof -
  have "\<not> finished (asp_mode asp)" "is_set_mode MODE_SET_ACTION" "asp_mode asp \<noteq> MODE_SET_BEGIN"
    "next_set_mode (asp_mode asp) (asp_status asp) = MODE_SET_ACTION"
    using m z by (auto simp: round_simps)
  from loop_round [OF b this(1,2,4), of "Suc (Suc (Suc n))" s] this(3) obtain a1 gs1 s1 where
    L: "Agent_handleSetLoop (Suc (Suc (Suc (Suc n)))) call asp s = Agent_handleSetLoop (Suc (Suc (Suc n))) call a1 s1"
    and r: "round_to MODE_SET_ACTION asp gs s a1 gs1 s1"
    by blast
  have b1: "base a1 gs1" and m1: "asp_mode a1 = MODE_SET_ACTION" and f: "fst ` set gs1 = fst ` set gs"
    and w: "wanted gs1 = wanted gs" and o: "\<forall>r. r \<notin> fst ` set gs \<longrightarrow> view r s1 = view r s"
    using r by (simp_all add: round_to_def flip: set_map)
  have A: "\<forall>(r, q) \<in> set gs1. undoable r q (view r s) (view r s1) \<and>
      (asp_status a1 = PRIOT_ERR_NOERROR \<longrightarrow> no_error q \<and> achieved r (map vb_value q) (view r s1))"
    by (rule round_all [where P = saved and Q = "\<lambda>r q x y. undoable r q x y \<and>
        (asp_status a1 = PRIOT_ERR_NOERROR \<longrightarrow> no_error q \<and> achieved r (map vb_value q) y)", OF r v]) (use action in \<open>auto simp: specific_error_def mode_defs\<close>)
  show ?thesis
  proof (cases "asp_status a1 = PRIOT_ERR_NOERROR")
    case True
    have "\<forall>(r, q) \<in> set gs1. undoable r q (view r s) (view r s1) \<and> no_error q"
      using A True by auto
    from loop_commit [OF b1 m1 True this] obtain asp' s' where
      "Agent_handleSetLoop (Suc (Suc (Suc n))) call a1 s1 = Some (asp_status asp', asp', s')"
      "asp_mode asp' = IMPL_FINISHED_SUCCESS" "asp_status asp' = PRIOT_ERR_NOERROR" "\<forall>r. view r s' = view r s1"
      by blast
    moreover have "\<forall>(r, vs) \<in> set (wanted gs1). achieved r vs (view r s1)"
      using A True by (auto simp: wanted_def)
    ultimately show ?thesis
      using L o w by (auto simp: all_or_nothing_def)
  next
    case False
    have "\<forall>(r, q) \<in> set gs1. undoable r q (view r s) (view r s1)"
      using A by auto
    from loop_undo [OF b1 m1 False this, of n] show ?thesis
      using L o f by (auto simp: all_or_nothing_def)
  qed
qed

theorem set_atomic:
  assumes b: "base asp gs" and m: "asp_mode asp = MODE_SET_BEGIN" "asp_index asp = 0"
    and v: "\<forall>(r, q) \<in> set gs. fresh r q (view r s)"
  shows "\<exists>asp' s'. Agent_handleSetLoop 6 call asp s = Some (asp_status asp', asp', s') \<and> all_or_nothing gs s asp' s'"
proof -
  have six: "6 = Suc (Suc (Suc (Suc (Suc (Suc 0)))))"
    by simp
  have reserve: "\<not> finished MODE_SET_BEGIN" "is_set_mode MODE_SET_RESERVE1" "\<not> finished MODE_SET_RESERVE1"
    "is_set_mode MODE_SET_RESERVE2" "next_set_mode MODE_SET_BEGIN x = MODE_SET_RESERVE1"
    "next_set_mode MODE_SET_RESERVE1 0 = MODE_SET_RESERVE2" "MODE_SET_RESERVE1 \<noteq> MODE_SET_BEGIN" for x
    by (auto simp: round_simps)
  from loop_round [OF b, of MODE_SET_RESERVE1 "Suc (Suc (Suc (Suc (Suc 0))))" s] m reserve obtain a1 gs1 s1 where
    L1: "Agent_handleSetLoop 6 call asp s = Agent_handleSetLoop (Suc (Suc (Suc (Suc (Suc 0))))) call a1 s1"
    and r1: "round_to MODE_SET_RESERVE1 asp gs s a1 gs1 s1"
    unfolding six by auto
  have b1: "base a1 gs1" "asp_mode a1 = MODE_SET_RESERVE1" and f1: "fst ` set gs1 = fst ` set gs" and w1: "wanted gs1 = wanted gs"
    using r1 by (simp_all add: round_to_def flip: set_map)
  have A1: "\<forall>(r, q) \<in> set gs1. view r s1 = view r s \<and> (asp_status a1 = PRIOT_ERR_NOERROR \<longrightarrow> checked r q (view r s))"
    by (rule round_all [where P = fresh and Q = "\<lambda>r q x y. y = x \<and> (asp_status a1 = PRIOT_ERR_NOERROR \<longrightarrow> checked r q x)",
        OF r1 v]) (use reserve1 in \<open>auto simp: specific_error_def mode_defs\<close>)
  then have V1: "view r s1 = view r s" for r
    by (rule round_views [where R = "\<lambda>r q x y. y = x \<and> (asp_status a1 = PRIOT_ERR_NOERROR \<longrightarrow> checked r q x)", OF r1]) simp
  have unchanged: "all_or_nothing gs s asp' s'" if "asp_mode asp' = IMPL_FINISHED_FAILURE"
      "asp_status asp' \<noteq> PRIOT_ERR_NOERROR" "\<forall>r. view r s' = view r s" for asp' s'
    using that by (simp add: all_or_nothing_def same_refl)
  show ?thesis
  proof (cases "asp_status a1 = PRIOT_ERR_NOERROR")
    case False
    have m1: "asp_mode a1 \<in> {MODE_SET_RESERVE1, MODE_SET_RESERVE2}"
      using b1(2) by simp
    from loop_free [OF b1(1) m1 False, of "Suc (Suc 0)" s1] obtain asp' s' where
      "Agent_handleSetLoop 6 call asp s = Some (asp_status asp', asp', s')" "asp_mode asp' = IMPL_FINISHED_FAILURE"
      "asp_status asp' \<noteq> PRIOT_ERR_NOERROR" "\<forall>r. view r s' = view r s"
      using L1 V1 by auto
    from this(1) unchanged [OF this(2-4)] show ?thesis
      by (intro exI conjI)
  next
    case True
    from loop_round [OF b1(1), of MODE_SET_RESERVE2 "Suc (Suc (Suc (Suc 0)))" s1] b1(2) True reserve obtain a2 gs2 s2 where
      L2: "Agent_handleSetLoop 6 call asp s = Agent_handleSetLoop (Suc (Suc (Suc (Suc 0)))) call a2 s2"
      and r2: "round_to MODE_SET_RESERVE2 a1 gs1 s1 a2 gs2 s2"
      unfolding L1 by (auto simp: PRIOT_ERR_NOERROR_def)
    have b2: "base a2 gs2" "asp_mode a2 = MODE_SET_RESERVE2" and f2: "fst ` set gs2 = fst ` set gs" and w2: "wanted gs2 = wanted gs"
      using r2 f1 w1 by (simp_all add: round_to_def flip: set_map)
    have "\<forall>(r, q) \<in> set gs1. checked r q (view r s1)"
      using A1 True V1 by auto
    then have A2: "\<forall>(r, q) \<in> set gs2. view r s2 = view r s1 \<and> (asp_status a2 = PRIOT_ERR_NOERROR \<longrightarrow> saved r q (view r s1))"
      by (rule round_all [where P = checked and Q = "\<lambda>r q x y. y = x \<and> (asp_status a2 = PRIOT_ERR_NOERROR \<longrightarrow> saved r q x)",
          OF r2]) (use reserve2 in \<open>auto simp: specific_error_def mode_defs\<close>)
    then have V2: "view r s2 = view r s" for r
      using round_views [where R = "\<lambda>r q x y. y = x \<and> (asp_status a2 = PRIOT_ERR_NOERROR \<longrightarrow> saved r q x)", OF r2 A2, of r] V1
      by simp
    show ?thesis
    proof (cases "asp_status a2 = PRIOT_ERR_NOERROR")
      case False
      have m2: "asp_mode a2 \<in> {MODE_SET_RESERVE1, MODE_SET_RESERVE2}"
        using b2(2) by simp
      from loop_free [OF b2(1) m2 False, of "Suc 0" s2] obtain asp' s' where
        "Agent_handleSetLoop 6 call asp s = Some (asp_status asp', asp', s')" "asp_mode asp' = IMPL_FINISHED_FAILURE"
        "asp_status asp' \<noteq> PRIOT_ERR_NOERROR" "\<forall>r. view r s' = view r s"
        using L2 V2 by auto
      from this(1) unchanged [OF this(2-4)] show ?thesis
        by (intro exI conjI)
    next
      case True
      have "\<forall>(r, q) \<in> set gs2. saved r q (view r s2)"
        using A2 True V1 V2 by auto
      from loop_action [OF b2 True this, of 0] show ?thesis
        using L2 f2 w2 V2 by (auto simp: all_or_nothing_def)
    qed
  qed
qed

end

end
