(* ===== verification/SetRun.thy ===== *)
theory SetRun
  imports SetContract "HOL-Library.Sublist"
begin

text \<open>
  The protocol of a SET and its passes (\<open>Agent_handleSet\<close> and \<open>Agent_handleSetLoop\<close> of
  src/Firmware/Priot/Agent.c): the modes that follow each other and the status each is decided on, and
  the passes that the loop makes. The calls of the handlers are observed by a handler that keeps a log
  beside the state of the original; the modes a SET goes through are given apart from the code, by what
  fails in which mode.
\<close>

section \<open>The log of the calls\<close>

text \<open>
  A call fails when it answers an error or leaves one in a request; in the last two modes only
  their own error counts in a request.
\<close>

definition call_failed :: "int \<Rightarrow> 'p request list \<Rightarrow> int \<Rightarrow> bool" where
  "call_failed mode requests rc \<longleftrightarrow> rc \<noteq> PRIOT_ERR_NOERROR \<or>
     (\<exists>r \<in> set requests. req_status r \<noteq> PRIOT_ERR_NOERROR \<and>
        (mode = MODE_SET_COMMIT \<longrightarrow> req_status r = PRIOT_ERR_COMMITFAILED) \<and>
        (mode = MODE_SET_UNDO \<longrightarrow> req_status r = PRIOT_ERR_UNDOFAILED))"

definition logged :: "('r \<Rightarrow> ('p, 's) chain) \<Rightarrow> 'r \<Rightarrow> ('p, 's \<times> (int \<times> 'r \<times> bool) list) chain" where
  "logged call r mode requests st =
     (case call r mode requests (fst st) of
        (requests', rc, s') \<Rightarrow> (requests', rc, (s', snd st @ [(mode, r, call_failed mode requests' rc)])))"

text \<open>The registrations a pass calls, in its order; a group that lost its registration is not called.\<close>

definition registered :: "('r option \<times> 'q) list \<Rightarrow> 'r list" where
  "registered groups = map the (filter (\<lambda>r. r \<noteq> None) (map fst groups))"

definition calls_of :: "(int \<times> 'r \<times> bool) list \<Rightarrow> (int \<times> 'r) list" where
  "calls_of log = map (\<lambda>(m, r, f). (m, r)) log"

definition any_failed :: "(int \<times> 'r \<times> bool) list \<Rightarrow> bool" where
  "any_failed log \<longleftrightarrow> (\<exists>(m, r, f) \<in> set log. f)"

lemma log_simps [simp]:
  "registered [] = []" "registered ((None, q) # gs) = registered gs" "registered ((Some r, q) # gs) = r # registered gs"
  "calls_of [] = []" "calls_of (x # log) = (fst x, fst (snd x)) # calls_of log" "calls_of (l @ l') = calls_of l @ calls_of l'"
  "\<not> any_failed []" "any_failed (x # log) \<longleftrightarrow> snd (snd x) \<or> any_failed log"
  by (simp_all add: registered_def calls_of_def any_failed_def split_beta)

lemma registered_fst: "map fst gs = map fst gs' \<Longrightarrow> registered gs = registered gs'"
  by (simp add: registered_def)

section \<open>One pass\<close>

lemma checkRequests_status:
  assumes "index_ok asp"
  shows "asp_status (Agent_checkRequestsStatus look asp rs) = PRIOT_ERR_NOERROR \<longleftrightarrow>
    asp_status asp = PRIOT_ERR_NOERROR \<and>
    \<not> (\<exists>r \<in> set rs. req_status r \<noteq> PRIOT_ERR_NOERROR \<and> (look = 0 \<or> req_status r = look))"
  using assms
proof (induction rs arbitrary: asp)
  case (Cons r rs)
  let ?a = "if req_status r \<noteq> PRIOT_ERR_NOERROR \<and> (look = 0 \<or> req_status r = look) \<and>
           (look \<noteq> 0 \<or> asp_index asp = 0 \<or> req_index r < asp_index asp)
        then asp\<lparr>asp_index := req_index r, asp_status := req_status r\<rparr> else asp"
  have a: "index_ok ?a" "asp_status ?a = PRIOT_ERR_NOERROR \<longleftrightarrow> asp_status asp = PRIOT_ERR_NOERROR \<and>
      \<not> (req_status r \<noteq> PRIOT_ERR_NOERROR \<and> (look = 0 \<or> req_status r = look))"
    using Cons.prems by (auto simp: index_ok_def)
  show ?case
    unfolding Agent_checkRequestsStatus.simps Cons.IH [OF a(1)] a(2) by auto
qed simp

lemma looks_for: "(specific_error mode = 0 \<or> e = specific_error mode) \<longleftrightarrow>
    (mode = MODE_SET_COMMIT \<longrightarrow> e = PRIOT_ERR_COMMITFAILED) \<and> (mode = MODE_SET_UNDO \<longrightarrow> e = PRIOT_ERR_UNDOFAILED)"
  by (auto simp: specific_error_def mode_defs)

lemma call_group_logged:
  assumes "call_group call asp (Some r) q s f = (asp', q', s', f')" "index_ok asp"
  shows "\<exists>b. call_group (logged call) asp (Some r) q (s, log) f = (asp', q', (s', log @ [(asp_mode asp, r, b)]), f') \<and>
    index_ok asp' \<and> (asp_status asp' = PRIOT_ERR_NOERROR \<and> f' = PRIOT_ERR_NOERROR \<longleftrightarrow>
      asp_status asp = PRIOT_ERR_NOERROR \<and> f = PRIOT_ERR_NOERROR \<and> \<not> b)"
proof -
  obtain q1 rc s1 where c: "call r (asp_mode asp) q s = (q1, rc, s1)"
    by (cases "call r (asp_mode asp) q s") auto
  let ?a = "Agent_checkRequestsStatus (specific_error (asp_mode asp)) asp q1"
  have v: "asp' = ?a" "q' = q1" "s' = s1" "f' = (let rc' = if asp_status ?a \<noteq> PRIOT_ERR_NOERROR then asp_status ?a else rc in
      if f = PRIOT_ERR_NOERROR \<and> rc' \<noteq> PRIOT_ERR_NOERROR then rc' else f)"
    using assms(1) c by (auto simp: call_group_def Let_def)
  have st: "asp_status ?a = PRIOT_ERR_NOERROR \<longleftrightarrow> asp_status asp = PRIOT_ERR_NOERROR \<and>
      \<not> (\<exists>r \<in> set q1. req_status r \<noteq> PRIOT_ERR_NOERROR \<and> (asp_mode asp = MODE_SET_COMMIT \<longrightarrow> req_status r = PRIOT_ERR_COMMITFAILED) \<and>
        (asp_mode asp = MODE_SET_UNDO \<longrightarrow> req_status r = PRIOT_ERR_UNDOFAILED))"
    unfolding checkRequests_status [OF assms(2)] looks_for ..
  have "call_group (logged call) asp (Some r) q (s, log) f =
      (asp', q', (s', log @ [(asp_mode asp, r, call_failed (asp_mode asp) q1 rc)]), f')"
    using c by (simp add: call_group_def logged_def v Let_def)
  moreover have "asp_status asp' = PRIOT_ERR_NOERROR \<and> f' = PRIOT_ERR_NOERROR \<longleftrightarrow>
      asp_status asp = PRIOT_ERR_NOERROR \<and> f = PRIOT_ERR_NOERROR \<and> \<not> call_failed (asp_mode asp) q1 rc"
    unfolding v(1,4) call_failed_def using st by (auto simp: Let_def)
  ultimately show ?thesis
    using check_index_ok [OF assms(2)] v(1) by blast
qed

lemma call_group_unregistered:
  assumes "call_group call asp None q s f = (asp', q', s', f')" "index_ok asp"
  shows "call_group (logged call) asp None q (s, log) f = (asp', q', (s', log), f') \<and> index_ok asp' \<and>
    \<not> (asp_status asp' = PRIOT_ERR_NOERROR \<and> f' = PRIOT_ERR_NOERROR)"
  using assms check_index_ok [OF assms(2)]
  by (auto simp: call_group_def Let_def mode_defs split: if_splits)

lemma var_loop_logged:
  assumes "var_loop call asp gs s f = (asp', gs', s', f')" "index_ok asp"
  shows "\<exists>new. var_loop (logged call) asp gs (s, log) f = (asp', gs', (s', log @ new), f') \<and>
    calls_of new = map (Pair (asp_mode asp)) (registered gs) \<and> index_ok asp' \<and>
    (asp_status asp' = PRIOT_ERR_NOERROR \<and> f' = PRIOT_ERR_NOERROR \<longleftrightarrow>
      asp_status asp = PRIOT_ERR_NOERROR \<and> f = PRIOT_ERR_NOERROR \<and> None \<notin> fst ` set gs \<and> \<not> any_failed new)"
  using assms
proof (induction gs arbitrary: asp s f log gs')
  case (Cons g gs)
  obtain reg q where g: "g = (reg, q)"
    by (cases g)
  obtain a1 q1 s1 f1 gs1 where c: "call_group call asp reg q s f = (a1, q1, s1, f1)"
    and l: "var_loop call a1 gs s1 f1 = (asp', gs1, s', f')" and gs': "gs' = (reg, q1) # gs1"
    using Cons.prems(1) g by (auto split: prod.splits)
  have m: "asp_mode a1 = asp_mode asp"
    using call_group_frame [OF c] by simp
  show ?case
  proof (cases reg)
    case None
    note u = call_group_unregistered [OF c [unfolded None] Cons.prems(2), of log]
    obtain new where "var_loop (logged call) a1 gs (s1, log) f1 = (asp', gs1, (s', log @ new), f')"
      "calls_of new = map (Pair (asp_mode a1)) (registered gs)" "index_ok asp'"
      "asp_status asp' = PRIOT_ERR_NOERROR \<and> f' = PRIOT_ERR_NOERROR \<longleftrightarrow>
        asp_status a1 = PRIOT_ERR_NOERROR \<and> f1 = PRIOT_ERR_NOERROR \<and> None \<notin> fst ` set gs \<and> \<not> any_failed new"
      using Cons.IH [OF l conjunct1 [OF conjunct2 [OF u]], of log] by blast
    then show ?thesis
      using u g gs' m None by (intro exI [of _ new]) auto
  next
    case (Some r)
    obtain b where b: "call_group (logged call) asp reg q (s, log) f = (a1, q1, (s1, log @ [(asp_mode asp, r, b)]), f1)"
      "index_ok a1" "asp_status a1 = PRIOT_ERR_NOERROR \<and> f1 = PRIOT_ERR_NOERROR \<longleftrightarrow>
        asp_status asp = PRIOT_ERR_NOERROR \<and> f = PRIOT_ERR_NOERROR \<and> \<not> b"
      using call_group_logged [OF c [unfolded Some] Cons.prems(2), of log] Some by blast
    obtain new where "var_loop (logged call) a1 gs (s1, log @ [(asp_mode asp, r, b)]) f1 =
        (asp', gs1, (s', (log @ [(asp_mode asp, r, b)]) @ new), f')"
      "calls_of new = map (Pair (asp_mode a1)) (registered gs)" "index_ok asp'"
      "asp_status asp' = PRIOT_ERR_NOERROR \<and> f' = PRIOT_ERR_NOERROR \<longleftrightarrow>
        asp_status a1 = PRIOT_ERR_NOERROR \<and> f1 = PRIOT_ERR_NOERROR \<and> None \<notin> fst ` set gs \<and> \<not> any_failed new"
      using Cons.IH [OF l b(2), of "log @ [(asp_mode asp, r, b)]"] by blast
    then show ?thesis
      using b g gs' m Some by (intro exI [of _ "(asp_mode asp, r, b) # new"]) auto
  qed
qed simp

lemma set_pass_logged:
  assumes "set_pass call asp s = (asp', s')" "index_ok asp"
  shows "\<exists>new. set_pass (logged call) asp (s, log) = (asp', (s', log @ new)) \<and>
    calls_of new = map (Pair (asp_mode asp)) (registered (treecache asp)) \<and> index_ok asp' \<and>
    (asp_status asp' = PRIOT_ERR_NOERROR \<longleftrightarrow>
      asp_status asp = PRIOT_ERR_NOERROR \<and> None \<notin> fst ` set (treecache asp) \<and> \<not> any_failed new)"
proof -
  obtain a gs f where l: "var_loop call asp (treecache asp) s PRIOT_ERR_NOERROR = (a, gs, s', f)"
    and e: "asp' = (let a' = a\<lparr>treecache := gs\<rparr> in if (f \<noteq> PRIOT_ERR_NOERROR \<and> asp_status a' = PRIOT_ERR_NOERROR) \<or>
              f = PRIOT_ERR_COMMITFAILED \<or> f = PRIOT_ERR_UNDOFAILED then a'\<lparr>asp_status := f\<rparr> else a')"
    using assms(1) by (auto simp: set_pass_def Agent_handleVarRequests_def Let_def split: prod.splits)
  obtain new where n: "var_loop (logged call) asp (treecache asp) (s, log) PRIOT_ERR_NOERROR = (a, gs, (s', log @ new), f)"
    "calls_of new = map (Pair (asp_mode asp)) (registered (treecache asp))" "index_ok a"
    "asp_status a = PRIOT_ERR_NOERROR \<and> f = PRIOT_ERR_NOERROR \<longleftrightarrow>
      asp_status asp = PRIOT_ERR_NOERROR \<and> None \<notin> fst ` set (treecache asp) \<and> \<not> any_failed new"
    using var_loop_logged [OF l assms(2), of log] by auto
  have "set_pass (logged call) asp (s, log) = (asp', (s', log @ new))"
    using n(1) e by (simp add: set_pass_def Agent_handleVarRequests_def Let_def)
  moreover have "index_ok asp' \<and> (asp_status asp' = PRIOT_ERR_NOERROR \<longleftrightarrow> asp_status a = PRIOT_ERR_NOERROR \<and> f = PRIOT_ERR_NOERROR)"
    using n(3) e by (auto simp: index_ok_def Let_def mode_defs)
  ultimately show ?thesis
    using n(2,4) by blast
qed

section \<open>The modes a SET goes through\<close>

text \<open>
  The modes that are still to come, the final one included, when the session has made the pass of
  \<open>mode\<close>: \<open>e\<close> says whether an error is pending, \<open>fails m\<close> whether the pass of mode \<open>m\<close> will meet one.
\<close>

definition after_commit :: "bool \<Rightarrow> int list" where
  "after_commit e = [if e then IMPL_FINISHED_FAILURE else IMPL_FINISHED_SUCCESS]"

definition after_action :: "(int \<Rightarrow> bool) \<Rightarrow> bool \<Rightarrow> int list" where
  "after_action fails e =
     (if e then [MODE_SET_UNDO, IMPL_FINISHED_FAILURE] else MODE_SET_COMMIT # after_commit (fails MODE_SET_COMMIT))"

definition after_reserve2 :: "(int \<Rightarrow> bool) \<Rightarrow> bool \<Rightarrow> int list" where
  "after_reserve2 fails e =
     (if e then [MODE_SET_FREE, IMPL_FINISHED_FAILURE] else MODE_SET_ACTION # after_action fails (fails MODE_SET_ACTION))"

definition after_reserve1 :: "(int \<Rightarrow> bool) \<Rightarrow> bool \<Rightarrow> int list" where
  "after_reserve1 fails e =
     (if e then [MODE_SET_FREE, IMPL_FINISHED_FAILURE] else MODE_SET_RESERVE2 # after_reserve2 fails (fails MODE_SET_RESERVE2))"

definition modes_to_come :: "(int \<Rightarrow> bool) \<Rightarrow> int \<Rightarrow> bool \<Rightarrow> int list" where
  "modes_to_come fails mode e =
     (if finished mode then []
      else if mode = MODE_SET_BEGIN then MODE_SET_RESERVE1 # after_reserve1 fails (fails MODE_SET_RESERVE1)
      else if mode = MODE_SET_RESERVE1 then after_reserve1 fails e
      else if mode = MODE_SET_RESERVE2 then after_reserve2 fails e
      else if mode = MODE_SET_ACTION then after_action fails e
      else if mode = MODE_SET_COMMIT then after_commit e
      else [IMPL_FINISHED_FAILURE])"

lemmas modes_simps = modes_to_come_def after_reserve1_def after_reserve2_def after_action_def after_commit_def

definition set_mode :: "int \<Rightarrow> bool" where
  "set_mode mode \<longleftrightarrow> mode = MODE_SET_BEGIN \<or> is_set_mode mode \<or> finished mode"

lemma modes_step:
  assumes "set_mode mode" "\<not> finished mode" "(e \<noteq> PRIOT_ERR_NOERROR) = b"
  shows "modes_to_come fails mode b = next_set_mode mode e #
    modes_to_come fails (next_set_mode mode e) (fails (next_set_mode mode e))"
  using assms by (auto simp: modes_simps set_mode_def round_simps)

lemma modes_pending:
  assumes "set_mode mode" "\<not> finished mode" "e \<noteq> PRIOT_ERR_NOERROR" "mode \<noteq> MODE_SET_BEGIN"
  shows "modes_to_come fails (next_set_mode mode e) b = modes_to_come fails (next_set_mode mode e) b'"
  using assms by (auto simp: modes_simps set_mode_def round_simps)

lemma set_mode_next: "set_mode mode \<Longrightarrow> set_mode (next_set_mode mode e)"
  by (auto simp: set_mode_def round_simps)

text \<open>What is to come does not depend on the passes that have been made.\<close>

lemma modes_cong:
  assumes "\<And>m. m \<noteq> mode \<Longrightarrow> fails m = fails' m" "set_mode mode"
  shows "modes_to_come fails mode e = modes_to_come fails' mode e"
  using assms by (auto simp: modes_simps set_mode_def round_simps)

lemma modes_new: "set_mode mode \<Longrightarrow> mode \<notin> set (modes_to_come fails mode e)"
  by (auto simp: modes_simps set_mode_def round_simps)

lemma modes_distinct: "distinct (modes_to_come fails mode e) \<and> length (modes_to_come fails mode e) \<le> 5"
  by (auto simp: modes_simps round_simps)

section \<open>The loop\<close>

text \<open>How many decisions are left at most.\<close>

fun set_rank :: "int \<Rightarrow> nat" where
  "set_rank mode =
     (if mode = MODE_SET_BEGIN then 5 else if mode = MODE_SET_RESERVE1 then 4
      else if mode = MODE_SET_RESERVE2 then 3 else if mode = MODE_SET_ACTION then 2
      else if finished mode then 0 else 1)"

declare set_rank.simps [simp del]

lemma set_rank_next:
  "set_mode mode \<Longrightarrow> \<not> finished mode \<Longrightarrow> set_rank (next_set_mode mode e) < set_rank mode"
  by (auto simp: set_rank.simps set_mode_def round_simps)

text \<open>An index of an error only with an error; none before the first pass.\<close>

definition session_ok :: "('r, 'p) agent_session \<Rightarrow> bool" where
  "session_ok asp \<longleftrightarrow> asp_index asp = 0 \<or> asp_status asp \<noteq> PRIOT_ERR_NOERROR \<and> asp_mode asp \<noteq> MODE_SET_BEGIN"

text \<open>Whether the pass of a mode meets an error: a group without registration, or a call that fails.\<close>

definition pass_fails :: "('r, 'p) agent_session \<Rightarrow> (int \<times> 'r \<times> bool) list \<Rightarrow> int \<Rightarrow> bool" where
  "pass_fails asp log m \<longleftrightarrow> None \<in> fst ` set (treecache asp) \<or> (\<exists>r. (m, r, True) \<in> set log)"

text \<open>The calls of the passes of some modes; the final mode of a SET has no pass.\<close>

definition pass_calls :: "('r, 'p) agent_session \<Rightarrow> int list \<Rightarrow> (int \<times> 'r) list" where
  "pass_calls asp ms =
     concat (map (\<lambda>m. map (Pair m) (registered (treecache asp))) (filter (\<lambda>m. \<not> finished m) ms))"

lemma log_modes: "calls_of log = pass_calls asp ms \<Longrightarrow> (m, r, f) \<in> set log \<Longrightarrow> m \<in> set ms"
proof -
  assume c: "calls_of log = pass_calls asp ms" and l: "(m, r, f) \<in> set log"
  have "(m, r) \<in> set (calls_of log)"
    unfolding calls_of_def set_map using imageI [OF l, of "\<lambda>(m, r, f). (m, r)"] by simp
  then show ?thesis
    unfolding c by (auto simp: pass_calls_def)
qed

lemma handleSet_logged:
  assumes "Agent_handleSet call asp s = (asp', s')" "session_ok asp" "\<not> one_pass_only asp"
  shows "\<exists>new. Agent_handleSet (logged call) asp (s, log) = (asp', (s', log @ new)) \<and>
    calls_of new = pass_calls asp [asp_mode asp'] \<and> session_ok asp' \<and>
    map fst (treecache asp') = map fst (treecache asp) \<and>
    (\<not> finished (asp_mode asp') \<longrightarrow> (asp_status asp' = PRIOT_ERR_NOERROR \<longleftrightarrow>
      (asp_mode asp = MODE_SET_BEGIN \<or> asp_status asp = PRIOT_ERR_NOERROR) \<and>
      None \<notin> fst ` set (treecache asp) \<and> \<not> any_failed new)) \<and>
    (finished (asp_mode asp') \<longrightarrow> treecache asp' = treecache asp)"
proof -
  let ?a = "advance asp"
  have a: "index_ok ?a" "treecache ?a = treecache asp" "asp_mode ?a = next_set_mode (asp_mode asp) (asp_status asp)"
    "asp_status ?a = PRIOT_ERR_NOERROR \<longleftrightarrow> asp_mode asp = MODE_SET_BEGIN \<or> asp_status asp = PRIOT_ERR_NOERROR"
    using assms(2,3) by (auto simp: advance_def index_ok_def session_ok_def)
  have b: "asp_mode ?a \<noteq> MODE_SET_BEGIN \<or> asp_index ?a = 0"
    using assms(2,3) by (auto simp: advance_def session_ok_def next_set_mode_def mode_defs)
  show ?thesis
  proof (cases "finished (asp_mode ?a)")
    case True
    then have "asp' = ?a" "s' = s"
      using assms(1) by (simp_all add: Agent_handleSet_def Let_def)
    then show ?thesis
      using True a b by (intro exI [of _ "[]"])
        (auto simp: Agent_handleSet_def Let_def pass_calls_def session_ok_def index_ok_def)
  next
    case False
    then have p: "set_pass call ?a s = (asp', s')"
      using assms(1) by (simp add: Agent_handleSet_def Let_def)
    obtain new where n: "set_pass (logged call) ?a (s, log) = (asp', (s', log @ new))"
      "calls_of new = map (Pair (asp_mode ?a)) (registered (treecache ?a))" "index_ok asp'"
      "asp_status asp' = PRIOT_ERR_NOERROR \<longleftrightarrow>
        asp_status ?a = PRIOT_ERR_NOERROR \<and> None \<notin> fst ` set (treecache ?a) \<and> \<not> any_failed new"
      using set_pass_logged [OF p a(1), of log] by blast
    have f: "asp_mode asp' = asp_mode ?a" "map fst (treecache asp') = map fst (treecache asp)"
      using set_pass_frame [OF p] a(2) by simp_all
    have nb: "asp_mode ?a \<noteq> MODE_SET_BEGIN"
      unfolding a(3) using False by (auto simp: next_set_mode_def mode_defs)
    have "session_ok asp'"
      using n(3) nb f by (auto simp: session_ok_def index_ok_def)
    then show ?thesis
      using False n f a by (intro exI [of _ new]) (auto simp: Agent_handleSet_def Let_def pass_calls_def)
  qed
qed

text \<open>The first pass of a loop put in front of the others: what has failed decides the same modes.\<close>

lemma passes_cons:
  assumes m: "set_mode m" and c1: "calls_of new1 = pass_calls asp [m]" and c2: "calls_of new2 = pass_calls asp1 ms"
    and t: "map fst (treecache asp1) = map fst (treecache asp)"
    and p: "modes_to_come (pass_fails asp1 new2) m e1 = ms @ rest"
    and e1: "finished m \<or> (\<forall>F. modes_to_come F m e1 = modes_to_come F m e) \<or>
      e1 = (None \<in> fst ` set (treecache asp) \<or> any_failed new1)"
    and e: "e = pass_fails asp (new1 @ new2) m"
  shows "calls_of (new1 @ new2) = pass_calls asp (m # ms) \<and>
    modes_to_come (pass_fails asp (new1 @ new2)) m e = ms @ rest"
proof -
  let ?F = "pass_fails asp (new1 @ new2)" and ?G = "pass_fails asp1 new2"
  have "set (map fst (treecache asp1)) = set (map fst (treecache asp))"
    using t by simp
  then have n: "fst ` set (treecache asp1) = fst ` set (treecache asp)"
    by simp
  have r: "registered (treecache asp1) = registered (treecache asp)"
    using registered_fst [OF t] .
  have l1: "m' = m" if "(m', r, f) \<in> set new1" for m' r f
    using log_modes [OF c1 that] by simp
  have l2: "m' \<noteq> m" if "(m', r, f) \<in> set new2" for m' r f
    using log_modes [OF c2 that] modes_new [OF m, of ?G e1] p by auto
  have cong: "?F m' = ?G m'" if "m' \<noteq> m" for m'
    using l1 that n by (auto simp: pass_fails_def)
  have "(\<exists>r. (m, r, True) \<in> set (new1 @ new2)) \<longleftrightarrow> any_failed new1"
  proof
    assume "any_failed new1"
    then obtain m' r where "(m', r, True) \<in> set new1"
      by (auto simp: any_failed_def)
    then show "\<exists>r. (m, r, True) \<in> set (new1 @ new2)"
      using l1 by auto
  next
    assume "\<exists>r. (m, r, True) \<in> set (new1 @ new2)"
    then obtain r where "(m, r, True) \<in> set new1"
      using l2 by auto
    then show "any_failed new1"
      by (auto simp: any_failed_def)
  qed
  then have "?F m \<longleftrightarrow> None \<in> fst ` set (treecache asp) \<or> any_failed new1"
    by (simp add: pass_fails_def)
  then have "modes_to_come ?G m e1 = modes_to_come ?G m e"
    using e1 e by (auto simp: modes_to_come_def)
  moreover have "modes_to_come ?F m e = modes_to_come ?G m e"
    using cong m by (intro modes_cong) auto
  ultimately have "modes_to_come ?F m e = ms @ rest"
    using p by simp
  moreover have "calls_of (new1 @ new2) = pass_calls asp (m # ms)"
    using c1 c2 r by (simp add: pass_calls_def)
  ultimately show ?thesis
    by simp
qed

lemma set_loop_passes:
  assumes "set_mode (asp_mode asp)" "set_rank (asp_mode asp) < fuel" "session_ok asp" "\<not> one_pass_only asp"
  shows "\<exists>rc asp' s' new ms rest. Agent_handleSetLoop fuel call asp s = Some (rc, asp', s') \<and>
    Agent_handleSetLoop fuel (logged call) asp (s, log) = Some (rc, asp', (s', log @ new)) \<and>
    calls_of new = pass_calls asp ms \<and>
    modes_to_come (pass_fails asp new) (asp_mode asp) (asp_status asp \<noteq> PRIOT_ERR_NOERROR) = ms @ rest \<and>
    (rest = [] \<or> Agent_checkForDelegated asp') \<and> asp_mode asp' = last (asp_mode asp # ms)"
  using assms
proof (induction fuel arbitrary: asp s log)
  case (Suc fuel)
  show ?case
  proof (cases "finished (asp_mode asp)")
    case True
    then show ?thesis
      by (intro exI [of _ "asp_status asp"] exI [of _ asp] exI [of _ s] exI [of _ "[]"])
        (auto simp: Agent_handleSetLoop.simps pass_calls_def modes_to_come_def)
  next
    case False
    let ?e = "asp_status asp" and ?b = "asp_status asp \<noteq> PRIOT_ERR_NOERROR"
    obtain a1 s1 where h: "Agent_handleSet call asp s = (a1, s1)"
      by fastforce
    obtain new1 where n1: "Agent_handleSet (logged call) asp (s, log) = (a1, (s1, log @ new1))"
      "calls_of new1 = pass_calls asp [asp_mode a1]" "session_ok a1" "map fst (treecache a1) = map fst (treecache asp)"
      and st: "\<not> finished (asp_mode a1) \<longrightarrow> (asp_status a1 = PRIOT_ERR_NOERROR \<longleftrightarrow>
        (asp_mode asp = MODE_SET_BEGIN \<or> \<not> ?b) \<and> None \<notin> fst ` set (treecache asp) \<and> \<not> any_failed new1)"
      using handleSet_logged [OF h Suc.prems(3,4), of log] by blast
    have m1: "asp_mode a1 = next_set_mode (asp_mode asp) ?e" "\<not> one_pass_only a1"
      using handleSet_mode [OF h Suc.prems(4)] by simp_all
    have sm: "set_mode (asp_mode a1)" "set_rank (asp_mode a1) < fuel"
      using set_mode_next [OF Suc.prems(1)] set_rank_next [OF Suc.prems(1) False, of ?e] Suc.prems(2) m1 by simp_all
    have step: "modes_to_come F (asp_mode asp) ?b = asp_mode a1 # modes_to_come F (asp_mode a1) (F (asp_mode a1))" for F
      using modes_step [OF Suc.prems(1) False refl] m1 by simp
    show ?thesis
    proof (cases "Agent_checkForDelegated a1")
      case True
      then show ?thesis
        using False h n1 step by (intro exI [of _ PRIOT_ERR_NOERROR] exI [of _ a1] exI [of _ s1] exI [of _ new1]
            exI [of _ "[asp_mode a1]"] exI [of _ "modes_to_come (pass_fails asp new1) (asp_mode a1) (pass_fails asp new1 (asp_mode a1))"])
          (simp add: Agent_handleSetLoop.simps)
    next
      case nd: False
      obtain rc asp' s' new2 ms rest where IH: "Agent_handleSetLoop fuel call a1 s1 = Some (rc, asp', s')"
        "Agent_handleSetLoop fuel (logged call) a1 (s1, log @ new1) = Some (rc, asp', (s', (log @ new1) @ new2))"
        "calls_of new2 = pass_calls a1 ms"
        "modes_to_come (pass_fails a1 new2) (asp_mode a1) (asp_status a1 \<noteq> PRIOT_ERR_NOERROR) = ms @ rest"
        "rest = [] \<or> Agent_checkForDelegated asp'" "asp_mode asp' = last (asp_mode a1 # ms)"
        using Suc.IH [OF sm n1(3) m1(2), of s1 "log @ new1"] by blast
      have e1: "finished (asp_mode a1) \<or> (\<forall>F. modes_to_come F (asp_mode a1) (asp_status a1 \<noteq> PRIOT_ERR_NOERROR) = modes_to_come F (asp_mode a1) e) \<or>
          (asp_status a1 \<noteq> PRIOT_ERR_NOERROR) = (None \<in> fst ` set (treecache asp) \<or> any_failed new1)" for e
        using st modes_pending [OF Suc.prems(1) False, of ?e] m1(1) by auto
      note c = passes_cons [OF sm(1) n1(2) IH(3) n1(4) IH(4) e1 refl]
      have "Agent_handleSetLoop (Suc fuel) call asp s = Some (rc, asp', s')"
        "Agent_handleSetLoop (Suc fuel) (logged call) asp (s, log) = Some (rc, asp', (s', log @ new1 @ new2))"
        using False h n1(1) nd m1(2) IH(1,2) by (simp_all add: Agent_handleSetLoop.simps)
      moreover have "asp_mode asp' = last (asp_mode asp # asp_mode a1 # ms)"
        using IH(6) by simp
      moreover have "modes_to_come (pass_fails asp (new1 @ new2)) (asp_mode asp) ?b = (asp_mode a1 # ms) @ rest"
        unfolding step using c by simp
      ultimately show ?thesis
        using c IH(5) by blast
    qed
  qed
qed simp

lemma four_passes: "length (filter (\<lambda>m. \<not> finished m) (modes_to_come fails mode e)) \<le> 4"
  by (auto simp: modes_simps round_simps)

section \<open>Properties\<close>


text \<open>A session with one group, whose handler reports an error in the first pass.\<close>

definition one_request :: "int \<Rightarrow> u8 list request" where
  "one_request n = \<lparr>vb_name = [1, 3], vb_type = asnINTEGER, vb_value = replicate 8 0, delegated = False,
     processed = False, inclusive = 0, req_status = 0, req_index = n, parent_data = []\<rparr>"

definition one_session :: "(nat, u8 list) agent_session" where
  "one_session = \<lparr>asp_mode = MODE_SET_BEGIN, asp_status = 0, asp_index = 0, one_pass_only = False,
     treecache = [(Some 0, [one_request 1])]\<rparr>"

definition refuse :: "nat \<Rightarrow> (u8 list, unit) chain" where
  "refuse r mode requests s =
     (if mode = MODE_SET_RESERVE1 then map (requestSetError mode PRIOT_ERR_WRONGTYPE) requests else requests,
      PRIOT_ERR_NOERROR, s)"


text \<open>
  C31: Processing a SET ends, and makes the passes that what the handlers answer asks for and no other: for
  a session that is not limited to one pass, the loop returns, and the handlers have been called, every
  registered group once per pass and in order, in the passes of the modes \<open>ms\<close>, which lead to the mode of
  the session; they are the modes to come by the errors of the passes, at most four with a pass and none
  twice, all of them unless a request has been delegated, and then those made so far.
\<close>

theorem set_loop_ends:
  assumes "set_mode (asp_mode asp)" "set_rank (asp_mode asp) < fuel" "session_ok asp" "\<not> one_pass_only asp"
  shows "\<exists>rc asp' s' log ms. Agent_handleSetLoop fuel call asp s = Some (rc, asp', s') \<and>
    Agent_handleSetLoop fuel (logged call) asp (s, []) = Some (rc, asp', (s', log)) \<and>
    calls_of log = pass_calls asp ms \<and> distinct ms \<and> length (filter (\<lambda>m. \<not> finished m) ms) \<le> 4 \<and>
    asp_mode asp' = last (asp_mode asp # ms) \<and>
    (let path = modes_to_come (pass_fails asp log) (asp_mode asp) (asp_status asp \<noteq> PRIOT_ERR_NOERROR)
     in prefix ms path \<and> (\<not> Agent_checkForDelegated asp' \<longrightarrow> ms = path))"
proof -
  obtain rc asp' s' new ms rest where L: "Agent_handleSetLoop fuel call asp s = Some (rc, asp', s')"
    "Agent_handleSetLoop fuel (logged call) asp (s, []) = Some (rc, asp', (s', new))" "calls_of new = pass_calls asp ms"
    and p: "modes_to_come (pass_fails asp new) (asp_mode asp) (asp_status asp \<noteq> PRIOT_ERR_NOERROR) = ms @ rest"
    and e: "rest = [] \<or> Agent_checkForDelegated asp'" "asp_mode asp' = last (asp_mode asp # ms)"
    using set_loop_passes [OF assms, of call s "[]"] by auto
  have "distinct (ms @ rest)" "length (filter (\<lambda>m. \<not> finished m) (ms @ rest)) \<le> 4"
    unfolding p [symmetric] using modes_distinct four_passes by blast+
  then show ?thesis
    using L p e by (intro exI [of _ rc] exI [of _ asp'] exI [of _ s'] exI [of _ new] exI [of _ ms]) (auto simp: Let_def)
qed

lemma set_loop_ends_witness:
  "\<exists>rc asp' s' log ms. Agent_handleSetLoop 6 (logged refuse) one_session ((), []) = Some (rc, asp', (s', log)) \<and>
    calls_of log = pass_calls one_session ms \<and> length (filter (\<lambda>m. \<not> finished m) ms) \<le> 4"
proof -
  have "set_mode (asp_mode one_session)" "set_rank (asp_mode one_session) < 6" "session_ok one_session" "\<not> one_pass_only one_session"
    by (simp_all add: one_session_def set_mode_def set_rank.simps session_ok_def)
  from set_loop_ends [OF this, of refuse "()"] show ?thesis
    by blast
qed

end
