(* ===== verification/SetProps.thy ===== *)
theory SetProps
  imports SetRun WatchedVar
begin

text \<open>
  Watched variables keep the contract of a SET: each pass of the chain on the requests of a variable,
  the interpretation of the contract, and the properties of a SET.
\<close>

section \<open>A variable and its content\<close>

definition var_ok :: "watcher_info \<Rightarrow> watched \<Rightarrow> bool" where
  "var_ok w d \<longleftrightarrow> \<not> mem_error d \<and> Watcher_getDataSize w d \<le> length (wdata d) \<and>
     (has w WATCHER_SIZE_STRLEN \<longrightarrow> 0 \<in> set (wdata d)) \<and>
     (has w WATCHER_FIXED_SIZE \<or>
      has w WATCHER_MAX_SIZE \<and> max_size w + (if has w WATCHER_SIZE_STRLEN then 1 else 0) \<le> length (wdata d))"

definition var_content :: "watcher_info \<Rightarrow> watched \<Rightarrow> u8 list" where
  "var_content w d = take (Watcher_getDataSize w d) (wdata d)"

text \<open>A size in object identifiers counts whole ones.\<close>

definition rounded :: "watcher_info \<Rightarrow> u8 list \<Rightarrow> u8 list" where
  "rounded w bytes =
     (if \<not> has w WATCHER_SIZE_STRLEN \<and> has w WATCHER_SIZE_UNIT_OIDS
      then take (length bytes div sizeof_oid * sizeof_oid) bytes else bytes)"

definition fits :: "watcher_info \<Rightarrow> watched \<Rightarrow> u8 list \<Rightarrow> bool" where
  "fits w d bytes \<longleftrightarrow> length bytes + (if has w WATCHER_SIZE_STRLEN then 1 else 0) \<le> length (wdata d) \<and>
     (has w WATCHER_SIZE_STRLEN \<longrightarrow> 0 \<notin> set bytes)"

lemma strlen_append_nul: "0 \<notin> set xs \<Longrightarrow> strlen (xs @ 0 # ys) = length xs"
  by (induction xs) (auto simp: strlen_def)

lemma strlen_take: "0 \<notin> set (take (strlen xs) xs)"
  by (induction xs) (auto simp: strlen_def)

lemma strlen_less: "0 \<in> set xs \<Longrightarrow> strlen xs < length xs"
  by (induction xs) (auto simp: strlen_def)

lemma strlen_data:
  assumes "length bytes < length data" "0 \<notin> set bytes"
  shows "(bytes @ drop (length bytes) data)[length bytes := 0] = bytes @ 0 # drop (Suc (length bytes)) data"
  using assms(1) by (simp add: list_update_append drop_update_swap flip: Cons_nth_drop_Suc)

lemma setData_fits:
  assumes "fits w d bytes" "var_ok w d"
  shows "var_ok w (Watcher_setData w d bytes) \<and> length (wdata (Watcher_setData w d bytes)) = length (wdata d) \<and>
    var_content w (Watcher_setData w d bytes) = rounded w bytes"
proof (cases "has w WATCHER_SIZE_STRLEN")
  case True
  then have f: "length bytes < length (wdata d)" "0 \<notin> set bytes"
    using assms(1) by (auto simp: fits_def)
  have e: "Watcher_setData w d bytes = d\<lparr>wdata := bytes @ 0 # drop (Suc (length bytes)) (wdata d)\<rparr>"
    using f True strlen_data [OF f] by (simp add: Watcher_setData_def memcpy_to_def store_nul_def Let_def)
  show ?thesis
    using assms(2) True f
    by (auto simp: e var_ok_def var_content_def Watcher_getDataSize_def strlen_append_nul rounded_def)
next
  case False
  then have "length bytes \<le> length (wdata d)"
    using assms(1) by (simp add: fits_def)
  then show ?thesis
    using False assms(2) by (auto simp: Watcher_setData_def memcpy_to_def Let_def var_ok_def var_content_def
        Watcher_getDataSize_def rounded_def take_append sizeof_oid_def intro: order_trans [OF div_times_less_eq_dividend])
qed

lemma content_fits: "var_ok w d \<Longrightarrow> length (wdata d') = length (wdata d) \<Longrightarrow> fits w d' (var_content w d)"
  using strlen_less [of "wdata d"] strlen_take [of "wdata d"]
  by (auto simp: fits_def var_ok_def var_content_def Watcher_getDataSize_def)

lemma rounded_content: "var_ok w d \<Longrightarrow> rounded w (var_content w d) = var_content w d"
proof (cases "\<not> has w WATCHER_SIZE_STRLEN \<and> has w WATCHER_SIZE_UNIT_OIDS")
  case True
  assume "var_ok w d"
  then have "length (var_content w d) = data_size d * sizeof_oid"
    using True by (simp add: var_content_def var_ok_def Watcher_getDataSize_def)
  then show ?thesis
    by (simp add: rounded_def sizeof_oid_def)
qed (auto simp: rounded_def)

section \<open>The passes over the requests of a variable\<close>

lemma watched_steps_keeps:
  "watched_steps alloc w root mode q d = (q', d') \<Longrightarrow>
    map vb_value q' = map vb_value q \<and> (undelegated q \<longrightarrow> undelegated q')"
proof (induction q arbitrary: d q' d')
  case (Cons r q)
  obtain r1 d1 q1 where s: "watched_step alloc w root mode r d = (r1, d1)"
    "watched_steps alloc w root mode q d1 = (q1, d')" "q' = r1 # q1"
    using Cons.prems by (auto split: prod.splits)
  have "vb_value r1 = vb_value r \<and> (\<not> delegated r \<longrightarrow> \<not> delegated r1)"
    using s(1) by (auto simp: watched_step_def requestSetError_def requestAddListData_def Let_def split: if_splits)
  then show ?case
    using Cons.IH [OF s(2)] s(3) by (auto simp: undelegated_def)
qed simp

lemma setError_status [simp]:
  "0 < e \<Longrightarrow> e < 128 \<Longrightarrow> req_status (requestSetError mode e r) \<noteq> 0"
  by (auto simp: requestSetError_def Let_def PRIOT_NOSUCHOBJECT_def PRIOT_NOSUCHINSTANCE_def PRIOT_ENDOFMIBVIEW_def
      asn_tags mode_defs)

text \<open>What the first pass checks.\<close>

definition accepted :: "watcher_info \<Rightarrow> oid list \<Rightarrow> watched \<Rightarrow> u8 list request \<Rightarrow> bool" where
  "accepted w root d r \<longleftrightarrow> vb_name r = root \<and> vb_type r = w_type w \<and>
     (has w WATCHER_MAX_SIZE \<longrightarrow> length (vb_value r) \<le> max_size w) \<and>
     (has w WATCHER_FIXED_SIZE \<longrightarrow> length (vb_value r) = Watcher_getDataSize w d) \<and>
     (has w WATCHER_SIZE_STRLEN \<longrightarrow> 0 \<notin> set (vb_value r))"

lemma accepted_fits: "accepted w root d r \<Longrightarrow> var_ok w d \<Longrightarrow> fits w d (vb_value r)"
  using strlen_less [of "wdata d"] by (auto simp: accepted_def var_ok_def fits_def Watcher_getDataSize_def split: if_splits)

lemma steps_reserve1:
  "watched_steps alloc w root MODE_SET_RESERVE1 q d = (q', d') \<Longrightarrow>
    d' = d \<and> (no_error q' \<longrightarrow> q' = q \<and> (\<forall>r \<in> set q. accepted w root d r))"
proof (induction q arbitrary: q' d')
  case (Cons r q)
  obtain r1 d1 q1 where s: "watched_step alloc w root MODE_SET_RESERVE1 r d = (r1, d1)"
    "watched_steps alloc w root MODE_SET_RESERVE1 q d1 = (q1, d')" "q' = r1 # q1"
    using Cons.prems by (auto split: prod.splits)
  have r: "d1 = d \<and> (req_status r1 = PRIOT_ERR_NOERROR \<longrightarrow> r1 = r \<and> accepted w root d r)"
    using s(1) by (auto simp: watched_step_def accepted_def PRIOT_ERR_NOERROR_def PRIOT_ERR_NOCREATION_def PRIOT_ERR_WRONGTYPE_def
        PRIOT_ERR_WRONGLENGTH_def PRIOT_ERR_WRONGVALUE_def split: if_splits)
  then have "watched_steps alloc w root MODE_SET_RESERVE1 q d = (q1, d')"
    using s(2) by simp
  from Cons.IH [OF this] r show ?case
    using s(3) by (auto simp: no_error_def)
qed simp

lemma getListData_add:
  "Map_at (parent_data r) k = None \<Longrightarrow> requestGetListData (requestAddListData (k, x) r) k = Some x"
  by (auto simp: requestGetListData_def requestAddListData_def Map_insert_def Map_at_map_of map_add_def)

lemma requestAddListData_sel [simp]:
  "vb_name (requestAddListData x r) = vb_name r" "vb_value (requestAddListData x r) = vb_value r"
  "vb_type (requestAddListData x r) = vb_type r" "req_status (requestAddListData x r) = req_status r"
  by (simp_all add: requestAddListData_def)

lemma steps_reserve2:
  "watched_steps alloc w root MODE_SET_RESERVE2 q d = (q', d') \<Longrightarrow> \<forall>r \<in> set q. Map_at (parent_data r) ''watcher'' = None \<Longrightarrow>
    d' = d \<and> (no_error q' \<longrightarrow> list_all2 (\<lambda>r r'. vb_name r = root \<and> vb_name r' = root \<and> vb_value r' = vb_value r \<and>
      requestGetListData r' ''watcher'' = Some (var_content w d)) q q')"
proof (induction q arbitrary: q' d')
  case (Cons r q)
  obtain r1 d1 q1 where s: "watched_step alloc w root MODE_SET_RESERVE2 r d = (r1, d1)"
    "watched_steps alloc w root MODE_SET_RESERVE2 q d1 = (q1, d')" "q' = r1 # q1"
    using Cons.prems(1) by (auto split: prod.splits)
  have r: "d1 = d \<and> (req_status r1 = PRIOT_ERR_NOERROR \<longrightarrow> vb_name r = root \<and> vb_name r1 = root \<and> vb_value r1 = vb_value r \<and>
      requestGetListData r1 ''watcher'' = Some (var_content w d))"
    using s(1) Cons.prems(2) getListData_add [of r "''watcher''"]
    by (auto simp: watched_step_def mode_defs var_content_def split: if_splits)
  then have "watched_steps alloc w root MODE_SET_RESERVE2 q d = (q1, d')"
    using s(2) by simp
  from Cons.IH [OF this] r Cons.prems(2) show ?case
    using s(3) by (auto simp: no_error_def)
qed simp

lemma steps_action:
  "watched_steps alloc w root MODE_SET_ACTION q d = (q', d') \<Longrightarrow> var_ok w d \<Longrightarrow>
    \<forall>r \<in> set q. vb_name r = root \<and> fits w d (vb_value r) \<Longrightarrow>
    q' = q \<and> var_ok w d' \<and> length (wdata d') = length (wdata d) \<and>
    (q \<noteq> [] \<longrightarrow> var_content w d' = rounded w (vb_value (last q)))"
proof (induction q arbitrary: d q' d')
  case (Cons r q)
  let ?d = "Watcher_setData w d (vb_value r)"
  have v: "vb_name r = root" "fits w d (vb_value r)"
    using Cons.prems(3) by simp_all
  note f = setData_fits [OF v(2) Cons.prems(2)]
  obtain q1 where s: "watched_steps alloc w root MODE_SET_ACTION q ?d = (q1, d')" "q' = r # q1"
    using Cons.prems(1) v(1) by (auto simp: watched_step_def mode_defs split: prod.splits)
  have "\<forall>r \<in> set q. vb_name r = root \<and> fits w ?d (vb_value r)"
    using Cons.prems(3) f by (auto simp: fits_def)
  from Cons.IH [OF s(1) _ this] f show ?case
    using s by (cases "q = []") auto
qed simp

lemma steps_undo:
  "watched_steps alloc w root MODE_SET_UNDO q d = (q', d') \<Longrightarrow> var_ok w d \<Longrightarrow> var_ok w d0 \<Longrightarrow>
    length (wdata d) = length (wdata d0) \<Longrightarrow> q \<noteq> [] \<Longrightarrow>
    \<forall>r \<in> set q. vb_name r = root \<and> requestGetListData r ''watcher'' = Some (var_content w d0) \<Longrightarrow>
    var_ok w d' \<and> var_content w d' = var_content w d0"
proof (induction q arbitrary: d q')
  case (Cons r q)
  let ?d = "Watcher_setData w d (var_content w d0)"
  have v: "vb_name r = root" "requestGetListData r ''watcher'' = Some (var_content w d0)"
    using Cons.prems(6) by simp_all
  have "fits w d (var_content w d0)"
    using content_fits [OF Cons.prems(3)] Cons.prems(4) by simp
  note f = setData_fits [OF this Cons.prems(2)] rounded_content [OF Cons.prems(3)]
  obtain q1 where s: "watched_steps alloc w root MODE_SET_UNDO q ?d = (q1, d')"
    using Cons.prems(1) v by (auto simp: watched_step_def mode_defs split: prod.splits)
  show ?case
  proof (cases "q = []")
    case True
    then show ?thesis
      using s f by simp
  next
    case False
    then show ?thesis
      using Cons.IH [OF s] f Cons.prems(3,4,6) by auto
  qed
qed simp

lemma steps_other:
  "mode \<in> {MODE_SET_COMMIT, MODE_SET_FREE} \<Longrightarrow> watched_steps alloc w root mode q d = (q', d') \<Longrightarrow>
    d' = d \<and> ((\<forall>r \<in> set q. vb_name r = root) \<longrightarrow> q' = q)"
proof (induction q arbitrary: d q' d')
  case (Cons r q)
  obtain r1 d1 q1 where s: "watched_step alloc w root mode r d = (r1, d1)"
    "watched_steps alloc w root mode q d1 = (q1, d')" "q' = r1 # q1"
    using Cons.prems(2) by (auto split: prod.splits)
  have "d1 = d \<and> (vb_name r = root \<longrightarrow> r1 = r)"
    using s(1) Cons.prems(1) by (auto simp: watched_step_def mode_defs split: if_splits)
  then show ?case
    using Cons.IH [OF Cons.prems(1) s(2)] s(3) by auto
qed simp

section \<open>The contract\<close>

text \<open>Watcher \<open>i\<close> has the information \<open>cfg i\<close>, the identifier \<open>root i\<close>, and its copy gets memory if \<open>alloc i\<close>.\<close>

definition w_call ::
    "('i \<Rightarrow> bool) \<Rightarrow> ('i \<Rightarrow> watcher_info) \<Rightarrow> ('i \<Rightarrow> oid list) \<Rightarrow> 'i \<Rightarrow> (u8 list, 'i \<Rightarrow> watched) chain" where
  "w_call alloc cfg root i = watched_call (alloc i) (cfg i) (root i) i"

definition w_fresh :: "('i \<Rightarrow> watcher_info) \<Rightarrow> 'i \<Rightarrow> u8 list request list \<Rightarrow> watched \<Rightarrow> bool" where
  "w_fresh cfg i q d \<longleftrightarrow> var_ok (cfg i) d \<and> (\<forall>r \<in> set q. Map_at (parent_data r) ''watcher'' = None)"

definition w_checked :: "('i \<Rightarrow> watcher_info) \<Rightarrow> ('i \<Rightarrow> oid list) \<Rightarrow> 'i \<Rightarrow> u8 list request list \<Rightarrow> watched \<Rightarrow> bool" where
  "w_checked cfg root i q d \<longleftrightarrow> w_fresh cfg i q d \<and> q \<noteq> [] \<and> (\<forall>r \<in> set q. vb_name r = root i \<and> fits (cfg i) d (vb_value r))"

definition w_saved :: "('i \<Rightarrow> watcher_info) \<Rightarrow> ('i \<Rightarrow> oid list) \<Rightarrow> 'i \<Rightarrow> u8 list request list \<Rightarrow> watched \<Rightarrow> bool" where
  "w_saved cfg root i q d \<longleftrightarrow> var_ok (cfg i) d \<and> q \<noteq> [] \<and> (\<forall>r \<in> set q. vb_name r = root i \<and>
     fits (cfg i) d (vb_value r) \<and> requestGetListData r ''watcher'' = Some (var_content (cfg i) d))"

definition w_undoable ::
    "('i \<Rightarrow> watcher_info) \<Rightarrow> ('i \<Rightarrow> oid list) \<Rightarrow> 'i \<Rightarrow> u8 list request list \<Rightarrow> watched \<Rightarrow> watched \<Rightarrow> bool" where
  "w_undoable cfg root i q d0 d \<longleftrightarrow> var_ok (cfg i) d0 \<and> var_ok (cfg i) d \<and> length (wdata d) = length (wdata d0) \<and> q \<noteq> [] \<and>
     (\<forall>r \<in> set q. vb_name r = root i \<and> requestGetListData r ''watcher'' = Some (var_content (cfg i) d0))"

definition w_same :: "('i \<Rightarrow> watcher_info) \<Rightarrow> 'i \<Rightarrow> watched \<Rightarrow> watched \<Rightarrow> bool" where
  "w_same cfg i d0 d \<longleftrightarrow> (var_ok (cfg i) d0 \<longrightarrow> var_ok (cfg i) d \<and> var_content (cfg i) d = var_content (cfg i) d0)"

definition w_achieved :: "('i \<Rightarrow> watcher_info) \<Rightarrow> 'i \<Rightarrow> u8 list list \<Rightarrow> watched \<Rightarrow> bool" where
  "w_achieved cfg i vs d \<longleftrightarrow> var_ok (cfg i) d \<and> vs \<noteq> [] \<and> var_content (cfg i) d = rounded (cfg i) (last vs)"

lemma w_call_set:
  assumes "is_set_mode mode" "w_call alloc cfg root i mode q s = (q', rc, s')"
  shows "if q = [] then q' = [] \<and> rc = PRIOT_ERR_GENERR \<and> s' = s
    else \<exists>d. watched_steps (alloc i) (cfg i) (root i) mode (map (processed_update (\<lambda>_. False)) q) (s i) = (q', d) \<and>
      rc = PRIOT_ERR_NOERROR \<and> s' = s(i := d)"
  using assms watched_call_set [OF assms(1), of q "alloc i" "cfg i" i "root i" s]
  by (auto simp: w_call_def AgentHandler_callHandlers_def Let_def split: prod.splits)

lemma processed_sel [simp]:
  "requestGetListData (processed_update f r) = requestGetListData r"
  "accepted w root d (processed_update f r) = accepted w root d r"
  by (auto simp: requestGetListData_def accepted_def)

lemma undelegated_processed [simp]: "undelegated (map (processed_update f) q) = undelegated q"
  by (simp add: undelegated_def)

lemma no_error_processed [simp]: "no_error (map (processed_update f) q) = no_error q"
  by (simp add: no_error_def)

lemma list_all2_in2: "list_all2 P xs ys \<Longrightarrow> y \<in> set ys \<Longrightarrow> \<exists>x \<in> set xs. P x y"
  by (induction rule: list_all2_induct) auto

interpretation watched: set_handlers "w_call alloc cfg root" "\<lambda>i s. s i" "w_fresh cfg" "w_checked cfg root"
    "w_saved cfg root" "w_undoable cfg root" "w_same cfg" "w_achieved cfg"
  for alloc :: "'i \<Rightarrow> bool" and cfg root
proof
  have m: "is_set_mode MODE_SET_RESERVE1" "is_set_mode MODE_SET_RESERVE2" "is_set_mode MODE_SET_ACTION"
    "is_set_mode MODE_SET_COMMIT" "is_set_mode MODE_SET_FREE" "is_set_mode MODE_SET_UNDO"
    by (simp_all add: is_set_mode_def)
  fix i i' :: 'i and mode :: int and q q' :: "u8 list request list" and s s' :: "'i \<Rightarrow> watched" and rc :: int and d :: watched
  show "s' i' = s i'" if "is_set_mode mode" "w_call alloc cfg root i mode q s = (q', rc, s')" "i' \<noteq> i"
    using w_call_set [OF that(1,2)] that(3) by (auto split: if_splits)
  show "map vb_value q' = map vb_value q \<and> (undelegated q \<longrightarrow> undelegated q')"
    if "is_set_mode mode" "w_call alloc cfg root i mode q s = (q', rc, s')"
    using w_call_set [OF that] by (auto dest!: watched_steps_keeps split: if_splits simp: comp_def)
  show "s' i = s i \<and> (rc = PRIOT_ERR_NOERROR \<and> no_error q' \<longrightarrow> w_checked cfg root i q' (s i))"
    if hyp: "w_fresh cfg i q (s i)" and cl: "w_call alloc cfg root i MODE_SET_RESERVE1 q s = (q', rc, s')"
  proof (cases "q = []")
    case True
    then show ?thesis
      using w_call_set [OF m(1) cl] by (simp add: mode_defs)
  next
    case False
    let ?q = "map (processed_update (\<lambda>_. False)) q"
    obtain d where d: "watched_steps (alloc i) (cfg i) (root i) MODE_SET_RESERVE1 ?q (s i) = (q', d)" "s' = s(i := d)"
      using w_call_set [OF m(1) cl] False by auto
    note st = steps_reserve1 [OF d(1)]
    have "w_checked cfg root i q' (s i)" if "no_error q'"
    proof -
      have a: "q' = ?q" "\<forall>r \<in> set q. accepted (cfg i) (root i) (s i) r"
        using st that by auto
      then have "\<forall>r \<in> set q. vb_name r = root i \<and> fits (cfg i) (s i) (vb_value r)"
        using accepted_fits hyp by (auto simp: w_fresh_def accepted_def)
      then show ?thesis
        using a(1) False hyp by (simp add: w_checked_def w_fresh_def)
    qed
    then show ?thesis
      using st d(2) by simp
  qed
  show "s' i = s i \<and> (rc = PRIOT_ERR_NOERROR \<and> no_error q' \<longrightarrow> w_saved cfg root i q' (s i))"
    if hyp: "w_checked cfg root i q (s i)" and cl: "w_call alloc cfg root i MODE_SET_RESERVE2 q s = (q', rc, s')"
  proof -
    let ?q = "map (processed_update (\<lambda>_. False)) q"
    have q: "q \<noteq> []" "\<forall>r \<in> set ?q. Map_at (parent_data r) ''watcher'' = None" and v: "var_ok (cfg i) (s i)"
      and f: "\<forall>r \<in> set q. fits (cfg i) (s i) (vb_value r)"
      using hyp by (auto simp: w_checked_def w_fresh_def)
    obtain d where d: "watched_steps (alloc i) (cfg i) (root i) MODE_SET_RESERVE2 ?q (s i) = (q', d)" "s' = s(i := d)"
      using w_call_set [OF m(2) cl] q(1) by auto
    note st = steps_reserve2 [OF d(1) q(2)]
    have "w_saved cfg root i q' (s i)" if "no_error q'"
    proof -
      have l: "list_all2 (\<lambda>r r'. vb_name r' = root i \<and> vb_value r' = vb_value r \<and>
          requestGetListData r' ''watcher'' = Some (var_content (cfg i) (s i))) q q'"
        using st that by (auto simp: list.rel_map elim: list.rel_mono_strong)
      then have "q' \<noteq> []"
        using q(1) by (cases q') auto
      moreover have "vb_name r' = root i \<and> fits (cfg i) (s i) (vb_value r') \<and>
          requestGetListData r' ''watcher'' = Some (var_content (cfg i) (s i))" if r': "r' \<in> set q'" for r'
        using list_all2_in2 [OF l r'] f by auto
      ultimately show ?thesis
        using v by (simp add: w_saved_def)
    qed
    then show ?thesis
      using st d(2) by simp
  qed
  show "w_undoable cfg root i q' (s i) (s' i) \<and>
      (rc = PRIOT_ERR_NOERROR \<and> no_error q' \<longrightarrow> w_achieved cfg i (map vb_value q') (s' i))"
    if hyp: "w_saved cfg root i q (s i)" and cl: "w_call alloc cfg root i MODE_SET_ACTION q s = (q', rc, s')"
  proof -
    let ?q = "map (processed_update (\<lambda>_. False)) q"
    have q: "q \<noteq> []" "var_ok (cfg i) (s i)" "\<forall>r \<in> set ?q. vb_name r = root i \<and> fits (cfg i) (s i) (vb_value r)"
      using hyp by (auto simp: w_saved_def)
    obtain d where d: "watched_steps (alloc i) (cfg i) (root i) MODE_SET_ACTION ?q (s i) = (q', d)" "s' = s(i := d)"
      using w_call_set [OF m(3) cl] q(1) by auto
    have st: "q' = ?q" "var_ok (cfg i) d" "length (wdata d) = length (wdata (s i))"
      "var_content (cfg i) d = rounded (cfg i) (vb_value (last q))"
      using steps_action [OF d(1) q(2,3)] q(1) by (simp_all add: last_map)
    then show ?thesis
      using d(2) q hyp by (auto simp: w_undoable_def w_achieved_def w_saved_def comp_def last_map)
  qed
  show "w_same cfg i d (s' i)" if hyp: "w_undoable cfg root i q d (s i)" and cl: "w_call alloc cfg root i MODE_SET_UNDO q s = (q', rc, s')"
  proof -
    let ?q = "map (processed_update (\<lambda>_. False)) q"
    have q: "?q \<noteq> []" "var_ok (cfg i) (s i)" "var_ok (cfg i) d" "length (wdata (s i)) = length (wdata d)"
      "\<forall>r \<in> set ?q. vb_name r = root i \<and> requestGetListData r ''watcher'' = Some (var_content (cfg i) d)"
      using hyp by (auto simp: w_undoable_def)
    obtain d' where d': "watched_steps (alloc i) (cfg i) (root i) MODE_SET_UNDO ?q (s i) = (q', d')" "s' = s(i := d')"
      using w_call_set [OF m(6) cl] q(1) by auto
    show ?thesis
      using steps_undo [OF d'(1) q(2,3,4,1,5)] d'(2) by (simp add: w_same_def)
  qed
  show "rc = PRIOT_ERR_NOERROR \<and> no_error q' \<and> s' i = s i"
    if "w_undoable cfg root i q d (s i)" "no_error q" "w_call alloc cfg root i MODE_SET_COMMIT q s = (q', rc, s')"
  proof -
    have q: "q \<noteq> []" "\<forall>r \<in> set q. vb_name r = root i"
      using that(1) by (auto simp: w_undoable_def)
    then show ?thesis
      using w_call_set [OF m(4) that(3)] that(2)
      by (auto dest!: steps_other [rotated] split: if_splits)
  qed
  show "s' i = s i" if "w_call alloc cfg root i MODE_SET_FREE q s = (q', rc, s')"
    using w_call_set [OF m(5) that] by (auto dest!: steps_other [rotated] split: if_splits)
  show "w_same cfg i d d"
    by (simp add: w_same_def)
qed

section \<open>Properties\<close>

text \<open>
  C3: A SET of watched variables is atomic: it ends; when it succeeds, every variable holds the last
  value asked for it, and when it fails, every variable holds what it held before; nothing outside
  the buffers is touched, and no other variable changes.
\<close>

theorem watched_set_atomic:
  assumes "asp_mode asp = MODE_SET_BEGIN" "asp_index asp = 0" "\<not> one_pass_only asp"
    and "treecache asp = map (\<lambda>(i, q). (Some i, q)) gs" "distinct (map fst gs)"
    and "\<forall>(i, q) \<in> set gs. var_ok (cfg i) (s i) \<and> (\<forall>r \<in> set q. \<not> delegated r \<and> parent_data r = [])"
  shows "\<exists>asp' s'. Agent_handleSetLoop 6 (w_call alloc cfg root) asp s = Some (asp_status asp', asp', s') \<and>
    (\<forall>i. i \<notin> fst ` set gs \<longrightarrow> s' i = s i) \<and> (\<forall>i \<in> fst ` set gs. var_ok (cfg i) (s' i)) \<and>
    (asp_mode asp' = IMPL_FINISHED_SUCCESS \<and> asp_status asp' = PRIOT_ERR_NOERROR \<and>
       (\<forall>(i, q) \<in> set gs. var_content (cfg i) (s' i) = rounded (cfg i) (vb_value (last q))) \<or>
     asp_mode asp' = IMPL_FINISHED_FAILURE \<and> asp_status asp' \<noteq> PRIOT_ERR_NOERROR \<and>
       (\<forall>(i, q) \<in> set gs. var_content (cfg i) (s' i) = var_content (cfg i) (s i)))"
proof -
  have b: "watched.base asp gs"
    using assms by (auto simp: watched.base_def watched.groups_def index_ok_def undelegated_def)
  have f: "\<forall>(i, q) \<in> set gs. w_fresh cfg i q (s i)"
    using assms(6) by (auto simp: w_fresh_def Map_at_def)
  obtain asp' s' where L: "Agent_handleSetLoop 6 (w_call alloc cfg root) asp s = Some (asp_status asp', asp', s')"
    and a: "watched.all_or_nothing cfg gs s asp' s'"
    using watched.set_atomic [OF b assms(1,2) f] by blast
  moreover have o: "\<forall>i. i \<notin> fst ` set gs \<longrightarrow> s' i = s i"
    using a by (simp add: watched.all_or_nothing_def)
  moreover have v: "\<forall>i \<in> fst ` set gs. var_ok (cfg i) (s i)"
    using assms(6) by auto
  ultimately show ?thesis
  proof (cases "asp_mode asp' = IMPL_FINISHED_SUCCESS")
    case True
    then have "\<forall>(i, q) \<in> set gs. w_achieved cfg i (map vb_value q) (s' i)" "asp_status asp' = PRIOT_ERR_NOERROR"
      using a by (auto simp: watched.all_or_nothing_def watched.wanted_def mode_defs)
    then have "\<forall>(i, q) \<in> set gs. var_ok (cfg i) (s' i) \<and> var_content (cfg i) (s' i) = rounded (cfg i) (vb_value (last q))"
      by (auto simp: w_achieved_def last_map)
    then show ?thesis
      using L o True \<open>asp_status asp' = PRIOT_ERR_NOERROR\<close> by (intro exI [of _ asp'] exI [of _ s']) auto
  next
    case False
    then have f: "asp_mode asp' = IMPL_FINISHED_FAILURE" "asp_status asp' \<noteq> PRIOT_ERR_NOERROR"
      and "\<forall>i \<in> fst ` set gs. w_same cfg i (s i) (s' i)"
      using a by (auto simp: watched.all_or_nothing_def)
    then have "\<forall>i \<in> fst ` set gs. var_ok (cfg i) (s' i) \<and> var_content (cfg i) (s' i) = var_content (cfg i) (s i)"
      using v by (auto simp: w_same_def)
    then show ?thesis
      using L o f by (intro exI [of _ asp'] exI [of _ s']) auto
  qed
qed

text \<open>A session that sets two variables of four bytes, the second to a value of the wrong length.\<close>

definition word_cfg :: "nat \<Rightarrow> watcher_info" where
  "word_cfg i = \<lparr>max_size = 0, w_type = asnOCTET_STR, w_flags = WATCHER_FIXED_SIZE\<rparr>"

definition word_var :: watched where
  "word_var = \<lparr>wdata = [1, 2, 3, 4], data_size = 4, mem_error = False\<rparr>"

definition set_request :: "nat \<Rightarrow> u8 list \<Rightarrow> u8 list request" where
  "set_request i v = \<lparr>vb_name = [1, of_nat i], vb_type = asnOCTET_STR, vb_value = v, delegated = False, processed = False,
     inclusive = 0, req_status = 0, req_index = int i + 1, parent_data = []\<rparr>"

lemma watched_set_atomic_witness:
  "\<exists>asp' s'. Agent_handleSetLoop 6 (w_call (\<lambda>i. True) word_cfg (\<lambda>i. [1, of_nat i]))
      \<lparr>asp_mode = MODE_SET_BEGIN, asp_status = 0, asp_index = 0, one_pass_only = False,
       treecache = [(Some 0, [set_request 0 [9, 9, 9, 9]]), (Some 1, [set_request 1 [7]])]\<rparr> (\<lambda>i. word_var) =
        Some (asp_status asp', asp', s') \<and> (\<forall>i. 2 \<le> i \<longrightarrow> s' i = word_var)"
proof -
  let ?gs = "[(0, [set_request 0 [9, 9, 9, 9]]), (1, [set_request 1 [7]])]"
  let ?asp = "\<lparr>asp_mode = MODE_SET_BEGIN, asp_status = 0, asp_index = 0, one_pass_only = False,
       treecache = [(Some 0, [set_request 0 [9, 9, 9, 9]]), (Some 1, [set_request 1 [7]])]\<rparr>"
  have "\<forall>(i, q) \<in> set ?gs. var_ok (word_cfg i) word_var \<and> (\<forall>r \<in> set q. \<not> delegated r \<and> parent_data r = [])"
    by (simp add: var_ok_def word_cfg_def word_var_def set_request_def has_def watcher_flags Watcher_getDataSize_def)
  from watched_set_atomic [of ?asp ?gs word_cfg "\<lambda>i. word_var" "\<lambda>i. True" "\<lambda>i. [1, of_nat i]"] this show ?thesis
    by fastforce
qed

definition int_info :: watcher_info where
  "int_info = \<lparr>max_size = 4, w_type = asnINTEGER, w_flags = WATCHER_FIXED_SIZE\<rparr>"

text \<open>
  C32: An \<open>int\<close> that is registered as a watched instance cannot be set: the value of an INTEGER that
  arrives is a \<open>long\<close> of eight bytes, the variable has four, and the first pass answers wrongLength.
\<close>

theorem int_instance_refused:
  assumes "data_size (s i) = 4" "vb_name r = root" "vb_type r = asnINTEGER" "length (vb_value r) = 8"
    and "\<not> delegated r" "req_status r = 0" "0 < req_index r"
    and asp: "asp_mode asp = MODE_SET_BEGIN" "asp_index asp = 0" "\<not> one_pass_only asp" "treecache asp = [(Some i, [r])]"
  shows "\<exists>asp'. Agent_handleSetLoop 6 (\<lambda>i. watched_call alloc int_info root i) asp s =
      Some (PRIOT_ERR_WRONGLENGTH, asp', s) \<and> asp_mode asp' = IMPL_FINISHED_FAILURE \<and> asp_index asp' = req_index r"
proof -
  let ?call = "\<lambda>i. watched_call alloc int_info root i"
  let ?r = "requestSetError MODE_SET_RESERVE1 PRIOT_ERR_WRONGLENGTH (r\<lparr>processed := False\<rparr>)"
  define a1 where "a1 = asp\<lparr>asp_mode := MODE_SET_RESERVE1, asp_status := PRIOT_ERR_WRONGLENGTH, asp_index := req_index r,
    treecache := [(Some i, [?r])]\<rparr>"
  define a2 where "a2 = a1\<lparr>asp_mode := MODE_SET_FREE, treecache := [(Some i, [?r\<lparr>processed := False\<rparr>])]\<rparr>"
  have m: "is_set_mode MODE_SET_RESERVE1" "is_set_mode MODE_SET_FREE"
    by (simp_all add: is_set_mode_def)
  have e: "req_status ?r = PRIOT_ERR_WRONGLENGTH" "vb_name ?r = root" "req_index ?r = req_index r" "\<not> delegated ?r"
    using assms(2) by (auto simp: requestSetError_def Let_def PRIOT_NOSUCHOBJECT_def PRIOT_NOSUCHINSTANCE_def
        PRIOT_ENDOFMIBVIEW_def asn_tags mode_defs)
  have s1: "watched_step alloc int_info root MODE_SET_RESERVE1 (r\<lparr>processed := False\<rparr>) (s i) = (?r, s i)"
    using assms(1-4) by (simp add: watched_step_def int_info_def has_def watcher_flags Watcher_getDataSize_def)
  have s2: "watched_step alloc int_info root MODE_SET_FREE (?r\<lparr>processed := False\<rparr>) (s i) = (?r\<lparr>processed := False\<rparr>, s i)"
    using e by (simp add: watched_step_def mode_defs)
  have c1: "?call i MODE_SET_RESERVE1 [r] s = ([?r], 0, s)"
    using watched_call_set [OF m(1), of "[r]" alloc int_info i root s] s1 by (simp add: Let_def mode_defs)
  have c2: "?call i MODE_SET_FREE [?r] s = ([?r\<lparr>processed := False\<rparr>], 0, s)"
    using watched_call_set [OF m(2), of "[?r]" alloc int_info i root s] s2 by (simp add: Let_def mode_defs)
  have n: "next_set_mode MODE_SET_BEGIN x = MODE_SET_RESERVE1" "\<not> finished MODE_SET_BEGIN" "\<not> finished MODE_SET_RESERVE1"
    "\<not> finished MODE_SET_FREE" "finished IMPL_FINISHED_FAILURE" "specific_error MODE_SET_RESERVE1 = 0"
    "specific_error MODE_SET_FREE = 0" "MODE_SET_RESERVE1 \<noteq> MODE_SET_BEGIN" "MODE_SET_FREE \<noteq> MODE_SET_BEGIN"
    "next_set_mode MODE_SET_RESERVE1 PRIOT_ERR_WRONGLENGTH = MODE_SET_FREE"
    "next_set_mode MODE_SET_FREE x = IMPL_FINISHED_FAILURE" "PRIOT_ERR_WRONGLENGTH \<noteq> PRIOT_ERR_NOERROR"
    "PRIOT_ERR_WRONGLENGTH \<noteq> PRIOT_ERR_COMMITFAILED" "PRIOT_ERR_WRONGLENGTH \<noteq> PRIOT_ERR_UNDOFAILED" for x
    by (simp_all add: round_simps)
  note d = Agent_handleSet_def advance_def set_pass_def Agent_handleVarRequests_def call_group_def Let_def n e
  have h1: "Agent_handleSet ?call asp s = (a1, s)"
    using c1 assms(7) by (simp add: d asp a1_def)
  have h2: "Agent_handleSet ?call a1 s = (a2, s)"
    using c2 assms(7) asp by (simp add: d a1_def a2_def)
  have h3: "Agent_handleSet ?call a2 s = (a2\<lparr>asp_mode := IMPL_FINISHED_FAILURE\<rparr>, s)"
    using asp by (simp add: d a1_def a2_def)
  have p: "\<not> one_pass_only a1" "\<not> one_pass_only a2" "asp_mode a1 = MODE_SET_RESERVE1" "asp_mode a2 = MODE_SET_FREE"
    "\<not> Agent_checkForDelegated a1" "\<not> Agent_checkForDelegated (a2\<lparr>asp_mode := m\<rparr>)" "\<not> Agent_checkForDelegated a2"
    "asp_status a2 = PRIOT_ERR_WRONGLENGTH" "asp_index a2 = req_index r" for m
    using asp e by (simp_all add: a1_def a2_def Agent_checkForDelegated_def)
  have "6 = Suc (Suc (Suc (Suc (Suc (Suc 0)))))"
    by simp
  then show ?thesis
    using asp p h1 h2 h3 n by (simp only: Agent_handleSetLoop.simps) simp
qed

lemma int_instance_refused_witness:
  "\<exists>asp'. Agent_handleSetLoop 6 (\<lambda>i. watched_call True int_info [1, 3] i) one_session (\<lambda>i. word_var) =
    Some (8, asp', \<lambda>i. word_var) \<and> asp_mode asp' = 10"
  using int_instance_refused [of "\<lambda>i. word_var" 0 "one_request 1" "[1, 3]" one_session True]
  by (auto simp: word_var_def one_request_def one_session_def mode_defs)

end
