(* ===== verification/CText.thy ===== *)
theory CText
  imports Integer64
begin

text \<open>
  The functions of the C library on strings that the configuration code uses: character classes
  of the C locale, \<open>strcasecmp\<close>, \<open>strtok_r\<close>, \<open>strtol\<close>, \<open>sscanf\<close> with \<open>%2x\<close>, and the output of
  \<open>printf\<close> for \<open>%02x\<close>. A C string is the list of its characters, without the terminating NUL; a
  pointer into it is the rest of the string. A buffer is the list of all its bytes.
\<close>

abbreviation NUL :: char where "NUL \<equiv> CHR 0x00"

definition isspace_c :: "char \<Rightarrow> bool" where
  "isspace_c c \<longleftrightarrow> (of_char c :: nat) = 32 \<or> 9 \<le> (of_char c :: nat) \<and> (of_char c :: nat) \<le> 13"

definition isalpha_c :: "char \<Rightarrow> bool" where
  "isalpha_c c \<longleftrightarrow> 65 \<le> (of_char c :: nat) \<and> (of_char c :: nat) \<le> 90 \<or>
     97 \<le> (of_char c :: nat) \<and> (of_char c :: nat) \<le> 122"

definition tolower_c :: "char \<Rightarrow> char" where
  "tolower_c c = (if 65 \<le> (of_char c :: nat) \<and> (of_char c :: nat) \<le> 90
     then char_of ((of_char c :: nat) + 32) else c)"

definition strcasecmp_eq :: "string \<Rightarrow> string \<Rightarrow> bool" where
  "strcasecmp_eq s t \<longleftrightarrow> map tolower_c s = map tolower_c t"

text \<open>The first token of a line, and what is left behind the delimiter that ends it.\<close>

definition strtok_r :: "string \<Rightarrow> string \<Rightarrow> (string \<times> string) option" where
  "strtok_r s delim =
     (let tok = dropWhile (\<lambda>c. c \<in> set delim) s in
      if tok = [] then None
      else Some (takeWhile (\<lambda>c. c \<notin> set delim) tok, tl (dropWhile (\<lambda>c. c \<notin> set delim) tok @ [NUL])))"

text \<open>
  \<open>strtol\<close> to base ten: the value, clamped to the range of \<open>long\<close>, and the rest of the string
  behind the number; where there is no number, the value is 0 and the rest is the whole string.
\<close>

definition clamp_long :: "int \<Rightarrow> int" where
  "clamp_long v = max (- (2 ^ 63)) (min (2 ^ 63 - 1) v)"

definition strtol10 :: "string \<Rightarrow> int \<times> string" where
  "strtol10 s =
     (let t = dropWhile isspace_c s;
          neg = (t \<noteq> [] \<and> hd t = CHR ''-'');
          u = (if t \<noteq> [] \<and> hd t \<in> {CHR ''-'', CHR ''+''} then tl t else t);
          ds = takeWhile isdigit_c u
      in if ds = [] then (0, s)
         else (clamp_long (if neg then - int (dec_val ds) else int (dec_val ds)),
               dropWhile isdigit_c u))"

text \<open>Hexadecimal digits, in both cases when read and in lower case when printed.\<close>

definition isxdigit_c :: "char \<Rightarrow> bool" where
  "isxdigit_c c \<longleftrightarrow> isdigit_c c \<or> 65 \<le> (of_char c :: nat) \<and> (of_char c :: nat) \<le> 70 \<or>
     97 \<le> (of_char c :: nat) \<and> (of_char c :: nat) \<le> 102"

definition xdigit_val :: "char \<Rightarrow> nat" where
  "xdigit_val c = (if isdigit_c c then of_char c - 48
     else if (of_char c :: nat) \<le> 70 then of_char c - 55 else of_char c - 87)"

definition xdigit :: "nat \<Rightarrow> char" where
  "xdigit n = (if n < 10 then char_of (48 + n) else char_of (87 + n))"

definition print_02x :: "char \<Rightarrow> string" where
  "print_02x c = [xdigit (of_char c div 16), xdigit (of_char c mod 16)]"

text \<open>
  \<open>sscanf\<close> with \<open>%2x\<close> at a place with two characters, none of them white space: one or two
  digits, a sign and a digit, but no bare prefix \<open>0x\<close>. The result is the unsigned integer it
  stores, where it stores one.
\<close>

fun scan_2x :: "string \<Rightarrow> u32 option" where
  "scan_2x (a # b # s) =
     (if isxdigit_c a then
        (if isxdigit_c b then Some (of_nat (16 * xdigit_val a + xdigit_val b))
         else if a = CHR ''0'' \<and> tolower_c b = CHR ''x'' then None
         else Some (of_nat (xdigit_val a)))
      else if a \<in> {CHR ''+'', CHR ''-''} \<and> isxdigit_c b
      then Some (if a = CHR ''-'' then - of_nat (xdigit_val b) else of_nat (xdigit_val b))
      else None)"
| "scan_2x s = None"

lemma xdigit_print [simp]: "n < 16 \<Longrightarrow> isxdigit_c (xdigit n) \<and> xdigit_val (xdigit n) = n"
  by (auto simp: xdigit_def isxdigit_c_def xdigit_val_def isdigit_c_def)

lemma of_char_less_256 [simp]: "(of_char c :: nat) < 256"
  using of_char_of [of "of_char c :: nat"] by (metis mod_less_divisor of_char_of char_of_char zero_less_numeral)

lemma scan_print [simp]: "scan_2x (print_02x c @ s) = Some (of_nat (of_char c))"
proof -
  have "(of_char c :: nat) div 16 < 16"
    by (rule less_mult_imp_div_less) simp
  then show ?thesis
    by (simp add: print_02x_def)
qed

lemma xdigit_not_space: "n < 16 \<Longrightarrow> \<not> isspace_c (xdigit n)"
  by (auto simp: xdigit_def isspace_c_def)

lemma print_02x_not_space: "c' \<in> set (print_02x c) \<Longrightarrow> \<not> isspace_c c'"
proof -
  have "(of_char c :: nat) div 16 < 16"
    by (rule less_mult_imp_div_less) simp
  moreover assume "c' \<in> set (print_02x c)"
  ultimately show ?thesis
    by (auto simp: print_02x_def xdigit_not_space)
qed

lemma length_print_02x [simp]: "length (print_02x c) = 2"
  by (simp add: print_02x_def)

end
