(* ===== verification/ConfText.thy ===== *)
theory ConfText
  imports CText AsnString
begin

text \<open>
  The words and octet strings of the configuration files (src/Firmware/Core/ReadConfig.c): white
  space and comments, quoted and bare words with backslash escapes copied into a bounded buffer,
  and the textual form of an octet string, quoted where every octet is a letter, a digit or a
  blank and hexadecimal otherwise.

  A \<open>const char*\<close> is a \<open>string option\<close>: \<open>None\<close> is NULL, \<open>Some s\<close> points at the rest \<open>s\<close> of the
  line. The functions that copy take the capacity the caller claims and give back the bytes they
  wrote; where these are put into an object of the caller, a write past its end is a \<open>Crash\<close>.
\<close>

section \<open>White space\<close>

fun skip_white :: "string \<Rightarrow> string option" where
  "skip_white [] = None"
| "skip_white (c # s) =
     (if isspace_c c then skip_white s else if c = CHR ''#'' then None else Some (c # s))"

definition ReadConfig_skipWhiteConst :: "string option \<Rightarrow> string option" where
  "ReadConfig_skipWhiteConst ptr = (case ptr of None \<Rightarrow> None | Some s \<Rightarrow> skip_white s)"

fun skip_not_white :: "string \<Rightarrow> string option" where
  "skip_not_white [] = None"
| "skip_not_white (c # s) =
     (if \<not> isspace_c c then skip_not_white s else if c = CHR ''#'' then None else Some (c # s))"

definition ReadConfig_skipNotWhiteConst :: "string option \<Rightarrow> string option" where
  "ReadConfig_skipNotWhiteConst ptr = (case ptr of None \<Rightarrow> None | Some s \<Rightarrow> skip_not_white s)"

definition ReadConfig_skipTokenConst :: "string option \<Rightarrow> string option" where
  "ReadConfig_skipTokenConst ptr =
     ReadConfig_skipWhiteConst (ReadConfig_skipNotWhiteConst (ReadConfig_skipWhiteConst ptr))"

section \<open>Words\<close>

text \<open>
  One character into the buffer: what was written so far and the room left. The last place is
  overwritten with a NUL.
\<close>

definition put_char :: "char \<Rightarrow> string \<times> int \<Rightarrow> string \<times> int" where
  "put_char c b = (case b of (to, len) \<Rightarrow>
     if len > 0 then (if len - 1 = 0 then (to @ [NUL], 0) else (to @ [c], len - 1)) else (to, len))"

text \<open>The two loops: inside quotes, up to the quote or the end, and up to white space.\<close>

fun copy_quoted :: "char \<Rightarrow> string \<Rightarrow> string \<times> int \<Rightarrow> string \<times> string \<times> int" where
  "copy_quoted quote [] b = ([], b)"
| "copy_quoted quote (c # s) b =
     (if c = quote then (c # s, b)
      else if c = CHR 0x5C \<and> s \<noteq> [] then copy_quoted quote (tl s) (put_char (hd s) b)
      else copy_quoted quote s (put_char c b))"

fun copy_bare :: "string \<Rightarrow> string \<times> int \<Rightarrow> string \<times> string \<times> int" where
  "copy_bare [] b = ([], b)"
| "copy_bare (c # s) b =
     (if isspace_c c then (c # s, b)
      else if c = CHR 0x5C \<and> s \<noteq> [] then copy_bare (tl s) (put_char (hd s) b)
      else copy_bare s (put_char c b))"

definition copy_nword :: "string \<Rightarrow> int \<Rightarrow> string option \<times> string" where
  "copy_nword from len =
     (let (rest, to, left) =
            (if from \<noteq> [] \<and> hd from \<in> {CHR 0x22, CHR 0x27} then
               (case copy_quoted (hd from) (tl from) ([], len) of (rest, b) \<Rightarrow>
                  (if rest = [] then rest else tl rest, b))
             else copy_bare from ([], len))
      in (skip_white rest, if left > 0 then to @ [NUL] else to))"

definition ReadConfig_copyNwordConst :: "string option \<Rightarrow> int \<Rightarrow> string option \<times> string" where
  "ReadConfig_copyNwordConst from len =
     (case from of None \<Rightarrow> (None, []) | Some s \<Rightarrow> copy_nword s len)"

section \<open>Octet strings\<close>

text \<open>The test whether all octets can stand between quotes; the result is where the loop stops.\<close>

function plain_loop :: "string \<Rightarrow> nat \<Rightarrow> nat \<Rightarrow> nat outcome" where
  "plain_loop str len i =
     (if i < len then
        obind (rd str i) (\<lambda>c.
          if isalpha_c c \<or> isdigit_c c \<or> c = CHR '' '' then plain_loop str len (i + 1) else Ret i)
      else Ret i)"
  by pat_completeness auto
termination
  by (relation "measure (\<lambda>(str, len, i). len - i)") auto

declare plain_loop.simps [simp del]

definition rd_octets :: "string \<Rightarrow> nat \<Rightarrow> string outcome" where
  "rd_octets str len = (if len \<le> length str then Ret (take len str) else Crash)"

definition ReadConfig_saveOctetString :: "string option \<Rightarrow> nat \<Rightarrow> string outcome" where
  "ReadConfig_saveOctetString str len =
     obind (case str of None \<Rightarrow> Ret 0 | Some s \<Rightarrow> plain_loop s len 0) (\<lambda>i.
     if len \<noteq> 0 \<and> i = len then
       obind (rd_octets (the str) len) (\<lambda>s. Ret (CHR 0x22 # s @ [CHR 0x22]))
     else case str of
            Some s \<Rightarrow> obind (rd_octets s len) (\<lambda>s. Ret (''0x'' @ concat (map print_02x s)))
          | None \<Rightarrow> Ret [CHR 0x22, CHR 0x22])"

text \<open>
  Reading: \<open>str\<close> is the object of the caller (\<open>None\<close>: \<open>*str\<close> is NULL and the function allocates),
  \<open>len\<close> the size the caller claims for it, \<open>malloc\<close> whether an allocation of so many bytes
  succeeds. The result is the returned pointer, the object behind \<open>*str\<close> (of an object that the
  function allocated, the bytes it wrote) and \<open>*len\<close>.
\<close>

definition overwrite :: "string option \<Rightarrow> string \<Rightarrow> string outcome" where
  "overwrite str new = (case str of None \<Rightarrow> Ret new
     | Some old \<Rightarrow> if length new \<le> length old then Ret (new @ drop (length new) old) else Crash)"

definition str_len :: "string \<Rightarrow> nat outcome" where
  "str_len buf = (if NUL \<in> set buf then Ret (length (takeWhile (\<lambda>c. c \<noteq> NUL) buf)) else Crash)"

fun scan_pairs :: "nat \<Rightarrow> string \<Rightarrow> string \<times> bool" where
  "scan_pairs 0 s = ([], True)"
| "scan_pairs (Suc n) s =
     (case scan_2x s of None \<Rightarrow> ([], False)
      | Some v \<Rightarrow> (case scan_pairs n (drop 2 s) of (cs, ok) \<Rightarrow> (char_of (unat v) # cs, ok)))"

definition int_of_size :: "nat \<Rightarrow> int" where
  "int_of_size n = sint (of_nat n :: u32)"

definition UTILITIES_MAX_BUFFER :: nat where "UTILITIES_MAX_BUFFER = 1024 * 4"

definition read_hex ::
    "(nat \<Rightarrow> bool) \<Rightarrow> string \<Rightarrow> string option \<Rightarrow> nat \<Rightarrow> (string option \<times> string \<times> nat) outcome" where
  "read_hex malloc s str len =
     (let ilen = (case skip_not_white s of Some rest \<Rightarrow> length s - length rest | None \<Rightarrow> length s)
      in if ilen mod 2 \<noteq> 0 then Ret (None, (case str of None \<Rightarrow> [] | Some old \<Rightarrow> old), len)
      else let n = ilen div 2 in
        if str = None \<and> \<not> malloc (n + 1) then Ret (None, [], len)
        else if str \<noteq> None \<and> n \<ge> len
        then Ret (ReadConfig_skipWhiteConst (skip_not_white s), the str, 0)
        else case scan_pairs n s of (bytes, ok) \<Rightarrow>
          if \<not> ok then obind (overwrite str bytes) (\<lambda>buf. Ret (None, buf, len))
          else obind (overwrite str (bytes @ [NUL])) (\<lambda>buf.
                 Ret (skip_white (drop (2 * n) s), buf, n)))"

definition read_word ::
    "(nat \<Rightarrow> bool) \<Rightarrow> string \<Rightarrow> string option \<Rightarrow> nat \<Rightarrow> (string option \<times> string \<times> nat) outcome" where
  "read_word malloc s str len =
     (case str of
        None \<Rightarrow> (case copy_nword s (int UTILITIES_MAX_BUFFER) of (rest, buf) \<Rightarrow>
          obind (str_len buf) (\<lambda>n.
          if malloc (n + 1) then Ret (rest, take (n + 1) buf, n) else Ret (None, [], n)))
      | Some old \<Rightarrow> (case copy_nword s (int_of_size len) of (rest, to) \<Rightarrow>
          obind (overwrite str to) (\<lambda>buf.
          if len \<noteq> 0 then obind (str_len buf) (\<lambda>n. Ret (rest, buf, n)) else Ret (rest, buf, len))))"

definition ReadConfig_readOctetStringConst ::
    "(nat \<Rightarrow> bool) \<Rightarrow> string option \<Rightarrow> string option \<Rightarrow> nat \<Rightarrow>
      (string option \<times> string \<times> nat) outcome" where
  "ReadConfig_readOctetStringConst malloc readfrom str len =
     (case readfrom of
        None \<Rightarrow> Ret (None, (case str of None \<Rightarrow> [] | Some old \<Rightarrow> old), len)
      | Some s \<Rightarrow>
          if strcasecmp_eq (take 2 s) ''0x'' then read_hex malloc (drop 2 s) str len
          else read_word malloc s str len)"

section \<open>Round trip\<close>

lemma skip_not_white_append:
  assumes "\<forall>c \<in> set h. \<not> isspace_c c" and "rest = [] \<or> isspace_c (hd rest)"
  shows "skip_not_white (h @ rest) = (if rest = [] then None else Some rest)"
  using assms(1)
proof (induction h)
  case Nil
  show ?case
    using assms(2) by (cases rest) (auto simp: isspace_c_def)
qed simp

lemma scan_pairs_print [simp]:
  "scan_pairs (length bs) (concat (map print_02x bs) @ rest) = (bs, True)"
proof (induction bs)
  case (Cons b bs)
  have "drop 2 (print_02x b @ t) = t" for t
    by (simp add: print_02x_def)
  moreover have "(of_char b :: nat) mod 4294967296 = of_char b"
    using of_char_less_256 [of b] by (intro mod_less) linarith
  ultimately show ?case
    using Cons by (simp add: unat_of_nat)
qed simp

lemma copy_quoted_plain:
  assumes "\<forall>c \<in> set s. c \<noteq> quote \<and> c \<noteq> CHR 0x5C" and "int (length s) < len"
  shows "copy_quoted quote (s @ quote # rest) (to, len)
    = (quote # rest, to @ s, len - int (length s))"
  using assms
proof (induction s arbitrary: to len)
  case (Cons c s)
  then have "put_char c (to, len) = (to @ [c], len - 1)"
    by (simp add: put_char_def)
  then show ?case
    using Cons.prems Cons.IH [of "len - 1" "to @ [c]"] by simp
qed simp

lemma copy_nword_quoted:
  assumes "\<forall>c \<in> set s. c \<noteq> CHR 0x22 \<and> c \<noteq> CHR 0x5C" and "int (length s) < len"
  shows "copy_nword (CHR 0x22 # s @ CHR 0x22 # rest) len = (skip_white rest, s @ [NUL])"
  using assms by (simp add: copy_nword_def copy_quoted_plain)

definition plain_octet :: "char \<Rightarrow> bool" where
  "plain_octet c \<longleftrightarrow> isalpha_c c \<or> isdigit_c c \<or> c = CHR '' ''"

lemma plain_octetD:
  assumes "plain_octet c"
  shows "c \<noteq> CHR 0x22" and "c \<noteq> CHR 0x5C" and "c \<noteq> NUL"
  using assms by (auto simp: plain_octet_def isalpha_c_def isdigit_c_def)

lemma plain_loop_all:
  "i \<le> length s \<Longrightarrow> \<exists>k. plain_loop s (length s) i = Ret k \<and>
     (k = length s \<longleftrightarrow> list_all plain_octet (drop i s))"
proof (induction "length s - i" arbitrary: i)
  case 0
  then show ?case
    by (subst plain_loop.simps) simp
next
  case (Suc n)
  then have i: "i < length s" and IH: "\<exists>k. plain_loop s (length s) (i + 1) = Ret k \<and>
     (k = length s \<longleftrightarrow> list_all plain_octet (drop (i + 1) s))"
    by auto
  have d: "drop i s = s ! i # drop (i + 1) s"
    using i by (simp add: Cons_nth_drop_Suc)
  show ?case
    using i IH by (subst plain_loop.simps, unfold d) (auto simp: plain_octet_def)
qed

lemma save_octets:
  "ReadConfig_saveOctetString (Some s) (length s) =
     Ret (if s \<noteq> [] \<and> list_all plain_octet s then CHR 0x22 # s @ [CHR 0x22]
          else ''0x'' @ concat (map print_02x s))"
proof -
  obtain k where "plain_loop s (length s) 0 = Ret k" and "k = length s \<longleftrightarrow> list_all plain_octet s"
    using plain_loop_all [of 0 s] by auto
  then show ?thesis
    by (auto simp: ReadConfig_saveOctetString_def rd_octets_def)
qed

text \<open>What a reader may hand over as \<open>*str\<close>: nothing, or an object with room for the octets.\<close>

definition reads_into :: "(nat \<Rightarrow> bool) \<Rightarrow> string option \<Rightarrow> nat \<Rightarrow> nat \<Rightarrow> bool" where
  "reads_into malloc str len n \<longleftrightarrow>
     (case str of None \<Rightarrow> malloc (n + 1) \<and> n < UTILITIES_MAX_BUFFER
      | Some old \<Rightarrow> n < len \<and> len \<le> length old \<and> len < 2 ^ 31)"

definition result_in :: "string option \<Rightarrow> string \<Rightarrow> string" where
  "result_in str bytes = bytes @ NUL # (case str of None \<Rightarrow> [] | Some old \<Rightarrow> drop (length bytes + 1) old)"

lemma overwrite_fits:
  "reads_into malloc str len (length s) \<Longrightarrow> overwrite str (s @ [NUL]) = Ret (result_in str s)"
  by (auto simp: reads_into_def overwrite_def result_in_def split: option.splits)

lemma int_of_size_small: "n < 2 ^ 31 \<Longrightarrow> int_of_size n = int n"
proof -
  assume "n < 2 ^ 31"
  then have "unat (of_nat n :: u32) = n"
    by (simp add: unat_of_nat take_bit_nat_eq_self)
  moreover have "unat (of_nat n :: u32) < 2 ^ (LENGTH(32) - 1)"
    using \<open>n < 2 ^ 31\<close> calculation by simp
  ultimately show ?thesis
    by (simp only: int_of_size_def sint_nonneg)
qed

lemma str_len_plain: "NUL \<notin> set s \<Longrightarrow> str_len (s @ NUL # t) = Ret (length s)"
proof -
  assume "NUL \<notin> set s"
  then have "takeWhile (\<lambda>c. c \<noteq> NUL) (s @ NUL # t) = s"
    by (induction s) auto
  then show ?thesis
    by (simp add: str_len_def)
qed

lemma length_hex_text [simp]: "length (concat (map print_02x s)) = 2 * length s"
  by (induction s) auto

lemma read_hex_saved:
  assumes "reads_into malloc str len (length s)" and "rest = [] \<or> isspace_c (hd rest)"
  shows "read_hex malloc (concat (map print_02x s) @ rest) str len =
    Ret (skip_white rest, result_in str s, length s)"
proof -
  define h where "h = concat (map print_02x s)"
  have lh: "length h = 2 * length s"
    by (simp add: h_def)
  have "\<forall>c \<in> set h. \<not> isspace_c c"
    using print_02x_not_space by (auto simp: h_def)
  then have il: "(case skip_not_white (h @ rest) of Some r \<Rightarrow> length (h @ rest) - length r
      | None \<Rightarrow> length (h @ rest)) = 2 * length s"
    using skip_not_white_append [OF _ assms(2)] lh by auto
  have "scan_pairs (length s) (h @ rest) = (s, True)"
    by (simp add: h_def)
  moreover have "drop (2 * length s) (h @ rest) = rest"
    using lh by simp
  ultimately show ?thesis
    using overwrite_fits [OF assms(1)] assms(1)
    unfolding h_def [symmetric] read_hex_def il
    by (cases str) (simp_all add: reads_into_def Let_def)
qed

lemma read_word_saved:
  assumes fits: "reads_into malloc str len (length s)" and plain: "list_all plain_octet s"
  shows "read_word malloc (CHR 0x22 # s @ CHR 0x22 # rest) str len =
    Ret (skip_white rest, result_in str s, length s)"
proof -
  have a: "\<And>c. c \<in> set s \<Longrightarrow> plain_octet c"
    using plain by (simp add: list_all_iff)
  have q: "\<forall>c \<in> set s. c \<noteq> CHR 0x22 \<and> c \<noteq> CHR 0x5C"
    by (intro ballI conjI plain_octetD(1,2) a)
  have z: "NUL \<notin> set s"
    using plain_octetD(3) [OF a, of NUL] by auto
  show ?thesis
  proof (cases str)
    case None
    with fits have "int (length s) < int UTILITIES_MAX_BUFFER" "malloc (length s + 1)"
      by (auto simp: reads_into_def)
    then show ?thesis
      using None str_len_plain [OF z, of "[]"] copy_nword_quoted [OF q]
      by (simp only: read_word_def result_in_def option.case prod.case obind.simps if_True) simp
  next
    case (Some old)
    with fits have "int (length s) < int_of_size len" "len \<noteq> 0"
      by (auto simp: reads_into_def int_of_size_small)
    then show ?thesis
      using Some overwrite_fits [OF fits] str_len_plain [OF z] copy_nword_quoted [OF q]
      by (simp only: read_word_def result_in_def option.case prod.case obind.simps if_True simp_thms)
  qed
qed

lemma octets_roundtrip:
  assumes "reads_into malloc str len (length s)" and "rest = [] \<or> isspace_c (hd rest)"
    and "ReadConfig_saveOctetString (Some s) (length s) = Ret text"
  shows "ReadConfig_readOctetStringConst malloc (Some (text @ rest)) str len =
    Ret (skip_white rest, result_in str s, length s)"
proof (cases "s \<noteq> [] \<and> list_all plain_octet s")
  case True
  then have t: "text = CHR 0x22 # s @ [CHR 0x22]"
    using assms(3) by (simp add: save_octets)
  have "\<not> strcasecmp_eq (take 2 (text @ rest)) ''0x''"
    using True by (cases s) (auto simp: t strcasecmp_eq_def tolower_c_def)
  then show ?thesis
    using True read_word_saved [OF assms(1)] by (simp add: ReadConfig_readOctetStringConst_def t)
next
  case False
  then have t: "text = ''0x'' @ concat (map print_02x s)"
    using assms(3) by (auto simp: save_octets)
  have "strcasecmp_eq (take 2 (text @ rest)) ''0x''"
    by (simp add: t strcasecmp_eq_def)
  then show ?thesis
    using read_hex_saved [OF assms(1, 2)] by (simp add: ReadConfig_readOctetStringConst_def t)
qed

lemma save_examples:
  "ReadConfig_saveOctetString (Some [NUL, CHR 0xFF]) (length [NUL, CHR 0xFF]) = Ret ''0x00ff''"
  "ReadConfig_saveOctetString (Some ''a'') (length ''a'') = Ret [CHR 0x22, CHR ''a'', CHR 0x22]"
  unfolding save_octets
  by (simp_all add: plain_octet_def isalpha_c_def isdigit_c_def print_02x_def xdigit_def char_of_def bit_simps)

text \<open>
  C33: An octet string saved in a configuration line is read back octet for octet, whatever its
  octets and whatever follows it after white space: the reader, allocating or given an object
  with room for the octets and a NUL, delivers the octets, a terminating NUL and their number,
  stays inside the object, and returns a pointer to the next word of the line.
\<close>

theorem conf_octets_roundtrip:
  assumes "ReadConfig_saveOctetString (Some s) (length s) = Ret text"
    and "reads_into malloc str len (length s)"
    and "rest = [] \<or> isspace_c (hd rest)"
  shows "ReadConfig_readOctetStringConst malloc (Some (text @ rest)) str len =
    Ret (ReadConfig_skipWhiteConst (Some rest), result_in str s, length s)"
  using octets_roundtrip [OF assms(2,3,1)] by (simp add: ReadConfig_skipWhiteConst_def)

theorem conf_octets_roundtrip_witness:
  "ReadConfig_readOctetStringConst (\<lambda>_. True) (Some (''0x00ff'' @ '' 0x'')) (Some ''abcd'') 4 =
     Ret (ReadConfig_skipWhiteConst (Some '' 0x''), result_in (Some ''abcd'') [NUL, CHR 0xFF], 2) \<and>
   ReadConfig_readOctetStringConst (\<lambda>_. True) (Some ([CHR 0x22, CHR ''a'', CHR 0x22] @ [])) None 0 =
     Ret (ReadConfig_skipWhiteConst (Some []), result_in None ''a'', 1)"
  using conf_octets_roundtrip [OF save_examples(1), of "\<lambda>_. True" "Some ''abcd''" 4 "'' 0x''"]
    conf_octets_roundtrip [OF save_examples(2), of "\<lambda>_. True" None 0 "[]"]
  by (simp add: reads_into_def isspace_c_def UTILITIES_MAX_BUFFER_def numeral_2_eq_2 [symmetric])

end
