(* ===== verification/DefaultStore.thy ===== *)
theory DefaultStore
  imports ConfText "HOL-Library.AList"
begin

text \<open>
  The store of default values (src/Firmware/Core/System/Util/DefaultStore.c): integers, bit-packed
  booleans, owned strings and pointers in matrices indexed by a store and a registry identifier,
  and the table of the configuration tokens that set them.

  Strings are objects of the heap: \<open>heap\<close> lists the live objects by address, the matrix holds the
  addresses, 0 being NULL. \<open>alloc\<close> is the allocator: the address of a new object beside those of
  a heap, or 0. A \<open>free\<close> or a read of an address that is not live is a \<open>Crash\<close>.
\<close>

section \<open>State\<close>

type_synonym addr = nat
type_synonym heap = "(addr \<times> string) list"

record ds_config =
  cfg_asnType :: u8
  cfg_storeName :: string
  cfg_token :: string
  cfg_storeId :: int
  cfg_registryId :: int

record store =
  configs :: "ds_config list"
  configs_dangling :: bool
  integers :: "int \<times> int \<Rightarrow> 32 word"
  booleans :: "int \<times> int \<Rightarrow> 8 word"
  strings :: "int \<times> int \<Rightarrow> addr"
  voids :: "int \<times> int \<Rightarrow> addr"
  heap :: heap

definition DEFAULTSTORE_MAX_IDS :: int where "DEFAULTSTORE_MAX_IDS = 3"
definition DEFAULTSTORE_MAX_SUBIDS :: int where "DEFAULTSTORE_MAX_SUBIDS = 48"

definition ErrorCode_GENERR :: "32 word" where "ErrorCode_GENERR = - 1"
definition ErrorCode_SUCCESS :: "32 word" where "ErrorCode_SUCCESS = 0"

definition DefaultStore_isParamsOk :: "int \<Rightarrow> int \<Rightarrow> bool" where
  "DefaultStore_isParamsOk storeId registryId \<longleftrightarrow>
     \<not> (storeId < 0 \<or> storeId \<ge> DEFAULTSTORE_MAX_IDS \<or>
        registryId < 0 \<or> registryId \<ge> DEFAULTSTORE_MAX_SUBIDS)"

section \<open>Booleans\<close>

text \<open>Eight booleans in a \<open>char\<close>; the masks are those of the code, cut to the width of a \<open>char\<close>.\<close>

definition raise_bit :: "int \<Rightarrow> 8 word \<Rightarrow> 8 word" where
  "raise_bit r b = b OR ucast (push_bit (nat (r mod 8)) (1 :: 32 word))"

definition clear_bit :: "int \<Rightarrow> 8 word \<Rightarrow> 8 word" where
  "clear_bit r b = b AND ucast (drop_bit (nat (7 - r mod 8)) (0xff7f :: 32 word))"

definition test_bit :: "int \<Rightarrow> 8 word \<Rightarrow> bool" where
  "test_bit r b \<longleftrightarrow> (scast b :: 32 word) AND push_bit (nat (r mod 8)) 1 \<noteq> 0"

definition DefaultStore_setBoolean :: "store \<Rightarrow> int \<Rightarrow> int \<Rightarrow> int \<Rightarrow> 32 word \<times> store" where
  "DefaultStore_setBoolean st storeId registryId value =
     (if \<not> DefaultStore_isParamsOk storeId registryId then (ErrorCode_GENERR, st)
      else let k = (storeId, registryId div 8); b = booleans st k in
        (ErrorCode_SUCCESS,
         st\<lparr>booleans := (booleans st)(k :=
              if value > 0 then raise_bit registryId b else clear_bit registryId b)\<rparr>))"

definition DefaultStore_toggleBoolean :: "store \<Rightarrow> int \<Rightarrow> int \<Rightarrow> 32 word \<times> store" where
  "DefaultStore_toggleBoolean st storeId registryId =
     (if \<not> DefaultStore_isParamsOk storeId registryId then (ErrorCode_GENERR, st)
      else let k = (storeId, registryId div 8); b = booleans st k in
        (ErrorCode_SUCCESS,
         st\<lparr>booleans := (booleans st)(k :=
              if \<not> test_bit registryId b then raise_bit registryId b
              else clear_bit registryId b)\<rparr>))"

definition DefaultStore_getBoolean :: "store \<Rightarrow> int \<Rightarrow> int \<Rightarrow> 32 word" where
  "DefaultStore_getBoolean st storeId registryId =
     (if \<not> DefaultStore_isParamsOk storeId registryId then ErrorCode_GENERR
      else if test_bit registryId (booleans st (storeId, registryId div 8)) then 1 else 0)"

section \<open>Integers and pointers\<close>

definition DefaultStore_setInt :: "store \<Rightarrow> int \<Rightarrow> int \<Rightarrow> 32 word \<Rightarrow> 32 word \<times> store" where
  "DefaultStore_setInt st storeId registryId value =
     (if \<not> DefaultStore_isParamsOk storeId registryId then (ErrorCode_GENERR, st)
      else (ErrorCode_SUCCESS, st\<lparr>integers := (integers st)((storeId, registryId) := value)\<rparr>))"

definition DefaultStore_getInt :: "store \<Rightarrow> int \<Rightarrow> int \<Rightarrow> 32 word" where
  "DefaultStore_getInt st storeId registryId =
     (if \<not> DefaultStore_isParamsOk storeId registryId then ErrorCode_GENERR
      else integers st (storeId, registryId))"

definition DefaultStore_setVoid :: "store \<Rightarrow> int \<Rightarrow> int \<Rightarrow> addr \<Rightarrow> 32 word \<times> store" where
  "DefaultStore_setVoid st storeId registryId value =
     (if \<not> DefaultStore_isParamsOk storeId registryId then (ErrorCode_GENERR, st)
      else (ErrorCode_SUCCESS, st\<lparr>voids := (voids st)((storeId, registryId) := value)\<rparr>))"

definition DefaultStore_getVoid :: "store \<Rightarrow> int \<Rightarrow> int \<Rightarrow> addr" where
  "DefaultStore_getVoid st storeId registryId =
     (if \<not> DefaultStore_isParamsOk storeId registryId then 0 else voids st (storeId, registryId))"

section \<open>Strings\<close>

definition free_cell :: "heap \<Rightarrow> addr \<Rightarrow> heap outcome" where
  "free_cell h p = (if p = 0 then Ret h
     else if map_of h p = None then Crash else Ret (AList.delete p h))"

definition strdup_cell :: "(heap \<Rightarrow> addr) \<Rightarrow> heap \<Rightarrow> addr \<Rightarrow> (addr \<times> heap) outcome" where
  "strdup_cell alloc h p = (case map_of h p of None \<Rightarrow> Crash
     | Some s \<Rightarrow> (let q = alloc h in Ret (if q = 0 then (0, h) else (q, (q, s) # h))))"

definition DefaultStore_setString ::
    "(heap \<Rightarrow> addr) \<Rightarrow> store \<Rightarrow> int \<Rightarrow> int \<Rightarrow> addr \<Rightarrow> (32 word \<times> store) outcome" where
  "DefaultStore_setString alloc st storeId registryId value =
     (if \<not> DefaultStore_isParamsOk storeId registryId then Ret (ErrorCode_GENERR, st)
      else let k = (storeId, registryId) in
        if strings st k = value then Ret (ErrorCode_SUCCESS, st)
        else obind (free_cell (heap st) (strings st k)) (\<lambda>h.
             obind (if value \<noteq> 0 then strdup_cell alloc h value else Ret (0, h)) (\<lambda>(p, h').
             Ret (ErrorCode_SUCCESS, st\<lparr>strings := (strings st)(k := p), heap := h'\<rparr>))))"

definition DefaultStore_getString :: "store \<Rightarrow> int \<Rightarrow> int \<Rightarrow> addr" where
  "DefaultStore_getString st storeId registryId =
     (if \<not> DefaultStore_isParamsOk storeId registryId then 0 else strings st (storeId, registryId))"

section \<open>Configuration tokens\<close>

definition DATATYPE_BOOLEAN :: u8 where "DATATYPE_BOOLEAN = 0"
definition DATATYPE_INTEGER :: u8 where "DATATYPE_INTEGER = 6"
definition DATATYPE_OCTETSTRING :: u8 where "DATATYPE_OCTETSTRING = 11"

text \<open>
  Registering a token appends it to the table; \<open>room\<close> says whether there is memory for the element.
  The handler itself is registered with the configuration reader. Clearing the store frees the
  elements of the table and keeps the pointer to the first of them: \<open>configs_dangling\<close> says that
  the pointer is not NULL and its element is gone.
\<close>

definition DefaultStore_registerConfig ::
    "bool \<Rightarrow> store \<Rightarrow> u8 \<Rightarrow> string \<Rightarrow> string \<Rightarrow> int \<Rightarrow> int \<Rightarrow> (32 word \<times> store) outcome" where
  "DefaultStore_registerConfig room st asnType storeName token storeId registryId =
     (if \<not> DefaultStore_isParamsOk storeId registryId \<or> \<not> room then Ret (ErrorCode_GENERR, st)
      else if configs_dangling st then Crash
      else Ret (ErrorCode_SUCCESS,
            st\<lparr>configs := configs st @ [\<lparr>cfg_asnType = asnType, cfg_storeName = storeName,
                 cfg_token = token, cfg_storeId = storeId, cfg_registryId = registryId\<rparr>]\<rparr>))"

definition delimiters :: string where "delimiters = [CHR 0x20, CHR 0x09, CHR 0x0A]"

text \<open>A line without a word makes the code read through the NULL that \<open>strtok_r\<close> returns.\<close>

definition DefaultStore_parseBoolean :: "string \<Rightarrow> int outcome" where
  "DefaultStore_parseBoolean line =
     (case strtok_r line delimiters of None \<Rightarrow> Crash
      | Some (value, _) \<Rightarrow>
          if strcasecmp_eq value ''yes'' \<or> strcasecmp_eq value ''true'' then Ret 1
          else if strcasecmp_eq value ''no'' \<or> strcasecmp_eq value ''false'' then Ret 0
          else case strtol10 value of (v, endptr) \<Rightarrow>
            let itmp = sint (word_of_int v :: 32 word) in
            if endptr \<noteq> [] \<or> itmp < 0 \<or> itmp > 1 then Ret (- 1) else Ret itmp)"

text \<open>
  The handler of a configuration line; the word of an octet string lies in the caller's memory, in the
  buffer on the stack or in the line, at an address that is no object of the heap.
\<close>

definition caller_addr :: "heap \<Rightarrow> addr" where
  "caller_addr h = Suc (sum_list (map fst h))"

definition set_text :: "(heap \<Rightarrow> addr) \<Rightarrow> store \<Rightarrow> int \<Rightarrow> int \<Rightarrow> string \<Rightarrow> (32 word \<times> store) outcome" where
  "set_text alloc st storeId registryId text =
     (let p = caller_addr (heap st) in
      obind (DefaultStore_setString alloc (st\<lparr>heap := (p, text) # heap st\<rparr>) storeId registryId p)
        (\<lambda>(rc, st'). Ret (rc, st'\<lparr>heap := AList.delete p (heap st')\<rparr>)))"

definition DefaultStore_handlerConfig ::
    "(heap \<Rightarrow> addr) \<Rightarrow> store \<Rightarrow> string \<Rightarrow> string \<Rightarrow> store outcome" where
  "DefaultStore_handlerConfig alloc st token line =
     (if configs_dangling st then Crash
      else case find (\<lambda>e. cfg_token e = token) (configs st) of
        None \<Rightarrow> Ret st
      | Some e \<Rightarrow>
          if cfg_asnType e = DATATYPE_BOOLEAN then
            obind (DefaultStore_parseBoolean line) (\<lambda>itmp.
            Ret (if itmp \<noteq> - 1
                 then snd (DefaultStore_setBoolean st (cfg_storeId e) (cfg_registryId e) itmp)
                 else st))
          else if cfg_asnType e = DATATYPE_INTEGER then
            (case strtok_r line delimiters of None \<Rightarrow> Crash
             | Some (value, _) \<Rightarrow> (case strtol10 value of (v, endptr) \<Rightarrow>
                 Ret (if endptr \<noteq> [] then st
                      else snd (DefaultStore_setInt st (cfg_storeId e) (cfg_registryId e)
                                  (word_of_int v)))))
          else if cfg_asnType e = DATATYPE_OCTETSTRING then
            obind (set_text alloc st (cfg_storeId e) (cfg_registryId e)
              (if line \<noteq> [] \<and> hd line = CHR 0x22
               then takeWhile (\<lambda>c. c \<noteq> NUL) (snd (copy_nword line (int UTILITIES_MAX_BUFFER)))
               else line)) (\<lambda>(_, st'). Ret st')
          else Ret st)"

text \<open>Clearing frees the strings, slot by slot; numbers, booleans and pointers stay.\<close>

definition slots :: "(int \<times> int) list" where
  "slots = List.product [0 .. DEFAULTSTORE_MAX_IDS - 1] [0 .. DEFAULTSTORE_MAX_SUBIDS - 1]"

fun clear_slots :: "(int \<times> int) list \<Rightarrow> store \<Rightarrow> store outcome" where
  "clear_slots [] st = Ret st"
| "clear_slots (k # ks) st =
     (if strings st k \<noteq> 0 then
        obind (free_cell (heap st) (strings st k)) (\<lambda>h.
          clear_slots ks (st\<lparr>strings := (strings st)(k := 0), heap := h\<rparr>))
      else clear_slots ks st)"

definition DefaultStore_clear :: "store \<Rightarrow> store outcome" where
  "DefaultStore_clear st =
     (if configs_dangling st then Crash
      else clear_slots slots (st\<lparr>configs := [], configs_dangling := (configs st \<noteq> [])\<rparr>))"

end
