(* ===== verification/StoreProps.thy ===== *)
theory StoreProps
  imports DefaultStore
begin

text \<open>
  What the store of default values promises: it behaves as four independent maps from the
  identifiers to values, the strings by content, whatever sequence of calls is made; its strings
  are live, owned by one slot each, and freed once.
\<close>

section \<open>Bits of a packed boolean\<close>

lemma bit_scast_8: "n < 8 \<Longrightarrow> bit (scast (b :: 8 word) :: 32 word) n \<longleftrightarrow> bit b n"
  by (simp add: bit_simps)

lemma test_bit_iff: "test_bit r b \<longleftrightarrow> bit b (nat (r mod 8))"
proof -
  have n: "nat (r mod 8) < 8"
    by simp
  have "(scast b :: 32 word) AND push_bit (nat (r mod 8)) 1 \<noteq> 0 \<longleftrightarrow> bit (scast b :: 32 word) (nat (r mod 8))"
    by (metis and_exp_eq_0_iff_not_bit mult.right_neutral push_bit_eq_mult mult.commute)
  then show ?thesis
    unfolding test_bit_def using bit_scast_8 [OF n] by simp
qed

lemma less_8_nat: "(n :: nat) < 8 \<Longrightarrow> n \<in> {0, 1, 2, 3, 4, 5, 6, 7}"
  by auto

lemma clear_mask: "n < 8 \<Longrightarrow> ucast (drop_bit (7 - n) (0xff7f :: 32 word)) = NOT (push_bit n (1 :: 8 word))"
  by (drule less_8_nat) (elim insertE emptyE; simp)

lemma bit_raise: "bit (raise_bit r b) n \<longleftrightarrow> bit b n \<or> n = nat (r mod 8)"
proof -
  have "nat (r mod 8) < 8"
    by simp
  then show ?thesis
    by (auto simp: raise_bit_def bit_simps)
qed

lemma bit_clear: "bit (clear_bit r b) n \<longleftrightarrow> bit b n \<and> n \<noteq> nat (r mod 8)"
proof -
  have n: "nat (r mod 8) < 8"
    by simp
  moreover have "nat (7 - r mod 8) = 7 - nat (r mod 8)"
    by simp
  ultimately show ?thesis
    using bit_imp_le_length [of b n]
    by (auto simp: clear_bit_def clear_mask bit_simps)
qed

section \<open>Abstraction\<close>

record view =
  v_bool :: "int \<times> int \<Rightarrow> bool"
  v_int :: "int \<times> int \<Rightarrow> 32 word"
  v_void :: "int \<times> int \<Rightarrow> addr"
  v_text :: "int \<times> int \<Rightarrow> string option"
  v_tokens :: "ds_config list"
  v_dangling :: bool

definition text_at :: "store \<Rightarrow> int \<times> int \<Rightarrow> string option" where
  "text_at st k = (if strings st k = 0 then None else map_of (heap st) (strings st k))"

definition store_view :: "store \<Rightarrow> view" where
  "store_view st = \<lparr>v_bool = (\<lambda>(i, j). test_bit j (booleans st (i, j div 8))), v_int = integers st,
     v_void = voids st, v_text = text_at st, v_tokens = configs st, v_dangling = configs_dangling st\<rparr>"

text \<open>The strings: each in a live object of its own.\<close>

definition owned :: "store \<Rightarrow> bool" where
  "owned st \<longleftrightarrow> distinct (map fst (heap st)) \<and>
     (\<forall>k. strings st k \<noteq> 0 \<longrightarrow> strings st k \<in> fst ` set (heap st)) \<and>
     (\<forall>k k'. strings st k = strings st k' \<longrightarrow> strings st k \<noteq> 0 \<longrightarrow> k = k') \<and>
     (\<forall>i j. \<not> DefaultStore_isParamsOk i j \<longrightarrow> strings st (i, j) = 0)"

definition fresh_alloc :: "(heap \<Rightarrow> addr) \<Rightarrow> bool" where
  "fresh_alloc alloc \<longleftrightarrow> (\<forall>h. alloc h = 0 \<or> alloc h \<notin> fst ` set h)"

definition enough_memory :: "(heap \<Rightarrow> addr) \<Rightarrow> bool" where
  "enough_memory alloc \<longleftrightarrow> (\<forall>h. alloc h \<noteq> 0)"

text \<open>
  The calls a program makes: the setters, where a text is handed over in an object of the caller, or as
  NULL, or is the string that some slot gives out; the registration of a token, with memory for it or
  not; a line of the configuration for a token; and clearing. The last two are \<open>void\<close> functions, which
  count as a success.
\<close>

datatype store_op =
  Set_bool int int int
| Toggle_bool int int
| Set_int int int "32 word"
| Set_void int int addr
| Set_text int int string
| Drop_text int int
| Copy_text int int int int
| Register bool u8 string string int int
| Config_line string string
| Clear

fun run_op :: "(heap \<Rightarrow> addr) \<Rightarrow> store_op \<Rightarrow> store \<Rightarrow> (32 word \<times> store) outcome" where
  "run_op alloc (Set_bool i j v) st = Ret (DefaultStore_setBoolean st i j v)"
| "run_op alloc (Toggle_bool i j) st = Ret (DefaultStore_toggleBoolean st i j)"
| "run_op alloc (Set_int i j v) st = Ret (DefaultStore_setInt st i j v)"
| "run_op alloc (Set_void i j v) st = Ret (DefaultStore_setVoid st i j v)"
| "run_op alloc (Set_text i j t) st = set_text alloc st i j t"
| "run_op alloc (Drop_text i j) st = DefaultStore_setString alloc st i j 0"
| "run_op alloc (Copy_text i j i' j') st =
     DefaultStore_setString alloc st i j (DefaultStore_getString st i' j')"
| "run_op alloc (Register memory type name token i j) st =
     DefaultStore_registerConfig memory st type name token i j"
| "run_op alloc (Config_line token line) st =
     obind (DefaultStore_handlerConfig alloc st token line) (\<lambda>st'. Ret (ErrorCode_SUCCESS, st'))"
| "run_op alloc Clear st = obind (DefaultStore_clear st) (\<lambda>st'. Ret (ErrorCode_SUCCESS, st'))"

text \<open>
  The specification of the setters: \<open>m\<close> says whether there is memory for a copy of a text. A text that
  cannot be copied is gone, although the call is a success; a slot that is given its own string keeps it.
\<close>

fun op_key :: "store_op \<Rightarrow> (int \<times> int) option" where
  "op_key (Set_bool i j v) = Some (i, j)"
| "op_key (Toggle_bool i j) = Some (i, j)"
| "op_key (Set_int i j v) = Some (i, j)"
| "op_key (Set_void i j v) = Some (i, j)"
| "op_key (Set_text i j t) = Some (i, j)"
| "op_key (Drop_text i j) = Some (i, j)"
| "op_key (Copy_text i j i' j') = Some (i, j)"
| "op_key _ = None"

fun spec_op :: "bool \<Rightarrow> store_op \<Rightarrow> view \<Rightarrow> view" where
  "spec_op m (Set_bool i j v) w = w\<lparr>v_bool := (v_bool w)((i, j) := v > 0)\<rparr>"
| "spec_op m (Toggle_bool i j) w = w\<lparr>v_bool := (v_bool w)((i, j) := \<not> v_bool w (i, j))\<rparr>"
| "spec_op m (Set_int i j v) w = w\<lparr>v_int := (v_int w)((i, j) := v)\<rparr>"
| "spec_op m (Set_void i j v) w = w\<lparr>v_void := (v_void w)((i, j) := v)\<rparr>"
| "spec_op m (Set_text i j t) w = w\<lparr>v_text := (v_text w)((i, j) := if m then Some t else None)\<rparr>"
| "spec_op m (Drop_text i j) w = w\<lparr>v_text := (v_text w)((i, j) := None)\<rparr>"
| "spec_op m (Copy_text i j i' j') w =
     (if (i, j) = (i', j') then w
      else w\<lparr>v_text := (v_text w)((i, j) := if m then v_text w (i', j') else None)\<rparr>)"
| "spec_op m _ w = w"

definition spec_set :: "bool \<Rightarrow> store_op \<Rightarrow> view \<Rightarrow> 32 word \<times> view" where
  "spec_set m c w = (case op_key c of None \<Rightarrow> (ErrorCode_SUCCESS, w) | Some (i, j) \<Rightarrow>
     if DefaultStore_isParamsOk i j then (ErrorCode_SUCCESS, spec_op m c w) else (ErrorCode_GENERR, w))"

text \<open>The call that a line asks for when its token is registered; None where the line is refused.\<close>

definition line_op :: "ds_config \<Rightarrow> string \<Rightarrow> store_op option outcome" where
  "line_op e line =
     (let i = cfg_storeId e; j = cfg_registryId e in
      if cfg_asnType e = DATATYPE_BOOLEAN then
        obind (DefaultStore_parseBoolean line) (\<lambda>v. Ret (if v = - 1 then None else Some (Set_bool i j v)))
      else if cfg_asnType e = DATATYPE_INTEGER then
        (case strtok_r line delimiters of None \<Rightarrow> Crash
         | Some (word, _) \<Rightarrow> (case strtol10 word of (v, rest) \<Rightarrow>
             Ret (if rest \<noteq> [] then None else Some (Set_int i j (word_of_int v)))))
      else if cfg_asnType e = DATATYPE_OCTETSTRING then
        Ret (Some (Set_text i j
          (if line \<noteq> [] \<and> hd line = CHR 0x22
           then takeWhile (\<lambda>c. c \<noteq> NUL) (snd (copy_nword line (int UTILITIES_MAX_BUFFER))) else line)))
      else Ret None)"

text \<open>
  The specification of every call: clearing forgets the texts and the tokens and leaves the table dangling
  where it had a token; from then on whatever looks into the table crashes.
\<close>

definition spec_step :: "bool \<Rightarrow> store_op \<Rightarrow> view \<Rightarrow> (32 word \<times> view) outcome" where
  "spec_step m c w =
     (case c of
        Register memory type name token i j \<Rightarrow>
          if \<not> DefaultStore_isParamsOk i j \<or> \<not> memory then Ret (ErrorCode_GENERR, w)
          else if v_dangling w then Crash
          else Ret (ErrorCode_SUCCESS, w\<lparr>v_tokens := v_tokens w @ [\<lparr>cfg_asnType = type, cfg_storeName = name,
                 cfg_token = token, cfg_storeId = i, cfg_registryId = j\<rparr>]\<rparr>)
      | Config_line token line \<Rightarrow>
          if v_dangling w then Crash
          else (case find (\<lambda>e. cfg_token e = token) (v_tokens w) of
                  None \<Rightarrow> Ret (ErrorCode_SUCCESS, w)
                | Some e \<Rightarrow> obind (line_op e line) (\<lambda>op. Ret (ErrorCode_SUCCESS,
                    case op of None \<Rightarrow> w | Some c' \<Rightarrow> snd (spec_set m c' w))))
      | Clear \<Rightarrow>
          if v_dangling w then Crash
          else Ret (ErrorCode_SUCCESS, w\<lparr>v_text := (\<lambda>_. None), v_tokens := [], v_dangling := v_tokens w \<noteq> []\<rparr>)
      | _ \<Rightarrow> Ret (spec_set m c w))"

fun run_ops :: "(heap \<Rightarrow> addr) \<Rightarrow> store_op list \<Rightarrow> store \<Rightarrow> (32 word list \<times> store) outcome" where
  "run_ops alloc [] st = Ret ([], st)"
| "run_ops alloc (c # cs) st =
     obind (run_op alloc c st) (\<lambda>(rc, st'). obind (run_ops alloc cs st') (\<lambda>(rcs, st''). Ret (rc # rcs, st'')))"

text \<open>Every call with its memory.\<close>

fun spec_steps :: "(bool \<times> store_op) list \<Rightarrow> view \<Rightarrow> (32 word list \<times> view) outcome" where
  "spec_steps [] w = Ret ([], w)"
| "spec_steps ((m, c) # cs) w =
     obind (spec_step m c w) (\<lambda>(rc, w'). obind (spec_steps cs w') (\<lambda>(rcs, w''). Ret (rc # rcs, w'')))"

section \<open>Simulation\<close>

lemma bool_write:
  assumes "\<And>n. bit b' n \<longleftrightarrow> (if n = nat (j mod 8) then v else bit (f (i, j div 8)) n)"
  shows "(\<lambda>(i', j'). test_bit j' ((f((i, j div 8) := b')) (i', j' div 8))) =
    (\<lambda>(i', j'). test_bit j' (f (i', j' div 8)))((i, j) := v)"
proof -
  have "j' = j \<longleftrightarrow> j' div 8 = j div 8 \<and> j' mod 8 = j mod 8" for j'
    by (metis div_mult_mod_eq)
  then have "j' = j \<longleftrightarrow> j' div 8 = j div 8 \<and> nat (j' mod 8) = nat (j mod 8)" for j'
    by (simp add: eq_nat_nat_iff)
  then show ?thesis
    using assms by (auto simp: fun_eq_iff test_bit_iff)
qed

lemma text_at_update [simp]:
  "text_at (st\<lparr>booleans := b\<rparr>) = text_at st" "text_at (st\<lparr>integers := n\<rparr>) = text_at st"
  "text_at (st\<lparr>voids := v\<rparr>) = text_at st"
  by (auto simp: text_at_def fun_eq_iff)

lemma abs_booleans:
  assumes "\<And>n. bit b' n \<longleftrightarrow> (if n = nat (j mod 8) then v else bit (booleans st (i, j div 8)) n)"
  shows "store_view (st\<lparr>booleans := (booleans st)((i, j div 8) := b')\<rparr>) =
    (store_view st)\<lparr>v_bool := (v_bool (store_view st))((i, j) := v)\<rparr>"
  using bool_write [of b' j v "booleans st" i, OF assms] by (simp add: store_view_def)

lemma abs_raise [simp]: "store_view (st\<lparr>booleans := (booleans st)((i, j div 8) := raise_bit j (booleans st (i, j div 8)))\<rparr>) =
    (store_view st)\<lparr>v_bool := (v_bool (store_view st))((i, j) := True)\<rparr>"
  by (rule abs_booleans) (auto simp: bit_raise)

lemma abs_clear [simp]: "store_view (st\<lparr>booleans := (booleans st)((i, j div 8) := clear_bit j (booleans st (i, j div 8)))\<rparr>) =
    (store_view st)\<lparr>v_bool := (v_bool (store_view st))((i, j) := False)\<rparr>"
  by (rule abs_booleans) (auto simp: bit_clear)

text \<open>Everything but the strings: the state changes by the specification, the heap not at all.\<close>

definition numeric :: "store_op \<Rightarrow> bool" where
  "numeric c \<longleftrightarrow> (case c of Set_bool _ _ _ \<Rightarrow> True | Toggle_bool _ _ \<Rightarrow> True
     | Set_int _ _ _ \<Rightarrow> True | Set_void _ _ _ \<Rightarrow> True | _ \<Rightarrow> False)"

lemma run_numeric:
  assumes "numeric c"
  obtains st' where "run_op alloc c st = Ret (fst (spec_set m c (store_view st)), st')"
    and "store_view st' = snd (spec_set m c (store_view st))" and "strings st' = strings st" and "heap st' = heap st"
proof -
  have vb: "v_bool (store_view st) (i, j) = test_bit j (booleans st (i, j div 8))" for i j
    by (simp add: store_view_def)
  have "\<exists>st'. run_op alloc c st = Ret (fst (spec_set m c (store_view st)), st') \<and>
      store_view st' = snd (spec_set m c (store_view st)) \<and> strings st' = strings st \<and> heap st' = heap st"
    using assms
    by (cases c) (simp_all add: numeric_def spec_set_def DefaultStore_setBoolean_def
      DefaultStore_toggleBoolean_def DefaultStore_setInt_def DefaultStore_setVoid_def Let_def vb
      fun_upd_idem, simp_all add: store_view_def)
  then show thesis
    using that by blast
qed

lemma owned_cong: "strings st' = strings st \<Longrightarrow> heap st' = heap st \<Longrightarrow> owned st' \<longleftrightarrow> owned st"
  by (simp add: owned_def)

text \<open>
  A string: the old object of the slot is freed and the new one allocated, whether the argument
  is NULL, a live object of the caller or the string of some slot.
\<close>

lemma map_of_delete: "map_of (AList.delete k h) = (map_of h)(k := None)"
  by (rule AList.delete_conv')

lemma ownedD:
  assumes "owned st"
  shows "distinct (map fst (heap st))"
    and "strings st k \<noteq> 0 \<Longrightarrow> strings st k \<in> fst ` set (heap st)"
    and "strings st k = strings st k' \<Longrightarrow> strings st k \<noteq> 0 \<Longrightarrow> k = k'"
    and "\<not> DefaultStore_isParamsOk i j \<Longrightarrow> strings st (i, j) = 0"
  using assms unfolding owned_def by blast+

lemma keys_delete [simp]: "fst ` set (AList.delete p h) = fst ` set h - {p}"
  by (simp only: dom_map_of_conv_image_fst [symmetric] map_of_delete) auto

text \<open>
  A slot gives up its string and takes over the object at \<open>q\<close>, new in the heap, or nothing.
\<close>

lemma owned_replace:
  assumes "owned st" and "DefaultStore_isParamsOk i j"
    and "h = (if strings st (i, j) = 0 then heap st else AList.delete (strings st (i, j)) (heap st))"
    and "if q = 0 then h' = h else q \<notin> fst ` set h \<and> h' = (q, t) # h"
  defines "st' \<equiv> st\<lparr>strings := (strings st)((i, j) := q), heap := h'\<rparr>"
  shows "owned st'"
    and "store_view st' = (store_view st)\<lparr>v_text := (text_at st)((i, j) := if q = 0 then None else Some t)\<rparr>"
    and "p \<noteq> 0 \<Longrightarrow> p \<in> fst ` set (heap st) \<Longrightarrow> (\<And>k. strings st k \<noteq> p) \<Longrightarrow>
      p \<in> fst ` set (heap st') \<and> map_of (heap st') p = map_of (heap st) p \<and> (\<forall>k. strings st' k \<noteq> p)"
proof -
  let ?p = "strings st (i, j)"
  note o = ownedD [OF assms(1)]
  have keys: "fst ` set h = (if ?p = 0 then fst ` set (heap st) else fst ` set (heap st) - {?p})"
    by (simp add: assms(3))
  have dist: "distinct (map fst h')"
    using o(1) assms(3,4) by (auto simp: AList.distinct_delete split: if_splits)
  have other: "strings st k \<in> fst ` set h" if "k \<noteq> (i, j)" and "strings st k \<noteq> 0" for k
    using o(2) [OF that(2)] o(3) [of k "(i, j)"] that by (auto simp: keys)
  then have live: "strings st' k \<in> fst ` set h'" if "strings st' k \<noteq> 0" for k
    using that assms(4) by (auto simp: st'_def split: if_splits)
  have inj: "k = k'" if "strings st' k = strings st' k'" and "strings st' k \<noteq> 0" for k k'
    using that o(3) [of k k'] other [of k] other [of k'] assms(4)
    by (auto simp: st'_def split: if_splits)
  show "owned st'"
  proof -
    have "heap st' = h'" and "\<not> DefaultStore_isParamsOk a b \<Longrightarrow> strings st' (a, b) = 0" for a b
      using o(4) [of a b] assms(2) by (auto simp: st'_def)
    then show ?thesis
      unfolding owned_def using dist live inj by metis
  qed
  have content: "map_of h' x = map_of (heap st) x" if "x \<in> fst ` set h" for x
    using that assms(3,4) keys by (auto simp: map_of_delete split: if_splits)
  have "text_at st' k = ((text_at st)((i, j) := if q = 0 then None else Some t)) k" for k
    using content [OF other, of k] assms(4) by (auto simp: text_at_def st'_def split: if_splits)
  then show "store_view st' = (store_view st)\<lparr>v_text := (text_at st)((i, j) := if q = 0 then None else Some t)\<rparr>"
    by (simp add: store_view_def fun_eq_iff) (simp add: st'_def)
  show "p \<in> fst ` set (heap st') \<and> map_of (heap st') p = map_of (heap st) p \<and> (\<forall>k. strings st' k \<noteq> p)"
    if "p \<noteq> 0" and "p \<in> fst ` set (heap st)" and "\<And>k. strings st k \<noteq> p"
  proof -
    have "p \<in> fst ` set h"
      using that(2) that(3) [of "(i, j)"] unfolding keys by auto
    then show ?thesis
      using content [of p] that(1,3) assms(4) by (auto simp: st'_def split: if_splits)
  qed
qed

lemma setString_owned:
  assumes st: "owned st" and alloc: "fresh_alloc alloc" and ok: "DefaultStore_isParamsOk i j"
    and live: "value \<noteq> 0 \<Longrightarrow> value \<in> fst ` set (heap st)"
  obtains m st' where "enough_memory alloc \<or> strings st (i, j) = value \<longrightarrow> m" and "DefaultStore_setString alloc st i j value = Ret (ErrorCode_SUCCESS, st')"
    and "owned st'" and "store_view st' = (store_view st)\<lparr>v_text := (text_at st)((i, j) :=
        if value = 0 \<or> \<not> m then None else map_of (heap st) value)\<rparr>"
    and "\<And>p. p \<noteq> 0 \<Longrightarrow> p \<in> fst ` set (heap st) \<Longrightarrow> (\<And>k. strings st k \<noteq> p) \<Longrightarrow>
        p \<in> fst ` set (heap st') \<and> map_of (heap st') p = map_of (heap st) p \<and> (\<forall>k. strings st' k \<noteq> p)"
proof (cases "strings st (i, j) = value")
  case True
  then have "text_at st (i, j) = (if value = 0 then None else map_of (heap st) value)"
    by (simp add: text_at_def)
  then have "(store_view st)\<lparr>v_text := (text_at st)((i, j) :=
        if value = 0 then None else map_of (heap st) value)\<rparr> = store_view st"
    by (simp add: store_view_def fun_upd_idem)
  moreover have "DefaultStore_setString alloc st i j value = Ret (ErrorCode_SUCCESS, st)"
    using ok True by (simp add: DefaultStore_setString_def)
  ultimately show ?thesis
    using that [of True st] st by auto
next
  case False
  define h where "h = (if strings st (i, j) = 0 then heap st else AList.delete (strings st (i, j)) (heap st))"
  have "map_of (heap st) (strings st (i, j)) = None \<Longrightarrow> strings st (i, j) = 0"
    using ownedD(2) [OF st, of "(i, j)"] unfolding map_of_eq_None_iff by blast
  then have free: "free_cell (heap st) (strings st (i, j)) = Ret h"
    by (simp add: free_cell_def h_def)
  show ?thesis
  proof (cases "value = 0")
    case True
    have "DefaultStore_setString alloc st i j value =
        Ret (ErrorCode_SUCCESS, st\<lparr>strings := (strings st)((i, j) := 0), heap := h\<rparr>)"
      using ok False True free by (simp add: DefaultStore_setString_def)
    then show ?thesis
      using that [of True] owned_replace [OF st ok h_def, of 0 h] True by simp
  next
    case nonzero: False
    then obtain t where t: "map_of (heap st) value = Some t"
      using live by (metis map_of_eq_None_iff not_None_eq)
    have "map_of h value = Some t"
      using t False by (auto simp: h_def map_of_delete)
    define h' where "h' = (if alloc h = 0 then h else (alloc h, t) # h)"
    define st' where "st' = st\<lparr>strings := (strings st)((i, j) := alloc h), heap := h'\<rparr>"
    have "if alloc h = 0 then h' = h else alloc h \<notin> fst ` set h \<and> h' = (alloc h, t) # h"
      using alloc [unfolded fresh_alloc_def, rule_format, of h] by (cases "alloc h = 0") (simp_all add: h'_def)
    note r = owned_replace [OF st ok h_def this, folded st'_def]
    show ?thesis
    proof (rule that)
      show "DefaultStore_setString alloc st i j value = Ret (ErrorCode_SUCCESS, st')"
        using ok False nonzero free \<open>map_of h value = Some t\<close>
        by (simp add: DefaultStore_setString_def strdup_cell_def Let_def st'_def h'_def)
      show "enough_memory alloc \<or> strings st (i, j) = value \<longrightarrow> alloc h \<noteq> 0"
        using False by (simp add: enough_memory_def)
    qed (use r nonzero t in simp_all)
  qed
qed

lemma setString_refused:
  "\<not> DefaultStore_isParamsOk i j \<Longrightarrow>
    DefaultStore_setString alloc st i j p = Ret (ErrorCode_GENERR, st)"
  by (simp add: DefaultStore_setString_def)

lemma delete_new: "p \<notin> fst ` set h \<Longrightarrow> AList.delete p ((p, t) # h) = h"
  by (simp add: AList.delete_idem)

text \<open>The caller's own object is live, belongs to no slot, and is the caller's again afterwards.\<close>

lemma caller_new: "caller_addr h \<noteq> 0" "caller_addr h \<notin> fst ` set h"
  using member_le_sum_list [of "caller_addr h" "map fst h"] by (auto simp: caller_addr_def)

lemma set_text_owned:
  assumes st: "owned st" and alloc: "fresh_alloc alloc"
  obtains m st' where "enough_memory alloc \<longrightarrow> m"
    and "set_text alloc st i j t = Ret (fst (spec_set m (Set_text i j t) (store_view st)), st')"
    and "owned st'" and "store_view st' = snd (spec_set m (Set_text i j t) (store_view st))"
proof -
  define p where "p = caller_addr (heap st)"
  define st1 where "st1 = st\<lparr>heap := (p, t) # heap st\<rparr>"
  have p: "p \<noteq> 0" "p \<notin> fst ` set (heap st)"
    using caller_new unfolding p_def by blast+
  then have none: "strings st k \<noteq> p" for k
    using ownedD(2) [OF st, of k] by metis
  have abs1: "store_view st1 = store_view st"
    using none by (auto simp: store_view_def text_at_def fun_eq_iff st1_def)
  have st1: "owned st1"
    using st p by (auto simp: owned_def st1_def)
  show thesis
  proof (cases "DefaultStore_isParamsOk i j")
    case False
    have "set_text alloc st i j t = Ret (ErrorCode_GENERR, st1\<lparr>heap := AList.delete p (heap st1)\<rparr>)"
      using False by (simp add: set_text_def Let_def p_def st1_def setString_refused)
    also have "st1\<lparr>heap := AList.delete p (heap st1)\<rparr> = st"
      using p by (simp add: st1_def AList.delete_idem)
    finally show ?thesis
      using that [of True st] st False by (simp add: spec_set_def)
  next
    case True
    have "p \<in> fst ` set (heap st1)" and "strings st1 k \<noteq> p" for k
      using none by (simp_all add: st1_def)
    then obtain m st2 where m: "enough_memory alloc \<longrightarrow> m"
      and s2: "DefaultStore_setString alloc st1 i j p = Ret (ErrorCode_SUCCESS, st2)"
      "owned st2" "store_view st2 = (store_view st1)\<lparr>v_text := (text_at st1)((i, j) :=
        if p = 0 \<or> \<not> m then None else map_of (heap st1) p)\<rparr>" "\<forall>k. strings st2 k \<noteq> p"
      using setString_owned [OF st1 alloc True, of p] p(1) by metis
    let ?st3 = "st2\<lparr>heap := AList.delete p (heap st2)\<rparr>"
    have "text_at st1 = text_at st"
      using none by (auto simp: text_at_def fun_eq_iff st1_def)
    have "text_at ?st3 = text_at st2"
      using s2(4) by (auto simp: text_at_def fun_eq_iff map_of_delete)
    then have "store_view ?st3 = store_view st2"
      by (simp add: store_view_def)
    moreover have "store_view st2 = snd (spec_set m (Set_text i j t) (store_view st))"
      using True p s2(3) abs1 \<open>text_at st1 = text_at st\<close>
      by (simp add: spec_set_def st1_def) (simp add: store_view_def)
    moreover have "owned ?st3"
      using s2(2,4) by (auto simp: owned_def AList.distinct_delete)
    ultimately show ?thesis
      using that [of m ?st3] m s2(1) True
      by (simp add: set_text_def Let_def p_def [symmetric] st1_def [symmetric] spec_set_def)
  qed
qed

text \<open>What a setter promises; \<open>set_ok\<close> collects it for the two kinds of setters.\<close>

definition set_ok :: "(heap \<Rightarrow> addr) \<Rightarrow> store_op \<Rightarrow> store \<Rightarrow> bool \<Rightarrow> store \<Rightarrow> bool" where
  "set_ok alloc c st m st' \<longleftrightarrow> (enough_memory alloc \<longrightarrow> m) \<and>
     run_op alloc c st = Ret (fst (spec_set m c (store_view st)), st') \<and> owned st' \<and>
     store_view st' = snd (spec_set m c (store_view st))"

lemma copy_ok:
  assumes st: "owned st" and alloc: "fresh_alloc alloc"
  shows "\<exists>m st'. set_ok alloc (Copy_text i j i' j') st m st'"
proof (cases "DefaultStore_isParamsOk i j")
  case True
  let ?p = "DefaultStore_getString st i' j'"
  have p: "?p = strings st (i', j')"
    using ownedD(4) [OF st] by (simp add: DefaultStore_getString_def)
  have v: "v_text (store_view st) (i', j') = (if ?p = 0 then None else map_of (heap st) ?p)"
    by (simp add: store_view_def text_at_def p)
  have "?p \<noteq> 0 \<Longrightarrow> ?p \<in> fst ` set (heap st)"
    using ownedD(2) [OF st] by (simp add: p)
  then obtain m st' where m: "enough_memory alloc \<or> strings st (i, j) = ?p \<longrightarrow> m"
    and r: "DefaultStore_setString alloc st i j ?p = Ret (ErrorCode_SUCCESS, st')" "owned st'"
    and w: "store_view st' = (store_view st)\<lparr>v_text := (text_at st)((i, j) :=
        if ?p = 0 \<or> \<not> m then None else map_of (heap st) ?p)\<rparr>"
    using setString_owned [OF st alloc True] by metis
  have "store_view st' = spec_op m (Copy_text i j i' j') (store_view st)"
  proof (cases "(i, j) = (i', j')")
    case True
    then have "m" "strings st (i, j) = ?p"
      using m p by simp_all
    then have "(if ?p = 0 \<or> \<not> m then None else map_of (heap st) ?p) = text_at st (i, j)"
      by (simp add: text_at_def)
    then show ?thesis
      using True unfolding w by (simp add: fun_upd_idem) (simp add: store_view_def)
  next
    case False
    have "v_text (store_view st) = text_at st"
      by (simp add: store_view_def)
    then show ?thesis
      using False v unfolding w by (auto simp: fun_eq_iff)
  qed
  then show ?thesis
    using m r True by (intro exI [of _ m] exI [of _ st']) (auto simp: set_ok_def spec_set_def)
next
  case False
  then show ?thesis
    using st by (intro exI [of _ True] exI [of _ st]) (simp add: set_ok_def setString_refused spec_set_def)
qed

lemma drop_ok:
  assumes st: "owned st" and alloc: "fresh_alloc alloc"
  shows "\<exists>m st'. set_ok alloc (Drop_text i j) st m st'"
proof (cases "DefaultStore_isParamsOk i j")
  case True
  obtain m st' where "DefaultStore_setString alloc st i j 0 = Ret (ErrorCode_SUCCESS, st')" "owned st'"
    "store_view st' = (store_view st)\<lparr>v_text := (text_at st)((i, j) :=
        if (0 :: addr) = 0 \<or> \<not> m then None else map_of (heap st) 0)\<rparr>"
    using setString_owned [OF st alloc True, of 0] by metis
  then show ?thesis
    using True by (intro exI [of _ True] exI [of _ st']) (simp add: set_ok_def spec_set_def, simp add: store_view_def)
next
  case False
  then show ?thesis
    using st by (intro exI [of _ True] exI [of _ st]) (simp add: set_ok_def setString_refused spec_set_def)
qed

lemma setter_ok:
  assumes "owned st" and "fresh_alloc alloc" and "op_key c \<noteq> None"
  shows "\<exists>m st'. set_ok alloc c st m st'"
proof (cases "numeric c")
  case True
  obtain st' where "run_op alloc c st = Ret (fst (spec_set True c (store_view st)), st')"
    "store_view st' = snd (spec_set True c (store_view st))" "strings st' = strings st" "heap st' = heap st"
    using run_numeric [OF True] by metis
  then show ?thesis
    using owned_cong assms(1) unfolding set_ok_def by metis
next
  case False
  have t: "\<exists>m st'. set_ok alloc (Set_text i j x) st m st'" for i j x
    using set_text_owned [OF assms(1,2), of i j x] unfolding set_ok_def run_op.simps by metis
  show ?thesis
    using False assms(3) t drop_ok [OF assms(1,2)] copy_ok [OF assms(1,2)] by (cases c) (simp_all add: numeric_def)
qed

section \<open>Clearing\<close>

lemma clear_slots_owned:
  assumes "owned st"
  shows "\<exists>st'. clear_slots ks st = Ret st' \<and> owned st' \<and>
     (\<forall>k. strings st' k = (if k \<in> set ks then 0 else strings st k)) \<and>
     fst ` set (heap st') = fst ` set (heap st) - {strings st k | k. k \<in> set ks \<and> strings st k \<noteq> 0} \<and>
     integers st' = integers st \<and> booleans st' = booleans st \<and> voids st' = voids st \<and>
     configs st' = configs st \<and> configs_dangling st' = configs_dangling st"
  using assms
proof (induction ks arbitrary: st)
  case (Cons k ks)
  show ?case
  proof (cases "strings st k = 0")
    case True
    then have "{strings st k' | k'. k' \<in> set (k # ks) \<and> strings st k' \<noteq> 0} =
        {strings st k' | k'. k' \<in> set ks \<and> strings st k' \<noteq> 0}"
      by auto
    then show ?thesis
      using Cons.IH [OF Cons.prems] True by (auto simp del: ex_simps)
  next
    case False
    obtain i j where k: "k = (i, j)"
      by (cases k)
    have ok: "DefaultStore_isParamsOk i j"
      using ownedD(4) [OF Cons.prems, of i j] False unfolding k by blast
    define st1 where "st1 = st\<lparr>strings := (strings st)((i, j) := 0),
      heap := AList.delete (strings st k) (heap st)\<rparr>"
    have o: "owned st1"
      using owned_replace(1) [OF Cons.prems ok refl, of 0 "AList.delete (strings st k) (heap st)"] False
      by (simp add: st1_def k)
    have "map_of (heap st) (strings st k) \<noteq> None"
      using ownedD(2) [OF Cons.prems False] by (simp only: map_of_eq_None_iff not_not)
    then have run: "clear_slots (k # ks) st = clear_slots ks st1"
      using False by (auto simp: free_cell_def st1_def k)
    have "strings st k' \<noteq> strings st k" if "k' \<noteq> k" for k'
      using ownedD(3) [OF Cons.prems, of k' k] that False by metis
    then have "fst ` set (heap st1) - {strings st1 k' | k'. k' \<in> set ks \<and> strings st1 k' \<noteq> 0} =
        fst ` set (heap st) - {strings st k' | k'. k' \<in> set (k # ks) \<and> strings st k' \<noteq> 0}"
      using False by (auto simp: st1_def k) metis+
    then show ?thesis
      using Cons.IH [OF o] unfolding run by (auto simp: st1_def k)
  qed
qed auto

lemma in_slots: "(i, j) \<in> set slots \<longleftrightarrow> DefaultStore_isParamsOk i j"
  by (auto simp: slots_def DefaultStore_isParamsOk_def)

section \<open>Every call\<close>

definition implements :: "('a \<times> store) outcome \<Rightarrow> ('a \<times> view) outcome \<Rightarrow> bool" where
  "implements run spec \<longleftrightarrow>
     (case spec of
        Ret (a, w) \<Rightarrow> \<exists>st'. run = Ret (a, st') \<and> owned st' \<and> store_view st' = w
      | Crash \<Rightarrow> run = Crash
      | Null \<Rightarrow> False)"

lemma implementsI: "run = Ret (a, st') \<Longrightarrow> owned st' \<Longrightarrow> store_view st' = w \<Longrightarrow> implements run (Ret (a, w))"
  by (auto simp: implements_def)

lemma implements_setter: "set_ok alloc c st m st' \<Longrightarrow> implements (run_op alloc c st) (Ret (spec_set m c (store_view st)))"
  by (auto simp: implements_def set_ok_def split: prod.split)

lemma view_tokens [simp]: "v_tokens (store_view st) = configs st" "v_dangling (store_view st) = configs_dangling st"
  by (simp_all add: store_view_def)

lemma register_refines:
  assumes "owned st"
  shows "implements (run_op alloc (Register memory type name token i j) st)
    (spec_step m (Register memory type name token i j) (store_view st))"
  using assms by (auto simp: implements_def spec_step_def DefaultStore_registerConfig_def owned_def store_view_def
      text_at_def fun_eq_iff)

lemma clear_refines:
  assumes "owned st"
  shows "implements (run_op alloc Clear st) (spec_step m Clear (store_view st))"
proof (cases "configs_dangling st")
  case False
  let ?st1 = "st\<lparr>configs := [], configs_dangling := (configs st \<noteq> [])\<rparr>"
  have "owned ?st1"
    using assms by (simp add: owned_def)
  then obtain st' where st': "clear_slots slots ?st1 = Ret st'" "owned st'"
    "\<forall>k. strings st' k = (if k \<in> set slots then 0 else strings ?st1 k)"
    "integers st' = integers st" "booleans st' = booleans st" "voids st' = voids st"
    "configs st' = []" "configs_dangling st' = (configs st \<noteq> [])"
    using clear_slots_owned [of ?st1 slots] by auto
  have slot: "k \<in> set slots" if "strings st k \<noteq> 0" for k
    using ownedD(4) [OF assms, of "fst k" "snd k"] in_slots [of "fst k" "snd k"] that by auto
  have "strings st' k = 0" for k
    using st'(3) [rule_format, of k] slot [of k] by (cases "strings st k = 0") simp_all
  then have "store_view st' = (store_view st)\<lparr>v_text := (\<lambda>_. None), v_tokens := [], v_dangling := configs st \<noteq> []\<rparr>"
    using st'(4-8) by (simp add: store_view_def text_at_def fun_eq_iff)
  then show ?thesis
    using st'(1,2) False by (auto simp: implements_def spec_step_def DefaultStore_clear_def)
qed (simp add: implements_def spec_step_def DefaultStore_clear_def)

text \<open>A line acts as the setter it asks for.\<close>

lemma handlerConfig_line:
  "DefaultStore_handlerConfig alloc st token line =
    (if configs_dangling st then Crash
     else case find (\<lambda>e. cfg_token e = token) (configs st) of
       None \<Rightarrow> Ret st
     | Some e \<Rightarrow> obind (line_op e line) (\<lambda>op.
         case op of None \<Rightarrow> Ret st | Some c \<Rightarrow> obind (run_op alloc c st) (\<lambda>(_, st'). Ret st')))"
proof (cases "find (\<lambda>e. cfg_token e = token) (configs st)")
  case (Some e)
  have b: "(case DefaultStore_setBoolean st i j v of (_, st') \<Rightarrow> Ret st') = Ret (snd (DefaultStore_setBoolean st i j v))"
    "(case DefaultStore_setInt st i j n of (_, st') \<Rightarrow> Ret st') = Ret (snd (DefaultStore_setInt st i j n))" for i j v n
    by (simp_all split: prod.split)
  show ?thesis
    using Some by (cases "DefaultStore_parseBoolean line"; cases "strtok_r line delimiters")
      (auto simp: DefaultStore_handlerConfig_def line_op_def Let_def b split: prod.split)
qed (simp add: DefaultStore_handlerConfig_def)

lemma line_op_setter: "line_op e line = Ret (Some c) \<Longrightarrow> op_key c \<noteq> None"
  by (cases "DefaultStore_parseBoolean line") (auto simp: line_op_def Let_def split: if_splits option.splits prod.splits)

lemma line_op_total: "line_op e line \<noteq> Null"
  by (auto simp: line_op_def DefaultStore_parseBoolean_def Let_def split: option.splits prod.splits)

lemma line_refines:
  assumes "owned st" and "fresh_alloc alloc"
  shows "\<exists>m. (enough_memory alloc \<longrightarrow> m) \<and>
    implements (run_op alloc (Config_line token line) st) (spec_step m (Config_line token line) (store_view st))"
proof (cases "configs_dangling st \<or> find (\<lambda>e. cfg_token e = token) (configs st) = None")
  case True
  then show ?thesis
    using assms(1) by (intro exI [of _ True]) (auto simp: implements_def spec_step_def handlerConfig_line)
next
  case False
  then obtain e where e: "\<not> configs_dangling st" "find (\<lambda>e. cfg_token e = token) (configs st) = Some e"
    by auto
  show ?thesis
  proof (cases "line_op e line")
    case (Ret op)
    show ?thesis
    proof (cases op)
      case None
      then show ?thesis
        using assms(1) e Ret by (intro exI [of _ True]) (auto simp: implements_def spec_step_def handlerConfig_line)
    next
      case (Some c)
      obtain m st' where "set_ok alloc c st m st'"
        using setter_ok [OF assms line_op_setter [of e line c]] Ret Some by auto
      then show ?thesis
        using e Ret Some by (intro exI [of _ m]) (simp add: implements_def spec_step_def handlerConfig_line set_ok_def)
    qed
  next
    case Crash
    then show ?thesis
      using e by (intro exI [of _ True]) (simp add: implements_def spec_step_def handlerConfig_line)
  qed (simp add: line_op_total)
qed

lemma run_op_refines:
  assumes "owned st" and "fresh_alloc alloc"
  shows "\<exists>m. (enough_memory alloc \<longrightarrow> m) \<and> implements (run_op alloc c st) (spec_step m c (store_view st))"
proof (cases "op_key c")
  case None
  then show ?thesis
    using register_refines [OF assms(1)] clear_refines [OF assms(1)] line_refines [OF assms]
    by (cases c) (simp_all del: run_op.simps, blast+)
next
  case (Some k)
  then obtain m st' where "set_ok alloc c st m st'"
    using setter_ok [OF assms, of c] by auto
  moreover have "spec_step m c (store_view st) = Ret (spec_set m c (store_view st))"
    using Some by (cases c) (simp_all add: spec_step_def)
  ultimately show ?thesis
    using implements_setter unfolding set_ok_def by metis
qed

lemma run_ops_refines:
  assumes "owned st" and "fresh_alloc alloc"
  shows "\<exists>ms. length ms = length cs \<and> (enough_memory alloc \<longrightarrow> (\<forall>m \<in> set ms. m)) \<and>
    implements (run_ops alloc cs st) (spec_steps (zip ms cs) (store_view st))"
  using assms(1)
proof (induction cs arbitrary: st)
  case Nil
  then show ?case
    by (simp add: implements_def)
next
  case (Cons c cs)
  obtain m where m: "enough_memory alloc \<longrightarrow> m" and r: "implements (run_op alloc c st) (spec_step m c (store_view st))"
    using run_op_refines [OF Cons.prems assms(2)] by blast
  show ?case
  proof (cases "spec_step m c (store_view st)")
    case (Ret x)
    then obtain rc st1 where 1: "run_op alloc c st = Ret (rc, st1)" "owned st1"
      "spec_step m c (store_view st) = Ret (rc, store_view st1)"
      using r by (auto simp: implements_def split: prod.splits)
    obtain ms where 2: "length ms = length cs" "enough_memory alloc \<longrightarrow> (\<forall>m \<in> set ms. m)"
      "implements (run_ops alloc cs st1) (spec_steps (zip ms cs) (store_view st1))"
      using Cons.IH [OF 1(2)] by blast
    have "implements (run_ops alloc (c # cs) st) (spec_steps (zip (m # ms) (c # cs)) (store_view st))"
      using 2(3) by (cases "spec_steps (zip ms cs) (store_view st1)") (auto simp: implements_def 1 split: prod.splits)
    then show ?thesis
      using m 2(1,2) by (intro exI [of _ "m # ms"]) simp
  next
    case Crash
    then show ?thesis
      using r m by (intro exI [of _ "m # replicate (length cs) True"]) (simp add: implements_def)
  qed (use r in \<open>simp add: implements_def\<close>)
qed

section \<open>Properties\<close>

fun highest_alloc :: "heap \<Rightarrow> addr" where
  "highest_alloc h = Suc (sum_list (map fst h))"

lemma fresh_highest: "fresh_alloc highest_alloc" "enough_memory highest_alloc"
  using caller_new by (simp_all add: fresh_alloc_def enough_memory_def caller_addr_def)

definition empty_store :: store where
  "empty_store = \<lparr>configs = [], configs_dangling = False, integers = (\<lambda>_. 0), booleans = (\<lambda>_. 0),
     strings = (\<lambda>_. 0), voids = (\<lambda>_. 0), heap = []\<rparr>"

lemma owned_empty: "owned empty_store"
  by (simp add: owned_def empty_store_def)

text \<open>
  C12: Whatever calls are made on the store of default values, setting, registering tokens, handling lines
  of the configuration and clearing, in any order, it behaves as independent maps from its identifiers to
  truth values, integers, pointers and texts, with a list of tokens: every call answers what the
  specification answers and changes what it changes, the value of its own identifiers alone, eight
  booleans to a byte notwithstanding; a line acts as the setter of its token; the getters deliver the
  values of the maps, and no string is freed twice, shared by two identifiers or read after it was freed.
  The calls crash exactly where the specification says so: a boolean or integer token without a value, and
  registering, clearing or handling a line after a clearing that left the table of tokens dangling.
  With enough memory every text is stored; a text that cannot be copied is lost and the call succeeds.
\<close>

theorem default_store_refines:
  assumes "owned st" and "fresh_alloc alloc"
  shows "\<exists>ms. length ms = length cs \<and> (enough_memory alloc \<longrightarrow> (\<forall>m \<in> set ms. m)) \<and>
    (case spec_steps (zip ms cs) (store_view st) of
       Crash \<Rightarrow> run_ops alloc cs st = Crash
     | Null \<Rightarrow> False
     | Ret (rcs, w) \<Rightarrow> \<exists>st'. run_ops alloc cs st = Ret (rcs, st') \<and> owned st' \<and> store_view st' = w \<and>
         (\<forall>i j. DefaultStore_isParamsOk i j \<longrightarrow>
            DefaultStore_getInt st' i j = v_int w (i, j) \<and>
            DefaultStore_getBoolean st' i j = (if v_bool w (i, j) then 1 else 0) \<and>
            DefaultStore_getVoid st' i j = v_void w (i, j) \<and>
            (case v_text w (i, j) of None \<Rightarrow> DefaultStore_getString st' i j = 0
             | Some t \<Rightarrow> map_of (heap st') (DefaultStore_getString st' i j) = Some t)))"
proof -
  have get: "DefaultStore_getInt st' i j = v_int (store_view st') (i, j) \<and>
       DefaultStore_getBoolean st' i j = (if v_bool (store_view st') (i, j) then 1 else 0) \<and>
       DefaultStore_getVoid st' i j = v_void (store_view st') (i, j) \<and>
       (case v_text (store_view st') (i, j) of None \<Rightarrow> DefaultStore_getString st' i j = 0
        | Some t \<Rightarrow> map_of (heap st') (DefaultStore_getString st' i j) = Some t)"
    if "owned st'" "DefaultStore_isParamsOk i j" for st' i j
  proof -
    have "strings st' (i, j) = 0 \<or> (\<exists>t. map_of (heap st') (strings st' (i, j)) = Some t)"
      using ownedD(2) [OF that(1), of "(i, j)"] by (metis map_of_eq_None_iff not_None_eq)
    then show ?thesis
      using that(2) by (auto simp: DefaultStore_getInt_def DefaultStore_getBoolean_def
        DefaultStore_getVoid_def DefaultStore_getString_def store_view_def text_at_def)
  qed
  obtain ms where ms: "length ms = length cs" "enough_memory alloc \<longrightarrow> (\<forall>m \<in> set ms. m)"
    "implements (run_ops alloc cs st) (spec_steps (zip ms cs) (store_view st))"
    using run_ops_refines [OF assms] by blast
  show ?thesis
  proof (intro exI conjI)
    show "case spec_steps (zip ms cs) (store_view st) of
       Crash \<Rightarrow> run_ops alloc cs st = Crash
     | Null \<Rightarrow> False
     | Ret (rcs, w) \<Rightarrow> \<exists>st'. run_ops alloc cs st = Ret (rcs, st') \<and> owned st' \<and> store_view st' = w \<and>
         (\<forall>i j. DefaultStore_isParamsOk i j \<longrightarrow>
            DefaultStore_getInt st' i j = v_int w (i, j) \<and>
            DefaultStore_getBoolean st' i j = (if v_bool w (i, j) then 1 else 0) \<and>
            DefaultStore_getVoid st' i j = v_void w (i, j) \<and>
            (case v_text w (i, j) of None \<Rightarrow> DefaultStore_getString st' i j = 0
             | Some t \<Rightarrow> map_of (heap st') (DefaultStore_getString st' i j) = Some t))"
      using ms(3) get by (cases "spec_steps (zip ms cs) (store_view st)") (auto simp: implements_def simp del: map_of_eq_None_iff)
  qed (use ms in auto)
qed

text \<open>A token registered, set by a line of the configuration, and its slot given its own string.\<close>

theorem default_store_refines_witness:
  "\<exists>st'. run_ops highest_alloc [Set_bool 0 9 1, Register True DATATYPE_OCTETSTRING ''snmp'' ''t'' 1 2,
     Config_line ''t'' ''ab'', Copy_text 1 2 1 2, Set_int 0 48 5] empty_store =
       Ret ([ErrorCode_SUCCESS, ErrorCode_SUCCESS, ErrorCode_SUCCESS, ErrorCode_SUCCESS, ErrorCode_GENERR], st') \<and>
     DefaultStore_getBoolean st' 0 9 = 1 \<and> DefaultStore_getBoolean st' 0 8 = 0 \<and>
     map_of (heap st') (DefaultStore_getString st' 1 2) = Some ''ab''"
proof -
  let ?cs = "[Set_bool 0 9 1, Register True DATATYPE_OCTETSTRING ''snmp'' ''t'' 1 2, Config_line ''t'' ''ab'',
    Copy_text 1 2 1 2, Set_int 0 48 5]"
  have ok: "DefaultStore_isParamsOk 0 9" "DefaultStore_isParamsOk 0 8" "DefaultStore_isParamsOk 1 2"
    "\<not> DefaultStore_isParamsOk 0 48"
    by (simp_all add: DefaultStore_isParamsOk_def DEFAULTSTORE_MAX_IDS_def DEFAULTSTORE_MAX_SUBIDS_def)
  let ?w = "(store_view empty_store)\<lparr>v_bool := (v_bool (store_view empty_store))((0, 9) := True),
    v_text := (v_text (store_view empty_store))((1, 2) := Some ''ab''),
    v_tokens := [\<lparr>cfg_asnType = DATATYPE_OCTETSTRING, cfg_storeName = ''snmp'', cfg_token = ''t'',
      cfg_storeId = 1, cfg_registryId = 2\<rparr>]\<rparr>"
  have e: "configs empty_store = []" "\<not> configs_dangling empty_store"
    by (simp_all add: empty_store_def)
  have l: "line_op \<lparr>cfg_asnType = DATATYPE_OCTETSTRING, cfg_storeName = ''snmp'', cfg_token = ''t'',
      cfg_storeId = 1, cfg_registryId = 2\<rparr> ''ab'' = Ret (Some (Set_text 1 2 ''ab''))"
    by (simp add: line_op_def DATATYPE_BOOLEAN_def DATATYPE_INTEGER_def DATATYPE_OCTETSTRING_def)
  let ?rcs = "[ErrorCode_SUCCESS, ErrorCode_SUCCESS, ErrorCode_SUCCESS, ErrorCode_SUCCESS, ErrorCode_GENERR]"
  let ?get = "\<lambda>st' w. \<forall>i j. DefaultStore_isParamsOk i j \<longrightarrow>
       DefaultStore_getInt st' i j = v_int w (i, j) \<and>
       DefaultStore_getBoolean st' i j = (if v_bool w (i, j) then 1 else 0) \<and>
       DefaultStore_getVoid st' i j = v_void w (i, j) \<and>
       (case v_text w (i, j) of None \<Rightarrow> DefaultStore_getString st' i j = 0
        | Some t \<Rightarrow> map_of (heap st') (DefaultStore_getString st' i j) = Some t)"
  have spec: "spec_steps (zip [True, True, True, True, True] ?cs) (store_view empty_store) = Ret (?rcs, ?w)"
    using ok e l by (simp add: spec_step_def spec_set_def)
  obtain ms where L: "length ms = length ?cs" "enough_memory highest_alloc \<longrightarrow> (\<forall>m \<in> set ms. m)"
    and C: "case spec_steps (zip ms ?cs) (store_view empty_store) of
       Crash \<Rightarrow> run_ops highest_alloc ?cs empty_store = Crash
     | Null \<Rightarrow> False
     | Ret (rcs, w) \<Rightarrow> \<exists>st'. run_ops highest_alloc ?cs empty_store = Ret (rcs, st') \<and> owned st' \<and> store_view st' = w \<and> ?get st' w"
    using default_store_refines [OF owned_empty fresh_highest(1), of ?cs] by (elim exE conjE) (rule that)
  have M: "ms = [True, True, True, True, True]"
    using L fresh_highest(2) by (auto simp: length_Suc_conv)
  obtain st' where run: "run_ops highest_alloc ?cs empty_store = Ret (?rcs, st')" and get: "?get st' ?w"
    using C unfolding M spec outcome.case prod.case by blast
  have "v_bool (store_view empty_store) (0, 8) = False"
    by (simp add: store_view_def empty_store_def test_bit_def)
  then show ?thesis
    using run get [rule_format, OF ok(1)] get [rule_format, OF ok(2)] get [rule_format, OF ok(3)]
    by (intro exI [of _ st']) simp
qed

text \<open>
  C34: Clearing the store frees every string it owns, once, and keeps the numbers, booleans and
  pointers; but where configuration tokens were registered the pointer to their table is left
  dangling, and the next registration, or the next line with a token, reads freed memory.
\<close>

theorem default_store_clear:
  assumes "owned st" and "\<not> configs_dangling st"
  shows "\<exists>st'. DefaultStore_clear st = Ret st' \<and> owned st' \<and> (\<forall>k. text_at st' k = None) \<and>
    fst ` set (heap st') = fst ` set (heap st) - {strings st k | k. strings st k \<noteq> 0} \<and>
    integers st' = integers st \<and> booleans st' = booleans st \<and> voids st' = voids st \<and>
    (configs st \<noteq> [] \<longrightarrow> (\<forall>type name token i j line. DefaultStore_isParamsOk i j \<longrightarrow>
       DefaultStore_registerConfig True st' type name token i j = Crash \<and>
       DefaultStore_handlerConfig alloc st' token line = Crash))"
proof -
  let ?st1 = "st\<lparr>configs := [], configs_dangling := (configs st \<noteq> [])\<rparr>"
  have "owned ?st1"
    using assms(1) by (simp add: owned_def)
  then obtain st' where st': "clear_slots slots ?st1 = Ret st'" "owned st'"
    "\<forall>k. strings st' k = (if k \<in> set slots then 0 else strings ?st1 k)"
    "fst ` set (heap st') = fst ` set (heap ?st1) - {strings ?st1 k | k. k \<in> set slots \<and> strings ?st1 k \<noteq> 0}"
    "integers st' = integers st" "booleans st' = booleans st" "voids st' = voids st"
    "configs_dangling st' = (configs st \<noteq> [])"
    using clear_slots_owned [of ?st1 slots] by auto
  have slot: "k \<in> set slots" if "strings st k \<noteq> 0" for k
    using ownedD(4) [OF assms(1), of "fst k" "snd k"] in_slots [of "fst k" "snd k"] that by auto
  then have "\<forall>k. strings st' k = 0"
    using st'(3) by auto
  moreover have "{strings st k | k. k \<in> set slots \<and> strings st k \<noteq> 0} = {strings st k | k. strings st k \<noteq> 0}"
    using slot by auto
  ultimately show ?thesis
    using st' assms(2) by (auto simp: DefaultStore_clear_def text_at_def
      DefaultStore_registerConfig_def DefaultStore_handlerConfig_def)
qed

theorem default_store_clear_witness:
  "\<exists>st'. DefaultStore_clear (empty_store\<lparr>configs := [\<lparr>cfg_asnType = DATATYPE_INTEGER,
       cfg_storeName = ''snmp'', cfg_token = ''defVersion'', cfg_storeId = 0, cfg_registryId = 2\<rparr>]\<rparr>) = Ret st' \<and>
     DefaultStore_registerConfig True st' DATATYPE_INTEGER ''snmp'' ''defVersion'' 0 2 = Crash"
proof -
  let ?c = "\<lparr>cfg_asnType = DATATYPE_INTEGER, cfg_storeName = ''snmp'', cfg_token = ''defVersion'',
    cfg_storeId = 0, cfg_registryId = 2\<rparr>"
  let ?st = "empty_store\<lparr>configs := [?c]\<rparr>"
  have o: "owned ?st" and d: "\<not> configs_dangling ?st" and ok: "DefaultStore_isParamsOk 0 2"
    by (simp_all add: owned_def empty_store_def DefaultStore_isParamsOk_def DEFAULTSTORE_MAX_IDS_def
      DEFAULTSTORE_MAX_SUBIDS_def)
  from default_store_clear [OF o d, of highest_alloc] obtain st' where
    s: "DefaultStore_clear ?st = Ret st'" "configs ?st \<noteq> [] \<longrightarrow>
     (\<forall>type name token i j line. DefaultStore_isParamsOk i j \<longrightarrow>
       DefaultStore_registerConfig True st' type name token i j = Crash \<and>
       DefaultStore_handlerConfig highest_alloc st' token line = Crash)"
    by blast
  have "DefaultStore_registerConfig True st' DATATYPE_INTEGER ''snmp'' ''defVersion'' 0 2 = Crash"
    using s(2) ok by simp
  with s(1) show ?thesis
    by blast
qed

end
