(* ===== verification/Callbacks.thy ===== *)
theory Callbacks
  imports DefaultStore
begin

text \<open>
  The callbacks of the library (src/Firmware/Core/System/Util/Callback.c): for every event, a
  major and a minor number, a list of functions in the order of their priority, which is called
  through, and a counter that is meant to keep the list from changing under a traversal.

  A list of nodes is modelled as the list of the nodes with their addresses; the pointer \<open>scp\<close> of
  a traversal is an address, and \<open>scp->next\<close> the address behind it in the list as it is at that
  moment. Reading a node that is no longer in the list is a use of freed memory, a \<open>Crash\<close>. The
  functions are numbers, 0 being NULL; what they do is the parameter \<open>run\<close>, which may use every
  operation of this theory and changes a \<open>world\<close> of its own. There is one thread: nobody else
  releases a lock while \<open>_Callback_lock\<close> sleeps.
\<close>

section \<open>State\<close>

record cb =
  callbackFun :: nat
  callbackFuncArg :: addr
  priority :: int

record 'w callbacks =
  needInit :: bool
  theCallbacks :: "int \<times> int \<Rightarrow> (addr \<times> cb) list"
  locks :: "int \<times> int \<Rightarrow> int"
  freed_args :: "addr list"
  world :: 'w

definition CALLBACK_MAX_CALLBACK_IDS :: int where "CALLBACK_MAX_CALLBACK_IDS = 2"
definition CALLBACK_MAX_CALLBACK_SUBIDS :: int where "CALLBACK_MAX_CALLBACK_SUBIDS = 16"
definition CALLBACK_PRIORITY_DEFAULT :: int where "CALLBACK_PRIORITY_DEFAULT = 0"

text \<open>The test of the code, which has no lower bound, and the range of the matrices.\<close>

definition beyond_range :: "int \<Rightarrow> int \<Rightarrow> bool" where
  "beyond_range major minor \<longleftrightarrow>
     major \<ge> CALLBACK_MAX_CALLBACK_IDS \<or> minor \<ge> CALLBACK_MAX_CALLBACK_SUBIDS"

definition in_matrix :: "int \<Rightarrow> int \<Rightarrow> bool" where
  "in_matrix major minor \<longleftrightarrow> 0 \<le> major \<and> major < CALLBACK_MAX_CALLBACK_IDS \<and>
     0 \<le> minor \<and> minor < CALLBACK_MAX_CALLBACK_SUBIDS"

definition Callback_init :: "'w callbacks \<Rightarrow> 'w callbacks" where
  "Callback_init st =
     (if \<not> needInit st then st
      else st\<lparr>needInit := False, theCallbacks := (\<lambda>_. []), locks := (\<lambda>_. 0)\<rparr>)"

section \<open>Locks\<close>

definition Callback_lock :: "'w callbacks \<Rightarrow> int \<times> int \<Rightarrow> int \<times> 'w callbacks" where
  "Callback_lock st k =
     (if locks st k \<ge> 1 then (1, st) else (0, st\<lparr>locks := (locks st)(k := locks st k + 1)\<rparr>))"

definition Callback_unlock :: "'w callbacks \<Rightarrow> int \<times> int \<Rightarrow> 'w callbacks" where
  "Callback_unlock st k = st\<lparr>locks := (locks st)(k := locks st k - 1)\<rparr>"

section \<open>Registering\<close>

fun link_cb :: "addr \<Rightarrow> cb \<Rightarrow> (addr \<times> cb) list \<Rightarrow> (addr \<times> cb) list" where
  "link_cb p c [] = [(p, c)]"
| "link_cb p c ((q, d) # xs) =
     (if priority c < priority d then (p, c) # (q, d) # xs else (q, d) # link_cb p c xs)"

definition Callback_registerPriority ::
    "addr \<Rightarrow> 'w callbacks \<Rightarrow> int \<Rightarrow> int \<Rightarrow> nat \<Rightarrow> addr \<Rightarrow> int \<Rightarrow> (32 word \<times> 'w callbacks) outcome" where
  "Callback_registerPriority newscp st major minor f arg prio =
     (if beyond_range major minor then Ret (ErrorCode_GENERR, st)
      else if \<not> in_matrix major minor then Crash
      else let k = (major, minor);
               st1 = snd (Callback_lock (Callback_init st) k) in
        if newscp = 0 then Ret (ErrorCode_GENERR, Callback_unlock st1 k)
        else Ret (ErrorCode_SUCCESS, Callback_unlock (st1\<lparr>theCallbacks := (theCallbacks st1)(k :=
               link_cb newscp \<lparr>callbackFun = f, callbackFuncArg = arg, priority = prio\<rparr>
                 (theCallbacks st1 k))\<rparr>) k))"

definition Callback_register ::
    "addr \<Rightarrow> 'w callbacks \<Rightarrow> int \<Rightarrow> int \<Rightarrow> nat \<Rightarrow> addr \<Rightarrow> (32 word \<times> 'w callbacks) outcome" where
  "Callback_register newscp st major minor f arg =
     Callback_registerPriority newscp st major minor f arg CALLBACK_PRIORITY_DEFAULT"

section \<open>Unregistering\<close>

text \<open>
  The loop of \<open>Callback_unregister\<close>: a node that matches is unlinked and freed where the lock
  count is exactly 1, and keeps its place with a NULL function otherwise. The matrix is read
  before its indices are checked.
\<close>

fun unlink_cb :: "(cb \<Rightarrow> bool) \<Rightarrow> bool \<Rightarrow> (addr \<times> cb) list \<Rightarrow> (addr \<times> cb) list \<times> nat" where
  "unlink_cb hit alone [] = ([], 0)"
| "unlink_cb hit alone ((p, c) # xs) =
     (case unlink_cb hit alone xs of (ys, n) \<Rightarrow>
        if hit c then (if alone then ys else (p, c\<lparr>callbackFun := 0\<rparr>) # ys, Suc n)
        else ((p, c) # ys, n))"

definition Callback_unregister ::
    "'w callbacks \<Rightarrow> int \<Rightarrow> int \<Rightarrow> nat \<Rightarrow> addr \<Rightarrow> bool \<Rightarrow> (int \<times> 'w callbacks) outcome" where
  "Callback_unregister st major minor f arg matchArg =
     (if \<not> in_matrix major minor then Crash
      else let k = (major, minor);
               st1 = snd (Callback_lock (Callback_init st) k)
           in case unlink_cb (\<lambda>c. callbackFun c = f \<and> (\<not> matchArg \<or> callbackFuncArg c = arg))
                (locks st1 k = 1) (theCallbacks st1 k) of (xs, n) \<Rightarrow>
             Ret (int n, Callback_unlock (st1\<lparr>theCallbacks := (theCallbacks st1)(k := xs)\<rparr>) k))"

section \<open>Calling\<close>

text \<open>The address behind an address in the list; \<open>None\<close> where the address is not in the list.\<close>

fun successor :: "addr \<Rightarrow> (addr \<times> cb) list \<Rightarrow> addr option" where
  "successor p [] = None"
| "successor p ((q, c) # xs) =
     (if q = p then Some (case xs of [] \<Rightarrow> 0 | (r, _) # _ \<Rightarrow> r) else successor p xs)"

definition first_cb :: "(addr \<times> cb) list \<Rightarrow> addr" where
  "first_cb xs = (case xs of [] \<Rightarrow> 0 | (p, _) # _ \<Rightarrow> p)"

type_synonym 'w runner = "nat \<Rightarrow> int \<Rightarrow> int \<Rightarrow> addr \<Rightarrow> addr \<Rightarrow> 'w callbacks \<Rightarrow> 'w callbacks"

text \<open>
  The traversal, with fuel for the nodes it may still visit: a callback may register others.
  \<open>None\<close>: the fuel did not suffice.
\<close>

fun call_callbacks ::
    "'w runner \<Rightarrow> nat \<Rightarrow> int \<Rightarrow> int \<Rightarrow> addr \<Rightarrow> addr \<Rightarrow> 'w callbacks \<Rightarrow> 'w callbacks outcome option" where
  "call_callbacks run 0 major minor extra scp st = None"
| "call_callbacks run (Suc n) major minor extra scp st =
     (if scp = 0 then Some (Ret st)
      else case map_of (theCallbacks st (major, minor)) scp of
        None \<Rightarrow> Some Crash
      | Some c \<Rightarrow>
          let st' = (if callbackFun c = 0 then st
                     else run (callbackFun c) major minor extra (callbackFuncArg c) st)
          in case successor scp (theCallbacks st' (major, minor)) of
               None \<Rightarrow> Some Crash
             | Some next \<Rightarrow> call_callbacks run n major minor extra next st')"

definition Callback_call ::
    "'w runner \<Rightarrow> nat \<Rightarrow> 'w callbacks \<Rightarrow> int \<Rightarrow> int \<Rightarrow> addr \<Rightarrow> (32 word \<times> 'w callbacks) outcome option" where
  "Callback_call run fuel st major minor extra =
     (if beyond_range major minor then Some (Ret (ErrorCode_GENERR, st))
      else if \<not> in_matrix major minor then Some Crash
      else let k = (major, minor);
               st1 = snd (Callback_lock (Callback_init st) k)
           in map_option (\<lambda>r. obind r (\<lambda>st2. Ret (ErrorCode_SUCCESS, Callback_unlock st2 k)))
                (call_callbacks run fuel major minor extra (first_cb (theCallbacks st1 k)) st1))"

section \<open>Inspecting and clearing\<close>

definition Callback_count :: "'w callbacks \<Rightarrow> int \<Rightarrow> int \<Rightarrow> (int \<times> 'w callbacks) outcome" where
  "Callback_count st major minor =
     (if beyond_range major minor then Ret (sint ErrorCode_GENERR, st)
      else if \<not> in_matrix major minor then Crash
      else let st1 = Callback_init st in Ret (int (length (theCallbacks st1 (major, minor))), st1))"

definition Callback_isRegistered :: "'w callbacks \<Rightarrow> int \<Rightarrow> int \<Rightarrow> (32 word \<times> 'w callbacks) outcome" where
  "Callback_isRegistered st major minor =
     (if beyond_range major minor then Ret (ErrorCode_GENERR, st)
      else if \<not> in_matrix major minor then Crash
      else let st1 = Callback_init st in
        Ret (if theCallbacks st1 (major, minor) \<noteq> [] then ErrorCode_SUCCESS else ErrorCode_GENERR, st1))"

text \<open>
  Clearing an argument, from one event on in the order of the matrix: every node with a function
  and that argument loses it.
\<close>

definition clear_arg :: "addr \<Rightarrow> cb \<Rightarrow> cb" where
  "clear_arg arg c =
     (if callbackFun c \<noteq> 0 \<and> callbackFuncArg c \<noteq> 0 \<and> callbackFuncArg c = arg
      then c\<lparr>callbackFuncArg := 0\<rparr> else c)"

definition events :: "(int \<times> int) list" where
  "events = List.product [0 .. CALLBACK_MAX_CALLBACK_IDS - 1] [0 .. CALLBACK_MAX_CALLBACK_SUBIDS - 1]"

definition events_from :: "int \<Rightarrow> int \<Rightarrow> (int \<times> int) list" where
  "events_from i j = filter (\<lambda>(i', j'). i' > i \<or> i' = i \<and> j' \<ge> j) events"

definition Callback_clearCallbackFuncArg :: "addr \<Rightarrow> int \<Rightarrow> int \<Rightarrow> 'w callbacks \<Rightarrow> nat \<times> 'w callbacks" where
  "Callback_clearCallbackFuncArg arg i j st =
     (sum_list (map (\<lambda>k. length (filter (\<lambda>(p, c). clear_arg arg c \<noteq> c) (theCallbacks st k))) (events_from i j)),
      st\<lparr>theCallbacks := (\<lambda>k. if k \<in> set (events_from i j)
           then map (\<lambda>(p, c). (p, clear_arg arg c)) (theCallbacks st k) else theCallbacks st k)\<rparr>)"

text \<open>
  Clearing one event: its first node is unlinked, its argument freed after the copies of the
  argument in this and the later events were cleared, until no node is left.
\<close>

function clear_event :: "int \<Rightarrow> int \<Rightarrow> 'w callbacks \<Rightarrow> 'w callbacks" where
  "clear_event i j st =
     (case theCallbacks st (i, j) of [] \<Rightarrow> st
      | (p, c) # rest \<Rightarrow>
          let st1 = st\<lparr>theCallbacks := (theCallbacks st)((i, j) := rest)\<rparr>;
              st2 = (if callbackFun c \<noteq> 0 \<and> callbackFuncArg c \<noteq> 0
                     then (snd (Callback_clearCallbackFuncArg (callbackFuncArg c) i j st1))
                            \<lparr>freed_args := callbackFuncArg c # freed_args st1\<rparr>
                     else st1)
          in clear_event i j st2)"
  by pat_completeness auto
termination
  by (relation "measure (\<lambda>(i, j, st). length (theCallbacks st (i, j)))")
    (auto simp: Callback_clearCallbackFuncArg_def)

declare clear_event.simps [simp del]

definition Callback_clear :: "'w callbacks \<Rightarrow> 'w callbacks" where
  "Callback_clear st =
     foldl (\<lambda>st k. Callback_unlock (clear_event (fst k) (snd k) (snd (Callback_lock st k))) k)
       (Callback_init st) events"

definition Callback_getList :: "'w callbacks \<Rightarrow> int \<Rightarrow> int \<Rightarrow> ((addr \<times> cb) list \<times> 'w callbacks) outcome" where
  "Callback_getList st major minor =
     (if \<not> in_matrix major minor then Crash
      else let st1 = Callback_init st in Ret (theCallbacks st1 (major, minor), st1))"

end
