(* ===== verification/CallbackProps.thy ===== *)
theory CallbackProps
  imports Callbacks "HOL-Library.Multiset"
begin

text \<open>
  What the callbacks promise: the callbacks of an event run once each, in the order of their
  priorities and of registration within a priority; and what becomes of the lock when a callback
  uses its own event.
\<close>

section \<open>Order\<close>

definition cb_priority :: "addr \<times> cb \<Rightarrow> int" where
  "cb_priority e = priority (snd e)"

lemma cb_priority_pair [simp]: "cb_priority (p, c) = priority c"
  by (simp add: cb_priority_def)

lemma set_link_cb [simp]: "set (link_cb p c xs) = insert (p, c) (set xs)"
  by (induction p c xs rule: link_cb.induct) auto

lemma mset_link_cb: "mset (link_cb p c xs) = add_mset (p, c) (mset xs)"
  by (induction p c xs rule: link_cb.induct) auto

lemma sorted_link_cb:
  "sorted (map cb_priority xs) \<Longrightarrow> sorted (map cb_priority (link_cb p c xs))"
  by (induction p c xs rule: link_cb.induct) auto

lemma filter_link_cb:
  assumes "sorted (map cb_priority xs)"
  shows "filter (\<lambda>e. cb_priority e = r) (link_cb p c xs) =
    filter (\<lambda>e. cb_priority e = r) xs @ (if priority c = r then [(p, c)] else [])"
  using assms
proof (induction p c xs rule: link_cb.induct)
  case (2 p c q d xs)
  show ?case
  proof (cases "priority c < priority d")
    case True
    then have "filter (\<lambda>e. cb_priority e = r) ((q, d) # xs) = []" if "priority c = r"
      using 2(2) that by (auto simp: filter_empty_conv)
    then show ?thesis
      using True by auto
  next
    case False
    then show ?thesis
      using 2 by auto
  qed
qed simp

text \<open>
  The list that a sequence of registrations leaves behind is the stable sort by priority.
\<close>

lemma link_cb_sort:
  "xs = sort_key cb_priority ys \<Longrightarrow> link_cb p c xs = sort_key cb_priority (ys @ [(p, c)])"
proof (rule sym, rule properties_for_sort_key)
  assume xs: "xs = sort_key cb_priority ys"
  then have s: "sorted (map cb_priority xs)"
    by simp
  show "mset (link_cb p c xs) = mset (ys @ [(p, c)])"
    by (simp add: mset_link_cb xs)
  show "sorted (map cb_priority (link_cb p c xs))"
    using s by (rule sorted_link_cb)
  fix k
  have "filter (\<lambda>e. cb_priority e = cb_priority k) xs =
      filter (\<lambda>e. cb_priority e = cb_priority k) ys"
    using sort_key_stable [of cb_priority "cb_priority k" ys]
    by (simp add: xs)
  then show "filter (\<lambda>x. cb_priority k = cb_priority x) (link_cb p c xs) =
      filter (\<lambda>x. cb_priority k = cb_priority x) (ys @ [(p, c)])"
    using filter_link_cb [OF s, of "cb_priority k" p c]
    by (simp add: eq_commute)
qed

lemma unlink_cb_filter:
  "unlink_cb hit True xs = (filter (\<lambda>(p, c). \<not> hit c) xs, length (filter (\<lambda>(p, c). hit c) xs))"
  by (induction xs) auto

lemma unlink_cb_marks:
  "unlink_cb hit False xs = (map (\<lambda>(p, c). (p, if hit c then c\<lparr>callbackFun := 0\<rparr> else c)) xs,
     length (filter (\<lambda>(p, c). hit c) xs))"
  by (induction xs) auto

section \<open>Registrations and removals from outside\<close>

text \<open>
  What a program does to one event when no callback is running, with the addresses the allocator
  gives, and the registrations that are then in force, in the order they were made.
\<close>

datatype cb_op =
  Reg addr nat addr int
| Unreg nat addr bool

fun cb_step :: "int \<Rightarrow> int \<Rightarrow> cb_op \<Rightarrow> 'w callbacks \<Rightarrow> 'w callbacks outcome" where
  "cb_step i j (Reg p f arg prio) st =
     obind (Callback_registerPriority p st i j f arg prio) (\<lambda>(rc, st'). Ret st')"
| "cb_step i j (Unreg f arg m) st =
     obind (Callback_unregister st i j f arg m) (\<lambda>(n, st'). Ret st')"

fun cb_steps :: "int \<Rightarrow> int \<Rightarrow> cb_op list \<Rightarrow> 'w callbacks \<Rightarrow> 'w callbacks outcome" where
  "cb_steps i j [] st = Ret st"
| "cb_steps i j (c # cs) st = obind (cb_step i j c st) (cb_steps i j cs)"

fun in_force :: "cb_op \<Rightarrow> (addr \<times> cb) list \<Rightarrow> (addr \<times> cb) list" where
  "in_force (Reg p f arg prio) xs =
     (if p = 0 then xs else xs @ [(p, \<lparr>callbackFun = f, callbackFuncArg = arg, priority = prio\<rparr>)])"
| "in_force (Unreg f arg m) xs =
     filter (\<lambda>(p, c). \<not> (callbackFun c = f \<and> (\<not> m \<or> callbackFuncArg c = arg))) xs"

text \<open>No callback runs: every lock is free, and before the initialisation nothing is registered.\<close>

definition quiet :: "'w callbacks \<Rightarrow> bool" where
  "quiet st \<longleftrightarrow> (needInit st \<longrightarrow> (\<forall>k. theCallbacks st k = [])) \<and> (\<forall>k. locks st k = 0)"

lemma quiet_init:
  assumes "quiet st"
  shows "quiet (Callback_init st)" and "theCallbacks (Callback_init st) = theCallbacks st"
    and "world (Callback_init st) = world st" and "\<not> needInit (Callback_init st)"
    and "locks (Callback_init st) = locks st"
  using assms by (auto simp: quiet_def Callback_init_def fun_eq_iff)

lemma cb_step_quiet:
  assumes "in_matrix i j" and "quiet st" and "theCallbacks st (i, j) = sort_key cb_priority xs"
  obtains st' where "cb_step i j c st = Ret st'" and "quiet st'"
    and "theCallbacks st' (i, j) = sort_key cb_priority (in_force c xs)"
    and "\<forall>k. k \<noteq> (i, j) \<longrightarrow> theCallbacks st' k = theCallbacks st k" and "world st' = world st"
proof -
  have b: "\<not> beyond_range i j"
    using assms(1) by (simp add: in_matrix_def beyond_range_def)
  note q = quiet_init [OF assms(2)]
  have l: "locks (Callback_init st) k = 0" for k
    using q(1) unfolding quiet_def by blast
  have "\<exists>st'. cb_step i j c st = Ret st' \<and> quiet st' \<and>
    theCallbacks st' (i, j) = sort_key cb_priority (in_force c xs) \<and>
    (\<forall>k. k \<noteq> (i, j) \<longrightarrow> theCallbacks st' k = theCallbacks st k) \<and> world st' = world st"
  proof (cases c)
    case (Reg p f arg prio)
    then show ?thesis
      using assms b link_cb_sort [OF assms(3)] q l
      by (simp add: Callback_registerPriority_def Callback_lock_def Callback_unlock_def quiet_def Let_def)
  next
    case (Unreg f arg m)
    then show ?thesis
      using assms q l
      by (simp add: Callback_unregister_def Callback_lock_def
        Callback_unlock_def quiet_def Let_def unlink_cb_filter filter_sort)
  qed
  then show thesis
    using that by blast
qed

lemma cb_steps_quiet:
  assumes "in_matrix i j" and "quiet st" and "theCallbacks st (i, j) = sort_key cb_priority xs"
  shows "\<exists>st'. cb_steps i j cs st = Ret st' \<and> quiet st' \<and>
    theCallbacks st' (i, j) = sort_key cb_priority (fold in_force cs xs) \<and> world st' = world st"
  using assms(2,3)
proof (induction cs arbitrary: st xs)
  case (Cons c cs)
  from cb_step_quiet [OF assms(1) Cons.prems, of c] obtain st1 where
    "cb_step i j c st = Ret st1" "quiet st1"
    "theCallbacks st1 (i, j) = sort_key cb_priority (in_force c xs)" "world st1 = world st" .
  then show ?case
    using Cons.IH [of st1 "in_force c xs"] by simp
qed simp

section \<open>Calling\<close>

definition visit :: "'w runner \<Rightarrow> int \<Rightarrow> int \<Rightarrow> addr \<Rightarrow> 'w callbacks \<Rightarrow> addr \<times> cb \<Rightarrow> 'w callbacks" where
  "visit run i j extra st e = (if callbackFun (snd e) = 0 then st
     else run (callbackFun (snd e)) i j extra (callbackFuncArg (snd e)) st)"

text \<open>The callbacks of an event leave the list and the lock of this event alone.\<close>

definition leaves_alone :: "'w runner \<Rightarrow> int \<Rightarrow> int \<Rightarrow> bool" where
  "leaves_alone run i j \<longleftrightarrow> (\<forall>f extra arg st. f \<noteq> 0 \<longrightarrow>
     theCallbacks (run f i j extra arg st) (i, j) = theCallbacks st (i, j) \<and>
     locks (run f i j extra arg st) (i, j) = locks st (i, j))"

lemma visit_leaves [simp]:
  assumes "leaves_alone run i j"
  shows "theCallbacks (visit run i j extra st e) (i, j) = theCallbacks st (i, j)"
    and "locks (visit run i j extra st e) (i, j) = locks st (i, j)"
  using assms by (simp_all add: visit_def leaves_alone_def)

lemma foldl_visit_leaves:
  assumes "leaves_alone run i j"
  shows "locks (foldl (visit run i j extra) st xs) (i, j) = locks st (i, j)"
  using assms by (induction xs arbitrary: st) simp_all

lemma successor_append:
  "p \<notin> fst ` set pre \<Longrightarrow> successor p (pre @ (p, c) # post) = Some (first_cb post)"
  by (induction pre) (auto simp: first_cb_def split: list.split)

lemma call_callbacks_all:
  assumes "leaves_alone run i j" and "theCallbacks st (i, j) = pre @ post"
    and "distinct (map fst (pre @ post))" and "0 \<notin> fst ` set post" and "length post < fuel"
  shows "call_callbacks run fuel i j extra (first_cb post) st =
    Some (Ret (foldl (visit run i j extra) st post))"
  using assms(2-)
proof (induction post arbitrary: pre st fuel)
  case Nil
  then show ?case
    by (cases fuel) (auto simp: first_cb_def)
next
  case (Cons e post)
  obtain p c where e: "e = (p, c)"
    by (cases e)
  obtain n where fuel: "fuel = Suc n" and n: "length post < n"
    using Cons.prems(4) by (cases fuel) auto
  have p: "p \<noteq> 0" "p \<notin> fst ` set pre"
    using Cons.prems(2,3) by (auto simp: e image_iff)
  have look: "map_of (theCallbacks st (i, j)) p = Some c"
  proof -
    have "map_of pre p = None"
      using p(2) by (simp only: map_of_eq_None_iff not_False_eq_True)
    then show ?thesis
      by (simp only: Cons.prems(1) e map_of_append map_add_def map_of.simps fst_conv snd_conv
        fun_upd_same option.case append_Cons)
  qed
  let ?st' = "visit run i j extra st e"
  have st': "theCallbacks ?st' (i, j) = (pre @ [e]) @ post"
    using assms(1) by (simp add: Cons.prems(1))
  have "successor p (theCallbacks ?st' (i, j)) = Some (first_cb post)"
    using successor_append [OF p(2), of c post] unfolding st' by (simp add: e)
  then have "call_callbacks run fuel i j extra p st = call_callbacks run n i j extra (first_cb post) ?st'"
    using p(1) look by (cases "callbackFun c = 0") (simp_all add: fuel visit_def e Let_def)
  moreover have "first_cb (e # post) = p"
    by (simp add: first_cb_def e)
  ultimately show ?case
    using Cons.IH [OF st' _ _ n] Cons.prems(2,3) by simp
qed

fun reg_addrs :: "cb_op list \<Rightarrow> addr list" where
  "reg_addrs [] = []"
| "reg_addrs (Reg p f arg prio # cs) = (if p = 0 then reg_addrs cs else p # reg_addrs cs)"
| "reg_addrs (Unreg f arg m # cs) = reg_addrs cs"

lemma in_force_addrs:
  assumes "distinct (map fst xs @ reg_addrs cs)"
  shows "distinct (map fst (fold in_force cs xs))"
    and "fst ` set (fold in_force cs xs) \<subseteq> fst ` set xs \<union> set (reg_addrs cs)"
proof -
  have "distinct (map fst (fold in_force cs xs)) \<and>
    fst ` set (fold in_force cs xs) \<subseteq> fst ` set xs \<union> set (reg_addrs cs)"
    using assms
  proof (induction cs arbitrary: xs)
    case (Cons c cs)
    show ?case
    proof (cases c)
      case (Reg p f arg prio)
      have "distinct (map fst (in_force c xs) @ reg_addrs cs)"
        using Cons.prems by (auto simp: Reg split: if_splits)
      from Cons.IH [OF this] show ?thesis
        by (auto simp: Reg split: if_splits)
    next
      case (Unreg f arg m)
      have sub: "fst ` set (in_force c xs) \<subseteq> fst ` set xs"
        by (auto simp: Unreg)
      have "distinct (map fst (in_force c xs) @ reg_addrs cs)"
        using Cons.prems sub by (auto simp: Unreg distinct_map_filter)
      from Cons.IH [OF this] sub show ?thesis
        by (auto simp: Unreg)
    qed
  qed simp
  then show "distinct (map fst (fold in_force cs xs))"
    and "fst ` set (fold in_force cs xs) \<subseteq> fst ` set xs \<union> set (reg_addrs cs)"
    by auto
qed

lemma reg_addrs_nonzero [simp]: "0 \<notin> set (reg_addrs cs)"
  by (induction cs rule: reg_addrs.induct) auto

lemma locked_quiet:
  assumes "quiet st"
  shows "snd (Callback_lock (Callback_init st) (i, j)) =
    st\<lparr>needInit := False, locks := (locks st)((i, j) := 1)\<rparr>"
proof -
  have "locks st (i, j) = 0"
    using assms unfolding quiet_def by blast
  moreover have "Callback_init st = st\<lparr>needInit := False\<rparr>"
    using assms by (auto simp: Callback_init_def quiet_def intro!: callbacks.equality)
  ultimately show ?thesis
    by (simp add: Callback_lock_def)
qed

section \<open>Properties\<close>

definition no_callbacks :: "'w \<Rightarrow> 'w callbacks" where
  "no_callbacks w = \<lparr>needInit = True, theCallbacks = (\<lambda>_. []), locks = (\<lambda>_. 0), freed_args = [], world = w\<rparr>"

lemma quiet_no_callbacks [simp]: "quiet (no_callbacks w)"
  by (simp add: quiet_def no_callbacks_def)

text \<open>
  C35: After any registrations and removals for an event, calling it runs every callback in force
  exactly once, those of a numerically lower priority first and those of one priority in the
  order of their registration, passes each its own argument, ends, and leaves the lock of the
  event free; the callbacks may do what they like but change the list and the lock of this event.
\<close>

theorem callbacks_in_order:
  assumes "in_matrix i j" and "quiet st" and "theCallbacks st (i, j) = []"
    and "distinct (reg_addrs cs)" and "leaves_alone run i j"
    and "length (fold in_force cs []) < fuel"
  shows "\<exists>st'. cb_steps i j cs st = Ret st' \<and>
    (let st1 = st'\<lparr>needInit := False, locks := (locks st')((i, j) := 1)\<rparr>;
         st2 = foldl (visit run i j extra) st1 (sort_key cb_priority (fold in_force cs []))
     in Callback_call run fuel st' i j extra = Some (Ret (ErrorCode_SUCCESS, Callback_unlock st2 (i, j))) \<and>
        locks (Callback_unlock st2 (i, j)) (i, j) = 0)"
proof -
  let ?xs = "sort_key cb_priority (fold in_force cs [])"
  obtain st' where st': "cb_steps i j cs st = Ret st'" "quiet st'" "theCallbacks st' (i, j) = ?xs"
    using cb_steps_quiet [OF assms(1,2), of "[]" cs] assms(3) by auto
  define st1 where "st1 = st'\<lparr>needInit := False, locks := (locks st')((i, j) := 1)\<rparr>"
  have locked: "snd (Callback_lock (Callback_init st') (i, j)) = st1"
    using locked_quiet [OF st'(2)] by (simp add: st1_def)
  have "map fst ?xs = [] @ map fst ?xs" "0 \<notin> fst ` set ?xs" "distinct (map fst ?xs)"
    using in_force_addrs [of "[]" cs] assms(4) reg_addrs_nonzero [of cs]
    by (auto simp: distinct_map inj_on_def) (metis fst_conv image_eqI subset_iff)?
  moreover have t: "theCallbacks st1 (i, j) = ?xs"
    by (simp add: st1_def st'(3))
  ultimately have call: "call_callbacks run fuel i j extra (first_cb ?xs) st1 =
      Some (Ret (foldl (visit run i j extra) st1 ?xs))"
    using call_callbacks_all [OF assms(5), of st1 "[]" ?xs fuel extra] assms(6) by simp
  have "\<not> beyond_range i j"
    using assms(1) by (simp add: in_matrix_def beyond_range_def)
  then have "Callback_call run fuel st' i j extra =
      Some (Ret (ErrorCode_SUCCESS, Callback_unlock (foldl (visit run i j extra) st1 ?xs) (i, j)))"
    using assms(1) by (simp add: Callback_call_def locked t call)
  moreover have "locks (foldl (visit run i j extra) st1 ?xs) (i, j) = 1"
    using foldl_visit_leaves [OF assms(5)] by (simp add: st1_def)
  then have "locks (Callback_unlock (foldl (visit run i j extra) st1 ?xs) (i, j)) (i, j) = 0"
    by (simp add: Callback_unlock_def)
  ultimately show ?thesis
    using st'(1) unfolding Let_def st1_def by blast
qed

theorem callbacks_in_order_witness:
  "\<exists>st'. cb_steps 0 2 [Reg 10 1 0 5, Reg 11 2 0 0, Reg 12 3 0 5, Unreg 3 0 False] (no_callbacks []) = Ret st' \<and>
     (let run = (\<lambda>f i j extra arg st. st\<lparr>world := world st @ [f]\<rparr>);
          st2 = foldl (visit run 0 2 0) (st'\<lparr>needInit := False, locks := (locks st')((0, 2) := 1)\<rparr>)
                  (sort_key cb_priority (fold in_force [Reg 10 1 0 5, Reg 11 2 0 0, Reg 12 3 0 5, Unreg 3 0 False] []))
      in Callback_call run 3 st' 0 2 0 = Some (Ret (ErrorCode_SUCCESS, Callback_unlock st2 (0, 2))))"
proof -
  let ?run = "(\<lambda>f i j extra arg st. st\<lparr>world := world st @ [f]\<rparr>) :: nat list runner"
  have m: "in_matrix 0 2" and l: "leaves_alone ?run 0 2"
    by (simp_all add: in_matrix_def CALLBACK_MAX_CALLBACK_IDS_def CALLBACK_MAX_CALLBACK_SUBIDS_def leaves_alone_def)
  have e: "theCallbacks (no_callbacks []) (0, 2) = []"
    by (simp add: no_callbacks_def)
  show ?thesis
    using callbacks_in_order [OF m quiet_no_callbacks e _ l,
        of "[Reg 10 1 0 5, Reg 11 2 0 0, Reg 12 3 0 5, Unreg 3 0 False]" 3 0] by (auto simp: Let_def)
qed

text \<open>
  A callback may use its own event: the lock is then held, and the nested call waits for it in
  vain, goes on without it, and releases the lock of the outer call.
\<close>

definition unregisters_itself :: "'w runner \<Rightarrow> int \<Rightarrow> int \<Rightarrow> nat \<Rightarrow> bool" where
  "unregisters_itself run i j f \<longleftrightarrow> (\<forall>extra arg st st'. \<forall>n.
     Callback_unregister st i j f 0 False = Ret (n, st') \<longrightarrow> run f i j extra arg st = st')"

definition registers_another :: "'w runner \<Rightarrow> int \<Rightarrow> int \<Rightarrow> nat \<Rightarrow> addr \<Rightarrow> nat \<Rightarrow> bool" where
  "registers_another run i j f q g \<longleftrightarrow> (\<forall>extra arg st st'. \<forall>rc.
     Callback_register q st i j g 0 = Ret (rc, st') \<longrightarrow> run f i j extra arg st = st') \<and>
     (\<forall>extra arg st. run g i j extra arg st = st)"

text \<open>
  C36: A callback that removes itself while its event is being called is freed under the
  traversal, which then reads it: the lock that is meant to prevent this is at one, as if nobody
  but the removal held it. A callback that registers another one for its event leaves the lock
  count at minus one, and from then on a removal neither frees the callback nor unlists the event.
\<close>

theorem callback_own_event:
  fixes st :: "'w callbacks"
  assumes m: "in_matrix i j" and q: "quiet st" and cbs: "theCallbacks st (i, j) = [(p, c)]"
    and p: "p \<noteq> 0" and f: "callbackFun c = f" "f \<noteq> 0"
  shows "(unregisters_itself run i j f \<longrightarrow> Callback_call run (Suc n) st i j extra = Some Crash) \<and>
    (registers_another run i j f q g \<and> q \<noteq> 0 \<and> q \<noteq> p \<and> g \<noteq> 0 \<and> g \<noteq> f \<and> priority c \<le> 0 \<longrightarrow>
      (\<exists>st1 st2. Callback_call run 3 st i j extra = Some (Ret (ErrorCode_SUCCESS, st1)) \<and>
        locks st1 (i, j) = - 1 \<and> Callback_unregister st1 i j f 0 False = Ret (1, st2) \<and>
        map fst (theCallbacks st2 (i, j)) = [p, q] \<and>
        (\<exists>st3. Callback_isRegistered st2 i j = Ret (ErrorCode_SUCCESS, st3))))"
proof (intro conjI impI)
  let ?st1 = "st\<lparr>needInit := False, locks := (locks st)((i, j) := 1)\<rparr>"
  have b: "\<not> beyond_range i j"
    using m by (simp add: in_matrix_def beyond_range_def)
  have call: "Callback_call run k st i j extra =
      map_option (\<lambda>r. obind r (\<lambda>st2. Ret (ErrorCode_SUCCESS, Callback_unlock st2 (i, j))))
        (call_callbacks run k i j extra p ?st1)" for k
    using locked_quiet [OF q, of i j] m b cbs by (simp add: Callback_call_def Let_def first_cb_def)
  {
    assume u: "unregisters_itself run i j f"
    let ?st2 = "Callback_unlock (?st1\<lparr>theCallbacks := (theCallbacks st)((i, j) := [])\<rparr>) (i, j)"
    have "Callback_unregister ?st1 i j f 0 False = Ret (1, ?st2)"
      using m f cbs by (simp add: Callback_unregister_def Callback_init_def Callback_lock_def Let_def)
    then have "run f i j extra (callbackFuncArg c) ?st1 = ?st2"
      using u unfolding unregisters_itself_def by blast
    then have "call_callbacks run (Suc n) i j extra p ?st1 = Some Crash"
      using p f cbs by (simp add: Callback_unlock_def)
    then show "Callback_call run (Suc n) st i j extra = Some Crash"
      by (simp add: call)
  }
  {
    assume r: "registers_another run i j f q g \<and> q \<noteq> 0 \<and> q \<noteq> p \<and> g \<noteq> 0 \<and> g \<noteq> f \<and> priority c \<le> 0"
    let ?d = "\<lparr>callbackFun = g, callbackFuncArg = 0, priority = 0\<rparr>"
    let ?st2 = "?st1\<lparr>theCallbacks := (theCallbacks st)((i, j) := [(p, c), (q, ?d)]),
      locks := (locks st)((i, j) := 0)\<rparr>"
    have "Callback_register q ?st1 i j g 0 = Ret (ErrorCode_SUCCESS, ?st2)"
      using m b r cbs by (simp add: Callback_register_def Callback_registerPriority_def
        Callback_init_def Callback_lock_def Callback_unlock_def CALLBACK_PRIORITY_DEFAULT_def Let_def)
    then have run: "run f i j extra (callbackFuncArg c) ?st1 = ?st2"
      "run g i j extra 0 ?st2 = ?st2"
      using r unfolding registers_another_def by blast+
    have second: "call_callbacks run 2 i j extra q ?st2 = Some (Ret ?st2)"
      using p r run(2) by (simp add: numeral_2_eq_2)
    have first: "call_callbacks run 3 i j extra p ?st1 = call_callbacks run 2 i j extra q ?st2"
      using p f cbs run(1) by (simp add: numeral_3_eq_3 numeral_2_eq_2 Let_def del: call_callbacks.simps(2))
         (simp add: numeral_2_eq_2 Let_def)
    then have r1: "Callback_call run 3 st i j extra = Some (Ret (ErrorCode_SUCCESS, Callback_unlock ?st2 (i, j)))"
      by (simp only: call first second option.map obind.simps)
    have r2: "locks (Callback_unlock ?st2 (i, j)) (i, j) = - 1"
      by (simp add: Callback_unlock_def)
    define st3 where "st3 = (Callback_unlock ?st2 (i, j))
      \<lparr>theCallbacks := (theCallbacks st)((i, j) := [(p, c\<lparr>callbackFun := 0\<rparr>), (q, ?d)])\<rparr>"
    have r3: "Callback_unregister (Callback_unlock ?st2 (i, j)) i j f 0 False = Ret (1, st3)"
      using m f r by (simp add: Callback_unregister_def Callback_init_def Callback_lock_def
        Callback_unlock_def st3_def fun_upd_idem Let_def)
    have r4: "map fst (theCallbacks st3 (i, j)) = [p, q]" and
      r5: "Callback_isRegistered st3 i j = Ret (ErrorCode_SUCCESS, st3)"
      using m b by (simp_all add: st3_def Callback_isRegistered_def Callback_init_def Callback_unlock_def)
    show "\<exists>st1 st2. Callback_call run 3 st i j extra = Some (Ret (ErrorCode_SUCCESS, st1)) \<and>
        locks st1 (i, j) = - 1 \<and> Callback_unregister st1 i j f 0 False = Ret (1, st2) \<and>
        map fst (theCallbacks st2 (i, j)) = [p, q] \<and>
        (\<exists>st3. Callback_isRegistered st2 i j = Ret (ErrorCode_SUCCESS, st3))"
      using r1 r2 r3 r4 r5 by (intro exI conjI)
  }
qed

definition self_removing :: "unit runner" where
  "self_removing f i j extra arg st =
     (case Callback_unregister st i j f 0 False of Ret (n, st') \<Rightarrow> st' | _ \<Rightarrow> st)"

definition self_extending :: "unit runner" where
  "self_extending f i j extra arg st =
     (if f = 2 then st else case Callback_register 11 st i j 2 0 of Ret (rc, st') \<Rightarrow> st' | _ \<Rightarrow> st)"

theorem callback_own_event_witness:
  "\<exists>st :: unit callbacks. Callback_call self_removing (Suc 5) st 0 2 0 = Some Crash \<and>
    (\<exists>st1. Callback_call self_extending 3 st 0 2 0 = Some (Ret (ErrorCode_SUCCESS, st1)) \<and>
       locks st1 (0, 2) = - 1)"
proof -
  let ?c = "\<lparr>callbackFun = 1, callbackFuncArg = 0, priority = 0\<rparr>"
  let ?st = "(no_callbacks ())\<lparr>needInit := False, theCallbacks := (\<lambda>_. [])((0, 2) := [(10, ?c)])\<rparr>"
  have m: "in_matrix 0 2"
    by (simp add: in_matrix_def CALLBACK_MAX_CALLBACK_IDS_def CALLBACK_MAX_CALLBACK_SUBIDS_def)
  have q: "quiet ?st"
    by (simp add: quiet_def no_callbacks_def)
  have u: "unregisters_itself self_removing 0 2 1" and r: "registers_another self_extending 0 2 1 11 2"
    by (simp_all add: unregisters_itself_def registers_another_def self_removing_def self_extending_def)
  show ?thesis
    using callback_own_event [OF m q, of 10 ?c 1 self_removing 5 0 11 2]
      callback_own_event [OF m q, of 10 ?c 1 self_extending 5 0 11 2] u r
    by (intro exI [of _ ?st]) auto
qed

end
