(* ===== verification/Scapi.thy ===== *)
theory Scapi
  imports OidCmp DefaultStore
begin

text \<open>
  The cryptographic interface (src/Firmware/Core/System/Security/Scapi.c): keyed hashes cut to
  twelve bytes, their check, and encryption with the padding of DES.

  The primitives are those of the OpenSSL library, which the program calls: the record \<open>crypto\<close>
  holds them, and the theorems name what they rely on. A NULL pointer is \<open>None\<close>; the buffers of
  the functions are large enough for what the primitives write (64 bytes for a hash), and a copy
  into the 128 bytes of \<open>my_iv\<close> that does not fit is a \<open>Crash\<close>. The result code is the first
  component.
\<close>

datatype hash_fun = MD5 | SHA1

record crypto =
  digest :: "hash_fun \<Rightarrow> u8 list \<Rightarrow> u8 list option"
  hmac :: "hash_fun \<Rightarrow> u8 list \<Rightarrow> u8 list \<Rightarrow> u8 list"
  des_encrypt :: "u8 list \<Rightarrow> u8 list \<Rightarrow> u8 list \<Rightarrow> u8 list \<times> u8 list"
  des_decrypt :: "u8 list \<Rightarrow> u8 list \<Rightarrow> u8 list \<Rightarrow> u8 list"
  aes_encrypt :: "u8 list \<Rightarrow> u8 list \<Rightarrow> u8 list \<Rightarrow> u8 list"
  aes_decrypt :: "u8 list \<Rightarrow> u8 list \<Rightarrow> u8 list \<Rightarrow> u8 list"

definition ErrorCode_SC_NOT_CONFIGURED :: int where "ErrorCode_SC_NOT_CONFIGURED = - 39"
definition ErrorCode_SC_GENERAL_FAILURE :: int where "ErrorCode_SC_GENERAL_FAILURE = - 38"
definition GENERR :: int where "GENERR = - 1"

definition usm_noAuthProtocol :: "oid list" where "usm_noAuthProtocol = [1, 3, 6, 1, 6, 3, 10, 1, 1, 1]"
definition usm_hMACMD5AuthProtocol :: "oid list" where
  "usm_hMACMD5AuthProtocol = [1, 3, 6, 1, 6, 3, 10, 1, 1, 2]"
definition usm_hMACSHA1AuthProtocol :: "oid list" where
  "usm_hMACSHA1AuthProtocol = [1, 3, 6, 1, 6, 3, 10, 1, 1, 3]"
definition usm_noPrivProtocol :: "oid list" where "usm_noPrivProtocol = [1, 3, 6, 1, 6, 3, 10, 1, 2, 1]"
definition usm_dESPrivProtocol :: "oid list" where "usm_dESPrivProtocol = [1, 3, 6, 1, 6, 3, 10, 1, 2, 2]"
definition usm_aESPrivProtocol :: "oid list" where "usm_aESPrivProtocol = [1, 3, 6, 1, 6, 3, 10, 1, 2, 4]"

lemmas protocol_defs = usm_noAuthProtocol_def usm_hMACMD5AuthProtocol_def usm_hMACSHA1AuthProtocol_def
  usm_noPrivProtocol_def usm_dESPrivProtocol_def usm_aESPrivProtocol_def

definition UTILITIES_USM_LENGTH_OID_TRANSFORM :: nat where "UTILITIES_USM_LENGTH_OID_TRANSFORM = 10"
definition USM_MD5_AND_SHA_AUTH_LEN :: nat where "USM_MD5_AND_SHA_AUTH_LEN = 12"

definition UTILITIES_ISTRANSFORM :: "oid list \<Rightarrow> oid list \<Rightarrow> bool" where
  "UTILITIES_ISTRANSFORM ttype toid \<longleftrightarrow>
     Api_oidCompare (take UTILITIES_USM_LENGTH_OID_TRANSFORM ttype) toid = 0"

definition Scapi_getProperLength :: "oid list \<Rightarrow> int" where
  "Scapi_getProperLength hashType =
     (if UTILITIES_ISTRANSFORM hashType usm_hMACMD5AuthProtocol then (128 + 7) div 8
      else if UTILITIES_ISTRANSFORM hashType usm_hMACSHA1AuthProtocol then (160 + 7) div 8
      else GENERR)"

definition Scapi_getProperPrivLength :: "oid list \<Rightarrow> int" where
  "Scapi_getProperPrivLength privType =
     (if UTILITIES_ISTRANSFORM privType usm_aESPrivProtocol then (128 + 7) div 8
      else if UTILITIES_ISTRANSFORM privType usm_dESPrivProtocol then (64 + 7) div 8 else 0)"

section \<open>Hashes\<close>

text \<open>
  \<open>macLength\<close> is the room of the caller; the result is the code and the bytes written. The test for
  a hash of an unexpected length has no effect: its macro leaves only when the code is an error.
\<close>

definition Scapi_generateKeyedHash ::
    "crypto \<Rightarrow> oid list option \<Rightarrow> u8 list option \<Rightarrow> u8 list option \<Rightarrow> nat \<Rightarrow> int \<times> u8 list" where
  "Scapi_generateKeyedHash cr authType key message macLength =
     (case (authType, key, message) of
        (Some a, Some k, Some msg) \<Rightarrow>
          if k = [] \<or> msg = [] \<or> macLength = 0 \<or> length a \<noteq> UTILITIES_USM_LENGTH_OID_TRANSFORM
          then (ErrorCode_SC_GENERAL_FAILURE, [])
          else if Scapi_getProperLength a = GENERR then (GENERR, [])
          else if int (length k) < Scapi_getProperLength a then (ErrorCode_SC_GENERAL_FAILURE, [])
          else let buf = hmac cr (if UTILITIES_ISTRANSFORM a usm_hMACMD5AuthProtocol then MD5 else SHA1) k msg
            in (0, take macLength buf)
      | _ \<Rightarrow> (ErrorCode_SC_GENERAL_FAILURE, []))"

definition Scapi_hash ::
    "crypto \<Rightarrow> oid list option \<Rightarrow> u8 list option \<Rightarrow> nat \<Rightarrow> int \<times> u8 list" where
  "Scapi_hash cr hashType message macLength =
     (case (hashType, message) of
        (Some h, Some msg) \<Rightarrow>
          if msg = [] then (GENERR, [])
          else if Scapi_getProperLength h < 0 \<or> int macLength < Scapi_getProperLength h then (GENERR, [])
          else (case digest cr (if UTILITIES_ISTRANSFORM h usm_hMACMD5AuthProtocol then MD5 else SHA1) msg of
                  None \<Rightarrow> (ErrorCode_SC_NOT_CONFIGURED, []) | Some d \<Rightarrow> (0, d))
      | _ \<Rightarrow> (GENERR, []))"

definition UTILITIES_MAX_BUFFER_SMALL :: nat where "UTILITIES_MAX_BUFFER_SMALL = 512"

text \<open>\<open>stack\<close>: what the buffer of the function holds before the hash is written into it.\<close>

definition Scapi_checkKeyedHash ::
    "crypto \<Rightarrow> u8 list \<Rightarrow> oid list option \<Rightarrow> u8 list option \<Rightarrow> u8 list option \<Rightarrow> u8 list option \<Rightarrow> int" where
  "Scapi_checkKeyedHash cr stack authType key message mac =
     (case (authType, key, message, mac) of
        (Some a, Some k, Some msg, Some m) \<Rightarrow>
          if k = [] \<or> msg = [] \<or> m = [] \<or> length a \<noteq> UTILITIES_USM_LENGTH_OID_TRANSFORM
          then ErrorCode_SC_GENERAL_FAILURE
          else if length m \<noteq> USM_MD5_AND_SHA_AUTH_LEN then ErrorCode_SC_GENERAL_FAILURE
          else (case Scapi_generateKeyedHash cr authType key message UTILITIES_MAX_BUFFER_SMALL of (rval, buf) \<Rightarrow>
            if rval \<noteq> 0 then ErrorCode_SC_GENERAL_FAILURE
            else if length m > length msg then ErrorCode_SC_GENERAL_FAILURE
            else if take (length m) (buf @ drop (length buf) stack) \<noteq> m
            then ErrorCode_SC_GENERAL_FAILURE
            else 0)
      | _ \<Rightarrow> ErrorCode_SC_GENERAL_FAILURE)"

section \<open>Encryption\<close>

text \<open>
  The last block of a DES plain text that is no multiple of eight is filled up with bytes that
  hold the number of fill bytes; the chaining goes on over it.
\<close>

definition des_cipher :: "crypto \<Rightarrow> u8 list \<Rightarrow> u8 list \<Rightarrow> u8 list \<Rightarrow> nat \<Rightarrow> u8 list option" where
  "des_cipher cr key iv plainText room =
     (let pad_size = 8; n = length plainText;
          pad0 = pad_size - n mod pad_size;
          plast = n - (pad_size - pad0);
          pad = (if pad0 = pad_size then 0 else pad0)
      in if n + pad > room then None
         else case des_encrypt cr (take 8 key) iv (take plast plainText) of (c1, iv1) \<Rightarrow>
           Some (if pad > 0
             then c1 @ fst (des_encrypt cr (take 8 key) iv1
                              (drop plast plainText @ replicate pad (of_nat pad)))
             else c1))"

definition Scapi_encrypt ::
    "crypto \<Rightarrow> oid list option \<Rightarrow> u8 list option \<Rightarrow> u8 list option \<Rightarrow> u8 list option \<Rightarrow> nat \<Rightarrow>
      (int \<times> u8 list) outcome" where
  "Scapi_encrypt cr privType key iv plainText room =
     (case (privType, key, iv, plainText) of
        (Some p, Some k, Some v, Some t) \<Rightarrow>
          if k = [] \<or> v = [] \<or> t = [] \<or> room = 0 \<or> length p \<noteq> UTILITIES_USM_LENGTH_OID_TRANSFORM \<or>
             length t > room
          then Ret (ErrorCode_SC_GENERAL_FAILURE, [])
          else if UTILITIES_ISTRANSFORM p usm_dESPrivProtocol then
            if length k < 8 \<or> length v < 8 then Ret (ErrorCode_SC_GENERAL_FAILURE, [])
            else (case des_cipher cr k v t room of
                    None \<Rightarrow> Ret (ErrorCode_SC_GENERAL_FAILURE, [])
                  | Some c \<Rightarrow> if length v > 128 then Crash else Ret (0, c))
          else if UTILITIES_ISTRANSFORM p usm_aESPrivProtocol then
            if length k < 16 \<or> length v < 16 then Ret (ErrorCode_SC_GENERAL_FAILURE, [])
            else if length v > 128 then Crash
            else Ret (0, aes_encrypt cr (take 16 k) v t)
          else Ret (ErrorCode_SC_GENERAL_FAILURE, [])
      | _ \<Rightarrow> Ret (ErrorCode_SC_GENERAL_FAILURE, []))"

definition Scapi_decrypt ::
    "crypto \<Rightarrow> oid list option \<Rightarrow> u8 list option \<Rightarrow> u8 list option \<Rightarrow> u8 list option \<Rightarrow> nat \<Rightarrow>
      (int \<times> u8 list) outcome" where
  "Scapi_decrypt cr privType key iv cipherText room =
     (case (privType, key, iv, cipherText) of
        (Some p, Some k, Some v, Some c) \<Rightarrow>
          if k = [] \<or> v = [] \<or> c = [] \<or> room = 0 \<or> room < length c \<or>
             length p \<noteq> UTILITIES_USM_LENGTH_OID_TRANSFORM
          then Ret (ErrorCode_SC_GENERAL_FAILURE, [])
          else if UTILITIES_ISTRANSFORM p usm_dESPrivProtocol then
            if length k < 8 \<or> length v < 8 then Ret (ErrorCode_SC_GENERAL_FAILURE, [])
            else if length v > 128 then Crash
            else Ret (0, des_decrypt cr (take 8 k) v c)
          else if UTILITIES_ISTRANSFORM p usm_aESPrivProtocol then
            if length k < 16 \<or> length v < 16 then Ret (ErrorCode_SC_GENERAL_FAILURE, [])
            else if length v > 128 then Crash
            else Ret (0, aes_decrypt cr (take 16 k) v c)
          else Ret (ErrorCode_SC_GENERAL_FAILURE, [])
      | _ \<Rightarrow> Ret (ErrorCode_SC_GENERAL_FAILURE, []))"

section \<open>What the interface promises\<close>

text \<open>
  The documented behaviour of the primitives that the theorems use: the lengths of the keyed
  hashes, the chaining of the DES cipher, and that decryption undoes encryption.
\<close>

definition hmac_lengths :: "crypto \<Rightarrow> bool" where
  "hmac_lengths cr \<longleftrightarrow> (\<forall>k m. length (hmac cr MD5 k m) = 16 \<and> length (hmac cr SHA1 k m) = 20)"

definition cipher_laws :: "crypto \<Rightarrow> bool" where
  "cipher_laws cr \<longleftrightarrow>
     (\<forall>k v p q c1 v1 c2 v2. 8 dvd length p \<longrightarrow> 8 dvd length q \<longrightarrow>
        des_encrypt cr k v p = (c1, v1) \<longrightarrow> des_encrypt cr k v1 q = (c2, v2) \<longrightarrow>
        des_decrypt cr k v (c1 @ c2) = p @ q \<and> length c1 = length p \<and> length c2 = length q) \<and>
     (\<forall>k v p. aes_decrypt cr k v (aes_encrypt cr k v p) = p \<and> length (aes_encrypt cr k v p) = length p)"

lemma transform_iff [simp]:
  "length p = UTILITIES_USM_LENGTH_OID_TRANSFORM \<Longrightarrow> UTILITIES_ISTRANSFORM p q \<longleftrightarrow> p = q"
  by (simp add: UTILITIES_ISTRANSFORM_def)

lemma protocol_lengths [simp]:
  "length usm_hMACMD5AuthProtocol = UTILITIES_USM_LENGTH_OID_TRANSFORM"
  "length usm_hMACSHA1AuthProtocol = UTILITIES_USM_LENGTH_OID_TRANSFORM"
  "length usm_dESPrivProtocol = UTILITIES_USM_LENGTH_OID_TRANSFORM"
  "length usm_aESPrivProtocol = UTILITIES_USM_LENGTH_OID_TRANSFORM"
  "length usm_noAuthProtocol = UTILITIES_USM_LENGTH_OID_TRANSFORM"
  "length usm_noPrivProtocol = UTILITIES_USM_LENGTH_OID_TRANSFORM"
  by (simp_all add: protocol_defs UTILITIES_USM_LENGTH_OID_TRANSFORM_def)

lemma protocols_differ [simp]:
  "usm_hMACSHA1AuthProtocol \<noteq> usm_hMACMD5AuthProtocol" "usm_hMACMD5AuthProtocol \<noteq> usm_hMACSHA1AuthProtocol"
  "usm_aESPrivProtocol \<noteq> usm_dESPrivProtocol" "usm_dESPrivProtocol \<noteq> usm_aESPrivProtocol"
  "usm_hMACMD5AuthProtocol \<noteq> usm_noAuthProtocol" "usm_hMACSHA1AuthProtocol \<noteq> usm_noAuthProtocol"
  by (simp_all add: protocol_defs)

text \<open>The keyed hash of a protocol, and the key length it asks for.\<close>

definition hash_of :: "oid list \<Rightarrow> hash_fun option" where
  "hash_of a = (if a = usm_hMACMD5AuthProtocol then Some MD5
     else if a = usm_hMACSHA1AuthProtocol then Some SHA1 else None)"

definition key_length :: "hash_fun \<Rightarrow> nat" where
  "key_length f = (case f of MD5 \<Rightarrow> 16 | SHA1 \<Rightarrow> 20)"

lemma properLength_hash_of:
  assumes "length a = UTILITIES_USM_LENGTH_OID_TRANSFORM"
  shows "Scapi_getProperLength a = (case hash_of a of None \<Rightarrow> GENERR | Some f \<Rightarrow> int (key_length f))"
  using assms by (auto simp: Scapi_getProperLength_def hash_of_def key_length_def)

lemma check_success:
  assumes "hmac_lengths cr"
  shows "Scapi_checkKeyedHash cr stack (Some a) (Some k) (Some msg) (Some mac) = 0 \<longleftrightarrow>
    (\<exists>f. hash_of a = Some f \<and> key_length f \<le> length k \<and> 12 \<le> length msg \<and> mac = take 12 (hmac cr f k msg))"
proof -
  have len: "length (hmac cr f k msg) = key_length f" "12 < key_length f" "k \<noteq> []" if "key_length f \<le> length k" for f
    using assms that by (cases f; force simp: hmac_lengths_def key_length_def)+
  have other: "length a = UTILITIES_USM_LENGTH_OID_TRANSFORM" if "hash_of a = Some f" for f
    using that by (auto simp: hash_of_def split: if_splits)
  show ?thesis
  proof (cases "length a = UTILITIES_USM_LENGTH_OID_TRANSFORM \<and> length mac = 12")
    case False
    have "\<not> (\<exists>f. hash_of a = Some f \<and> key_length f \<le> length k \<and> mac = take 12 (hmac cr f k msg))"
      using False other len(1,2) by (metis length_take min.absorb2 less_imp_le)
    moreover have "Scapi_checkKeyedHash cr stack (Some a) (Some k) (Some msg) (Some mac) \<noteq> 0"
      using False by (auto simp: Scapi_checkKeyedHash_def USM_MD5_AND_SHA_AUTH_LEN_def
        ErrorCode_SC_GENERAL_FAILURE_def)
    ultimately show ?thesis
      by blast
  next
    case True
    then have "mac \<noteq> []"
      by auto
    show ?thesis
    proof (cases "hash_of a")
      case None
      then show ?thesis
        using True \<open>mac \<noteq> []\<close> properLength_hash_of [of a]
        by (simp add: Scapi_checkKeyedHash_def Scapi_generateKeyedHash_def USM_MD5_AND_SHA_AUTH_LEN_def
          ErrorCode_SC_GENERAL_FAILURE_def GENERR_def)
    next
      case (Some f)
      have f: "(if UTILITIES_ISTRANSFORM a usm_hMACMD5AuthProtocol then MD5 else SHA1) = f"
        using True Some by (auto simp: hash_of_def split: if_splits)
      have p: "Scapi_getProperLength a = int (key_length f)"
        using True Some properLength_hash_of [of a] by simp
      show ?thesis
      proof (cases "key_length f \<le> length k")
        case False
        then show ?thesis
          using True Some p \<open>mac \<noteq> []\<close>
          by (auto simp: Scapi_checkKeyedHash_def Scapi_generateKeyedHash_def USM_MD5_AND_SHA_AUTH_LEN_def
            ErrorCode_SC_GENERAL_FAILURE_def GENERR_def UTILITIES_MAX_BUFFER_SMALL_def)
      next
        case key: True
        note l = len [OF key]
        have "Scapi_generateKeyedHash cr (Some a) (Some k) (Some msg) UTILITIES_MAX_BUFFER_SMALL =
            (if msg = [] then (ErrorCode_SC_GENERAL_FAILURE, []) else (0, hmac cr f k msg))"
          using True p key l f
          by (auto simp: Scapi_generateKeyedHash_def UTILITIES_MAX_BUFFER_SMALL_def GENERR_def
            key_length_def split: hash_fun.split)
        then show ?thesis
          using True Some l key \<open>mac \<noteq> []\<close>
          by (auto simp: Scapi_checkKeyedHash_def USM_MD5_AND_SHA_AUTH_LEN_def ErrorCode_SC_GENERAL_FAILURE_def)
      qed
    qed
  qed
qed

section \<open>Decryption undoes encryption\<close>

lemma des_cipher_decrypt:
  assumes "cipher_laws cr" and "des_cipher cr key iv t cap = Some c"
  shows "\<exists>pad < 8. 8 dvd (length t + pad) \<and> length c = length t + pad \<and>
    des_decrypt cr (take 8 key) iv c = t @ replicate pad (of_nat pad)"
proof -
  let ?n = "length t"
  define pad where "pad = (if ?n mod 8 = 0 then 0 else 8 - ?n mod 8)"
  define plast where "plast = ?n - ?n mod 8"
  have m: "?n mod 8 < 8" "?n mod 8 \<le> ?n"
    by simp_all
  have plast: "8 dvd plast" "plast \<le> ?n" "?n - (8 - (8 - ?n mod 8)) = plast"
    using m by (auto simp: plast_def dvd_minus_mod)
  have dv: "8 dvd (?n - plast + pad)" "8 dvd (?n + pad)"
    using m by (auto simp: plast_def pad_def mod_eq_0_iff_dvd) presburger+
  obtain c1 v1 where c1: "des_encrypt cr (take 8 key) iv (take plast t) = (c1, v1)"
    by fastforce
  let ?q = "drop plast t @ replicate pad (of_nat pad)"
  obtain c2 v2 where c2: "des_encrypt cr (take 8 key) v1 ?q = (c2, v2)"
    by fastforce
  have "8 dvd length (take plast t)" "8 dvd length ?q"
    using plast(1,2) dv(1) by simp_all
  then have "des_decrypt cr (take 8 key) iv (c1 @ c2) = take plast t @ ?q \<and>
      length c1 = length (take plast t) \<and> length c2 = length ?q"
    using assms(1) c1 c2 unfolding cipher_laws_def by blast
  then have laws: "des_decrypt cr (take 8 key) iv (c1 @ c2) = take plast t @ ?q"
    "length c1 = plast" "length c2 = length ?q"
    using plast(2) by simp_all
  have "c = c1 @ c2"
  proof (cases "pad = 0")
    case True
    then have "?q = []"
      by (auto simp: pad_def plast_def split: if_splits)
    then have "c2 = []"
      using laws(3) by simp
    then show ?thesis
      using assms(2) True c1 plast by (auto simp: des_cipher_def Let_def pad_def split: if_splits)
  next
    case False
    then show ?thesis
      using assms(2) c1 c2 plast by (auto simp: des_cipher_def Let_def pad_def split: if_splits)
  qed
  then show ?thesis
    using laws dv(2) plast(2) m by (intro exI [of _ pad]) (auto simp: pad_def)
qed

lemma encrypt_decrypt:
  assumes "cipher_laws cr" and "Scapi_encrypt cr (Some p) (Some k) (Some v) (Some t) cap = Ret (0, c)"
    and "length c \<le> cap2"
  shows "\<exists>pad < 8. Scapi_decrypt cr (Some p) (Some k) (Some v) (Some c) cap2 =
      Ret (0, t @ replicate pad (of_nat pad)) \<and> length c = length t + pad \<and>
    (p = usm_dESPrivProtocol \<and> 8 dvd length c \<or> p = usm_aESPrivProtocol \<and> pad = 0)"
proof -
  have p: "length p = UTILITIES_USM_LENGTH_OID_TRANSFORM" and ne: "k \<noteq> []" "v \<noteq> []" "t \<noteq> []"
    using assms(2) by (auto simp: Scapi_encrypt_def ErrorCode_SC_GENERAL_FAILURE_def split: if_splits)
  show ?thesis
  proof (cases "p = usm_dESPrivProtocol")
    case True
    then have d: "des_cipher cr k v t cap = Some c" and l: "8 \<le> length k" "8 \<le> length v" "length v \<le> 128"
      using assms(2) p by (auto simp: Scapi_encrypt_def ErrorCode_SC_GENERAL_FAILURE_def
        split: if_splits option.splits)
    from des_cipher_decrypt [OF assms(1) d] obtain pad where pad: "pad < 8" "8 dvd (length t + pad)"
      "length c = length t + pad" "des_decrypt cr (take 8 k) v c = t @ replicate pad (of_nat pad)"
      by blast
    then have "c \<noteq> []"
      using ne by auto
    then have "0 < cap2"
      using assms(3) by (cases c) auto
    have "Scapi_decrypt cr (Some p) (Some k) (Some v) (Some c) cap2 = Ret (0, des_decrypt cr (take 8 k) v c)"
      using True l ne p assms(3) \<open>c \<noteq> []\<close> \<open>0 < cap2\<close> by (simp add: Scapi_decrypt_def)
    then show ?thesis
      using True pad(1,2) unfolding pad(4) pad(3) by blast
  next
    case False
    then have a: "p = usm_aESPrivProtocol" "c = aes_encrypt cr (take 16 k) v t"
      and l: "16 \<le> length k" "16 \<le> length v" "length v \<le> 128"
      using assms(2) p by (auto simp: Scapi_encrypt_def ErrorCode_SC_GENERAL_FAILURE_def split: if_splits)
    have "aes_decrypt cr (take 16 k) v c = t \<and> length c = length t"
      using assms(1) unfolding a(2) cipher_laws_def by blast
    then have "aes_decrypt cr (take 16 k) v c = t" "length c = length t"
      by simp_all
    moreover from this have "c \<noteq> []" "0 < cap2"
      using ne(3) assms(3) by (cases c; simp)+
    moreover have "Scapi_decrypt cr (Some p) (Some k) (Some v) (Some c) cap2 = Ret (0, aes_decrypt cr (take 16 k) v c)"
      using a(1) l ne p assms(3) \<open>c \<noteq> []\<close> \<open>0 < cap2\<close> by (simp add: Scapi_decrypt_def)
    ultimately show ?thesis
      using a(1) by (intro exI [of _ "0 :: nat"]) simp
  qed
qed

end
