(* ===== verification/Engine.thy ===== *)
theory Engine
  imports Scapi
begin

text \<open>
  The clocks of the engines (src/Firmware/Core/System/Security/Engine.c and the local engine of
  src/Firmware/Core/V3.c): for every engine heard of, its boot counter and time as last taken over
  and the local time at which that was, in lists under a hash of the engine identifier.

  The local clock is a parameter \<open>uptime\<close>: the seconds since the start at the n-th reading. Every
  reading goes through \<open>V3_localEngineTime\<close>, which counts a boot when its 31 bits wrap.
\<close>

definition SUCCESS :: int where "SUCCESS = 0"
definition engineLIST_SIZE :: nat where "engineLIST_SIZE = 23"
definition UTILITIES_ENGINETIME_MAX :: u32 where "UTILITIES_ENGINETIME_MAX = 2147483647"
definition UTILITIES_ENGINEBOOT_MAX :: u32 where "UTILITIES_ENGINEBOOT_MAX = 2147483647"

record engine =
  engineId :: "u8 list"
  engineBoot :: u32
  engineTime :: u32
  lastReceivedEngineTime :: u64
  authenticatedFlag :: bool

record engines =
  engine_list :: "nat \<Rightarrow> engine list"
  v3_engineBoots :: u32
  last_engineTime :: u32
  v3_engineID :: "u8 list option"
  readings :: nat

definition V3_localEngineBoots :: "engines \<Rightarrow> u32" where
  "V3_localEngineBoots st = v3_engineBoots st"

definition V3_localEngineTime :: "(nat \<Rightarrow> u32) \<Rightarrow> engines \<Rightarrow> u32 \<times> engines" where
  "V3_localEngineTime uptime st =
     (let engineTime = uptime (readings st) AND 0x7fffffff in
      (engineTime,
       st\<lparr>v3_engineBoots := (if engineTime < last_engineTime st then v3_engineBoots st + 1
                             else v3_engineBoots st),
          last_engineTime := engineTime, readings := readings st + 1\<rparr>))"

definition V3_getEngineID :: "engines \<Rightarrow> nat \<Rightarrow> u8 list" where
  "V3_getEngineID st buflen =
     (case v3_engineID st of None \<Rightarrow> [] | Some i \<Rightarrow> if buflen < length i then [] else i)"

section \<open>The lists\<close>

text \<open>The hash falls back to SHA1 where MD5 is not available; every fourth byte counts.\<close>

fun every_fourth :: "u8 list \<Rightarrow> u32" where
  "every_fourth [] = 0"
| "every_fourth (b # bs) = ucast b + every_fourth (drop 3 bs)"

definition Engine_hashEngineId :: "crypto \<Rightarrow> u8 list \<Rightarrow> int" where
  "Engine_hashEngineId cr i =
     (if i = [] then GENERR
      else let r1 = Scapi_hash cr (Some usm_hMACMD5AuthProtocol) (Some i) UTILITIES_MAX_BUFFER;
               (rval, buf) = (if fst r1 = ErrorCode_SC_NOT_CONFIGURED
                 then Scapi_hash cr (Some usm_hMACSHA1AuthProtocol) (Some i) UTILITIES_MAX_BUFFER
                 else r1)
           in if rval \<noteq> SUCCESS then GENERR
              else int (unat (every_fourth buf mod of_nat engineLIST_SIZE)))"

definition Engine_searchInList :: "crypto \<Rightarrow> engines \<Rightarrow> u8 list \<Rightarrow> engine option" where
  "Engine_searchInList cr st i =
     (if i = [] then None
      else let h = Engine_hashEngineId cr i in
        if h < 0 then None else find (\<lambda>e. engineId e = i) (engine_list st (nat h)))"

text \<open>
  Reading the clock of an engine: boots, estimated time and the time last taken over; zeros where
  the record is not authenticated and an authenticated one is asked for. The local clock is only
  read when it is needed.
\<close>

definition Engine_getEx ::
    "crypto \<Rightarrow> (nat \<Rightarrow> u32) \<Rightarrow> engines \<Rightarrow> u8 list \<Rightarrow> bool \<Rightarrow> int \<times> (u32 \<times> u32 \<times> u32) \<times> engines" where
  "Engine_getEx cr uptime st i authFlag =
     (case Engine_searchInList cr st i of
        None \<Rightarrow> (GENERR, (0, 0, 0), st)
      | Some e \<Rightarrow>
          let ((boots, time, last, timediff), st') =
                (if \<not> authFlag \<or> authenticatedFlag e then
                   (case V3_localEngineTime uptime st of (now, st1) \<Rightarrow>
                     ((engineBoot e, engineTime e, engineTime e,
                       (ucast (ucast now - lastReceivedEngineTime e :: u64) :: u32)), st1))
                 else ((0, 0, 0, 0), st))
          in if sint timediff > sint (UTILITIES_ENGINETIME_MAX - time)
             then (SUCCESS, (if boots < UTILITIES_ENGINEBOOT_MAX then boots + 1 else boots,
                     timediff - (UTILITIES_ENGINETIME_MAX - time), last), st')
             else (SUCCESS, (boots, time + timediff, last), st'))"

definition Engine_get ::
    "crypto \<Rightarrow> (nat \<Rightarrow> u32) \<Rightarrow> engines \<Rightarrow> u8 list \<Rightarrow> bool \<Rightarrow> int \<times> (u32 \<times> u32) \<times> engines" where
  "Engine_get cr uptime st i authFlag =
     (case Engine_searchInList cr st i of
        None \<Rightarrow> (GENERR, (0, 0), st)
      | Some e \<Rightarrow>
          let ((boots, time, timediff), st') =
                (if \<not> authFlag \<or> authenticatedFlag e then
                   (case V3_localEngineTime uptime st of (now, st1) \<Rightarrow>
                     ((engineBoot e, engineTime e,
                       (ucast (ucast now - lastReceivedEngineTime e :: u64) :: u32)), st1))
                 else ((0, 0, 0), st))
          in if sint timediff > sint (UTILITIES_ENGINETIME_MAX - time)
             then (SUCCESS, (if boots < UTILITIES_ENGINEBOOT_MAX then boots + 1 else boots,
                     timediff - (UTILITIES_ENGINETIME_MAX - time)), st')
             else (SUCCESS, (boots, time + timediff), st'))"

text \<open>
  Taking over a time: into the record of the engine, made in front of its list where there is
  none, unless that would replace an authenticated time by one that is not. \<open>room\<close> says whether a
  record can be allocated; the code does not check.
\<close>

fun update_first :: "('a \<Rightarrow> bool) \<Rightarrow> ('a \<Rightarrow> 'a) \<Rightarrow> 'a list \<Rightarrow> 'a list" where
  "update_first P f [] = []"
| "update_first P f (x # xs) = (if P x then f x # xs else x # update_first P f xs)"

definition new_engine :: "u8 list \<Rightarrow> engine" where
  "new_engine i = \<lparr>engineId = i, engineBoot = 0, engineTime = 0, lastReceivedEngineTime = 0,
     authenticatedFlag = False\<rparr>"

definition Engine_set ::
    "crypto \<Rightarrow> (nat \<Rightarrow> u32) \<Rightarrow> bool \<Rightarrow> engines \<Rightarrow> u8 list \<Rightarrow> u32 \<Rightarrow> u32 \<Rightarrow> bool \<Rightarrow> (int \<times> engines) outcome" where
  "Engine_set cr uptime room st i boots time authFlag =
     (if i = [] then Ret (SUCCESS, st)
      else let h = Engine_hashEngineId cr i; known = Engine_searchInList cr st i in
        if known = None \<and> h < 0 then Ret (GENERR, st)
        else if known = None \<and> \<not> room then Crash
        else let st1 = (if known = None
               then st\<lparr>engine_list := (engine_list st)(nat h := new_engine i # engine_list st (nat h))\<rparr>
               else st);
             e = the (Engine_searchInList cr st1 i)
        in if authFlag \<or> \<not> authenticatedFlag e then
             (case V3_localEngineTime uptime st1 of (now, st2) \<Rightarrow>
               Ret (SUCCESS, st2\<lparr>engine_list := (engine_list st2)(nat h :=
                 update_first (\<lambda>e. engineId e = i)
                   (\<lambda>e. e\<lparr>authenticatedFlag := authFlag, engineTime := time, engineBoot := boots,
                          lastReceivedEngineTime := ucast now\<rparr>)
                   (engine_list st2 (nat h)))\<rparr>))
           else Ret (SUCCESS, st1))"

text \<open>Freeing an engine empties the whole list that its hash leads to.\<close>

definition Engine_free :: "crypto \<Rightarrow> engines \<Rightarrow> u8 list \<Rightarrow> engines" where
  "Engine_free cr st i =
     (let h = Engine_hashEngineId cr i in
      if h < 0 then st else st\<lparr>engine_list := (engine_list st)(nat h := [])\<rparr>)"

definition Engine_clear :: "engines \<Rightarrow> engines" where
  "Engine_clear st = st\<lparr>engine_list := (\<lambda>_. [])\<rparr>"

definition engineIS_ENGINE_KNOWN :: "crypto \<Rightarrow> (nat \<Rightarrow> u32) \<Rightarrow> engines \<Rightarrow> u8 list \<Rightarrow> bool \<times> engines" where
  "engineIS_ENGINE_KNOWN cr uptime st i =
     (case Engine_get cr uptime st i True of (rc, _, st') \<Rightarrow> (rc = SUCCESS, st'))"

definition engineENSURE_ENGINE_RECORD ::
    "crypto \<Rightarrow> (nat \<Rightarrow> u32) \<Rightarrow> bool \<Rightarrow> engines \<Rightarrow> u8 list \<Rightarrow> (int \<times> engines) outcome" where
  "engineENSURE_ENGINE_RECORD cr uptime room st i =
     obind (Engine_set cr uptime room st i 0 0 False) (\<lambda>(rc, st').
     Ret (if rc = SUCCESS then SUCCESS else GENERR, st'))"

section \<open>Records as a map\<close>

lemma search_iff:
  "Engine_searchInList cr st i =
    (if i = [] \<or> Engine_hashEngineId cr i < 0 then None
     else find (\<lambda>e. engineId e = i) (engine_list st (nat (Engine_hashEngineId cr i))))"
  by (auto simp: Engine_searchInList_def Let_def)

lemma search_cong:
  "engine_list st' = engine_list st \<Longrightarrow> Engine_searchInList cr st' i = Engine_searchInList cr st i"
  by (simp add: search_iff)

lemma find_update_first:
  assumes "\<And>e. engineId (f e) = engineId e"
  shows "find (\<lambda>e. engineId e = j) (update_first (\<lambda>e. engineId e = i) f xs) =
    (if j = i then map_option f (find (\<lambda>e. engineId e = i) xs) else find (\<lambda>e. engineId e = j) xs)"
  by (induction xs) (auto simp: assms)

lemma localTime_list [simp]:
  "engine_list (snd (V3_localEngineTime uptime st)) = engine_list st"
  "v3_engineID (snd (V3_localEngineTime uptime st)) = v3_engineID st"
  "readings (snd (V3_localEngineTime uptime st)) = readings st + 1"
  by (simp_all add: V3_localEngineTime_def Let_def)

lemma localTime_value [simp]:
  "fst (V3_localEngineTime uptime st) = uptime (readings st) AND 0x7fffffff"
  by (simp add: V3_localEngineTime_def Let_def)

text \<open>
  Taking over a time changes the record of this engine alone, and not where that would replace an
  authenticated time by one that is not.
\<close>

definition hashable :: "crypto \<Rightarrow> u8 list \<Rightarrow> bool" where
  "hashable cr i \<longleftrightarrow> i \<noteq> [] \<and> 0 \<le> Engine_hashEngineId cr i"

definition known_engine :: "crypto \<Rightarrow> engines \<Rightarrow> u8 list \<Rightarrow> engine" where
  "known_engine cr st i =
     (case Engine_searchInList cr st i of None \<Rightarrow> new_engine i | Some e \<Rightarrow> e)"

lemma Engine_set_search:
  assumes "hashable cr i" and "room \<or> Engine_searchInList cr st i \<noteq> None"
  obtains st' where "Engine_set cr uptime room st i boots time a = Ret (SUCCESS, st')"
    and "\<forall>j. Engine_searchInList cr st' j =
      (if j = i then Some (if a \<or> \<not> authenticatedFlag (known_engine cr st i)
         then \<lparr>engineId = i, engineBoot = boots, engineTime = time,
               lastReceivedEngineTime = ucast (uptime (readings st) AND 0x7fffffff), authenticatedFlag = a\<rparr>
         else known_engine cr st i)
       else Engine_searchInList cr st j)"
    and "v3_engineID st' = v3_engineID st"
    and "readings st' = readings st + (if a \<or> \<not> authenticatedFlag (known_engine cr st i) then 1 else 0)"
proof -
  let ?h = "nat (Engine_hashEngineId cr i)"
  let ?s = "Engine_searchInList cr st i"
  define st1 where "st1 = (if ?s = None
    then st\<lparr>engine_list := (engine_list st)(?h := new_engine i # engine_list st ?h)\<rparr> else st)"
  have i: "i \<noteq> []" "\<not> Engine_hashEngineId cr i < 0"
    using assms(1) by (auto simp: hashable_def)
  have s1: "Engine_searchInList cr st1 j =
      (if j = i then Some (known_engine cr st i) else Engine_searchInList cr st j)" for j
    using i by (auto simp: st1_def search_iff known_engine_def new_engine_def split: option.splits)
  have f1: "find (\<lambda>e. engineId e = i) (engine_list st1 ?h) = Some (known_engine cr st i)"
    using s1 [of i] i by (simp add: search_iff)
  have id: "engineId (known_engine cr st i) = i"
    using f1 by (auto simp: find_Some_iff)
  have r1: "v3_engineID st1 = v3_engineID st" "readings st1 = readings st"
    by (simp_all add: st1_def)
  show thesis
  proof (cases "a \<or> \<not> authenticatedFlag (known_engine cr st i)")
    case False
    then have "Engine_set cr uptime room st i boots time a = Ret (SUCCESS, st1)"
      using i assms(2) s1 [of i] by (auto simp: Engine_set_def Let_def st1_def [symmetric])
    then show ?thesis
      using that [of st1] s1 r1 False by auto
  next
    case True
    let ?f = "\<lambda>e. e\<lparr>authenticatedFlag := a, engineTime := time, engineBoot := boots,
      lastReceivedEngineTime := ucast (uptime (readings st) AND 0x7fffffff)\<rparr>"
    define st2 where "st2 = snd (V3_localEngineTime uptime st1)"
    define st3 where "st3 = st2\<lparr>engine_list := (engine_list st2)(?h :=
      update_first (\<lambda>e. engineId e = i) ?f (engine_list st2 ?h))\<rparr>"
    have l2: "engine_list st2 = engine_list st1" "v3_engineID st2 = v3_engineID st" "readings st2 = readings st + 1"
      by (simp_all add: st2_def r1)
    have "V3_localEngineTime uptime st1 = (uptime (readings st) AND 0x7fffffff, st2)"
      by (simp add: st2_def r1 prod_eq_iff)
    then have "Engine_set cr uptime room st i boots time a = Ret (SUCCESS, st3)"
      using i assms(2) s1 [of i] True
      by (auto simp: Engine_set_def Let_def st1_def [symmetric] st3_def)
    moreover have "Engine_searchInList cr st3 j = (if j = i then Some (?f (known_engine cr st i))
        else Engine_searchInList cr st j)" for j
    proof (cases "j = [] \<or> Engine_hashEngineId cr j < 0")
      case True
      then show ?thesis
        using i by (auto simp: search_iff)
    next
      case False
      then have "Engine_searchInList cr st3 j = (if Engine_hashEngineId cr j = Engine_hashEngineId cr i
          then find (\<lambda>e. engineId e = j) (update_first (\<lambda>e. engineId e = i) ?f (engine_list st1 ?h))
          else Engine_searchInList cr st1 j)"
        using i by (auto simp: search_iff st3_def l2 eq_nat_nat_iff)
      also have "\<dots> = (if j = i then Some (?f (known_engine cr st i)) else Engine_searchInList cr st1 j)"
        using f1 False by (auto simp: find_update_first search_iff)
      finally show ?thesis
        using s1 [of j] by simp
    qed
    ultimately show ?thesis
      using that [of st3] True id by (auto simp: st3_def l2 intro!: engine.equality)
  qed
qed

end
