(* ===== verification/UsmUser.thy ===== *)
theory UsmUser
  imports Scapi TextConv
begin

text \<open>
  The users of the user-based security model (src/Firmware/Core/System/Security/Usm.c): the list
  of users, ordered by engine and name, its lookup, insertion and removal, and the check of a
  security level against the protocols of a user.

  A user is a record with the address \<open>uaddr\<close> of its structure; NULL fields are \<open>None\<close>. The
  length of an engine identifier is that of its bytes, 0 for NULL. Names are C strings.
\<close>

record user =
  uaddr :: nat
  engineID :: "u8 list option"
  uname :: "u8 list"
  secName :: "u8 list"
  authProtocol :: "oid list"
  authKey :: "u8 list option"
  privProtocol :: "oid list"
  privKey :: "u8 list option"
  userStatus :: int

definition engineIDLen :: "user \<Rightarrow> nat" where
  "engineIDLen u = (case engineID u of None \<Rightarrow> 0 | Some i \<Rightarrow> length i)"

section \<open>Lookup\<close>

fun find_user :: "u8 list option \<Rightarrow> u8 list \<Rightarrow> user list \<Rightarrow> user option" where
  "find_user i n [] = None"
| "find_user i n (p # ps) =
     (if uname p = n \<and> engineIDLen p = (case i of None \<Rightarrow> 0 | Some x \<Rightarrow> length x) \<and>
         (engineID p = None \<and> i = None \<or>
          engineID p \<noteq> None \<and> i \<noteq> None \<and> memcmp (the (engineID p)) (the i) (length (the i)) = 0)
      then Some p else find_user i n ps)"

definition Usm_getUserFromList ::
    "u8 list option \<Rightarrow> u8 list option \<Rightarrow> user list \<Rightarrow> user option \<Rightarrow> bool \<Rightarrow> user option" where
  "Usm_getUserFromList i name puserList noNameUser use_default =
     (let n = (case name of None \<Rightarrow> [] | Some s \<Rightarrow> s) in
      case find_user i n puserList of
        Some p \<Rightarrow> Some p
      | None \<Rightarrow> if use_default \<and> n = [] then noNameUser else None)"

section \<open>Insertion\<close>

text \<open>Whether the new user stands in front of a user, replaces it or stands behind it.\<close>

datatype place = Stop | Replace | Go

definition user_place :: "user \<Rightarrow> user \<Rightarrow> place" where
  "user_place user nptr =
     (if engineIDLen nptr > engineIDLen user then Stop
      else if engineID user = None \<and> engineID nptr \<noteq> None then Stop
      else if engineIDLen nptr = engineIDLen user \<and> engineID nptr \<noteq> None \<and> engineID user \<noteq> None \<and>
          memcmp (the (engineID nptr)) (the (engineID user)) (engineIDLen user) > 0 then Stop
      else if \<not> (engineID nptr = None \<and> engineID user \<noteq> None) then
        (let same = (engineIDLen nptr = engineIDLen user \<and>
               (engineID nptr = None \<and> engineID user = None \<or>
                memcmp (the (engineID nptr)) (the (engineID user)) (engineIDLen user) = 0))
         in if same \<and> length (uname nptr) > length (uname user) then Stop
            else if same \<and> length (uname nptr) = length (uname user) \<and> uname user < uname nptr then Stop
            else if same \<and> length (uname nptr) = length (uname user) \<and> uname nptr = uname user
            then Replace
            else Go)
      else Go)"

fun Usm_addUserToList :: "user \<Rightarrow> user list \<Rightarrow> user list" where
  "Usm_addUserToList user [] = [user]"
| "Usm_addUserToList user (nptr # rest) =
     (case user_place user nptr of
        Stop \<Rightarrow> user # nptr # rest
      | Replace \<Rightarrow> user # rest
      | Go \<Rightarrow> nptr # Usm_addUserToList user rest)"

section \<open>Removal\<close>

text \<open>The user at an address; the result is the new head, NULL also where the user is not found.\<close>

definition Usm_removeUserFromList :: "nat \<Rightarrow> user list \<Rightarrow> user option \<times> user list" where
  "Usm_removeUserFromList p users =
     (case find (\<lambda>u. uaddr u = p) users of
        None \<Rightarrow> (None, users)
      | Some u \<Rightarrow> (let rest = takeWhile (\<lambda>u. uaddr u \<noteq> p) users @ tl (dropWhile (\<lambda>u. uaddr u \<noteq> p) users)
                  in (case rest of [] \<Rightarrow> None | v # _ \<Rightarrow> Some v, rest)))"

section \<open>Security levels\<close>

definition PRIOT_SEC_LEVEL_NOAUTH :: int where "PRIOT_SEC_LEVEL_NOAUTH = 1"
definition PRIOT_SEC_LEVEL_AUTHNOPRIV :: int where "PRIOT_SEC_LEVEL_AUTHNOPRIV = 2"
definition PRIOT_SEC_LEVEL_AUTHPRIV :: int where "PRIOT_SEC_LEVEL_AUTHPRIV = 3"

definition Usm_checkSecLevelVsProtocols :: "int \<Rightarrow> oid list \<Rightarrow> oid list \<Rightarrow> int" where
  "Usm_checkSecLevelVsProtocols level authProt privProt =
     (if level = PRIOT_SEC_LEVEL_AUTHPRIV \<and>
         Api_oidEquals (Some privProt) (length privProt)
           (Some usm_noPrivProtocol) (length usm_noPrivProtocol) = 0 then 1
      else if (level = PRIOT_SEC_LEVEL_AUTHPRIV \<or> level = PRIOT_SEC_LEVEL_AUTHNOPRIV) \<and>
         Api_oidEquals (Some authProt) (length authProt)
           (Some usm_noAuthProtocol) (length usm_noAuthProtocol) = 0 then 1
      else 0)"

definition Usm_checkSecLevel :: "int \<Rightarrow> user \<Rightarrow> int" where
  "Usm_checkSecLevel level user =
     (if userStatus user \<noteq> tcROW_STATUS_ACTIVE then - 1
      else if level = PRIOT_SEC_LEVEL_AUTHPRIV \<and>
         Api_oidEquals (Some (privProtocol user)) (length (privProtocol user))
           (Some usm_noPrivProtocol) (length usm_noPrivProtocol) = 0 then 1
      else if (level = PRIOT_SEC_LEVEL_AUTHPRIV \<or> level = PRIOT_SEC_LEVEL_AUTHNOPRIV) \<and>
         Api_oidEquals (Some (authProtocol user)) (length (authProtocol user))
           (Some usm_noAuthProtocol) (length usm_noAuthProtocol) = 0 then 1
      else 0)"

section \<open>Order\<close>

text \<open>The index of the user table: engine by length and bytes, NULL first, then name alike.\<close>

definition user_key :: "user \<Rightarrow> (nat \<times> u8 list option) \<times> nat \<times> u8 list" where
  "user_key u = ((engineIDLen u, engineID u), length (uname u), uname u)"

definition option_less :: "u8 list option \<Rightarrow> u8 list option \<Rightarrow> bool" where
  "option_less a b \<longleftrightarrow> (case (a, b) of
     (None, Some _) \<Rightarrow> True | (Some x, Some y) \<Rightarrow> x < y | _ \<Rightarrow> False)"

definition user_less :: "user \<Rightarrow> user \<Rightarrow> bool" where
  "user_less a b \<longleftrightarrow> engineIDLen a < engineIDLen b \<or>
     engineIDLen a = engineIDLen b \<and>
       (option_less (engineID a) (engineID b) \<or>
        engineID a = engineID b \<and>
          (length (uname a) < length (uname b) \<or>
           length (uname a) = length (uname b) \<and> uname a < uname b))"

lemma memcmp_equal_length:
  assumes "length a = k" and "length b = k"
  shows "memcmp a b k = 0 \<longleftrightarrow> a = b" and "memcmp a b k > 0 \<longleftrightarrow> b < a"
  using assms by (auto simp: memcmp_def)

lemma option_less_trans: "option_less a b \<Longrightarrow> option_less b c \<Longrightarrow> option_less a c"
  by (auto simp: option_less_def split: option.splits)

lemma user_less_trans: "user_less a b \<Longrightarrow> user_less b c \<Longrightarrow> user_less a c"
  unfolding user_less_def using option_less_trans by auto

lemma user_less_irrefl [simp]: "\<not> user_less a a"
  by (auto simp: user_less_def option_less_def split: option.splits)

lemma user_less_total: "user_less a b \<or> user_key a = user_key b \<or> user_less b a"
  unfolding user_less_def user_key_def option_less_def
  by (cases "engineID a"; cases "engineID b") auto

lemma place_less:
  assumes "user_less u n"
  shows "user_place u n = Stop"
proof (cases "engineIDLen u < engineIDLen n")
  case True
  then show ?thesis
    by (simp add: user_place_def)
next
  case False
  then have l: "engineIDLen u = engineIDLen n" and
    o: "option_less (engineID u) (engineID n) \<or> engineID u = engineID n \<and>
          (length (uname u) < length (uname n) \<or>
           length (uname u) = length (uname n) \<and> uname u < uname n)"
    using assms by (auto simp: user_less_def)
  show ?thesis
    using l o unfolding user_place_def
    by (cases "engineID u"; cases "engineID n")
      (auto simp: option_less_def engineIDLen_def Let_def memcmp_equal_length)
qed

lemma place_same: "user_key u = user_key n \<Longrightarrow> user_place u n = Replace"
  unfolding user_place_def user_key_def
  by (cases "engineID u"; cases "engineID n")
    (auto simp: engineIDLen_def Let_def memcmp_equal_length)

lemma place_greater:
  assumes "user_less n u"
  shows "user_place u n = Go"
proof (cases "engineIDLen n < engineIDLen u")
  case True
  then show ?thesis
    by (cases "engineID u") (auto simp: user_place_def engineIDLen_def Let_def)
next
  case False
  then have l: "engineIDLen u = engineIDLen n" and
    o: "option_less (engineID n) (engineID u) \<or> engineID n = engineID u \<and>
          (length (uname n) < length (uname u) \<or>
           length (uname n) = length (uname u) \<and> uname n < uname u)"
    using assms by (auto simp: user_less_def)
  show ?thesis
    using l o unfolding user_place_def
    by (cases "engineID u"; cases "engineID n")
      (auto simp: option_less_def engineIDLen_def Let_def memcmp_equal_length)
qed

lemma user_place_iff:
  "user_place u n = Stop \<longleftrightarrow> user_less u n"
  "user_place u n = Replace \<longleftrightarrow> user_key u = user_key n"
  "user_place u n = Go \<longleftrightarrow> user_less n u"
  using user_less_total [of u n] place_less [of u n] place_same [of u n] place_greater [of n u] by auto

definition users_ok :: "user list \<Rightarrow> bool" where
  "users_ok users \<longleftrightarrow> sorted_wrt user_less users"

lemma user_less_key: "user_key a = user_key b \<Longrightarrow> user_less a c \<longleftrightarrow> user_less b c"
  "user_key a = user_key b \<Longrightarrow> user_less c a \<longleftrightarrow> user_less c b"
  by (auto simp: user_less_def user_key_def)

lemma set_addUser:
  "set (Usm_addUserToList u users) \<subseteq> insert u (set users)"
  by (induction u users rule: Usm_addUserToList.induct) (auto split: place.splits)

lemma addUser_ok: "users_ok users \<Longrightarrow> users_ok (Usm_addUserToList u users)"
  unfolding users_ok_def
proof (induction u users rule: Usm_addUserToList.induct)
  case (2 u n rest)
  show ?case
  proof (cases "user_place u n")
    case Stop
    then have "user_less u n"
      by (simp add: user_place_iff)
    moreover have "\<forall>x \<in> set rest. user_less n x"
      using 2(2) by simp
    ultimately have "\<forall>x \<in> set rest. user_less u x" "user_less u n"
      by (metis user_less_trans)+
    then show ?thesis
      using 2(2) Stop by simp
  next
    case Replace
    then have "user_key u = user_key n"
      by (simp add: user_place_iff)
    then have "user_less u x \<longleftrightarrow> user_less n x" for x
      by (rule user_less_key)
    then show ?thesis
      using 2(2) Replace by simp
  next
    case Go
    then have "user_less n u"
      by (simp add: user_place_iff)
    then show ?thesis
      using 2 Go set_addUser [of u rest] by auto
  qed
qed simp

lemma removeUser_filter:
  assumes "distinct (map uaddr users)"
  shows "snd (Usm_removeUserFromList p users) = filter (\<lambda>u. uaddr u \<noteq> p) users"
  using assms
proof (induction users)
  case (Cons u users)
  show ?case
  proof (cases "uaddr u = p")
    case True
    then have "\<forall>v \<in> set users. uaddr v \<noteq> p"
      using Cons.prems by auto (metis image_eqI)
    then have "filter (\<lambda>u. uaddr u \<noteq> p) users = users"
      by (simp add: filter_id_conv)
    then show ?thesis
      using True by (simp add: Usm_removeUserFromList_def Let_def)
  next
    case False
    then show ?thesis
      using Cons by (auto simp: Usm_removeUserFromList_def Let_def split: option.splits)
  qed
qed (simp add: Usm_removeUserFromList_def)

lemma sorted_wrt_tl: "sorted_wrt P (xs @ ys) \<Longrightarrow> sorted_wrt P (xs @ tl ys)"
  by (cases ys) (auto simp: sorted_wrt_append)

lemma removeUser_ok: "users_ok users \<Longrightarrow> users_ok (snd (Usm_removeUserFromList p users))"
  unfolding Usm_removeUserFromList_def users_ok_def Let_def
  by (cases "find (\<lambda>u. uaddr u = p) users") (simp_all add: sorted_wrt_tl)

text \<open>In an ordered list a user is found by its engine and name, whatever the order of calls.\<close>

lemma find_user_iff:
  "find_user i n users = find (\<lambda>p. uname p = n \<and> engineID p = i) users"
proof (induction users)
  case (Cons p users)
  have "(uname p = n \<and> engineIDLen p = (case i of None \<Rightarrow> 0 | Some x \<Rightarrow> length x) \<and>
         (engineID p = None \<and> i = None \<or>
          engineID p \<noteq> None \<and> i \<noteq> None \<and> memcmp (the (engineID p)) (the i) (length (the i)) = 0))
     \<longleftrightarrow> uname p = n \<and> engineID p = i"
    by (cases "engineID p"; cases i) (auto simp: engineIDLen_def memcmp_equal_length)
  with Cons show ?case
    by (simp only: find_user.simps find.simps)
qed simp

lemma same_key_iff: "user_key a = user_key b \<longleftrightarrow> uname a = uname b \<and> engineID a = engineID b"
  by (auto simp: user_key_def engineIDLen_def)

lemma user_less_not_key: "user_less a b \<Longrightarrow> user_key a \<noteq> user_key b"
  using user_less_key(1) [of a b b] by auto

lemma find_user_in:
  assumes "users_ok users"
  shows "find_user (engineID u) (uname u) users = Some u \<longleftrightarrow> u \<in> set users"
proof -
  have "find_user (engineID u) (uname u) users = find (\<lambda>p. user_key p = user_key u) users"
    by (simp add: find_user_iff same_key_iff)
  moreover have "find (\<lambda>p. user_key p = user_key u) users = Some u \<longleftrightarrow> u \<in> set users"
    using assms unfolding users_ok_def
  proof (induction users)
    case (Cons p users)
    then show ?case
      using user_less_not_key [of p u] by auto
  qed simp
  ultimately show ?thesis
    by simp
qed

text \<open>Adding a user makes it the one found under its key and hides no other.\<close>

lemma find_user_add:
  assumes "users_ok users"
  shows "find_user i n (Usm_addUserToList u users) =
    (if engineID u = i \<and> uname u = n then Some u else find_user i n users)"
  using assms unfolding users_ok_def
proof (induction u users rule: Usm_addUserToList.induct)
  case (2 u p rest)
  have below: "find_user i n rest = None" if "user_less u p" "engineID u = i" "uname u = n"
    using that 2(2) user_less_trans [OF that(1)] user_less_not_key
    by (fastforce simp: find_user_iff find_None_iff same_key_iff)
  show ?case
  proof (cases "user_place u p")
    case Stop
    then show ?thesis
      by (auto simp: find_user_iff)
  next
    case Replace
    then have "user_key u = user_key p"
      by (simp add: user_place_iff)
    then show ?thesis
      using Replace by (auto simp: find_user_iff same_key_iff)
  next
    case Go
    then have "user_key p \<noteq> user_key u"
      by (simp add: user_place_iff user_less_not_key)
    then show ?thesis
      using 2 Go by (auto simp: find_user_iff same_key_iff)
  qed
qed (auto simp: find_user_iff)

end
