(* ===== verification/UsmMsg.thy ===== *)
theory UsmMsg
  imports Engine UsmUser AsnInt AsnString
begin

text \<open>
  Messages of the user-based security model (src/Firmware/Core/System/Security/Usm.c): parsing the
  security parameters, the check of the time window, the processing of an incoming message and the
  salts of outgoing ones.

  \<open>mem\<close> is the object that holds the message, from its first byte to the end of the object;
  \<open>secParams\<close> and the other pointers into it are offsets. \<open>address\<close> is where it lies, which the code
  uses by mistake for one size. The result code is the first component of a result.
\<close>

section \<open>Error codes and statistics\<close>

definition ErrorCode_USM_DECRYPTIONERROR :: int where "ErrorCode_USM_DECRYPTIONERROR = - 50"
definition ErrorCode_USM_NOTINTIMEWINDOW :: int where "ErrorCode_USM_NOTINTIMEWINDOW = - 49"
definition ErrorCode_USM_UNKNOWNENGINEID :: int where "ErrorCode_USM_UNKNOWNENGINEID = - 48"
definition ErrorCode_USM_PARSEERROR :: int where "ErrorCode_USM_PARSEERROR = - 47"
definition ErrorCode_USM_AUTHENTICATIONFAILURE :: int where "ErrorCode_USM_AUTHENTICATIONFAILURE = - 46"
definition ErrorCode_USM_UNSUPPORTEDSECURITYLEVEL :: int where
  "ErrorCode_USM_UNSUPPORTEDSECURITYLEVEL = - 44"
definition ErrorCode_USM_UNKNOWNSECURITYNAME :: int where "ErrorCode_USM_UNKNOWNSECURITYNAME = - 43"
definition ErrorCode_USM_GENERICERROR :: int where "ErrorCode_USM_GENERICERROR = - 42"

lemmas usm_codes = SUCCESS_def GENERR_def ErrorCode_USM_DECRYPTIONERROR_def ErrorCode_USM_NOTINTIMEWINDOW_def
  ErrorCode_USM_UNKNOWNENGINEID_def ErrorCode_USM_PARSEERROR_def ErrorCode_USM_AUTHENTICATIONFAILURE_def
  ErrorCode_USM_UNSUPPORTEDSECURITYLEVEL_def ErrorCode_USM_UNKNOWNSECURITYNAME_def
  ErrorCode_USM_GENERICERROR_def

datatype statistic = UNSUPPORTEDSECLEVELS | NOTINTIMEWINDOWS | UNKNOWNUSERNAMES | UNKNOWNENGINEIDS
  | WRONGDIGESTS | DECRYPTIONERRORS | SNMPINASNPARSEERRS

record usm =
  eng :: engines
  userList :: "user list"
  noNameUser :: "user option"
  stats :: "statistic \<Rightarrow> u32"
  saltInteger :: u32
  saltInteger64One :: u32
  saltInteger64Two :: u32

definition Api_incrementStatistic :: "statistic \<Rightarrow> usm \<Rightarrow> usm" where
  "Api_incrementStatistic s st = st\<lparr>stats := (stats st)(s := stats st s + 1)\<rparr>"

section \<open>Salts\<close>

text \<open>The bytes of a word in network order.\<close>

definition htonl_bytes :: "u32 \<Rightarrow> u8 list" where
  "htonl_bytes w = be_bytes 4 (ucast w)"

definition USM_DES_SALT_BYTES :: nat where "USM_DES_SALT_BYTES = (64 + 7) div 8"
definition USM_MAX_SALT_BYTES :: nat where "USM_MAX_SALT_BYTES = (128 + 7) div 8"
definition USM_MAX_KEYEDHASH_BYTES :: nat where "USM_MAX_KEYEDHASH_BYTES = (128 + 7) div 8"

text \<open>The result: initialization vector, salt of the message and the counted state.\<close>

definition Usm_setSalt :: "usm \<Rightarrow> nat \<Rightarrow> u8 list option \<Rightarrow> (u8 list \<times> u8 list \<times> usm) option" where
  "Usm_setSalt st iv_length priv_salt =
     (case priv_salt of
        None \<Rightarrow> None
      | Some ps \<Rightarrow>
          if iv_length \<noteq> USM_DES_SALT_BYTES \<or> length ps < USM_DES_SALT_BYTES then None
          else let salt = htonl_bytes (V3_localEngineBoots (eng st)) @ htonl_bytes (saltInteger st)
            in Some (map2 (XOR) salt ps, salt, st\<lparr>saltInteger := saltInteger st + 1\<rparr>))"

text \<open>\<open>net_boots\<close> and \<open>net_time\<close>: the bytes of these words as they lie in memory.\<close>

definition Usm_setAesIv :: "usm \<Rightarrow> u8 list \<Rightarrow> u8 list \<Rightarrow> u8 list \<times> u8 list \<times> usm" where
  "Usm_setAesIv st net_boots net_time =
     (let salt = htonl_bytes (saltInteger64One st) @ htonl_bytes (saltInteger64Two st);
          two = saltInteger64Two st + 1
      in (net_boots @ net_time @ salt, salt,
          st\<lparr>saltInteger64Two := (if two = 0 then two + 1 else two)\<rparr>))"

section \<open>The security parameters\<close>

record usm_params =
  secEngineID :: "u8 list"
  boots_uint :: u32
  time_uint :: u32
  msgUserName :: "u8 list"
  signature :: "u8 list"
  salt :: "u8 list"
  data_ptr :: nat

text \<open>
  A parser that returns NULL makes the function return its code (\<open>Inl\<close>); \<open>part\<close> reads at an offset
  and gives the offset behind what it read.
\<close>

definition checked :: "int \<Rightarrow> 'a outcome \<Rightarrow> ('a \<Rightarrow> (int + 'b) outcome) \<Rightarrow> (int + 'b) outcome" where
  "checked code m f = (case m of Crash \<Rightarrow> Crash | Null \<Rightarrow> Ret (Inl code) | Ret x \<Rightarrow> f x)"

definition blank :: "u8 list \<Rightarrow> nat \<Rightarrow> nat \<Rightarrow> u8 list" where
  "blank mem q n = (if n = 0 then mem else take (q - n) mem @ replicate n 0 @ drop q mem)"

definition octets_at :: "u8 list \<Rightarrow> nat \<Rightarrow> size_t \<Rightarrow> size_t \<Rightarrow> (nat \<times> size_t \<times> u8 \<times> u8 list) outcome" where
  "octets_at mem p remaining room =
     obind (Asn01_parseString (drop p mem) remaining room) (\<lambda>(q, remaining', type, str, len).
       Ret (p + q, remaining', type, take (unat len) str))"

definition integer_at :: "u8 list \<Rightarrow> nat \<Rightarrow> size_t \<Rightarrow> (nat \<times> size_t \<times> u8 \<times> u64) outcome" where
  "integer_at mem p remaining =
     obind (Asn_parseInt (drop p mem) remaining 8) (\<lambda>(q, remaining', type, v).
       Ret (p + q, remaining', type, v))"

text \<open>\<open>idRoom\<close> and \<open>nameRoom\<close>: the room the caller has for the engine and the name.\<close>

definition Usm_parseSecurityParameters ::
    "u8 list \<Rightarrow> nat \<Rightarrow> size_t \<Rightarrow> size_t \<Rightarrow> size_t \<Rightarrow> (int + usm_params \<times> u8 list) outcome" where
  "Usm_parseSecurityParameters mem secParams remaining idRoom nameRoom =
     checked (- 1) (Asn01_parseSequence (drop secParams mem) remaining asnOCTET_STR)
       (\<lambda>(q1, octet_string_length, _).
     checked (- 1) (Asn01_parseSequence (drop (secParams + q1) mem) octet_string_length
         (asnSEQUENCE OR asnCONSTRUCTOR)) (\<lambda>(q2, sequence_length, _).
     checked (- 1) (octets_at mem (secParams + q1 + q2) sequence_length idRoom) (\<lambda>(p3, rem3, type3, engine).
     if type3 \<noteq> asnOCTET_STR then Ret (Inl (- 1)) else
     checked (- 1) (integer_at mem p3 rem3) (\<lambda>(p4, rem4, type4, boots_long).
     if type4 \<noteq> asnINTEGER then Ret (Inl (- 1)) else
     checked (- 1) (integer_at mem p4 rem4) (\<lambda>(p5, rem5, type5, time_long).
     if type5 \<noteq> asnINTEGER then Ret (Inl (- 1)) else
     if (ucast boots_long :: u32) > UTILITIES_ENGINEBOOT_MAX \<or>
        (ucast time_long :: u32) > UTILITIES_ENGINETIME_MAX then Ret (Inl (- 1)) else
     checked (- 1) (octets_at mem p5 rem5 nameRoom) (\<lambda>(p6, rem6, type6, name6).
     if (ucast (ucast nameRoom :: u32) :: u64) < of_nat (length name6) + 1 then Ret (Inl (- 1)) else
     if length name6 > 32 then Ret (Inl (- 1)) else
     if type6 \<noteq> asnOCTET_STR then Ret (Inl (- 1)) else
     checked (- 1) (octets_at mem p6 rem6 (of_nat USM_MAX_KEYEDHASH_BYTES)) (\<lambda>(p7, rem7, type7, sig).
     if type7 \<noteq> asnOCTET_STR then Ret (Inl (- 1)) else
     (let mem' = blank mem p7 (length sig) in
     checked (- 2) (octets_at mem' p7 rem7 (of_nat USM_MAX_SALT_BYTES)) (\<lambda>(p8, rem8, type8, salt8).
     if type8 \<noteq> asnOCTET_STR then Ret (Inl (- 2)) else
     Ret (Inr (\<lparr>secEngineID = engine, boots_uint = ucast boots_long, time_uint = ucast time_long,
       msgUserName = name6, signature = sig, salt = salt8, data_ptr = p8\<rparr>, mem')))))))))))"

section \<open>Timeliness\<close>

definition USM_TIME_WINDOW :: u32 where "USM_TIME_WINDOW = 150"
definition USM_MAX_ID_LENGTH :: nat where "USM_MAX_ID_LENGTH = 1024"

text \<open>The boots of the local engine are read before the time that may count one.\<close>

definition Usm_checkAndUpdateTimeliness ::
    "crypto \<Rightarrow> (nat \<Rightarrow> u32) \<Rightarrow> bool \<Rightarrow> usm \<Rightarrow> u8 list \<Rightarrow> u32 \<Rightarrow> u32 \<Rightarrow> (int \<times> usm) outcome" where
  "Usm_checkAndUpdateTimeliness cr uptime room st i boots time =
     (let myID = V3_getEngineID (eng st) USM_MAX_ID_LENGTH in
      if length myID > USM_MAX_ID_LENGTH \<or> myID = [] then Ret (ErrorCode_USM_GENERICERROR, st)
      else
        let myBoots = V3_localEngineBoots (eng st) in
        case V3_localEngineTime uptime (eng st) of (myTime, e1) \<Rightarrow>
        (let st1 = st\<lparr>eng := e1\<rparr> in
         if length i = length myID \<and> memcmp i myID (length myID) = 0 then
           (let time_difference = (if myTime > time then myTime - time else time - myTime) in
            if boots = UTILITIES_ENGINEBOOT_MAX \<or> boots \<noteq> myBoots \<or> time_difference > USM_TIME_WINDOW
            then Ret (ErrorCode_USM_NOTINTIMEWINDOW, Api_incrementStatistic NOTINTIMEWINDOWS st1)
            else Ret (SUCCESS, st1))
         else
           (case Engine_getEx cr uptime e1 i True of (rc, (theirBoots, theirTime, theirLastTime), e2) \<Rightarrow>
           (let st2 = st1\<lparr>eng := e2\<rparr>;
                time_difference = (if theirTime > time then theirTime - time else time - theirTime) in
            if rc \<noteq> SUCCESS then Ret (ErrorCode_USM_GENERICERROR, st2)
            else if theirBoots = UTILITIES_ENGINEBOOT_MAX \<or> theirBoots > boots
            then Ret (ErrorCode_USM_NOTINTIMEWINDOW, st2)
            else if theirBoots = boots \<and> time < theirLastTime then
              (if time_difference > USM_TIME_WINDOW then Ret (ErrorCode_USM_NOTINTIMEWINDOW, st2)
               else Ret (SUCCESS, st2))
            else obind (Engine_set cr uptime room e2 i boots time True) (\<lambda>(rc, e3).
              if rc \<noteq> SUCCESS then Ret (ErrorCode_USM_GENERICERROR, st2\<lparr>eng := e3\<rparr>)
              else Ret (SUCCESS, st2\<lparr>eng := e3\<rparr>))))))"

end
