(* ===== verification/UsmIn.thy ===== *)
theory UsmIn
  imports UsmMsg
begin

text \<open>
  The processing of an incoming message of the user-based security model
  (src/Firmware/Core/System/Security/Usm.c): \<open>Usm_processInMsg\<close> and the reference in which it keeps
  what the response needs.

  The function is the sequence of its steps: preparing (parsing, the sizes, the reference), finding
  the engine and the user, checking the digest, checking the time, decrypting. A step returns its
  error code or the state for the next. \<open>ref\<close> is the reference behind \<open>secStateRef\<close>: \<open>None\<close> where
  the caller passed NULL, \<open>Some None\<close> where the pointer it holds is NULL.
\<close>

record state_ref =
  usr_name :: "u8 list option"
  usr_engine_id :: "u8 list option"
  usr_auth_protocol :: "oid list option"
  usr_auth_key :: "u8 list option"
  usr_priv_protocol :: "oid list option"
  usr_priv_key :: "u8 list option"
  usr_sec_level :: int

definition Usm_mallocUsmStateReference :: "bool \<Rightarrow> state_ref option" where
  "Usm_mallocUsmStateReference room =
     (if room then Some \<lparr>usr_name = None, usr_engine_id = None, usr_auth_protocol = None, usr_auth_key = None,
        usr_priv_protocol = None, usr_priv_key = None, usr_sec_level = 0\<rparr> else None)"

text \<open>The copy \<open>USM_MAKE_ENTRY\<close> stores: \<open>Some\<close> the new field, \<open>None\<close> where there is no room.\<close>

definition USM_MAKE_ENTRY :: "bool \<Rightarrow> 'a list option \<Rightarrow> 'a list option option" where
  "USM_MAKE_ENTRY room item =
     (if item = None \<or> item = Some [] then Some None else if room then Some item else None)"

definition Usm_setUsmStateReferenceName :: "bool \<Rightarrow> state_ref \<Rightarrow> u8 list option \<Rightarrow> state_ref option" where
  "Usm_setUsmStateReferenceName room r v = map_option (\<lambda>x. r\<lparr>usr_name := x\<rparr>) (USM_MAKE_ENTRY room v)"

definition Usm_setUsmStateReferenceEngineId :: "bool \<Rightarrow> state_ref \<Rightarrow> u8 list option \<Rightarrow> state_ref option" where
  "Usm_setUsmStateReferenceEngineId room r v =
     map_option (\<lambda>x. r\<lparr>usr_engine_id := x\<rparr>) (USM_MAKE_ENTRY room v)"

definition Usm_setUsmStateReferenceAuthProtocol :: "bool \<Rightarrow> state_ref \<Rightarrow> oid list option \<Rightarrow> state_ref option" where
  "Usm_setUsmStateReferenceAuthProtocol room r v =
     map_option (\<lambda>x. r\<lparr>usr_auth_protocol := x\<rparr>) (USM_MAKE_ENTRY room v)"

definition Usm_setUsmStateReferenceAuthKey :: "bool \<Rightarrow> state_ref \<Rightarrow> u8 list option \<Rightarrow> state_ref option" where
  "Usm_setUsmStateReferenceAuthKey room r v =
     map_option (\<lambda>x. r\<lparr>usr_auth_key := x\<rparr>) (USM_MAKE_ENTRY room v)"

definition Usm_setUsmStateReferencePrivProtocol :: "bool \<Rightarrow> state_ref \<Rightarrow> oid list option \<Rightarrow> state_ref option" where
  "Usm_setUsmStateReferencePrivProtocol room r v =
     map_option (\<lambda>x. r\<lparr>usr_priv_protocol := x\<rparr>) (USM_MAKE_ENTRY room v)"

definition Usm_setUsmStateReferencePrivKey :: "bool \<Rightarrow> state_ref \<Rightarrow> u8 list option \<Rightarrow> state_ref option" where
  "Usm_setUsmStateReferencePrivKey room r v =
     map_option (\<lambda>x. r\<lparr>usr_priv_key := x\<rparr>) (USM_MAKE_ENTRY room v)"

definition Usm_setUsmStateReferenceSecLevel :: "state_ref \<Rightarrow> int \<Rightarrow> state_ref" where
  "Usm_setUsmStateReferenceSecLevel r level = r\<lparr>usr_sec_level := level\<rparr>"

definition Usm_cloneUsmStateReference :: "bool \<Rightarrow> state_ref option \<Rightarrow> (int \<times> state_ref option)" where
  "Usm_cloneUsmStateReference room src =
     (case src of
        None \<Rightarrow> (- 1, None)
      | Some r \<Rightarrow>
         (case Option.bind (Usm_mallocUsmStateReference room) (\<lambda>r0.
            Option.bind (Usm_setUsmStateReferenceName room r0 (usr_name r)) (\<lambda>r1.
            Option.bind (Usm_setUsmStateReferenceEngineId room r1 (usr_engine_id r)) (\<lambda>r2.
            Option.bind (Usm_setUsmStateReferenceAuthProtocol room r2 (usr_auth_protocol r)) (\<lambda>r3.
            Option.bind (Usm_setUsmStateReferenceAuthKey room r3 (usr_auth_key r)) (\<lambda>r4.
            Option.bind (Usm_setUsmStateReferencePrivProtocol room r4 (usr_priv_protocol r)) (\<lambda>r5.
            Option.bind (Usm_setUsmStateReferencePrivKey room r5 (usr_priv_key r)) (\<lambda>r6.
            Some (Usm_setUsmStateReferenceSecLevel r6 (usr_sec_level r))))))))) of
            None \<Rightarrow> (- 1, None) | Some c \<Rightarrow> (0, Some c)))"

section \<open>Incoming messages\<close>

text \<open>
  What the caller passes: sizes in bytes; \<open>isAuthoritative\<close> of the session, or \<open>None\<close> for no session.
\<close>

record call =
  has_memory :: bool
  address :: u64
  maxMsgSize :: size_t
  secParams :: nat
  secLevel :: int
  wholeMsgLen :: size_t
  idRoom :: size_t
  nameRoom :: size_t
  pduRoom :: nat
  sess :: "int option"
  msg_flags :: u8

datatype scoped = InMessage nat size_t | Decrypted "u8 list"

record in_output =
  params :: "usm_params option"
  scopedPdu :: "scoped option"
  maxSizeResponse :: "size_t option"
  ref :: "state_ref option option"

definition API_SESS_AUTHORITATIVE :: int where "API_SESS_AUTHORITATIVE = 1"
definition API_SESS_UNKNOWNAUTH :: int where "API_SESS_UNKNOWNAUTH = 2"
definition PRIOT_MSG_FLAG_RPRT_BIT :: u8 where "PRIOT_MSG_FLAG_RPRT_BIT = 4"

definition authenticated_level :: "int \<Rightarrow> bool" where
  "authenticated_level level \<longleftrightarrow> level = PRIOT_SEC_LEVEL_AUTHNOPRIV \<or> level = PRIOT_SEC_LEVEL_AUTHPRIV"

text \<open>The bytes left of the message, computed from two bytes of it instead of two pointers.\<close>

definition in_remaining :: "u8 list \<Rightarrow> call \<Rightarrow> size_t" where
  "in_remaining mem c =
     wholeMsgLen c - ucast (ucast (ucast (mem ! secParams c) - ucast (mem ! 0) :: u64) :: u32)"

lemma remaining_huge:
  assumes "mem ! 0 = 0x30" and "mem ! secParams c = asnOCTET_STR" and "wholeMsgLen c \<le> 0xFFFF"
  shows "2 ^ 63 \<le> unat (in_remaining mem c)"
  using assms by (simp add: in_remaining_def asn_tags unat_sub_if word_le_nat_alt)

text \<open>A name as the lookup reads it: up to its first NUL.\<close>

definition c_name :: "u8 list \<Rightarrow> u8 list" where
  "c_name n = takeWhile (\<lambda>b. b \<noteq> 0) n"

text \<open>The engine must be known to a session that decides on its own, else a record is made.\<close>

definition in_engine :: "crypto \<Rightarrow> (nat \<Rightarrow> u32) \<Rightarrow> call \<Rightarrow> usm_params \<Rightarrow> usm \<Rightarrow> (int \<times> usm) outcome" where
  "in_engine cr uptime c p st =
     (let report = msg_flags c AND PRIOT_MSG_FLAG_RPRT_BIT \<noteq> 0;
          strict = (case sess c of
             None \<Rightarrow> report
           | Some a \<Rightarrow> a = API_SESS_AUTHORITATIVE \<or> a = API_SESS_UNKNOWNAUTH \<and> report)
      in if strict then
           (case engineIS_ENGINE_KNOWN cr uptime (eng st) (secEngineID p) of (known, e) \<Rightarrow>
             if \<not> known
             then Ret (ErrorCode_USM_UNKNOWNENGINEID, Api_incrementStatistic UNKNOWNENGINEIDS (st\<lparr>eng := e\<rparr>))
             else Ret (SUCCESS, st\<lparr>eng := e\<rparr>))
         else obind (engineENSURE_ENGINE_RECORD cr uptime (has_memory c) (eng st) (secEngineID p)) (\<lambda>(rc, e).
           Ret (if rc \<noteq> SUCCESS then ErrorCode_USM_GENERICERROR else SUCCESS, st\<lparr>eng := e\<rparr>)))"

definition in_user :: "call \<Rightarrow> usm_params \<Rightarrow> usm \<Rightarrow> int \<times> user option \<times> usm" where
  "in_user c p st =
     (case Usm_getUserFromList (Some (secEngineID p))
         (Some (c_name (msgUserName p))) (userList st) (noNameUser st)
         (\<not> (sess c = None \<or> sess c = Some API_SESS_AUTHORITATIVE)) of
        None \<Rightarrow> (ErrorCode_USM_UNKNOWNSECURITYNAME, None, Api_incrementStatistic UNKNOWNUSERNAMES st)
      | Some u \<Rightarrow>
          if userStatus u \<noteq> tcROW_STATUS_ACTIVE then (ErrorCode_USM_UNKNOWNSECURITYNAME, None, st)
          else let rc = Usm_checkSecLevel (secLevel c) u in
            if rc = 1 then (ErrorCode_USM_UNSUPPORTEDSECURITYLEVEL, None,
              Api_incrementStatistic UNSUPPORTEDSECLEVELS st)
            else if rc \<noteq> 0 then (ErrorCode_USM_GENERICERROR, None, st)
            else (SUCCESS, Some u, st))"

definition in_digest :: "crypto \<Rightarrow> u8 list \<Rightarrow> u8 list \<Rightarrow> call \<Rightarrow> usm_params \<Rightarrow> user \<Rightarrow> bool" where
  "in_digest cr stack mem c p u \<longleftrightarrow>
     authenticated_level (secLevel c) \<longrightarrow>
     Scapi_checkKeyedHash cr stack (Some (authProtocol u)) (authKey u)
       (Some (take (unat (wholeMsgLen c)) mem)) (Some (signature p)) = 0"

definition cache_user :: "bool \<Rightarrow> user \<Rightarrow> state_ref \<Rightarrow> state_ref option" where
  "cache_user have u r =
     Option.bind (Usm_setUsmStateReferenceAuthProtocol have r (Some (authProtocol u))) (\<lambda>r1.
     Option.bind (Usm_setUsmStateReferenceAuthKey have r1 (authKey u)) (\<lambda>r2.
     Option.bind (Usm_setUsmStateReferencePrivProtocol have r2 (Some (privProtocol u))) (\<lambda>r3.
     Usm_setUsmStateReferencePrivKey have r3 (privKey u))))"

definition cache_params :: "bool \<Rightarrow> int \<Rightarrow> usm_params \<Rightarrow> state_ref \<Rightarrow> state_ref option" where
  "cache_params have level p r =
     Option.bind (Usm_setUsmStateReferenceName have r (Some (msgUserName p))) (\<lambda>r1.
     Option.bind (Usm_setUsmStateReferenceEngineId have r1 (Some (secEngineID p))) (\<lambda>r2.
     Some (Usm_setUsmStateReferenceSecLevel r2 level)))"

text \<open>The reference through a pointer of the caller that may be NULL.\<close>

definition cache :: "(state_ref \<Rightarrow> state_ref option) \<Rightarrow> state_ref option option \<Rightarrow> state_ref option option option" where
  "cache f r =
     (case r of
        None \<Rightarrow> Some None
      | Some None \<Rightarrow> None
      | Some (Some x) \<Rightarrow> (case f x of None \<Rightarrow> None | Some y \<Rightarrow> Some (Some (Some y))))"

definition in_time :: "crypto \<Rightarrow> (nat \<Rightarrow> u32) \<Rightarrow> call \<Rightarrow> usm_params \<Rightarrow> usm \<Rightarrow> (int \<times> usm) outcome" where
  "in_time cr uptime c p st =
     (if authenticated_level (secLevel c) then
        Usm_checkAndUpdateTimeliness cr uptime (has_memory c) st (secEngineID p) (boots_uint p) (time_uint p)
      else
        obind (Engine_set cr uptime (has_memory c) (eng st) (secEngineID p) (boots_uint p) (time_uint p) False)
          (\<lambda>(_, e). Ret (SUCCESS, st\<lparr>eng := e\<rparr>)))"

text \<open>
  Decryption: the plain text, the end of the part in front of it (NULL for AES, which the code leaves
  unset) and the counted errors. The errors of the parser and of DES release the reference through
  the pointer of the caller, which must not be NULL there.
\<close>

definition in_free :: "state_ref option option \<Rightarrow> int \<Rightarrow> usm \<Rightarrow> in_output \<Rightarrow> (int \<times> in_output \<times> usm) outcome" where
  "in_free r code st out = (if r = None then Crash else Ret (code, out\<lparr>ref := Some None\<rparr>, st))"

definition des_iv :: "u8 list \<Rightarrow> u8 list \<Rightarrow> u8 list outcome" where
  "des_iv saltbytes key =
     (if length key < 16 \<or> length saltbytes < 8 then Crash
      else Ret (map2 (XOR) (take 8 saltbytes) (drop 8 key)))"

definition in_decrypt ::
    "crypto \<Rightarrow> u8 list \<Rightarrow> u8 list \<Rightarrow> call \<Rightarrow> usm_params \<Rightarrow> user \<Rightarrow> in_output \<Rightarrow> usm \<Rightarrow>
      (int \<times> in_output \<times> usm) outcome" where
  "in_decrypt cr stack mem c p u out st =
     (let failed = Api_incrementStatistic DECRYPTIONERRORS st;
          des = UTILITIES_ISTRANSFORM (privProtocol u) usm_dESPrivProtocol;
          aes = UTILITIES_ISTRANSFORM (privProtocol u) usm_aESPrivProtocol in
      case Asn01_parseSequence (drop (data_ptr p) mem) (wholeMsgLen c - of_nat (data_ptr p)) asnOCTET_STR of
        Crash \<Rightarrow> Crash
      | Null \<Rightarrow> in_free (ref out) ErrorCode_USM_PARSEERROR (Api_incrementStatistic SNMPINASNPARSEERRS st) out
      | Ret (q, remaining, _) \<Rightarrow>
         if des \<and> (remaining mod 8 \<noteq> 0 \<or> privKey u = None)
         then in_free (ref out) ErrorCode_USM_DECRYPTIONERROR failed out
         else
           obind (if des then des_iv (salt p) (the (privKey u))
                  else if aes then Ret (htonl_bytes (boots_uint p) @ htonl_bytes (time_uint p) @ salt p)
                  else Ret (take USM_MAX_SALT_BYTES stack)) (\<lambda>iv.
           obind (rd_block mem (data_ptr p + q) (unat remaining)) (\<lambda>cipherText.
           obind (Scapi_decrypt cr (Some (privProtocol u)) (privKey u) (Some iv) (Some cipherText) (pduRoom c))
             (\<lambda>(rc, plain).
              if rc \<noteq> 0 then Ret (ErrorCode_USM_DECRYPTIONERROR, out, failed)
              else Ret (SUCCESS,
                out\<lparr>scopedPdu := Some (Decrypted plain),
                    maxSizeResponse := Some (maxMsgSize c -
                      (if des then of_nat (data_ptr p + q) else - address c))\<rparr>, st)))))"

definition in_clear :: "call \<Rightarrow> usm_params \<Rightarrow> scoped" where
  "in_clear c p = InMessage (data_ptr p) (wholeMsgLen c - of_nat (data_ptr p))"

text \<open>What follows the parsing; the state is that of the message with its signature blanked.\<close>

definition in_checked ::
    "crypto \<Rightarrow> (nat \<Rightarrow> u32) \<Rightarrow> u8 list \<Rightarrow> u8 list \<Rightarrow> call \<Rightarrow> usm_params \<Rightarrow> in_output \<Rightarrow> usm \<Rightarrow>
      (int \<times> in_output \<times> usm) outcome" where
  "in_checked cr uptime stack mem c p out st =
     obind (in_engine cr uptime c p st) (\<lambda>(rc, st1).
     if rc \<noteq> SUCCESS then Ret (rc, out, st1)
     else (case in_user c p st1 of
        (rc, None, st2) \<Rightarrow> Ret (rc, out, st2)
      | (_, Some u, st2) \<Rightarrow>
         if \<not> in_digest cr stack mem c p u
         then Ret (ErrorCode_USM_AUTHENTICATIONFAILURE, out, Api_incrementStatistic WRONGDIGESTS st2)
         else (case cache (cache_user (has_memory c) u) (ref out) of
            None \<Rightarrow> Ret (ErrorCode_USM_GENERICERROR, out, st2)
          | Some r \<Rightarrow>
             obind (in_time cr uptime c p st2) (\<lambda>(rc, st3).
             if rc \<noteq> SUCCESS then Ret (rc, out\<lparr>ref := r\<rparr>, st3)
             else if secLevel c = PRIOT_SEC_LEVEL_AUTHPRIV then in_decrypt cr stack mem c p u (out\<lparr>ref := r\<rparr>) st3
             else Ret (SUCCESS,
               out\<lparr>ref := r, scopedPdu := Some (in_clear c p),
                   maxSizeResponse := Some (maxMsgSize c - of_nat (data_ptr p))\<rparr>, st3)))))"

text \<open>The result: code, output and state, with the message as its signature was blanked.\<close>

definition Usm_processInMsg ::
    "crypto \<Rightarrow> (nat \<Rightarrow> u32) \<Rightarrow> u8 list \<Rightarrow> u8 list \<Rightarrow> call \<Rightarrow> bool \<Rightarrow> usm \<Rightarrow>
      (int \<times> in_output \<times> usm) outcome" where
  "Usm_processInMsg cr uptime stack mem c want_ref st =
     (let r = (if want_ref then Some (Usm_mallocUsmStateReference (has_memory c)) else None);
          out = \<lparr>params = None, scopedPdu = None, maxSizeResponse = None, ref = r\<rparr> in
      if r = Some None then Ret (ErrorCode_USM_GENERICERROR, out, st)
      else obind (Usm_parseSecurityParameters mem (secParams c) (in_remaining mem c) (idRoom c) (nameRoom c))
        (\<lambda>res. case res of
           Inl code \<Rightarrow>
             if code = - 2
             then Ret (ErrorCode_USM_DECRYPTIONERROR, out, Api_incrementStatistic DECRYPTIONERRORS st)
             else Ret (ErrorCode_USM_PARSEERROR, out, Api_incrementStatistic SNMPINASNPARSEERRS st)
         | Inr (p, mem') \<Rightarrow>
             if secLevel c = PRIOT_SEC_LEVEL_AUTHPRIV \<and> length (salt p) \<noteq> 8
             then Ret (ErrorCode_USM_DECRYPTIONERROR, out, Api_incrementStatistic DECRYPTIONERRORS st)
             else let out1 = out\<lparr>params := Some p,
                    scopedPdu := (if secLevel c \<noteq> PRIOT_SEC_LEVEL_AUTHPRIV then Some (in_clear c p) else None)\<rparr> in
               (case cache (cache_params (has_memory c) (secLevel c) p) r of
                  None \<Rightarrow> Ret (ErrorCode_USM_GENERICERROR, out1, st)
                | Some r1 \<Rightarrow> in_checked cr uptime stack mem' c p (out1\<lparr>ref := r1\<rparr>) st)))"

end
