(* ===== verification/UsmClock.thy ===== *)
theory UsmClock
  imports UsmIn
begin

text \<open>
  The clocks of the engines under incoming messages: the abstract clock of an engine is the boots
  and time last taken over from an authenticated message. The lemmas show that no message turns it
  back and that a message that is not authenticated leaves every clock as it is.
\<close>

definition clock :: "crypto \<Rightarrow> engines \<Rightarrow> u8 list \<Rightarrow> (u32 \<times> u32) option" where
  "clock cr st i =
     (case Engine_searchInList cr st i of
        None \<Rightarrow> None
      | Some e \<Rightarrow> if authenticatedFlag e then Some (engineBoot e, engineTime e) else None)"

definition clock_le :: "(u32 \<times> u32) option \<Rightarrow> (u32 \<times> u32) option \<Rightarrow> bool" where
  "clock_le a b \<longleftrightarrow>
     (case a of
        None \<Rightarrow> True
      | Some (x, s) \<Rightarrow> (case b of None \<Rightarrow> False | Some (y, t) \<Rightarrow> x < y \<or> x = y \<and> s \<le> t))"

definition not_back :: "crypto \<Rightarrow> engines \<Rightarrow> engines \<Rightarrow> bool" where
  "not_back cr st st' \<longleftrightarrow> (\<forall>i. clock_le (clock cr st i) (clock cr st' i))"

lemma clock_le_refl [simp]: "clock_le a a"
  by (auto simp: clock_le_def split: option.splits)

lemma clock_le_trans: "clock_le a b \<Longrightarrow> clock_le b c \<Longrightarrow> clock_le a c"
  by (auto simp: clock_le_def split: option.splits)

lemma not_back_refl [simp]: "not_back cr st st"
  by (simp add: not_back_def)

lemma not_back_trans: "not_back cr a b \<Longrightarrow> not_back cr b c \<Longrightarrow> not_back cr a c"
  unfolding not_back_def by (blast intro: clock_le_trans)

lemma not_back_same: "(\<And>i. clock cr st' i = clock cr st i) \<Longrightarrow> not_back cr st st'"
  by (simp add: not_back_def)

section \<open>The operations on the abstract clock\<close>

lemma clock_cong: "engine_list st' = engine_list st \<Longrightarrow> clock cr st' i = clock cr st i"
  using search_cong [of st' st cr i] by (simp add: clock_def)

lemma clock_localTime [simp]: "clock cr (snd (V3_localEngineTime uptime st)) i = clock cr st i"
  by (rule clock_cong) simp

lemma Engine_set_none:
  assumes "\<not> hashable cr i" and "Engine_set cr uptime space st i b t a = Ret (rc, st')"
  shows "st' = st" and "i = [] \<or> rc = GENERR"
  using assms by (auto simp: Engine_set_def hashable_def Let_def search_iff split: if_splits)

lemma clock_unhashable [simp]: "\<not> hashable cr i \<Longrightarrow> clock cr st i = None"
  by (auto simp: clock_def search_iff hashable_def)

lemma Engine_set_no_room:
  assumes "hashable cr i" and "Engine_searchInList cr st i = None"
  shows "Engine_set cr uptime False st i b t a = Crash"
  using assms by (simp add: Engine_set_def hashable_def)

lemma clock_known: "clock cr st i = (if authenticatedFlag (known_engine cr st i)
    then Some (engineBoot (known_engine cr st i), engineTime (known_engine cr st i)) else None)"
  by (auto simp: clock_def known_engine_def new_engine_def split: option.splits)

lemma clock_Engine_set:
  assumes "Engine_set cr uptime space st i b t a = Ret (rc, st')"
  shows "clock cr st' j = (if a \<and> j = i \<and> hashable cr i then Some (b, t) else clock cr st j)"
proof (cases "hashable cr i")
  case False
  then show ?thesis
    using Engine_set_none [OF False assms] by simp
next
  case True
  have "space \<or> Engine_searchInList cr st i \<noteq> None"
    using assms Engine_set_no_room [OF True, of st uptime b t a] by (cases space) (simp, metis outcome.distinct(3))
  from Engine_set_search [OF True this, of uptime b t a] obtain st1
    where "Engine_set cr uptime space st i b t a = Ret (SUCCESS, st1)"
      and s: "\<forall>j. Engine_searchInList cr st1 j =
      (if j = i then Some (if a \<or> \<not> authenticatedFlag (known_engine cr st i)
         then \<lparr>engineId = i, engineBoot = b, engineTime = t,
               lastReceivedEngineTime = ucast (uptime (readings st) AND 0x7fffffff), authenticatedFlag = a\<rparr>
         else known_engine cr st i)
       else Engine_searchInList cr st j)"
    by metis
  then have "st1 = st'"
    using assms by simp
  show ?thesis
  proof (cases "j = i")
    case False
    then have "Engine_searchInList cr st' j = Engine_searchInList cr st j"
      using s \<open>st1 = st'\<close> by simp
    then show ?thesis
      using False by (simp add: clock_def)
  next
    case j: True
    show ?thesis
      using s \<open>st1 = st'\<close> True unfolding j clock_known [of cr st i] by (auto simp: clock_def)
  qed
qed

text \<open>
  What the security model relies on: taking over a time sets the clock of this engine, when the
  message is authenticated, and no other clock.
\<close>

locale time_records =
  fixes time_of :: "'s \<Rightarrow> 'i \<Rightarrow> (u32 \<times> u32) option"
    and take_over :: "'s \<Rightarrow> 'i \<Rightarrow> u32 \<Rightarrow> u32 \<Rightarrow> bool \<Rightarrow> (int \<times> 's) outcome"
    and recorded :: "'i \<Rightarrow> bool"
  assumes take_over_clock: "take_over s i b t a = Ret (rc, s') \<Longrightarrow>
    time_of s' j = (if a \<and> j = i \<and> recorded i then Some (b, t) else time_of s j)"
begin

lemma unauthenticated_keeps: "take_over s i b t False = Ret (rc, s') \<Longrightarrow> time_of s' j = time_of s j"
  by (simp add: take_over_clock)

lemma take_over_forward:
  assumes "take_over s i b t a = Ret (rc, s')" and "clock_le (time_of s i) (Some (b, t))"
  shows "clock_le (time_of s j) (time_of s' j)"
  using assms(2) by (simp add: take_over_clock [OF assms(1)])

end

interpretation engine_records: time_records "clock cr" "Engine_set cr uptime space" "hashable cr"
  for cr uptime space
  by unfold_locales (rule clock_Engine_set)

text \<open>What a session is told of the clock of an authenticated engine.\<close>

definition estimate :: "u32 \<Rightarrow> engine \<Rightarrow> u32 \<times> u32" where
  "estimate now e =
     (let passed = (ucast (ucast now - lastReceivedEngineTime e :: u64) :: u32);
          left = UTILITIES_ENGINETIME_MAX - engineTime e in
      if sint passed > sint left
      then (if engineBoot e < UTILITIES_ENGINEBOOT_MAX then engineBoot e + 1 else engineBoot e, passed - left)
      else (engineBoot e, engineTime e + passed))"

lemma getEx_auth:
  assumes "Engine_searchInList cr st i = Some e" and "authenticatedFlag e"
  shows "Engine_getEx cr uptime st i True =
    (SUCCESS, (fst (estimate (uptime (readings st) AND 0x7fffffff) e),
       snd (estimate (uptime (readings st) AND 0x7fffffff) e), engineTime e), snd (V3_localEngineTime uptime st))"
  using assms by (auto simp: Engine_getEx_def estimate_def V3_localEngineTime_def Let_def)

lemma getEx_unauth:
  assumes "Engine_searchInList cr st i = Some e" and "\<not> authenticatedFlag e"
  shows "Engine_getEx cr uptime st i True = (SUCCESS, (0, 0, 0), st)"
  using assms by (simp add: Engine_getEx_def UTILITIES_ENGINETIME_MAX_def)

lemma getEx_unknown:
  "Engine_searchInList cr st i = None \<Longrightarrow> Engine_getEx cr uptime st i a = (GENERR, (0, 0, 0), st)"
  by (simp add: Engine_getEx_def)

lemma estimate_boots: "engineBoot e \<le> fst (estimate now e)"
  by (auto simp: estimate_def Let_def UTILITIES_ENGINEBOOT_MAX_def word_le_nat_alt word_less_nat_alt
    unat_add_if)

lemma clock_getEx: "clock cr (snd (snd (Engine_getEx cr uptime st i a))) j = clock cr st j"
proof -
  have "engine_list (snd (snd (Engine_getEx cr uptime st i a))) = engine_list st"
    by (auto simp: Engine_getEx_def Let_def V3_localEngineTime_def split: option.splits if_splits)
  then show ?thesis
    by (rule clock_cong)
qed

lemma clock_get: "clock cr (snd (snd (Engine_get cr uptime st i a))) j = clock cr st j"
proof -
  have "engine_list (snd (snd (Engine_get cr uptime st i a))) = engine_list st"
    by (auto simp: Engine_get_def Let_def V3_localEngineTime_def split: option.splits if_splits)
  then show ?thesis
    by (rule clock_cong)
qed

section \<open>The time window\<close>

definition window :: "u32 \<Rightarrow> u32 \<Rightarrow> bool" where
  "window a b \<longleftrightarrow> unat a \<le> unat b + 150 \<and> unat b \<le> unat a + 150"

lemma window_code: "(if a > b then a - b else b - a) > USM_TIME_WINDOW \<longleftrightarrow> \<not> window a b"
  by (auto simp: window_def USM_TIME_WINDOW_def word_less_nat_alt unat_sub_if)

definition has_local_id :: "usm \<Rightarrow> u8 list \<Rightarrow> bool" where
  "has_local_id st i \<longleftrightarrow> v3_engineID (eng st) = Some i \<and> i \<noteq> [] \<and> length i \<le> USM_MAX_ID_LENGTH"

lemma getEngineID_local:
  "has_local_id st i \<Longrightarrow> V3_getEngineID (eng st) USM_MAX_ID_LENGTH = i"
  by (auto simp: has_local_id_def V3_getEngineID_def)

lemma timeliness_local:
  assumes "has_local_id st i"
  shows "Usm_checkAndUpdateTimeliness cr uptime space st i b t =
    (let now = uptime (readings (eng st)) AND 0x7fffffff;
         st' = st\<lparr>eng := snd (V3_localEngineTime uptime (eng st))\<rparr> in
     if b \<noteq> UTILITIES_ENGINEBOOT_MAX \<and> b = v3_engineBoots (eng st) \<and> window now t then Ret (SUCCESS, st')
     else Ret (ErrorCode_USM_NOTINTIMEWINDOW, Api_incrementStatistic NOTINTIMEWINDOWS st'))"
proof -
  have id: "i \<noteq> []" "\<not> length i > USM_MAX_ID_LENGTH" "memcmp i i (length i) = 0"
    using assms by (auto simp: has_local_id_def memcmp_equal_length)
  obtain now e where v: "V3_localEngineTime uptime (eng st) = (now, e)"
    by (cases "V3_localEngineTime uptime (eng st)")
  have "now = uptime (readings (eng st)) AND 0x7fffffff"
    using localTime_value [of uptime "eng st"] v by simp
  then show ?thesis
    unfolding Usm_checkAndUpdateTimeliness_def Let_def getEngineID_local [OF assms] v window_code
    using id by (auto simp: V3_localEngineBoots_def v)
qed

text \<open>The remote case, for an engine that is not the local one.\<close>

definition remote_id :: "usm \<Rightarrow> u8 list \<Rightarrow> bool" where
  "remote_id st i \<longleftrightarrow> V3_getEngineID (eng st) USM_MAX_ID_LENGTH \<notin> {[], i}"

lemma localID_length: "length (V3_getEngineID e n) \<le> n"
  by (simp add: V3_getEngineID_def split: option.split)

lemma timeliness_remote:
  assumes "remote_id st i"
  shows "Usm_checkAndUpdateTimeliness cr uptime space st i b t =
    (let e1 = snd (V3_localEngineTime uptime (eng st)) in
     case Engine_getEx cr uptime e1 i True of (rc, (tb, tt, tr), e2) \<Rightarrow>
       if rc \<noteq> SUCCESS then Ret (ErrorCode_USM_GENERICERROR, st\<lparr>eng := e2\<rparr>)
       else if tb = UTILITIES_ENGINEBOOT_MAX \<or> tb > b \<or> (tb = b \<and> t < tr \<and> \<not> window tt t)
       then Ret (ErrorCode_USM_NOTINTIMEWINDOW, st\<lparr>eng := e2\<rparr>)
       else if tb = b \<and> t < tr then Ret (SUCCESS, st\<lparr>eng := e2\<rparr>)
       else obind (Engine_set cr uptime space e2 i b t True) (\<lambda>(rc, e3).
         Ret (if rc \<noteq> SUCCESS then ErrorCode_USM_GENERICERROR else SUCCESS, st\<lparr>eng := e3\<rparr>)))"
proof -
  let ?my = "V3_getEngineID (eng st) USM_MAX_ID_LENGTH"
  have my: "?my \<noteq> []" "\<not> length ?my > USM_MAX_ID_LENGTH"
    "\<not> (length i = length ?my \<and> memcmp i ?my (length ?my) = 0)"
    using assms localID_length [of "eng st" USM_MAX_ID_LENGTH]
    by (auto simp: remote_id_def memcmp_equal_length)
  obtain now e where v: "V3_localEngineTime uptime (eng st) = (now, e)"
    by (cases "V3_localEngineTime uptime (eng st)")
  obtain rc tb tt tr e2 where g: "Engine_getEx cr uptime e i True = (rc, (tb, tt, tr), e2)"
    by (cases "Engine_getEx cr uptime e i True") auto
  have f: "(\<lambda>(rc, e3). if rc \<noteq> SUCCESS
          then Ret (ErrorCode_USM_GENERICERROR, st\<lparr>eng := e\<rparr>\<lparr>eng := e2\<rparr>\<lparr>eng := e3\<rparr>)
          else Ret (SUCCESS, st\<lparr>eng := e\<rparr>\<lparr>eng := e2\<rparr>\<lparr>eng := e3\<rparr>)) =
     (\<lambda>(rc, e3). Ret (if rc \<noteq> SUCCESS then ErrorCode_USM_GENERICERROR else SUCCESS, st\<lparr>eng := e3\<rparr>))"
    by (auto simp: fun_eq_iff)
  show ?thesis
    unfolding Usm_checkAndUpdateTimeliness_def Let_def v prod.case snd_conv g window_code f
    by (simp only: my simp_thms if_False) auto
qed

text \<open>A clock never goes back.\<close>

lemma timeliness_not_back:
  assumes "Usm_checkAndUpdateTimeliness cr uptime space st i b t = Ret (rc, st')"
  shows "not_back cr (eng st) (eng st')"
proof (cases "V3_getEngineID (eng st) USM_MAX_ID_LENGTH = []")
  case True
  then have "st' = st"
    using assms by (simp add: Usm_checkAndUpdateTimeliness_def)
  then show ?thesis
    by simp
next
  case ne: False
  show ?thesis
  proof (cases "V3_getEngineID (eng st) USM_MAX_ID_LENGTH = i")
    case True
    then have "has_local_id st i"
      using ne by (auto simp: has_local_id_def V3_getEngineID_def split: option.splits if_splits)
    from timeliness_local [OF this, of cr uptime space b t] assms
    have "eng st' = snd (V3_localEngineTime uptime (eng st))"
      by (auto simp: Let_def Api_incrementStatistic_def split: if_splits)
    then show ?thesis
      by (intro not_back_same) simp
  next
    case False
    then have r: "remote_id st i"
      using ne by (auto simp: remote_id_def)
    let ?e1 = "snd (V3_localEngineTime uptime (eng st))"
    obtain g tb tt tr e2 where g: "Engine_getEx cr uptime ?e1 i True = (g, (tb, tt, tr), e2)"
      by (cases "Engine_getEx cr uptime ?e1 i True") auto
    have e2: "clock cr e2 j = clock cr (eng st) j" for j
      using clock_getEx [of cr uptime ?e1 i True j] g by simp
    have same: "not_back cr (eng st) e2"
      by (intro not_back_same e2)
    show ?thesis
    proof (cases "eng st' = e2")
      case True
      then show ?thesis
        using same by simp
    next
      case False
      then obtain rc' where "g = SUCCESS" and c: "\<not> tb > b" "\<not> (tb = b \<and> t < tr)"
        and s: "Engine_set cr uptime space e2 i b t True = Ret (rc', eng st')"
        using assms g timeliness_remote [OF r, of cr uptime space b t]
        by (auto simp: Let_def obind_Ret_iff split: if_splits)
      obtain e where e: "Engine_searchInList cr ?e1 i = Some e"
        using g \<open>g = SUCCESS\<close> getEx_unknown [of cr ?e1 i uptime True]
        by (cases "Engine_searchInList cr ?e1 i") (auto simp: SUCCESS_def GENERR_def)
      have "clock_le (clock cr (eng st) i) (Some (b, t))"
      proof (cases "authenticatedFlag e")
        case True
        then have "engineBoot e \<le> tb" "tr = engineTime e"
          using g getEx_auth [OF e, of uptime] estimate_boots by auto
        moreover have "clock cr ?e1 i = Some (engineBoot e, engineTime e)"
          using e True by (simp add: clock_def)
        ultimately show ?thesis
          using c by (auto simp: clock_le_def)
      next
        case False
        then have "clock cr ?e1 i = None"
          using e by (simp add: clock_def)
        then show ?thesis
          by (simp add: clock_le_def)
      qed
      then show ?thesis
        using engine_records.take_over_forward [OF s] e2 by (simp add: not_back_def)
    qed
  qed
qed

lemma Engine_set_auth:
  assumes "hashable cr i" and "Engine_searchInList cr st i \<noteq> None"
  shows "\<exists>st'. Engine_set cr uptime space st i b t True = Ret (SUCCESS, st') \<and>
    (\<forall>j. Engine_searchInList cr st' j = (if j = i
        then Some \<lparr>engineId = i, engineBoot = b, engineTime = t, lastReceivedEngineTime =
          ucast (uptime (readings st) AND 0x7fffffff), authenticatedFlag = True\<rparr>
        else Engine_searchInList cr st j))"
proof -
  have r: "space \<or> Engine_searchInList cr st i \<noteq> None"
    using assms by simp
  obtain st' where "Engine_set cr uptime space st i b t True = Ret (SUCCESS, st')"
    and "\<forall>j. Engine_searchInList cr st' j =
      (if j = i then Some (if True \<or> \<not> authenticatedFlag (known_engine cr st i)
         then \<lparr>engineId = i, engineBoot = b, engineTime = t,
               lastReceivedEngineTime = ucast (uptime (readings st) AND 0x7fffffff), authenticatedFlag = True\<rparr>
         else known_engine cr st i)
       else Engine_searchInList cr st j)"
    by (rule Engine_set_search [OF assms(1) r])
  then show ?thesis
    by auto
qed

text \<open>
  The remote case for an engine with an authenticated clock: refused, accepted as old, or accepted
  and taken over with the local time of the third reading.
\<close>

lemma timeliness_auth:
  assumes "remote_id st i" and "Engine_searchInList cr (eng st) i = Some e" and "authenticatedFlag e"
  shows "case estimate (uptime (readings (eng st) + 1) AND 0x7fffffff) e of (tb, tt) \<Rightarrow>
    \<exists>rc st'. Usm_checkAndUpdateTimeliness cr uptime space st i b t = Ret (rc, st') \<and>
      (if tb = UTILITIES_ENGINEBOOT_MAX \<or> b < tb \<or> b = tb \<and> t < engineTime e \<and> \<not> window tt t
       then rc = ErrorCode_USM_NOTINTIMEWINDOW else rc = SUCCESS) \<and>
      (\<forall>j. Engine_searchInList cr (eng st') j =
         (if j = i \<and> rc = SUCCESS \<and> \<not> (b = tb \<and> t < engineTime e)
          then Some \<lparr>engineId = i, engineBoot = b, engineTime = t, lastReceivedEngineTime =
              ucast (uptime (readings (eng st) + 2) AND 0x7fffffff), authenticatedFlag = True\<rparr>
          else Engine_searchInList cr (eng st) j)) \<and>
      clock cr (eng st') i = (if rc = SUCCESS \<and> \<not> (b = tb \<and> t < engineTime e) then Some (b, t) else clock cr (eng st) i)"
proof -
  obtain tb tt where est: "estimate (uptime (readings (eng st) + 1) AND 0x7fffffff) e = (tb, tt)"
    by (cases "estimate (uptime (readings (eng st) + 1) AND 0x7fffffff) e")
  let ?e1 = "snd (V3_localEngineTime uptime (eng st))"
  let ?e2 = "snd (V3_localEngineTime uptime ?e1)"
  have s1: "Engine_searchInList cr ?e1 j = Engine_searchInList cr (eng st) j" for j
    by (intro search_cong) simp
  have s2: "Engine_searchInList cr ?e2 j = Engine_searchInList cr (eng st) j" for j
    by (intro search_cong) simp
  have g: "Engine_getEx cr uptime ?e1 i True = (SUCCESS, (tb, tt, engineTime e), ?e2)"
    using getEx_auth [of cr ?e1 i e uptime] assms(2,3) s1 est by simp
  note t = timeliness_remote [OF assms(1), of cr uptime space b t, unfolded Let_def g prod.case]
  have h: "hashable cr i" "Engine_searchInList cr ?e2 i \<noteq> None"
    using assms(2) s2 by (auto simp: search_iff hashable_def split: if_splits)
  obtain st3 where set: "Engine_set cr uptime space ?e2 i b t True = Ret (SUCCESS, st3)"
      and s3: "\<forall>j. Engine_searchInList cr st3 j = (if j = i
        then Some \<lparr>engineId = i, engineBoot = b, engineTime = t, lastReceivedEngineTime =
          ucast (uptime (readings ?e2) AND 0x7fffffff), authenticatedFlag = True\<rparr>
        else Engine_searchInList cr ?e2 j)"
    using Engine_set_auth [OF h] by blast
  have c: "clock cr ?e2 i = clock cr (eng st) i" "clock cr st3 i = Some (b, t)"
    by (simp_all add: clock_def s2 s3 del: localTime_list)
  show ?thesis
    unfolding est prod.case t using set s3 s2 c
    by (simp add: usm_codes)
qed

end
