(* ===== verification/UsmExample.thy ===== *)
theory UsmExample
  imports UsmClock
begin

text \<open>
  One concrete message, user and engine of the user-based model, with ciphers and hashes simple
  enough to compute: the examples at which the theorems are applied.
\<close>

definition toy_crypto :: crypto where
  "toy_crypto = \<lparr>digest = \<lambda>f m. Some (replicate 16 0), hmac = \<lambda>f k m. replicate (key_length f) 7,
     des_encrypt = \<lambda>k v p. (map (\<lambda>b. b + 1) p, v), des_decrypt = \<lambda>k v c. map (\<lambda>b. b - 1) c,
     aes_encrypt = \<lambda>k v p. rev p, aes_decrypt = \<lambda>k v c. rev c\<rparr>"

definition toy_message :: "u8 list" where
  "toy_message = [0x30, 4, 30, 0x30, 28, 4, 1, 9, 2, 1, 3, 2, 1, 100, 4, 1, 97, 4, 12,
     7, 7, 7, 7, 7, 7, 7, 7, 7, 7, 7, 7, 4, 0]"

definition toy_user :: user where
  "toy_user = \<lparr>uaddr = 1, engineID = Some [9], uname = [97], secName = [97], authProtocol = usm_hMACMD5AuthProtocol,
     authKey = Some (replicate 16 1), privProtocol = usm_noPrivProtocol, privKey = None,
     userStatus = tcROW_STATUS_ACTIVE\<rparr>"

definition toy_engines :: engines where
  "toy_engines = \<lparr>engine_list = (\<lambda>_. [\<lparr>engineId = [9], engineBoot = 3, engineTime = 90,
     lastReceivedEngineTime = 0, authenticatedFlag = True\<rparr>]), v3_engineBoots = 1, last_engineTime = 0,
     v3_engineID = Some [5], readings = 0\<rparr>"

definition toy_usm :: usm where
  "toy_usm = \<lparr>eng = toy_engines, userList = [toy_user], noNameUser = None, stats = (\<lambda>_. 0),
     saltInteger = 5, saltInteger64One = 6, saltInteger64Two = 7\<rparr>"

definition toy_call :: call where
  "toy_call = \<lparr>has_memory = True, address = 0, maxMsgSize = 1000, secParams = 1, secLevel = PRIOT_SEC_LEVEL_AUTHNOPRIV,
     wholeMsgLen = 33, idRoom = 32, nameRoom = 33, pduRoom = 0, sess = None, msg_flags = 0\<rparr>"

definition toy_params :: usm_params where
  "toy_params = \<lparr>secEngineID = [9], boots_uint = 3, time_uint = 100, msgUserName = [97],
     signature = replicate 12 7, salt = [], data_ptr = 33\<rparr>"

lemma toy_remaining: "in_remaining toy_message toy_call = 0xFFFFFFFF0000004D"
  by (simp add: in_remaining_def toy_message_def toy_call_def)

lemma toy_parse:
  "Usm_parseSecurityParameters toy_message 1 0xFFFFFFFF0000004D 32 33 =
    Ret (Inr (toy_params, take 19 toy_message @ replicate 12 0 @ drop 31 toy_message))"
  by code_simp

lemma toy_hash: "Engine_hashEngineId toy_crypto [9] = 0"
  by code_simp

lemma toy_run:
  "case Usm_processInMsg toy_crypto (\<lambda>_. 10) [] toy_message toy_call True toy_usm of
     Ret (rc, out, st') \<Rightarrow> rc = SUCCESS \<and> params out = Some toy_params | _ \<Rightarrow> False"
  by code_simp

lemma toy_accepted:
  "\<exists>out st'. Usm_processInMsg toy_crypto (\<lambda>_. 10) [] toy_message toy_call True toy_usm = Ret (SUCCESS, out, st')"
  using toy_run by (auto split: outcome.splits prod.splits)

lemma toy_hmac: "hmac_lengths toy_crypto"
  by (simp add: hmac_lengths_def toy_crypto_def key_length_def)

lemma toy_cipher: "cipher_laws toy_crypto"
  by (simp add: cipher_laws_def toy_crypto_def o_def)

lemma toy_local: "has_local_id toy_usm [5]"
  by code_simp

lemma toy_remote: "remote_id toy_usm [9]"
  by code_simp

end
