(* ===== verification/UsmProps.thy ===== *)
theory UsmProps
  imports UsmExample
begin

text \<open>
  The security of the user-based model: what an accepted message proves, what no message can do to
  the clocks and users, which times are accepted, and the flaws the model shows.
\<close>

section \<open>The steps of an incoming message\<close>

lemma in_engine_RetD:
  assumes "in_engine cr uptime c p st = Ret (rc, st')"
  shows "clock cr (eng st') i = clock cr (eng st) i" and "userList st' = userList st"
    and "noNameUser st' = noNameUser st"
proof -
  have e: "clock cr e i = clock cr (eng st) i"
    if "engineIS_ENGINE_KNOWN cr uptime (eng st) (secEngineID p) = (known, e)" for known e
    using that clock_get [of cr uptime "eng st" "secEngineID p" True i]
    by (auto simp: engineIS_ENGINE_KNOWN_def split: prod.splits)
  have s: "clock cr e i = clock cr (eng st) i"
    if "engineENSURE_ENGINE_RECORD cr uptime (has_memory c) (eng st) (secEngineID p) = Ret (rc', e)" for rc' e
    using that engine_records.unauthenticated_keeps [of cr uptime "has_memory c" "eng st" "secEngineID p" 0 0 _ e i]
    by (auto simp: engineENSURE_ENGINE_RECORD_def obind_Ret_iff)
  show "clock cr (eng st') i = clock cr (eng st) i" and "userList st' = userList st"
    and "noNameUser st' = noNameUser st"
    using assms e s
    by (auto simp: in_engine_def Let_def obind_Ret_iff Api_incrementStatistic_def split: prod.splits if_splits)
qed

lemma in_user_state [simp]:
  "eng (snd (snd (in_user c p st))) = eng st" "userList (snd (snd (in_user c p st))) = userList st"
  "noNameUser (snd (snd (in_user c p st))) = noNameUser st"
  by (auto simp: in_user_def Let_def Api_incrementStatistic_def split: option.splits)

lemma in_user_SomeD:
  assumes "in_user c p st = (rc, Some u, st')"
  shows "find_user (Some (secEngineID p)) (c_name (msgUserName p)) (userList st) = Some u \<or>
      noNameUser st = Some u \<and> c_name (msgUserName p) = []"
    and "userStatus u = tcROW_STATUS_ACTIVE" and "Usm_checkSecLevel (secLevel c) u = 0"
  using assms
  by (auto simp: in_user_def Usm_getUserFromList_def Let_def split: option.splits if_splits)

lemma in_free_RetD:
  assumes "in_free r code st out = Ret (rc, out', st')"
  shows "st' = st" and "rc = code"
  using assms by (auto simp: in_free_def split: if_splits)

lemma in_decrypt_RetD:
  assumes "in_decrypt cr stack mem c p u out st = Ret (rc, out', st')"
  shows "eng st' = eng st" and "userList st' = userList st" and "params out' = params out"
proof -
  have s: "eng (Api_incrementStatistic x st) = eng st" "userList (Api_incrementStatistic x st) = userList st" for x
    by (simp_all add: Api_incrementStatistic_def)
  have f: "eng st' = eng st \<and> userList st' = userList st \<and> params out' = params out"
    if "in_free (ref out) code (Api_incrementStatistic x st) out = Ret (rc, out', st')" for code x
    using that s by (auto simp: in_free_def split: if_splits)
  have "eng st' = eng st \<and> userList st' = userList st \<and> params out' = params out"
    using assms f unfolding in_decrypt_def Let_def
    by (auto simp: obind_Ret_iff s split: outcome.splits if_splits)
  then show "eng st' = eng st" and "userList st' = userList st" and "params out' = params out"
    by simp_all
qed

lemma in_time_RetD:
  assumes "in_time cr uptime c p st = Ret (rc, st')"
  shows "not_back cr (eng st) (eng st')"
    and "\<not> authenticated_level (secLevel c) \<Longrightarrow> clock cr (eng st') i = clock cr (eng st) i"
  using assms timeliness_not_back engine_records.unauthenticated_keeps
  by (auto simp: in_time_def obind_Ret_iff intro!: not_back_same split: if_splits)

lemma timeliness_users:
  assumes "Usm_checkAndUpdateTimeliness cr uptime space st i b t = Ret (rc, st')"
  shows "userList st' = userList st"
  using assms
  by (auto simp: Usm_checkAndUpdateTimeliness_def Let_def obind_Ret_iff Api_incrementStatistic_def
    split: prod.splits if_splits)

lemma in_time_users: "in_time cr uptime c p st = Ret (rc, st') \<Longrightarrow> userList st' = userList st"
  using timeliness_users by (fastforce simp: in_time_def obind_Ret_iff split: if_splits)

text \<open>Every way through the checks behind the parser.\<close>

lemma in_checked_cases:
  assumes "in_checked cr uptime stack mem c p out st = Ret (rc, out', st')"
  obtains (engine) "in_engine cr uptime c p st = Ret (rc, st')" "rc \<noteq> SUCCESS"
  | (user) st1 where "in_engine cr uptime c p st = Ret (SUCCESS, st1)" "in_user c p st1 = (rc, None, st')"
  | (digest) st1 rc2 u st2 where "in_engine cr uptime c p st = Ret (SUCCESS, st1)"
      "in_user c p st1 = (rc2, Some u, st2)" "\<not> in_digest cr stack mem c p u"
      "rc = ErrorCode_USM_AUTHENTICATIONFAILURE" "st' = Api_incrementStatistic WRONGDIGESTS st2"
  | (full) st1 rc2 u where "in_engine cr uptime c p st = Ret (SUCCESS, st1)"
      "in_user c p st1 = (rc2, Some u, st')" "rc = ErrorCode_USM_GENERICERROR"
  | (time) st1 rc2 u st2 where "in_engine cr uptime c p st = Ret (SUCCESS, st1)"
      "in_user c p st1 = (rc2, Some u, st2)" "in_digest cr stack mem c p u"
      "in_time cr uptime c p st2 = Ret (rc, st')" "rc \<noteq> SUCCESS"
  | (clear) st1 rc2 u st2 r where "in_engine cr uptime c p st = Ret (SUCCESS, st1)"
      "in_user c p st1 = (rc2, Some u, st2)" "in_digest cr stack mem c p u"
      "in_time cr uptime c p st2 = Ret (SUCCESS, st')" "secLevel c \<noteq> PRIOT_SEC_LEVEL_AUTHPRIV"
      "rc = SUCCESS" "out' = out\<lparr>ref := r, scopedPdu := Some (in_clear c p),
        maxSizeResponse := Some (maxMsgSize c - of_nat (data_ptr p))\<rparr>"
  | (decrypt) st1 rc2 u st2 r st3 where "in_engine cr uptime c p st = Ret (SUCCESS, st1)"
      "in_user c p st1 = (rc2, Some u, st2)" "in_digest cr stack mem c p u"
      "in_time cr uptime c p st2 = Ret (SUCCESS, st3)" "secLevel c = PRIOT_SEC_LEVEL_AUTHPRIV"
      "in_decrypt cr stack mem c p u (out\<lparr>ref := r\<rparr>) st3 = Ret (rc, out', st')"
proof -
  obtain rc1 st1 where e: "in_engine cr uptime c p st = Ret (rc1, st1)"
    using assms by (auto simp: in_checked_def obind_Ret_iff)
  show thesis
  proof (cases "rc1 = SUCCESS")
    case False
    then show thesis
      using assms e engine by (simp add: in_checked_def)
  next
    case 1: True
    obtain rc2 uo st2 where u: "in_user c p st1 = (rc2, uo, st2)"
      by (cases "in_user c p st1")
    show thesis
    proof (cases uo)
      case None
      then show thesis
        using assms e u 1 user by (simp add: in_checked_def)
    next
      case (Some v)
      show thesis
      proof (cases "in_digest cr stack mem c p v")
        case False
        then show thesis
          using assms e u 1 Some digest by (simp add: in_checked_def)
      next
        case d: True
        show thesis
        proof (cases "cache (cache_user (has_memory c) v) (ref out)")
          case None
          then show thesis
            using assms e u 1 Some d full by (simp add: in_checked_def)
        next
          case r: (Some r)
          obtain rc3 st3 where t: "in_time cr uptime c p st2 = Ret (rc3, st3)"
            using assms e u 1 Some d r by (auto simp: in_checked_def obind_Ret_iff)
          show thesis
            using assms e u 1 Some d r t time clear decrypt
            by (auto simp: in_checked_def split: if_splits)
        qed
      qed
    qed
  qed
qed

lemma in_checked_RetD:
  assumes "in_checked cr uptime stack mem c p out st = Ret (rc, out', st')"
  shows "not_back cr (eng st) (eng st')" and "userList st' = userList st"
    and "\<not> authenticated_level (secLevel c) \<Longrightarrow> clock cr (eng st') i = clock cr (eng st) i"
proof -
  have "not_back cr (eng st) (eng st') \<and> userList st' = userList st \<and>
      (\<not> authenticated_level (secLevel c) \<longrightarrow> (\<forall>i. clock cr (eng st') i = clock cr (eng st) i))"
    using assms
  proof (cases rule: in_checked_cases)
    case engine
    then show ?thesis
      using in_engine_RetD [OF engine(1)] by (auto intro: not_back_same)
  next
    case (user st1)
    then show ?thesis
      using in_engine_RetD [OF user(1)] in_user_state [of c p st1] by (auto intro: not_back_same)
  next
    case (digest st1 rc2 u st2)
    then show ?thesis
      using in_engine_RetD [OF digest(1)] in_user_state [of c p st1]
      by (auto simp: Api_incrementStatistic_def intro: not_back_same)
  next
    case (full st1 rc2 u)
    then show ?thesis
      using in_engine_RetD [OF full(1)] in_user_state [of c p st1] by (auto intro: not_back_same)
  next
    case (time st1 rc2 u st2)
    have "not_back cr (eng st) (eng st2)" "\<forall>i. clock cr (eng st2) i = clock cr (eng st) i" "userList st2 = userList st"
      using in_engine_RetD [OF time(1)] in_user_state [of c p st1] time(2) by (auto intro: not_back_same)
    then show ?thesis
      using in_time_RetD [OF time(4)] in_time_users [OF time(4)] not_back_trans by fastforce
  next
    case (clear st1 rc2 u st2 r)
    have "not_back cr (eng st) (eng st2)" "\<forall>i. clock cr (eng st2) i = clock cr (eng st) i" "userList st2 = userList st"
      using in_engine_RetD [OF clear(1)] in_user_state [of c p st1] clear(2) by (auto intro: not_back_same)
    then show ?thesis
      using in_time_RetD [OF clear(4)] in_time_users [OF clear(4)] not_back_trans by fastforce
  next
    case (decrypt st1 rc2 u st2 r st3)
    have "not_back cr (eng st) (eng st2)" "\<forall>i. clock cr (eng st2) i = clock cr (eng st) i" "userList st2 = userList st"
      using in_engine_RetD [OF decrypt(1)] in_user_state [of c p st1] decrypt(2) by (auto intro: not_back_same)
    then show ?thesis
      using in_time_RetD [OF decrypt(4)] in_time_users [OF decrypt(4)] in_decrypt_RetD [OF decrypt(6)] not_back_trans
      by fastforce
  qed
  then show "not_back cr (eng st) (eng st')" and "userList st' = userList st"
    and "\<not> authenticated_level (secLevel c) \<Longrightarrow> clock cr (eng st') i = clock cr (eng st) i"
    by auto
qed

text \<open>An accepted message went through every check.\<close>

lemma in_checked_SUCCESS:
  assumes "in_checked cr uptime stack mem c p out st = Ret (SUCCESS, out', st')"
  obtains st1 rc2 u st2 st3 where "in_user c p st1 = (rc2, Some u, st2)" "userList st1 = userList st"
    "noNameUser st1 = noNameUser st" "in_digest cr stack mem c p u"
    "in_time cr uptime c p st2 = Ret (SUCCESS, st3)" "params out' = params out"
  using assms
proof (cases rule: in_checked_cases)
  case (user st1)
  then show ?thesis
    by (auto simp: in_user_def Let_def usm_codes split: option.splits if_splits)
next
  case (decrypt st1 rc2 u st2 r st3)
  then show ?thesis
    using that [of st1 rc2 u st2 st3] in_engine_RetD [OF decrypt(1)] in_decrypt_RetD [OF decrypt(6)] by simp
next
  case (clear st1 rc2 u st2 r)
  then show ?thesis
    using that [of st1 rc2 u st2 st'] in_engine_RetD [OF clear(1)] by simp
qed (auto simp: usm_codes)

lemma processInMsg_cases:
  assumes "Usm_processInMsg cr uptime stack mem c w st = Ret (rc, out', st')"
  obtains (early) "eng st' = eng st" "userList st' = userList st" "rc \<noteq> SUCCESS"
  | (checked) p mem' out where
      "Usm_parseSecurityParameters mem (secParams c) (in_remaining mem c) (idRoom c) (nameRoom c) = Ret (Inr (p, mem'))"
      "in_checked cr uptime stack mem' c p out st = Ret (rc, out', st')" "params out = Some p"
proof (cases "w \<and> \<not> has_memory c")
  case True
  then show ?thesis
    using assms early by (auto simp: Usm_processInMsg_def Usm_mallocUsmStateReference_def usm_codes)
next
  case False
  then obtain res where res: "Usm_parseSecurityParameters mem (secParams c) (in_remaining mem c) (idRoom c)
      (nameRoom c) = Ret res"
    using assms
    by (auto simp: Usm_processInMsg_def Let_def obind_Ret_iff Usm_mallocUsmStateReference_def split: if_splits)
  show ?thesis
  proof (cases res)
    case (Inl code)
    then show ?thesis
      using assms False res early
      by (auto simp: Usm_processInMsg_def Let_def Usm_mallocUsmStateReference_def usm_codes Api_incrementStatistic_def
        split: if_splits)
  next
    case (Inr pm)
    obtain p mem' where pm: "pm = (p, mem')"
      by (cases pm)
    show ?thesis
    proof (cases "rc = SUCCESS \<or> \<not> (eng st' = eng st \<and> userList st' = userList st)")
      case True
      have "\<exists>out. in_checked cr uptime stack mem' c p out st = Ret (rc, out', st') \<and> params out = Some p"
        using assms False res Inr pm True
        by (fastforce simp: Usm_processInMsg_def Let_def usm_codes Api_incrementStatistic_def
          split: if_splits option.splits)
      then show ?thesis
        using checked res Inr pm by blast
    next
      case False
      then show ?thesis
        using early by blast
    qed
  qed
qed

lemma processInMsg_RetD:
  assumes "Usm_processInMsg cr uptime stack mem c w st = Ret (rc, out', st')"
  shows "not_back cr (eng st) (eng st')" and "userList st' = userList st"
    and "\<not> authenticated_level (secLevel c) \<Longrightarrow> clock cr (eng st') i = clock cr (eng st) i"
  using assms by (cases rule: processInMsg_cases; use in_checked_RetD in \<open>fastforce\<close>)+

section \<open>Authenticity\<close>

text \<open>
  C1: A message that is accepted at a level with authentication carries, as its signature, the
  first twelve bytes of the keyed hash of the message with that signature blanked, under the key
  and protocol of an active user of the list (or the user without name), who is the one of the
  engine and name in the message, and the protocols of that user allow the level.
\<close>

theorem usm_authentic:
  assumes "hmac_lengths cr" and "Usm_processInMsg cr uptime stack mem c w st = Ret (SUCCESS, out, st')"
    and "authenticated_level (secLevel c)"
  shows "\<exists>p mem' u f k.
    Usm_parseSecurityParameters mem (secParams c) (in_remaining mem c) (idRoom c) (nameRoom c) = Ret (Inr (p, mem')) \<and>
    params out = Some p \<and>
    (u \<in> set (userList st) \<and> engineID u = Some (secEngineID p) \<and> uname u = c_name (msgUserName p) \<or>
     noNameUser st = Some u \<and> c_name (msgUserName p) = []) \<and>
    userStatus u = tcROW_STATUS_ACTIVE \<and> Usm_checkSecLevel (secLevel c) u = 0 \<and>
    hash_of (authProtocol u) = Some f \<and> authKey u = Some k \<and> key_length f \<le> length k \<and>
    signature p = take 12 (hmac cr f k (take (unat (wholeMsgLen c)) mem'))"
  using assms(2)
proof (cases rule: processInMsg_cases)
  case (checked p mem' out0)
  from in_checked_SUCCESS [OF checked(2)] obtain st1 rc2 u st2
    where u: "in_user c p st1 = (rc2, Some u, st2)" "userList st1 = userList st" "noNameUser st1 = noNameUser st"
      and d: "in_digest cr stack mem' c p u" and o: "params out = params out0"
    by metis
  obtain k where k: "authKey u = Some k"
    using d assms(3) by (cases "authKey u") (auto simp: in_digest_def Scapi_checkKeyedHash_def usm_codes
      ErrorCode_SC_GENERAL_FAILURE_def)
  obtain f where "hash_of (authProtocol u) = Some f" "key_length f \<le> length k"
    "signature p = take 12 (hmac cr f k (take (unat (wholeMsgLen c)) mem'))"
    using d assms(3) k unfolding in_digest_def k check_success [OF assms(1)] by blast
  moreover have "u \<in> set (userList st) \<and> engineID u = Some (secEngineID p) \<and> uname u = c_name (msgUserName p) \<or>
     noNameUser st = Some u \<and> c_name (msgUserName p) = []"
    using in_user_SomeD(1) [OF u(1)] u(2,3) by (auto simp: find_user_iff find_Some_iff)
  ultimately show ?thesis
    using checked(1,3) o in_user_SomeD(2,3) [OF u(1)] k by metis
qed simp

lemma usm_authentic_witness:
  "\<exists>p mem' (u :: user) f k. authKey u = Some k \<and> hash_of (authProtocol u) = Some f \<and>
    Usm_parseSecurityParameters toy_message (secParams toy_call) (in_remaining toy_message toy_call)
      (idRoom toy_call) (nameRoom toy_call) = Ret (Inr (p, mem')) \<and>
    signature p = take 12 (hmac toy_crypto f k (take (unat (wholeMsgLen toy_call)) mem'))"
proof -
  obtain out st' where r: "Usm_processInMsg toy_crypto (\<lambda>_. 10) [] toy_message toy_call True toy_usm = Ret (SUCCESS, out, st')"
    using toy_accepted by blast
  have "authenticated_level (secLevel toy_call)"
    by (simp add: toy_call_def authenticated_level_def)
  from usm_authentic [OF toy_hmac r this] show ?thesis
    by blast
qed

section \<open>Clocks and users\<close>

text \<open>
  The steps of the security model: an incoming message of any content and result, the changes of
  the user list, and the salts of outgoing messages.
\<close>

inductive usm_step :: "crypto \<Rightarrow> (nat \<Rightarrow> u32) \<Rightarrow> usm \<Rightarrow> usm \<Rightarrow> bool" for cr uptime where
  incoming: "Usm_processInMsg cr uptime stack mem c w st = Ret (rc, out, st') \<Longrightarrow> usm_step cr uptime st st'"
| added: "usm_step cr uptime st (st\<lparr>userList := Usm_addUserToList u (userList st)\<rparr>)"
| removed: "usm_step cr uptime st (st\<lparr>userList := snd (Usm_removeUserFromList a (userList st))\<rparr>)"
| des_salt: "Usm_setSalt st n ps = Some (iv, s, st') \<Longrightarrow> usm_step cr uptime st st'"
| aes_salt: "Usm_setAesIv st b t = (iv, s, st') \<Longrightarrow> usm_step cr uptime st st'"

lemma usm_step_keeps:
  assumes "usm_step cr uptime st st'"
  shows "not_back cr (eng st) (eng st')" and "users_ok (userList st) \<Longrightarrow> users_ok (userList st')"
  using assms
proof (induction rule: usm_step.induct)
  case (incoming stack mem c w st rc out st')
  { case 1 show ?case using processInMsg_RetD [OF incoming] by simp }
  { case 2 then show ?case using processInMsg_RetD [OF incoming] by simp }
qed (auto simp: addUser_ok removeUser_ok Usm_setSalt_def Usm_setAesIv_def Let_def split: option.splits if_splits)

text \<open>
  C6: Over any sequence of incoming messages and of changes of the users, the clock of no engine
  that was authenticated is lost or goes back (boots first, then time), and the list of users stays
  in order. A message at a level without authentication changes no such clock at all.
\<close>

theorem usm_invariants:
  assumes "(usm_step cr uptime)\<^sup>*\<^sup>* st st'"
  shows "not_back cr (eng st) (eng st') \<and> (users_ok (userList st) \<longrightarrow> users_ok (userList st')) \<and>
    (\<forall>stack mem c w rc out st''. Usm_processInMsg cr uptime stack mem c w st' = Ret (rc, out, st'') \<longrightarrow>
       \<not> authenticated_level (secLevel c) \<longrightarrow> (\<forall>i. clock cr (eng st'') i = clock cr (eng st') i))"
proof -
  have "not_back cr (eng st) (eng st') \<and> (users_ok (userList st) \<longrightarrow> users_ok (userList st'))"
    using assms by (induction rule: rtranclp_induct) (auto dest: usm_step_keeps intro: not_back_trans)
  then show ?thesis
    using processInMsg_RetD(3) by blast
qed

lemma usm_invariants_witness:
  "\<exists>st' :: usm. not_back toy_crypto (eng toy_usm) (eng st') \<and> users_ok (userList st')"
proof -
  obtain out st' where "Usm_processInMsg toy_crypto (\<lambda>_. 10) [] toy_message toy_call True toy_usm = Ret (SUCCESS, out, st')"
    using toy_accepted by blast
  then have "(usm_step toy_crypto (\<lambda>_. 10))\<^sup>*\<^sup>* toy_usm st'"
    by (intro r_into_rtranclp usm_step.incoming)
  moreover have "users_ok (userList toy_usm)"
    by (simp add: toy_usm_def users_ok_def)
  ultimately show ?thesis
    using usm_invariants by blast
qed

section \<open>The time window\<close>

lemma time_left_positive:
  assumes "(x :: u32) \<le> 2147483647"
  shows "0 \<le> sint (UTILITIES_ENGINETIME_MAX - x)"
proof -
  have "unat (UTILITIES_ENGINETIME_MAX - x) = 2147483647 - unat x"
    using assms by (simp add: UTILITIES_ENGINETIME_MAX_def word_le_nat_alt unat_sub_if)
  then show ?thesis
    by (simp add: sint_nonneg del: of_nat_diff)
qed

text \<open>
  C8: A message that names the local engine is in time exactly when its boots are the current ones,
  not the last value of the counter, and its time is at most 150 seconds before or after the local
  clock; else the statistic is counted. A message of another engine with an authenticated clock is
  refused exactly when the boots it is expected at are the last value or greater than its own, or
  they are its own, its time is behind the one last taken over and it is off the estimate by more
  than 150 seconds.
\<close>

theorem usm_time_window:
  fixes b t :: u32
  shows "(\<forall>i. has_local_id st i \<longrightarrow>
      Usm_checkAndUpdateTimeliness cr uptime space st i b t =
      (let now = uptime (readings (eng st)) AND 0x7fffffff;
           st' = st\<lparr>eng := snd (V3_localEngineTime uptime (eng st))\<rparr> in
       if b \<noteq> 2147483647 \<and> b = v3_engineBoots (eng st) \<and>
          unat now \<le> unat t + 150 \<and> unat t \<le> unat now + 150 then Ret (SUCCESS, st')
       else Ret (ErrorCode_USM_NOTINTIMEWINDOW, Api_incrementStatistic NOTINTIMEWINDOWS st'))) \<and>
    (\<forall>i e tb tt. remote_id st i \<longrightarrow> Engine_searchInList cr (eng st) i = Some e \<longrightarrow> authenticatedFlag e \<longrightarrow>
      (tb, tt) = estimate (uptime (readings (eng st) + 1) AND 0x7fffffff) e \<longrightarrow>
      (\<exists>rc st'. Usm_checkAndUpdateTimeliness cr uptime space st i b t = Ret (rc, st') \<and>
        (rc = ErrorCode_USM_NOTINTIMEWINDOW \<longleftrightarrow>
           tb = 2147483647 \<or> b < tb \<or>
           b = tb \<and> t < engineTime e \<and> \<not> (unat tt \<le> unat t + 150 \<and> unat t \<le> unat tt + 150)) \<and>
        (rc \<noteq> ErrorCode_USM_NOTINTIMEWINDOW \<longrightarrow> rc = SUCCESS) \<and>
        clock cr (eng st') i =
          (if rc = SUCCESS \<and> \<not> (b = tb \<and> t < engineTime e) then Some (b, t) else clock cr (eng st) i)))"
  (is "?local \<and> ?remote")
proof
  show ?local
    by (simp add: timeliness_local window_def UTILITIES_ENGINEBOOT_MAX_def)
  show ?remote
  proof (intro allI impI)
    fix i e tb tt
    assume r: "remote_id st i" and e: "Engine_searchInList cr (eng st) i = Some e" "authenticatedFlag e"
      and est: "(tb, tt) = estimate (uptime (readings (eng st) + 1) AND 0x7fffffff) e"
    obtain rc st' where t: "Usm_checkAndUpdateTimeliness cr uptime space st i b t = Ret (rc, st')"
      and rc: "if tb = UTILITIES_ENGINEBOOT_MAX \<or> b < tb \<or> b = tb \<and> t < engineTime e \<and> \<not> window tt t
        then rc = ErrorCode_USM_NOTINTIMEWINDOW else rc = SUCCESS"
      and c: "clock cr (eng st') i =
        (if rc = SUCCESS \<and> \<not> (b = tb \<and> t < engineTime e) then Some (b, t) else clock cr (eng st) i)"
      using timeliness_auth [OF r e, of uptime space b t, folded est, unfolded prod.case] by blast
    show "\<exists>rc st'. Usm_checkAndUpdateTimeliness cr uptime space st i b t = Ret (rc, st') \<and>
        (rc = ErrorCode_USM_NOTINTIMEWINDOW \<longleftrightarrow>
           tb = 2147483647 \<or> b < tb \<or>
           b = tb \<and> t < engineTime e \<and> \<not> (unat tt \<le> unat t + 150 \<and> unat t \<le> unat tt + 150)) \<and>
        (rc \<noteq> ErrorCode_USM_NOTINTIMEWINDOW \<longrightarrow> rc = SUCCESS) \<and>
        clock cr (eng st') i =
          (if rc = SUCCESS \<and> \<not> (b = tb \<and> t < engineTime e) then Some (b, t) else clock cr (eng st) i)"
      using rc c unfolding window_def UTILITIES_ENGINEBOOT_MAX_def
      by (intro exI [of _ rc] exI [of _ st'] conjI t) (simp_all add: usm_codes split: if_splits)
  qed
qed

lemma usm_time_window_witness:
  "Usm_checkAndUpdateTimeliness toy_crypto (\<lambda>_. 10) True toy_usm [5] 1 160 =
     Ret (SUCCESS, toy_usm\<lparr>eng := snd (V3_localEngineTime (\<lambda>_. 10) toy_engines)\<rparr>) \<and>
   Usm_checkAndUpdateTimeliness toy_crypto (\<lambda>_. 10) True toy_usm [5] 1 161 \<noteq>
     Ret (SUCCESS, toy_usm\<lparr>eng := snd (V3_localEngineTime (\<lambda>_. 10) toy_engines)\<rparr>)"
  by (simp add: usm_time_window [THEN conjunct1, rule_format, OF toy_local] Let_def usm_codes)
    (simp add: toy_usm_def toy_engines_def)

text \<open>
  C15: The newest message of an engine is accepted again at any later time, as long as the boots
  expected of it have not changed, however far the estimate of its time has gone on; the estimate
  then starts again at the time of that message.
\<close>

theorem usm_replay_newest:
  assumes "remote_id st i" and "Engine_searchInList cr (eng st) i = Some e" and "authenticatedFlag e"
    and "fst (estimate (uptime (readings (eng st) + 1) AND 0x7fffffff) e) = engineBoot e"
    and "engineBoot e \<noteq> 2147483647" and "engineTime e \<le> 2147483647"
  shows "\<exists>st' e'. Usm_checkAndUpdateTimeliness cr uptime space st i (engineBoot e) (engineTime e) = Ret (SUCCESS, st') \<and>
    Engine_searchInList cr (eng st') i = Some e' \<and>
    estimate (uptime (readings (eng st) + 2) AND 0x7fffffff) e' = (engineBoot e, engineTime e)"
proof -
  let ?now = "uptime (readings (eng st) + 2) AND 0x7fffffff"
  let ?e' = "\<lparr>engineId = i, engineBoot = engineBoot e, engineTime = engineTime e,
    lastReceivedEngineTime = ucast ?now, authenticatedFlag = True\<rparr>"
  obtain tb tt where est: "estimate (uptime (readings (eng st) + 1) AND 0x7fffffff) e = (tb, tt)"
    by (cases "estimate (uptime (readings (eng st) + 1) AND 0x7fffffff) e")
  then have tb: "tb = engineBoot e"
    using assms(4) by simp
  obtain rc st' where t: "Usm_checkAndUpdateTimeliness cr uptime space st i (engineBoot e) (engineTime e) = Ret (rc, st')"
    and "if tb = UTILITIES_ENGINEBOOT_MAX \<or> engineBoot e < tb \<or>
        engineBoot e = tb \<and> engineTime e < engineTime e \<and> \<not> window tt (engineTime e)
      then rc = ErrorCode_USM_NOTINTIMEWINDOW else rc = SUCCESS"
    and s: "\<forall>j. Engine_searchInList cr (eng st') j =
         (if j = i \<and> rc = SUCCESS \<and> \<not> (engineBoot e = tb \<and> engineTime e < engineTime e)
          then Some \<lparr>engineId = i, engineBoot = engineBoot e, engineTime = engineTime e, lastReceivedEngineTime =
              ucast ?now, authenticatedFlag = True\<rparr>
          else Engine_searchInList cr (eng st) j)"
    using timeliness_auth [OF assms(1-3), of uptime space "engineBoot e" "engineTime e", unfolded est prod.case]
    by blast
  then have rc: "rc = SUCCESS"
    using tb assms(5) by (simp add: UTILITIES_ENGINEBOOT_MAX_def)
  have left: "0 \<le> sint (UTILITIES_ENGINETIME_MAX - engineTime e)"
    using assms(6) time_left_positive by simp
  have "estimate ?now ?e' = (engineBoot e, engineTime e)"
    using left by (simp add: estimate_def Let_def)
  then show ?thesis
    using t s rc by auto
qed

lemma usm_replay_newest_witness:
  "\<exists>st' e'. Usm_checkAndUpdateTimeliness toy_crypto (\<lambda>_. 1000) True toy_usm [9] 3 90 = Ret (SUCCESS, st') \<and>
    Engine_searchInList toy_crypto (eng st') [9] = Some e' \<and> estimate 1000 e' = (3, 90)"
proof -
  let ?e = "\<lparr>engineId = [9], engineBoot = 3, engineTime = 90, lastReceivedEngineTime = 0, authenticatedFlag = True\<rparr>"
  have "Engine_searchInList toy_crypto (eng toy_usm) [9] = Some ?e"
    by code_simp
  moreover have "estimate 1000 ?e = (3, 1090)"
    by code_simp
  ultimately show ?thesis
    using usm_replay_newest [OF toy_remote, of toy_crypto ?e "\<lambda>_. 1000" True] by simp
qed

end
