(* ===== verification/UsmParts.thy ===== *)
theory UsmParts
  imports UsmExample
begin

text \<open>
  The parts of the user-based model by themselves: what the parser of the security parameters
  returns, encryption and decryption, salts, and the list of users as a map.
\<close>

section \<open>Parsed parameters\<close>

lemma checked_Inr_iff: "checked code m f = Ret (Inr y) \<longleftrightarrow> (\<exists>x. m = Ret x \<and> f x = Ret (Inr y))"
  by (cases m) (auto simp: checked_def)

lemma parseString_block:
  assumes "Asn01_parseString mem dl cap = Ret (q, dl', ty, s, l)"
  shows "\<exists>b str z. \<not> l > cap \<and> rd_block mem b (unat l) = Ret str \<and> s = str @ z \<and> q = b + unat l"
proof -
  from assms obtain b str where "\<not> l > cap" "rd_block mem b (unat l) = Ret str" "q = b + unat l"
    and s: "s = str @ (if cap > l then [0] else [])"
    by (auto simp: Asn01_parseString_def obind_Ret_iff simp del: append_Nil2 split: if_split_asm)
  then show ?thesis
    by blast
qed

lemma octets_RetD:
  assumes "octets_at mem p rem cap = Ret (q, rem', type, s)"
  shows "length s \<le> unat cap"
    and "s = [] \<or> length s \<le> q \<and> q \<le> length mem \<and> s = take (length s) (drop (q - length s) mem)"
proof -
  from assms obtain q' str0 l where "Asn01_parseString (drop p mem) rem cap = Ret (q', rem', type, str0, l)"
    and s: "s = take (unat l) str0" and q': "q = p + q'"
    by (auto simp: octets_at_def obind_Ret_iff)
  from parseString_block [OF this(1)] obtain b str z where l: "\<not> l > cap"
    and r: "rd_block (drop p mem) b (unat l) = Ret str"
    and s0: "s = take (unat l) (str @ z)" and q: "q = p + (b + unat l)"
    unfolding s q' by metis
  have str: "str = take (unat l) (drop (p + b) mem)" and n: "unat l = 0 \<or> b + unat l \<le> length mem - p"
    using r by (auto simp: rd_block_Ret_iff add.commute)
  have "length str = unat l"
    using n by (auto simp: str)
  then have "s = str"
    using s0 by simp
  then show "length s \<le> unat cap"
    and "s = [] \<or> length s \<le> q \<and> q \<le> length mem \<and> s = take (length s) (drop (q - length s) mem)"
    using l n \<open>length str = unat l\<close> q str by (auto simp: word_le_nat_alt not_less)
qed

text \<open>
  C16: When the security parameters parse, boots and time are at most 2^31-1, the name has at most
  32 bytes and fits with its terminator, the engine fits, signature and salt have at most sixteen
  bytes, and the message is changed in one place only: the bytes of the signature are zero.
\<close>

theorem usm_params_typed:
  assumes "Usm_parseSecurityParameters mem sp remaining ids names = Ret (Inr (p, mem'))"
  shows "boots_uint p \<le> 2147483647 \<and> time_uint p \<le> 2147483647 \<and> length (secEngineID p) \<le> unat ids \<and>
    length (msgUserName p) \<le> 32 \<and> length (msgUserName p) < unat names \<and>
    length (signature p) \<le> 16 \<and> length (salt p) \<le> 16 \<and>
    (\<exists>a. mem' = take a mem @ replicate (length (signature p)) 0 @ drop (a + length (signature p)) mem \<and>
       signature p = take (length (signature p)) (drop a mem))"
proof -
  let ?name = msgUserName
  from assms obtain q1 l1 t1 q2 l2 t2 p3 rem3 p4 rem4 t4 bl p5 rem5 t5 tml p6 rem6 p7 rem7 sig p8 rem8 name6 engine salt8
    where e: "octets_at mem (sp + q1 + q2) l2 ids = Ret (p3, rem3, asnOCTET_STR, engine)"
      and bt: "\<not> (ucast (bl :: u64) :: u32) > UTILITIES_ENGINEBOOT_MAX" "\<not> (ucast (tml :: u64) :: u32) > UTILITIES_ENGINETIME_MAX"
      and n: "octets_at mem p5 rem5 names = Ret (p6, rem6, asnOCTET_STR, name6)"
        "\<not> (ucast (ucast names :: u32) :: u64) < of_nat (length name6) + 1" "\<not> length name6 > 32"
      and g: "octets_at mem p6 rem6 (of_nat USM_MAX_KEYEDHASH_BYTES) = Ret (p7, rem7, asnOCTET_STR, sig)"
      and sl: "octets_at (blank mem p7 (length sig)) p7 rem7 (of_nat USM_MAX_SALT_BYTES) = Ret (p8, rem8, asnOCTET_STR, salt8)"
      and p: "p = \<lparr>secEngineID = engine, boots_uint = ucast bl, time_uint = ucast tml, msgUserName = name6,
        signature = sig, salt = salt8, data_ptr = p8\<rparr>" and mem': "mem' = blank mem p7 (length sig)"
    unfolding Usm_parseSecurityParameters_def Let_def
    by (clarsimp simp: checked_Inr_iff split: if_split_asm)
  have boots: "boots_uint p \<le> 2147483647" "time_uint p \<le> 2147483647"
    using bt by (auto simp: p not_less UTILITIES_ENGINEBOOT_MAX_def UTILITIES_ENGINETIME_MAX_def)
  have "length name6 < unat names"
  proof -
    have "unat (of_nat (length name6) + 1 :: u64) = length name6 + 1"
      using n(3) by (simp add: unat_word_ariths unat_of_nat)
    moreover have "unat (ucast (ucast names :: u32) :: u64) \<le> unat names"
      by (simp add: unat_ucast_up unat_ucast_down)
    ultimately show ?thesis
      using n(2) by (simp add: word_less_nat_alt)
  qed
  moreover have "length sig \<le> 16" "length salt8 \<le> 16"
    using octets_RetD(1) [OF g] octets_RetD(1) [OF sl]
    by (simp_all add: USM_MAX_KEYEDHASH_BYTES_def USM_MAX_SALT_BYTES_def)
  moreover have "\<exists>a. mem' = take a mem @ replicate (length sig) 0 @ drop (a + length sig) mem \<and>
      sig = take (length sig) (drop a mem)"
    using octets_RetD(2) [OF g] by (intro exI [of _ "p7 - length sig"]) (auto simp: mem' blank_def)
  ultimately show ?thesis
    using boots n(3) octets_RetD(1) [OF e] by (simp add: p)
qed

lemma usm_params_typed_witness:
  "length (signature toy_params) \<le> 16 \<and> length (msgUserName toy_params) \<le> 32 \<and> boots_uint toy_params \<le> 2147483647"
  using usm_params_typed [OF toy_parse] by blast

section \<open>Encryption\<close>

text \<open>
  C37: What \<open>Scapi_encrypt\<close> makes of a text, \<open>Scapi_decrypt\<close> turns back into the text with the same
  key and vector: followed, for DES, by the fill bytes that make its length a multiple of eight,
  and for AES exactly.
\<close>

theorem scapi_roundtrip:
  assumes "cipher_laws cr" and "Scapi_encrypt cr (Some p) (Some k) (Some v) (Some t) cap = Ret (0, c)"
    and "length c \<le> cap2"
  shows "\<exists>pad < 8. Scapi_decrypt cr (Some p) (Some k) (Some v) (Some c) cap2 =
      Ret (0, t @ replicate pad (of_nat pad)) \<and> length c = length t + pad \<and>
    (p = usm_dESPrivProtocol \<and> 8 dvd length c \<or> p = usm_aESPrivProtocol \<and> pad = 0)"
  by (rule encrypt_decrypt [OF assms])

lemma scapi_roundtrip_witness:
  "Scapi_decrypt toy_crypto (Some usm_dESPrivProtocol) (Some (replicate 16 0)) (Some (replicate 8 0))
     (Some [2, 3, 4, 6, 6, 6, 6, 6]) 8 = Ret (0, [1, 2, 3, 5, 5, 5, 5, 5])"
proof -
  have "Scapi_encrypt toy_crypto (Some usm_dESPrivProtocol) (Some (replicate 16 0)) (Some (replicate 8 0))
      (Some [1, 2, 3]) 8 = Ret (0, [2, 3, 4, 6, 6, 6, 6, 6])"
    by code_simp
  moreover have "length [2, 3, 4, 6, 6, 6, 6, 6 :: u8] \<le> 8"
    by simp
  ultimately obtain pad
    where "length [2, 3, 4, 6, 6, 6, 6, 6 :: u8] = length [1, 2, 3 :: u8] + pad"
    and d: "Scapi_decrypt toy_crypto (Some usm_dESPrivProtocol) (Some (replicate 16 0)) (Some (replicate 8 0))
      (Some [2, 3, 4, 6, 6, 6, 6, 6]) 8 = Ret (0, [1, 2, 3] @ replicate pad (of_nat pad))"
    using scapi_roundtrip [OF toy_cipher] by blast
  then have "pad = 5"
    by simp
  then show ?thesis
    using d by (simp add: numeral_eq_Suc)
qed

section \<open>Salts\<close>

lemma be_bytes_inject: "be_bytes 4 (ucast (a :: u32)) = be_bytes 4 (ucast b) \<longleftrightarrow> a = b"
proof
  assume "be_bytes 4 (ucast a) = be_bytes 4 (ucast b)"
  then have "(ucast (take_bit 32 (ucast a :: u64)) :: u32) = ucast (take_bit 32 (ucast b :: u64))"
    using foldl_be_bytes [of 0 4 "ucast a"] foldl_be_bytes [of 0 4 "ucast b"] by simp
  moreover have "(ucast (take_bit 32 (ucast x :: u64)) :: u32) = x" for x
    by (rule bit_word_eqI) (simp add: bit_simps)
  ultimately show "a = b"
    by simp
qed simp

lemma htonl_inject [simp]: "htonl_bytes a = htonl_bytes b \<longleftrightarrow> a = b"
  by (simp add: htonl_bytes_def be_bytes_inject)

lemma length_htonl [simp]: "length (htonl_bytes a) = 4"
  by (simp add: htonl_bytes_def)

text \<open>The salts of consecutive messages under the same boots.\<close>

fun des_salts :: "nat \<Rightarrow> usm \<Rightarrow> u8 list \<Rightarrow> u8 list list" where
  "des_salts 0 st key = []"
| "des_salts (Suc n) st key =
     (case Usm_setSalt st USM_DES_SALT_BYTES (Some key) of
        None \<Rightarrow> [] | Some (iv, s, st') \<Rightarrow> s # des_salts n st' key)"

fun aes_salts :: "nat \<Rightarrow> usm \<Rightarrow> u8 list list" where
  "aes_salts 0 st = []"
| "aes_salts (Suc n) st = (case Usm_setAesIv st [] [] of (iv, s, st') \<Rightarrow> s # aes_salts n st')"

lemma des_salts_eq:
  assumes "USM_DES_SALT_BYTES \<le> length key"
  shows "des_salts n st key =
    map (\<lambda>k. htonl_bytes (v3_engineBoots (eng st)) @ htonl_bytes (saltInteger st + of_nat k)) [0..<n]"
proof (induction n arbitrary: st)
  case (Suc n)
  have "map (\<lambda>k. htonl_bytes (v3_engineBoots (eng st)) @ htonl_bytes (saltInteger st + of_nat k)) [0..<Suc n] =
    (htonl_bytes (v3_engineBoots (eng st)) @ htonl_bytes (saltInteger st)) #
    map (\<lambda>k. htonl_bytes (v3_engineBoots (eng st)) @ htonl_bytes (saltInteger st + 1 + of_nat k)) [0..<n]"
    unfolding upt_conv_Cons [OF zero_less_Suc] map_Suc_upt [symmetric] by (simp add: o_def ac_simps)
  then show ?case
    using Suc assms by (simp add: Usm_setSalt_def V3_localEngineBoots_def Let_def)
qed simp

text \<open>The counter of AES skips 0.\<close>

definition aes_count :: "u32 \<Rightarrow> nat \<Rightarrow> u32" where
  "aes_count s k = (if unat s + k < 2 ^ 32 then s + of_nat k else s + of_nat k + 1)"

fun aes_next :: "nat \<Rightarrow> u32 \<Rightarrow> u32" where
  "aes_next 0 s = s"
| "aes_next (Suc n) s = aes_next n (if s + 1 = 0 then s + 1 + 1 else s + 1)"

lemma aes_salts_eq:
  "aes_salts n st =
    map (\<lambda>k. htonl_bytes (saltInteger64One st) @ htonl_bytes (aes_next k (saltInteger64Two st))) [0..<n]"
proof (induction n arbitrary: st)
  case (Suc n)
  show ?case
    unfolding upt_conv_Cons [OF zero_less_Suc] map_Suc_upt [symmetric]
    by (simp add: Usm_setAesIv_def Let_def Suc)
qed simp

lemma aes_next_add: "aes_next (m + n) s = aes_next n (aes_next m s)"
  by (induction m arbitrary: s) auto

lemma aes_next_below:
  assumes "unat s + k < 2 ^ 32"
  shows "unat (aes_next k s) = unat s + k"
  using assms
proof (induction k arbitrary: s)
  case (Suc k)
  have "unat (s + 1) = unat s + 1"
    using Suc.prems by (simp add: unat_add_if)
  then have "s + 1 \<noteq> 0"
    by auto
  then show ?case
    using Suc \<open>unat (s + 1) = unat s + 1\<close> by simp
qed simp

lemma aes_next_wrap:
  assumes "unat s + k \<ge> 2 ^ 32" and "k < 2 ^ 32"
  shows "unat (aes_next k s) = unat s + k - 2 ^ 32 + 1"
proof -
  define m where "m = 2 ^ 32 - 1 - unat s"
  have m: "unat s + m = 2 ^ 32 - 1" "m < k"
    using assms(1) unat_lt2p [of s] by (auto simp: m_def)
  have "unat (aes_next m s) = 2 ^ 32 - 1"
    using aes_next_below [of s m] m by simp
  then have "aes_next m s = - 1"
    by (simp add: word_unat_eq_iff unsigned_minus_1_eq_mask mask_eq_exp_minus_1)
  then have "aes_next k s = aes_next (k - m - 1) 1"
    using aes_next_add [of m "Suc (k - m - 1)" s] m(2) by simp
  then show ?thesis
    using aes_next_below [of 1 "k - m - 1"] m assms by simp
qed

lemma aes_next_inj:
  assumes "i < j" and "j < 2 ^ 32 - 1"
  shows "aes_next i s \<noteq> aes_next j s"
proof
  assume eq: "aes_next i s = aes_next j s"
  have u: "unat (aes_next k s) = (if unat s + k < 2 ^ 32 then unat s + k else unat s + k - 2 ^ 32 + 1)"
    if "k < 2 ^ 32" for k
    using aes_next_below [of s k] aes_next_wrap [of s k] that by auto
  have "(if unat s + i < 2 ^ 32 then unat s + i else unat s + i - 2 ^ 32 + 1) =
      (if unat s + j < 2 ^ 32 then unat s + j else unat s + j - 2 ^ 32 + 1)"
    using u [of i] u [of j] eq assms by simp
  then show False
    using assms unat_lt2p [of s] by (auto split: if_splits)
qed

text \<open>
  C38: The salts of consecutive messages differ: those of DES for 2^32 messages under the same
  boots, those of AES for 2^32 - 1 messages. After that the salts of AES come again, for their
  first half never changes.
\<close>

theorem usm_salts_distinct:
  shows "(USM_DES_SALT_BYTES \<le> length key \<longrightarrow> n \<le> 2 ^ 32 \<longrightarrow>
      distinct (des_salts n st key) \<and> length (des_salts n st key) = n) \<and>
    (n \<le> 2 ^ 32 - 1 \<longrightarrow> distinct (aes_salts n st)) \<and> length (aes_salts n st) = n \<and>
    (\<forall>s \<in> set (aes_salts n st). take 4 s = htonl_bytes (saltInteger64One st)) \<and>
    (saltInteger64Two st \<noteq> 0 \<longrightarrow> n > 2 ^ 32 - 1 \<longrightarrow> aes_salts n st ! (2 ^ 32 - 1) = aes_salts n st ! 0)"
proof (intro conjI impI)
  assume key: "USM_DES_SALT_BYTES \<le> length key" and n: "n \<le> 2 ^ 32"
  show "distinct (des_salts n st key)"
    using n by (auto simp: des_salts_eq [OF key] distinct_map intro!: inj_onI
      dest!: arg_cong [where f = unat] simp: unat_of_nat)
  show "length (des_salts n st key) = n"
    by (simp add: des_salts_eq [OF key])
next
  assume n: "n \<le> 2 ^ 32 - 1"
  have "inj_on (\<lambda>k. aes_next k (saltInteger64Two st)) {0..<n}"
  proof (rule inj_onI)
    fix i j
    assume "i \<in> {0..<n}" and "j \<in> {0..<n}" and "aes_next i (saltInteger64Two st) = aes_next j (saltInteger64Two st)"
    then show "i = j"
      using n aes_next_inj [of i j "saltInteger64Two st"] aes_next_inj [of j i "saltInteger64Two st"]
      by (cases i j rule: linorder_cases) auto
  qed
  then show "distinct (aes_salts n st)"
    by (auto simp: aes_salts_eq distinct_map inj_on_def)
next
  assume nz: "saltInteger64Two st \<noteq> 0" and n: "n > 2 ^ 32 - 1"
  have "0 < unat (saltInteger64Two st)"
    using nz by (simp add: unat_gt_0)
  then have "aes_next (2 ^ 32 - 1) (saltInteger64Two st) = saltInteger64Two st"
    using aes_next_wrap [of "saltInteger64Two st" "2 ^ 32 - 1"] by (simp add: word_unat_eq_iff)
  then show "aes_salts n st ! (2 ^ 32 - 1) = aes_salts n st ! 0"
    using n by (simp add: aes_salts_eq)
qed (auto simp: aes_salts_eq)

lemma usm_salts_distinct_witness:
  "distinct (des_salts 3 toy_usm (replicate 8 0)) \<and> distinct (aes_salts 3 toy_usm)"
  using usm_salts_distinct [of "replicate 8 0" 3 toy_usm] by (simp add: USM_DES_SALT_BYTES_def)

section \<open>Users as a map\<close>

definition user_map :: "user list \<Rightarrow> u8 list option \<times> u8 list \<Rightarrow> user option" where
  "user_map users = (\<lambda>(i, n). find_user i n users)"

lemma find_user_removed:
  assumes "users_ok users" and "u \<in> set users" and "distinct (map uaddr users)"
  shows "find_user i n (snd (Usm_removeUserFromList (uaddr u) users)) =
    (if engineID u = i \<and> uname u = n then None else find_user i n users)"
  unfolding removeUser_filter [OF assms(3)]
  using assms unfolding users_ok_def
proof (induction users)
  case (Cons p ps)
  show ?case
  proof (cases "p = u")
    case True
    then have "\<forall>x \<in> set ps. uaddr x \<noteq> uaddr u" and k: "\<forall>x \<in> set ps. user_key u \<noteq> user_key x"
      using Cons.prems user_less_not_key by auto (metis image_eqI)
    then have "filter (\<lambda>x. uaddr x \<noteq> uaddr u) ps = ps"
      by (simp add: filter_id_conv)
    then show ?thesis
      using True k by (auto simp: find_user_iff find_None_iff same_key_iff)
  next
    case False
    then have u: "u \<in> set ps" "uaddr p \<noteq> uaddr u" "user_key p \<noteq> user_key u"
      using Cons.prems user_less_not_key by (auto simp: image_iff)
    then show ?thesis
      using Cons by (auto simp: find_user_iff same_key_iff)
  qed
qed simp

text \<open>
  C39: The list of users implements a map from engine and name to users: adding a user updates the
  map, removing one of its users takes its key out, and both keep the order of the list; each user
  of the list is found under its own key, also where other keys lie in between.
\<close>

theorem usm_users_map:
  assumes "users_ok users" and "distinct (map uaddr users)"
  shows "users_ok (Usm_addUserToList u users) \<and>
    user_map (Usm_addUserToList u users) = (user_map users)((engineID u, uname u) \<mapsto> u) \<and>
    (\<forall>v \<in> set users. user_map users (engineID v, uname v) = Some v \<and>
      users_ok (snd (Usm_removeUserFromList (uaddr v) users)) \<and>
      user_map (snd (Usm_removeUserFromList (uaddr v) users)) = (user_map users)((engineID v, uname v) := None))"
  using assms
  by (auto simp: user_map_def fun_eq_iff addUser_ok removeUser_ok find_user_add find_user_removed find_user_in)

lemma usm_users_map_witness:
  "user_map (Usm_addUserToList (toy_user\<lparr>uaddr := 2, uname := [98]\<rparr>) [toy_user]) (Some [9], [97]) = Some toy_user"
proof -
  have "users_ok [toy_user]" "distinct (map uaddr [toy_user])"
    by (simp_all add: users_ok_def)
  from usm_users_map [OF this, of "toy_user\<lparr>uaddr := 2, uname := [98]\<rparr>"] show ?thesis
    by (simp add: toy_user_def)
qed

section \<open>The unchecked length\<close>

text \<open>
  C40: In a message the length of the security parameters is not checked against what is left of the
  message: for any message that starts as messages do, their header parses whatever length it
  claims, however short the message is.
\<close>

theorem usm_length_unchecked:
  assumes "mem ! 0 = 0x30" and "drop (secParams c) mem = 4 # 0x82 # a # b # rest" and "wholeMsgLen c \<le> 0xFFFF"
  shows "Asn01_parseSequence (drop (secParams c) mem) (in_remaining mem c) asnOCTET_STR =
    Ret (4, push_bit 8 (ucast a) OR ucast b, asnOCTET_STR)"
proof -
  let ?mem = "drop (secParams c) mem"
  let ?len = "push_bit 8 (ucast a) OR ucast b :: u64"
  have "secParams c < length mem"
    using assms(2) by (intro not_le_imp_less notI) simp
  then have rem: "unat (in_remaining mem c) \<ge> 2 ^ 63"
    using assms hd_drop_conv_nth [of "secParams c" mem] by (intro remaining_huge) (simp_all add: asn_tags)
  have "bit a n \<Longrightarrow> n < 8" "bit b n \<Longrightarrow> n < 8" for n
    using bit_imp_le_length [of a n] bit_imp_le_length [of b n] by simp_all
  then have "?len = take_bit 16 ?len"
    by (intro bit_word_eqI) (fastforce simp: bit_simps)
  then have len: "unat ?len < 65536"
    using take_bit_nat_less_exp [of 16 "unat ?len"] arg_cong [where f = unat, of ?len "take_bit 16 ?len"]
    unfolding unsigned_take_bit_eq by simp
  have s: "shift_in 2 (4 # 0x82 # a # b # rest) (Suc (Suc 0)) 0 = Ret (4, ?len)"
    by (simp add: numeral_2_eq_2)
  have "\<not> sint ?len < 0"
    using len by (subst sint_nonneg) simp_all
  then have "Asn01_parseLength ?mem 1 = Ret (4, ?len)"
    using s by (simp add: Asn01_parseLength_def assms(2) asn_tags Let_def)
  moreover have "\<not> Asn01_parseLengthCheck 4 0 ?len (in_remaining mem c)"
    using len rem by (simp add: Asn01_parseLengthCheck_def word_less_nat_alt unat_add_if)
  ultimately have "parse_len ?mem 1 (in_remaining mem c) = Ret (4, ?len)"
    by (simp add: parse_len_def)
  moreover have "c_int ?len = ?len"
    using len by (simp add: c_int_small word_le_nat_alt)
  ultimately show ?thesis
    using assms(2) by (simp add: Asn01_parseSequence_def Asn01_parseHeader_def asn_tags asnIS_EXTENSION_ID_def)
qed

lemma usm_length_unchecked_witness:
  "Asn01_parseSequence (drop (secParams toy_call) [0x30, 4, 0x82, 0x7F, 0xFF])
     (in_remaining [0x30, 4, 0x82, 0x7F, 0xFF] toy_call) asnOCTET_STR = Ret (4, 0x7FFF, asnOCTET_STR)"
  using usm_length_unchecked [where mem = "[0x30, 4, 0x82, 0x7F, 0xFF]" and c = toy_call]
  by (simp add: toy_call_def)

end
