(* ===== verification/UsmOut.thy ===== *)
theory UsmOut
  imports UsmIn AsnRev
begin

text \<open>
  The building of an outgoing message of the user-based security model
  (src/Firmware/Core/System/Security/Usm.c): \<open>Usm_rgenerateOutMsg\<close>, which writes the message from its
  end to its start in the growing buffer of AsnRev.

  On entry the buffer ends with the scoped PDU. The result is the code, the buffer where the code is
  success, and the state with its counted salts. \<open>have\<close> says whether memory can be allocated beside
  the buffer. The names of protocols hold ten identifiers wherever they are compared, as the macro
  assumes.
\<close>

definition ErrorCode_MALLOC :: int where "ErrorCode_MALLOC = - 62"
definition ErrorCode_TOO_LONG :: int where "ErrorCode_TOO_LONG = - 5"
definition ErrorCode_USM_ENCRYPTIONERROR :: int where "ErrorCode_USM_ENCRYPTIONERROR = - 45"

section \<open>Who sends\<close>

text \<open>Where a reference of a request is given, its values come before those of the arguments.\<close>

record identity =
  theName :: "u8 list"
  theEngineID :: "u8 list"
  theAuthProtocol :: "oid list option"
  theAuthKey :: "u8 list option"
  thePrivProtocol :: "oid list option"
  thePrivKey :: "u8 list option"
  theSecLevel :: int

definition or_empty :: "'a list option \<Rightarrow> 'a list" where
  "or_empty x = (case x of None \<Rightarrow> [] | Some v \<Rightarrow> v)"

definition Usm_getUser :: "usm \<Rightarrow> u8 list \<Rightarrow> u8 list \<Rightarrow> user option" where
  "Usm_getUser st i name = Usm_getUserFromList (Some i) (Some (c_name name)) (userList st) (noNameUser st) True"

definition out_identity ::
    "usm \<Rightarrow> u8 list \<Rightarrow> u8 list \<Rightarrow> int \<Rightarrow> state_ref option \<Rightarrow> int + identity" where
  "out_identity st secEngine name level sref =
     (case sref of
        Some r \<Rightarrow> Inr \<lparr>theName = or_empty (usr_name r),
          theEngineID = (if or_empty (usr_engine_id r) = [] then secEngine else or_empty (usr_engine_id r)),
          theAuthProtocol = usr_auth_protocol r, theAuthKey = usr_auth_key r,
          thePrivProtocol = usr_priv_protocol r, thePrivKey = usr_priv_key r, theSecLevel = usr_sec_level r\<rparr>
      | None \<Rightarrow>
          (case Usm_getUser st secEngine name of
             None \<Rightarrow>
               if level \<noteq> PRIOT_SEC_LEVEL_NOAUTH then Inl ErrorCode_USM_UNKNOWNSECURITYNAME
               else Inr \<lparr>theName = name, theEngineID = secEngine,
                 theAuthProtocol = Some usm_noAuthProtocol, theAuthKey = None,
                 thePrivProtocol = Some usm_noPrivProtocol, thePrivKey = None, theSecLevel = level\<rparr>
           | Some u \<Rightarrow> Inr \<lparr>theName = name, theEngineID = secEngine,
               theAuthProtocol = Some (authProtocol u), theAuthKey = authKey u,
               thePrivProtocol = Some (privProtocol u), thePrivKey = privKey u, theSecLevel = level\<rparr>))"

section \<open>Encryption\<close>

text \<open>
  The vector for the cipher and the salt of the message. The 64 bits of DES come from the key behind
  its first eight bytes; a shorter key is read past its end.
\<close>

definition out_salt :: "identity \<Rightarrow> u32 \<Rightarrow> u32 \<Rightarrow> usm \<Rightarrow> (int + u8 list \<times> u8 list \<times> usm) outcome" where
  "out_salt w boots time st =
     (let des = UTILITIES_ISTRANSFORM (or_empty (thePrivProtocol w)) usm_dESPrivProtocol;
          aes = UTILITIES_ISTRANSFORM (or_empty (thePrivProtocol w)) usm_aESPrivProtocol in
      if (aes \<or> des) \<and> thePrivKey w = None then Ret (Inl ErrorCode_USM_GENERICERROR)
      else if aes then Ret (Inr (Usm_setAesIv st (htonl_bytes boots) (htonl_bytes time)))
      else if des then
        (if length (the (thePrivKey w)) < 8 then Crash
         else case Usm_setSalt st USM_DES_SALT_BYTES (Some (drop 8 (the (thePrivKey w)))) of
           None \<Rightarrow> Ret (Inl ErrorCode_USM_GENERICERROR) | Some r \<Rightarrow> Ret (Inr r))
      else Ret (Inr ([], [], st)))"

definition out_encrypt ::
    "crypto \<Rightarrow> heap_env \<Rightarrow> bool \<Rightarrow> identity \<Rightarrow> u32 \<Rightarrow> u32 \<Rightarrow> u8 list \<Rightarrow> rbuf \<Rightarrow> usm \<Rightarrow>
      ((int + u8 list \<times> rbuf) \<times> usm) outcome" where
  "out_encrypt cr env have w boots time pdu b st =
     (if theSecLevel w \<noteq> PRIOT_SEC_LEVEL_AUTHPRIV then Ret (Inr ([], b), st)
      else if \<not> have then Ret (Inl ErrorCode_MALLOC, st)
      else obind (out_salt w boots time st) (\<lambda>r. case r of
          Inl code \<Rightarrow> Ret (Inl code, st)
        | Inr (vec, msalt, st1) \<Rightarrow>
          obind (Scapi_encrypt cr (thePrivProtocol w) (thePrivKey w) (Some vec) (Some pdu) (length pdu + 64))
            (\<lambda>(rc, ciphertext).
            if rc \<noteq> 0 then Ret (Inl ErrorCode_USM_ENCRYPTIONERROR, st1)
            else (case Asn01_reallocRbuildString env True asnOCTET_STR ciphertext
                (of_nat (length ciphertext)) (b\<lparr>offset := 0\<rparr>) of
                Crash \<Rightarrow> Crash
              | Null \<Rightarrow> Ret (Inl ErrorCode_USM_ENCRYPTIONERROR, st1)
              | Ret b1 \<Rightarrow> Ret (Inr (msalt, b1), st1)))))"

section \<open>The security parameters and the header\<close>

text \<open>The parameters, from the last to the first, in front of the data; and how far the digest is from the end.\<close>

definition out_params ::
    "heap_env \<Rightarrow> identity \<Rightarrow> u32 \<Rightarrow> u32 \<Rightarrow> u8 list \<Rightarrow> u8 list \<Rightarrow> rbuf \<Rightarrow> (int + nat \<times> rbuf) outcome" where
  "out_params env w boots time msalt globalData b =
     (let sp_offset = offset b;
          mac = (if authenticated_level (theSecLevel w) then USM_MD5_AND_SHA_AUTH_LEN else 0) in
      checked ErrorCode_TOO_LONG
        (Asn01_reallocRbuildString env True asnOCTET_STR msalt (of_nat (length msalt)) b) (\<lambda>b1.
      checked ErrorCode_TOO_LONG
        (Asn01_reallocRbuildString env True asnOCTET_STR (replicate mac 0) (of_nat mac) b1) (\<lambda>b2.
      checked ErrorCode_TOO_LONG
        (Asn01_reallocRbuildString env True asnOCTET_STR (theName w) (of_nat (length (theName w))) b2) (\<lambda>b3.
      checked ErrorCode_TOO_LONG (Asn01_reallocRbuildInt env True asnINTEGER (ucast time) 8 b3) (\<lambda>b4.
      checked ErrorCode_TOO_LONG (Asn01_reallocRbuildInt env True asnINTEGER (ucast boots) 8 b4) (\<lambda>b5.
      checked ErrorCode_TOO_LONG
        (Asn01_reallocRbuildString env True asnOCTET_STR (theEngineID w) (of_nat (length (theEngineID w))) b5) (\<lambda>b6.
      checked ErrorCode_TOO_LONG
        (Asn01_reallocRbuildSequence env True (asnSEQUENCE OR asnCONSTRUCTOR)
          (of_nat (offset b6 - sp_offset)) b6) (\<lambda>b7.
      checked ErrorCode_TOO_LONG
        (Asn01_reallocBuildHeader env True asnOCTET_STR (of_nat (offset b7 - sp_offset)) b7) (\<lambda>b8.
      checked ErrorCode_TOO_LONG
        (obind (need env True (length globalData) b8) (poke_block globalData)) (\<lambda>b9.
      checked ErrorCode_TOO_LONG
        (Asn01_reallocRbuildSequence env True (asnSEQUENCE OR asnCONSTRUCTOR) (of_nat (offset b9)) b9) (\<lambda>b10.
      Ret (Inr (offset b2 - 2, b10)))))))))))))"

text \<open>The digest of the message, written over the zeros that held its place.\<close>

definition out_sign :: "crypto \<Rightarrow> bool \<Rightarrow> identity \<Rightarrow> nat \<Rightarrow> rbuf \<Rightarrow> int \<times> rbuf option" where
  "out_sign cr have w mac_offset b =
     (if \<not> authenticated_level (theSecLevel w) then (SUCCESS, Some b)
      else if \<not> have then (ErrorCode_USM_GENERICERROR, None)
      else case Scapi_generateKeyedHash cr (theAuthProtocol w) (theAuthKey w) (Some (written b))
          USM_MD5_AND_SHA_AUTH_LEN of (rc, sig) \<Rightarrow>
        if rc \<noteq> 0 \<or> length sig \<noteq> USM_MD5_AND_SHA_AUTH_LEN then (ErrorCode_USM_AUTHENTICATIONFAILURE, None)
        else let at = length (pkt b) - mac_offset in
          (SUCCESS, Some (b\<lparr>pkt := take at (pkt b) @ sig @ drop (at + length sig) (pkt b)\<rparr>)))"

definition Usm_rgenerateOutMsg ::
    "crypto \<Rightarrow> (nat \<Rightarrow> u32) \<Rightarrow> heap_env \<Rightarrow> bool \<Rightarrow> u8 list \<Rightarrow> u8 list \<Rightarrow> u8 list \<Rightarrow> int \<Rightarrow> u8 list \<Rightarrow>
      state_ref option \<Rightarrow> rbuf \<Rightarrow> usm \<Rightarrow> (int \<times> rbuf option \<times> usm) outcome" where
  "Usm_rgenerateOutMsg cr uptime env have globalData secEngine name level pdu sref b st =
     (case out_identity st secEngine name level sref of
        Inl code \<Rightarrow> Ret (code, None, st)
      | Inr w \<Rightarrow>
        if Usm_checkSecLevelVsProtocols (theSecLevel w) (or_empty (theAuthProtocol w))
            (or_empty (thePrivProtocol w)) = 1
        then Ret (ErrorCode_USM_UNSUPPORTEDSECURITYLEVEL, None, st)
        else case Engine_get cr uptime (eng st) (theEngineID w) False of (_, (boots, time), e) \<Rightarrow>
          (let st1 = st\<lparr>eng := e\<rparr> in
           obind (out_encrypt cr env have w boots time pdu b st1) (\<lambda>(r, st2). case r of
               Inl code \<Rightarrow> Ret (code, None, st2)
             | Inr (msalt, b1) \<Rightarrow>
               obind (out_params env w boots time msalt globalData b1) (\<lambda>r. case r of
                   Inl code \<Rightarrow> Ret (code, None, st2)
                 | Inr (mac_offset, b2) \<Rightarrow>
                   (case out_sign cr have w mac_offset b2 of (rc, res) \<Rightarrow> Ret (rc, res, st2))))))"

end
