(* ===== verification/UsmRound.thy ===== *)
theory UsmRound
  imports UsmOut UsmExample VarOp
begin

text \<open>
  A message that \<open>Usm_rgenerateOutMsg\<close> builds and what \<open>Usm_processInMsg\<close> makes of it: the bytes of
  the message field by field, the parameters that are parsed from it, and its acceptance by an engine
  that shares the user.
\<close>

section \<open>Fields\<close>

text \<open>The encodings of a string and of an integer, as the forward builders write them.\<close>

definition enc_octets :: "u8 list \<Rightarrow> u8 list" where
  "enc_octets s =
     (case Asn01_buildString 0x100000 asnOCTET_STR (Some s) (of_nat (length s)) of Ret (bs, _) \<Rightarrow> bs | _ \<Rightarrow> [])"

definition enc_int :: "u32 \<Rightarrow> u8 list" where
  "enc_int x = (case Asn_buildInt 0x100000 asnINTEGER (ucast x) 8 of Ret (bs, _) \<Rightarrow> bs | _ \<Rightarrow> [])"

lemma build_hdr_total:
  assumes "len \<le> 0xFFFF"
  shows "\<exists>h d. build_hdr 0x100000 ty len = Ret (h, d)"
proof -
  have "unat len \<le> 0xFFFF"
    using assms by (simp add: word_le_nat_alt)
  then show ?thesis
    by (auto simp: build_hdr_def Asn01_buildHeader_def Asn01_buildLength_def Asn01_buildHeaderCheck_def
      word_less_nat_alt word_le_nat_alt)
qed

lemma build_octets:
  assumes "length s \<le> 0xFFFF"
  shows "\<exists>d. Asn01_buildString 0x100000 asnOCTET_STR (Some s) (of_nat (length s)) = Ret (enc_octets s, d)"
proof -
  have n: "unat (of_nat (length s) :: u64) = length s"
    using assms by (simp add: unat_of_nat)
  then have "(of_nat (length s) :: u64) \<le> 0xFFFF"
    using assms by (simp add: word_le_nat_alt)
  then obtain h d where "build_hdr 0x100000 asnOCTET_STR (of_nat (length s)) = Ret (h, d)"
    using build_hdr_total by blast
  then show ?thesis
    using n by (auto simp: enc_octets_def Asn01_buildString_def rd_block_def)
qed

lemma build_integer:
  "\<exists>d. Asn_buildInt 0x100000 asnINTEGER (ucast x) 8 = Ret (enc_int x, d)"
proof -
  obtain n where n: "shortest n (asnCHECK_OVERFLOW_SIGNED (ucast x))"
    "trim_int 8 (asnCHECK_OVERFLOW_SIGNED (ucast x)) =
       (n, push_bit (8 * (8 - n)) (asnCHECK_OVERFLOW_SIGNED (ucast x)))"
    by (rule trim_int_8)
  have "(of_nat n :: u64) \<le> 0xFFFF"
    using n(1) by (simp add: shortest_def word_le_nat_alt unat_of_nat)
  then obtain h d where "build_hdr 0x100000 asnINTEGER (of_nat n) = Ret (h, d)"
    using build_hdr_total by blast
  then show ?thesis
    using n by (simp add: enc_int_def Asn_buildInt_def)
qed

lemma enc_octets_shape:
  assumes "length s \<le> 0xFFFF"
  obtains h where "enc_octets s = h @ s" and "2 \<le> length h" and "length h \<le> 4"
proof -
  obtain d where b: "Asn01_buildString 0x100000 asnOCTET_STR (Some s) (of_nat (length s)) = Ret (enc_octets s, d)"
    using build_octets [OF assms] by blast
  have n: "unat (of_nat (length s) :: u64) = length s"
    using assms by (simp add: unat_of_nat)
  from b show ?thesis
  proof (rule buildString_RetD)
    fix h dlh
    assume "build_hdr 0x100000 asnOCTET_STR (of_nat (length s)) = Ret (h, dlh)"
      and "enc_octets s = h @ take (unat (of_nat (length s) :: u64)) s"
    then show ?thesis
      using that [of h] build_hdr_RetD n by fastforce
  qed
qed

lemma enc_octets_short:
  assumes "length s < 128"
  shows "enc_octets s = asnOCTET_STR # of_nat (length s) # s"
proof -
  have n: "unat (of_nat (length s) :: u64) = length s"
    using assms by (simp add: unat_of_nat)
  then have small: "(of_nat (length s) :: u64) < 0x80"
    using assms by (simp add: word_less_nat_alt)
  have u: "(ucast (of_nat (length s) :: u64) :: u8) = of_nat (length s)"
    using assms by (simp add: unsigned_of_nat take_bit_nat_eq_self)
  have z: "(of_nat (length s) :: u64) = 0 \<longleftrightarrow> s = []"
    using n by (cases s) auto
  show ?thesis
    using n assms small by (simp add: enc_octets_def Asn01_buildString_def build_hdr_def Asn01_buildHeader_def
      Asn01_buildLength_def Asn01_buildHeaderCheck_def rd_block_def word_less_nat_alt u z)
qed

text \<open>The reverse builders put them in front; the parsers of the security parameters read them.\<close>

lemma rbuild_octets:
  assumes "length s \<le> 0xFFFF"
  shows "prepends 0 (can_grow env r) (Asn01_reallocRbuildString env r asnOCTET_STR s (of_nat (length s))) (enc_octets s)"
proof -
  obtain d where "Asn01_buildString 0x100000 asnOCTET_STR (Some s) (of_nat (length s)) = Ret (enc_octets s, d)"
    using build_octets [OF assms] by blast
  moreover have "(of_nat (length s) :: u64) \<le> 0xFFFF"
    using assms by (simp add: word_le_nat_alt unat_of_nat)
  ultimately show ?thesis
    by (rule rbuild_string_bytes)
qed

lemma rbuild_integer:
  "prepends 0 (can_grow env r) (Asn01_reallocRbuildInt env r asnINTEGER (ucast x) 8) (enc_int x)"
proof -
  obtain d where "Asn_buildInt 0x100000 asnINTEGER (ucast x) 8 = Ret (enc_int x, d)"
    using build_integer by blast
  then show ?thesis
    by (rule rbuild_int_bytes)
qed

lemma read_octets:
  assumes "drop p mem = enc_octets s @ rest" and "length s \<le> 0xFFFF" and "length s \<le> unat cap"
    and "length (enc_octets s) \<le> unat dl"
  shows "octets_at mem p dl cap =
    Ret (p + length (enc_octets s), dl - of_nat (length (enc_octets s)), asnOCTET_STR, s)"
proof -
  obtain d where "Asn01_buildString 0x100000 asnOCTET_STR (Some s) (of_nat (length s)) = Ret (enc_octets s, d)"
    using build_octets [OF assms(2)] by blast
  from string_roundtrip [OF this _ assms(2,3,4), of rest] show ?thesis
    using assms(1,2) by (simp add: octets_at_def string_type_def unat_of_nat)
qed

lemma read_integer:
  assumes "drop p mem = enc_int x @ rest" and "x \<le> 0x7FFFFFFF" and "length (enc_int x) \<le> unat dl"
  shows "integer_at mem p dl = Ret (p + length (enc_int x), dl - of_nat (length (enc_int x)), asnINTEGER, ucast x)"
proof -
  obtain d where b: "Asn_buildInt 0x100000 asnINTEGER (ucast x) 8 = Ret (enc_int x, d)"
    using build_integer by blast
  have "unat (ucast x :: u64) \<le> 0x7FFFFFFF"
    using assms(2) by (simp add: word_le_nat_alt unat_ucast_up)
  then obtain k where "unat (ucast x :: u64) = k" and k: "k \<le> 0x7FFFFFFF"
    by blast
  then have "sint (ucast x :: u64) = int k"
    by (simp add: sint_nonneg del: of_nat_unat)
  then have "asnCHECK_OVERFLOW_SIGNED (ucast x) = (ucast x :: u64)"
    using k by (intro check_signed_in_range) simp_all
  then show ?thesis
    using int_roundtrip [OF b assms(3), of rest] assms(1) by (simp add: integer_at_def)
qed

text \<open>A header in front of contents of a known length.\<close>

lemma read_header:
  assumes "ber_length n hs" and "1 + length hs + unat n \<le> unat dl" and "unat n \<le> 0x7fffffff"
    and "ty = asnOCTET_STR \<or> ty = asnSEQUENCE OR asnCONSTRUCTOR"
  shows "Asn01_parseSequence (ty # hs @ bs) dl ty = Ret (1 + length hs, n, ty)"
proof -
  have "Asn01_parseLength ([ty] @ hs @ bs) (length [ty] + 0) = Ret (1 + length hs, n)"
    using parse_ber_length [OF assms(1), of bs] assms(3) by (simp only: parseLength_shift) simp
  then have "parse_len (ty # hs @ bs) 1 dl = Ret (1 + length hs, n)"
    using assms(2,3) ber_length_short [OF assms(1)] unat_lt2p [of dl]
    by (simp add: parse_len_def Asn01_parseLengthCheck_def word_le_nat_alt word_less_nat_alt
        unat_add_if unat_of_nat)
  moreover have "c_int n = n"
    using assms(3) by (intro c_int_small) (simp add: word_le_nat_alt)
  moreover have "\<not> asnIS_EXTENSION_ID ty" "ty \<noteq> asnOPAQUE"
    using assms(4) by (auto simp: asn_tags asnIS_EXTENSION_ID_def)
  ultimately show ?thesis
    by (simp add: Asn01_parseSequence_def Asn01_parseHeader_def rd_def)
qed

section \<open>The message that is built\<close>

lemma checked_InrD: "checked code m f = Ret (Inr y) \<Longrightarrow> (\<And>x. m = Ret x \<Longrightarrow> f x = Ret (Inr y) \<Longrightarrow> thesis) \<Longrightarrow> thesis"
  by (cases m) (auto simp: checked_def)

lemma prepends_written:
  assumes "prepends 0 g f xs" and "rbuf_ok b" and "f b = Ret b'"
  shows "rbuf_ok b'" and "written b' = xs @ written b" and "offset b' = length xs + offset b"
  using prependsD(3) [OF assms(1,2) _ assms(3)] prepends_offset [OF assms(1,2) _ assms(3)] by simp_all

definition mac_length :: "int \<Rightarrow> nat" where
  "mac_length level = (if authenticated_level level then USM_MD5_AND_SHA_AUTH_LEN else 0)"

definition param_bytes :: "identity \<Rightarrow> u32 \<Rightarrow> u32 \<Rightarrow> u8 list \<Rightarrow> u8 list \<Rightarrow> u8 list" where
  "param_bytes w boots time mac msalt =
     enc_octets (theEngineID w) @ enc_int boots @ enc_int time @ enc_octets (theName w) @
     enc_octets mac @ enc_octets msalt"

definition small_fields :: "identity \<Rightarrow> bool" where
  "small_fields w \<longleftrightarrow> length (theEngineID w) \<le> 0xFFFF \<and> length (theName w) \<le> 0xFFFF"

text \<open>The message: sequence, header data, and the parameters in their string, before the data.\<close>

definition message_bytes :: "u8 list \<Rightarrow> u8 list \<Rightarrow> u8 list \<Rightarrow> u8 list \<Rightarrow> u8 list \<Rightarrow> u8 list \<Rightarrow> u8 list" where
  "message_bytes h1 globalData h2 h3 par body =
     (asnSEQUENCE OR asnCONSTRUCTOR) # h1 @ globalData @
     asnOCTET_STR # h2 @ (asnSEQUENCE OR asnCONSTRUCTOR) # h3 @ par @ body"

lemma prepends_global:
  "prepends 0 (can_grow env True) (\<lambda>b. obind (need env True (length bs) b) (poke_block bs)) bs"
  by (rule prepends_reserve [OF reserves_need prepends_poke_block]) simp

lemma out_params_shape:
  assumes "out_params env w boots time msalt globalData b = Ret (Inr (mo, b'))" and "rbuf_ok b"
    and "small_fields w" and "length msalt \<le> 0xFFFF"
  shows "\<exists>h1 h2 h3. written b' = message_bytes h1 globalData h2 h3
      (param_bytes w boots time (replicate (mac_length (theSecLevel w)) 0) msalt) (written b) \<and>
    ber_length (of_nat (length (param_bytes w boots time (replicate (mac_length (theSecLevel w)) 0) msalt))) h3 \<and>
    ber_length (of_nat (Suc (length h3 + length (param_bytes w boots time (replicate (mac_length (theSecLevel w)) 0) msalt)))) h2 \<and>
    ber_length (of_nat (length (written b') - Suc (length h1))) h1 \<and>
    rbuf_ok b' \<and> mo = length (written b) + length (enc_octets msalt) + mac_length (theSecLevel w)"
proof -
  let ?m = "mac_length (theSecLevel w)"
  let ?z = "replicate ?m (0 :: u8)"
  let ?par = "param_bytes w boots time ?z msalt"
  have m12: "?m \<le> 12"
    by (simp add: mac_length_def USM_MD5_AND_SHA_AUTH_LEN_def)
  obtain b1 b2 b3 b4 b5 b6 b7 b8 b9 where
    s1: "Asn01_reallocRbuildString env True asnOCTET_STR msalt (of_nat (length msalt)) b = Ret b1"
    and s2: "Asn01_reallocRbuildString env True asnOCTET_STR ?z (of_nat ?m) b1 = Ret b2"
    and s3: "Asn01_reallocRbuildString env True asnOCTET_STR (theName w) (of_nat (length (theName w))) b2 = Ret b3"
    and s4: "Asn01_reallocRbuildInt env True asnINTEGER (ucast time) 8 b3 = Ret b4"
    and s5: "Asn01_reallocRbuildInt env True asnINTEGER (ucast boots) 8 b4 = Ret b5"
    and s6: "Asn01_reallocRbuildString env True asnOCTET_STR (theEngineID w) (of_nat (length (theEngineID w))) b5 = Ret b6"
    and s7: "Asn01_reallocRbuildSequence env True (asnSEQUENCE OR asnCONSTRUCTOR) (of_nat (offset b6 - offset b)) b6 = Ret b7"
    and s8: "Asn01_reallocBuildHeader env True asnOCTET_STR (of_nat (offset b7 - offset b)) b7 = Ret b8"
    and s9: "obind (need env True (length globalData) b8) (poke_block globalData) = Ret b9"
    and s10: "Asn01_reallocRbuildSequence env True (asnSEQUENCE OR asnCONSTRUCTOR) (of_nat (offset b9)) b9 = Ret b'"
    and mo: "mo = offset b2 - 2"
    using assms(1) unfolding out_params_def Let_def mac_length_def [symmetric]
    by (elim checked_InrD) auto
  note w1 = prepends_written [OF rbuild_octets [OF assms(4)] assms(2) s1]
  have z: "length ?z \<le> 0xFFFF"
    using m12 by simp
  have s2': "Asn01_reallocRbuildString env True asnOCTET_STR ?z (of_nat (length ?z)) b1 = Ret b2"
    using s2 by (simp only: length_replicate)
  note w2 = prepends_written [OF rbuild_octets [OF z] w1(1) s2']
  have n: "length (theName w) \<le> 0xFFFF" and e: "length (theEngineID w) \<le> 0xFFFF"
    using assms(3) by (simp_all add: small_fields_def)
  note w3 = prepends_written [OF rbuild_octets [OF n] w2(1) s3]
  note w4 = prepends_written [OF rbuild_integer w3(1) s4]
  note w5 = prepends_written [OF rbuild_integer w4(1) s5]
  note w6 = prepends_written [OF rbuild_octets [OF e] w5(1) s6]
  have p6: "written b6 = ?par @ written b"
    unfolding w6(2) w5(2) w4(2) w3(2) w2(2) w1(2) param_bytes_def append_assoc ..
  have o6: "offset b6 - offset b = length ?par"
    unfolding w6(3) w5(3) w4(3) w3(3) w2(3) w1(3) param_bytes_def by simp
  obtain h3 where h3: "ber_length (of_nat (length ?par)) h3" and P7: "\<And>env r. prepends 0 (can_grow env r)
      (Asn01_reallocBuildHeader env r (asnSEQUENCE OR asnCONSTRUCTOR) (of_nat (length ?par)))
      ((asnSEQUENCE OR asnCONSTRUCTOR) # h3)"
    using prepends_header by blast
  note w7 = prepends_written [OF P7 w6(1) s7 [unfolded Asn01_reallocRbuildSequence_def o6]]
  have o7: "offset b7 - offset b = Suc (length h3 + length ?par)"
    using w7(3) o6 w6(3) w5(3) w4(3) w3(3) w2(3) w1(3) by simp
  obtain h2 where h2: "ber_length (of_nat (Suc (length h3 + length ?par))) h2" and P8: "\<And>env r. prepends 0 (can_grow env r)
      (Asn01_reallocBuildHeader env r asnOCTET_STR (of_nat (Suc (length h3 + length ?par)))) (asnOCTET_STR # h2)"
    using prepends_header by blast
  note w8 = prepends_written [OF P8 w7(1) s8 [unfolded o7]]
  note w9 = prepends_written [OF prepends_global w8(1) s9]
  obtain h1 where h1: "ber_length (of_nat (offset b9)) h1" and P10: "\<And>env r. prepends 0 (can_grow env r)
      (Asn01_reallocBuildHeader env r (asnSEQUENCE OR asnCONSTRUCTOR) (of_nat (offset b9)))
      ((asnSEQUENCE OR asnCONSTRUCTOR) # h1)"
    using prepends_header by blast
  note w10 = prepends_written [OF P10 w9(1) s10 [unfolded Asn01_reallocRbuildSequence_def]]
  have "written b' = message_bytes h1 globalData h2 h3 ?par (written b)"
    unfolding w10(2) w9(2) w8(2) w7(2) p6 message_bytes_def by simp
  moreover have "mo = length (written b) + length (enc_octets msalt) + ?m"
    using mo w2(3) w1(3) m12 enc_octets_short [of ?z] length_written [OF assms(2)] by simp
  moreover have "length (written b') - Suc (length h1) = offset b9"
    using w10(1,3) by simp
  ultimately show ?thesis
    using h3 h2 h1 w10(1) by metis
qed

lemma generate_success:
  assumes "hmac_lengths cr" and "Scapi_generateKeyedHash cr a k (Some msg) USM_MD5_AND_SHA_AUTH_LEN = (0, sig)"
  shows "\<exists>p q f. a = Some p \<and> k = Some q \<and> hash_of p = Some f \<and> key_length f \<le> length q \<and>
    sig = take 12 (hmac cr f q msg)"
proof -
  obtain p q where pq: "a = Some p" "k = Some q" and p: "length p = UTILITIES_USM_LENGTH_OID_TRANSFORM"
    and l: "Scapi_getProperLength p \<noteq> GENERR" "\<not> int (length q) < Scapi_getProperLength p"
    and sig: "sig = take 12 (hmac cr (if UTILITIES_ISTRANSFORM p usm_hMACMD5AuthProtocol then MD5 else SHA1) q msg)"
    using assms(2) by (auto simp: Scapi_generateKeyedHash_def ErrorCode_SC_GENERAL_FAILURE_def GENERR_def
      USM_MD5_AND_SHA_AUTH_LEN_def Let_def split: option.splits if_splits)
  obtain f where f: "hash_of p = Some f"
    using l(1) properLength_hash_of [OF p] by (cases "hash_of p") auto
  then have "(if UTILITIES_ISTRANSFORM p usm_hMACMD5AuthProtocol then MD5 else SHA1) = f"
    using p by (auto simp: hash_of_def split: if_splits)
  then show ?thesis
    using pq f sig l(2) properLength_hash_of [OF p] by auto
qed

text \<open>Writing the digest over its zeros.\<close>

lemma out_sign_shape:
  assumes "out_sign cr have w (length body + length (enc_octets msalt) + mac_length (theSecLevel w)) b =
      (SUCCESS, Some b')"
    and "rbuf_ok b" and "hmac_lengths cr" and "length msalt \<le> 16"
    and "written b = message_bytes h1 G h2 h3
      (param_bytes w boots time (replicate (mac_length (theSecLevel w)) 0) msalt) body"
  shows "\<exists>sig. length sig = mac_length (theSecLevel w) \<and>
    written b' = message_bytes h1 G h2 h3 (param_bytes w boots time sig msalt) body \<and>
    (authenticated_level (theSecLevel w) \<longrightarrow>
       Scapi_generateKeyedHash cr (theAuthProtocol w) (theAuthKey w) (Some (written b)) USM_MD5_AND_SHA_AUTH_LEN = (0, sig))"
proof (cases "authenticated_level (theSecLevel w)")
  case False
  then show ?thesis
    using assms by (auto simp: out_sign_def mac_length_def)
next
  case True
  then have m: "mac_length (theSecLevel w) = 12"
    by (simp add: mac_length_def USM_MD5_AND_SHA_AUTH_LEN_def)
  obtain sig where g: "Scapi_generateKeyedHash cr (theAuthProtocol w) (theAuthKey w) (Some (written b))
      USM_MD5_AND_SHA_AUTH_LEN = (0, sig)" and sig: "length sig = 12"
    and b': "b' = b\<lparr>pkt := take (length (pkt b) - (length body + length (enc_octets msalt) + 12)) (pkt b) @ sig @
      drop (length (pkt b) - (length body + length (enc_octets msalt) + 12) + length sig) (pkt b)\<rparr>"
    using assms(1) True m
    by (auto simp: out_sign_def Let_def usm_codes USM_MD5_AND_SHA_AUTH_LEN_def split: prod.splits if_splits)
  define x where "x = take (length (pkt b) - offset b) (pkt b)"
  have pkt: "pkt b = x @ written b"
    by (simp add: x_def written_def)
  have lx: "length x = length (pkt b) - offset b"
    by (simp add: x_def)
  define pre where "pre = (asnSEQUENCE OR asnCONSTRUCTOR :: u8) # h1 @ G @ asnOCTET_STR # h2 @
    (asnSEQUENCE OR asnCONSTRUCTOR) # h3 @ enc_octets (theEngineID w) @
    enc_int boots @ enc_int time @ enc_octets (theName w) @ [asnOCTET_STR, 12]"
  have split: "message_bytes h1 G h2 h3 (param_bytes w boots time y msalt) body = pre @ y @ enc_octets msalt @ body"
    if "length y = 12" for y
    using that by (simp add: message_bytes_def param_bytes_def pre_def enc_octets_short)
  have w: "written b = pre @ replicate 12 0 @ enc_octets msalt @ body"
    using assms(5) split [of "replicate 12 0"] m by simp
  have "pkt b' = x @ pre @ sig @ enc_octets msalt @ body"
    unfolding b' pkt w using sig by simp
  moreover have "offset b' = length (pre @ sig @ enc_octets msalt @ body)"
    using length_written [OF assms(2)] w sig b' by simp
  ultimately have "written b' = pre @ sig @ enc_octets msalt @ body"
    by (simp add: written_def)
  then show ?thesis
    using split [OF sig] g sig m by auto
qed

section \<open>The message that is parsed\<close>

lemma unat_of_nat64: "n < 2 ^ 64 \<Longrightarrow> unat (of_nat n :: u64) = n"
  by (simp add: unat_of_nat)

lemma next_octets:
  assumes "drop p mem = enc_octets s @ later @ rest" and "length s \<le> 0xFFFF" and "length s \<le> unat cap"
    and "length later \<le> 0xFFFFFF"
  shows "octets_at mem p (of_nat (length (enc_octets s @ later))) cap =
      Ret (p + length (enc_octets s), of_nat (length later), asnOCTET_STR, s)"
    and "drop (p + length (enc_octets s)) mem = later @ rest"
proof -
  obtain h where "enc_octets s = h @ s" "length h \<le> 4"
    using enc_octets_shape [OF assms(2)] by metis
  then have "length (enc_octets s @ later) < 2 ^ 64"
    using assms(2,4) by simp
  from unat_of_nat64 [OF this] have "length (enc_octets s) \<le> unat (of_nat (length (enc_octets s @ later)) :: u64)"
    unfolding length_append by linarith
  from read_octets [OF assms(1-3) this]
  show "octets_at mem p (of_nat (length (enc_octets s @ later))) cap =
      Ret (p + length (enc_octets s), of_nat (length later), asnOCTET_STR, s)"
    by simp
  show "drop (p + length (enc_octets s)) mem = later @ rest"
    using arg_cong [OF assms(1), of "drop (length (enc_octets s))"] by (simp add: add.commute)
qed

lemma length_enc_int: "length (enc_int x) \<le> 0x100000"
proof -
  obtain d where "Asn_buildInt 0x100000 asnINTEGER (ucast x) 8 = Ret (enc_int x, d)"
    using build_integer by blast
  from buildInt_capacity [OF this] show ?thesis
    by simp
qed

lemma next_integer:
  assumes "drop p mem = enc_int x @ later @ rest" and "x \<le> 0x7FFFFFFF" and "length later \<le> 0xFFFFFF"
  shows "integer_at mem p (of_nat (length (enc_int x @ later))) =
      Ret (p + length (enc_int x), of_nat (length later), asnINTEGER, ucast x)"
    and "drop (p + length (enc_int x)) mem = later @ rest"
proof -
  have "length (enc_int x @ later) < 2 ^ 64"
    using assms(3) length_enc_int [of x] by simp
  from unat_of_nat64 [OF this] have "length (enc_int x) \<le> unat (of_nat (length (enc_int x @ later)) :: u64)"
    unfolding length_append by linarith
  from read_integer [OF assms(1,2) this]
  show "integer_at mem p (of_nat (length (enc_int x @ later))) =
      Ret (p + length (enc_int x), of_nat (length later), asnINTEGER, ucast x)"
    by simp
  show "drop (p + length (enc_int x)) mem = later @ rest"
    using arg_cong [OF assms(1), of "drop (length (enc_int x))"] by (simp add: add.commute)
qed

lemma blank_at:
  "blank (pre @ x @ post) (length pre + length x) (length x) = pre @ replicate (length x) 0 @ post"
  by (auto simp: blank_def)

text \<open>What a receiver with enough room for engine and name needs of a sender.\<close>

definition sendable :: "identity \<Rightarrow> u32 \<Rightarrow> u32 \<Rightarrow> u8 list \<Rightarrow> u8 list \<Rightarrow> size_t \<Rightarrow> size_t \<Rightarrow> bool" where
  "sendable w boots time mac msalt ids names \<longleftrightarrow>
     boots \<le> 0x7FFFFFFF \<and> time \<le> 0x7FFFFFFF \<and> length (theEngineID w) \<le> 0xFFFF \<and>
     length (theEngineID w) \<le> unat ids \<and> length (theName w) \<le> 32 \<and> length (theName w) < unat names \<and>
     unat names < 2 ^ 32 \<and> length mac \<le> 16 \<and> length msalt \<le> 16"

lemma parse_message:
  assumes "sendable w boots time mac msalt ids names"
    and "ber_length (of_nat (length (param_bytes w boots time mac msalt))) h3"
    and "ber_length (of_nat (Suc (length h3 + length (param_bytes w boots time mac msalt)))) h2"
    and "2 + length h2 + length h3 + length (param_bytes w boots time mac msalt) \<le> unat remaining"
  shows "Usm_parseSecurityParameters
      (message_bytes h1 G h2 h3 (param_bytes w boots time mac msalt) rest) (1 + length h1 + length G) remaining ids names =
    Ret (Inr (\<lparr>secEngineID = theEngineID w, boots_uint = boots, time_uint = time, msgUserName = theName w,
        signature = mac, salt = msalt,
        data_ptr = length (message_bytes h1 G h2 h3 (param_bytes w boots time mac msalt) [])\<rparr>,
      message_bytes h1 G h2 h3 (param_bytes w boots time (replicate (length mac) 0) msalt) rest))"
proof -
  let ?sq = "asnSEQUENCE OR asnCONSTRUCTOR :: u8"
  let ?par = "param_bytes w boots time mac msalt"
  let ?p = "1 + length h1 + length G"
  define mem where "mem = message_bytes h1 G h2 h3 ?par rest"
  have f: "boots \<le> 0x7FFFFFFF" "time \<le> 0x7FFFFFFF" "length (theEngineID w) \<le> 0xFFFF"
    "length (theEngineID w) \<le> unat ids" "length (theName w) \<le> 32" "length (theName w) < unat names"
    "unat names < 2 ^ 32" "length mac \<le> 16" "length msalt \<le> 16"
    using assms(1) by (simp_all add: sendable_def)
  have short: "length (enc_octets mac) \<le> 20" "length (enc_octets msalt) \<le> 20" "length (enc_octets (theName w)) \<le> 36"
    using f(5,8,9) by (simp_all add: enc_octets_short)
  obtain h where "enc_octets (theEngineID w) = h @ theEngineID w" "length h \<le> 4"
    using enc_octets_shape [OF f(3)] by metis
  then have par: "length ?par \<le> 0x7FFFFF"
    using f(3) short length_enc_int [of boots] length_enc_int [of time] by (simp add: param_bytes_def)
  define p1 where "p1 = ?p + (1 + length h2)"
  define p2 where "p2 = p1 + (1 + length h3)"
  have d0: "drop ?p mem = asnOCTET_STR # h2 @ ?sq # h3 @ ?par @ rest"
    and d1: "drop p1 mem = ?sq # h3 @ ?par @ rest" and d2: "drop p2 mem = ?par @ rest"
    by (simp_all add: message_bytes_def mem_def p1_def p2_def)
  have u3: "unat (of_nat (length ?par) :: u64) = length ?par"
    using par by (simp add: unat_of_nat)
  have l3: "length h3 \<le> 9"
    using ber_length_short [OF assms(2)] by simp
  have u2: "unat (of_nat (Suc (length h3 + length ?par)) :: u64) = Suc (length h3 + length ?par)"
    using par l3 by (simp add: unat_of_nat del: of_nat_Suc)
  have r1: "Asn01_parseSequence (drop ?p mem) remaining asnOCTET_STR =
      Ret (1 + length h2, of_nat (Suc (length h3 + length ?par)), asnOCTET_STR)"
    unfolding d0 by (rule read_header [OF assms(3)]) (use u2 par l3 assms(4) in simp_all)
  have r2: "Asn01_parseSequence (drop p1 mem) (of_nat (Suc (length h3 + length ?par))) ?sq =
      Ret (1 + length h3, of_nat (length ?par), ?sq)"
    unfolding d1 by (rule read_header [OF assms(2)]) (use u2 u3 par in simp_all)
  define par6 where "par6 = enc_octets msalt"
  define par5 where "par5 = enc_octets mac @ par6"
  define par4 where "par4 = enc_octets (theName w) @ par5"
  define par3 where "par3 = enc_int time @ par4"
  define par2 where "par2 = enc_int boots @ par3"
  have par_eq: "?par = enc_octets (theEngineID w) @ par2"
    by (simp add: param_bytes_def par2_def par3_def par4_def par5_def par6_def)
  have le: "length par2 \<le> 0xFFFFFF" "length par3 \<le> 0xFFFFFF" "length par4 \<le> 0xFFFFFF" "length par5 \<le> 0xFFFFFF"
    "length par6 \<le> 0xFFFFFF"
    using par unfolding par_eq by (simp_all add: par2_def par3_def par4_def par5_def par6_def)
  have d2': "drop p2 mem = enc_octets (theEngineID w) @ par2 @ rest"
    using d2 unfolding par_eq by simp
  note r3 = next_octets [OF d2' f(3,4) le(1), folded par_eq]
  define p3 where "p3 = p2 + length (enc_octets (theEngineID w))"
  note r3 = r3 [folded p3_def]
  have d3: "drop p3 mem = enc_int boots @ par3 @ rest"
    using r3(2) by (simp add: par2_def)
  define p4 where "p4 = p3 + length (enc_int boots)"
  note r4 = next_integer [OF d3 f(1) le(2), folded par2_def p4_def]
  have d4: "drop p4 mem = enc_int time @ par4 @ rest"
    using r4(2) by (simp add: par3_def)
  define p5 where "p5 = p4 + length (enc_int time)"
  note r5 = next_integer [OF d4 f(2) le(3), folded par3_def p5_def]
  have d5: "drop p5 mem = enc_octets (theName w) @ par5 @ rest"
    using r5(2) by (simp add: par4_def)
  have n16: "length (theName w) \<le> 0xFFFF" "length (theName w) \<le> unat names"
    "length mac \<le> 0xFFFF" "length mac \<le> unat (of_nat USM_MAX_KEYEDHASH_BYTES :: u64)"
    "length msalt \<le> 0xFFFF" "length msalt \<le> unat (of_nat USM_MAX_SALT_BYTES :: u64)"
    using f by (simp_all add: USM_MAX_KEYEDHASH_BYTES_def USM_MAX_SALT_BYTES_def)
  define p6 where "p6 = p5 + length (enc_octets (theName w))"
  note r6 = next_octets [OF d5 n16(1,2) le(4), folded par4_def p6_def]
  have d6: "drop p6 mem = enc_octets mac @ par6 @ rest"
    using r6(2) by (simp add: par5_def)
  define p7 where "p7 = p6 + length (enc_octets mac)"
  note r7 = next_octets [OF d6 n16(3,4) le(5), folded par5_def p7_def]
  define pre where "pre = ?sq # h1 @ G @ asnOCTET_STR # h2 @ ?sq # h3 @ enc_octets (theEngineID w) @
    enc_int boots @ enc_int time @ enc_octets (theName w) @ [asnOCTET_STR, of_nat (length mac)]"
  have pre: "message_bytes h1 G h2 h3 (param_bytes w boots time x msalt) rest = pre @ x @ par6 @ rest"
    if "length x = length mac" for x
    using that f(8) by (simp add: message_bytes_def param_bytes_def pre_def par6_def enc_octets_short)
  have p7_len: "p7 = length pre + length mac"
    using f(8) by (simp add: p7_def p6_def p5_def p4_def p3_def p2_def p1_def pre_def enc_octets_short)
  define mem' where "mem' = blank mem p7 (length mac)"
  have mem'_eq: "mem' = pre @ replicate (length mac) 0 @ par6 @ rest"
    unfolding mem'_def mem_def pre [OF refl] p7_len by (rule blank_at)
  have b': "mem' = message_bytes h1 G h2 h3 (param_bytes w boots time (replicate (length mac) 0) msalt) rest"
    using mem'_eq pre [of "replicate (length mac) 0"] by simp
  have d7: "drop p7 mem' = enc_octets msalt @ [] @ rest"
    by (simp add: mem'_eq p7_len par6_def)
  note r8 = next_octets [OF d7 n16(5,6), folded par6_def, unfolded append_Nil2, simplified, folded par6_def]
  have "length (theName w) + 1 \<le> unat (ucast (ucast names :: u32) :: u64)"
    using f(6,7) by (simp add: unat_ucast_up unat_ucast_down)
  then have room: "\<not> (ucast (ucast names :: u32) :: u64) < of_nat (length (theName w)) + 1"
    using f(5) by (simp add: word_less_nat_alt unat_add_if unat_of_nat)
  have uu: "(ucast (ucast boots :: u64) :: u32) = boots" "(ucast (ucast time :: u64) :: u32) = time"
    using unat_lt2p [of boots] unat_lt2p [of time]
    by (simp_all add: word_unat_eq_iff unat_ucast_up unat_ucast_down)
  have p8: "p7 + length par6 = length (message_bytes h1 G h2 h3 ?par [])"
    using f(8) by (simp add: p7_len message_bytes_def pre_def param_bytes_def par6_def enc_octets_short)
  show ?thesis
    unfolding mem_def [symmetric] b' [symmetric] p8 [symmetric]
    unfolding Usm_parseSecurityParameters_def checked_def r1 outcome.case prod.case
      p1_def [symmetric] r2 p2_def [symmetric] r3(1) r4(1) r5(1) r6(1) r7(1) mem'_def [symmetric] Let_def r8(1)
    using f room uu
    by (simp add: UTILITIES_ENGINEBOOT_MAX_def UTILITIES_ENGINETIME_MAX_def not_less)
qed

section \<open>The whole message\<close>

lemma enc_octets_length:
  assumes "length s \<le> 0xFFFF"
  shows "length s + 2 \<le> length (enc_octets s)" and "length (enc_octets s) \<le> length s + 4"
    and "drop (length (enc_octets s) - length s) (enc_octets s) = s"
proof -
  obtain h where "enc_octets s = h @ s" "2 \<le> length h" "length h \<le> 4"
    using enc_octets_shape [OF assms] by metis
  then show "length s + 2 \<le> length (enc_octets s)" and "length (enc_octets s) \<le> length s + 4"
    and "drop (length (enc_octets s) - length s) (enc_octets s) = s"
    by simp_all
qed

text \<open>The header of a string alone, as the decryption reads it.\<close>

lemma read_octets_header:
  assumes "length s \<le> 0xFFFF" and "length (enc_octets s) \<le> unat dl"
  shows "Asn01_parseSequence (enc_octets s @ rest) dl asnOCTET_STR =
    Ret (length (enc_octets s) - length s, of_nat (length s), asnOCTET_STR)"
proof -
  obtain d where "Asn01_buildString 0x100000 asnOCTET_STR (Some s) (of_nat (length s)) = Ret (enc_octets s, d)"
    using build_octets [OF assms(1)] by blast
  then show ?thesis
  proof (rule buildString_RetD)
    fix h dlh
    let ?n = "of_nat (length s) :: u64"
    assume h: "build_hdr 0x100000 asnOCTET_STR ?n = Ret (h, dlh)" and "enc_octets s = h @ take (unat ?n) s"
    then have bs: "enc_octets s = h @ s"
      using assms(1) by (simp add: unat_of_nat)
    have small: "?n \<le> 0xFFFF" and fit: "length h + unat ?n \<le> unat dl"
      using assms bs by (simp_all add: word_le_nat_alt unat_of_nat)
    note P = parse_len_build_hdr [OF h small fit]
    have "h \<noteq> []" and "(h @ s @ rest) ! 0 = asnOCTET_STR"
      using build_hdr_RetD [OF h] P(2) by (cases h; simp)+
    then show ?thesis
      using P(1) [of "s @ rest"] P(3)
      by (simp add: Asn01_parseSequence_def Asn01_parseHeader_def bs rd_def asn_tags asnIS_EXTENSION_ID_def)
  qed
qed

text \<open>What the sender put into the message.\<close>

lemma out_salt_shape:
  assumes "out_salt w boots time st = Ret (Inr (vec, msalt, st'))"
    and "Scapi_encrypt cr (thePrivProtocol w) (thePrivKey w) (Some vec) (Some pdu) cap = Ret (0, ct)"
  shows "length msalt = 8 \<and> (\<exists>k. thePrivKey w = Some k \<and>
    (thePrivProtocol w = Some usm_dESPrivProtocol \<and> 16 \<le> length k \<and> vec = map2 (XOR) msalt (drop 8 k) \<or>
     thePrivProtocol w = Some usm_aESPrivProtocol \<and> vec = htonl_bytes boots @ htonl_bytes time @ msalt))"
proof -
  obtain p k where p: "thePrivProtocol w = Some p" "length p = UTILITIES_USM_LENGTH_OID_TRANSFORM"
    and k: "thePrivKey w = Some k" and proto: "p = usm_dESPrivProtocol \<or> p = usm_aESPrivProtocol"
    using assms(2) by (auto simp: Scapi_encrypt_def ErrorCode_SC_GENERAL_FAILURE_def split: option.splits if_splits)
  then show ?thesis
    using assms(1)
    by (auto simp: out_salt_def or_empty_def Let_def Usm_setAesIv_def Usm_setSalt_def USM_DES_SALT_BYTES_def
      htonl_bytes_def split: option.splits if_splits)
qed

lemma out_encrypt_RetD:
  assumes "out_encrypt cr env have w boots time pdu b st = Ret (Inr (msalt, b'), st')"
    and "theSecLevel w = PRIOT_SEC_LEVEL_AUTHPRIV"
  shows "\<exists>vec ct. out_salt w boots time st = Ret (Inr (vec, msalt, st')) \<and>
    Scapi_encrypt cr (thePrivProtocol w) (thePrivKey w) (Some vec) (Some pdu) (length pdu + 64) = Ret (0, ct) \<and>
    Asn01_reallocRbuildString env True asnOCTET_STR ct (of_nat (length ct)) (b\<lparr>offset := 0\<rparr>) = Ret b'"
proof -
  obtain r where r: "out_salt w boots time st = Ret r"
    using assms by (auto simp: out_encrypt_def obind_Ret_iff split: if_splits)
  show ?thesis
  proof (cases r)
    case (Inr x)
    obtain vec m st1 where "x = (vec, m, st1)"
      by (cases x)
    then show ?thesis
      using assms r Inr by (auto simp: out_encrypt_def obind_Ret_iff split: if_splits outcome.splits)
  qed (use assms r in \<open>auto simp: out_encrypt_def split: if_splits\<close>)
qed

lemma generated_message:
  assumes "Usm_rgenerateOutMsg cr uptime env have G secEngine name level pdu sref b st = Ret (SUCCESS, Some b', st')"
    and "out_identity st secEngine name level sref = Inr w"
    and "Engine_get cr uptime (eng st) (theEngineID w) False = (rc, (boots, time), e)"
    and "rbuf_ok b" and "hmac_lengths cr" and "cipher_laws cr" and "small_fields w" and "length pdu \<le> 0xFF00"
  obtains h1 h2 h3 msalt mac body where
    "written b' = message_bytes h1 G h2 h3 (param_bytes w boots time mac msalt) body"
    and "length mac = mac_length (theSecLevel w)" and "length msalt \<le> 8"
    and "ber_length (of_nat (length (param_bytes w boots time mac msalt))) h3"
    and "ber_length (of_nat (Suc (length h3 + length (param_bytes w boots time mac msalt)))) h2"
    and "ber_length (of_nat (length (written b') - Suc (length h1))) h1"
    and "authenticated_level (theSecLevel w) \<longrightarrow>
      (\<exists>p k f. theAuthProtocol w = Some p \<and> theAuthKey w = Some k \<and> hash_of p = Some f \<and> key_length f \<le> length k \<and>
        mac = take 12 (hmac cr f k (message_bytes h1 G h2 h3 (param_bytes w boots time (replicate 12 0) msalt) body)))"
    and "theSecLevel w \<noteq> PRIOT_SEC_LEVEL_AUTHPRIV \<longrightarrow> body = written b"
    and "theSecLevel w = PRIOT_SEC_LEVEL_AUTHPRIV \<longrightarrow>
      (\<exists>vec st1 ct. out_salt w boots time (st\<lparr>eng := e\<rparr>) = Ret (Inr (vec, msalt, st1)) \<and>
        Scapi_encrypt cr (thePrivProtocol w) (thePrivKey w) (Some vec) (Some pdu) (length pdu + 64) = Ret (0, ct) \<and>
        length ct \<le> length pdu + 7 \<and> body = enc_octets ct)"
proof -
  obtain r st2 where r: "out_encrypt cr env have w boots time pdu b (st\<lparr>eng := e\<rparr>) = Ret (r, st2)"
    and rest: "(case r of Inl code \<Rightarrow> Ret (code, None, st2)
      | Inr (msalt, b1) \<Rightarrow> obind (out_params env w boots time msalt G b1) (\<lambda>r. case r of
            Inl code \<Rightarrow> Ret (code, None, st2)
          | Inr (mac_offset, b2) \<Rightarrow>
              (case out_sign cr have w mac_offset b2 of (rc, res) \<Rightarrow> Ret (rc, res, st2)))) = Ret (SUCCESS, Some b', st')"
    using assms(1-3) by (auto simp: Usm_rgenerateOutMsg_def Let_def obind_Ret_iff split: if_splits)
  obtain msalt b1 where inr: "r = Inr (msalt, b1)"
    using rest by (cases r) auto
  note enc = r [unfolded inr]
  obtain r2 where r2: "out_params env w boots time msalt G b1 = Ret r2" and rest2: "(case r2 of
        Inl code \<Rightarrow> Ret (code, None, st2)
      | Inr (mac_offset, b2) \<Rightarrow>
          (case out_sign cr have w mac_offset b2 of (rc, res) \<Rightarrow> Ret (rc, res, st2))) = Ret (SUCCESS, Some b', st')"
    using rest by (auto simp: inr obind_Ret_iff)
  obtain mo b2 where inr2: "r2 = Inr (mo, b2)"
    using rest2 by (cases r2) auto
  note par = r2 [unfolded inr2]
  have sign: "out_sign cr have w mo b2 = (SUCCESS, Some b')"
    using rest2 by (simp add: inr2 split: prod.splits)
  have body: "rbuf_ok b1 \<and> length msalt \<le> 8 \<and>
      (theSecLevel w \<noteq> PRIOT_SEC_LEVEL_AUTHPRIV \<longrightarrow> written b1 = written b) \<and>
      (theSecLevel w = PRIOT_SEC_LEVEL_AUTHPRIV \<longrightarrow>
        (\<exists>vec st1 ct. out_salt w boots time (st\<lparr>eng := e\<rparr>) = Ret (Inr (vec, msalt, st1)) \<and>
          Scapi_encrypt cr (thePrivProtocol w) (thePrivKey w) (Some vec) (Some pdu) (length pdu + 64) = Ret (0, ct) \<and>
          length ct \<le> length pdu + 7 \<and> written b1 = enc_octets ct))"
  proof (cases "theSecLevel w = PRIOT_SEC_LEVEL_AUTHPRIV")
    case False
    then show ?thesis
      using enc assms(4) by (simp add: out_encrypt_def)
  next
    case True
    then obtain vec st1 ct where s: "out_salt w boots time (st\<lparr>eng := e\<rparr>) = Ret (Inr (vec, msalt, st1))"
      and c: "Scapi_encrypt cr (thePrivProtocol w) (thePrivKey w) (Some vec) (Some pdu) (length pdu + 64) = Ret (0, ct)"
      and b1: "Asn01_reallocRbuildString env True asnOCTET_STR ct (of_nat (length ct)) (b\<lparr>offset := 0\<rparr>) = Ret b1"
      using out_encrypt_RetD [OF enc] by blast
    obtain k where k: "thePrivKey w = Some k" and p: "thePrivProtocol w = Some usm_dESPrivProtocol \<or>
        thePrivProtocol w = Some usm_aESPrivProtocol" and m: "length msalt = 8"
      using out_salt_shape [OF s c] by blast
    have l: "length ct \<le> length pdu + 7"
    proof -
      obtain q where "thePrivProtocol w = Some q"
        using p by blast
      then obtain pad where "pad < 8" "length ct = length pdu + pad"
        using c k encrypt_decrypt [OF assms(6), of q k vec pdu _ ct "length ct"] by auto
      then show ?thesis
        by simp
    qed
    then have "length ct \<le> 0xFFFF"
      using assms(8) by simp
    moreover have "rbuf_ok (b\<lparr>offset := 0\<rparr>)"
      using assms(4) by (simp add: rbuf_ok_def)
    ultimately have "rbuf_ok b1" "written b1 = enc_octets ct"
      using prepends_written [OF rbuild_octets _ b1] by (simp_all add: written_def)
    then show ?thesis
      using s c l m True by auto
  qed
  then have "length msalt \<le> 0xFFFF" "length msalt \<le> 16" "rbuf_ok b1"
    by simp_all
  let ?z = "replicate (mac_length (theSecLevel w)) (0 :: u8)"
  obtain h1 h2 h3 where w2: "written b2 = message_bytes h1 G h2 h3 (param_bytes w boots time ?z msalt) (written b1)"
    and h3: "ber_length (of_nat (length (param_bytes w boots time ?z msalt))) h3"
    and h2: "ber_length (of_nat (Suc (length h3 + length (param_bytes w boots time ?z msalt)))) h2"
    and h1: "ber_length (of_nat (length (written b2) - Suc (length h1))) h1"
    and b2: "rbuf_ok b2" and mo: "mo = length (written b1) + length (enc_octets msalt) + mac_length (theSecLevel w)"
    using out_params_shape [OF par \<open>rbuf_ok b1\<close> assms(7) \<open>length msalt \<le> 0xFFFF\<close>] by blast
  obtain mac where mac: "length mac = mac_length (theSecLevel w)"
    and w': "written b' = message_bytes h1 G h2 h3 (param_bytes w boots time mac msalt) (written b1)"
    and hash: "authenticated_level (theSecLevel w) \<Longrightarrow>
      Scapi_generateKeyedHash cr (theAuthProtocol w) (theAuthKey w) (Some (written b2)) USM_MD5_AND_SHA_AUTH_LEN = (0, mac)"
    using out_sign_shape [OF sign [unfolded mo] b2 assms(5) \<open>length msalt \<le> 16\<close> w2] by blast
  have small: "length mac < 128" "length ?z < 128"
    using mac by (simp_all add: mac_length_def USM_MD5_AND_SHA_AUTH_LEN_def)
  have len: "length (param_bytes w boots time ?z msalt) = length (param_bytes w boots time mac msalt)"
    using mac small by (simp add: param_bytes_def enc_octets_short)
  then have len': "length (written b2) = length (written b')"
    unfolding w2 w' by (simp add: message_bytes_def)
  have auth: "\<exists>p k f. theAuthProtocol w = Some p \<and> theAuthKey w = Some k \<and> hash_of p = Some f \<and>
      key_length f \<le> length k \<and>
      mac = take 12 (hmac cr f k (message_bytes h1 G h2 h3 (param_bytes w boots time (replicate 12 0) msalt) (written b1)))"
    if "authenticated_level (theSecLevel w)"
    using generate_success [OF assms(5) hash [OF that]] that w2
    by (auto simp: mac_length_def USM_MD5_AND_SHA_AUTH_LEN_def)
  show ?thesis
    by (rule that [OF w' mac _ h3 [unfolded len] h2 [unfolded len] h1 [unfolded len']])
      (use body auth in auto)
qed

section \<open>Its acceptance\<close>

text \<open>The parameters as they are sent, apart from digest, salt and place.\<close>

definition sent :: "identity \<Rightarrow> u32 \<Rightarrow> u32 \<Rightarrow> usm_params" where
  "sent w boots time = \<lparr>secEngineID = theEngineID w, boots_uint = boots, time_uint = time,
     msgUserName = theName w, signature = [], salt = [], data_ptr = 0\<rparr>"

text \<open>A user of the receiver with the protocols and keys of the sender.\<close>

definition shares_keys :: "identity \<Rightarrow> user \<Rightarrow> bool" where
  "shares_keys w u \<longleftrightarrow> theAuthProtocol w = Some (authProtocol u) \<and> theAuthKey w = authKey u \<and>
     thePrivProtocol w = Some (privProtocol u) \<and> thePrivKey w = privKey u"

lemma in_steps_cong:
  assumes "secEngineID p = secEngineID q" and "boots_uint p = boots_uint q" and "time_uint p = time_uint q"
    and "msgUserName p = msgUserName q"
  shows "in_engine cr uptime c p st = in_engine cr uptime c q st" and "in_user c p st = in_user c q st"
    and "in_time cr uptime c p st = in_time cr uptime c q st"
  unfolding in_engine_def in_user_def in_time_def assms by (rule refl)+

lemma cache_room:
  "r \<noteq> Some None \<Longrightarrow> \<exists>r'. cache (cache_params True l p) r = Some r' \<and> r' \<noteq> Some None"
  "r \<noteq> Some None \<Longrightarrow> \<exists>r'. cache (cache_user True u) r = Some r' \<and> r' \<noteq> Some None"
  by (auto simp: cache_def cache_params_def cache_user_def Usm_setUsmStateReferenceName_def
    Usm_setUsmStateReferenceEngineId_def Usm_setUsmStateReferenceAuthProtocol_def
    Usm_setUsmStateReferenceAuthKey_def Usm_setUsmStateReferencePrivProtocol_def
    Usm_setUsmStateReferencePrivKey_def USM_MAKE_ENTRY_def split: option.splits)

text \<open>The checks behind the parser, one after the other.\<close>

lemma in_checked_passes:
  assumes "in_engine cr uptime c p st = Ret (SUCCESS, st1)" and "in_user c p st1 = (SUCCESS, Some u, st2)"
    and "in_digest cr stack mem c p u" and "in_time cr uptime c p st2 = Ret (SUCCESS, st3)"
    and "has_memory c" and "ref out \<noteq> Some None"
  shows "\<exists>r. r \<noteq> Some None \<and> in_checked cr uptime stack mem c p out st =
    (if secLevel c = PRIOT_SEC_LEVEL_AUTHPRIV then in_decrypt cr stack mem c p u (out\<lparr>ref := r\<rparr>) st3
     else Ret (SUCCESS, out\<lparr>ref := r, scopedPdu := Some (in_clear c p),
       maxSizeResponse := Some (maxMsgSize c - of_nat (data_ptr p))\<rparr>, st3))"
proof -
  obtain r where "cache (cache_user True u) (ref out) = Some r" "r \<noteq> Some None"
    using cache_room(2) [OF assms(6)] by blast
  then show ?thesis
    using assms(1-5) by (intro exI [of _ r]) (simp add: in_checked_def)
qed

lemma rd_block_prefix:
  assumes "drop i mem = s @ rest"
  shows "rd_block mem i (length s) = Ret s"
proof -
  have "length mem - i = length s + length rest"
    using assms by (metis length_append length_drop)
  then have "s = [] \<or> i + length s \<le> length mem"
    by (cases s) auto
  then show ?thesis
    using assms by (auto simp: rd_block_def)
qed

lemma in_decrypt_passes:
  assumes "drop (data_ptr p) mem = enc_octets ct @ rest" and "length ct \<le> 0xFFFF"
    and "length (enc_octets ct) \<le> unat (wholeMsgLen c - of_nat (data_ptr p))" and "length (salt p) = 8"
    and "privKey u = Some k"
    and "privProtocol u = usm_dESPrivProtocol \<and> 16 \<le> length k \<and> 8 dvd length ct \<and>
        vec = map2 (XOR) (salt p) (drop 8 k) \<or>
      privProtocol u = usm_aESPrivProtocol \<and>
        vec = htonl_bytes (boots_uint p) @ htonl_bytes (time_uint p) @ salt p"
    and "Scapi_decrypt cr (Some (privProtocol u)) (Some k) (Some vec) (Some ct) (pduRoom c) = Ret (0, plain)"
  shows "\<exists>m. in_decrypt cr stack mem c p u out st =
    Ret (SUCCESS, out\<lparr>scopedPdu := Some (Decrypted plain), maxSizeResponse := m\<rparr>, st)"
proof -
  have n: "unat (of_nat (length ct) :: u64) = length ct"
    using assms(2) by (simp add: unat_of_nat)
  have q: "length (enc_octets ct) - length ct + length ct = length (enc_octets ct)"
    using enc_octets_length(1) [OF assms(2)] by simp
  have d: "drop (data_ptr p + (length (enc_octets ct) - length ct)) mem = ct @ rest"
    using arg_cong [OF assms(1), of "drop (length (enc_octets ct) - length ct)"] enc_octets_length(3) [OF assms(2)]
    by (simp add: add.commute)
  then have bl: "rd_block mem (data_ptr p + (length (enc_octets ct) - length ct)) (length ct) = Ret ct"
    by (rule rd_block_prefix)
  have m8: "of_nat (length ct) mod (8 :: u64) = 0" if "8 dvd length ct"
    using that n by (auto simp: word_unat_eq_iff unat_mod)
  show ?thesis
    using assms(6)
  proof
    assume a: "privProtocol u = usm_dESPrivProtocol \<and> 16 \<le> length k \<and> 8 dvd length ct \<and>
      vec = map2 (XOR) (salt p) (drop 8 k)"
    then have "des_iv (salt p) k = Ret vec"
      using assms(4) by (simp add: des_iv_def)
    then show ?thesis
      using a assms(5,7) m8 bl n
      by (simp add: in_decrypt_def assms(1) read_octets_header [OF assms(2,3)] Let_def)
        (rule exI, rule refl)
  next
    assume a: "privProtocol u = usm_aESPrivProtocol \<and>
      vec = htonl_bytes (boots_uint p) @ htonl_bytes (time_uint p) @ salt p"
    then show ?thesis
      using assms(5,7) bl n
      by (simp add: in_decrypt_def assms(1) read_octets_header [OF assms(2,3)] Let_def)
        (rule exI, rule refl)
  qed
qed

lemma message_split: "message_bytes h1 G h2 h3 par body = message_bytes h1 G h2 h3 par [] @ body"
  by (simp add: message_bytes_def)

lemma message_places:
  "message_bytes h1 G h2 h3 par body ! 0 = 0x30"
  "message_bytes h1 G h2 h3 par body ! (1 + length h1 + length G) = asnOCTET_STR"
  "Suc (length h1 + length G + Suc (length h2 + Suc (length h3 + length par))) = length (message_bytes h1 G h2 h3 par [])"
  by (simp_all add: message_bytes_def asn_tags nth_append)

lemma message_header:
  assumes "m = message_bytes h1 G h2 h3 par body" and "ber_length (of_nat (length m - Suc (length h1))) h1"
    and "length m \<le> 0xFFFF"
    and "Asn01_parseSequence (m @ slack) (of_nat (length m)) (asnSEQUENCE OR asnCONSTRUCTOR) = Ret (q, n, ty)"
  shows "q = 1 + length h1"
proof -
  have "Suc (length h1) \<le> length m"
    by (simp add: assms(1) message_bytes_def)
  then have u: "1 + length h1 + unat (of_nat (length m - Suc (length h1)) :: u64) \<le> unat (of_nat (length m) :: u64)"
    "unat (of_nat (length m - Suc (length h1)) :: u64) \<le> 0x7fffffff"
    using assms(3) by (simp_all add: unat_of_nat del: of_nat_diff)
  obtain bs where bs: "m @ slack = (asnSEQUENCE OR asnCONSTRUCTOR) # h1 @ bs"
    by (simp add: assms(1) message_bytes_def)
  show ?thesis
    using read_header [OF assms(2) u, of "asnSEQUENCE OR asnCONSTRUCTOR" bs] assms(4) unfolding bs by simp
qed

text \<open>The processing of a message whose parameters parse: the levels without encryption and with it.\<close>

lemma processInMsg_passes:
  assumes "Usm_parseSecurityParameters mem (secParams c) (in_remaining mem c) (idRoom c) (nameRoom c) =
      Ret (Inr (p, mem'))"
    and "secLevel c = PRIOT_SEC_LEVEL_AUTHPRIV \<longrightarrow> length (salt p) = 8"
    and "in_engine cr uptime c p st = Ret (SUCCESS, st1)" and "in_user c p st1 = (SUCCESS, Some u, st2)"
    and "in_digest cr stack mem' c p u" and "in_time cr uptime c p st2 = Ret (SUCCESS, st3)"
    and "has_memory c"
  shows "\<exists>out. params out = Some p \<and> Usm_processInMsg cr uptime stack mem c want st =
    (if secLevel c = PRIOT_SEC_LEVEL_AUTHPRIV then in_decrypt cr stack mem' c p u out st3
     else Ret (SUCCESS, out\<lparr>scopedPdu := Some (in_clear c p)\<rparr>, st3))"
proof -
  define r where "r = (if want then Some (Usm_mallocUsmStateReference (has_memory c)) else None)"
  have r: "r \<noteq> Some None"
    using assms(7) by (simp add: r_def Usm_mallocUsmStateReference_def)
  obtain r1 where r1: "cache (cache_params (has_memory c) (secLevel c) p) r = Some r1" "r1 \<noteq> Some None"
    using cache_room(1) [OF r] assms(7) by auto
  define out where "out = \<lparr>params = Some p,
    scopedPdu = (if secLevel c \<noteq> PRIOT_SEC_LEVEL_AUTHPRIV then Some (in_clear c p) else None),
    maxSizeResponse = None, ref = r1\<rparr>"
  have "Usm_processInMsg cr uptime stack mem c want st = in_checked cr uptime stack mem' c p out st"
    unfolding Usm_processInMsg_def Let_def r_def [symmetric]
    using assms(1,2) r r1 by (auto simp: out_def)
  moreover obtain r2 where "in_checked cr uptime stack mem' c p out st =
    (if secLevel c = PRIOT_SEC_LEVEL_AUTHPRIV then in_decrypt cr stack mem' c p u (out\<lparr>ref := r2\<rparr>) st3
     else Ret (SUCCESS, out\<lparr>ref := r2, scopedPdu := Some (in_clear c p),
       maxSizeResponse := Some (maxMsgSize c - of_nat (data_ptr p))\<rparr>, st3))"
    using in_checked_passes [OF assms(3-7), of out] r1 by (auto simp: out_def)
  ultimately show ?thesis
    by (intro exI [of _ "out\<lparr>ref := r2, maxSizeResponse :=
      (if secLevel c = PRIOT_SEC_LEVEL_AUTHPRIV then None else Some (maxMsgSize c - of_nat (data_ptr p)))\<rparr>"])
      (simp add: out_def)
qed

text \<open>
  C2: A message that \<open>Usm_rgenerateOutMsg\<close> builds is accepted by \<open>Usm_processInMsg\<close> at a receiver with
  a user of the same protocols and keys who knows the engine and in whose window the time lies: the
  digest is right, the security parameters come out as they were sent, and so does the scoped PDU,
  in the clear or decrypted (for DES with its fill bytes).
\<close>

theorem usm_message_accepted:
  assumes "hmac_lengths cr" and "cipher_laws cr"
    and "Usm_rgenerateOutMsg cr uptime env have G secEngine name level pdu sref b st = Ret (SUCCESS, Some b', st')"
    and "out_identity st secEngine name level sref = Inr w"
    and "Engine_get cr uptime (eng st) (theEngineID w) False = (rc, (boots, time), e)"
    and "rbuf_ok b" and "written b = pdu" and "length (written b') \<le> 0xFFFF" and "length pdu \<le> 0xFF00"
    and "sendable w boots time [] [] (idRoom c) (nameRoom c)"
    and "has_memory c" and "secLevel c = theSecLevel w" and "wholeMsgLen c = of_nat (length (written b'))"
    and "Asn01_parseSequence (written b' @ slack) (wholeMsgLen c) (asnSEQUENCE OR asnCONSTRUCTOR) = Ret (q, n, ty)"
    and "secParams c = q + length G" and "length pdu + 7 \<le> pduRoom c"
    and "in_engine cr uptime' c (sent w boots time) rs = Ret (SUCCESS, rs1)"
    and "in_user c (sent w boots time) rs1 = (SUCCESS, Some u, rs2)" and "shares_keys w u"
    and "in_time cr uptime' c (sent w boots time) rs2 = Ret (SUCCESS, rs3)"
  shows "\<exists>out p. Usm_processInMsg cr uptime' stack (written b' @ slack) c want rs = Ret (SUCCESS, out, rs3) \<and>
    params out = Some p \<and> secEngineID p = theEngineID w \<and> msgUserName p = theName w \<and>
    boots_uint p = boots \<and> time_uint p = time \<and>
    (if secLevel c = PRIOT_SEC_LEVEL_AUTHPRIV
     then \<exists>pad < 8. scopedPdu out = Some (Decrypted (pdu @ replicate pad (of_nat pad)))
     else \<exists>at m. scopedPdu out = Some (InMessage at m) \<and> take (unat m) (drop at (written b')) = pdu)"
proof -
  have "small_fields w"
    using assms(10) by (simp add: sendable_def small_fields_def)
  then obtain h1 h2 h3 msalt mac body where
    m: "written b' = message_bytes h1 G h2 h3 (param_bytes w boots time mac msalt) body"
    and lmac: "length mac = mac_length (theSecLevel w)" and lsalt: "length msalt \<le> 8"
    and h3: "ber_length (of_nat (length (param_bytes w boots time mac msalt))) h3"
    and h2: "ber_length (of_nat (Suc (length h3 + length (param_bytes w boots time mac msalt)))) h2"
    and h1: "ber_length (of_nat (length (written b') - Suc (length h1))) h1"
    and auth: "authenticated_level (theSecLevel w) \<longrightarrow>
      (\<exists>p k f. theAuthProtocol w = Some p \<and> theAuthKey w = Some k \<and> hash_of p = Some f \<and> key_length f \<le> length k \<and>
        mac = take 12 (hmac cr f k (message_bytes h1 G h2 h3 (param_bytes w boots time (replicate 12 0) msalt) body)))"
    and clear: "theSecLevel w \<noteq> PRIOT_SEC_LEVEL_AUTHPRIV \<longrightarrow> body = written b"
    and priv: "theSecLevel w = PRIOT_SEC_LEVEL_AUTHPRIV \<longrightarrow>
      (\<exists>vec st1 ct. out_salt w boots time (st\<lparr>eng := e\<rparr>) = Ret (Inr (vec, msalt, st1)) \<and>
        Scapi_encrypt cr (thePrivProtocol w) (thePrivKey w) (Some vec) (Some pdu) (length pdu + 64) = Ret (0, ct) \<and>
        length ct \<le> length pdu + 7 \<and> body = enc_octets ct)"
    by (rule generated_message [OF assms(3-6,1,2) _ assms(9)])
  let ?par = "param_bytes w boots time mac msalt"
  let ?mem = "written b' @ slack"
  have mem: "?mem = message_bytes h1 G h2 h3 ?par (body @ slack)"
    unfolding m by (simp add: message_split [of _ _ _ _ _ body] message_split [of _ _ _ _ _ "body @ slack"])
  have q: "secParams c = 1 + length h1 + length G"
    using message_header [OF m h1 assms(8) assms(14) [unfolded assms(13)]] assms(15) by simp
  have send: "sendable w boots time mac msalt (idRoom c) (nameRoom c)"
    using assms(10) lmac lsalt by (simp add: sendable_def mac_length_def USM_MD5_AND_SHA_AUTH_LEN_def)
  define dp where "dp = length (message_bytes h1 G h2 h3 ?par [])"
  have len: "length (written b') = dp + length body"
    unfolding m dp_def by (subst message_split) simp
  have "unat (wholeMsgLen c) = length (written b')"
    unfolding assms(13) by (rule unat_of_nat64) (use assms(8) in simp)
  then have u: "unat (wholeMsgLen c) = dp + length body"
    using len by simp
  have "unat (of_nat dp :: u64) = dp"
    by (rule unat_of_nat64) (use assms(8) len in simp)
  then have left: "unat (wholeMsgLen c - of_nat dp) = length body"
    using u by (simp add: unat_sub_if)
  have "wholeMsgLen c \<le> 0xFFFF"
    using assms(8) u len by (simp add: word_le_nat_alt)
  then have "2 ^ 63 \<le> unat (in_remaining ?mem c)"
    unfolding mem by (intro remaining_huge) (simp_all only: message_places q)
  moreover have "(0xFFFF :: nat) \<le> 2 ^ 63"
    by simp
  moreover have "2 + length h2 + length h3 + length ?par \<le> dp"
    using message_places(3) [of h1 G h2 h3 ?par] by (simp add: dp_def)
  ultimately have "2 + length h2 + length h3 + length ?par \<le> unat (in_remaining ?mem c)"
    using assms(8) len by linarith
  note parse = parse_message [OF send h3 h2 this, of h1 G "body @ slack", folded mem q dp_def]
  define p where "p = \<lparr>secEngineID = theEngineID w, boots_uint = boots, time_uint = time,
    msgUserName = theName w, signature = mac, salt = msalt, data_ptr = dp\<rparr>"
  define mem' where "mem' = message_bytes h1 G h2 h3 (param_bytes w boots time (replicate (length mac) 0) msalt) (body @ slack)"
  note parse = parse [folded p_def mem'_def]
  have steps: "in_engine cr uptime' c p rs = Ret (SUCCESS, rs1)" "in_user c p rs1 = (SUCCESS, Some u, rs2)"
    "in_time cr uptime' c p rs2 = Ret (SUCCESS, rs3)"
    using assms(17,18,20) in_steps_cong [of p "sent w boots time"] by (simp_all add: p_def sent_def)
  have short: "length mac < 128"
    using lmac by (simp add: mac_length_def USM_MD5_AND_SHA_AUTH_LEN_def)
  have lpar: "length (param_bytes w boots time (replicate (length mac) 0) msalt) = length ?par"
    using short by (simp add: param_bytes_def enc_octets_short)
  have dp': "length (message_bytes h1 G h2 h3 (param_bytes w boots time (replicate (length mac) 0) msalt) []) = dp"
    using lpar by (simp add: message_bytes_def dp_def)
  have d': "drop dp mem' = body @ slack"
    unfolding mem'_def by (subst message_split) (simp add: dp')
  have take': "take (unat (wholeMsgLen c)) mem' =
      message_bytes h1 G h2 h3 (param_bytes w boots time (replicate (length mac) 0) msalt) body"
    unfolding mem'_def u by (subst (1 2) message_split) (simp add: dp')
  have digest: "in_digest cr stack mem' c p u"
  proof (cases "authenticated_level (theSecLevel w)")
    case True
    then have l12: "length mac = 12"
      using lmac by (simp add: mac_length_def USM_MD5_AND_SHA_AUTH_LEN_def)
    obtain k f where k: "authKey u = Some k" "hash_of (authProtocol u) = Some f" "key_length f \<le> length k"
      and mac: "mac = take 12 (hmac cr f k (take (unat (wholeMsgLen c)) mem'))"
      using auth True assms(19) unfolding take' l12 by (auto simp: shares_keys_def)
    have "12 \<le> length (take (unat (wholeMsgLen c)) mem')"
      unfolding take' using l12 by (simp add: message_bytes_def param_bytes_def enc_octets_short)
    then show ?thesis
      using k mac by (simp add: in_digest_def check_success [OF assms(1)] p_def)
  qed (simp add: in_digest_def assms(12))
  have salt8: "secLevel c = PRIOT_SEC_LEVEL_AUTHPRIV \<longrightarrow> length (salt p) = 8"
    using priv out_salt_shape assms(12) by (fastforce simp: p_def)
  obtain out where out: "params out = Some p" and run: "Usm_processInMsg cr uptime' stack ?mem c want rs =
    (if secLevel c = PRIOT_SEC_LEVEL_AUTHPRIV then in_decrypt cr stack mem' c p u out rs3
     else Ret (SUCCESS, out\<lparr>scopedPdu := Some (in_clear c p)\<rparr>, rs3))"
    using processInMsg_passes [OF parse salt8 steps(1,2) digest steps(3) assms(11)] by blast
  show ?thesis
  proof (cases "secLevel c = PRIOT_SEC_LEVEL_AUTHPRIV")
    case False
    then have "body = pdu"
      using clear assms(7,12) by simp
    moreover note left
    moreover have "drop dp (written b') = body"
      unfolding m by (subst message_split) (simp add: dp_def)
    ultimately show ?thesis
      using run False out by (simp add: in_clear_def p_def)
  next
    case True
    obtain vec st1 ct where salt: "out_salt w boots time (st\<lparr>eng := e\<rparr>) = Ret (Inr (vec, msalt, st1))"
      and ct: "Scapi_encrypt cr (thePrivProtocol w) (thePrivKey w) (Some vec) (Some pdu) (length pdu + 64) = Ret (0, ct)"
      and lct: "length ct \<le> length pdu + 7" and body: "body = enc_octets ct"
      using priv True assms(12) by auto
    obtain k where l8: "length msalt = 8" and k: "privKey u = Some k" "thePrivKey w = Some k"
      and proto: "privProtocol u = usm_dESPrivProtocol \<and> 16 \<le> length k \<and> vec = map2 (XOR) msalt (drop 8 k) \<or>
        privProtocol u = usm_aESPrivProtocol \<and> vec = htonl_bytes boots @ htonl_bytes time @ msalt"
      using out_salt_shape [OF salt ct] assms(19) by (auto simp: shares_keys_def)
    have w: "thePrivProtocol w = Some (privProtocol u)"
      using assms(19) by (simp add: shares_keys_def)
    have "length ct \<le> pduRoom c"
      using lct assms(16) by simp
    from encrypt_decrypt [OF assms(2) ct [unfolded w k(2)] this] obtain pad where pad: "pad < 8"
      and plain: "Scapi_decrypt cr (Some (privProtocol u)) (Some k) (Some vec) (Some ct) (pduRoom c) =
        Ret (0, pdu @ replicate pad (of_nat pad))"
      and kind: "privProtocol u = usm_dESPrivProtocol \<and> 8 dvd length ct \<or> privProtocol u = usm_aESPrivProtocol"
      by blast
    have c: "length ct \<le> 0xFFFF"
      using lct assms(9) by simp
    have drop: "drop (data_ptr p) mem' = enc_octets ct @ slack"
      using d' body by (simp add: p_def)
    have fit: "length (enc_octets ct) \<le> unat (wholeMsgLen c - of_nat (data_ptr p))"
      using left body by (simp add: p_def)
    have "privProtocol u = usm_dESPrivProtocol \<and> 16 \<le> length k \<and> 8 dvd length ct \<and>
        vec = map2 (XOR) (salt p) (drop 8 k) \<or>
      privProtocol u = usm_aESPrivProtocol \<and>
        vec = htonl_bytes (boots_uint p) @ htonl_bytes (time_uint p) @ salt p"
      using proto kind by (auto simp: p_def)
    from in_decrypt_passes [OF drop c fit _ k(1) this plain, where stack = stack and out = out and st = rs3] l8
    obtain mx where "in_decrypt cr stack mem' c p u out rs3 =
      Ret (SUCCESS, out\<lparr>scopedPdu := Some (Decrypted (pdu @ replicate pad (of_nat pad))), maxSizeResponse := mx\<rparr>, rs3)"
      by (auto simp: p_def)
    then show ?thesis
      using run out True pad by (auto simp: p_def)
  qed
qed

definition toy_sender :: usm where
  "toy_sender = toy_usm\<lparr>userList :=
     [toy_user\<lparr>privProtocol := usm_dESPrivProtocol, privKey := Some (replicate 16 0)\<rparr>]\<rparr>"

definition toy_identity :: identity where
  "toy_identity = \<lparr>theName = [97], theEngineID = [9], theAuthProtocol = Some usm_hMACMD5AuthProtocol,
     theAuthKey = Some (replicate 16 1), thePrivProtocol = Some usm_dESPrivProtocol,
     thePrivKey = Some (replicate 16 0), theSecLevel = PRIOT_SEC_LEVEL_AUTHPRIV\<rparr>"

definition toy_buffer :: rbuf where
  "toy_buffer = \<lparr>pkt = [0, 0x30, 1, 0], offset = 3\<rparr>"

definition toy_sent :: "u8 list" where
  "toy_sent = [0x30, 53, 2, 1, 3, 4, 38, 0x30, 36, 4, 1, 9, 2, 1, 3, 2, 1, 100, 4, 1, 97, 4, 12,
     7, 7, 7, 7, 7, 7, 7, 7, 7, 7, 7, 7, 4, 8, 0, 0, 0, 1, 0, 0, 0, 5, 4, 8, 49, 2, 1, 6, 6, 6, 6, 6]"

definition toy_private_call :: call where
  "toy_private_call = toy_call\<lparr>secParams := 5, secLevel := PRIOT_SEC_LEVEL_AUTHPRIV, wholeMsgLen := 55, pduRoom := 20\<rparr>"

lemma toy_generated:
  "case Usm_rgenerateOutMsg toy_crypto (\<lambda>_. 10) \<lparr>alloc_ok = \<lambda>_. True, fresh = \<lambda>_. 0\<rparr> True [2, 1, 3] [9] [97]
     PRIOT_SEC_LEVEL_AUTHPRIV [0x30, 1, 0] None toy_buffer toy_sender of
   Ret (rc, Some b, st') \<Rightarrow> rc = SUCCESS \<and> written b = toy_sent | _ \<Rightarrow> False"
  by code_simp

lemma toy_received:
  "case in_engine toy_crypto (\<lambda>_. 10) toy_private_call (sent toy_identity 3 100) toy_sender of
     Ret (rc1, rs1) \<Rightarrow> rc1 = SUCCESS \<and>
       (case in_user toy_private_call (sent toy_identity 3 100) rs1 of
          (rc2, Some u, rs2) \<Rightarrow> rc2 = SUCCESS \<and> shares_keys toy_identity u \<and>
            (case in_time toy_crypto (\<lambda>_. 10) toy_private_call (sent toy_identity 3 100) rs2 of
               Ret (rc3, rs3) \<Rightarrow> rc3 = SUCCESS | _ \<Rightarrow> False)
        | _ \<Rightarrow> False)
   | _ \<Rightarrow> False"
  by code_simp

lemma toy_clock: "fst (snd (Engine_get toy_crypto (\<lambda>_. 10) (eng toy_sender) [9] False)) = (3, 100)"
  by code_simp

lemma usm_message_accepted_witness:
  "\<exists>out (rs :: usm) pad. Usm_processInMsg toy_crypto (\<lambda>_. 10) [] toy_sent toy_private_call True toy_sender =
    Ret (SUCCESS, out, rs) \<and> pad < 8 \<and> scopedPdu out = Some (Decrypted ([0x30, 1, 0] @ replicate pad (of_nat pad)))"
proof -
  obtain b' st' where g: "Usm_rgenerateOutMsg toy_crypto (\<lambda>_. 10) \<lparr>alloc_ok = \<lambda>_. True, fresh = \<lambda>_. 0\<rparr> True
      [2, 1, 3] [9] [97] PRIOT_SEC_LEVEL_AUTHPRIV [0x30, 1, 0] None toy_buffer toy_sender = Ret (SUCCESS, Some b', st')"
    and b': "written b' = toy_sent"
    using toy_generated by (auto split: outcome.splits prod.splits option.splits)
  obtain rs1 u rs2 rs3 where r: "in_engine toy_crypto (\<lambda>_. 10) toy_private_call (sent toy_identity 3 100) toy_sender =
      Ret (SUCCESS, rs1)"
    "in_user toy_private_call (sent toy_identity 3 100) rs1 = (SUCCESS, Some u, rs2)"
    "shares_keys toy_identity u"
    "in_time toy_crypto (\<lambda>_. 10) toy_private_call (sent toy_identity 3 100) rs2 = Ret (SUCCESS, rs3)"
  proof (cases "in_engine toy_crypto (\<lambda>_. 10) toy_private_call (sent toy_identity 3 100) toy_sender")
    case (Ret x)
    obtain rc1 rs1 where x: "x = (rc1, rs1)"
      by (cases x)
    obtain rc2 uo rs2 where y: "in_user toy_private_call (sent toy_identity 3 100) rs1 = (rc2, uo, rs2)"
      by (cases "in_user toy_private_call (sent toy_identity 3 100) rs1")
    then obtain u where u: "uo = Some u"
      using toy_received Ret x by (cases uo) auto
    then obtain rc3 rs3 where "in_time toy_crypto (\<lambda>_. 10) toy_private_call (sent toy_identity 3 100) rs2 = Ret (rc3, rs3)"
      using toy_received Ret x y
      by (cases "in_time toy_crypto (\<lambda>_. 10) toy_private_call (sent toy_identity 3 100) rs2") auto
    then show thesis
      using toy_received Ret x y u that by simp
  qed (use toy_received in simp_all)
  obtain rc e where c: "Engine_get toy_crypto (\<lambda>_. 10) (eng toy_sender) (theEngineID toy_identity) False = (rc, (3, 100), e)"
    using toy_clock by (cases "Engine_get toy_crypto (\<lambda>_. 10) (eng toy_sender) [9] False") (auto simp: toy_identity_def)
  have w: "out_identity toy_sender [9] [97] PRIOT_SEC_LEVEL_AUTHPRIV None = Inr toy_identity"
    by code_simp
  have f1: "rbuf_ok toy_buffer" "written toy_buffer = [0x30, 1, 0]"
    by (simp_all add: rbuf_ok_def written_def toy_buffer_def)
  have f2: "length (written b') \<le> 0xFFFF" "length [0x30, 1, 0 :: u8] \<le> 0xFF00"
    "sendable toy_identity 3 100 [] [] (idRoom toy_private_call) (nameRoom toy_private_call)"
    "has_memory toy_private_call" "secLevel toy_private_call = theSecLevel toy_identity"
    "wholeMsgLen toy_private_call = of_nat (length (written b'))"
    by (simp_all add: b' toy_sent_def sendable_def toy_identity_def toy_private_call_def toy_call_def)
  have f3: "Asn01_parseSequence (written b' @ []) (wholeMsgLen toy_private_call) (asnSEQUENCE OR asnCONSTRUCTOR) =
      Ret (2, 53, 0x30)"
    unfolding b' by code_simp
  have f4: "secParams toy_private_call = 2 + length [2, 1, 3 :: u8]"
    "length [0x30, 1, 0 :: u8] + 7 \<le> pduRoom toy_private_call"
    by (simp_all add: toy_private_call_def)
  have "secLevel toy_private_call = PRIOT_SEC_LEVEL_AUTHPRIV"
    by (simp add: toy_private_call_def)
  then obtain out where "Usm_processInMsg toy_crypto (\<lambda>_. 10) [] (written b' @ []) toy_private_call True toy_sender =
      Ret (SUCCESS, out, rs3)"
    "\<exists>pad<8. scopedPdu out = Some (Decrypted ([0x30, 1, 0] @ replicate pad (of_nat pad)))"
    using usm_message_accepted [OF toy_hmac toy_cipher g w c f1 f2 f3 f4 r, where want = True and stack = "[]"]
    by (metis (no_types))
  then show ?thesis
    unfolding b' append_Nil2 by blast
qed

end
