(* ===== verification/Spec2Isabelle.thy ===== *)
theory Spec2Isabelle
  imports AsnProps AsnFloat VarOp OidCmp VacmProps RowCheck ContProps SecModel AlarmProps SetProps StoreProps CallbackProps UsmProps UsmParts UsmRound
begin

text \<open>
  A verification library for the protocol core of Priot, the SNMP agent and library under
  src/Firmware: the messages, the data structures and the processing of requests, from the bytes
  of a packet to the variables of the agent.

  \<^bold>\<open>How the parts of the program interact\<close>

  A message arrives as bytes. \<open>Asn01.c\<close> parses and builds the basic encodings, \<open>Priot.c\<close> puts them
  together to variable bindings. The security model that a message names is looked up in
  \<open>SecMod.c\<close>; the view-based access control of \<open>Vacm.c\<close> and \<open>VacmConf.c\<close> decides whether the
  identifiers of the request may be accessed. \<open>Agent.c\<close> groups the bindings and drives the modes
  of a request through the chains of handlers of \<open>AgentHandler.c\<close>, down to a handler such as the
  one of \<open>Watcher.c\<close>, which reads and writes a variable of the program. Around this stand the
  sorted containers that the tables of the agent are kept in, the configuration text and the store
  of default values, the alarms, and the conventions for the rows of a table.

  \<^bold>\<open>Theories and the code they model\<close>

  \<^item> PriotBase: machine types, outcomes of C functions, facts about words and lists.
  \<^item> AsnBase, AsnInt, AsnString, AsnOid, AsnInt64, AsnFloat: the lengths, headers and
    values of \<open>Core/Asn01.c\<close>; a message is the list of its bytes, the pointer an offset, the
    remaining length a \<open>size_t\<close>.
  \<^item> AsnRev, AsnRev64: the reverse builders of \<open>Core/Asn01.c\<close>, which fill a growing
    buffer from its end; AsnRev64 shows that those of 64-bit integers, floats and doubles
    write what the forward ones do.
  \<^item> Integer64: \<open>Core/System/Numerics/Integer64.c\<close>, pairs of 32-bit words as 64-bit
    numbers.
  \<^item> VarOp: \<open>Core/Priot.c\<close>: variable bindings.
  \<^item> OidCmp: the comparisons of object identifiers in \<open>Core/Api.c\<close>.
  \<^item> LinkedList, Vacm, VacmAccess: \<open>Core/System/AccessControl/Vacm.c\<close>: the tables of
    views, groups and access entries; VacmProps adds the decision of
    \<open>Plugin/mibII/VacmConf.c\<close>.
  \<^item> BinSort, BinArray, ListSsll, Containers: \<open>Core/System/Containers\<close>: the sorted array
    with its quick sort, the linked lists, the interface with its chains of indexes; ContProps
    has their properties.
  \<^item> Maps, SecModel: \<open>Core/System/Containers/Map.c\<close>, \<open>MapList.c\<close> and
    \<open>Core/System/Security/SecMod.c\<close>.
  \<^item> TextConv, RowCheck: \<open>Core/TextualConvention.c\<close>: row status and storage type;
    \<open>Core/System/Util/VariableList.c\<close>: the checks of a binding before a SET, and the rows of a
    table that uses them.
  \<^item> Alarm, AlarmProps: \<open>Core/System/Util/Alarm.c\<close>: the table of alarms, the timer and
    the run of the due alarms.
  \<^item> AgentHandler, WatchedVar, AgentSet, SetRun: \<open>Priot/AgentHandler.c\<close> with the
    serialize and read-only helpers, \<open>Priot/Watcher.c\<close> and \<open>Priot/Instance.c\<close>, and the passes
    of a SET in \<open>Priot/Agent.c\<close>; SetRun follows the passes with a log of the calls;
    SetContract and SetProps have the contract of the handlers and its interpretation.
  \<^item> CText, ConfText: string functions of the C library and the words and octet strings
    of \<open>Core/ReadConfig.c\<close>.
  \<^item> DefaultStore, StoreProps: \<open>Core/System/Util/DefaultStore.c\<close>: the store of default
    values, with its strings on a heap.
  \<^item> Callbacks, CallbackProps: \<open>Core/System/Util/Callback.c\<close>: the lists of callbacks by
    priority, their locks and the traversal that calls them.
  \<^item> Scapi: \<open>Core/System/Security/Scapi.c\<close>: keyed hashes and ciphers over the primitives
    of OpenSSL, which are a record \<open>crypto\<close>.
  \<^item> Engine: \<open>Core/System/Security/Engine.c\<close> and the local engine of \<open>Core/V3.c\<close>: the
    boots and times of the engines heard of.
  \<^item> UsmUser, UsmMsg, UsmIn: \<open>Core/System/Security/Usm.c\<close>: the ordered list of users;
    the parser of the security parameters, the time window and the salts; the processing of an
    incoming message, as the sequence of its steps.
  \<^item> UsmOut, UsmRound: \<open>Usm_rgenerateOutMsg\<close> of \<open>Core/System/Security/Usm.c\<close>, the
    building of an outgoing message, and its acceptance by a receiver.
  \<^item> UsmClock, UsmExample, UsmProps, UsmParts: the abstract clock of an engine and the
    contract of its records, one concrete message, and the properties of the whole and of the
    parts of the security model.

  Every definition is translated from the code with its guards, error returns and order of
  effects. The correspondence of each definition to lines of the sources is in the map of the
  manifest that accompanies the library. Functions that touch memory return an \<open>outcome\<close>: \<open>Crash\<close>
  for an access outside an object or of a freed one, \<open>Null\<close> for an error return, \<open>Ret\<close> for a
  result. Machine integers keep their width where the code depends on it (\<open>u8\<close> to \<open>u64\<close> in
  PriotBase, LP64).

  \<^bold>\<open>Interfaces\<close>

  The parts meet in locales, each interpreted on the definitions of the part that provides it: the
  parsers and codecs of a BER value (AsnBase), the orders that a comparison function gives and the
  containers kept by them (BinSort, Containers), the links of the access tables (LinkedList),
  dictionaries (Maps), and the set of handlers that a SET runs over (SetContract, interpreted for
  the watched variables in SetProps), the records of engine times (UsmClock). A client is proved
  against the laws of the locale and its theorems are stated over the code's own functions.

  \<^bold>\<open>What is proved\<close>

  Round trips of every encoding of the protocol, forward and reverse, with the bounds of what the
  parsers read; the arithmetic and printing of 64-bit counters; the access tables as sorted tables
  with longest-match lookup and the access decision built on them; sorting, searching and walking
  of the containers and the atomicity of inserting into a chain; the row-status state machine; the
  alarms as a liveness property; the protocol, the termination and the atomicity of a SET; the
  refinement of the store of defaults to independent maps; the order in which callbacks run, and
  what becomes of their locks when they use their own event; the authenticity and timeliness of
  messages under the security model of users, that its clocks never go back, and that a message it
  builds is accepted with its contents by an engine that shares the user. Where the code departs
  from what it promises, the theorem states what it does: the findings of the manifest name them.

  \<^bold>\<open>Bounds and fuel\<close>

  Recursion is structural or has a measure wherever the loop of the code ends by itself. Fuel
  appears in these places: the rounds of a SET are counted, of which six are always enough: five
  decisions and the look at the final mode (\<open>set_loop_ends\<close>), and the runs of the alarms one round
  more than there are alarms (\<open>alarms_all_run\<close>); the traversal of callbacks one round more than
  there are callbacks (\<open>callbacks_in_order\<close>). The theorems state that this fuel suffices.

  \<^bold>\<open>What is a parameter\<close>

  The clock, the functions that callbacks and handlers run, the allocator, the answers of malloc,
  the comparison functions of a container: what the code calls through pointers or takes from the
  system is an argument of the definitions, with named hypotheses where a theorem needs them.

  \<^bold>\<open>Not modelled\<close>

  \<^item> Sessions, transports, the event loop, files, logging, the daemon: input and output;
    the operating system would have to be modelled in their place.
  \<^item> Mib.c, Parse.c: the compiler of MIB modules and the printing by display hints,
    which serve the command line tools.
  \<^item> KeyTools.c: a loop over calls of OpenSSL; and of Usm.c the forward variant of the
    building of outgoing messages, the sessions and the lines of users in configuration files.
  \<^item> The table helpers, Trap.c, AgentX: left for a further extension: they rest on parts
    that are modelled here.
  \<^item> Plugin: the MIB modules, which are generated around the reading of /proc and
    netlink.

  Logging and debug output is left out everywhere, as are locks between threads: the program has a
  single thread.
\<close>

end
